(* ===== verification/Prelude.thy ===== *)
theory Prelude
  imports Main "HOL-Library.Word" "HOL-Library.Char_ord" "HOL-Library.List_Lexorder"
begin

text \<open>
  Shared by every component: the failures of C++ code as values, the result type and its
  sequencing, \<open>size_t\<close> arithmetic with its wrap-around, indexing that fails out of range,
  and the list lemmas several components need.
\<close>

unbundle bit_operations_syntax

named_theorems result_simps \<open>equations of the result combinators\<close>

section \<open>Machine types\<close>

type_synonym u8 = "8 word"
type_synonym u16 = "16 word"
type_synonym u32 = "32 word"
type_synonym u64 = "64 word"
type_synonym bytes = "u8 list"

text \<open>
  \<open>size_t\<close> values that count or index are natural numbers below \<open>2 ^ 64\<close>; the operations the
  code performs on them wrap around.
\<close>

definition size_lim :: nat where
  "size_lim = 2 ^ 64"

definition sz_add :: "nat \<Rightarrow> nat \<Rightarrow> nat" where
  "sz_add a b = (a + b) mod size_lim"

definition sz_sub :: "nat \<Rightarrow> nat \<Rightarrow> nat" where
  "sz_sub a b = (a + (size_lim - b mod size_lim)) mod size_lim"

definition sz_mul :: "nat \<Rightarrow> nat \<Rightarrow> nat" where
  "sz_mul a b = (a * b) mod size_lim"

lemma sz_add_exact [simp]: "a + b < size_lim \<Longrightarrow> sz_add a b = a + b"
  by (simp add: sz_add_def)

lemma sz_mul_exact [simp]: "a * b < size_lim \<Longrightarrow> sz_mul a b = a * b"
  by (simp add: sz_mul_def)

lemma sz_sub_exact [simp]: "b \<le> a \<Longrightarrow> a < size_lim \<Longrightarrow> sz_sub a b = a - b"
proof -
  assume ab: "b \<le> a" "a < size_lim"
  then have "a + (size_lim - b mod size_lim) = (a - b) + size_lim" by simp
  then have "sz_sub a b = ((a - b) + size_lim) mod size_lim"
    by (simp only: sz_sub_def)
  also have "\<dots> = a - b" using ab by (simp only: mod_add_self2) simp
  finally show "sz_sub a b = a - b" .
qed

text \<open>The range of \<open>int\<close>.\<close>

definition INT_MAX :: int where
  "INT_MAX = 2147483647"

definition INT_MIN :: int where
  "INT_MIN = - 2147483648"

lemma sz_sub_0_1: "sz_sub 0 1 = size_lim - 1"
  by (simp add: sz_sub_def size_lim_def)

section \<open>Failures as values\<close>

text \<open>
  What the C++ code does beyond returning: a failed \<open>assert\<close>, a thrown exception, or an access
  the language leaves undefined (an index out of range of a \<open>std::array\<close>, a
  \<open>std::vector\<close> or a \<open>std::string_view\<close>). \<open>NeverReturns\<close> is a call that waits for ever.
\<close>

datatype cpp_error =
    AssertFailed string
  | UndefinedBehaviour string
  | RuntimeError string
  | LogicError string
  | NeverReturns string

type_synonym 'a result = "cpp_error + 'a"

fun res_bind :: "'a result \<Rightarrow> ('a \<Rightarrow> 'b result) \<Rightarrow> 'b result" where
  "res_bind (Inl e) f = Inl e"
| "res_bind (Inr x) f = f x"

definition assert_r :: "bool \<Rightarrow> string \<Rightarrow> unit result" where
  "assert_r b msg = (if b then Inr () else Inl (AssertFailed msg))"

fun map_r :: "('a \<Rightarrow> 'b result) \<Rightarrow> 'a list \<Rightarrow> 'b list result" where
  "map_r f [] = Inr []"
| "map_r f (x # xs) = res_bind (f x) (\<lambda>y. res_bind (map_r f xs) (\<lambda>ys. Inr (y # ys)))"

definition index_r :: "'a list \<Rightarrow> nat \<Rightarrow> string \<Rightarrow> 'a result" where
  "index_r xs i what = (if i < length xs then Inr (xs ! i) else Inl (UndefinedBehaviour what))"

definition is_ok :: "'a result \<Rightarrow> bool" where
  "is_ok r \<longleftrightarrow> (case r of Inl _ \<Rightarrow> False | Inr _ \<Rightarrow> True)"

lemma is_ok_simps [simp]: "is_ok (Inr x)" "\<not> is_ok (Inl e)"
  by (simp_all add: is_ok_def)

lemma res_bind_Inr [result_simps]:
  "res_bind m f = Inr y \<longleftrightarrow> (\<exists>x. m = Inr x \<and> f x = Inr y)"
  by (cases m) auto

lemma assert_r_simps [simp]:
  "b \<Longrightarrow> assert_r b msg = Inr ()"
  "\<not> b \<Longrightarrow> assert_r b msg = Inl (AssertFailed msg)"
  by (simp_all add: assert_r_def)

lemma assert_r_Inr [result_simps]: "assert_r b msg = Inr u \<longleftrightarrow> b"
  by (simp add: assert_r_def)

lemma index_r_simps [simp]:
  "i < length xs \<Longrightarrow> index_r xs i w = Inr (xs ! i)"
  "\<not> i < length xs \<Longrightarrow> index_r xs i w = Inl (UndefinedBehaviour w)"
  by (simp_all add: index_r_def)

lemma map_r_Inr: "(\<And>x. x \<in> set xs \<Longrightarrow> f x = Inr (g x)) \<Longrightarrow> map_r f xs = Inr (map g xs)"
  by (induction xs) auto

lemma map_r_Inl:
  "x \<in> set xs \<Longrightarrow> f x = Inl e \<Longrightarrow> \<exists>e'. map_r f xs = Inl e'"
proof (induction xs)
  case Nil
  then show ?case by simp
next
  case (Cons y ys)
  show ?case
  proof (cases "f y")
    case (Inl a)
    then show ?thesis by simp
  next
    case (Inr b)
    with Cons.prems have "x \<in> set ys" by auto
    then obtain e' where "map_r f ys = Inl e'" using Cons by auto
    with Inr show ?thesis by simp
  qed
qed

lemma length_map_r: "map_r f xs = Inr ys \<Longrightarrow> length ys = length xs"
  by (induction xs arbitrary: ys) (auto simp: res_bind_Inr)

section \<open>Lists\<close>

lemma take_take_prefix: "n \<le> m \<Longrightarrow> take n (take m xs) = take n xs"
  by (simp add: min_absorb1)

lemma distinct_map_fst_inj:
  "distinct (map fst xs) \<Longrightarrow> (k, v) \<in> set xs \<Longrightarrow> (k, w) \<in> set xs \<Longrightarrow> v = w"
  by (meson eq_key_imp_eq_value)

end
