(* ===== verification/Common_Utils.thy ===== *)
theory Common_Utils
  imports Prelude
begin

text \<open>
  \<open>kvstore/common/utils.cpp\<close>: splitting a command line at a delimiter, recognising numbers and
  changing case. A \<open>std::string\<close> is a list of bytes (\<open>char list\<close>); the character functions are
  those of the C locale, which change ASCII letters only.
\<close>

section \<open>Character classes of the C locale\<close>

definition char_code :: "char \<Rightarrow> nat" where
  "char_code c = of_char c"

definition isdigit :: "char \<Rightarrow> bool" where
  "isdigit c \<longleftrightarrow> 48 \<le> char_code c \<and> char_code c \<le> 57"

definition toupper :: "char \<Rightarrow> char" where
  "toupper c = (if 97 \<le> char_code c \<and> char_code c \<le> 122 then char_of (char_code c - 32) else c)"

definition tolower :: "char \<Rightarrow> char" where
  "tolower c = (if 65 \<le> char_code c \<and> char_code c \<le> 90 then char_of (char_code c + 32) else c)"

section \<open>The functions of utils.cpp\<close>

text \<open>
  \<open>std::getline(iss, item, delim)\<close> fails at the end of the stream; otherwise it takes the
  characters up to the next delimiter, which it consumes. Empty items are not kept.
\<close>

fun split_str :: "string \<Rightarrow> char \<Rightarrow> string list" where
  "split_str s delim =
     (if s = [] then []
      else let item = takeWhile (\<lambda>c. c \<noteq> delim) s;
               rest = drop (Suc (length item)) s
           in (if item \<noteq> [] then item # split_str rest delim else split_str rest delim))"

declare split_str.simps [simp del]

definition is_number :: "string \<Rightarrow> bool" where
  "is_number s \<longleftrightarrow> s \<noteq> [] \<and> fold (\<lambda>c a. a \<and> isdigit c) s True"

definition to_upper :: "string \<Rightarrow> string" where
  "to_upper s = map toupper s"

definition to_lower :: "string \<Rightarrow> string" where
  "to_lower s = map tolower s"

section \<open>Facts\<close>

lemma fold_conj: "fold (\<lambda>c a. a \<and> P c) s b \<longleftrightarrow> b \<and> (\<forall>c\<in>set s. P c)"
  by (induction s arbitrary: b) auto

lemma is_number_iff: "is_number s \<longleftrightarrow> s \<noteq> [] \<and> (\<forall>c\<in>set s. isdigit c)"
  by (simp add: is_number_def fold_conj)

lemma length_to_upper [simp]: "length (to_upper s) = length s"
  by (simp add: to_upper_def)

lemma char_code_char_of [simp]: "n < 256 \<Longrightarrow> char_code (char_of n) = n"
  by (simp add: char_code_def)

lemma toupper_idem [simp]: "toupper (toupper c) = toupper c"
  by (auto simp: toupper_def)

lemma to_upper_idem [simp]: "to_upper (to_upper s) = to_upper s"
  by (simp add: to_upper_def)

lemma split_str_Nil [simp]: "split_str [] d = []"
  by (subst split_str.simps) simp

lemma split_str_delim [simp]: "split_str (d # s) d = split_str s d"
  by (subst split_str.simps) simp

lemma takeWhile_item:
  "d \<notin> set w \<Longrightarrow> takeWhile (\<lambda>c. c \<noteq> d) (w @ d # s) = w"
  "d \<notin> set w \<Longrightarrow> takeWhile (\<lambda>c. c \<noteq> d) w = w"
  by (induction w) auto

lemma split_str_word:
  assumes "d \<notin> set w" "w \<noteq> []"
  shows "split_str (w @ d # s) d = w # split_str s d" "split_str w d = [w]"
  using assms by (simp_all add: split_str.simps[of "w @ d # s"] split_str.simps[of w] takeWhile_item Let_def)

lemma split_str_items:
  "w \<in> set (split_str s d) \<Longrightarrow> w \<noteq> [] \<and> d \<notin> set w"
proof (induction s d rule: split_str.induct)
  case (1 s d)
  then show ?case
    by (subst (asm) (2) split_str.simps)
      (auto simp: Let_def split: if_splits dest: set_takeWhileD)
qed

lemma concat_split_str: "concat (split_str s d) = filter (\<lambda>c. c \<noteq> d) s"
proof (induction s d rule: split_str.induct)
  case (1 s d)
  define w where "w = takeWhile (\<lambda>c. c \<noteq> d) s"
  have w: "filter (\<lambda>c. c \<noteq> d) w = w"
    by (auto simp: w_def filter_id_conv dest: set_takeWhileD)
  have s: "s = w @ dropWhile (\<lambda>c. c \<noteq> d) s"
    by (simp add: w_def)
  have dw: "dropWhile (\<lambda>c. c \<noteq> d) s = drop (length w) s"
    by (simp add: w_def dropWhile_eq_drop)
  have "filter (\<lambda>c. c \<noteq> d) (drop (length w) s) = filter (\<lambda>c. c \<noteq> d) (drop (Suc (length w)) s)"
  proof (cases "drop (length w) s")
    case Nil
    then show ?thesis by simp
  next
    case (Cons c cs)
    then have "\<not> c \<noteq> d" using dw dropWhile_eq_Cons_conv[of "\<lambda>c. c \<noteq> d" s c cs] by simp
    then have "c = d" by simp
    moreover have "drop (Suc (length w)) s = cs"
      using Cons by (simp add: drop_Suc drop_tl)
    ultimately show ?thesis using Cons by simp
  qed
  then have f: "filter (\<lambda>c. c \<noteq> d) s = w @ filter (\<lambda>c. c \<noteq> d) (drop (Suc (length w)) s)"
    using s dw w by (metis filter_append)
  show ?case
  proof (cases "s = []")
    case True
    then show ?thesis by simp
  next
    case False
    have "concat (split_str s d) = w @ concat (split_str (drop (Suc (length w)) s) d)"
      using False by (subst split_str.simps) (simp add: Let_def w_def)
    also have "concat (split_str (drop (Suc (length w)) s) d)
        = filter (\<lambda>c. c \<noteq> d) (drop (Suc (length w)) s)"
      using 1[OF False, of w "drop (Suc (length w)) s"] by (cases "w = []") (auto simp: w_def)
    finally show ?thesis using f by simp
  qed
qed

end
