(* ===== verification/Common_Shard.thy ===== *)
theory Common_Shard
  imports Common_Utils
begin

text \<open>
  \<open>kvstore/common/shard.hpp\<close> and \<open>shard.cpp\<close>: shards, which are closed intervals of keys
  written with one to four characters of a 36-letter alphabet; the numbering of these keys by
  buckets; splitting a shard; the relative position of two shards; and the division of the whole
  key space into a given number of shards.
\<close>

section \<open>Constants and data\<close>

definition MAX_GRANULARITY :: nat where
  "MAX_GRANULARITY = 4"

definition VALID_CHARS :: string where
  "VALID_CHARS = ''0123456789ABCDEFGHIJKLMNOPQRSTUVWXYZ''"

text \<open>The initialiser of the constant array: one power of 36 per granularity, by a loop.\<close>

fun pow_loop :: "nat \<Rightarrow> nat \<Rightarrow> nat" where
  "pow_loop 0 num_buckets = num_buckets"
| "pow_loop (Suc k) num_buckets = pow_loop k (num_buckets * length VALID_CHARS)"

definition GRANULARITY_OPTS :: "nat list" where
  "GRANULARITY_OPTS = map (\<lambda>granularity. pow_loop granularity 1) [0..<MAX_GRANULARITY + 1]"

record Shard =
  lower :: string
  upper :: string

datatype OverlapStatus =
    NO_OVERLAP | OVERLAP_START | OVERLAP_END | COMPLETELY_CONTAINS | COMPLETELY_CONTAINED

definition granularity :: "Shard \<Rightarrow> nat result" where
  "granularity sh =
     res_bind (assert_r (length (lower sh) = length (upper sh)) ''lower.size() == upper.size()'')
       (\<lambda>_. Inr (length (lower sh)))"

text \<open>\<open>s.compare(0, n, t)\<close>: the sign of the comparison of the first \<open>n\<close> bytes of \<open>s\<close> with \<open>t\<close>.\<close>

definition str_compare :: "string \<Rightarrow> nat \<Rightarrow> string \<Rightarrow> int" where
  "str_compare s n t = (let p = take n s in if p < t then - 1 else if p = t then 0 else 1)"

definition contains :: "Shard \<Rightarrow> string \<Rightarrow> bool result" where
  "contains sh s = res_bind (granularity sh) (\<lambda>g.
     Inr (0 \<le> str_compare s g (lower sh) \<and> str_compare s g (upper sh) \<le> 0))"

definition shard_less :: "Shard \<Rightarrow> Shard \<Rightarrow> bool" where
  "shard_less a b \<longleftrightarrow> lower a < lower b"

section \<open>Buckets\<close>

text \<open>\<open>std::find\<close> over the alphabet: the position found, or the length when there is none.\<close>

fun find_pos :: "'a list \<Rightarrow> 'a \<Rightarrow> nat" where
  "find_pos [] c = 0"
| "find_pos (x # xs) c = (if x = c then 0 else Suc (find_pos xs c))"

definition is_valid :: "string \<Rightarrow> bool" where
  "is_valid s \<longleftrightarrow> list_all (\<lambda>c. find_pos VALID_CHARS (toupper c) \<noteq> length VALID_CHARS) s"

text \<open>
  The first loop of \<open>bucket_to_str\<close>; its last argument but one counts the iterations left, so
  \<open>i = granularity - Suc r\<close> in the iteration with \<open>Suc r\<close> left. The arrays have
  \<open>MAX_GRANULARITY + 1\<close> and \<open>MAX_GRANULARITY\<close> elements.
\<close>

fun indices_loop :: "nat \<Rightarrow> nat \<Rightarrow> nat \<Rightarrow> nat list result" where
  "indices_loop g 0 n_left = Inr []"
| "indices_loop g (Suc r) n_left =
     (let i = g - Suc r in
      res_bind (index_r GRANULARITY_OPTS (g - i - 1) ''GRANULARITY_OPTS'') (\<lambda>opt.
        if i < MAX_GRANULARITY
        then res_bind (indices_loop g r (n_left mod opt)) (\<lambda>rest. Inr (n_left div opt # rest))
        else Inl (UndefinedBehaviour ''indices'')))"

definition bucket_to_str :: "nat \<Rightarrow> nat \<Rightarrow> string result" where
  "bucket_to_str bucket g =
     res_bind (indices_loop g g bucket)
       (\<lambda>indices. map_r (\<lambda>idx. index_r VALID_CHARS idx ''VALID_CHARS'') indices)"

fun str_to_bucket_loop :: "nat \<Rightarrow> string \<Rightarrow> nat \<Rightarrow> nat result" where
  "str_to_bucket_loop g [] bucket = Inr bucket"
| "str_to_bucket_loop g (c # cs) bucket =
     (let idx = find_pos VALID_CHARS (toupper c) in
      res_bind (assert_r (idx \<noteq> length VALID_CHARS) ''pos != VALID_CHARS.cend()'') (\<lambda>_.
      res_bind (index_r GRANULARITY_OPTS (length cs) ''GRANULARITY_OPTS'') (\<lambda>opt.
        str_to_bucket_loop g cs (sz_add bucket (sz_mul idx opt)))))"

definition str_to_bucket :: "string \<Rightarrow> nat result" where
  "str_to_bucket s = str_to_bucket_loop (length s) s 0"

section \<open>Splitting\<close>

definition split_shard :: "Shard \<Rightarrow> (Shard \<times> Shard) result" where
  "split_shard sh =
     res_bind (assert_r (lower sh \<noteq> upper sh) ''shard.lower != shard.upper'') (\<lambda>_.
     res_bind (str_to_bucket (lower sh)) (\<lambda>lo.
     res_bind (str_to_bucket (upper sh)) (\<lambda>up.
       let midpoint = sz_add lo (sz_sub up lo div 2) in
     res_bind (granularity sh) (\<lambda>g.
     res_bind (bucket_to_str midpoint g) (\<lambda>lower_upper.
     res_bind (bucket_to_str (sz_add midpoint 1) g) (\<lambda>upper_lower.
       Inr (\<lparr>lower = lower sh, upper = lower_upper\<rparr>, \<lparr>lower = upper_lower, upper = upper sh\<rparr>)))))))"

definition split_shard_at_bucket :: "Shard \<Rightarrow> nat \<Rightarrow> (Shard \<times> Shard) result" where
  "split_shard_at_bucket sh pos =
     res_bind (str_to_bucket (lower sh)) (\<lambda>lo.
     res_bind (str_to_bucket (upper sh)) (\<lambda>up.
     res_bind (assert_r (lo < up) ''lower < upper'') (\<lambda>_.
     res_bind (granularity sh) (\<lambda>g.
     res_bind (bucket_to_str pos g) (\<lambda>lower_upper.
     res_bind (bucket_to_str (sz_add pos 1) g) (\<lambda>upper_lower.
       Inr (\<lparr>lower = lower sh, upper = lower_upper\<rparr>, \<lparr>lower = upper_lower, upper = upper sh\<rparr>)))))))"

definition split_shard_at_key :: "Shard \<Rightarrow> string \<Rightarrow> bool \<Rightarrow> (Shard \<times> Shard) result" where
  "split_shard_at_key sh key first =
     res_bind (assert_r (lower sh \<noteq> upper sh) ''shard.lower != shard.upper'') (\<lambda>_.
     res_bind (assert_r (lower sh \<le> key \<and> key \<le> upper sh) ''shard.lower <= at && at <= shard.upper'') (\<lambda>_.
     res_bind (str_to_bucket key) (\<lambda>pos.
     res_bind (granularity sh) (\<lambda>g.
     res_bind (bucket_to_str (sz_sub pos (of_bool (\<not> first))) g) (\<lambda>lower_upper.
     res_bind (bucket_to_str (sz_add pos (of_bool first)) g) (\<lambda>upper_lower.
       Inr (\<lparr>lower = lower sh, upper = lower_upper\<rparr>, \<lparr>lower = upper_lower, upper = upper sh\<rparr>)))))))"

section \<open>Relative position of two shards\<close>

definition get_overlap :: "Shard \<Rightarrow> Shard \<Rightarrow> OverlapStatus result" where
  "get_overlap a b =
     (if upper a < lower b \<or> upper b < lower a then Inr NO_OVERLAP
      else if lower b \<le> lower a \<and> upper a \<le> upper b then Inr COMPLETELY_CONTAINED
      else if lower a < lower b \<and> upper b < upper a then Inr COMPLETELY_CONTAINS
      else if lower b \<le> lower a \<and> upper b < upper a then Inr OVERLAP_START
      else if lower a < lower b \<and> upper a \<le> upper b then Inr OVERLAP_END
      else Inl (RuntimeError ''bad case in get_overlap''))"

text \<open>
  \<open>std::sort\<close> leaves some permutation that is sorted by the lower bounds; where two bounds are
  equal their order is not specified, so the outcome is a relation.
\<close>

definition sort_shards :: "Shard list \<Rightarrow> Shard list \<Rightarrow> bool" where
  "sort_shards xs ys \<longleftrightarrow> length ys = length xs
     \<and> list_all (\<lambda>s. count_list ys s = count_list xs s) (xs @ ys)
     \<and> sorted_wrt (\<lambda>a b. \<not> shard_less b a) ys"

section \<open>Dividing the key space\<close>

text \<open>The smallest granularity whose number of buckets is enough, or \<open>(0, 0)\<close> when none is.\<close>

fun granularity_for :: "nat \<Rightarrow> nat list \<Rightarrow> nat \<times> nat" where
  "granularity_for n [] = (0, 0)"
| "granularity_for n (i # is) =
     (let opt = GRANULARITY_OPTS ! i in if n \<le> opt then (opt, i) else granularity_for n is)"

fun shards_loop :: "nat list \<Rightarrow> nat \<Rightarrow> nat \<Rightarrow> Shard list result" where
  "shards_loop [] lo g = Inr []"
| "shards_loop (sz # sizes) lo g =
     (let up = sz_sub (sz_add lo sz) 1 in
      res_bind (bucket_to_str lo g) (\<lambda>lower_bucket.
      res_bind (bucket_to_str up g) (\<lambda>upper_bucket.
      res_bind (shards_loop sizes (sz_add lo sz) g) (\<lambda>rest.
        Inr (\<lparr>lower = lower_bucket, upper = upper_bucket\<rparr> # rest)))))"

definition split_into :: "nat \<Rightarrow> Shard list result" where
  "split_into n_shards =
     res_bind (assert_r (0 < n_shards) ''n_shards > 0'') (\<lambda>_.
       let (n_buckets, g) = granularity_for n_shards [1..<MAX_GRANULARITY + 1];
           shard_size = n_buckets div n_shards;
           remainder = n_buckets mod n_shards;
           shard_sizes = fold (\<lambda>i sizes. sizes[i := sizes ! i + 1]) [0..<remainder]
                           (replicate n_shards shard_size)
       in shards_loop shard_sizes 0 g)"

section \<open>Closed forms\<close>

text \<open>
  The arithmetic behind the loops: the base-36 digits of a bucket, most significant first, the
  key they spell, and the number a key stands for.
\<close>

fun digits36 :: "nat \<Rightarrow> nat \<Rightarrow> nat list" where
  "digits36 0 n = []"
| "digits36 (Suc r) n = n div 36 ^ r # digits36 r (n mod 36 ^ r)"

definition key_str :: "nat \<Rightarrow> nat \<Rightarrow> string" where
  "key_str g n = map (\<lambda>i. VALID_CHARS ! i) (digits36 g n)"

fun key_val :: "string \<Rightarrow> nat" where
  "key_val [] = 0"
| "key_val (c # cs) = find_pos VALID_CHARS (toupper c) * 36 ^ length cs + key_val cs"

text \<open>A canonical key of granularity \<open>g\<close>: \<open>g\<close> characters of the alphabet, in upper case.\<close>

definition key_ok :: "nat \<Rightarrow> string \<Rightarrow> bool" where
  "key_ok g s \<longleftrightarrow> length s = g \<and> set s \<subseteq> set VALID_CHARS"

lemma length_VALID_CHARS [simp]: "length VALID_CHARS = 36"
  by (simp add: VALID_CHARS_def)

lemma VALID_CHARS_sorted: "sorted_wrt (<) VALID_CHARS"
  by (simp add: VALID_CHARS_def less_char_def)

lemma VALID_CHARS_distinct: "distinct VALID_CHARS"
  using VALID_CHARS_sorted strict_sorted_iff by blast

lemma VALID_CHARS_upper: "c \<in> set VALID_CHARS \<Longrightarrow> toupper c = c"
  by (auto simp: VALID_CHARS_def toupper_def char_code_def)

lemma pow_loop_eq: "pow_loop k n = n * 36 ^ k"
  by (induction k arbitrary: n) (simp_all add: ac_simps)

lemma length_GRANULARITY_OPTS [simp]: "length GRANULARITY_OPTS = 5"
  by (simp add: GRANULARITY_OPTS_def MAX_GRANULARITY_def)

lemma GRANULARITY_OPTS_nth [simp]: "k < 5 \<Longrightarrow> GRANULARITY_OPTS ! k = 36 ^ k"
  unfolding GRANULARITY_OPTS_def MAX_GRANULARITY_def pow_loop_eq by (simp del: upt_Suc)

lemma find_pos_le: "find_pos xs c \<le> length xs"
  by (induction xs) auto

lemma find_pos_eq_length: "find_pos xs c = length xs \<longleftrightarrow> c \<notin> set xs"
  by (induction xs) auto

lemma find_pos_in: "c \<in> set xs \<Longrightarrow> find_pos xs c < length xs \<and> xs ! find_pos xs c = c"
  by (induction xs) auto

lemma find_pos_nth: "distinct xs \<Longrightarrow> i < length xs \<Longrightarrow> find_pos xs (xs ! i) = i"
  by (induction xs arbitrary: i) (auto simp: nth_Cons' split: nat.splits)

lemma is_valid_iff: "is_valid s \<longleftrightarrow> (\<forall>c\<in>set s. toupper c \<in> set VALID_CHARS)"
  unfolding is_valid_def list_all_iff find_pos_eq_length by blast

lemma key_ok_valid: "key_ok g s \<Longrightarrow> is_valid s"
  by (auto simp: is_valid_iff key_ok_def VALID_CHARS_upper)

lemma key_ok_to_upper: "is_valid s \<Longrightarrow> key_ok (length s) (to_upper s)"
  by (auto simp: is_valid_iff key_ok_def to_upper_def)

lemma length_digits36 [simp]: "length (digits36 g n) = g"
  by (induction g arbitrary: n) auto

lemma digits36_bound: "n < 36 ^ g \<Longrightarrow> d \<in> set (digits36 g n) \<Longrightarrow> d < 36"
proof (induction g arbitrary: n)
  case 0
  then show ?case by simp
next
  case (Suc g)
  have "d < 36" if "d \<in> set (digits36 g (n mod 36 ^ g))"
    by (rule Suc.IH[OF _ that]) simp
  with Suc.prems show ?case by (auto simp: less_mult_imp_div_less)
qed

lemma indices_loop_eq: "r \<le> g \<Longrightarrow> g \<le> 4 \<Longrightarrow> indices_loop g r n = Inr (digits36 r n)"
proof (induction r arbitrary: n)
  case 0
  then show ?case by simp
next
  case (Suc r)
  then have i: "g - Suc r < MAX_GRANULARITY" "g - (g - Suc r) - 1 = r" "r < 5"
    by (auto simp: MAX_GRANULARITY_def)
  with Suc show ?case by (simp add: Let_def)
qed

lemma bucket_to_str_eq:
  assumes "g \<le> 4" "n < 36 ^ g"
  shows "bucket_to_str n g = Inr (key_str g n)"
proof -
  have "map_r (\<lambda>i. index_r VALID_CHARS i ''VALID_CHARS'') (digits36 g n)
      = Inr (map (\<lambda>i. VALID_CHARS ! i) (digits36 g n))"
    by (rule map_r_Inr) (use digits36_bound[OF assms(2)] in simp)
  with assms show ?thesis by (simp add: bucket_to_str_def indices_loop_eq key_str_def)
qed

lemma bucket_to_str_too_big:
  assumes "0 < g" "g \<le> 4" "36 ^ g \<le> n"
  shows "bucket_to_str n g = Inl (UndefinedBehaviour ''VALID_CHARS'')"
proof -
  obtain r where g: "g = Suc r" using assms by (cases g) auto
  have "36 * 36 ^ r \<le> n" using assms g by simp
  then have "36 \<le> n div 36 ^ r" by (simp add: less_eq_div_iff_mult_less_eq)
  then have "index_r VALID_CHARS (n div 36 ^ r) ''VALID_CHARS'' = Inl (UndefinedBehaviour ''VALID_CHARS'')"
    by simp
  with assms g show ?thesis by (simp add: bucket_to_str_def indices_loop_eq del: indices_loop.simps)
qed

lemma key_val_bound: "is_valid s \<Longrightarrow> key_val s < 36 ^ length s"
proof (induction s)
  case Nil
  then show ?case by simp
next
  case (Cons c cs)
  then have "find_pos VALID_CHARS (toupper c) < 36"
    using find_pos_in[of "toupper c" VALID_CHARS] by (simp add: is_valid_iff)
  then have "find_pos VALID_CHARS (toupper c) * 36 ^ length cs \<le> 35 * 36 ^ length cs"
    by (intro mult_right_mono) auto
  moreover have "key_val cs < 36 ^ length cs" using Cons by (simp add: is_valid_iff)
  ultimately have "find_pos VALID_CHARS (toupper c) * 36 ^ length cs + key_val cs < 36 * 36 ^ length cs"
    by linarith
  then show ?case by simp
qed

lemma pow36_bound: "n \<le> 5 \<Longrightarrow> (36::nat) ^ n < size_lim"
  using power_increasing[of n 5 "36::nat"] by (simp add: size_lim_def)

lemma str_to_bucket_loop_eq:
  assumes "is_valid s" "length s \<le> 5" "b + key_val s < size_lim"
  shows "str_to_bucket_loop g s b = Inr (b + key_val s)"
  using assms
proof (induction s arbitrary: b)
  case Nil
  then show ?case by simp
next
  case (Cons c cs)
  let ?p = "find_pos VALID_CHARS (toupper c)"
  have p: "?p \<noteq> 36" using Cons.prems find_pos_in[of "toupper c" VALID_CHARS]
    by (simp add: is_valid_iff)
  have b: "b + ?p * 36 ^ length cs + key_val cs < size_lim" using Cons.prems by (simp add: ac_simps)
  then have "sz_add b (sz_mul ?p (36 ^ length cs)) = b + ?p * 36 ^ length cs" by simp
  moreover have "str_to_bucket_loop g cs (b + ?p * 36 ^ length cs)
      = Inr (b + ?p * 36 ^ length cs + key_val cs)"
    using Cons.IH[of "b + ?p * 36 ^ length cs"] Cons.prems b by (simp add: is_valid_iff)
  ultimately show ?case using p Cons.prems by (simp add: Let_def ac_simps)
qed

lemma str_to_bucket_eq:
  assumes "is_valid s" "length s \<le> 5"
  shows "str_to_bucket s = Inr (key_val s)"
  using assms str_to_bucket_loop_eq[of s 0] key_val_bound[of s] pow36_bound[of "length s"]
  by (simp add: str_to_bucket_def)

lemma length_key_str [simp]: "length (key_str g n) = g"
  by (simp add: key_str_def)

lemma key_ok_key_str: "n < 36 ^ g \<Longrightarrow> key_ok g (key_str g n)"
  using digits36_bound[of n g] nth_mem[of _ VALID_CHARS] by (auto simp: key_ok_def key_str_def)

lemma key_val_key_str: "n < 36 ^ g \<Longrightarrow> key_val (key_str g n) = n"
proof (induction g arbitrary: n)
  case 0
  then show ?case by (simp add: key_str_def)
next
  case (Suc g)
  have d: "n div 36 ^ g < 36" using Suc.prems by (simp add: less_mult_imp_div_less)
  then have "VALID_CHARS ! (n div 36 ^ g) \<in> set VALID_CHARS" by simp
  then have "find_pos VALID_CHARS (toupper (VALID_CHARS ! (n div 36 ^ g))) = n div 36 ^ g"
    using d VALID_CHARS_upper find_pos_nth[OF VALID_CHARS_distinct] by simp
  moreover have "key_val (key_str g (n mod 36 ^ g)) = n mod 36 ^ g"
    by (rule Suc.IH) simp
  moreover have "n div 36 ^ g * 36 ^ g + n mod 36 ^ g = n" by (rule div_mult_mod_eq)
  ultimately show ?case by (simp add: key_str_def)
qed

lemma key_str_key_val: "key_ok g s \<Longrightarrow> key_str g (key_val s) = s"
proof (induction s arbitrary: g)
  case Nil
  then show ?case by (simp add: key_ok_def key_str_def)
next
  case (Cons c cs)
  have c: "c \<in> set VALID_CHARS" "key_ok (length cs) cs" "g = Suc (length cs)"
    using Cons.prems by (auto simp: key_ok_def)
  have v: "key_val cs < 36 ^ length cs"
    using c(2) key_ok_valid key_val_bound by blast
  have "(find_pos VALID_CHARS c * 36 ^ length cs + key_val cs) div 36 ^ length cs
      = find_pos VALID_CHARS c"
    using v by simp
  then show ?case
    using c v Cons.IH[OF c(2)] find_pos_in[OF c(1)] VALID_CHARS_upper[OF c(1)]
    by (simp add: key_str_def)
qed

section \<open>Keys in order\<close>

lemma find_pos_mono:
  "c \<in> set VALID_CHARS \<Longrightarrow> d \<in> set VALID_CHARS \<Longrightarrow>
   c < d \<longleftrightarrow> find_pos VALID_CHARS c < find_pos VALID_CHARS d"
proof -
  assume c: "c \<in> set VALID_CHARS" and d: "d \<in> set VALID_CHARS"
  have mono: "VALID_CHARS ! i < VALID_CHARS ! j" if "i < j" "j < 36" for i j
    using sorted_wrt_nth_less[OF VALID_CHARS_sorted, of i j] that by simp
  have p: "VALID_CHARS ! find_pos VALID_CHARS c = c" "VALID_CHARS ! find_pos VALID_CHARS d = d"
      "find_pos VALID_CHARS c < 36" "find_pos VALID_CHARS d < 36"
    using find_pos_in[OF c] find_pos_in[OF d] by auto
  show ?thesis
  proof (cases "find_pos VALID_CHARS c" "find_pos VALID_CHARS d" rule: linorder_cases)
    case less
    then show ?thesis using mono[OF less p(4)] p by simp
  next
    case equal
    then show ?thesis using p by (metis less_irrefl)
  next
    case greater
    then have "d < c" using mono[OF greater p(3)] p by simp
    with greater show ?thesis by simp
  qed
qed

lemma key_less_iff: "key_ok g s \<Longrightarrow> key_ok g t \<Longrightarrow> s < t \<longleftrightarrow> key_val s < key_val t"
proof (induction s arbitrary: g t)
  case Nil
  then show ?case by (simp add: key_ok_def)
next
  case (Cons c cs)
  then obtain d ds where t: "t = d # ds" by (cases t) (auto simp: key_ok_def)
  let ?n = "length cs"
  have ok: "key_ok ?n cs" "key_ok ?n ds" "c \<in> set VALID_CHARS" "d \<in> set VALID_CHARS" "length ds = ?n"
    using Cons.prems t by (auto simp: key_ok_def)
  let ?c = "find_pos VALID_CHARS c" and ?d = "find_pos VALID_CHARS d"
  have u: "toupper c = c" "toupper d = d" using ok VALID_CHARS_upper by auto
  have b: "key_val cs < 36 ^ ?n" "key_val ds < 36 ^ ?n"
    using key_val_bound[OF key_ok_valid[OF ok(1)]] key_val_bound[OF key_ok_valid[OF ok(2)]] ok(5)
    by simp_all
  have eq: "c = d \<longleftrightarrow> ?c = ?d" using find_pos_in[OF ok(3)] find_pos_in[OF ok(4)] by metis
  have step: "x * 36 ^ ?n + a < y * 36 ^ ?n + b'" if "x < y" "a < 36 ^ ?n" for x y a b' :: nat
  proof -
    have "Suc x * 36 ^ ?n \<le> y * 36 ^ ?n" using that by (intro mult_right_mono) auto
    with that show ?thesis by simp
  qed
  show ?case
  proof (cases ?c ?d rule: linorder_cases)
    case less
    then have "c < d" using find_pos_mono[OF ok(3,4)] by simp
    then show ?thesis using step[OF less b(1), of "key_val ds"] u ok(5) t by simp
  next
    case equal
    then have "c = d" using eq by simp
    then show ?thesis using Cons.IH[OF ok(1,2)] ok(5) t by simp
  next
    case greater
    then have "d < c" using find_pos_mono[OF ok(4,3)] by simp
    then have "\<not> c < d" "c \<noteq> d" by auto
    moreover have "key_val (d # ds) < key_val (c # cs)"
      using step[OF greater b(2), of "key_val cs"] u ok(5) by simp
    ultimately show ?thesis using t by (auto simp del: key_val.simps)
  qed
qed

lemma key_le_iff: "key_ok g s \<Longrightarrow> key_ok g t \<Longrightarrow> s \<le> t \<longleftrightarrow> key_val s \<le> key_val t"
  using key_less_iff[of g t s] by (simp add: linorder_not_less[symmetric])

lemma key_ok_take: "set s \<subseteq> set VALID_CHARS \<Longrightarrow> g \<le> length s \<Longrightarrow> key_ok g (take g s)"
  by (auto simp: key_ok_def dest: in_set_takeD)

section \<open>Well-formed shards\<close>

definition shard_ok :: "nat \<Rightarrow> Shard \<Rightarrow> bool" where
  "shard_ok g sh \<longleftrightarrow> 1 \<le> g \<and> g \<le> MAX_GRANULARITY \<and> key_ok g (lower sh) \<and> key_ok g (upper sh)
     \<and> lower sh \<le> upper sh"

definition shard_size :: "Shard \<Rightarrow> nat" where
  "shard_size sh = key_val (upper sh) + 1 - key_val (lower sh)"

text \<open>A full key: characters of the alphabet, in upper case, at least \<open>g\<close> of them.\<close>

definition full_key :: "nat \<Rightarrow> string \<Rightarrow> bool" where
  "full_key g s \<longleftrightarrow> set s \<subseteq> set VALID_CHARS \<and> g \<le> length s"

definition bucket_of :: "nat \<Rightarrow> string \<Rightarrow> nat" where
  "bucket_of g s = key_val (take g s)"

lemma shard_okD:
  assumes "shard_ok g sh"
  shows "granularity sh = Inr g" "length (lower sh) = g" "1 \<le> g" "g \<le> 4"
    "key_val (lower sh) \<le> key_val (upper sh)" "key_val (upper sh) < 36 ^ g"
    "str_to_bucket (lower sh) = Inr (key_val (lower sh))"
    "str_to_bucket (upper sh) = Inr (key_val (upper sh))"
    "key_str g (key_val (lower sh)) = lower sh" "key_str g (key_val (upper sh)) = upper sh"
    "key_ok g (lower sh)" "key_ok g (upper sh)"
proof -
  have ok: "key_ok g (lower sh)" "key_ok g (upper sh)" "1 \<le> g" "g \<le> 4" "lower sh \<le> upper sh"
    using assms by (auto simp: shard_ok_def MAX_GRANULARITY_def)
  then show "granularity sh = Inr g" "length (lower sh) = g" "1 \<le> g" "g \<le> 4"
    by (auto simp: granularity_def key_ok_def)
  show "key_val (lower sh) \<le> key_val (upper sh)" using ok key_le_iff by blast
  show "key_val (upper sh) < 36 ^ g"
    using key_val_bound[OF key_ok_valid[OF ok(2)]] ok(2) by (simp add: key_ok_def)
  show "str_to_bucket (lower sh) = Inr (key_val (lower sh))"
    "str_to_bucket (upper sh) = Inr (key_val (upper sh))"
    using ok key_ok_valid by (auto intro!: str_to_bucket_eq simp: key_ok_def)
  show "key_str g (key_val (lower sh)) = lower sh" "key_str g (key_val (upper sh)) = upper sh"
    "key_ok g (lower sh)" "key_ok g (upper sh)"
    using ok key_str_key_val by auto
qed

lemma shard_ok_buckets:
  assumes "1 \<le> g" "g \<le> 4" "a \<le> b" "b < 36 ^ g"
  shows "shard_ok g \<lparr>lower = key_str g a, upper = key_str g b\<rparr>"
proof -
  have "key_ok g (key_str g a)" "key_ok g (key_str g b)"
    using assms by (auto intro: key_ok_key_str)
  moreover from this have "key_str g a \<le> key_str g b"
    using assms by (simp add: key_le_iff key_val_key_str)
  ultimately show ?thesis using assms by (simp add: shard_ok_def MAX_GRANULARITY_def)
qed

lemma str_compare_iff:
  "0 \<le> str_compare s n t \<longleftrightarrow> t \<le> take n s" "str_compare s n t \<le> 0 \<longleftrightarrow> take n s \<le> t"
  by (auto simp: str_compare_def Let_def)

lemma contains_eq:
  assumes "shard_ok g sh" "full_key g s"
  shows "contains sh s
    = Inr (key_val (lower sh) \<le> bucket_of g s \<and> bucket_of g s \<le> key_val (upper sh))"
proof -
  have t: "key_ok g (take g s)" using assms key_ok_take by (simp add: full_key_def)
  show ?thesis
    using shard_okD[OF assms(1)] key_le_iff[OF _ t] key_le_iff[OF t]
    by (simp add: contains_def str_compare_iff bucket_of_def)
qed

lemma shard_split_buckets:
  assumes ok: "shard_ok g sh" and m: "key_val (lower sh) \<le> m" "m < key_val (upper sh)"
    and l: "l = \<lparr>lower = lower sh, upper = key_str g m\<rparr>"
    and r: "r = \<lparr>lower = key_str g (Suc m), upper = upper sh\<rparr>"
  shows "shard_ok g l" "shard_ok g r" "key_val (upper l) = m" "key_val (lower r) = Suc m"
    and "full_key g s \<Longrightarrow> contains sh s = Inr (contains l s = Inr True \<or> contains r s = Inr True)"
    and "full_key g s \<Longrightarrow> \<not> (contains l s = Inr True \<and> contains r s = Inr True)"
proof -
  note d = shard_okD[OF ok]
  have l': "l = \<lparr>lower = key_str g (key_val (lower sh)), upper = key_str g m\<rparr>"
    and r': "r = \<lparr>lower = key_str g (Suc m), upper = key_str g (key_val (upper sh))\<rparr>"
    using l r d by simp_all
  show okl: "shard_ok g l" unfolding l' using d m by (intro shard_ok_buckets) auto
  show okr: "shard_ok g r" unfolding r' using d m by (intro shard_ok_buckets) auto
  have v: "key_val (key_str g m) = m" "key_val (key_str g (Suc m)) = Suc m"
    using d m by (simp_all add: key_val_key_str)
  then show "key_val (upper l) = m" "key_val (lower r) = Suc m" using l r by simp_all
  show "full_key g s \<Longrightarrow> contains sh s = Inr (contains l s = Inr True \<or> contains r s = Inr True)"
    using contains_eq[OF ok] contains_eq[OF okl] contains_eq[OF okr] v m by (auto simp: l r)
  show "full_key g s \<Longrightarrow> \<not> (contains l s = Inr True \<and> contains r s = Inr True)"
    using contains_eq[OF okl] contains_eq[OF okr] v m by (auto simp: l r)
qed

section \<open>Properties of the bucket numbering and of splitting\<close>

lemma split_shard_eq:
  assumes ok: "shard_ok g sh" and less: "lower sh \<noteq> upper sh"
  defines "m \<equiv> key_val (lower sh) + (key_val (upper sh) - key_val (lower sh)) div 2"
  shows "split_shard sh
      = Inr (\<lparr>lower = lower sh, upper = key_str g m\<rparr>, \<lparr>lower = key_str g (Suc m), upper = upper sh\<rparr>)"
    and "key_val (lower sh) \<le> m" "m < key_val (upper sh)"
proof -
  note d = shard_okD[OF ok]
  have ne: "key_val (lower sh) < key_val (upper sh)"
    using less d by (metis order_le_imp_less_or_eq)
  then show m: "key_val (lower sh) \<le> m" "m < key_val (upper sh)" by (auto simp: m_def)
  have lim: "key_val (upper sh) < size_lim"
    using d pow36_bound[of g] by linarith
  have s: "sz_sub (key_val (upper sh)) (key_val (lower sh)) = key_val (upper sh) - key_val (lower sh)"
    using lim ne by simp
  have a: "sz_add (key_val (lower sh)) ((key_val (upper sh) - key_val (lower sh)) div 2) = m"
    using lim m by (simp add: m_def)
  have b: "sz_add m 1 = Suc m" using m lim by simp
  show "split_shard sh
      = Inr (\<lparr>lower = lower sh, upper = key_str g m\<rparr>, \<lparr>lower = key_str g (Suc m), upper = upper sh\<rparr>)"
    using d m less by (simp add: split_shard_def s a b[simplified] bucket_to_str_eq)
qed

lemma split_shard_at_key_eq:
  assumes ok: "shard_ok g sh" and less: "lower sh \<noteq> upper sh" and key: "key_ok g key"
    and range: "lower sh \<le> key" "key \<le> upper sh"
    and inner: "if first then key < upper sh else lower sh < key"
  defines "m \<equiv> key_val key - of_bool (\<not> first)"
  shows "split_shard_at_key sh key first
      = Inr (\<lparr>lower = lower sh, upper = key_str g m\<rparr>, \<lparr>lower = key_str g (Suc m), upper = upper sh\<rparr>)"
    and "key_val (lower sh) \<le> m" "m < key_val (upper sh)"
proof -
  note d = shard_okD[OF ok]
  have v: "key_val (lower sh) \<le> key_val key" "key_val key \<le> key_val (upper sh)"
    "first \<Longrightarrow> key_val key < key_val (upper sh)" "\<not> first \<Longrightarrow> key_val (lower sh) < key_val key"
    using range inner key_le_iff[OF d(11) key] key_le_iff[OF key d(12)]
      key_less_iff[OF d(11) key] key_less_iff[OF key d(12)] by auto
  then show m: "key_val (lower sh) \<le> m" "m < key_val (upper sh)" by (cases first; simp add: m_def)+
  have lim: "key_val (upper sh) < size_lim"
    using d pow36_bound[of g] by linarith
  have p: "str_to_bucket key = Inr (key_val key)"
    using key key_ok_valid d(4) by (auto intro!: str_to_bucket_eq simp: key_ok_def)
  have a: "sz_sub (key_val key) (of_bool (\<not> first)) = m"
    using v lim by (cases first; simp add: m_def)
  have b: "sz_add (key_val key) (of_bool first) = Suc m"
    using v lim by (cases first; simp add: m_def)
  show "split_shard_at_key sh key first
      = Inr (\<lparr>lower = lower sh, upper = key_str g m\<rparr>, \<lparr>lower = key_str g (Suc m), upper = upper sh\<rparr>)"
    using d m less range by (simp add: split_shard_at_key_def p a b bucket_to_str_eq)
qed

section \<open>Dividing the key space: facts\<close>

lemma fold_bump:
  fixes xs :: "nat list"
  shows "r \<le> length xs \<Longrightarrow>
   fold (\<lambda>i sizes. sizes[i := sizes ! i + 1]) [0..<r] xs = map (\<lambda>i. xs ! i + of_bool (i < r)) [0..<length xs]"
proof (induction r)
  case 0
  then show ?case by (simp add: map_nth)
next
  case (Suc r)
  then show ?case by (auto intro!: nth_equalityI simp: nth_list_update)
qed

lemma sum_list_bump:
  "sum_list (map (\<lambda>i. (q::nat) + of_bool (i < r)) [0..<n]) = q * n + min n r"
  by (induction n) (auto simp: min_def)

lemma sum_list_take_Suc:
  "i < length xs \<Longrightarrow> sum_list (take (Suc i) xs) = sum_list (take i xs) + (xs ! i :: nat)"
  by (simp add: take_Suc_conv_app_nth)

lemma sum_list_take_mono: "i \<le> j \<Longrightarrow> sum_list (take i xs) \<le> sum_list (take j (xs :: nat list))"
proof -
  assume "i \<le> j"
  then have "take j xs = take i xs @ take (j - i) (drop i xs)"
    by (metis le_add_diff_inverse take_add)
  then show ?thesis by simp
qed

lemma ex1_segment:
  fixes xs :: "nat list"
  assumes "k < sum_list xs"
  shows "\<exists>!i. i < length xs \<and> sum_list (take i xs) \<le> k \<and> k < sum_list (take (Suc i) xs)"
proof -
  define i where "i = (LEAST j. k < sum_list (take j xs))"
  have k: "k < sum_list (take i xs)"
    unfolding i_def by (rule LeastI[of _ "length xs"]) (use assms in simp)
  then obtain j where i: "i = Suc j" by (cases i) auto
  have j: "\<not> k < sum_list (take j xs)"
    using not_less_Least[of j "\<lambda>j. k < sum_list (take j xs)"] i by (simp add: i_def)
  have jl: "j < length xs"
  proof (rule ccontr)
    assume "\<not> j < length xs"
    then have "take i xs = take j xs" using i by simp
    with k j show False by simp
  qed
  show ?thesis
  proof (rule ex1I[of _ j])
    show "j < length xs \<and> sum_list (take j xs) \<le> k \<and> k < sum_list (take (Suc j) xs)"
      using jl j k i by simp
  next
    fix l
    assume l: "l < length xs \<and> sum_list (take l xs) \<le> k \<and> k < sum_list (take (Suc l) xs)"
    then have "i \<le> Suc l" unfolding i_def by (intro Least_le) simp
    moreover have "\<not> i \<le> l"
      using sum_list_take_mono[of i l xs] l k by linarith
    ultimately show "l = j" using i by simp
  qed
qed

lemma granularity_for_eq:
  assumes "n \<le> 36 ^ 4"
  obtains g where "granularity_for n [1..<MAX_GRANULARITY + 1] = (36 ^ g, g)"
    "1 \<le> g" "g \<le> 4" "n \<le> 36 ^ g" "g = 1 \<or> 36 ^ (g - 1) < n"
proof -
  have u: "[1..<MAX_GRANULARITY + 1] = [1, 2, 3, 4]"
    by (simp add: MAX_GRANULARITY_def upt_rec)
  have e: "granularity_for n [1..<MAX_GRANULARITY + 1] =
     (if n \<le> 36 ^ 1 then (36 ^ 1, 1) else if n \<le> 36 ^ 2 then (36 ^ 2, 2)
      else if n \<le> 36 ^ 3 then (36 ^ 3, 3) else if n \<le> 36 ^ 4 then (36 ^ 4, 4) else (0, 0))"
    unfolding u by (simp add: Let_def)
  consider "n \<le> 36 ^ 1" | "36 ^ 1 < n" "n \<le> 36 ^ 2" | "36 ^ 2 < n" "n \<le> 36 ^ 3"
    | "36 ^ 3 < n" "n \<le> 36 ^ 4"
    using assms by linarith
  then show thesis
  proof cases
    case 1
    then show ?thesis by (intro that[of 1, unfolded e]) simp_all
  next
    case 2
    then show ?thesis by (intro that[of 2, unfolded e]) simp_all
  next
    case 3
    then show ?thesis by (intro that[of 3, unfolded e]) simp_all
  next
    case 4
    then show ?thesis by (intro that[of 4, unfolded e]) simp_all
  qed
qed

lemma shards_loop_eq:
  assumes "1 \<le> g" "g \<le> 4" "\<forall>z\<in>set sizes. 0 < z" "lo + sum_list sizes \<le> 36 ^ g"
  shows "shards_loop sizes lo g = Inr (map (\<lambda>i.
    \<lparr>lower = key_str g (lo + sum_list (take i sizes)),
     upper = key_str g (lo + sum_list (take (Suc i) sizes) - 1)\<rparr>) [0..<length sizes])"
  using assms(3,4)
proof (induction sizes arbitrary: lo)
  case Nil
  then show ?case by simp
next
  case (Cons z zs)
  have lim: "lo + z < size_lim" using Cons.prems assms pow36_bound[of g] by simp
  have up: "sz_sub (lo + z) 1 = lo + z - 1" using Cons.prems lim by simp
  have IH: "shards_loop zs (lo + z) g = Inr (map (\<lambda>i.
    \<lparr>lower = key_str g (lo + z + sum_list (take i zs)),
     upper = key_str g (lo + z + sum_list (take (Suc i) zs) - 1)\<rparr>) [0..<length zs])"
    using Cons.prems by (intro Cons.IH) auto
  have b: "bucket_to_str lo g = Inr (key_str g lo)"
    "bucket_to_str (lo + z - 1) g = Inr (key_str g (lo + z - 1))"
    using Cons.prems assms by (auto intro!: bucket_to_str_eq)
  have u: "[0..<length (z # zs)] = 0 # map Suc [0..<length zs]"
    by (simp add: upt_conv_Cons map_Suc_upt del: upt_Suc)
  show ?case
    unfolding u using lim up b IH by (simp add: Let_def ac_simps comp_def del: upt_Suc)
qed

text \<open>The consecutive shards of the given sizes, from the first key of granularity \<open>g\<close> on.\<close>

definition segment_shards :: "nat \<Rightarrow> nat list \<Rightarrow> Shard list" where
  "segment_shards g sizes = map (\<lambda>i.
      \<lparr>lower = key_str g (sum_list (take i sizes)),
       upper = key_str g (sum_list (take (Suc i) sizes) - 1)\<rparr>) [0..<length sizes]"

lemma split_into_eq:
  assumes "0 < n" "n \<le> 36 ^ 4"
  obtains g sizes where "1 \<le> g" "g \<le> 4" "n \<le> 36 ^ g" "g = 1 \<or> 36 ^ (g - 1) < n"
    "length sizes = n" "sum_list sizes = 36 ^ g"
    "\<forall>z\<in>set sizes. z = 36 ^ g div n \<or> z = 36 ^ g div n + 1"
    "0 < 36 ^ g div n"
    "split_into n = Inr (segment_shards g sizes)"
proof -
  obtain g where g: "granularity_for n [1..<MAX_GRANULARITY + 1] = (36 ^ g, g)"
    "1 \<le> g" "g \<le> 4" "n \<le> 36 ^ g" "g = 1 \<or> 36 ^ (g - 1) < n"
    using granularity_for_eq[OF assms(2)] by blast
  let ?q = "36 ^ g div n" and ?r = "36 ^ g mod n"
  define sizes where "sizes = map (\<lambda>i. ?q + of_bool (i < ?r)) [0..<n]"
  have f: "fold (\<lambda>i sizes. sizes[i := sizes ! i + 1]) [0..<?r] (replicate n ?q) = sizes"
    using assms by (subst fold_bump) (auto simp: sizes_def intro!: map_cong)
  have len: "length sizes = n" by (simp add: sizes_def)
  have sum: "sum_list sizes = 36 ^ g"
    unfolding sizes_def using assms by (subst sum_list_bump) (simp add: min_absorb2 less_imp_le)
  have q: "0 < ?q" using g(4) assms(1) by (simp add: div_greater_zero_iff)
  have z: "\<forall>z\<in>set sizes. z = ?q \<or> z = ?q + 1" by (auto simp: sizes_def)
  have "split_into n = shards_loop sizes 0 g"
    using assms g(1) f by (simp add: split_into_def)
  also have "\<dots> = Inr (segment_shards g sizes)"
    unfolding segment_shards_def using shards_loop_eq[OF g(2,3), of sizes 0] z q sum len by fastforce
  finally show thesis using that g z q sum len by blast
qed

text \<open>The keys of a shard, as a set of strings.\<close>

definition shard_keys :: "Shard \<Rightarrow> string set" where
  "shard_keys sh = {lower sh..upper sh}"

section \<open>Properties\<close>

text \<open>
  C15. Bucket numbers and canonical keys of one granularity (one to four characters) are in
  bijection: \<open>bucket_to_str\<close> spells every bucket below \<open>36 ^ g\<close> as a canonical key that
  \<open>str_to_bucket\<close> reads back, \<open>str_to_bucket\<close> numbers every canonical key with a bucket that
  \<open>bucket_to_str\<close> spells back, and the order of the keys as strings is the order of their buckets.
\<close>

theorem bucket_key_order_isomorphism:
  assumes "g \<le> MAX_GRANULARITY"
  shows "(\<forall>n < 36 ^ g. \<exists>s. bucket_to_str n g = Inr s \<and> key_ok g s \<and> str_to_bucket s = Inr n)
    \<and> (\<forall>s. key_ok g s \<longrightarrow> (\<exists>n < 36 ^ g. str_to_bucket s = Inr n \<and> bucket_to_str n g = Inr s))
    \<and> (\<forall>s t. key_ok g s \<and> key_ok g t \<longrightarrow>
         (s < t \<longleftrightarrow> projr (str_to_bucket s) < projr (str_to_bucket t)))"
proof -
  have g: "g \<le> 4" using assms by (simp add: MAX_GRANULARITY_def)
  have b: "str_to_bucket s = Inr (key_val s)" "key_val s < 36 ^ g" if "key_ok g s" for s
    using that g key_ok_valid[OF that] key_val_bound[of s]
    by (auto intro!: str_to_bucket_eq simp: key_ok_def)
  have "\<exists>s. bucket_to_str n g = Inr s \<and> key_ok g s \<and> str_to_bucket s = Inr n" if "n < 36 ^ g" for n
    using that g b[OF key_ok_key_str[OF that]] key_ok_key_str[OF that]
    by (simp add: bucket_to_str_eq key_val_key_str)
  moreover have "\<exists>n < 36 ^ g. str_to_bucket s = Inr n \<and> bucket_to_str n g = Inr s" if "key_ok g s" for s
    using b[OF that] g key_str_key_val[OF that] by (auto simp: bucket_to_str_eq)
  moreover have "s < t \<longleftrightarrow> projr (str_to_bucket s) < projr (str_to_bucket t)"
    if "key_ok g s" "key_ok g t" for s t
    using that b(1) key_less_iff by simp
  ultimately show ?thesis by blast
qed

theorem bucket_key_order_isomorphism_witness:
  "(3::nat) \<le> MAX_GRANULARITY \<and> (\<exists>s. bucket_to_str 13367 3 = Inr s \<and> str_to_bucket s = Inr 13367)"
proof -
  have g: "(3::nat) \<le> MAX_GRANULARITY" by (simp add: MAX_GRANULARITY_def)
  have "\<forall>n < 36 ^ 3. \<exists>s. bucket_to_str n 3 = Inr s \<and> key_ok 3 s \<and> str_to_bucket s = Inr n"
    using bucket_key_order_isomorphism[OF g] by (rule conjunct1)
  then have "\<exists>s. bucket_to_str 13367 3 = Inr s \<and> key_ok 3 s \<and> str_to_bucket s = Inr 13367"
    by (rule allE[of _ 13367]) simp
  with g show ?thesis by blast
qed

text \<open>
  Splitting a shard in the middle: for a well-formed shard of more than one key,
  \<open>split_shard\<close> returns two well-formed shards of the same granularity that keep the outer
  bounds; every full key that is in the shard is in exactly one of the two and no other key is in
  either; and their sizes differ by at most one, the larger being the first.
\<close>

theorem split_shard_partitions:
  assumes "shard_ok g sh" "lower sh \<noteq> upper sh"
  shows "\<exists>l r. split_shard sh = Inr (l, r) \<and> shard_ok g l \<and> shard_ok g r
    \<and> lower l = lower sh \<and> upper r = upper sh
    \<and> shard_size l + shard_size r = shard_size sh
    \<and> (shard_size l = shard_size r \<or> shard_size l = Suc (shard_size r))
    \<and> (\<forall>s. full_key g s \<longrightarrow>
         contains sh s = Inr (contains l s = Inr True \<or> contains r s = Inr True)
         \<and> \<not> (contains l s = Inr True \<and> contains r s = Inr True))"
proof -
  let ?m = "key_val (lower sh) + (key_val (upper sh) - key_val (lower sh)) div 2"
  let ?l = "\<lparr>lower = lower sh, upper = key_str g ?m\<rparr>" and ?r = "\<lparr>lower = key_str g (Suc ?m), upper = upper sh\<rparr>"
  note e = split_shard_eq[OF assms]
  note p = shard_split_buckets[OF assms(1) e(2,3) refl refl]
  have v: "key_val (key_str g ?m) = ?m" "key_val (key_str g (Suc ?m)) = Suc ?m"
    using p(3,4) by simp_all
  have sz: "shard_size ?l + shard_size ?r = shard_size sh"
    "shard_size ?l = shard_size ?r \<or> shard_size ?l = Suc (shard_size ?r)"
  proof -
    obtain d where d: "key_val (upper sh) = key_val (lower sh) + d" "0 < d"
      using le_less_trans[OF e(2,3)] less_imp_add_positive by metis
    note v' = v[unfolded d(1) diff_add_inverse]
    show "shard_size ?l + shard_size ?r = shard_size sh"
      unfolding shard_size_def Shard.simps d(1) diff_add_inverse v' by presburger
    show "shard_size ?l = shard_size ?r \<or> shard_size ?l = Suc (shard_size ?r)"
      unfolding shard_size_def Shard.simps d(1) diff_add_inverse v' by presburger
  qed
  have "shard_ok g ?l \<and> shard_ok g ?r \<and> lower ?l = lower sh \<and> upper ?r = upper sh"
    using p(1,2) by simp
  with e(1) sz p(5,6) show ?thesis by blast
qed

theorem split_shard_partitions_witness:
  "shard_ok 1 \<lparr>lower = ''A'', upper = ''E''\<rparr> \<and>
   (\<exists>l r. split_shard \<lparr>lower = ''A'', upper = ''E''\<rparr> = Inr (l, r)
      \<and> shard_size l + shard_size r = shard_size \<lparr>lower = ''A'', upper = ''E''\<rparr>)"
proof -
  have ok: "shard_ok 1 \<lparr>lower = ''A'', upper = ''E''\<rparr>"
    by (simp add: shard_ok_def key_ok_def MAX_GRANULARITY_def VALID_CHARS_def less_eq_char_def)
  show ?thesis using ok split_shard_partitions[OF ok] by auto
qed

text \<open>
  Splitting at a key, \<open>split_shard(shard, at, first)\<close>: for a canonical key inside a
  well-formed shard (and not its upper bound if \<open>first\<close>, not its lower bound otherwise) the two
  results are well-formed, keep the outer bounds, divide the full keys of the shard between them,
  and the key split on ends the first one if \<open>first\<close> and starts the second one otherwise.
\<close>

theorem split_shard_at_key_partitions:
  assumes "shard_ok g sh" "key_ok g key" "lower sh \<le> key" "key \<le> upper sh"
    and "if first then key < upper sh else lower sh < key"
  shows "\<exists>l r. split_shard_at_key sh key first = Inr (l, r) \<and> shard_ok g l \<and> shard_ok g r
    \<and> lower l = lower sh \<and> upper r = upper sh \<and> (if first then upper l = key else lower r = key)
    \<and> (\<forall>s. full_key g s \<longrightarrow>
         contains sh s = Inr (contains l s = Inr True \<or> contains r s = Inr True)
         \<and> \<not> (contains l s = Inr True \<and> contains r s = Inr True))"
proof -
  let ?m = "key_val key - of_bool (\<not> first)"
  let ?l = "\<lparr>lower = lower sh, upper = key_str g ?m\<rparr>" and ?r = "\<lparr>lower = key_str g (Suc ?m), upper = upper sh\<rparr>"
  have ne: "lower sh \<noteq> upper sh" using assms(3-5) by (auto split: if_splits)
  note e = split_shard_at_key_eq[OF assms(1) ne assms(2-5)]
  note p = shard_split_buckets[OF assms(1) e(2,3) refl refl]
  have k: "if first then upper ?l = key else lower ?r = key"
    using key_str_key_val[OF assms(2)] e(2) assms(5) key_less_iff[OF shard_okD(11)[OF assms(1)] assms(2)]
    by (cases first) auto
  have "shard_ok g ?l \<and> shard_ok g ?r \<and> lower ?l = lower sh \<and> upper ?r = upper sh"
    using p(1,2) by simp
  with e(1) k p(5,6) show ?thesis by blast
qed

theorem split_shard_at_key_partitions_witness:
  "\<exists>l r. split_shard_at_key \<lparr>lower = ''A'', upper = ''E''\<rparr> ''B'' True = Inr (l, r) \<and> upper l = ''B''"
proof -
  have ok: "shard_ok 1 \<lparr>lower = ''A'', upper = ''E''\<rparr>" "key_ok 1 ''B''"
    by (simp_all add: shard_ok_def key_ok_def MAX_GRANULARITY_def VALID_CHARS_def less_eq_char_def)
  show ?thesis
    using split_shard_at_key_partitions[OF ok, of True] by (auto simp: less_eq_char_def less_char_def)
qed

text \<open>
  Splitting at the last key of the alphabet: where \<open>at\<close> is the upper bound of a well-formed
  shard and that bound is the greatest key of its granularity, the assertions of
  \<open>split_shard(shard, at)\<close> hold and yet the call reads \<open>VALID_CHARS\<close> past its end, because it
  spells the bucket after \<open>at\<close>, which does not exist.
\<close>

theorem split_shard_at_top_is_undefined:
  assumes "shard_ok g sh" "lower sh \<noteq> upper sh" "key_val (upper sh) = 36 ^ g - 1"
  shows "split_shard_at_key sh (upper sh) True = Inl (UndefinedBehaviour ''VALID_CHARS'')"
proof -
  note d = shard_okD[OF assms(1)]
  have p: "(0::nat) < 36 ^ g" by simp
  have lim: "(36::nat) ^ g < size_lim" using d(4) by (intro pow36_bound) simp
  have le: "lower sh \<le> upper sh" using assms(1) by (simp add: shard_ok_def)
  have a: "sz_sub (36 ^ g - 1) 0 = 36 ^ g - 1" using lim p by simp
  have b: "sz_add (36 ^ g - 1) 1 = 36 ^ g" using lim p by simp
  have s: "bucket_to_str (36 ^ g - 1) g = Inr (key_str g (36 ^ g - 1))"
    using d by (intro bucket_to_str_eq) simp_all
  show ?thesis
    using d assms(2) le p bucket_to_str_too_big[of g "36 ^ g"]
    by (simp add: split_shard_at_key_def assms(3) a[simplified] b[simplified] s[simplified])
qed

theorem split_shard_at_top_is_undefined_witness:
  "split_shard_at_key \<lparr>lower = ''A'', upper = ''Z''\<rparr> ''Z'' True = Inl (UndefinedBehaviour ''VALID_CHARS'')"
proof -
  have "shard_ok 1 \<lparr>lower = ''A'', upper = ''Z''\<rparr>"
    by (simp add: shard_ok_def key_ok_def MAX_GRANULARITY_def VALID_CHARS_def less_eq_char_def)
  then show ?thesis
    using split_shard_at_top_is_undefined[of 1 "\<lparr>lower = ''A'', upper = ''Z''\<rparr>"]
    by (simp add: VALID_CHARS_def toupper_def char_code_def)
qed

section \<open>Consecutive shards\<close>

lemma segment_shards_nth:
  assumes "1 \<le> g" "g \<le> 4" "\<forall>z\<in>set sizes. 0 < z" "sum_list sizes = 36 ^ g" "i < length sizes"
  shows "shard_ok g (segment_shards g sizes ! i)"
    "key_val (lower (segment_shards g sizes ! i)) = sum_list (take i sizes)"
    "Suc (key_val (upper (segment_shards g sizes ! i))) = sum_list (take (Suc i) sizes)"
    "shard_size (segment_shards g sizes ! i) = sizes ! i"
proof -
  let ?a = "sum_list (take i sizes)" and ?b = "sum_list (take (Suc i) sizes)"
  have z: "0 < sizes ! i" using assms(3,5) by simp
  have ab: "?b = ?a + sizes ! i" by (rule sum_list_take_Suc[OF assms(5)])
  have b: "?b \<le> 36 ^ g" using sum_list_take_mono[of "Suc i" "length sizes" sizes] assms(4,5) by simp
  have r: "?a \<le> ?b - 1" "?b - 1 < 36 ^ g" "?a < 36 ^ g" "0 < ?b" using z ab b by linarith+
  have n: "segment_shards g sizes ! i = \<lparr>lower = key_str g ?a, upper = key_str g (?b - 1)\<rparr>"
    using assms(5) by (simp add: segment_shards_def)
  show "shard_ok g (segment_shards g sizes ! i)"
    unfolding n by (rule shard_ok_buckets[OF assms(1,2) r(1,2)])
  have v: "key_val (key_str g ?a) = ?a" "key_val (key_str g (?b - 1)) = ?b - 1"
    using r by (simp_all only: key_val_key_str)
  show lo: "key_val (lower (segment_shards g sizes ! i)) = ?a" using n v by simp
  show up: "Suc (key_val (upper (segment_shards g sizes ! i))) = ?b"
    using v(2) r(4) unfolding n Shard.simps by linarith
  show "shard_size (segment_shards g sizes ! i) = sizes ! i"
    using lo up ab unfolding shard_size_def by linarith
qed

lemma segment_shards_facts:
  assumes "1 \<le> g" "g \<le> 4" "\<forall>z\<in>set sizes. 0 < z" "sum_list sizes = 36 ^ g"
  shows "\<forall>sh\<in>set (segment_shards g sizes). shard_ok g sh"
    "map shard_size (segment_shards g sizes) = sizes"
    "full_key g s \<Longrightarrow> \<exists>!i. i < length sizes \<and> contains (segment_shards g sizes ! i) s = Inr True"
    "sorted_wrt shard_less (segment_shards g sizes)"
    "length (segment_shards g sizes) = length sizes"
proof -
  note n = segment_shards_nth[OF assms]
  show len: "length (segment_shards g sizes) = length sizes" by (simp add: segment_shards_def)
  show ok: "\<forall>sh\<in>set (segment_shards g sizes). shard_ok g sh"
    using n(1) len by (auto simp: in_set_conv_nth)
  show "map shard_size (segment_shards g sizes) = sizes"
    using n(4) len by (intro nth_equalityI) auto
  show "sorted_wrt shard_less (segment_shards g sizes)"
  proof (unfold sorted_wrt_iff_nth_less shard_less_def len, intro allI impI)
    fix i j assume ij: "i < j" "j < length sizes"
    then have il: "i < length sizes" by simp
    have "sum_list (take (Suc i) sizes) \<le> sum_list (take j sizes)"
      using ij by (intro sum_list_take_mono) simp
    then have "key_val (upper (segment_shards g sizes ! i)) < key_val (lower (segment_shards g sizes ! j))"
      using n(3)[OF il] n(2)[OF ij(2)] by linarith
    then show "lower (segment_shards g sizes ! i) < lower (segment_shards g sizes ! j)"
      using shard_okD(5,11)[OF n(1)[OF il]] shard_okD(11)[OF n(1)[OF ij(2)]] key_less_iff
      by (meson le_less_trans)
  qed
  show "\<exists>!i. i < length sizes \<and> contains (segment_shards g sizes ! i) s = Inr True" if s: "full_key g s"
  proof -
    have "bucket_of g s < sum_list sizes"
      using key_ok_take[of s g] s key_val_bound[OF key_ok_valid, of g "take g s"] assms(4)
      by (simp add: full_key_def bucket_of_def key_ok_def)
    from ex1_segment[OF this]
    have "\<exists>!i. i < length sizes \<and> sum_list (take i sizes) \<le> bucket_of g s
        \<and> bucket_of g s < sum_list (take (Suc i) sizes)" .
    moreover have "contains (segment_shards g sizes ! i) s = Inr True \<longleftrightarrow>
        sum_list (take i sizes) \<le> bucket_of g s \<and> bucket_of g s < sum_list (take (Suc i) sizes)"
      if "i < length sizes" for i
      using contains_eq[OF n(1)[OF that] s] n(2,3)[OF that] by auto
    ultimately show ?thesis by (metis (no_types, lifting))
  qed
qed

text \<open>
  C36. The division of the key space: for one up to \<open>36 ^ 4\<close> shards \<open>split_into\<close> uses the least
  granularity with enough keys and returns that many well-formed shards, whose sizes differ by at
  most one and add up to the whole key space; every full key is in exactly one of them, and they
  are in ascending order.
\<close>

theorem split_into_partitions_key_space:
  assumes "0 < n" "n \<le> 36 ^ MAX_GRANULARITY"
  shows "\<exists>g shards. split_into n = Inr shards \<and> length shards = n
    \<and> n \<le> 36 ^ g \<and> (g = 1 \<or> 36 ^ (g - 1) < n)
    \<and> (\<forall>sh\<in>set shards. shard_ok g sh \<and> (shard_size sh = 36 ^ g div n \<or> shard_size sh = 36 ^ g div n + 1))
    \<and> sum_list (map shard_size shards) = 36 ^ g
    \<and> (\<forall>s. full_key g s \<longrightarrow> (\<exists>!i. i < n \<and> contains (shards ! i) s = Inr True))
    \<and> sorted_wrt shard_less shards"
proof -
  have n4: "n \<le> 36 ^ 4" using assms by (simp add: MAX_GRANULARITY_def)
  from split_into_eq[OF assms(1) n4] obtain g sizes where
    g: "1 \<le> g" "g \<le> 4" "n \<le> 36 ^ g" "g = 1 \<or> 36 ^ (g - 1) < n" and
    sz: "length sizes = n" "sum_list sizes = 36 ^ g"
      "\<forall>z\<in>set sizes. z = 36 ^ g div n \<or> z = 36 ^ g div n + 1" "0 < 36 ^ g div n" and
    e: "split_into n = Inr (segment_shards g sizes)" .
  have pos: "\<forall>z\<in>set sizes. 0 < z" using sz(3,4) by fastforce
  note f = segment_shards_facts[OF g(1,2) pos sz(2)]
  have "shard_size sh \<in> set sizes" if "sh \<in> set (segment_shards g sizes)" for sh
    using that arg_cong[OF f(2), of set] by auto
  then have "\<forall>sh\<in>set (segment_shards g sizes).
      shard_ok g sh \<and> (shard_size sh = 36 ^ g div n \<or> shard_size sh = 36 ^ g div n + 1)"
    using f(1) sz(3) by blast
  moreover have "\<forall>s. full_key g s \<longrightarrow> (\<exists>!i. i < n \<and> contains (segment_shards g sizes ! i) s = Inr True)"
    using f(3) sz(1) by simp
  moreover have "sum_list (map shard_size (segment_shards g sizes)) = 36 ^ g"
    using f(2) sz(2) by simp
  moreover have "length (segment_shards g sizes) = n" using f(5) sz(1) by simp
  ultimately show ?thesis
    using e g(3,4) f(4) by (intro exI[of _ g] exI[of _ "segment_shards g sizes"] conjI) assumption+
qed

theorem split_into_partitions_key_space_witness:
  "\<exists>shards. split_into 1000 = Inr shards \<and> length shards = 1000 \<and> sorted_wrt shard_less shards"
  using split_into_partitions_key_space[of 1000] by (auto simp: MAX_GRANULARITY_def)

text \<open>
  The relative position of two shards: for shards whose lower bound is not after their upper
  bound \<open>get_overlap\<close> never reaches its error branch, and its five answers are exactly these
  relations of the two key intervals: disjoint; the first within the second; the second strictly
  inside both ends of the first; and the two partial overlaps, where the common keys are the start
  of the first shard (the second ends within it) or its end.
\<close>

theorem get_overlap_classifies:
  assumes "lower a \<le> upper a" "lower b \<le> upper b"
  shows "(\<exists>st. get_overlap a b = Inr st)
    \<and> (get_overlap a b = Inr NO_OVERLAP \<longleftrightarrow> shard_keys a \<inter> shard_keys b = {})
    \<and> (get_overlap a b = Inr COMPLETELY_CONTAINED \<longleftrightarrow> shard_keys a \<subseteq> shard_keys b)
    \<and> (get_overlap a b = Inr COMPLETELY_CONTAINS \<longleftrightarrow>
         shard_keys b \<subseteq> {k. lower a < k \<and> k < upper a})
    \<and> (get_overlap a b = Inr OVERLAP_START \<longleftrightarrow>
         shard_keys a \<inter> shard_keys b = {lower a..upper b} \<and> lower a \<le> upper b \<and> upper b < upper a)
    \<and> (get_overlap a b = Inr OVERLAP_END \<longleftrightarrow>
         shard_keys a \<inter> shard_keys b = {lower b..upper a} \<and> lower b \<le> upper a \<and> lower a < lower b)"
proof -
  have no: "shard_keys a \<inter> shard_keys b = {} \<longleftrightarrow> upper a < lower b \<or> upper b < lower a"
    using assms by (auto simp: shard_keys_def not_le dest: order.strict_trans2)
  have within: "shard_keys a \<subseteq> shard_keys b \<longleftrightarrow> lower b \<le> lower a \<and> upper a \<le> upper b"
    using assms by (simp add: shard_keys_def)
  have inside: "shard_keys b \<subseteq> {k. lower a < k \<and> k < upper a} \<longleftrightarrow> lower a < lower b \<and> upper b < upper a"
    using assms by (auto simp: shard_keys_def)
  have start: "lower a \<le> upper b \<Longrightarrow>
      shard_keys a \<inter> shard_keys b = {lower a..upper b} \<longleftrightarrow> lower b \<le> lower a \<and> upper b \<le> upper a"
    using assms by (auto simp: shard_keys_def Icc_eq_Icc max_def min_def split: if_splits)
  have end_: "lower b \<le> upper a \<Longrightarrow>
      shard_keys a \<inter> shard_keys b = {lower b..upper a} \<longleftrightarrow> lower a \<le> lower b \<and> upper a \<le> upper b"
    using assms by (auto simp: shard_keys_def Icc_eq_Icc max_def min_def split: if_splits)
  have start': "shard_keys a \<inter> shard_keys b = {lower a..upper b} \<and> lower a \<le> upper b \<and> upper b < upper a
      \<longleftrightarrow> lower b \<le> lower a \<and> lower a \<le> upper b \<and> upper b < upper a"
    using start by (metis order.strict_implies_order)
  have end': "shard_keys a \<inter> shard_keys b = {lower b..upper a} \<and> lower b \<le> upper a \<and> lower a < lower b
      \<longleftrightarrow> lower a < lower b \<and> lower b \<le> upper a \<and> upper a \<le> upper b"
    using end_ by (metis order.strict_implies_order)
  show ?thesis
    unfolding no within inside start' end' get_overlap_def using assms by auto
qed

theorem get_overlap_classifies_witness:
  "get_overlap \<lparr>lower = ''A'', upper = ''F''\<rparr> \<lparr>lower = ''D'', upper = ''H''\<rparr> = Inr OVERLAP_END
   \<and> shard_keys \<lparr>lower = ''A'', upper = ''F''\<rparr> \<inter> shard_keys \<lparr>lower = ''D'', upper = ''H''\<rparr> = {''D''..''F''}"
proof -
  have le: "lower \<lparr>lower = ''A'', upper = ''F''\<rparr> \<le> upper \<lparr>lower = ''A'', upper = ''F''\<rparr>"
    "lower \<lparr>lower = ''D'', upper = ''H''\<rparr> \<le> upper \<lparr>lower = ''D'', upper = ''H''\<rparr>"
    by (simp_all add: less_eq_char_def)
  have e: "get_overlap \<lparr>lower = ''A'', upper = ''F''\<rparr> \<lparr>lower = ''D'', upper = ''H''\<rparr> = Inr OVERLAP_END"
    by (simp add: get_overlap_def less_eq_char_def less_char_def)
  show ?thesis using e get_overlap_classifies[OF le] by simp
qed

end
