(* ===== verification/Std_Map.thy ===== *)
theory Std_Map
  imports Prelude "HOL-Library.AList"
begin

text \<open>
  The dictionaries of the C++ standard library the key-value store uses. A
  \<open>std::unordered_map\<close> is an association list without duplicate keys whose order is the
  iteration order; a \<open>std::map\<close> is an association list in ascending key order. Both are
  dictionaries in the sense of the locale \<open>dict\<close>, whose lemmas the clients use.
\<close>

section \<open>The interface\<close>

locale dict =
  fixes empty :: "'m"
    and lookup :: "'m \<Rightarrow> 'k \<Rightarrow> 'v option"
    and put :: "'k \<Rightarrow> 'v \<Rightarrow> 'm \<Rightarrow> 'm"
    and erase :: "'k \<Rightarrow> 'm \<Rightarrow> 'm"
    and wf :: "'m \<Rightarrow> bool"
  assumes wf_empty [simp]: "wf empty"
    and lookup_empty [simp]: "lookup empty k = None"
    and wf_put [simp]: "wf m \<Longrightarrow> wf (put k v m)"
    and lookup_put [simp]: "wf m \<Longrightarrow> lookup (put k v m) = (lookup m)(k \<mapsto> v)"
    and wf_erase [simp]: "wf m \<Longrightarrow> wf (erase k m)"
    and lookup_erase [simp]: "wf m \<Longrightarrow> lookup (erase k m) = (lookup m)(k := None)"
begin

lemma wf_put_pairs: "wf m \<Longrightarrow> wf (fold (\<lambda>(k, v). put k v) ps m)"
  by (induction ps arbitrary: m) auto

lemma lookup_put_pairs:
  "wf m \<Longrightarrow> lookup (fold (\<lambda>(k, v). put k v) ps m) = lookup m ++ map_of (rev ps)"
proof (induction ps arbitrary: m)
  case Nil
  then show ?case by simp
next
  case (Cons p ps)
  then show ?case by (cases p) (simp add: map_add_def fun_eq_iff split: option.splits)
qed

lemma lookup_put_zip:
  "wf m \<Longrightarrow> length ks = length vs \<Longrightarrow>
    lookup (fold (\<lambda>(k, v). put k v) (zip ks vs) m) = (lookup m)(ks [\<mapsto>] vs)"
  by (simp add: lookup_put_pairs map_upds_def)

end

section \<open>std::unordered_map\<close>

type_synonym ('k, 'v) umap = "('k \<times> 'v) list"

definition um_wf :: "('k, 'v) umap \<Rightarrow> bool" where
  "um_wf m \<longleftrightarrow> distinct (map fst m)"

definition um_find :: "('k, 'v) umap \<Rightarrow> 'k \<Rightarrow> 'v option" where
  "um_find m k = map_of m k"

definition um_put :: "'k \<Rightarrow> 'v \<Rightarrow> ('k, 'v) umap \<Rightarrow> ('k, 'v) umap" where
  "um_put k v m = AList.update k v m"

definition um_erase :: "'k \<Rightarrow> ('k, 'v) umap \<Rightarrow> ('k, 'v) umap" where
  "um_erase k m = AList.delete k m"

interpretation um: dict "[]" um_find um_put um_erase um_wf
  by unfold_locales
    (simp_all add: um_wf_def um_find_def um_put_def um_erase_def distinct_update
      update_conv' distinct_delete delete_conv' fun_eq_iff)

section \<open>std::map\<close>

type_synonym ('k, 'v) omap = "('k \<times> 'v) list"

definition om_wf :: "('k::linorder, 'v) omap \<Rightarrow> bool" where
  "om_wf m \<longleftrightarrow> sorted_wrt (<) (map fst m)"

definition om_find :: "('k::linorder, 'v) omap \<Rightarrow> 'k \<Rightarrow> 'v option" where
  "om_find m k = map_of m k"

fun om_put :: "'k::linorder \<Rightarrow> 'v \<Rightarrow> ('k, 'v) omap \<Rightarrow> ('k, 'v) omap" where
  "om_put k v [] = [(k, v)]"
| "om_put k v ((k', v') # m) =
     (if k < k' then (k, v) # (k', v') # m
      else if k = k' then (k, v) # m
      else (k', v') # om_put k v m)"

definition om_erase :: "'k::linorder \<Rightarrow> ('k, 'v) omap \<Rightarrow> ('k, 'v) omap" where
  "om_erase k m = filter (\<lambda>(k', v). k' \<noteq> k) m"

lemma set_om_put: "fst ` set (om_put k v m) = insert k (fst ` set m)"
  by (induction k v m rule: om_put.induct) auto

lemma om_wf_put: "om_wf m \<Longrightarrow> om_wf (om_put k v m)"
  unfolding om_wf_def
proof (induction k v m rule: om_put.induct)
  case (1 k v)
  then show ?case by simp
next
  case (2 k v k' v' m)
  have "set (map fst (om_put k v m)) = insert k (fst ` set m)" by (simp add: set_om_put)
  then show ?case using 2 by (auto simp: set_om_put)
qed

lemma om_find_put: "om_wf m \<Longrightarrow> om_find (om_put k v m) = (om_find m)(k \<mapsto> v)"
  unfolding om_wf_def om_find_def
proof (induction k v m rule: om_put.induct)
  case (1 k v)
  then show ?case by auto
next
  case (2 k v k' v' m)
  then show ?case by (auto simp: fun_eq_iff)
qed

lemma om_wf_erase: "om_wf m \<Longrightarrow> om_wf (om_erase k m)"
  unfolding om_wf_def om_erase_def
  by (simp add: sorted_wrt_map sorted_wrt_filter)

lemma om_find_erase: "om_find (om_erase k m) = (om_find m)(k := None)"
  unfolding om_find_def om_erase_def by (induction m) auto

interpretation om: dict "[]" om_find om_put om_erase om_wf
  by unfold_locales (simp_all add: om_wf_put om_find_put om_wf_erase om_find_erase, simp_all add: om_wf_def om_find_def)

lemma om_wf_distinct: "om_wf m \<Longrightarrow> distinct (map fst m)"
  by (simp add: om_wf_def strict_sorted_iff)

lemma om_wf_inj: "om_wf m \<Longrightarrow> om_wf n \<Longrightarrow> om_find m = om_find n \<Longrightarrow> m = n"
proof -
  assume w: "om_wf m" "om_wf n" and f: "om_find m = om_find n"
  note d = om_wf_distinct[OF w(1)] om_wf_distinct[OF w(2)]
  have e: "set m = set n"
    using f map_of_inject_set[OF d] by (simp add: om_find_def fun_eq_iff)
  have "inj_on fst (set m \<union> set n)"
    using d(1) e by (simp add: distinct_map)
  moreover have "sorted (map fst m)" "sorted (map fst n)"
    using w by (auto simp: om_wf_def strict_sorted_iff)
  ultimately show ?thesis
    using map_sorted_distinct_set_unique[of fst m n] d e by blast
qed

end
