(* ===== verification/Common_Config.thy ===== *)
theory Common_Config
  imports Common_Utils Common_Shard Std_Map
begin

text \<open>
  \<open>kvstore/common/config.cpp\<close>: the configuration of the shard controller, a \<open>std::map\<close> from
  server addresses to the shards each server is responsible for, its printed form, and the lookup
  of the server responsible for a key.
\<close>

record ShardControllerConfig =
  server_to_shards :: "(string, Shard list) omap"

definition config_wf :: "ShardControllerConfig \<Rightarrow> bool" where
  "config_wf c \<longleftrightarrow> om_wf (server_to_shards c)"

definition newline :: string where
  "newline = [char_of (10::nat)]"

definition shard_out :: "Shard \<Rightarrow> string" where
  "shard_out s = ''['' @ lower s @ '', '' @ upper s @ '']''"

text \<open>The loop over one server's shards: a comma follows every shard that differs from the last.\<close>

fun print_shards :: "Shard \<Rightarrow> Shard list \<Rightarrow> string" where
  "print_shards back [] = []"
| "print_shards back (s # ss) =
     shard_out s @ (if s \<noteq> back then '', '' else []) @ print_shards back ss"

definition print_server :: "string \<times> Shard list \<Rightarrow> string" where
  "print_server p = (case p of (server, shards) \<Rightarrow>
     ''- '' @ server @ '': '' @ print_shards (last shards) shards @ newline)"

definition print_config :: "ShardControllerConfig \<Rightarrow> string" where
  "print_config c =
     ''Shardcontroller configuration: '' @ newline @ concat (map print_server (server_to_shards c))"

text \<open>
  \<open>get_server\<close> upper-cases the key and, the search being left to do, reports that no server is
  responsible whatever the configuration.
\<close>

definition get_server :: "ShardControllerConfig \<Rightarrow> string \<Rightarrow> string option" where
  "get_server c key = (let key_uppercase = to_upper key in None)"

section \<open>Facts\<close>

lemma get_server_None [simp]: "get_server c key = None"
  by (simp add: get_server_def)

fun join_with :: "string \<Rightarrow> string list \<Rightarrow> string" where
  "join_with sep [] = []"
| "join_with sep [x] = x"
| "join_with sep (x # y # xs) = x @ sep @ join_with sep (y # xs)"

lemma print_shards_join:
  "s \<notin> set ss \<Longrightarrow> print_shards s (ss @ [s]) = join_with '', '' (map shard_out (ss @ [s]))"
proof (induction ss)
  case Nil
  then show ?case by simp
next
  case (Cons a ss)
  then show ?case by (cases ss) auto
qed

lemma config_wf_empty [simp]: "config_wf \<lparr>server_to_shards = []\<rparr>"
  by (simp add: config_wf_def)

end
