(* ===== verification/Kv_Commands.thy ===== *)
theory Kv_Commands
  imports Common_Config
begin

text \<open>
  The requests and responses exchanged with key-value servers (\<open>net/server_commands.hpp\<close>) and
  with the shard controller (\<open>net/shardcontroller_commands.hpp\<close>), and the message types and
  variants that carry them (\<open>net/network_messages.hpp\<close>). A struct without members has one value.
\<close>

section \<open>Key-value requests and responses\<close>

record GetRequest =
  get_key :: string

record PutRequest =
  put_key :: string
  put_value :: string

record AppendRequest =
  append_key :: string
  append_value :: string

record DeleteRequest =
  delete_key :: string

record MultiGetRequest =
  multiget_keys :: "string list"

record MultiPutRequest =
  multiput_keys :: "string list"
  multiput_values :: "string list"

record GetResponse =
  get_res_value :: string

datatype PutResponse = PutResponse

datatype AppendResponse = AppendResponse

record DeleteResponse =
  delete_res_value :: string

record MultiGetResponse =
  multiget_res_values :: "string list"

datatype MultiPutResponse = MultiPutResponse

section \<open>Shard controller requests and responses\<close>

record JoinRequest =
  join_server :: string

record LeaveRequest =
  leave_server :: string

record MoveRequest =
  move_server :: string
  move_shards :: "Shard list"

datatype QueryRequest = QueryRequest

datatype JoinResponse = JoinResponse

datatype LeaveResponse = LeaveResponse

datatype MoveResponse = MoveResponse

record QueryResponse =
  query_config :: ShardControllerConfig

record ErrorResponse =
  error_msg :: string

section \<open>Messages\<close>

datatype MessageType =
    GET | PUT | APPEND | DELETE | MULTI_GET | MULTI_PUT
  | JOIN | LEAVE | MOVE | QUERY | ERROR

text \<open>The \<open>int\<close> an enumerator of \<open>MessageType\<close> stands for; a received type may be any \<open>int\<close>.\<close>

fun type_code :: "MessageType \<Rightarrow> u32" where
  "type_code GET = 0"
| "type_code PUT = 1"
| "type_code APPEND = 2"
| "type_code DELETE = 3"
| "type_code MULTI_GET = 4"
| "type_code MULTI_PUT = 5"
| "type_code JOIN = 6"
| "type_code LEAVE = 7"
| "type_code MOVE = 8"
| "type_code QUERY = 9"
| "type_code ERROR = 10"

record Message =
  type :: u32
  sz :: u64
  buf :: bytes

text \<open>\<open>Message::size\<close>: the sizes of the type, of the size field and of the buffer.\<close>

definition message_size :: "Message \<Rightarrow> nat" where
  "message_size m = sz_add (sz_add 4 8) (length (buf m))"

datatype Request =
    JoinReq JoinRequest
  | LeaveReq LeaveRequest
  | MoveReq MoveRequest
  | QueryReq QueryRequest
  | GetReq GetRequest
  | PutReq PutRequest
  | AppendReq AppendRequest
  | DeleteReq DeleteRequest
  | MultiGetReq MultiGetRequest
  | MultiPutReq MultiPutRequest

datatype Response =
    JoinRes JoinResponse
  | LeaveRes LeaveResponse
  | MoveRes MoveResponse
  | QueryRes QueryResponse
  | GetRes GetResponse
  | PutRes PutResponse
  | AppendRes AppendResponse
  | DeleteRes DeleteResponse
  | MultiGetRes MultiGetResponse
  | MultiPutRes MultiPutResponse
  | ErrorRes ErrorResponse

lemma type_code_inj [simp]: "type_code a = type_code b \<longleftrightarrow> a = b"
  by (cases a; cases b) simp_all

lemma multiget_response_update: "(r::MultiGetResponse)\<lparr>multiget_res_values := vs\<rparr> = \<lparr>multiget_res_values = vs\<rparr>"
  by (cases r) simp

lemma get_response_update: "(r::GetResponse)\<lparr>get_res_value := v\<rparr> = \<lparr>get_res_value = v\<rparr>"
  by (cases r) simp

lemma delete_response_update: "(r::DeleteResponse)\<lparr>delete_res_value := v\<rparr> = \<lparr>delete_res_value = v\<rparr>"
  by (cases r) simp

lemmas response_updates = multiget_response_update get_response_update delete_response_update

end
