(* ===== verification/Kv_Interface.thy ===== *)
theory Kv_Interface
  imports Kv_Commands "HOL-Library.Multiset"
begin

text \<open>
  The abstract class \<open>KvStore\<close> (\<open>kvstore/kvstore.hpp\<close>): its virtual functions as a record of
  operations over a state of its own, the contract the key-value server relies on, and the
  specification of the operations over a partial map from keys to values.
\<close>

section \<open>The virtual functions\<close>

text \<open>
  Every operation takes the request, the response object it may write to, and the store; it gives
  the \<open>bool\<close> it returns, the response and the new store. \<open>AllKeys\<close> also takes the iteration order
  of the standard library's hash table, a function that permutes the keys.
\<close>

record 's KvStore =
  kv_Get :: "GetRequest \<Rightarrow> GetResponse \<Rightarrow> 's \<Rightarrow> (bool \<times> GetResponse \<times> 's) result"
  kv_Put :: "PutRequest \<Rightarrow> PutResponse \<Rightarrow> 's \<Rightarrow> (bool \<times> PutResponse \<times> 's) result"
  kv_Append :: "AppendRequest \<Rightarrow> AppendResponse \<Rightarrow> 's \<Rightarrow> (bool \<times> AppendResponse \<times> 's) result"
  kv_Delete :: "DeleteRequest \<Rightarrow> DeleteResponse \<Rightarrow> 's \<Rightarrow> (bool \<times> DeleteResponse \<times> 's) result"
  kv_MultiGet :: "MultiGetRequest \<Rightarrow> MultiGetResponse \<Rightarrow> 's \<Rightarrow> (bool \<times> MultiGetResponse \<times> 's) result"
  kv_MultiPut :: "MultiPutRequest \<Rightarrow> MultiPutResponse \<Rightarrow> 's \<Rightarrow> (bool \<times> MultiPutResponse \<times> 's) result"
  kv_AllKeys :: "(string list \<Rightarrow> string list) \<Rightarrow> 's \<Rightarrow> (string list \<times> 's) result"

section \<open>The specification over partial maps\<close>

type_synonym kvmap = "string \<Rightarrow> string option"

definition spec_append :: "string \<Rightarrow> string \<Rightarrow> kvmap \<Rightarrow> kvmap" where
  "spec_append k v m = m(k \<mapsto> (case m k of None \<Rightarrow> v | Some w \<Rightarrow> w @ v))"

fun spec_multiget :: "kvmap \<Rightarrow> string list \<Rightarrow> string list option" where
  "spec_multiget m [] = Some []"
| "spec_multiget m (k # ks) =
     (case m k of None \<Rightarrow> None
      | Some v \<Rightarrow> (case spec_multiget m ks of None \<Rightarrow> None | Some vs \<Rightarrow> Some (v # vs)))"

lemma spec_multiget_None: "spec_multiget m ks = None \<longleftrightarrow> (\<exists>k\<in>set ks. m k = None)"
  by (induction ks) (auto split: option.splits)

lemma spec_multiget_Some:
  "spec_multiget m ks = Some vs \<longleftrightarrow> map m ks = map Some vs"
proof (induction ks arbitrary: vs)
  case Nil
  then show ?case by auto
next
  case (Cons k ks)
  have "spec_multiget m (k # ks) = Some vs \<longleftrightarrow>
      (\<exists>w ws. vs = w # ws \<and> m k = Some w \<and> spec_multiget m ks = Some ws)"
    by (auto split: option.splits)
  also have "\<dots> \<longleftrightarrow> (\<exists>w ws. vs = w # ws \<and> m k = Some w \<and> map m ks = map Some ws)"
    unfolding Cons.IH ..
  also have "\<dots> \<longleftrightarrow> map m (k # ks) = map Some vs"
    by (cases vs) simp_all
  finally show ?case .
qed

lemma spec_multiget_after_multiput:
  "distinct ks \<Longrightarrow> length ks = length vs \<Longrightarrow> spec_multiget (m(ks [\<mapsto>] vs)) ks = Some vs"
proof -
  assume d: "distinct ks" and l: "length ks = length vs"
  have "map (m(ks [\<mapsto>] vs)) ks = map Some vs"
    using d l
  proof (induction ks vs arbitrary: m rule: list_induct2')
    case (4 k ks v vs)
    have "map (m(k # ks [\<mapsto>] v # vs)) ks = map Some vs" using 4 by simp
    moreover have "(m(k # ks [\<mapsto>] v # vs)) k = Some v" using 4 by simp
    ultimately show ?case by (simp only: list.map)
  qed simp_all
  then show ?thesis by (simp add: spec_multiget_Some)
qed

section \<open>The contract\<close>

text \<open>
  \<open>inv\<close> is the state in which an operation may be called. Every operation answers as the
  specification does, and leaves a state that may be used again when it succeeded.
\<close>

locale kv_store =
  fixes ops :: "'s KvStore" and abs :: "'s \<Rightarrow> kvmap" and inv :: "'s \<Rightarrow> bool"
  assumes Get_hit: "inv s \<Longrightarrow> abs s (get_key q) = Some v \<Longrightarrow>
      \<exists>s'. kv_Get ops q r s = Inr (True, \<lparr>get_res_value = v\<rparr>, s') \<and> inv s' \<and> abs s' = abs s"
    and Get_miss: "inv s \<Longrightarrow> abs s (get_key q) = None \<Longrightarrow>
      \<exists>s'. kv_Get ops q r s = Inr (False, r, s') \<and> abs s' = abs s"
    and Put_ok: "inv s \<Longrightarrow>
      \<exists>s'. kv_Put ops pq pr s = Inr (True, pr, s') \<and> inv s'
         \<and> abs s' = (abs s)(put_key pq \<mapsto> put_value pq)"
    and Append_ok: "inv s \<Longrightarrow>
      \<exists>s'. kv_Append ops aq ar s = Inr (True, ar, s') \<and> inv s'
         \<and> abs s' = spec_append (append_key aq) (append_value aq) (abs s)"
    and Delete_hit: "inv s \<Longrightarrow> abs s (delete_key dq) = Some v \<Longrightarrow>
      \<exists>s'. kv_Delete ops dq dr s = Inr (True, \<lparr>delete_res_value = v\<rparr>, s') \<and> inv s'
         \<and> abs s' = (abs s)(delete_key dq := None)"
    and Delete_miss: "inv s \<Longrightarrow> abs s (delete_key dq) = None \<Longrightarrow>
      \<exists>s'. kv_Delete ops dq dr s = Inr (False, dr, s') \<and> abs s' = abs s"
    and MultiGet_hit: "inv s \<Longrightarrow> spec_multiget (abs s) (multiget_keys gq) = Some vs \<Longrightarrow>
      \<exists>s'. kv_MultiGet ops gq gr s = Inr (True, \<lparr>multiget_res_values = vs\<rparr>, s') \<and> inv s'
         \<and> abs s' = abs s"
    and MultiGet_miss: "inv s \<Longrightarrow> spec_multiget (abs s) (multiget_keys gq) = None \<Longrightarrow>
      \<exists>s'. kv_MultiGet ops gq gr s = Inr (False, \<lparr>multiget_res_values = []\<rparr>, s')
         \<and> abs s' = abs s"
    and MultiPut_ok: "inv s \<Longrightarrow> length (multiput_keys mq) = length (multiput_values mq) \<Longrightarrow>
      \<exists>s'. kv_MultiPut ops mq mr s = Inr (True, mr, s') \<and> inv s'
         \<and> abs s' = (abs s)(multiput_keys mq [\<mapsto>] multiput_values mq)"
    and MultiPut_bad: "inv s \<Longrightarrow> length (multiput_keys mq) \<noteq> length (multiput_values mq) \<Longrightarrow>
      \<exists>s'. kv_MultiPut ops mq mr s = Inr (False, mr, s') \<and> abs s' = abs s"
    and AllKeys_ok: "inv s \<Longrightarrow> (\<And>xs. mset (order xs) = mset xs) \<Longrightarrow>
      \<exists>ks s'. kv_AllKeys ops order s = Inr (ks, s') \<and> inv s' \<and> abs s' = abs s
         \<and> distinct ks \<and> set ks = dom (abs s)"
begin

lemma Put_then_Get:
  assumes "inv s"
  shows "\<exists>s1 s2. kv_Put ops pq pr s = Inr (True, pr, s1)
      \<and> kv_Get ops \<lparr>get_key = put_key pq\<rparr> r s1 = Inr (True, \<lparr>get_res_value = put_value pq\<rparr>, s2)
      \<and> inv s2 \<and> abs s2 = (abs s)(put_key pq \<mapsto> put_value pq)"
proof -
  obtain s1 where 1: "kv_Put ops pq pr s = Inr (True, pr, s1)" "inv s1"
      "abs s1 = (abs s)(put_key pq \<mapsto> put_value pq)"
    using Put_ok[OF assms] by blast
  have "abs s1 (get_key \<lparr>get_key = put_key pq\<rparr>) = Some (put_value pq)"
    using 1(3) by simp
  from Get_hit[OF 1(2) this, of r] obtain s2 where 2: "kv_Get ops \<lparr>get_key = put_key pq\<rparr> r s1
      = Inr (True, \<lparr>get_res_value = put_value pq\<rparr>, s2)" "inv s2" "abs s2 = abs s1"
    by blast
  show ?thesis using 1(1) 2(1,2) unfolding 1(3)[symmetric] 2(3)[symmetric] by (intro exI conjI) auto
qed

lemma MultiPut_then_MultiGet:
  assumes "inv s" "distinct (multiput_keys mq)"
    "length (multiput_keys mq) = length (multiput_values mq)"
  shows "\<exists>s1 s2. kv_MultiPut ops mq mr s = Inr (True, mr, s1)
      \<and> kv_MultiGet ops \<lparr>multiget_keys = multiput_keys mq\<rparr> gr s1
          = Inr (True, \<lparr>multiget_res_values = multiput_values mq\<rparr>, s2) \<and> inv s2"
proof -
  obtain s1 where 1: "kv_MultiPut ops mq mr s = Inr (True, mr, s1)" "inv s1"
      "abs s1 = (abs s)(multiput_keys mq [\<mapsto>] multiput_values mq)"
    using MultiPut_ok[OF assms(1,3)] by blast
  have "spec_multiget (abs s1) (multiget_keys \<lparr>multiget_keys = multiput_keys mq\<rparr>)
      = Some (multiput_values mq)"
    using spec_multiget_after_multiput[OF assms(2,3)] 1(3) by simp
  then obtain s2 where "kv_MultiGet ops \<lparr>multiget_keys = multiput_keys mq\<rparr> gr s1
      = Inr (True, \<lparr>multiget_res_values = multiput_values mq\<rparr>, s2)" "inv s2"
    using MultiGet_hit[OF 1(2), of "\<lparr>multiget_keys = multiput_keys mq\<rparr>" "multiput_values mq" gr] by blast
  with 1(1) show ?thesis by (intro exI conjI)
qed

end

text \<open>
  A store that stays usable: an operation that answers \<open>false\<close> leaves the store ready as well.
\<close>

locale kv_live = kv_store +
  assumes Get_live: "inv s \<Longrightarrow> kv_Get ops q r s = Inr (b, r', s') \<Longrightarrow> inv s'"
    and Delete_live: "inv s \<Longrightarrow> kv_Delete ops dq dr s = Inr (b, dr', s') \<Longrightarrow> inv s'"
    and MultiGet_live: "inv s \<Longrightarrow> kv_MultiGet ops gq gr s = Inr (b, gr', s') \<Longrightarrow> inv s'"
    and MultiPut_live: "inv s \<Longrightarrow> kv_MultiPut ops mq mr s = Inr (b, mr', s') \<Longrightarrow> inv s'"

end
