(* ===== verification/Simple_Kv.thy ===== *)
theory Simple_Kv
  imports Kv_Interface
begin

text \<open>
  \<open>kvstore/simple_kvstore.cpp\<close>: a store that protects one hash table with one mutex. The mutex
  is part of the state: \<open>lock\<close> on a mutex that is held waits for ever, because every operation is
  over by the time the next one is called, so nobody is left to release it.
\<close>

record SimpleKvStore =
  mtx :: bool
  store_tbl :: "(string, string) umap"

definition simple_init :: SimpleKvStore where
  "simple_init = \<lparr>mtx = False, store_tbl = []\<rparr>"

definition simple_lock :: "SimpleKvStore \<Rightarrow> SimpleKvStore result" where
  "simple_lock s = (if mtx s then Inl (NeverReturns ''mtx.lock()'') else Inr (s\<lparr>mtx := True\<rparr>))"

definition simple_unlock :: "SimpleKvStore \<Rightarrow> SimpleKvStore" where
  "simple_unlock s = s\<lparr>mtx := False\<rparr>"

definition simple_Get ::
  "GetRequest \<Rightarrow> GetResponse \<Rightarrow> SimpleKvStore \<Rightarrow> (bool \<times> GetResponse \<times> SimpleKvStore) result" where
  "simple_Get req res s = res_bind (simple_lock s) (\<lambda>s.
     case um_find (store_tbl s) (get_key req) of
       None \<Rightarrow> Inr (False, res, s)
     | Some v \<Rightarrow> Inr (True, res\<lparr>get_res_value := v\<rparr>, simple_unlock s))"

definition simple_Put ::
  "PutRequest \<Rightarrow> PutResponse \<Rightarrow> SimpleKvStore \<Rightarrow> (bool \<times> PutResponse \<times> SimpleKvStore) result" where
  "simple_Put req res s = res_bind (simple_lock s) (\<lambda>s.
     let s = s\<lparr>store_tbl := um_put (put_key req) (put_value req) (store_tbl s)\<rparr>
     in Inr (True, res, simple_unlock s))"

definition simple_Append ::
  "AppendRequest \<Rightarrow> AppendResponse \<Rightarrow> SimpleKvStore
    \<Rightarrow> (bool \<times> AppendResponse \<times> SimpleKvStore) result" where
  "simple_Append req res s = res_bind (simple_lock s) (\<lambda>s.
     let s = (case um_find (store_tbl s) (append_key req) of
                Some w \<Rightarrow> s\<lparr>store_tbl := um_put (append_key req) (w @ append_value req) (store_tbl s)\<rparr>
              | None \<Rightarrow> s\<lparr>store_tbl := um_put (append_key req) (append_value req) (store_tbl s)\<rparr>)
     in Inr (True, res, simple_unlock s))"

definition simple_Delete ::
  "DeleteRequest \<Rightarrow> DeleteResponse \<Rightarrow> SimpleKvStore
    \<Rightarrow> (bool \<times> DeleteResponse \<times> SimpleKvStore) result" where
  "simple_Delete req res s = res_bind (simple_lock s) (\<lambda>s.
     case um_find (store_tbl s) (delete_key req) of
       None \<Rightarrow> Inr (False, res, s)
     | Some v \<Rightarrow>
         let res = res\<lparr>delete_res_value := v\<rparr>;
             s = s\<lparr>store_tbl := um_erase (delete_key req) (store_tbl s)\<rparr>
         in Inr (True, res, simple_unlock s))"

text \<open>The loop of \<open>MultiGet\<close>; its early return clears the values and keeps the mutex.\<close>

fun simple_multiget_loop ::
  "string list \<Rightarrow> MultiGetResponse \<Rightarrow> SimpleKvStore
    \<Rightarrow> bool \<times> MultiGetResponse \<times> SimpleKvStore" where
  "simple_multiget_loop [] res s = (True, res, simple_unlock s)"
| "simple_multiget_loop (k # ks) res s =
     (case um_find (store_tbl s) k of
        None \<Rightarrow> (False, res\<lparr>multiget_res_values := []\<rparr>, s)
      | Some v \<Rightarrow>
          simple_multiget_loop ks
            (res\<lparr>multiget_res_values := multiget_res_values res @ [v]\<rparr>) s)"

definition simple_MultiGet ::
  "MultiGetRequest \<Rightarrow> MultiGetResponse \<Rightarrow> SimpleKvStore
    \<Rightarrow> (bool \<times> MultiGetResponse \<times> SimpleKvStore) result" where
  "simple_MultiGet req res s = res_bind (simple_lock s) (\<lambda>s.
     Inr (simple_multiget_loop (multiget_keys req) (res\<lparr>multiget_res_values := []\<rparr>) s))"

fun simple_multiput_loop ::
  "string list \<Rightarrow> string list \<Rightarrow> SimpleKvStore \<Rightarrow> SimpleKvStore" where
  "simple_multiput_loop (k # ks) (v # vs) s =
     simple_multiput_loop ks vs (s\<lparr>store_tbl := um_put k v (store_tbl s)\<rparr>)"
| "simple_multiput_loop _ _ s = s"

definition simple_MultiPut ::
  "MultiPutRequest \<Rightarrow> MultiPutResponse \<Rightarrow> SimpleKvStore
    \<Rightarrow> (bool \<times> MultiPutResponse \<times> SimpleKvStore) result" where
  "simple_MultiPut req res s = res_bind (simple_lock s) (\<lambda>s.
     if length (multiput_keys req) \<noteq> length (multiput_values req) then Inr (False, res, s)
     else Inr (True, res,
       simple_unlock (simple_multiput_loop (multiput_keys req) (multiput_values req) s)))"

definition simple_AllKeys ::
  "(string list \<Rightarrow> string list) \<Rightarrow> SimpleKvStore \<Rightarrow> (string list \<times> SimpleKvStore) result" where
  "simple_AllKeys order s = res_bind (simple_lock s) (\<lambda>s.
     Inr (order (map fst (store_tbl s)), simple_unlock s))"

definition simple_ops :: "SimpleKvStore KvStore" where
  "simple_ops = \<lparr>kv_Get = simple_Get, kv_Put = simple_Put, kv_Append = simple_Append,
     kv_Delete = simple_Delete, kv_MultiGet = simple_MultiGet, kv_MultiPut = simple_MultiPut,
     kv_AllKeys = simple_AllKeys\<rparr>"

section \<open>The contract of the store\<close>

definition simple_abs :: "SimpleKvStore \<Rightarrow> kvmap" where
  "simple_abs s = um_find (store_tbl s)"

definition simple_ready :: "SimpleKvStore \<Rightarrow> bool" where
  "simple_ready s \<longleftrightarrow> \<not> mtx s \<and> um_wf (store_tbl s)"

named_theorems simple_simps \<open>the operations of the simple store unfolded\<close>

lemmas [simple_simps] = simple_lock_def simple_unlock_def simple_Get_def simple_Put_def
  simple_Append_def simple_Delete_def simple_MultiGet_def simple_MultiPut_def simple_AllKeys_def

lemma simple_readyD: "simple_ready s \<Longrightarrow> um_wf (store_tbl s)" "simple_ready s \<Longrightarrow> \<not> mtx s"
  by (simp_all add: simple_ready_def)

lemma simple_multiget_loop_eq:
  "simple_multiget_loop ks res s =
     (case spec_multiget (um_find (store_tbl s)) ks of
        None \<Rightarrow> (False, res\<lparr>multiget_res_values := []\<rparr>, s)
      | Some vs \<Rightarrow> (True, res\<lparr>multiget_res_values := multiget_res_values res @ vs\<rparr>, simple_unlock s))"
  by (induction ks arbitrary: res) (auto split: option.splits)

lemma simple_multiput_loop_eq:
  "length ks = length vs \<Longrightarrow>
    simple_multiput_loop ks vs s = s\<lparr>store_tbl := fold (\<lambda>(k, v). um_put k v) (zip ks vs) (store_tbl s)\<rparr>"
  by (induction ks vs arbitrary: s rule: list_induct2') auto

lemma um_keys: "um_wf m \<Longrightarrow> distinct (map fst m) \<and> fst ` set m = dom (um_find m)"
  by (auto simp: um_wf_def um_find_def [abs_def] dom_map_of_conv_image_fst)

lemmas simple_contract = simple_ops_def simple_abs_def simple_ready_def simple_simps
  response_updates Let_def

interpretation simple_kv: kv_store simple_ops simple_abs simple_ready
proof (unfold_locales, goal_cases)
  case (1 s q v r)
  then show ?case by (simp add: simple_contract)
next
  case (2 s q r)
  then show ?case by (simp add: simple_contract)
next
  case (3 s pq pr)
  then show ?case by (simp add: simple_contract)
next
  case (4 s aq ar)
  then show ?case by (cases "um_find (store_tbl s) (append_key aq)")
    (simp_all add: simple_contract spec_append_def)
next
  case (5 s dq v dr)
  then show ?case by (simp add: simple_contract)
next
  case (6 s dq dr)
  then show ?case by (simp add: simple_contract)
next
  case (7 s gq vs gr)
  then show ?case by (simp add: simple_contract simple_multiget_loop_eq)
next
  case (8 s gq gr)
  then show ?case by (simp add: simple_contract simple_multiget_loop_eq)
next
  case (9 s mq mr)
  then show ?case
    by (simp add: simple_contract simple_multiput_loop_eq um.lookup_put_zip um.wf_put_pairs)
next
  case (10 s mq mr)
  then show ?case by (simp add: simple_contract)
next
  case (11 s order)
  have m: "mset (order (map fst (store_tbl s))) = mset (map fst (store_tbl s))"
    by (rule 11(2))
  have "um_wf (store_tbl s)" using simple_readyD(1)[OF 11(1)] .
  from um_keys[OF this]
  have "distinct (order (map fst (store_tbl s)))"
      "set (order (map fst (store_tbl s))) = dom (um_find (store_tbl s))"
    using mset_eq_imp_distinct_iff[OF m] mset_eq_setD[OF m] by simp_all
  with 11(1) show ?case by (simp add: simple_contract)
qed

section \<open>Early returns\<close>

definition blocks :: "'a result \<Rightarrow> bool" where
  "blocks r \<longleftrightarrow> (\<exists>w. r = Inl (NeverReturns w))"

text \<open>No operation on the store ever returns again.\<close>

definition simple_stuck :: "SimpleKvStore \<Rightarrow> bool" where
  "simple_stuck s \<longleftrightarrow> (\<forall>q r. blocks (simple_Get q r s)) \<and> (\<forall>q r. blocks (simple_Put q r s))
     \<and> (\<forall>q r. blocks (simple_Append q r s)) \<and> (\<forall>q r. blocks (simple_Delete q r s))
     \<and> (\<forall>q r. blocks (simple_MultiGet q r s)) \<and> (\<forall>q r. blocks (simple_MultiPut q r s))
     \<and> (\<forall>order. blocks (simple_AllKeys order s))"

lemma simple_locked_stuck: "mtx s \<Longrightarrow> simple_stuck s"
  by (simp add: simple_stuck_def simple_simps blocks_def)

text \<open>
  A failing operation of the simple store (\<open>Get\<close> or \<open>Delete\<close> of an absent key, \<open>MultiGet\<close> with
  an absent key, \<open>MultiPut\<close> with different numbers of keys and values) answers \<open>false\<close> and leaves the
  contents as they were, but returns with the mutex locked: no operation returns after it.
\<close>

theorem simple_failure_blocks_store:
  assumes "simple_ready s"
  shows "(simple_abs s (get_key q) = None \<longrightarrow>
        (\<exists>s'. simple_Get q r s = Inr (False, r, s') \<and> simple_abs s' = simple_abs s \<and> simple_stuck s'))
    \<and> (simple_abs s (delete_key d) = None \<longrightarrow>
        (\<exists>s'. simple_Delete d dr s = Inr (False, dr, s') \<and> simple_abs s' = simple_abs s \<and> simple_stuck s'))
    \<and> ((\<exists>k\<in>set (multiget_keys g). simple_abs s k = None) \<longrightarrow>
        (\<exists>s' gr'. simple_MultiGet g gr s = Inr (False, gr', s') \<and> simple_abs s' = simple_abs s \<and> simple_stuck s'))
    \<and> (length (multiput_keys p) \<noteq> length (multiput_values p) \<longrightarrow>
        (\<exists>s'. simple_MultiPut p pr s = Inr (False, pr, s') \<and> simple_abs s' = simple_abs s \<and> simple_stuck s'))"
proof (intro conjI impI)
  have m: "\<not> mtx s" by (rule simple_readyD(2)[OF assms])
  show "\<exists>s'. simple_Get q r s = Inr (False, r, s') \<and> simple_abs s' = simple_abs s \<and> simple_stuck s'"
    if "simple_abs s (get_key q) = None"
    using that m by (simp add: simple_simps simple_abs_def simple_locked_stuck)
  show "\<exists>s'. simple_Delete d dr s = Inr (False, dr, s') \<and> simple_abs s' = simple_abs s \<and> simple_stuck s'"
    if "simple_abs s (delete_key d) = None"
    using that m by (simp add: simple_simps simple_abs_def simple_locked_stuck)
  show "\<exists>s' gr'. simple_MultiGet g gr s = Inr (False, gr', s') \<and> simple_abs s' = simple_abs s \<and> simple_stuck s'"
    if "\<exists>k\<in>set (multiget_keys g). simple_abs s k = None"
  proof -
    have "spec_multiget (um_find (store_tbl s)) (multiget_keys g) = None"
      using that by (simp add: spec_multiget_None simple_abs_def)
    then show ?thesis
      using m by (simp add: simple_simps simple_abs_def simple_locked_stuck simple_multiget_loop_eq)
  qed
  show "\<exists>s'. simple_MultiPut p pr s = Inr (False, pr, s') \<and> simple_abs s' = simple_abs s \<and> simple_stuck s'"
    if "length (multiput_keys p) \<noteq> length (multiput_values p)"
    using that m by (simp add: simple_simps simple_abs_def simple_locked_stuck)
qed

theorem simple_failure_blocks_store_witness:
  "\<exists>s'. simple_Get \<lparr>get_key = ''k''\<rparr> \<lparr>get_res_value = []\<rparr> simple_init
      = Inr (False, \<lparr>get_res_value = []\<rparr>, s') \<and> simple_stuck s'"
proof -
  have "simple_ready simple_init" by (simp add: simple_ready_def simple_init_def)
  moreover have "simple_abs simple_init ''k'' = None" by (simp add: simple_abs_def simple_init_def)
  ultimately show ?thesis
    using simple_failure_blocks_store[of simple_init "\<lparr>get_key = ''k''\<rparr>" "\<lparr>get_res_value = []\<rparr>"] by simp blast
qed

text \<open>
  A \<open>MultiPut\<close> of distinct keys on a ready store succeeds, and the \<open>MultiGet\<close> of the same keys
  after it succeeds as well, gives back the values in order and leaves the store ready.
\<close>

theorem simple_multiput_multiget:
  assumes "simple_ready s" "distinct ks" "length ks = length vs"
  shows "\<exists>s1 s2. simple_MultiPut \<lparr>multiput_keys = ks, multiput_values = vs\<rparr> mr s = Inr (True, mr, s1)
    \<and> simple_MultiGet \<lparr>multiget_keys = ks\<rparr> gr s1 = Inr (True, \<lparr>multiget_res_values = vs\<rparr>, s2)
    \<and> simple_ready s2"
  using simple_kv.MultiPut_then_MultiGet[OF assms(1), of "\<lparr>multiput_keys = ks, multiput_values = vs\<rparr>" mr gr]
    assms(2,3) by (simp add: simple_ops_def)

theorem simple_multiput_multiget_witness:
  "\<exists>s1 s2. simple_MultiPut \<lparr>multiput_keys = [''a'', ''b''], multiput_values = [''1'', ''2'']\<rparr> MultiPutResponse simple_init
      = Inr (True, MultiPutResponse, s1)
    \<and> simple_MultiGet \<lparr>multiget_keys = [''a'', ''b'']\<rparr> \<lparr>multiget_res_values = []\<rparr> s1 = Inr (True, \<lparr>multiget_res_values = [''1'', ''2'']\<rparr>, s2)"
  using simple_multiput_multiget[of simple_init "[''a'', ''b'']" "[''1'', ''2'']" MultiPutResponse "\<lparr>multiget_res_values = []\<rparr>"]
  by (auto simp: simple_ready_def simple_init_def)

end
