(* ===== verification/Concurrent_Kv.thy ===== *)
theory Concurrent_Kv
  imports Kv_Interface
begin

text \<open>
  \<open>kvstore/concurrent_kvstore.hpp\<close> and \<open>.cpp\<close>: a hash table of \<open>BUCKET_COUNT\<close> buckets. This
  theory has the table and the operations as they run between their locks, and shows that the
  store meets the contract of \<open>KvStore\<close> for every hash function; the locks are in
  \<open>Concurrent_Locks\<close>. The hash function is a parameter of the table, as in the code.
\<close>

section \<open>The table\<close>

record DbItem =
  item_key :: string
  item_value :: string

definition BUCKET_COUNT :: nat where
  "BUCKET_COUNT = 60"

record DbMap =
  buckets :: "DbItem list list"
  hasher :: "string \<Rightarrow> u64"

definition db_init :: "(string \<Rightarrow> u64) \<Rightarrow> DbMap" where
  "db_init h = \<lparr>buckets = replicate BUCKET_COUNT [], hasher = h\<rparr>"

definition bucket :: "DbMap \<Rightarrow> string \<Rightarrow> nat" where
  "bucket db key = unat (hasher db key) mod BUCKET_COUNT"

fun find_item :: "DbItem list \<Rightarrow> string \<Rightarrow> DbItem option" where
  "find_item [] key = None"
| "find_item (item # items) key = (if item_key item = key then Some item else find_item items key)"

definition getIfExists :: "nat \<Rightarrow> string \<Rightarrow> DbMap \<Rightarrow> DbItem option result" where
  "getIfExists b key db =
     res_bind (assert_r (b < BUCKET_COUNT) ''b < BUCKET_COUNT'') (\<lambda>_.
     Inr (find_item (buckets db ! b) key))"

fun insert_item :: "DbItem list \<Rightarrow> string \<Rightarrow> string \<Rightarrow> DbItem list" where
  "insert_item [] key val = [\<lparr>item_key = key, item_value = val\<rparr>]"
| "insert_item (item # items) key val =
     (if item_key item = key then item\<lparr>item_value := val\<rparr> # items
      else item # insert_item items key val)"

definition insertItem :: "nat \<Rightarrow> string \<Rightarrow> string \<Rightarrow> DbMap \<Rightarrow> DbMap result" where
  "insertItem b key val db =
     res_bind (assert_r (b < BUCKET_COUNT) ''b < BUCKET_COUNT'') (\<lambda>_.
     Inr (db\<lparr>buckets := (buckets db)[b := insert_item (buckets db ! b) key val]\<rparr>))"

definition removeItem :: "nat \<Rightarrow> string \<Rightarrow> DbMap \<Rightarrow> (bool \<times> DbMap) result" where
  "removeItem b key db =
     res_bind (assert_r (b < BUCKET_COUNT) ''b < BUCKET_COUNT'') (\<lambda>_.
     let kept = filter (\<lambda>item. item_key item \<noteq> key) (buckets db ! b);
         num_removed = length (buckets db ! b) - length kept
     in Inr (num_removed > 0, db\<lparr>buckets := (buckets db)[b := kept]\<rparr>))"

section \<open>The operations between their locks\<close>

definition conc_Get ::
  "GetRequest \<Rightarrow> GetResponse \<Rightarrow> DbMap \<Rightarrow> (bool \<times> GetResponse \<times> DbMap) result" where
  "conc_Get req res db =
     (let bkt = bucket db (get_key req)
      in res_bind (getIfExists bkt (get_key req) db) (\<lambda>dbItem.
         case dbItem of
           None \<Rightarrow> Inr (False, res, db)
         | Some item \<Rightarrow> Inr (True, res\<lparr>get_res_value := item_value item\<rparr>, db)))"

definition conc_Put ::
  "PutRequest \<Rightarrow> PutResponse \<Rightarrow> DbMap \<Rightarrow> (bool \<times> PutResponse \<times> DbMap) result" where
  "conc_Put req res db =
     (let bkt = bucket db (put_key req)
      in res_bind (insertItem bkt (put_key req) (put_value req) db) (\<lambda>db. Inr (True, res, db)))"

definition conc_Append ::
  "AppendRequest \<Rightarrow> AppendResponse \<Rightarrow> DbMap \<Rightarrow> (bool \<times> AppendResponse \<times> DbMap) result" where
  "conc_Append req res db =
     (let bkt = bucket db (append_key req)
      in res_bind (getIfExists bkt (append_key req) db) (\<lambda>dbItem.
         res_bind (case dbItem of
             None \<Rightarrow> insertItem bkt (append_key req) (append_value req) db
           | Some item \<Rightarrow> insertItem bkt (append_key req) (item_value item @ append_value req) db)
         (\<lambda>db. Inr (True, res, db))))"

definition conc_Delete ::
  "DeleteRequest \<Rightarrow> DeleteResponse \<Rightarrow> DbMap \<Rightarrow> (bool \<times> DeleteResponse \<times> DbMap) result" where
  "conc_Delete req res db =
     (let bkt = bucket db (delete_key req)
      in res_bind (getIfExists bkt (delete_key req) db) (\<lambda>dbItem.
         case dbItem of
           None \<Rightarrow> Inr (False, res, db)
         | Some item \<Rightarrow>
             let res = res\<lparr>delete_res_value := item_value item\<rparr>
             in res_bind (removeItem (bucket db (delete_key req)) (delete_key req) db) (\<lambda>(_, db).
                Inr (True, res, db))))"

fun conc_multiget_loop ::
  "string list \<Rightarrow> MultiGetResponse \<Rightarrow> DbMap \<Rightarrow> (bool \<times> MultiGetResponse \<times> DbMap) result" where
  "conc_multiget_loop [] res db = Inr (True, res, db)"
| "conc_multiget_loop (k # ks) res db =
     res_bind (getIfExists (bucket db k) k db) (\<lambda>item.
       case item of
         None \<Rightarrow> Inr (False, res\<lparr>multiget_res_values := []\<rparr>, db)
       | Some i \<Rightarrow>
           conc_multiget_loop ks
             (res\<lparr>multiget_res_values := multiget_res_values res @ [item_value i]\<rparr>) db)"

definition conc_MultiGet ::
  "MultiGetRequest \<Rightarrow> MultiGetResponse \<Rightarrow> DbMap \<Rightarrow> (bool \<times> MultiGetResponse \<times> DbMap) result" where
  "conc_MultiGet req res db =
     conc_multiget_loop (multiget_keys req) (res\<lparr>multiget_res_values := []\<rparr>) db"

fun conc_multiput_loop :: "string list \<Rightarrow> string list \<Rightarrow> DbMap \<Rightarrow> DbMap result" where
  "conc_multiput_loop (k # ks) (v # vs) db =
     res_bind (insertItem (bucket db k) k v db) (\<lambda>db. conc_multiput_loop ks vs db)"
| "conc_multiput_loop _ _ db = Inr db"

definition conc_MultiPut ::
  "MultiPutRequest \<Rightarrow> MultiPutResponse \<Rightarrow> DbMap \<Rightarrow> (bool \<times> MultiPutResponse \<times> DbMap) result" where
  "conc_MultiPut req res db =
     (if length (multiput_keys req) \<noteq> length (multiput_values req) then Inr (False, res, db)
      else res_bind (conc_multiput_loop (multiput_keys req) (multiput_values req) db) (\<lambda>db.
           Inr (True, res, db)))"

definition conc_AllKeys ::
  "(string list \<Rightarrow> string list) \<Rightarrow> DbMap \<Rightarrow> (string list \<times> DbMap) result" where
  "conc_AllKeys order db = Inr (concat (map (map item_key) (buckets db)), db)"

definition conc_ops :: "DbMap KvStore" where
  "conc_ops = \<lparr>kv_Get = conc_Get, kv_Put = conc_Put, kv_Append = conc_Append,
     kv_Delete = conc_Delete, kv_MultiGet = conc_MultiGet, kv_MultiPut = conc_MultiPut,
     kv_AllKeys = conc_AllKeys\<rparr>"

section \<open>The contract of the store\<close>

definition items_map :: "DbItem list \<Rightarrow> kvmap" where
  "items_map items k = map_option item_value (find_item items k)"

definition conc_abs :: "DbMap \<Rightarrow> kvmap" where
  "conc_abs db k = items_map (buckets db ! bucket db k) k"

text \<open>Every item is in the bucket its key hashes to, and no bucket has a key twice.\<close>

definition db_ok :: "DbMap \<Rightarrow> bool" where
  "db_ok db \<longleftrightarrow> length (buckets db) = BUCKET_COUNT
     \<and> (\<forall>b<BUCKET_COUNT. distinct (map item_key (buckets db ! b))
          \<and> (\<forall>item\<in>set (buckets db ! b). bucket db (item_key item) = b))"

lemma bucket_less [simp]: "bucket db k < BUCKET_COUNT"
  by (simp add: bucket_def BUCKET_COUNT_def)

lemma bucket_update [simp]: "bucket (db\<lparr>buckets := bs\<rparr>) = bucket db"
  by (simp add: bucket_def fun_eq_iff)

lemma find_item_None: "find_item items k = None \<longleftrightarrow> k \<notin> item_key ` set items"
  by (induction items) auto

lemma find_item_insert:
  "items_map (insert_item items k v) = (items_map items)(k \<mapsto> v)"
  by (induction items) (auto simp: items_map_def fun_eq_iff)

lemma find_item_filter:
  "items_map (filter (\<lambda>item. item_key item \<noteq> k) items) = (items_map items)(k := None)"
  by (induction items) (auto simp: items_map_def fun_eq_iff)

lemma keys_insert_item:
  "map item_key (insert_item items k v) =
     map item_key items @ (if k \<in> item_key ` set items then [] else [k])"
  by (induction items) auto

lemma db_ok_length: "db_ok db \<Longrightarrow> length (buckets db) = BUCKET_COUNT"
  by (simp add: db_ok_def)

lemma db_ok_update:
  assumes "db_ok db" "b < BUCKET_COUNT" "distinct (map item_key items)"
    "\<forall>item\<in>set items. bucket db (item_key item) = b"
  shows "db_ok (db\<lparr>buckets := (buckets db)[b := items]\<rparr>)"
  using assms by (auto simp: db_ok_def nth_list_update)

lemma conc_abs_update:
  assumes "db_ok db" "items_map items = (items_map (buckets db ! bucket db k))(k := x)"
  shows "conc_abs (db\<lparr>buckets := (buckets db)[bucket db k := items]\<rparr>) = (conc_abs db)(k := x)"
  using assms db_ok_length[OF assms(1)]
  by (auto simp: conc_abs_def fun_eq_iff nth_list_update)

lemma getIfExists_ok: "getIfExists (bucket db k) k db = Inr (find_item (buckets db ! bucket db k) k)"
  by (simp add: getIfExists_def)

lemma find_item_abs:
  "conc_abs db k = map_option item_value (find_item (buckets db ! bucket db k) k)"
  by (simp add: conc_abs_def items_map_def)

lemma insertItem_ok:
  assumes "db_ok db"
  shows "\<exists>db'. insertItem (bucket db k) k v db = Inr db' \<and> db_ok db'
    \<and> conc_abs db' = (conc_abs db)(k \<mapsto> v) \<and> hasher db' = hasher db"
proof -
  let ?items = "insert_item (buckets db ! bucket db k) k v"
  have old: "distinct (map item_key (buckets db ! bucket db k))"
      "\<forall>item\<in>set (buckets db ! bucket db k). bucket db (item_key item) = bucket db k"
    using assms by (auto simp: db_ok_def)
  have "distinct (map item_key ?items)"
    using old(1) by (auto simp: keys_insert_item)
  moreover have "\<forall>x\<in>set (map item_key ?items). bucket db x = bucket db k"
    using old(2) unfolding keys_insert_item by auto
  then have "\<forall>item\<in>set ?items. bucket db (item_key item) = bucket db k" by simp
  ultimately have "db_ok (db\<lparr>buckets := (buckets db)[bucket db k := ?items]\<rparr>)"
    by (intro db_ok_update[OF assms bucket_less])
  moreover have "conc_abs (db\<lparr>buckets := (buckets db)[bucket db k := ?items]\<rparr>) = (conc_abs db)(k \<mapsto> v)"
    by (rule conc_abs_update[OF assms find_item_insert])
  ultimately show ?thesis by (simp add: insertItem_def)
qed

lemma removeItem_ok:
  assumes "db_ok db"
  shows "\<exists>b db'. removeItem (bucket db k) k db = Inr (b, db') \<and> db_ok db'
    \<and> conc_abs db' = (conc_abs db)(k := None) \<and> (b \<longleftrightarrow> conc_abs db k \<noteq> None)"
proof -
  let ?old = "buckets db ! bucket db k"
  let ?items = "filter (\<lambda>item. item_key item \<noteq> k) ?old"
  have old: "distinct (map item_key ?old)" "\<forall>item\<in>set ?old. bucket db (item_key item) = bucket db k"
    using assms by (auto simp: db_ok_def)
  have "db_ok (db\<lparr>buckets := (buckets db)[bucket db k := ?items]\<rparr>)"
    using old by (intro db_ok_update[OF assms]) (auto simp: distinct_map_filter)
  moreover have "conc_abs (db\<lparr>buckets := (buckets db)[bucket db k := ?items]\<rparr>) = (conc_abs db)(k := None)"
    by (rule conc_abs_update[OF assms find_item_filter])
  moreover have "length ?items < length ?old \<longleftrightarrow> conc_abs db k \<noteq> None"
  proof -
    have "length ?items < length ?old \<longleftrightarrow> (\<exists>item\<in>set ?old. item_key item = k)"
      using length_filter_less[of _ ?old "\<lambda>item. item_key item \<noteq> k"]
      by (metis (mono_tags, lifting) filter_id_conv less_irrefl)
    then show ?thesis by (auto simp: find_item_abs find_item_None)
  qed
  ultimately show ?thesis by (simp add: removeItem_def Let_def)
qed

lemma conc_multiget_loop_eq:
  "conc_multiget_loop ks res db =
     (case spec_multiget (conc_abs db) ks of
        None \<Rightarrow> Inr (False, res\<lparr>multiget_res_values := []\<rparr>, db)
      | Some vs \<Rightarrow> Inr (True, res\<lparr>multiget_res_values := multiget_res_values res @ vs\<rparr>, db))"
  by (induction ks arbitrary: res) (auto simp: getIfExists_ok find_item_abs split: option.splits)

lemma conc_multiput_loop_ok:
  assumes "db_ok db" "length ks = length vs"
  shows "\<exists>db'. conc_multiput_loop ks vs db = Inr db' \<and> db_ok db'
    \<and> conc_abs db' = (conc_abs db)(ks [\<mapsto>] vs)"
  using assms(2,1)
proof (induction ks vs arbitrary: db rule: list_induct2)
  case Nil
  then show ?case by simp
next
  case (Cons k ks v vs)
  obtain d where d: "insertItem (bucket db k) k v db = Inr d" "db_ok d"
      "conc_abs d = (conc_abs db)(k \<mapsto> v)"
    using insertItem_ok[OF Cons.prems] by blast
  from Cons.IH[OF d(2)] show ?case by (simp only: conc_multiput_loop.simps d(1,3) res_bind.simps map_upds_Cons)
qed

lemma concat_keys:
  assumes "db_ok db"
  shows "distinct (concat (map (map item_key) (buckets db)))"
    "set (concat (map (map item_key) (buckets db))) = dom (conc_abs db)"
proof -
  note len = db_ok_length[OF assms]
  have key: "k \<in> item_key ` set (buckets db ! b) \<Longrightarrow> b < BUCKET_COUNT \<Longrightarrow> bucket db k = b" for k b
    using assms by (auto simp: db_ok_def)
  have disj: "item_key ` set (buckets db ! i) \<inter> item_key ` set (buckets db ! j) = {}"
    if "i < BUCKET_COUNT" "j < BUCKET_COUNT" "i \<noteq> j" for i j
    using key that by blast
  have dist: "distinct (map item_key bs)" if "bs \<in> set (buckets db)" for bs
    using assms that len by (metis db_ok_def in_set_conv_nth)
  have gen: "distinct (concat (map (map item_key) bss))"
    if "\<forall>bs\<in>set bss. distinct (map item_key bs)"
      "\<forall>i<length bss. \<forall>j<length bss. i \<noteq> j \<longrightarrow>
         item_key ` set (bss ! i) \<inter> item_key ` set (bss ! j) = {}" for bss
    using that
  proof (induction bss)
    case Nil
    then show ?case by simp
  next
    case (Cons b bss)
    have "item_key ` set b \<inter> item_key ` set c = {}" if c: "c \<in> set bss" for c
    proof -
      obtain j where j: "j < length bss" "c = bss ! j" using c by (auto simp: in_set_conv_nth)
      have "item_key ` set ((b # bss) ! 0) \<inter> item_key ` set ((b # bss) ! Suc j) = {}"
        using Cons.prems(2) j(1) by (metis Suc_less_eq length_Cons nat.distinct(1) zero_less_Suc)
      then show ?thesis using j by simp
    qed
    moreover have "distinct (concat (map (map item_key) bss))"
    proof (rule Cons.IH)
      show "\<forall>bs\<in>set bss. distinct (map item_key bs)" using Cons.prems(1) by simp
      show "\<forall>i<length bss. \<forall>j<length bss. i \<noteq> j \<longrightarrow>
         item_key ` set (bss ! i) \<inter> item_key ` set (bss ! j) = {}"
      proof (intro allI impI)
        fix i j assume "i < length bss" "j < length bss" "i \<noteq> j"
        then show "item_key ` set (bss ! i) \<inter> item_key ` set (bss ! j) = {}"
          using Cons.prems(2)[rule_format, of "Suc i" "Suc j"] by simp
      qed
    qed
    ultimately show ?case using Cons.prems(1) by auto
  qed
  show "distinct (concat (map (map item_key) (buckets db)))"
  proof (rule gen)
    show "\<forall>bs\<in>set (buckets db). distinct (map item_key bs)" using dist by blast
    show "\<forall>i<length (buckets db). \<forall>j<length (buckets db). i \<noteq> j \<longrightarrow>
        item_key ` set (buckets db ! i) \<inter> item_key ` set (buckets db ! j) = {}"
      unfolding len by (intro allI impI disj)
  qed
  show "set (concat (map (map item_key) (buckets db))) = dom (conc_abs db)"
  proof (intro set_eqI iffI)
    fix k assume "k \<in> set (concat (map (map item_key) (buckets db)))"
    then obtain bs where "bs \<in> set (buckets db)" "k \<in> item_key ` set bs" by auto
    then obtain b where b: "b < BUCKET_COUNT" "k \<in> item_key ` set (buckets db ! b)"
      using len by (metis in_set_conv_nth)
    then have "bucket db k = b" using key by blast
    with b(2) show "k \<in> dom (conc_abs db)"
      using find_item_None[of "buckets db ! b" k] by (auto simp: find_item_abs dom_def)
  next
    fix k assume "k \<in> dom (conc_abs db)"
    then have "find_item (buckets db ! bucket db k) k \<noteq> None" by (auto simp: find_item_abs)
    then have "k \<in> item_key ` set (buckets db ! bucket db k)" by (simp add: find_item_None)
    moreover have "buckets db ! bucket db k \<in> set (buckets db)" using len by simp
    ultimately show "k \<in> set (concat (map (map item_key) (buckets db)))" by fastforce
  qed
qed

lemmas conc_contract = conc_ops_def conc_Get_def conc_Put_def conc_Append_def conc_Delete_def
  conc_MultiGet_def conc_MultiPut_def conc_AllKeys_def getIfExists_ok response_updates Let_def

interpretation conc_kv: kv_live conc_ops conc_abs db_ok
proof (unfold_locales, goal_cases)
  case (1 s q v r)
  then show ?case by (auto simp: conc_contract find_item_abs)
next
  case (2 s q r)
  then show ?case by (auto simp: conc_contract find_item_abs)
next
  case (3 s pq pr)
  then show ?case
    using insertItem_ok[OF 3, of "put_key pq" "put_value pq"] by (auto simp: conc_contract)
next
  case (4 s aq ar)
  show ?case
  proof (cases "find_item (buckets s ! bucket s (append_key aq)) (append_key aq)")
    case None
    then show ?thesis
      using insertItem_ok[OF 4, of "append_key aq" "append_value aq"]
      by (auto simp: conc_contract spec_append_def find_item_abs)
  next
    case (Some i)
    then show ?thesis
      using insertItem_ok[OF 4, of "append_key aq" "item_value i @ append_value aq"]
      by (auto simp: conc_contract spec_append_def find_item_abs)
  qed
next
  case (5 s dq v dr)
  then show ?case
    using removeItem_ok[OF 5(1), of "delete_key dq"] by (auto simp: conc_contract find_item_abs)
next
  case (6 s dq dr)
  then show ?case by (auto simp: conc_contract find_item_abs)
next
  case (7 s gq vs gr)
  then show ?case by (simp add: conc_contract conc_multiget_loop_eq)
next
  case (8 s gq gr)
  then show ?case by (simp add: conc_contract conc_multiget_loop_eq)
next
  case (9 s mq mr)
  then show ?case
    using conc_multiput_loop_ok[OF 9(1), of "multiput_keys mq" "multiput_values mq"]
    by (auto simp: conc_contract)
next
  case (10 s mq mr)
  then show ?case by (simp add: conc_contract)
next
  case (11 s order)
  then show ?case using concat_keys[OF 11(1)] by (simp add: conc_contract)
next
  case (12 s q r b r' s')
  then show ?case by (simp add: conc_contract split: option.splits)
next
  case (13 s dq dr b dr' s')
  then show ?case
    using removeItem_ok[OF 13(1), of "delete_key dq"]
    by (auto simp: conc_contract split: option.splits)
next
  case (14 s gq gr b gr' s')
  then show ?case by (simp add: conc_contract conc_multiget_loop_eq split: option.splits)
next
  case (15 s mq mr b mr' s')
  then show ?case
    using conc_multiput_loop_ok[OF 15(1), of "multiput_keys mq" "multiput_values mq"]
    by (auto simp: conc_contract split: if_splits)
qed

lemma db_ok_init: "db_ok (db_init h)"
  by (simp add: db_ok_def db_init_def)

lemma conc_abs_init: "conc_abs (db_init h) = Map.empty"
  by (simp add: conc_abs_def db_init_def items_map_def fun_eq_iff bucket_def BUCKET_COUNT_def)

end
