(* ===== verification/Concurrent_Locks.thy ===== *)
theory Concurrent_Locks
  imports Concurrent_Kv
begin

text \<open>
  The locking of \<open>ConcurrentKvStore\<close>. Every call is a thread that first takes the
  \<open>shared_mutex\<close>es of its plan one by one, then runs its body, whose steps each read or write one
  bucket and interleave with the steps of other threads, and finally releases its guards. The plan
  and the body of each call follow its function in \<open>concurrent_kvstore.cpp\<close>.
\<close>

section \<open>Calls, lock plans and bodies\<close>

datatype KvCall =
    CallGet GetRequest
  | CallPut PutRequest
  | CallAppend AppendRequest
  | CallDelete DeleteRequest
  | CallMultiGet MultiGetRequest
  | CallMultiPut MultiPutRequest
  | CallAllKeys

datatype lock_mode = LShared | LExclusive

fun needed_loop :: "DbMap \<Rightarrow> string list \<Rightarrow> bool list \<Rightarrow> bool list" where
  "needed_loop db [] needed = needed"
| "needed_loop db (k # ks) needed = needed_loop db ks (needed[bucket db k := True])"

definition needed_buckets :: "DbMap \<Rightarrow> string list \<Rightarrow> bool list" where
  "needed_buckets db keys = needed_loop db keys (replicate BUCKET_COUNT False)"

text \<open>\<open>MultiGet\<close> locks the needed buckets in ascending order.\<close>

definition multiget_plan :: "DbMap \<Rightarrow> string list \<Rightarrow> (nat \<times> lock_mode) list" where
  "multiget_plan db keys =
     (let needed = needed_buckets db keys
      in map (\<lambda>b. (b, LShared)) (filter (\<lambda>b. needed ! b) [0..<BUCKET_COUNT]))"

text \<open>\<open>MultiPut\<close> tests \<open>if (b)\<close>, the index, where \<open>MultiGet\<close> tests \<open>if (needed[b])\<close>.\<close>

definition multiput_plan :: "DbMap \<Rightarrow> string list \<Rightarrow> (nat \<times> lock_mode) list" where
  "multiput_plan db keys =
     (let needed = needed_buckets db keys
      in map (\<lambda>b. (b, LExclusive)) (filter (\<lambda>b. b \<noteq> 0) [0..<BUCKET_COUNT]))"

fun lock_plan :: "DbMap \<Rightarrow> KvCall \<Rightarrow> (nat \<times> lock_mode) list" where
  "lock_plan db (CallGet q) = [(bucket db (get_key q), LShared)]"
| "lock_plan db (CallPut q) = [(bucket db (put_key q), LExclusive)]"
| "lock_plan db (CallAppend q) = [(bucket db (append_key q), LExclusive)]"
| "lock_plan db (CallDelete q) = [(bucket db (delete_key q), LExclusive)]"
| "lock_plan db (CallMultiGet q) = multiget_plan db (multiget_keys q)"
| "lock_plan db (CallMultiPut q) = multiput_plan db (multiput_keys q)"
| "lock_plan db CallAllKeys = []"

text \<open>A body: return a reply, read a bucket and go on, or write a bucket and go on.\<close>

type_synonym reply = "bool \<times> string list"

datatype prog =
    Ret reply
  | RdB nat "DbItem list \<Rightarrow> prog"
  | WrB nat "DbItem list" prog

fun multiget_prog :: "DbMap \<Rightarrow> string list \<Rightarrow> string list \<Rightarrow> prog" where
  "multiget_prog db [] values = Ret (True, values)"
| "multiget_prog db (k # ks) values = RdB (bucket db k) (\<lambda>items.
     case find_item items k of
       None \<Rightarrow> Ret (False, [])
     | Some item \<Rightarrow> multiget_prog db ks (values @ [item_value item]))"

definition insert_prog :: "nat \<Rightarrow> string \<Rightarrow> string \<Rightarrow> prog \<Rightarrow> prog" where
  "insert_prog b k v cont = RdB b (\<lambda>items. WrB b (insert_item items k v) cont)"

fun multiput_prog :: "DbMap \<Rightarrow> string list \<Rightarrow> string list \<Rightarrow> prog" where
  "multiput_prog db (k # ks) (v # vs) = insert_prog (bucket db k) k v (multiput_prog db ks vs)"
| "multiput_prog db _ _ = Ret (True, [])"

fun allkeys_prog :: "nat list \<Rightarrow> string list \<Rightarrow> prog" where
  "allkeys_prog [] keys = Ret (True, keys)"
| "allkeys_prog (b # bs) keys = RdB b (\<lambda>items. allkeys_prog bs (keys @ map item_key items))"

fun call_prog :: "DbMap \<Rightarrow> KvCall \<Rightarrow> prog" where
  "call_prog db (CallGet q) = RdB (bucket db (get_key q)) (\<lambda>items.
     case find_item items (get_key q) of
       None \<Rightarrow> Ret (False, [])
     | Some item \<Rightarrow> Ret (True, [item_value item]))"
| "call_prog db (CallPut q) =
     insert_prog (bucket db (put_key q)) (put_key q) (put_value q) (Ret (True, []))"
| "call_prog db (CallAppend q) = RdB (bucket db (append_key q)) (\<lambda>items.
     insert_prog (bucket db (append_key q)) (append_key q)
       (case find_item items (append_key q) of
          None \<Rightarrow> append_value q
        | Some item \<Rightarrow> item_value item @ append_value q)
       (Ret (True, [])))"
| "call_prog db (CallDelete q) = RdB (bucket db (delete_key q)) (\<lambda>items.
     case find_item items (delete_key q) of
       None \<Rightarrow> Ret (False, [])
     | Some item \<Rightarrow> RdB (bucket db (delete_key q)) (\<lambda>items.
         WrB (bucket db (delete_key q)) (filter (\<lambda>i. item_key i \<noteq> delete_key q) items)
           (Ret (True, [item_value item]))))"
| "call_prog db (CallMultiGet q) = multiget_prog db (multiget_keys q) []"
| "call_prog db (CallMultiPut q) =
     (if length (multiput_keys q) \<noteq> length (multiput_values q) then Ret (False, [])
      else multiput_prog db (multiput_keys q) (multiput_values q))"
| "call_prog db CallAllKeys = allkeys_prog [0..<BUCKET_COUNT] []"

section \<open>Threads and their steps\<close>

record thread =
  to_lock :: "(nat \<times> lock_mode) list"
  held :: "(nat \<times> lock_mode) list"
  started :: bool
  body :: prog

type_synonym system = "thread list \<times> DbItem list list"

definition spawn :: "DbMap \<Rightarrow> KvCall list \<Rightarrow> system" where
  "spawn db calls =
     (map (\<lambda>c. \<lparr>to_lock = lock_plan db c, held = [], started = False, body = call_prog db c\<rparr>) calls,
      buckets db)"

definition conflict :: "nat \<times> lock_mode \<Rightarrow> nat \<times> lock_mode \<Rightarrow> bool" where
  "conflict l l' \<longleftrightarrow> fst l = fst l' \<and> (snd l = LExclusive \<or> snd l' = LExclusive)"

text \<open>A \<open>shared_mutex\<close> is granted when no other thread holds it in a conflicting mode.\<close>

definition can_lock :: "thread list \<Rightarrow> nat \<Rightarrow> nat \<times> lock_mode \<Rightarrow> bool" where
  "can_lock ts i l \<longleftrightarrow>
     (\<forall>j<length ts. j \<noteq> i \<longrightarrow> (\<forall>l'\<in>set (held (ts ! j)). \<not> conflict l l'))"

inductive step :: "system \<Rightarrow> system \<Rightarrow> bool" where
  Acquire: "\<lbrakk>i < length ts; to_lock (ts ! i) = l # ls; can_lock ts i l\<rbrakk> \<Longrightarrow>
     step (ts, bs) (ts[i := (ts ! i)\<lparr>to_lock := ls, held := l # held (ts ! i)\<rparr>], bs)"
| Enter: "\<lbrakk>i < length ts; to_lock (ts ! i) = []; \<not> started (ts ! i)\<rbrakk> \<Longrightarrow>
     step (ts, bs) (ts[i := (ts ! i)\<lparr>started := True\<rparr>], bs)"
| Read: "\<lbrakk>i < length ts; started (ts ! i); body (ts ! i) = RdB b f\<rbrakk> \<Longrightarrow>
     step (ts, bs) (ts[i := (ts ! i)\<lparr>body := f (bs ! b)\<rparr>], bs)"
| Write: "\<lbrakk>i < length ts; started (ts ! i); body (ts ! i) = WrB b items p\<rbrakk> \<Longrightarrow>
     step (ts, bs) (ts[i := (ts ! i)\<lparr>body := p\<rparr>], bs[b := items])"
| Release: "\<lbrakk>i < length ts; started (ts ! i); body (ts ! i) = Ret r; held (ts ! i) = l # ls\<rbrakk> \<Longrightarrow>
     step (ts, bs) (ts[i := (ts ! i)\<lparr>held := ls\<rparr>], bs)"

inductive_cases stepE: "step s s'"

definition thread_done :: "thread \<Rightarrow> bool" where
  "thread_done t \<longleftrightarrow> to_lock t = [] \<and> held t = [] \<and> started t
     \<and> (case body t of Ret r \<Rightarrow> True | _ \<Rightarrow> False)"

definition finished :: "system \<Rightarrow> bool" where
  "finished s \<longleftrightarrow> (\<forall>t\<in>set (fst s). thread_done t)"

abbreviation steps :: "system \<Rightarrow> system \<Rightarrow> bool" where
  "steps \<equiv> step\<^sup>*\<^sup>*"

text \<open>A race: two threads are about to touch the same bucket and one of them writes it.\<close>

fun next_access :: "prog \<Rightarrow> (nat \<times> bool) option" where
  "next_access (Ret r) = None"
| "next_access (RdB b f) = Some (b, False)"
| "next_access (WrB b items p) = Some (b, True)"

definition race :: "system \<Rightarrow> bool" where
  "race s \<longleftrightarrow> (\<exists>i<length (fst s). \<exists>j<length (fst s). i \<noteq> j \<and> started (fst s ! i) \<and> started (fst s ! j)
     \<and> (\<exists>b w. next_access (body (fst s ! i)) = Some (b, True)
              \<and> next_access (body (fst s ! j)) = Some (b, w)))"

text \<open>The calls whose plan covers the buckets their body touches.\<close>

fun covered :: "DbMap \<Rightarrow> KvCall \<Rightarrow> bool" where
  "covered db (CallMultiPut q) \<longleftrightarrow> (\<forall>k\<in>set (multiput_keys q). bucket db k \<noteq> 0)"
| "covered db CallAllKeys \<longleftrightarrow> False"
| "covered db c \<longleftrightarrow> True"

section \<open>Calls run alone\<close>

primrec run_prog :: "prog \<Rightarrow> DbItem list list \<Rightarrow> reply \<times> DbItem list list" where
  "run_prog (Ret r) bs = (r, bs)"
| "run_prog (RdB b f) bs = run_prog (f (bs ! b)) bs"
| "run_prog (WrB b items p) bs = run_prog p (bs[b := items])"

text \<open>The functions of \<open>Concurrent_Kv\<close>, with the reply in the form the bodies give it.\<close>

fun exec_call :: "KvCall \<Rightarrow> DbMap \<Rightarrow> (reply \<times> DbMap) result" where
  "exec_call (CallGet q) db = res_bind (conc_Get q \<lparr>get_res_value = []\<rparr> db) (\<lambda>(ok, r, db).
     Inr ((ok, if ok then [get_res_value r] else []), db))"
| "exec_call (CallPut q) db = res_bind (conc_Put q PutResponse db) (\<lambda>(ok, r, db). Inr ((ok, []), db))"
| "exec_call (CallAppend q) db =
     res_bind (conc_Append q AppendResponse db) (\<lambda>(ok, r, db). Inr ((ok, []), db))"
| "exec_call (CallDelete q) db =
     res_bind (conc_Delete q \<lparr>delete_res_value = []\<rparr> db) (\<lambda>(ok, r, db).
     Inr ((ok, if ok then [delete_res_value r] else []), db))"
| "exec_call (CallMultiGet q) db =
     res_bind (conc_MultiGet q \<lparr>multiget_res_values = []\<rparr> db) (\<lambda>(ok, r, db).
     Inr ((ok, multiget_res_values r), db))"
| "exec_call (CallMultiPut q) db =
     res_bind (conc_MultiPut q MultiPutResponse db) (\<lambda>(ok, r, db). Inr ((ok, []), db))"
| "exec_call CallAllKeys db =
     res_bind (conc_AllKeys id db) (\<lambda>(keys, db). Inr ((True, keys), db))"

fun exec_seq :: "KvCall list \<Rightarrow> DbMap \<Rightarrow> (reply list \<times> DbMap) result" where
  "exec_seq [] db = Inr ([], db)"
| "exec_seq (c # cs) db = res_bind (exec_call c db) (\<lambda>(r, db).
     res_bind (exec_seq cs db) (\<lambda>(rs, db). Inr (r # rs, db)))"

lemma run_multiget_prog:
  "run_prog (multiget_prog db ks vs) bs =
     (case conc_multiget_loop ks \<lparr>multiget_res_values = vs\<rparr> (db\<lparr>buckets := bs\<rparr>) of
        Inr (ok, r, db') \<Rightarrow> ((ok, multiget_res_values r), bs)
      | Inl e \<Rightarrow> undefined)"
  by (induction ks arbitrary: vs) (auto simp: getIfExists_def split: option.splits)

lemma conc_multiget_loop_buckets:
  "conc_multiget_loop ks r db = Inr (ok, r', db') \<Longrightarrow> db' = db"
  by (induction ks arbitrary: r) (auto simp: getIfExists_def split: option.splits)

lemma conc_multiget_loop_total: "\<exists>ok r'. conc_multiget_loop ks r db = Inr (ok, r', db)"
  by (induction ks arbitrary: r) (auto simp: getIfExists_def split: option.splits)

lemma run_multiput_prog:
  "length ks = length vs \<Longrightarrow> \<exists>bs'. run_prog (multiput_prog db ks vs) bs = ((True, []), bs')
     \<and> conc_multiput_loop ks vs (db\<lparr>buckets := bs\<rparr>) = Inr (db\<lparr>buckets := bs'\<rparr>)"
  by (induction ks vs arbitrary: bs rule: list_induct2) (auto simp: insert_prog_def insertItem_def)

lemma run_allkeys_prog:
  "run_prog (allkeys_prog xs ks) bs = ((True, ks @ concat (map (\<lambda>b. map item_key (bs ! b)) xs)), bs)"
  by (induction xs arbitrary: ks) auto

lemma exec_call_run:
  assumes "length (buckets db) = BUCKET_COUNT"
  shows "exec_call c db =
    Inr (fst (run_prog (call_prog db c) (buckets db)),
         db\<lparr>buckets := snd (run_prog (call_prog db c) (buckets db))\<rparr>)"
proof (cases c)
  case (CallMultiGet q)
  obtain ok r' where "conc_multiget_loop (multiget_keys q) \<lparr>multiget_res_values = []\<rparr> db = Inr (ok, r', db)"
    using conc_multiget_loop_total by blast
  then show ?thesis
    using CallMultiGet run_multiget_prog[of db "multiget_keys q" "[]" "buckets db"]
    by (simp add: conc_MultiGet_def response_updates)
next
  case (CallMultiPut q)
  then show ?thesis
    using run_multiput_prog[of "multiput_keys q" "multiput_values q" db "buckets db"]
    by (auto simp: conc_MultiPut_def)
next
  case CallAllKeys
  have "map (\<lambda>b. map item_key (buckets db ! b)) [0..<BUCKET_COUNT] = map (map item_key) (buckets db)"
    by (rule nth_equalityI) (simp_all add: assms)
  then show ?thesis using CallAllKeys by (simp add: conc_AllKeys_def run_allkeys_prog)
next
  case (CallGet q)
  then show ?thesis
    by (cases "find_item (buckets db ! bucket db (get_key q)) (get_key q)") (simp_all add: conc_contract)
next
  case (CallPut q)
  then show ?thesis by (simp add: conc_contract insertItem_def insert_prog_def)
next
  case (CallAppend q)
  then show ?thesis
    by (cases "find_item (buckets db ! bucket db (append_key q)) (append_key q)")
      (simp_all add: conc_contract insertItem_def insert_prog_def)
next
  case (CallDelete q)
  then show ?thesis
    by (cases "find_item (buckets db ! bucket db (delete_key q)) (delete_key q)")
      (simp_all add: conc_contract removeItem_def)
qed

section \<open>Bodies stay within their locks\<close>

definition lock_buckets :: "(nat \<times> lock_mode) list \<Rightarrow> nat set" where
  "lock_buckets ls = fst ` set ls"

definition excl_buckets :: "(nat \<times> lock_mode) list \<Rightarrow> nat set" where
  "excl_buckets ls = {b. (b, LExclusive) \<in> set ls}"

primrec prog_within :: "nat set \<Rightarrow> nat set \<Rightarrow> prog \<Rightarrow> bool" where
  "prog_within R W (Ret r) \<longleftrightarrow> True"
| "prog_within R W (RdB b f) \<longleftrightarrow> b \<in> R \<and> (\<forall>items. prog_within R W (f items))"
| "prog_within R W (WrB b items p) \<longleftrightarrow> b \<in> W \<and> b \<in> R \<and> prog_within R W p"

lemma lock_buckets_simps [simp]:
  "lock_buckets [] = {}"
  "lock_buckets (l # ls) = insert (fst l) (lock_buckets ls)"
  "lock_buckets (ls @ ls') = lock_buckets ls \<union> lock_buckets ls'"
  by (auto simp: lock_buckets_def)

lemma excl_buckets_simps [simp]:
  "excl_buckets [] = {}"
  "excl_buckets ((b, LExclusive) # ls) = insert b (excl_buckets ls)"
  "excl_buckets ((b, LShared) # ls) = excl_buckets ls"
  "excl_buckets (ls @ ls') = excl_buckets ls \<union> excl_buckets ls'"
  by (auto simp: excl_buckets_def)

lemma excl_subset: "excl_buckets ls \<subseteq> lock_buckets ls"
  by (force simp: excl_buckets_def lock_buckets_def)

lemma length_needed_loop [simp]: "length (needed_loop db ks n) = length n"
  by (induction ks arbitrary: n) auto

lemma needed_loop_nth:
  "length n = BUCKET_COUNT \<Longrightarrow> b < BUCKET_COUNT \<Longrightarrow>
    needed_loop db ks n ! b \<longleftrightarrow> n ! b \<or> b \<in> bucket db ` set ks"
  by (induction ks arbitrary: n) (auto simp: nth_list_update)

lemma needed_buckets_nth:
  "b < BUCKET_COUNT \<Longrightarrow> needed_buckets db ks ! b \<longleftrightarrow> b \<in> bucket db ` set ks"
  by (simp add: needed_buckets_def needed_loop_nth)

lemma multiget_plan_buckets: "lock_buckets (multiget_plan db ks) = bucket db ` set ks"
  by (auto simp: lock_buckets_def multiget_plan_def Let_def image_image needed_buckets_nth)

lemma multiput_plan_buckets:
  "excl_buckets (multiput_plan db ks) = {0<..<BUCKET_COUNT}"
  "lock_buckets (multiput_plan db ks) = {0<..<BUCKET_COUNT}"
  by (auto simp: excl_buckets_def lock_buckets_def multiput_plan_def image_image)

lemma multiget_prog_within:
  "bucket db ` set ks \<subseteq> R \<Longrightarrow> prog_within R W (multiget_prog db ks vs)"
  by (induction ks arbitrary: vs) (auto split: option.splits)

lemma multiput_prog_within:
  "bucket db ` set ks \<subseteq> W \<Longrightarrow> W \<subseteq> R \<Longrightarrow> prog_within R W (multiput_prog db ks vs)"
  by (induction db ks vs rule: multiput_prog.induct) (auto simp: insert_prog_def)

lemma plan_covers_body:
  assumes "covered db c"
  shows "prog_within (lock_buckets (lock_plan db c)) (excl_buckets (lock_plan db c)) (call_prog db c)"
proof (cases c)
  case (CallMultiPut q)
  then have "bucket db ` set (multiput_keys q) \<subseteq> {0<..<BUCKET_COUNT}"
    using assms by auto
  then show ?thesis
    using CallMultiPut by (simp add: multiput_plan_buckets multiput_prog_within)
next
  case CallAllKeys
  then show ?thesis using assms by simp
qed (auto simp: insert_prog_def multiget_plan_buckets multiget_prog_within split: option.splits)

lemma length_run_prog [simp]: "length (snd (run_prog p bs)) = length bs"
  by (induction p arbitrary: bs) auto

lemma run_prog_frame:
  "prog_within R W p \<Longrightarrow> b \<notin> W \<Longrightarrow> snd (run_prog p bs) ! b = bs ! b"
proof (induction p arbitrary: bs)
  case (WrB c items p)
  then have "c \<noteq> b" by auto
  with WrB show ?case by simp
qed auto

lemma run_prog_agree:
  assumes "prog_within R W p" "length bs = length bs'" "\<forall>b\<in>R. bs ! b = bs' ! b"
  shows "fst (run_prog p bs) = fst (run_prog p bs')
    \<and> (\<forall>b\<in>R. snd (run_prog p bs) ! b = snd (run_prog p bs') ! b)"
  using assms
proof (induction p arbitrary: bs bs')
  case (Ret r)
  then show ?case by simp
next
  case (RdB b f)
  have e: "bs ! b = bs' ! b" and w: "prog_within R W (f (bs' ! b))"
    using RdB.prems(1,3) by auto
  show ?case
    unfolding run_prog.simps e by (rule RdB.IH[OF rangeI w RdB.prems(2,3)])
next
  case (WrB b items p)
  have "bs[b := items] ! c = bs'[b := items] ! c" if "c \<in> R" for c
  proof (cases "c = b \<and> b < length bs")
    case True
    then show ?thesis using WrB.prems(2) by simp
  next
    case False
    then have "bs[b := items] ! c = bs ! c" "bs'[b := items] ! c = bs' ! c"
      using WrB.prems(2) by (metis list_update_beyond not_le nth_list_update_neq)+
    then show ?thesis using WrB.prems(3) that by (simp only:)
  qed
  moreover have "prog_within R W p" "length (bs[b := items]) = length (bs'[b := items])"
    using WrB.prems(1,2) by simp_all
  ultimately show ?case
    using WrB.IH[of "bs[b := items]" "bs'[b := items]"] by (simp only: run_prog.simps) blast
qed

section \<open>Mutual exclusion and lock order\<close>

definition mutex_ok :: "thread list \<Rightarrow> bool" where
  "mutex_ok ts \<longleftrightarrow> (\<forall>i<length ts. \<forall>j<length ts. i \<noteq> j \<longrightarrow>
     (\<forall>l\<in>set (held (ts ! i)). \<forall>l'\<in>set (held (ts ! j)). \<not> conflict l l'))"

definition thread_ok :: "thread \<Rightarrow> bool" where
  "thread_ok t \<longleftrightarrow> sorted_wrt (<) (map fst (rev (held t) @ to_lock t)) \<and> (started t \<longrightarrow> to_lock t = [])"

definition body_ok :: "thread \<Rightarrow> bool" where
  "body_ok t \<longleftrightarrow> prog_within (lock_buckets (held t @ to_lock t)) (excl_buckets (held t @ to_lock t)) (body t)"

lemma conflict_sym: "conflict l l' \<longleftrightarrow> conflict l' l"
  by (auto simp: conflict_def)

lemma mutex_ok_update:
  assumes "mutex_ok ts" "\<forall>l\<in>set (held t). \<forall>j<length ts. j \<noteq> i \<longrightarrow>
      (\<forall>l'\<in>set (held (ts ! j)). \<not> conflict l l')"
  shows "mutex_ok (ts[i := t])"
  unfolding mutex_ok_def
proof (intro allI impI ballI)
  fix j k l l'
  assume jk: "j < length (ts[i := t])" "k < length (ts[i := t])" "j \<noteq> k"
    "l \<in> set (held (ts[i := t] ! j))" "l' \<in> set (held (ts[i := t] ! k))"
  consider "j = i" "k \<noteq> i" | "k = i" "j \<noteq> i" | "j \<noteq> i" "k \<noteq> i" using jk(3) by blast
  then show "\<not> conflict l l'"
  proof cases
    case 1
    then show ?thesis using assms(2) jk by auto
  next
    case 2
    then show ?thesis using assms(2) jk conflict_sym[of l l'] by auto
  next
    case 3
    then show ?thesis using assms(1) jk by (auto simp: mutex_ok_def)
  qed
qed

lemma step_mutex_ok: "step s s' \<Longrightarrow> mutex_ok (fst s) \<Longrightarrow> mutex_ok (fst s')"
proof (induction rule: step.induct)
  case (Acquire i ts l ls bs)
  then show ?case
    by (auto intro!: mutex_ok_update simp: can_lock_def) (auto simp: mutex_ok_def)
next
  case (Enter i ts bs)
  then show ?case by (auto intro!: mutex_ok_update) (auto simp: mutex_ok_def)
next
  case (Read i ts b f bs)
  then show ?case by (auto intro!: mutex_ok_update) (auto simp: mutex_ok_def)
next
  case (Write i ts b items p bs)
  then show ?case by (auto intro!: mutex_ok_update) (auto simp: mutex_ok_def)
next
  case (Release i ts r l ls bs)
  then show ?case by (auto intro!: mutex_ok_update) (auto simp: mutex_ok_def)
qed

lemma all_nth_update:
  "\<forall>t\<in>set ts. P t \<Longrightarrow> P u \<Longrightarrow> \<forall>t\<in>set (ts[i := u]). P t"
  using set_update_subset_insert[of ts i u] by auto

lemma step_thread_ok:
  "step s s' \<Longrightarrow> \<forall>t\<in>set (fst s). thread_ok t \<Longrightarrow> \<forall>t\<in>set (fst s'). thread_ok t"
proof (induction rule: step.induct)
  case (Acquire i ts l ls bs)
  then have "thread_ok (ts ! i)" by simp
  with Acquire show ?case
    by (simp only: fst_conv) (rule all_nth_update, simp, auto simp: thread_ok_def)
next
  case (Enter i ts bs)
  then have "thread_ok (ts ! i)" by simp
  with Enter show ?case
    by (simp only: fst_conv) (rule all_nth_update, simp, auto simp: thread_ok_def)
next
  case (Read i ts b f bs)
  then have "thread_ok (ts ! i)" by simp
  with Read show ?case
    by (simp only: fst_conv) (rule all_nth_update, simp, auto simp: thread_ok_def)
next
  case (Write i ts b items p bs)
  then have "thread_ok (ts ! i)" by simp
  with Write show ?case
    by (simp only: fst_conv) (rule all_nth_update, simp, auto simp: thread_ok_def)
next
  case (Release i ts r l ls bs)
  then have "thread_ok (ts ! i)" by simp
  with Release show ?case
    by (simp only: fst_conv) (rule all_nth_update, simp, auto simp: thread_ok_def sorted_wrt_append)
qed

lemma excl_insert: "excl_buckets (l # ls) = (if snd l = LExclusive then insert (fst l) (excl_buckets ls) else excl_buckets ls)"
  by (cases l; cases "snd l") auto

lemma excl_perm: "excl_buckets ((l # hs) @ ls) = excl_buckets (hs @ l # ls)"
  by (auto simp: excl_buckets_def)

lemma step_body_ok:
  "step s s' \<Longrightarrow> \<forall>t\<in>set (fst s). body_ok t \<Longrightarrow> \<forall>t\<in>set (fst s'). body_ok t"
proof (induction rule: step.induct)
  case (Acquire i ts l ls bs)
  then have "body_ok (ts ! i)" by simp
  then have "body_ok ((ts ! i)\<lparr>to_lock := ls, held := l # held (ts ! i)\<rparr>)"
    using Acquire(2) excl_perm[of l "held (ts ! i)" ls] unfolding body_ok_def
    by (simp del: excl_buckets_simps)
  with Acquire show ?case
    by (simp only: fst_conv) (rule all_nth_update, simp_all)
next
  case (Enter i ts bs)
  then have "body_ok (ts ! i)" by simp
  with Enter show ?case
    by (simp only: fst_conv) (rule all_nth_update, simp, simp add: body_ok_def)
next
  case (Read i ts b f bs)
  then have "body_ok (ts ! i)" by simp
  with Read show ?case
    by (simp only: fst_conv) (rule all_nth_update, simp, simp add: body_ok_def)
next
  case (Write i ts b items p bs)
  then have "body_ok (ts ! i)" by simp
  with Write show ?case
    by (simp only: fst_conv) (rule all_nth_update, simp, simp add: body_ok_def)
next
  case (Release i ts r l ls bs)
  then show ?case
    by (simp only: fst_conv) (rule all_nth_update, simp, simp add: body_ok_def)
qed

section \<open>Linearisation\<close>

text \<open>
  \<open>run_seq\<close> runs bodies one after the other. A call takes effect when its thread has taken its
  last lock: \<open>linearised P bs0 s\<close> says that the bodies \<open>P\<close> of the threads that got there, run one
  after the other in some order, give the replies the threads will give, and the buckets as they
  will be once these threads are through.
\<close>

fun run_seq :: "prog list \<Rightarrow> DbItem list list \<Rightarrow> reply list \<times> DbItem list list" where
  "run_seq [] bs = ([], bs)"
| "run_seq (p # ps) bs =
     (let (r, bs1) = run_prog p bs; (rs, bs2) = run_seq ps bs1 in (r # rs, bs2))"

lemma run_seq_snoc:
  "run_seq ps bs = (rs, bs1) \<Longrightarrow> run_prog p bs1 = (r, bs2) \<Longrightarrow> run_seq (ps @ [p]) bs = (rs @ [r], bs2)"
  by (induction ps arbitrary: bs rs) (auto split: prod.splits)

lemma length_run_seq: "run_seq ps bs = (rs, bs') \<Longrightarrow> length rs = length ps \<and> length bs' = length bs"
proof (induction ps arbitrary: bs rs bs')
  case Nil
  then show ?case by simp
next
  case (Cons p ps)
  obtain r b1 where p: "run_prog p bs = (r, b1)" by fastforce
  obtain rs1 b2 where q: "run_seq ps b1 = (rs1, b2)" by fastforce
  have "length b1 = length bs" using length_run_prog[of p bs] p by simp
  then show ?case using Cons.IH[OF q] Cons.prems p q by auto
qed

text \<open>The buckets a thread may still change.\<close>

definition own :: "thread \<Rightarrow> nat set" where
  "own t = (if started t then excl_buckets (held t) else {})"

definition linearised :: "prog list \<Rightarrow> DbItem list list \<Rightarrow> system \<Rightarrow> nat list \<Rightarrow> reply list \<Rightarrow> DbItem list list \<Rightarrow> bool" where
  "linearised P bs0 s os rs vbs \<longleftrightarrow>
     length (fst s) = length P \<and> length (snd s) = length bs0
     \<and> distinct os \<and> set os = {i. i < length P \<and> started (fst s ! i)}
     \<and> run_seq (map ((!) P) os) bs0 = (rs, vbs)
     \<and> (\<forall>j<length os. rs ! j = fst (run_prog (body (fst s ! (os ! j))) (snd s)))
     \<and> (\<forall>i<length P. \<not> started (fst s ! i) \<longrightarrow> body (fst s ! i) = P ! i)
     \<and> (\<forall>b. (\<forall>i<length P. b \<notin> own (fst s ! i)) \<longrightarrow> vbs ! b = snd s ! b)
     \<and> (\<forall>i<length P. \<forall>b\<in>own (fst s ! i). vbs ! b = snd (run_prog (body (fst s ! i)) (snd s)) ! b)"

definition system_ok :: "system \<Rightarrow> bool" where
  "system_ok s \<longleftrightarrow> mutex_ok (fst s) \<and> (\<forall>t\<in>set (fst s). thread_ok t) \<and> (\<forall>t\<in>set (fst s). body_ok t)"

lemma system_ok_step: "step s s' \<Longrightarrow> system_ok s \<Longrightarrow> system_ok s'"
  unfolding system_ok_def using step_mutex_ok step_thread_ok step_body_ok by metis

lemma excl_disjoint:
  assumes "mutex_ok ts" "i < length ts" "j < length ts" "i \<noteq> j" "b \<in> excl_buckets (held (ts ! i))"
  shows "b \<notin> lock_buckets (held (ts ! j))"
proof
  assume "b \<in> lock_buckets (held (ts ! j))"
  then obtain m where "(b, m) \<in> set (held (ts ! j))" by (auto simp: lock_buckets_def)
  moreover have "(b, LExclusive) \<in> set (held (ts ! i))" using assms(5) by (simp add: excl_buckets_def)
  ultimately show False
    using assms(1-4) by (force simp: mutex_ok_def conflict_def)
qed

lemma started_within:
  assumes "system_ok s" "i < length (fst s)" "started (fst s ! i)"
  shows "prog_within (lock_buckets (held (fst s ! i))) (excl_buckets (held (fst s ! i))) (body (fst s ! i))"
proof -
  have "fst s ! i \<in> set (fst s)" using assms(2) by simp
  then have "body_ok (fst s ! i)" "thread_ok (fst s ! i)"
    using assms(1) by (auto simp: system_ok_def)
  then show ?thesis using assms(3) by (simp add: body_ok_def thread_ok_def)
qed

lemma linearised_cong:
  assumes "linearised P bs0 (ts, bs) os rs vbs" "length ts' = length ts"
    "\<And>k. k < length ts \<Longrightarrow> started (ts' ! k) = started (ts ! k) \<and> own (ts' ! k) = own (ts ! k)
       \<and> run_prog (body (ts' ! k)) bs = run_prog (body (ts ! k)) bs
       \<and> (\<not> started (ts ! k) \<longrightarrow> body (ts' ! k) = body (ts ! k))"
  shows "linearised P bs0 (ts', bs) os rs vbs"
proof -
  have n: "length ts = length P" using assms(1) by (simp add: linearised_def)
  have os: "os ! j < length P" if "j < length os" for j
    using assms(1) nth_mem[OF that] by (auto simp: linearised_def)
  have "{i. i < length P \<and> started (ts' ! i)} = {i. i < length P \<and> started (ts ! i)}"
    using assms(3) n by auto
  then show ?thesis
    using assms n os unfolding linearised_def fst_conv snd_conv by simp
qed

text \<open>A thread whose state changes while neither its body's result nor its locks do.\<close>

lemma linearised_thread_update:
  assumes "linearised P bs0 (ts, bs) os rs vbs" "started t = started (ts ! i)"
    "\<not> started t \<longrightarrow> body t = body (ts ! i)" "own t = own (ts ! i)"
    "run_prog (body t) bs = run_prog (body (ts ! i)) bs"
  shows "linearised P bs0 (ts[i := t], bs) os rs vbs"
proof (rule linearised_cong[OF assms(1)])
  show "length (ts[i := t]) = length ts" by simp
  fix k assume "k < length ts"
  then show "started (ts[i := t] ! k) = started (ts ! k) \<and> own (ts[i := t] ! k) = own (ts ! k)
       \<and> run_prog (body (ts[i := t] ! k)) bs = run_prog (body (ts ! k)) bs
       \<and> (\<not> started (ts ! k) \<longrightarrow> body (ts[i := t] ! k) = body (ts ! k))"
    using assms(2-) by (cases "k = i") simp_all
qed

lemma linearised_step:
  assumes "step s s'" "system_ok s" "linearised P bs0 s os rs vbs"
  shows "\<exists>os' rs' vbs'. linearised P bs0 s' os' rs' vbs'"
  using assms
proof (induction rule: step.induct)
  case (Acquire i ts l ls bs)
  have "ts ! i \<in> set ts" using Acquire.hyps(1) by simp
  then have "\<not> started (ts ! i)"
    using Acquire.prems(1) Acquire.hyps(2) by (auto simp: system_ok_def thread_ok_def)
  then have "linearised P bs0 (ts[i := (ts ! i)\<lparr>to_lock := ls, held := l # held (ts ! i)\<rparr>], bs) os rs vbs"
    by (intro linearised_thread_update[OF Acquire.prems(2)]) (simp_all add: own_def)
  then show ?case by blast
next
  case (Enter i ts bs)
  note L = Enter.prems(2)[unfolded linearised_def fst_conv snd_conv]
  let ?t = "(ts ! i)\<lparr>started := True\<rparr>"
  let ?ts = "ts[i := ?t]"
  have n: "length ts = length P" "i < length P" using L Enter.hyps(1) by auto
  have i: "i \<notin> set os" "body (ts ! i) = P ! i" using L Enter.hyps(3) n by auto
  have ok: "system_ok (?ts, bs)"
    by (rule system_ok_step[OF step.Enter[OF Enter.hyps] Enter.prems(1)])
  have w: "prog_within (lock_buckets (held (ts ! i))) (excl_buckets (held (ts ! i))) (P ! i)"
    using started_within[OF ok, of i] i(2) Enter.hyps(1) by simp
  have agree: "vbs ! b = bs ! b" if "b \<in> lock_buckets (held (ts ! i))" for b
  proof -
    have "b \<notin> own (ts ! k)" if "k < length P" for k
    proof (cases "k = i")
      case True
      then show ?thesis using Enter.hyps(3) by (simp add: own_def)
    next
      case False
      then show ?thesis
        using excl_disjoint[of ts k i b] Enter.prems(1) n that \<open>b \<in> lock_buckets (held (ts ! i))\<close>
        by (auto simp: own_def system_ok_def)
    qed
    then show ?thesis using L by blast
  qed
  have len: "length vbs = length bs" using L length_run_seq[of "map ((!) P) os" bs0 rs vbs] by auto
  obtain r vbs' where run: "run_prog (P ! i) vbs = (r, vbs')" by fastforce
  have same: "fst (run_prog (P ! i) vbs) = fst (run_prog (P ! i) bs)"
      "\<And>b. b \<in> lock_buckets (held (ts ! i)) \<Longrightarrow>
         snd (run_prog (P ! i) vbs) ! b = snd (run_prog (P ! i) bs) ! b"
    using run_prog_agree[OF w len] agree by auto
  have frame: "vbs' ! b = vbs ! b" if "b \<notin> excl_buckets (held (ts ! i))" for b
    using run_prog_frame[OF w that, of vbs] run by simp
  have "linearised P bs0 (?ts, bs) (os @ [i]) (rs @ [r]) vbs'"
    unfolding linearised_def fst_conv snd_conv
  proof (intro conjI allI impI ballI)
    show "length ?ts = length P" "length bs = length bs0" using L by auto
    show "distinct (os @ [i])" using L i(1) by auto
    show "set (os @ [i]) = {k. k < length P \<and> started (?ts ! k)}"
      using L n by (auto simp: nth_list_update)
    show "run_seq (map ((!) P) (os @ [i])) bs0 = (rs @ [r], vbs')"
      using run_seq_snoc[OF _ run, of "map ((!) P) os" bs0 rs] L by simp
    have lrs: "length rs = length os" using length_run_seq[of "map ((!) P) os" bs0 rs vbs] L by auto
    show "(rs @ [r]) ! j = fst (run_prog (body (?ts ! ((os @ [i]) ! j))) bs)"
      if "j < length (os @ [i])" for j
    proof (cases "j = length os")
      case True
      then show ?thesis using lrs n run same(1) i(2) by (simp add: nth_append)
    next
      case False
      then have j: "j < length os" using that by simp
      then have "os ! j \<noteq> i" using i(1) nth_mem by fastforce
      then show ?thesis using L j lrs by (simp add: nth_append)
    qed
    show "body (?ts ! k) = P ! k" if "k < length P" "\<not> started (?ts ! k)" for k
      using that L n by (auto simp: nth_list_update split: if_splits)
    show "vbs' ! b = bs ! b" if a: "\<forall>k<length P. b \<notin> own (?ts ! k)" for b
    proof -
      have "b \<notin> own ?t" using a n by (metis nth_list_update_eq)
      then have "vbs' ! b = vbs ! b" using frame by (simp add: own_def)
      moreover have "\<forall>k<length P. b \<notin> own (ts ! k)"
        using a Enter.hyps(3) by (metis (full_types) empty_iff nth_list_update_neq own_def)
      ultimately show ?thesis using L by simp
    qed
    show "vbs' ! b = snd (run_prog (body (?ts ! k)) bs) ! b"
      if "k < length P" "b \<in> own (?ts ! k)" for k b
    proof (cases "k = i")
      case True
      then have "b \<in> excl_buckets (held (ts ! i))" using that n by (simp add: own_def)
      then show ?thesis using True n i(2) run same(2) excl_subset by auto
    next
      case False
      then have k: "b \<in> own (ts ! k)" using that by simp
      then have "b \<notin> excl_buckets (held (ts ! i))"
        using excl_disjoint[of ts k i b] Enter.prems(1) n that False excl_subset
        by (auto simp: own_def system_ok_def split: if_splits)
      then have "vbs' ! b = vbs ! b" by (rule frame)
      then show ?thesis using L k that(1) False by auto
    qed
  qed
  then show ?case by blast
next
  case (Read i ts b f bs)
  have "linearised P bs0 (ts[i := (ts ! i)\<lparr>body := f (bs ! b)\<rparr>], bs) os rs vbs"
    using Read.hyps by (intro linearised_thread_update[OF Read.prems(2)]) (simp_all add: own_def)
  then show ?case by blast
next
  case (Write i ts b items p bs)
  note L = Write.prems(2)[unfolded linearised_def fst_conv snd_conv]
  let ?t = "(ts ! i)\<lparr>body := p\<rparr>"
  let ?ts = "ts[i := ?t]"
  have n: "length ts = length P" "i < length P" using L Write.hyps(1) by auto
  have w: "prog_within (lock_buckets (held (ts ! i))) (excl_buckets (held (ts ! i))) (WrB b items p)"
    using started_within[OF Write.prems(1), of i] Write.hyps by simp
  then have bi: "b \<in> excl_buckets (held (ts ! i))" by simp
  then have bo: "b \<in> own (ts ! i)" using Write.hyps(2) by (simp add: own_def)
  have own_eq: "own (?ts ! k) = own (ts ! k)" for k
    by (cases "k = i"; cases "i < length ts") (auto simp: own_def list_update_beyond)
  have st: "started (?ts ! k) = started (ts ! k)" for k
    by (cases "k = i"; cases "i < length ts") (auto simp: list_update_beyond)
  have run: "fst (run_prog (body (?ts ! k)) (bs[b := items])) = fst (run_prog (body (ts ! k)) bs)
      \<and> (\<forall>c\<in>own (ts ! k). snd (run_prog (body (?ts ! k)) (bs[b := items])) ! c
            = snd (run_prog (body (ts ! k)) bs) ! c)"
    if k: "k < length P" "started (ts ! k)" for k
  proof (cases "k = i")
    case True
    then show ?thesis using n Write.hyps(3) by simp
  next
    case False
    have b: "b \<notin> lock_buckets (held (ts ! k))"
      using excl_disjoint[of ts i k b] Write.prems(1) n k(1) False bi by (auto simp: system_ok_def)
    have wk: "prog_within (lock_buckets (held (ts ! k))) (excl_buckets (held (ts ! k))) (body (ts ! k))"
      using started_within[OF Write.prems(1), of k] k n by simp
    have "\<forall>c\<in>lock_buckets (held (ts ! k)). bs[b := items] ! c = bs ! c"
      using b by (metis nth_list_update_neq)
    from run_prog_agree[OF wk _ this] have
      "fst (run_prog (body (ts ! k)) (bs[b := items])) = fst (run_prog (body (ts ! k)) bs)"
      "\<forall>c\<in>lock_buckets (held (ts ! k)). snd (run_prog (body (ts ! k)) (bs[b := items])) ! c
         = snd (run_prog (body (ts ! k)) bs) ! c" by simp_all
    then show ?thesis using False excl_subset[of "held (ts ! k)"] k(2) by (auto simp: own_def)
  qed
  have "linearised P bs0 (?ts, bs[b := items]) os rs vbs"
    unfolding linearised_def fst_conv snd_conv
  proof (intro conjI allI impI ballI)
    show "length ?ts = length P" "length (bs[b := items]) = length bs0" "distinct os"
      "run_seq (map ((!) P) os) bs0 = (rs, vbs)" using L by simp_all
    show "set os = {k. k < length P \<and> started (?ts ! k)}" using L by (simp add: st)
    show "rs ! j = fst (run_prog (body (?ts ! (os ! j))) (bs[b := items]))" if "j < length os" for j
    proof -
      have "os ! j < length P \<and> started (ts ! (os ! j))" using L nth_mem[OF that] by auto
      then show ?thesis using L run that by simp
    qed
    show "body (?ts ! k) = P ! k" if "k < length P" "\<not> started (?ts ! k)" for k
      using that L Write.hyps(2) by (cases "k = i") (auto simp: st)
    show "vbs ! c = bs[b := items] ! c" if "\<forall>k<length P. c \<notin> own (?ts ! k)" for c
    proof -
      have "c \<noteq> b" using that bo n unfolding own_eq by blast
      then show ?thesis using L that unfolding own_eq by simp
    qed
    show "vbs ! c = snd (run_prog (body (?ts ! k)) (bs[b := items])) ! c"
      if "k < length P" "c \<in> own (?ts ! k)" for k c
    proof -
      have c: "c \<in> own (ts ! k)" using that(2) by (simp only: own_eq)
      then have "started (ts ! k)" by (simp add: own_def split: if_splits)
      then show ?thesis using L run that(1) c by auto
    qed
  qed
  then show ?case by blast
next
  case (Release i ts r l ls bs)
  note L = Release.prems(2)[unfolded linearised_def fst_conv snd_conv]
  let ?t = "(ts ! i)\<lparr>held := ls\<rparr>"
  let ?ts = "ts[i := ?t]"
  have n: "length ts = length P" "i < length P" using L Release.hyps(1) by auto
  have st: "started (?ts ! k) = started (ts ! k)" "body (?ts ! k) = body (ts ! k)" for k
    by (cases "k = i"; cases "i < length ts"; auto simp: list_update_beyond)+
  have own_eq: "own (?ts ! k) = own (ts ! k)" if "k \<noteq> i" for k using that by simp
  have own_i: "own (?ts ! i) \<subseteq> own (ts ! i)" "own (ts ! i) \<subseteq> insert (fst l) (own (?ts ! i))"
    using Release.hyps n by (auto simp: own_def excl_insert split: if_splits)
  have "linearised P bs0 (?ts, bs) os rs vbs"
    unfolding linearised_def fst_conv snd_conv
  proof (intro conjI allI impI ballI)
    show "length ?ts = length P" "length bs = length bs0" "distinct os"
      "run_seq (map ((!) P) os) bs0 = (rs, vbs)" using L by simp_all
    show "set os = {k. k < length P \<and> started (?ts ! k)}" using L by (simp add: st)
    show "rs ! j = fst (run_prog (body (?ts ! (os ! j))) bs)" if "j < length os" for j
      using L that by (simp add: st)
    show "body (?ts ! k) = P ! k" if "k < length P" "\<not> started (?ts ! k)" for k
      using that L by (simp add: st)
    show "vbs ! b = bs ! b" if a: "\<forall>k<length P. b \<notin> own (?ts ! k)" for b
    proof (cases "b \<in> own (ts ! i)")
      case True
      then have "vbs ! b = snd (run_prog (body (ts ! i)) bs) ! b" using L n by blast
      then show ?thesis using Release.hyps(3) by simp
    next
      case False
      then have "\<forall>k<length P. b \<notin> own (ts ! k)" using a own_eq by metis
      then show ?thesis using L by blast
    qed
    show "vbs ! b = snd (run_prog (body (?ts ! k)) bs) ! b" if "k < length P" "b \<in> own (?ts ! k)" for k b
    proof -
      have "b \<in> own (ts ! k)" using that own_eq own_i by (cases "k = i") auto
      then show ?thesis using L that(1) by (simp add: st)
    qed
  qed
  then show ?case by blast
qed

section \<open>The initial system\<close>

lemma bucket_eq_hasher: "hasher db = hasher db' \<Longrightarrow> bucket db = bucket db'"
  by (simp add: bucket_def fun_eq_iff)

lemma prog_hasher_eq:
  assumes "hasher db = hasher db'"
  shows "call_prog db c = call_prog db' c"
proof -
  note b = bucket_eq_hasher[OF assms]
  have "multiget_prog db ks vs = multiget_prog db' ks vs" for ks vs
    by (induction ks arbitrary: vs) (auto simp: b fun_eq_iff split: option.splits)
  moreover have "multiput_prog db ks vs = multiput_prog db' ks vs" for ks vs
    by (induction ks vs rule: list_induct2') (simp_all add: b)
  ultimately show ?thesis by (cases c) (simp_all add: b cong: option.case_cong)
qed

lemma exec_seq_run:
  assumes "length (buckets db) = BUCKET_COUNT"
  shows "exec_seq cs db =
    Inr (fst (run_seq (map (call_prog db) cs) (buckets db)),
         db\<lparr>buckets := snd (run_seq (map (call_prog db) cs) (buckets db))\<rparr>)"
  using assms
proof (induction cs arbitrary: db)
  case Nil
  then show ?case by simp
next
  case (Cons c cs)
  obtain r bs where r: "run_prog (call_prog db c) (buckets db) = (r, bs)" by fastforce
  have l: "length (buckets (db\<lparr>buckets := bs\<rparr>)) = BUCKET_COUNT"
    using length_run_prog[of "call_prog db c" "buckets db"] r Cons.prems by simp
  have e: "call_prog (db\<lparr>buckets := bs\<rparr>) = call_prog db"
    by (simp add: fun_eq_iff prog_hasher_eq)
  show ?case
    using exec_call_run[OF Cons.prems, of c] Cons.IH[OF l] r e by (simp add: case_prod_beta)
qed

lemma plan_ascending: "sorted_wrt (<) (map fst (lock_plan db c))"
  by (cases c) (simp_all add: multiget_plan_def multiput_plan_def comp_def sorted_wrt_filter)

lemma system_ok_spawn: "\<forall>c\<in>set calls. covered db c \<Longrightarrow> system_ok (spawn db calls)"
  by (auto simp: system_ok_def spawn_def mutex_ok_def thread_ok_def body_ok_def plan_ascending
      plan_covers_body)

lemma linearised_spawn:
  "linearised (map (call_prog db) calls) (buckets db) (spawn db calls) [] [] (buckets db)"
  by (auto simp: linearised_def spawn_def own_def)

lemma linearised_steps:
  assumes "steps s s'" "system_ok s" "linearised P bs0 s os rs vbs"
  shows "system_ok s' \<and> (\<exists>os' rs' vbs'. linearised P bs0 s' os' rs' vbs')"
  using assms
proof (induction rule: rtranclp_induct)
  case base
  then show ?case by blast
next
  case (step s1 s2)
  then obtain os' rs' vbs' where "system_ok s1" "linearised P bs0 s1 os' rs' vbs'" by blast
  then show ?case using linearised_step[OF step.hyps(2)] system_ok_step[OF step.hyps(2)] by blast
qed

section \<open>Progress\<close>

primrec depth_le :: "prog \<Rightarrow> nat \<Rightarrow> bool" where
  "depth_le (Ret r) n \<longleftrightarrow> True"
| "depth_le (RdB b f) n \<longleftrightarrow> 0 < n \<and> (\<forall>items. depth_le (f items) (n - 1))"
| "depth_le (WrB b items p) n \<longleftrightarrow> 0 < n \<and> depth_le p (n - 1)"

text \<open>The most steps a body can take.\<close>

fun body_steps :: "KvCall \<Rightarrow> nat" where
  "body_steps (CallGet q) = 1"
| "body_steps (CallPut q) = 2"
| "body_steps (CallAppend q) = 3"
| "body_steps (CallDelete q) = 3"
| "body_steps (CallMultiGet q) = length (multiget_keys q)"
| "body_steps (CallMultiPut q) = 2 * length (multiput_keys q)"
| "body_steps CallAllKeys = BUCKET_COUNT"

definition call_steps :: "DbMap \<Rightarrow> KvCall \<Rightarrow> nat" where
  "call_steps db c = 2 * length (lock_plan db c) + 1 + body_steps c"

lemma depth_multiget: "depth_le (multiget_prog db ks vs) (length ks)"
  by (induction ks arbitrary: vs) (auto split: option.splits)

lemma depth_multiput: "depth_le (multiput_prog db ks vs) (2 * length ks)"
  by (induction db ks vs rule: multiput_prog.induct) (auto simp: insert_prog_def)

lemma depth_allkeys: "depth_le (allkeys_prog bs ks) (length bs)"
  by (induction bs arbitrary: ks) auto

lemma depth_call: "depth_le (call_prog db c) (body_steps c)"
proof (cases c)
  case CallAllKeys
  then show ?thesis using depth_allkeys[of "[0..<BUCKET_COUNT]" "[]"] by simp
next
  case (CallMultiPut q)
  then show ?thesis using depth_multiput[of db "multiput_keys q" "multiput_values q"] by auto
qed (auto simp: insert_prog_def depth_multiget split: option.splits)

text \<open>Every thread has a budget of steps; each step spends one.\<close>

definition budget_ok :: "thread \<Rightarrow> nat \<Rightarrow> bool" where
  "budget_ok t n \<longleftrightarrow> (\<exists>d. depth_le (body t) d
     \<and> 2 * length (to_lock t) + length (held t) + (if started t then 0 else 1) + d \<le> n)"

definition budgets_ok :: "thread list \<Rightarrow> nat list \<Rightarrow> bool" where
  "budgets_ok ts ns \<longleftrightarrow> list_all2 budget_ok ts ns"

lemma budgets_update:
  assumes "budgets_ok ts ns" "i < length ts" "\<And>n. budget_ok (ts ! i) n \<Longrightarrow> 0 < n \<and> budget_ok t (n - 1)"
  shows "\<exists>ns'. budgets_ok (ts[i := t]) ns' \<and> Suc (sum_list ns') = sum_list ns"
proof -
  have l: "length ts = length ns" "budget_ok (ts ! i) (ns ! i)"
    using assms(1,2) by (auto simp: budgets_ok_def list_all2_conv_all_nth)
  note n = assms(3)[OF l(2)]
  have "budgets_ok (ts[i := t]) (ns[i := ns ! i - 1])"
    using assms(1,2) l n by (auto simp: budgets_ok_def intro: list_all2_update_cong)
  moreover have "ns ! i \<le> sum_list ns" using l(1) assms(2) by (simp add: member_le_sum_list)
  then have "Suc (sum_list (ns[i := ns ! i - 1])) = sum_list ns"
    using l(1) assms(2) n by (simp add: sum_list_update)
  ultimately show ?thesis by blast
qed

lemma step_budget:
  assumes "step s s'" "budgets_ok (fst s) ns"
  shows "\<exists>ns'. budgets_ok (fst s') ns' \<and> Suc (sum_list ns') = sum_list ns"
  using assms
proof (induction rule: step.induct)
  case (Acquire i ts l ls bs)
  then show ?case unfolding fst_conv
    by (elim budgets_update) (auto simp: budget_ok_def)
next
  case (Enter i ts bs)
  then show ?case unfolding fst_conv
    by (elim budgets_update) (auto simp: budget_ok_def)
next
  case (Read i ts b f bs)
  then show ?case unfolding fst_conv
  proof (elim budgets_update)
    fix n assume "budget_ok (ts ! i) n"
    then obtain d where "0 < d" "depth_le (f (bs ! b)) (d - 1)"
      "2 * length (to_lock (ts ! i)) + length (held (ts ! i)) + d \<le> n"
      using Read by (auto simp: budget_ok_def)
    then show "0 < n \<and> budget_ok ((ts ! i)\<lparr>body := f (bs ! b)\<rparr>) (n - 1)"
      using Read by (auto simp: budget_ok_def intro!: exI[of _ "d - 1"])
  qed
next
  case (Write i ts b items p bs)
  then show ?case unfolding fst_conv
  proof (elim budgets_update)
    fix n assume "budget_ok (ts ! i) n"
    then obtain d where "0 < d" "depth_le p (d - 1)"
      "2 * length (to_lock (ts ! i)) + length (held (ts ! i)) + d \<le> n"
      using Write by (auto simp: budget_ok_def)
    then show "0 < n \<and> budget_ok ((ts ! i)\<lparr>body := p\<rparr>) (n - 1)"
      using Write by (auto simp: budget_ok_def intro!: exI[of _ "d - 1"])
  qed
next
  case (Release i ts r l ls bs)
  then show ?case unfolding fst_conv
  proof (elim budgets_update)
    fix n assume "budget_ok (ts ! i) n"
    then obtain d where "2 * length (to_lock (ts ! i)) + Suc (length ls) + d \<le> n"
      using Release by (auto simp: budget_ok_def)
    then show "0 < n \<and> budget_ok ((ts ! i)\<lparr>held := ls\<rparr>) (n - 1)"
      using Release by (auto simp: budget_ok_def intro!: exI[of _ d])
  qed
qed

lemma steps_budget:
  assumes "(step ^^ n) s s'" "budgets_ok (fst s) ns"
  shows "\<exists>ns'. budgets_ok (fst s') ns' \<and> n + sum_list ns' = sum_list ns"
  using assms
proof (induction n arbitrary: s')
  case 0
  then show ?case by auto
next
  case (Suc n)
  obtain s1 where s1: "(step ^^ n) s s1" "step s1 s'" using Suc.prems(1) by (rule relpowp_Suc_E)
  obtain ns1 where 1: "budgets_ok (fst s1) ns1" "n + sum_list ns1 = sum_list ns"
    using Suc.IH[OF s1(1) Suc.prems(2)] by blast
  obtain ns2 where "budgets_ok (fst s') ns2" "Suc (sum_list ns2) = sum_list ns1"
    using step_budget[OF s1(2) 1(1)] by blast
  with 1(2) show ?case by (intro exI[of _ ns2]) simp
qed

lemma budgets_spawn: "budgets_ok (fst (spawn db calls)) (map (call_steps db) calls)"
  by (auto simp: budgets_ok_def spawn_def list_all2_conv_all_nth budget_ok_def call_steps_def
      intro!: exI[of _ "body_steps _"] depth_call)

text \<open>
  Some thread can always go on: if all unfinished threads wait for a lock, the one that waits for
  the greatest bucket waits for a thread that holds it and so waits for a greater one.
\<close>

lemma thread_can_step:
  assumes "i < length ts" "thread_ok (ts ! i)" "\<not> thread_done (ts ! i)" "to_lock (ts ! i) = []"
  shows "\<exists>s'. step (ts, bs) s'"
proof (cases "started (ts ! i)")
  case False
  then show ?thesis using assms step.Enter by blast
next
  case True
  show ?thesis
  proof (cases "body (ts ! i)")
    case (Ret r)
    then obtain l ls where "held (ts ! i) = l # ls"
      using assms(3,4) True by (cases "held (ts ! i)") (auto simp: thread_done_def)
    then show ?thesis using step.Release[OF assms(1) True Ret] by blast
  next
    case (RdB b f)
    then show ?thesis using step.Read[OF assms(1) True] by blast
  next
    case (WrB b items p)
    then show ?thesis using step.Write[OF assms(1) True] by blast
  qed
qed

lemma waiting_above_held:
  assumes "thread_ok t" "to_lock t = l # ls" "l' \<in> set (held t)"
  shows "fst l' < fst l"
  using assms by (auto simp: thread_ok_def sorted_wrt_append)

lemma no_deadlock:
  assumes "\<forall>t\<in>set ts. thread_ok t" "\<not> finished (ts, bs)"
  shows "\<exists>s'. step (ts, bs) s'"
proof (rule ccontr)
  assume stuck: "\<nexists>s'. step (ts, bs) s'"
  let ?wait = "{i. i < length ts \<and> \<not> thread_done (ts ! i)}"
  have waits: "to_lock (ts ! i) \<noteq> []" if "i \<in> ?wait" for i
    using thread_can_step[of i ts bs] assms(1) that stuck by auto
  define key where "key i = fst (hd (to_lock (ts ! i)))" for i
  have "finite ?wait" "?wait \<noteq> {}"
    using assms(2) by (auto simp: finished_def in_set_conv_nth)
  then have "finite (key ` ?wait)" "Max (key ` ?wait) \<in> key ` ?wait" by auto
  then obtain i where "i \<in> ?wait" "Max (key ` ?wait) = key i" by (elim imageE)
  moreover have "key j \<le> Max (key ` ?wait)" if "j \<in> ?wait" for j
    using Max_ge[OF \<open>finite (key ` ?wait)\<close> imageI[OF that]] .
  ultimately have i: "i \<in> ?wait" "\<forall>j\<in>?wait. key j \<le> key i" by auto
  obtain l ls where l: "to_lock (ts ! i) = l # ls" using waits[OF i(1)] by (cases "to_lock (ts ! i)") auto
  then have "\<not> can_lock ts i l" using stuck step.Acquire i(1) by blast
  then obtain j l' where j: "j < length ts" "j \<noteq> i" "l' \<in> set (held (ts ! j))" "conflict l l'"
    by (auto simp: can_lock_def)
  have jw: "j \<in> ?wait" using j(1,3) by (auto simp: thread_done_def)
  then obtain m ms where m: "to_lock (ts ! j) = m # ms" using waits[OF jw] by (cases "to_lock (ts ! j)") auto
  have "thread_ok (ts ! j)" using assms(1) j(1) by simp
  from waiting_above_held[OF this m j(3)] have "key i < key j"
    using j(4) l m by (simp add: key_def conflict_def)
  then show False using i(2) jw by (simp add: leD)
qed

lemma steps_thread_ok: "steps s s' \<Longrightarrow> \<forall>t\<in>set (fst s). thread_ok t \<Longrightarrow> \<forall>t\<in>set (fst s'). thread_ok t"
  by (induction rule: rtranclp_induct) (simp, metis step_thread_ok)

lemma thread_ok_spawn: "\<forall>t\<in>set (fst (spawn db calls)). thread_ok t"
  by (auto simp: spawn_def thread_ok_def plan_ascending)

lemma run_to_finish:
  assumes "budgets_ok (fst s) ns" "\<forall>t\<in>set (fst s). thread_ok t"
  shows "\<exists>s'. steps s s' \<and> finished s'"
  using assms
proof (induction "sum_list ns" arbitrary: s ns rule: less_induct)
  case less
  show ?case
  proof (cases "finished s")
    case True
    then show ?thesis by blast
  next
    case False
    then obtain s1 where s1: "step s s1"
      using no_deadlock[OF less.prems(2), of "snd s"] by auto
    obtain ns1 where ns1: "budgets_ok (fst s1) ns1" "Suc (sum_list ns1) = sum_list ns"
      using step_budget[OF s1 less.prems(1)] by blast
    have "\<exists>s'. steps s1 s' \<and> finished s'"
      using less.hyps[OF _ ns1(1) step_thread_ok[OF s1 less.prems(2)]] ns1(2) by simp
    then show ?thesis using s1 by (meson converse_rtranclp_into_rtranclp)
  qed
qed

section \<open>Runs of single threads\<close>

lemma race_pair:
  assumes "started t" "started u" "next_access (body t) = Some (b, True)"
    "next_access (body u) = Some (b, w)"
  shows "race ([t, u], bs)"
  unfolding race_def using assms
  by (intro exI[of _ 0] exI[of _ "Suc 0"] exI[of _ b] exI[of _ w] conjI) simp_all

lemma acquire_all:
  assumes "i < length ts" "\<forall>l\<in>set (to_lock (ts ! i)). can_lock ts i l"
  shows "steps (ts, bs)
    (ts[i := (ts ! i)\<lparr>to_lock := [], held := rev (to_lock (ts ! i)) @ held (ts ! i)\<rparr>], bs)"
  using assms
proof (induction "to_lock (ts ! i)" arbitrary: ts)
  case Nil
  have "(ts ! i)\<lparr>to_lock := [], held := rev (to_lock (ts ! i)) @ held (ts ! i)\<rparr> = ts ! i"
    using Nil.hyps[symmetric] by (cases "ts ! i") simp
  then have "ts[i := (ts ! i)\<lparr>to_lock := [], held := rev (to_lock (ts ! i)) @ held (ts ! i)\<rparr>] = ts"
    by (simp only: list_update_id)
  then show ?case by (simp only: rtranclp.rtrancl_refl)
next
  case (Cons l ls)
  note h = Cons.hyps(2)[symmetric]
  let ?t = "(ts ! i)\<lparr>to_lock := ls, held := l # held (ts ! i)\<rparr>"
  let ?ts = "ts[i := ?t]"
  have "can_lock ts i l" using Cons.prems(2) unfolding h by simp
  from step.Acquire[OF Cons.prems(1) h this]
  have s: "step (ts, bs) (?ts, bs)" .
  have c: "can_lock ?ts i m \<longleftrightarrow> can_lock ts i m" for m by (auto simp: can_lock_def)
  have ti: "?ts ! i = ?t" using Cons.prems(1) by simp
  have "ls = to_lock (?ts ! i)" "i < length ?ts" using Cons.prems(1) by simp_all
  moreover have "\<forall>m\<in>set (to_lock (?ts ! i)). can_lock ?ts i m"
    using Cons.prems(2) unfolding c ti h by simp
  ultimately have "steps (?ts, bs) (?ts[i := (?ts ! i)\<lparr>to_lock := [], held := rev (to_lock (?ts ! i)) @ held (?ts ! i)\<rparr>], bs)"
    by (rule Cons.hyps(1))
  then have "steps (?ts, bs) (ts[i := ?t\<lparr>to_lock := [], held := rev ls @ l # held (ts ! i)\<rparr>], bs)"
    unfolding ti by simp
  moreover have "?t\<lparr>to_lock := [], held := rev ls @ l # held (ts ! i)\<rparr>
      = (ts ! i)\<lparr>to_lock := [], held := rev (to_lock (ts ! i)) @ held (ts ! i)\<rparr>"
    unfolding h by simp
  ultimately show ?case using s by (simp add: converse_rtranclp_into_rtranclp[of step])
qed

lemma spawn_two_acquire:
  assumes "\<forall>l\<in>set p. \<forall>l'\<in>set q. \<not> conflict l l'"
  shows "steps ([\<lparr>to_lock = p, held = [], started = False, body = f\<rparr>,
       \<lparr>to_lock = q, held = [], started = False, body = g\<rparr>], bs)
     ([\<lparr>to_lock = [], held = rev p, started = True, body = f\<rparr>,
       \<lparr>to_lock = [], held = rev q, started = True, body = g\<rparr>], bs)"
proof -
  let ?t = "\<lambda>ls hs st bd. \<lparr>to_lock = ls, held = hs, started = st, body = bd\<rparr>"
  have "steps ([?t p [] False f, ?t q [] False g], bs) ([?t [] (rev p) False f, ?t q [] False g], bs)"
    using acquire_all[of 0 "[?t p [] False f, ?t q [] False g]" bs]
    by (simp add: can_lock_def less_Suc_eq)
  also have "steps \<dots> ([?t [] (rev p) False f, ?t [] (rev q) False g], bs)"
    using acquire_all[of 1 "[?t [] (rev p) False f, ?t q [] False g]" bs] assms
    by (simp add: can_lock_def less_Suc_eq) (meson conflict_sym)
  also have "step \<dots> ([?t [] (rev p) True f, ?t [] (rev q) False g], bs)"
    using step.Enter[of 0 "[?t [] (rev p) False f, ?t [] (rev q) False g]" bs] by simp
  also have "step \<dots> ([?t [] (rev p) True f, ?t [] (rev q) True g], bs)"
    using step.Enter[of 1 "[?t [] (rev p) True f, ?t [] (rev q) False g]" bs] by simp
  finally show ?thesis .
qed

section \<open>Properties\<close>

text \<open>
  C7. Mutual exclusion: whatever calls run concurrently, as long as no \<open>MultiPut\<close> has a key in
  bucket 0 and no \<open>AllKeys\<close> runs, no interleaving of their steps has a data race (two threads
  about to touch the same bucket, one of them writing it).
\<close>

theorem locks_prevent_races:
  assumes "\<forall>c\<in>set calls. covered db c" "steps (spawn db calls) s"
  shows "\<not> race s"
proof
  assume "race s"
  then obtain i j b w where r: "i < length (fst s)" "j < length (fst s)" "i \<noteq> j"
      "started (fst s ! i)" "started (fst s ! j)"
      "next_access (body (fst s ! i)) = Some (b, True)" "next_access (body (fst s ! j)) = Some (b, w)"
    unfolding race_def by blast
  have ok: "system_ok s"
    using linearised_steps[OF assms(2) system_ok_spawn[OF assms(1)] linearised_spawn] by blast
  have "b \<in> excl_buckets (held (fst s ! i))"
    using started_within[OF ok r(1,4)] r(6) by (cases "body (fst s ! i)") auto
  moreover have "b \<in> lock_buckets (held (fst s ! j))"
    using started_within[OF ok r(2,5)] r(7) by (cases "body (fst s ! j)") auto
  ultimately show False
    using excl_disjoint[of "fst s" i j b] ok r(1-3) by (simp add: system_ok_def)
qed

text \<open>
  C13. Atomicity: when concurrently running calls (none of them \<open>AllKeys\<close> or a \<open>MultiPut\<close> with a
  key in bucket 0) have all returned, their replies and the final buckets are those of the same
  calls run alone one after the other, by the functions of \<open>concurrent_kvstore.cpp\<close>, in some order.
\<close>

theorem calls_are_atomic:
  assumes "length (buckets db) = BUCKET_COUNT" "\<forall>c\<in>set calls. covered db c"
    "steps (spawn db calls) (ts, bs)" "finished (ts, bs)"
  shows "\<exists>os rs. distinct os \<and> set os = {..<length calls} \<and> length rs = length os
    \<and> exec_seq (map ((!) calls) os) db = Inr (rs, db\<lparr>buckets := bs\<rparr>)
    \<and> (\<forall>j<length os. body (ts ! (os ! j)) = Ret (rs ! j))"
proof -
  obtain os rs vbs where L: "linearised (map (call_prog db) calls) (buckets db) (ts, bs) os rs vbs"
    using linearised_steps[OF assms(3) system_ok_spawn[OF assms(2)] linearised_spawn] by blast
  note L' = L[unfolded linearised_def fst_conv snd_conv length_map]
  have fin: "started (ts ! i)" "own (ts ! i) = {}" "\<exists>r. body (ts ! i) = Ret r" if "i < length calls" for i
  proof -
    have "thread_done (ts ! i)" using assms(4) L' that by (simp add: finished_def)
    then show "started (ts ! i)" "own (ts ! i) = {}" "\<exists>r. body (ts ! i) = Ret r"
      by (auto simp: thread_done_def own_def split: prog.splits)
  qed
  have os: "set os = {..<length calls}" using L' fin(1) by auto
  have P: "map ((!) (map (call_prog db) calls)) os = map (call_prog db) (map ((!) calls) os)"
    using os by auto
  have "run_seq (map ((!) (map (call_prog db) calls)) os) (buckets db) = (rs, vbs)"
    using L' by blast
  then have run: "run_seq (map (call_prog db) (map ((!) calls) os)) (buckets db) = (rs, vbs)"
    unfolding P .
  have "vbs = bs"
  proof (rule nth_equalityI)
    show "length vbs = length bs" using length_run_seq[OF run] L' by simp
    show "vbs ! b = bs ! b" if "b < length vbs" for b using L' fin(2) by simp
  qed
  then have "exec_seq (map ((!) calls) os) db = Inr (rs, db\<lparr>buckets := bs\<rparr>)"
    using exec_seq_run[OF assms(1)] run by simp
  moreover have "body (ts ! (os ! j)) = Ret (rs ! j)" if "j < length os" for j
  proof -
    have "os ! j < length calls" using os nth_mem[OF that] by auto
    then obtain r where "body (ts ! (os ! j)) = Ret r" using fin(3) by blast
    then show ?thesis using L' that by simp
  qed
  moreover have "length rs = length os" using length_run_seq[OF run] by simp
  ultimately show ?thesis using os L' by blast
qed

text \<open>
  C27. Progress: no set of concurrent calls deadlocks, since every plan takes its locks in ascending
  bucket order. Every run has at most \<open>call_steps\<close> steps per call (two per lock, one to enter, and
  those of the body), can go on until all calls have returned, and from every state it can reach
  some continuation lets them all return.
\<close>

theorem calls_never_deadlock:
  assumes "(step ^^ n) (spawn db calls) s"
  shows "n \<le> sum_list (map (call_steps db) calls) \<and> (finished s \<or> (\<exists>s'. step s s'))
    \<and> (\<exists>s'. steps s s' \<and> finished s')"
proof -
  obtain ns where ns: "budgets_ok (fst s) ns" "n + sum_list ns = sum_list (map (call_steps db) calls)"
    using steps_budget[OF assms budgets_spawn] by blast
  have ok: "\<forall>t\<in>set (fst s). thread_ok t"
    using steps_thread_ok[OF relpowp_imp_rtranclp[OF assms] thread_ok_spawn] .
  show ?thesis
    using ns no_deadlock[OF ok, of "snd s"] run_to_finish[OF ns(1) ok] by auto
qed

theorem locks_prevent_races_witness:
  "\<exists>s. steps (spawn (db_init (\<lambda>k. 7)) [CallPut \<lparr>put_key = ''k'', put_value = ''v''\<rparr>,
       CallMultiPut \<lparr>multiput_keys = [''k''], multiput_values = [''w'']\<rparr>]) s
     \<and> finished s \<and> \<not> race s"
proof -
  let ?db = "db_init (\<lambda>k. 7)"
  let ?calls = "[CallPut \<lparr>put_key = ''k'', put_value = ''v''\<rparr>,
       CallMultiPut \<lparr>multiput_keys = [''k''], multiput_values = [''w'']\<rparr>]"
  have c: "\<forall>c\<in>set ?calls. covered ?db c" by (simp add: bucket_def BUCKET_COUNT_def db_init_def)
  obtain s where "steps (spawn ?db ?calls) s" "finished s"
    using run_to_finish[OF budgets_spawn thread_ok_spawn] by blast
  then show ?thesis using locks_prevent_races[OF c] by blast
qed

theorem calls_are_atomic_witness:
  "\<exists>ts bs os rs db'. finished (ts, bs) \<and> set os = {0, 1}
     \<and> exec_seq (map ((!) [CallPut \<lparr>put_key = ''k'', put_value = ''v''\<rparr>, CallGet \<lparr>get_key = ''k''\<rparr>]) os)
         (db_init (\<lambda>k. 7)) = Inr (rs, db') \<and> bs = buckets db'"
proof -
  let ?db = "db_init (\<lambda>k. 7)"
  let ?calls = "[CallPut \<lparr>put_key = ''k'', put_value = ''v''\<rparr>, CallGet \<lparr>get_key = ''k''\<rparr>]"
  have l: "length (buckets ?db) = BUCKET_COUNT" by (simp add: db_init_def)
  have c: "\<forall>c\<in>set ?calls. covered ?db c" by simp
  obtain s where s: "steps (spawn ?db ?calls) s" "finished s"
    using run_to_finish[OF budgets_spawn thread_ok_spawn] by blast
  obtain ts bs where tb: "s = (ts, bs)" by (cases s)
  obtain os rs where "set os = {..<length ?calls}"
      "exec_seq (map ((!) ?calls) os) ?db = Inr (rs, ?db\<lparr>buckets := bs\<rparr>)"
    using calls_are_atomic[OF l c s[unfolded tb]] by blast
  moreover have "{..<length ?calls} = {0, 1}" "bs = buckets (?db\<lparr>buckets := bs\<rparr>)" by auto
  ultimately show ?thesis using s(2) unfolding tb by (intro exI conjI) (assumption | simp)+
qed

theorem calls_never_deadlock_witness:
  "\<exists>s. steps (spawn (db_init (\<lambda>k. 7)) [CallAllKeys, CallPut \<lparr>put_key = ''k'', put_value = ''v''\<rparr>]) s
     \<and> finished s"
  using calls_never_deadlock[of 0 "db_init (\<lambda>k. 7)"
      "[CallAllKeys, CallPut \<lparr>put_key = ''k'', put_value = ''v''\<rparr>]"] by simp

text \<open>
  Where the locks do not cover: \<open>MultiPut\<close> never locks bucket 0, whatever its keys, and locks
  all others, because it tests the bucket's index instead of \<open>needed\<close>; so it can race with a \<open>Get\<close>
  of the same key when the key is in bucket 0. \<open>AllKeys\<close> takes no locks at all and can race with
  any \<open>Put\<close> into bucket 0.
\<close>

theorem multiput_leaves_bucket_0_unlocked:
  "lock_buckets (lock_plan db (CallMultiPut q)) = {1..<BUCKET_COUNT}
   \<and> (bucket db k = 0 \<longrightarrow>
       (\<exists>s. steps (spawn db [CallMultiPut \<lparr>multiput_keys = [k], multiput_values = [v]\<rparr>,
              CallGet \<lparr>get_key = k\<rparr>]) s \<and> race s)
     \<and> (\<exists>s. steps (spawn db [CallPut \<lparr>put_key = k, put_value = v\<rparr>, CallAllKeys]) s \<and> race s))"
proof (intro conjI impI)
  show "lock_buckets (lock_plan db (CallMultiPut q)) = {1..<BUCKET_COUNT}"
    by (auto simp: multiput_plan_buckets)
next
  assume k: "bucket db k = 0"
  let ?p = "multiput_plan db [k]" and ?w = "WrB 0 (insert_item (buckets db ! 0) k v) (Ret (True, []))"
  let ?g = "RdB 0 (\<lambda>items. case find_item items k of None \<Rightarrow> Ret (False, []) | Some item \<Rightarrow> Ret (True, [item_value item]))"
  let ?f = "insert_prog 0 k v (Ret (True, []))"
  let ?t = "\<lambda>hs bd. \<lparr>to_lock = [], held = hs, started = True, body = bd\<rparr>"
  have "\<forall>l\<in>set ?p. \<forall>l'\<in>set [(0, LShared)]. \<not> conflict l l'"
    by (auto simp: multiput_plan_def conflict_def)
  from spawn_two_acquire[OF this, of ?f ?g "buckets db"]
  have "steps (spawn db [CallMultiPut \<lparr>multiput_keys = [k], multiput_values = [v]\<rparr>, CallGet \<lparr>get_key = k\<rparr>])
      ([?t (rev ?p) ?f, ?t [(0, LShared)] ?g], buckets db)"
    by (simp add: spawn_def k)
  also have "step \<dots> ([?t (rev ?p) ?w, ?t [(0, LShared)] ?g], buckets db)"
    using step.Read[of 0 "[?t (rev ?p) ?f, ?t [(0, LShared)] ?g]" 0 "\<lambda>items. WrB 0 (insert_item items k v) (Ret (True, []))" "buckets db"]
    by (simp add: insert_prog_def)
  finally show "\<exists>s. steps (spawn db [CallMultiPut \<lparr>multiput_keys = [k], multiput_values = [v]\<rparr>,
      CallGet \<lparr>get_key = k\<rparr>]) s \<and> race s"
    by (intro exI conjI, assumption) (rule race_pair, auto)
next
  assume k: "bucket db k = 0"
  let ?w = "WrB 0 (insert_item (buckets db ! 0) k v) (Ret (True, []))"
  let ?f = "insert_prog 0 k v (Ret (True, []))" and ?g = "allkeys_prog [0..<BUCKET_COUNT] []"
  let ?t = "\<lambda>hs bd. \<lparr>to_lock = [], held = hs, started = True, body = bd\<rparr>"
  have "\<forall>l\<in>set [(0, LExclusive)]. \<forall>l'\<in>set []. \<not> conflict l l'" by simp
  from spawn_two_acquire[OF this, of ?f ?g "buckets db"]
  have "steps (spawn db [CallPut \<lparr>put_key = k, put_value = v\<rparr>, CallAllKeys])
      ([?t [(0, LExclusive)] ?f, ?t [] ?g], buckets db)"
    by (simp add: spawn_def k)
  also have "step \<dots> ([?t [(0, LExclusive)] ?w, ?t [] ?g], buckets db)"
    using step.Read[of 0 "[?t [(0, LExclusive)] ?f, ?t [] ?g]" 0 "\<lambda>items. WrB 0 (insert_item items k v) (Ret (True, []))" "buckets db"]
    by (simp add: insert_prog_def)
  finally show "\<exists>s. steps (spawn db [CallPut \<lparr>put_key = k, put_value = v\<rparr>, CallAllKeys]) s \<and> race s"
    by (intro exI conjI, assumption) (rule race_pair, auto simp: BUCKET_COUNT_def upt_conv_Cons)
qed

theorem multiput_leaves_bucket_0_unlocked_witness:
  "\<exists>s. steps (spawn (db_init (\<lambda>k. 0)) [CallMultiPut \<lparr>multiput_keys = [''k''], multiput_values = [''v'']\<rparr>,
      CallGet \<lparr>get_key = ''k''\<rparr>]) s \<and> race s"
  using multiput_leaves_bucket_0_unlocked[of "db_init (\<lambda>k. 0)" _ "''k''" "''v''"]
  by (simp add: bucket_def db_init_def)

end
