(* ===== verification/Net_Wire.thy ===== *)
theory Net_Wire
  imports Kv_Commands
begin

text \<open>
  The wire format of requests and responses: \<open>net/network_messages.cpp\<close> and the part of the
  serialiser \<open>common/zpp_bits.hpp\<close> it instantiates. A \<open>std::string\<close>, \<open>std::vector\<close> or \<open>std::map\<close> is
  its size as a little-endian 32 bit integer followed by its elements, a struct is its members in
  order, and a struct without members is nothing. Reading fails when the buffer is too short, and
  ignores what is left of the buffer at the end.
\<close>

section \<open>Codecs\<close>

text \<open>
  A decoder takes the rest of the buffer and gives the value and what is left, or fails. The laws of
  a codec: decoding gives back what was encoded and stops where the encoding ends; and a decoder
  looks at nothing behind what it consumes.
\<close>

type_synonym 'a decoder = "bytes \<Rightarrow> ('a \<times> bytes) option"

fun dec_bind :: "('a \<times> bytes) option \<Rightarrow> ('a \<Rightarrow> 'b decoder) \<Rightarrow> ('b \<times> bytes) option" where
  "dec_bind None f = None"
| "dec_bind (Some (x, rest)) f = f x rest"

lemma dec_bind_Some: "dec_bind m f = Some z \<longleftrightarrow> (\<exists>x r. m = Some (x, r) \<and> f x r = Some z)"
  by (cases m) auto

definition reads_local :: "'a decoder \<Rightarrow> bool" where
  "reads_local d \<longleftrightarrow> (\<forall>bs x rest extra. d bs = Some (x, rest) \<longrightarrow> d (bs @ extra) = Some (x, rest @ extra))"

named_theorems local_intros \<open>decoders that look at nothing behind what they consume\<close>

lemma reads_localD: "reads_local d \<Longrightarrow> d bs = Some (x, rest) \<Longrightarrow> d (bs @ extra) = Some (x, rest @ extra)"
  by (simp add: reads_local_def)

lemma local_ret [local_intros]: "reads_local (\<lambda>bs. Some (x, bs))"
  by (simp add: reads_local_def)

lemma local_bind [local_intros]:
  assumes "reads_local d" "\<And>x. reads_local (f x)"
  shows "reads_local (\<lambda>bs. dec_bind (d bs) (\<lambda>x bs. f x bs))"
  unfolding reads_local_def
proof (intro allI impI)
  fix bs y rest extra
  assume "dec_bind (d bs) (\<lambda>x bs. f x bs) = Some (y, rest)"
  then obtain x r where x: "d bs = Some (x, r)" "f x r = Some (y, rest)"
    by (auto simp: dec_bind_Some)
  show "dec_bind (d (bs @ extra)) (\<lambda>x bs. f x bs) = Some (y, rest @ extra)"
    using reads_localD[OF assms(1) x(1)] reads_localD[OF assms(2) x(2)] by simp
qed

text \<open>The loop that reads \<open>n\<close> elements.\<close>

fun in_many :: "'a decoder \<Rightarrow> nat \<Rightarrow> 'a list decoder" where
  "in_many d 0 bs = Some ([], bs)"
| "in_many d (Suc n) bs = dec_bind (d bs) (\<lambda>x bs. dec_bind (in_many d n bs) (\<lambda>xs bs. Some (x # xs, bs)))"

locale codec =
  fixes out :: "'a \<Rightarrow> bytes" and inp :: "'a decoder" and ok :: "'a \<Rightarrow> bool"
  assumes round: "ok x \<Longrightarrow> inp (out x @ rest) = Some (x, rest)"
    and reads_local [local_intros]: "reads_local inp"
begin

lemma round_all: "ok x \<Longrightarrow> inp (out x) = Some (x, [])"
  using round[of x "[]"] by simp

text \<open>No proper prefix of an encoding decodes.\<close>

lemma prefix_fails:
  assumes "ok x" "n < length (out x)"
  shows "inp (take n (out x)) = None"
proof (rule ccontr)
  assume "inp (take n (out x)) \<noteq> None"
  then obtain y r where "inp (take n (out x)) = Some (y, r)" by fastforce
  from reads_localD[OF reads_local this, of "drop n (out x)"] round_all[OF assms(1)]
  have "r @ drop n (out x) = []" by auto
  then show False using assms(2) by simp
qed

lemma out_inj: "ok x \<Longrightarrow> ok y \<Longrightarrow> out x = out y \<Longrightarrow> x = y"
  using round_all by (metis option.inject Pair_inject)

lemma many_round:
  "\<forall>x\<in>set xs. ok x \<Longrightarrow> in_many inp (length xs) (concat (map out xs) @ rest) = Some (xs, rest)"
  by (induction xs) (auto simp: round)

lemma many_local [local_intros]: "reads_local (in_many inp n)"
proof (induction n)
  case 0
  show ?case by (simp add: reads_local_def)
next
  case (Suc n)
  have "reads_local (\<lambda>bs. dec_bind (inp bs) (\<lambda>x bs. dec_bind (in_many inp n bs) (\<lambda>xs bs. Some (x # xs, bs))))"
    by (intro local_intros Suc)
  then show ?case by (simp only: reads_local_def in_many.simps)
qed

end

section \<open>Sizes and elements\<close>

text \<open>A \<open>uint32_t\<close> is copied as it lies in memory, least significant byte first.\<close>

definition out_u32 :: "u32 \<Rightarrow> bytes" where
  "out_u32 w = map (\<lambda>i. ucast (drop_bit (8 * i) w)) [0, 1, 2, 3]"

fun in_u32 :: "u32 decoder" where
  "in_u32 (a # b # c # d # rest) =
     Some (ucast a OR push_bit 8 (ucast b) OR push_bit 16 (ucast c) OR push_bit 24 (ucast d), rest)"
| "in_u32 _ = None"

text \<open>\<open>static_cast<SizeType>(container.size())\<close> keeps the low 32 bits of the size.\<close>

definition out_size :: "nat \<Rightarrow> bytes" where
  "out_size n = out_u32 (of_nat n)"

definition in_size :: "nat decoder" where
  "in_size bs = dec_bind (in_u32 bs) (\<lambda>w bs. Some (unat w, bs))"

definition size_ok :: "nat \<Rightarrow> bool" where
  "size_ok n \<longleftrightarrow> n < 2 ^ 32"

definition byte_of_char :: "char \<Rightarrow> u8" where
  "byte_of_char c = of_nat (of_char c)"

definition char_of_byte :: "u8 \<Rightarrow> char" where
  "char_of_byte b = char_of (unat b)"

definition out_string :: "string \<Rightarrow> bytes" where
  "out_string s = out_size (length s) @ map byte_of_char s"

definition in_string :: "string decoder" where
  "in_string bs = dec_bind (in_size bs) (\<lambda>n bs.
     if n > length bs then None
     else Some (map char_of_byte (take n bs), drop n bs))"

definition string_ok :: "string \<Rightarrow> bool" where
  "string_ok s \<longleftrightarrow> size_ok (length s)"

definition out_vector :: "('a \<Rightarrow> bytes) \<Rightarrow> 'a list \<Rightarrow> bytes" where
  "out_vector f xs = out_size (length xs) @ concat (map f xs)"

definition in_vector :: "'a decoder \<Rightarrow> 'a list decoder" where
  "in_vector d bs = dec_bind (in_size bs) (\<lambda>n bs. in_many d n bs)"

definition vector_ok :: "('a \<Rightarrow> bool) \<Rightarrow> 'a list \<Rightarrow> bool" where
  "vector_ok P xs \<longleftrightarrow> size_ok (length xs) \<and> (\<forall>x\<in>set xs. P x)"

lemma u32_bytes:
  "(ucast (ucast (w :: u32) :: u8) :: u32) OR push_bit 8 (ucast (ucast (drop_bit 8 w) :: u8))
     OR push_bit 16 (ucast (ucast (drop_bit 16 w) :: u8))
     OR push_bit 24 (ucast (ucast (drop_bit 24 w) :: u8)) = w"
proof (rule bit_word_eqI)
  fix n assume "n < LENGTH(32)"
  then have "n < 8 \<or> 8 \<le> n \<and> n < 16 \<or> 16 \<le> n \<and> n < 24 \<or> 24 \<le> n \<and> n < 32" by auto
  then show "bit ((ucast (ucast w :: u8) :: u32) OR push_bit 8 (ucast (ucast (drop_bit 8 w) :: u8))
     OR push_bit 16 (ucast (ucast (drop_bit 16 w) :: u8))
     OR push_bit 24 (ucast (ucast (drop_bit 24 w) :: u8))) n = bit w n"
    by (elim disjE) (auto simp: bit_simps)
qed

lemma in_out_u32 [simp]: "in_u32 (out_u32 w @ rest) = Some (w, rest)"
  using u32_bytes[of w] by (simp add: out_u32_def)

lemma in_u32_local: "reads_local in_u32"
  unfolding reads_local_def
proof (intro allI impI)
  fix bs x rest extra
  assume "in_u32 bs = Some (x, rest)"
  then show "in_u32 (bs @ extra) = Some (x, rest @ extra)" by (cases bs rule: in_u32.cases) auto
qed

interpretation u32: codec out_u32 in_u32 "\<lambda>_. True"
  by unfold_locales (simp_all add: in_u32_local)

interpretation size_c: codec out_size in_size size_ok
proof
  fix n :: nat and rest :: bytes
  assume "size_ok n"
  then show "in_size (out_size n @ rest) = Some (n, rest)"
    by (simp add: in_size_def out_size_def size_ok_def unat_of_nat)
next
  show "reads_local in_size"
    unfolding in_size_def [abs_def] by (intro local_intros u32.reads_local)
qed

lemma char_of_byte_of_char [simp]: "char_of_byte (byte_of_char c) = c"
  by (simp add: char_of_byte_def byte_of_char_def unat_of_nat)

interpretation string_c: codec out_string in_string string_ok
proof
  fix s :: string and rest :: bytes
  assume "string_ok s"
  then show "in_string (out_string s @ rest) = Some (s, rest)"
    by (simp add: in_string_def out_string_def string_ok_def size_c.round comp_def)
next
  have "reads_local (\<lambda>bs. if n > length bs then None
     else Some (map char_of_byte (take n bs), drop n bs))" for n
    by (simp add: reads_local_def)
  then show "reads_local in_string"
    unfolding in_string_def [abs_def] by (intro local_intros size_c.reads_local)
qed

context codec
begin

lemma vector_round: "vector_ok ok xs \<Longrightarrow> in_vector inp (out_vector out xs @ rest) = Some (xs, rest)"
  by (simp add: vector_ok_def in_vector_def out_vector_def size_c.round many_round)

lemma vector_local: "reads_local (in_vector inp)"
  unfolding in_vector_def [abs_def] by (intro local_intros size_c.reads_local)

end

interpretation strings_c: codec "out_vector out_string" "in_vector in_string" "vector_ok string_ok"
  by unfold_locales (simp_all add: string_c.vector_round string_c.vector_local)

section \<open>Structs\<close>

definition out_Shard :: "Shard \<Rightarrow> bytes" where
  "out_Shard s = out_string (lower s) @ out_string (upper s)"

definition in_Shard :: "Shard decoder" where
  "in_Shard bs = dec_bind (in_string bs) (\<lambda>l bs. dec_bind (in_string bs) (\<lambda>u bs.
     Some (\<lparr>lower = l, upper = u\<rparr>, bs)))"

definition shard_fits :: "Shard \<Rightarrow> bool" where
  "shard_fits s \<longleftrightarrow> string_ok (lower s) \<and> string_ok (upper s)"

interpretation shard_c: codec out_Shard in_Shard shard_fits
proof
  fix s :: Shard and rest :: bytes
  assume "shard_fits s"
  then show "in_Shard (out_Shard s @ rest) = Some (s, rest)"
    by (simp add: in_Shard_def out_Shard_def shard_fits_def string_c.round)
next
  show "reads_local in_Shard"
    unfolding in_Shard_def [abs_def] by (intro local_intros string_c.reads_local)
qed

interpretation shards_c: codec "out_vector out_Shard" "in_vector in_Shard" "vector_ok shard_fits"
  by unfold_locales (simp_all add: shard_c.vector_round shard_c.vector_local)

text \<open>
  The elements of a \<open>std::map\<close> are key and value; reading inserts them one by one into an empty
  map, where the first value of a key stays.
\<close>

definition out_entry :: "string \<times> Shard list \<Rightarrow> bytes" where
  "out_entry e = out_string (fst e) @ out_vector out_Shard (snd e)"

definition in_entry :: "(string \<times> Shard list) decoder" where
  "in_entry bs = dec_bind (in_string bs) (\<lambda>k bs. dec_bind (in_vector in_Shard bs) (\<lambda>v bs.
     Some ((k, v), bs)))"

definition entry_fits :: "string \<times> Shard list \<Rightarrow> bool" where
  "entry_fits e \<longleftrightarrow> string_ok (fst e) \<and> vector_ok shard_fits (snd e)"

interpretation entry_c: codec out_entry in_entry entry_fits
proof
  fix e :: "string \<times> Shard list" and rest :: bytes
  assume "entry_fits e"
  then show "in_entry (out_entry e @ rest) = Some (e, rest)"
    by (simp add: in_entry_def out_entry_def entry_fits_def string_c.round shards_c.round)
next
  show "reads_local in_entry"
    unfolding in_entry_def [abs_def]
    by (intro local_intros string_c.reads_local shards_c.reads_local)
qed

definition om_insert :: "string \<times> 'v \<Rightarrow> (string, 'v) omap \<Rightarrow> (string, 'v) omap" where
  "om_insert e m = (if om_find m (fst e) = None then om_put (fst e) (snd e) m else m)"

definition out_Config :: "ShardControllerConfig \<Rightarrow> bytes" where
  "out_Config c = out_vector out_entry (server_to_shards c)"

definition in_Config :: "ShardControllerConfig decoder" where
  "in_Config bs = dec_bind (in_vector in_entry bs) (\<lambda>es bs.
     Some (\<lparr>server_to_shards = fold om_insert es []\<rparr>, bs))"

definition config_fits :: "ShardControllerConfig \<Rightarrow> bool" where
  "config_fits c \<longleftrightarrow> config_wf c \<and> vector_ok entry_fits (server_to_shards c)"

lemma om_put_last: "\<forall>x\<in>set (map fst m). x < k \<Longrightarrow> om_put k v m = m @ [(k, v)]"
  by (induction m) auto

lemma fold_om_insert:
  "om_wf (m @ es) \<Longrightarrow> fold om_insert es m = m @ es"
proof (induction es arbitrary: m)
  case Nil
  then show ?case by simp
next
  case (Cons e es)
  have lt: "\<forall>x\<in>set (map fst m). x < fst e"
    using Cons.prems by (auto simp: om_wf_def sorted_wrt_append)
  then have "om_find m (fst e) = None"
    by (auto simp: om_find_def map_of_eq_None_iff)
  then have "om_insert e m = m @ [e]"
    using om_put_last[OF lt, of "snd e"] by (simp add: om_insert_def)
  moreover have "om_wf ((m @ [e]) @ es)" using Cons.prems by simp
  ultimately show ?case using Cons.IH by simp
qed

interpretation config_c: codec out_Config in_Config config_fits
proof
  fix c :: ShardControllerConfig and rest :: bytes
  assume "config_fits c"
  then show "in_Config (out_Config c @ rest) = Some (c, rest)"
    using fold_om_insert[of "[]" "server_to_shards c"]
    by (simp add: in_Config_def out_Config_def config_fits_def config_wf_def entry_c.vector_round)
next
  show "reads_local in_Config"
    unfolding in_Config_def [abs_def] by (intro local_intros entry_c.vector_local)
qed

section \<open>Requests\<close>

definition out_GetRequest :: "GetRequest \<Rightarrow> bytes" where
  "out_GetRequest r = out_string (get_key r)"

definition in_GetRequest :: "GetRequest decoder" where
  "in_GetRequest bs = dec_bind (in_string bs) (\<lambda>k bs. Some (\<lparr>get_key = k\<rparr>, bs))"

definition out_PutRequest :: "PutRequest \<Rightarrow> bytes" where
  "out_PutRequest r = out_string (put_key r) @ out_string (put_value r)"

definition in_PutRequest :: "PutRequest decoder" where
  "in_PutRequest bs = dec_bind (in_string bs) (\<lambda>k bs. dec_bind (in_string bs) (\<lambda>v bs.
     Some (\<lparr>put_key = k, put_value = v\<rparr>, bs)))"

definition out_AppendRequest :: "AppendRequest \<Rightarrow> bytes" where
  "out_AppendRequest r = out_string (append_key r) @ out_string (append_value r)"

definition in_AppendRequest :: "AppendRequest decoder" where
  "in_AppendRequest bs = dec_bind (in_string bs) (\<lambda>k bs. dec_bind (in_string bs) (\<lambda>v bs.
     Some (\<lparr>append_key = k, append_value = v\<rparr>, bs)))"

definition out_DeleteRequest :: "DeleteRequest \<Rightarrow> bytes" where
  "out_DeleteRequest r = out_string (delete_key r)"

definition in_DeleteRequest :: "DeleteRequest decoder" where
  "in_DeleteRequest bs = dec_bind (in_string bs) (\<lambda>k bs. Some (\<lparr>delete_key = k\<rparr>, bs))"

definition out_MultiGetRequest :: "MultiGetRequest \<Rightarrow> bytes" where
  "out_MultiGetRequest r = out_vector out_string (multiget_keys r)"

definition in_MultiGetRequest :: "MultiGetRequest decoder" where
  "in_MultiGetRequest bs = dec_bind (in_vector in_string bs) (\<lambda>ks bs. Some (\<lparr>multiget_keys = ks\<rparr>, bs))"

definition out_MultiPutRequest :: "MultiPutRequest \<Rightarrow> bytes" where
  "out_MultiPutRequest r =
     out_vector out_string (multiput_keys r) @ out_vector out_string (multiput_values r)"

definition in_MultiPutRequest :: "MultiPutRequest decoder" where
  "in_MultiPutRequest bs = dec_bind (in_vector in_string bs) (\<lambda>ks bs.
     dec_bind (in_vector in_string bs) (\<lambda>vs bs.
     Some (\<lparr>multiput_keys = ks, multiput_values = vs\<rparr>, bs)))"

definition out_JoinRequest :: "JoinRequest \<Rightarrow> bytes" where
  "out_JoinRequest r = out_string (join_server r)"

definition in_JoinRequest :: "JoinRequest decoder" where
  "in_JoinRequest bs = dec_bind (in_string bs) (\<lambda>s bs. Some (\<lparr>join_server = s\<rparr>, bs))"

definition out_LeaveRequest :: "LeaveRequest \<Rightarrow> bytes" where
  "out_LeaveRequest r = out_string (leave_server r)"

definition in_LeaveRequest :: "LeaveRequest decoder" where
  "in_LeaveRequest bs = dec_bind (in_string bs) (\<lambda>s bs. Some (\<lparr>leave_server = s\<rparr>, bs))"

definition out_MoveRequest :: "MoveRequest \<Rightarrow> bytes" where
  "out_MoveRequest r = out_string (move_server r) @ out_vector out_Shard (move_shards r)"

definition in_MoveRequest :: "MoveRequest decoder" where
  "in_MoveRequest bs = dec_bind (in_string bs) (\<lambda>s bs. dec_bind (in_vector in_Shard bs) (\<lambda>ss bs.
     Some (\<lparr>move_server = s, move_shards = ss\<rparr>, bs)))"

text \<open>
  \<open>serialize_request\<close> writes the request into the buffer of a fresh message, whose type names the
  variant, and sets the size. Writing into a growing buffer does not fail.
\<close>

fun request_type :: "Request \<Rightarrow> MessageType" where
  "request_type (JoinReq r) = JOIN"
| "request_type (LeaveReq r) = LEAVE"
| "request_type (MoveReq r) = MOVE"
| "request_type (QueryReq r) = QUERY"
| "request_type (GetReq r) = GET"
| "request_type (PutReq r) = PUT"
| "request_type (AppendReq r) = APPEND"
| "request_type (DeleteReq r) = DELETE"
| "request_type (MultiGetReq r) = MULTI_GET"
| "request_type (MultiPutReq r) = MULTI_PUT"

fun request_body :: "Request \<Rightarrow> bytes" where
  "request_body (JoinReq r) = out_JoinRequest r"
| "request_body (LeaveReq r) = out_LeaveRequest r"
| "request_body (MoveReq r) = out_MoveRequest r"
| "request_body (QueryReq r) = []"
| "request_body (GetReq r) = out_GetRequest r"
| "request_body (PutReq r) = out_PutRequest r"
| "request_body (AppendReq r) = out_AppendRequest r"
| "request_body (DeleteReq r) = out_DeleteRequest r"
| "request_body (MultiGetReq r) = out_MultiGetRequest r"
| "request_body (MultiPutReq r) = out_MultiPutRequest r"

definition serialize_request :: "Request \<Rightarrow> Message option result" where
  "serialize_request r =
     (let b = request_body r
      in Inr (Some \<lparr>type = type_code (request_type r), sz = of_nat (length b), buf = b\<rparr>))"

definition decoded :: "('a \<Rightarrow> 'b) \<Rightarrow> ('a \<times> bytes) option \<Rightarrow> 'b option result" where
  "decoded C m = Inr (map_option (\<lambda>(x, rest). C x) m)"

definition deserialize_request :: "Message \<Rightarrow> Request option result" where
  "deserialize_request m =
     (if type m = type_code JOIN then decoded JoinReq (in_JoinRequest (buf m))
      else if type m = type_code LEAVE then decoded LeaveReq (in_LeaveRequest (buf m))
      else if type m = type_code MOVE then decoded MoveReq (in_MoveRequest (buf m))
      else if type m = type_code QUERY then decoded QueryReq (Some (QueryRequest, buf m))
      else if type m = type_code GET then decoded GetReq (in_GetRequest (buf m))
      else if type m = type_code PUT then decoded PutReq (in_PutRequest (buf m))
      else if type m = type_code APPEND then decoded AppendReq (in_AppendRequest (buf m))
      else if type m = type_code DELETE then decoded DeleteReq (in_DeleteRequest (buf m))
      else if type m = type_code MULTI_GET then decoded MultiGetReq (in_MultiGetRequest (buf m))
      else if type m = type_code MULTI_PUT then decoded MultiPutReq (in_MultiPutRequest (buf m))
      else Inl (LogicError ''Invalid message type!''))"

section \<open>Responses\<close>

definition out_GetResponse :: "GetResponse \<Rightarrow> bytes" where
  "out_GetResponse r = out_string (get_res_value r)"

definition in_GetResponse :: "GetResponse decoder" where
  "in_GetResponse bs = dec_bind (in_string bs) (\<lambda>v bs. Some (\<lparr>get_res_value = v\<rparr>, bs))"

definition out_DeleteResponse :: "DeleteResponse \<Rightarrow> bytes" where
  "out_DeleteResponse r = out_string (delete_res_value r)"

definition in_DeleteResponse :: "DeleteResponse decoder" where
  "in_DeleteResponse bs = dec_bind (in_string bs) (\<lambda>v bs. Some (\<lparr>delete_res_value = v\<rparr>, bs))"

definition out_MultiGetResponse :: "MultiGetResponse \<Rightarrow> bytes" where
  "out_MultiGetResponse r = out_vector out_string (multiget_res_values r)"

definition in_MultiGetResponse :: "MultiGetResponse decoder" where
  "in_MultiGetResponse bs = dec_bind (in_vector in_string bs) (\<lambda>vs bs.
     Some (\<lparr>multiget_res_values = vs\<rparr>, bs))"

definition out_QueryResponse :: "QueryResponse \<Rightarrow> bytes" where
  "out_QueryResponse r = out_Config (query_config r)"

definition in_QueryResponse :: "QueryResponse decoder" where
  "in_QueryResponse bs = dec_bind (in_Config bs) (\<lambda>c bs. Some (\<lparr>query_config = c\<rparr>, bs))"

definition out_ErrorResponse :: "ErrorResponse \<Rightarrow> bytes" where
  "out_ErrorResponse r = out_string (error_msg r)"

definition in_ErrorResponse :: "ErrorResponse decoder" where
  "in_ErrorResponse bs = dec_bind (in_string bs) (\<lambda>s bs. Some (\<lparr>error_msg = s\<rparr>, bs))"

fun response_type :: "Response \<Rightarrow> MessageType" where
  "response_type (JoinRes r) = JOIN"
| "response_type (LeaveRes r) = LEAVE"
| "response_type (MoveRes r) = MOVE"
| "response_type (QueryRes r) = QUERY"
| "response_type (GetRes r) = GET"
| "response_type (PutRes r) = PUT"
| "response_type (AppendRes r) = APPEND"
| "response_type (DeleteRes r) = DELETE"
| "response_type (MultiGetRes r) = MULTI_GET"
| "response_type (MultiPutRes r) = MULTI_PUT"
| "response_type (ErrorRes r) = ERROR"

fun response_body :: "Response \<Rightarrow> bytes" where
  "response_body (JoinRes r) = []"
| "response_body (LeaveRes r) = []"
| "response_body (MoveRes r) = []"
| "response_body (QueryRes r) = out_QueryResponse r"
| "response_body (GetRes r) = out_GetResponse r"
| "response_body (PutRes r) = []"
| "response_body (AppendRes r) = []"
| "response_body (DeleteRes r) = out_DeleteResponse r"
| "response_body (MultiGetRes r) = out_MultiGetResponse r"
| "response_body (MultiPutRes r) = []"
| "response_body (ErrorRes r) = out_ErrorResponse r"

definition serialize_response :: "Response \<Rightarrow> Message option result" where
  "serialize_response r =
     (let b = response_body r
      in Inr (Some \<lparr>type = type_code (response_type r), sz = of_nat (length b), buf = b\<rparr>))"

definition deserialize_response :: "Message \<Rightarrow> Response option result" where
  "deserialize_response m =
     (if type m = type_code JOIN then decoded JoinRes (Some (JoinResponse, buf m))
      else if type m = type_code LEAVE then decoded LeaveRes (Some (LeaveResponse, buf m))
      else if type m = type_code MOVE then decoded MoveRes (Some (MoveResponse, buf m))
      else if type m = type_code QUERY then decoded QueryRes (in_QueryResponse (buf m))
      else if type m = type_code GET then decoded GetRes (in_GetResponse (buf m))
      else if type m = type_code PUT then decoded PutRes (Some (PutResponse, buf m))
      else if type m = type_code APPEND then decoded AppendRes (Some (AppendResponse, buf m))
      else if type m = type_code DELETE then decoded DeleteRes (in_DeleteResponse (buf m))
      else if type m = type_code MULTI_GET then decoded MultiGetRes (in_MultiGetResponse (buf m))
      else if type m = type_code MULTI_PUT then decoded MultiPutRes (Some (MultiPutResponse, buf m))
      else if type m = type_code ERROR then decoded ErrorRes (in_ErrorResponse (buf m))
      else Inl (LogicError ''Invalid message type!''))"

section \<open>The codecs of the requests and responses\<close>

interpretation getRequest_c: codec out_GetRequest in_GetRequest "\<lambda>r. string_ok (get_key r)"
proof
  show "reads_local in_GetRequest"
    unfolding in_GetRequest_def [abs_def] by (intro local_intros string_c.reads_local)
qed (simp add: in_GetRequest_def out_GetRequest_def string_c.round)

interpretation putRequest_c: codec out_PutRequest in_PutRequest "\<lambda>r. string_ok (put_key r) \<and> string_ok (put_value r)"
proof
  show "reads_local in_PutRequest"
    unfolding in_PutRequest_def [abs_def] by (intro local_intros string_c.reads_local)
qed (simp add: in_PutRequest_def out_PutRequest_def string_c.round)

interpretation appendRequest_c: codec out_AppendRequest in_AppendRequest "\<lambda>r. string_ok (append_key r) \<and> string_ok (append_value r)"
proof
  show "reads_local in_AppendRequest"
    unfolding in_AppendRequest_def [abs_def] by (intro local_intros string_c.reads_local)
qed (simp add: in_AppendRequest_def out_AppendRequest_def string_c.round)

interpretation deleteRequest_c: codec out_DeleteRequest in_DeleteRequest "\<lambda>r. string_ok (delete_key r)"
proof
  show "reads_local in_DeleteRequest"
    unfolding in_DeleteRequest_def [abs_def] by (intro local_intros string_c.reads_local)
qed (simp add: in_DeleteRequest_def out_DeleteRequest_def string_c.round)

interpretation multiGetRequest_c: codec out_MultiGetRequest in_MultiGetRequest "\<lambda>r. vector_ok string_ok (multiget_keys r)"
proof
  show "reads_local in_MultiGetRequest"
    unfolding in_MultiGetRequest_def [abs_def] by (intro local_intros strings_c.reads_local)
qed (simp add: in_MultiGetRequest_def out_MultiGetRequest_def strings_c.round)

interpretation multiPutRequest_c: codec out_MultiPutRequest in_MultiPutRequest "\<lambda>r. vector_ok string_ok (multiput_keys r) \<and> vector_ok string_ok (multiput_values r)"
proof
  show "reads_local in_MultiPutRequest"
    unfolding in_MultiPutRequest_def [abs_def] by (intro local_intros strings_c.reads_local)
qed (simp add: in_MultiPutRequest_def out_MultiPutRequest_def strings_c.round)

interpretation joinRequest_c: codec out_JoinRequest in_JoinRequest "\<lambda>r. string_ok (join_server r)"
proof
  show "reads_local in_JoinRequest"
    unfolding in_JoinRequest_def [abs_def] by (intro local_intros string_c.reads_local)
qed (simp add: in_JoinRequest_def out_JoinRequest_def string_c.round)

interpretation leaveRequest_c: codec out_LeaveRequest in_LeaveRequest "\<lambda>r. string_ok (leave_server r)"
proof
  show "reads_local in_LeaveRequest"
    unfolding in_LeaveRequest_def [abs_def] by (intro local_intros string_c.reads_local)
qed (simp add: in_LeaveRequest_def out_LeaveRequest_def string_c.round)

interpretation moveRequest_c: codec out_MoveRequest in_MoveRequest "\<lambda>r. string_ok (move_server r) \<and> vector_ok shard_fits (move_shards r)"
proof
  show "reads_local in_MoveRequest"
    unfolding in_MoveRequest_def [abs_def] by (intro local_intros shards_c.reads_local string_c.reads_local)
qed (simp add: in_MoveRequest_def out_MoveRequest_def shards_c.round string_c.round)

interpretation getResponse_c: codec out_GetResponse in_GetResponse "\<lambda>r. string_ok (get_res_value r)"
proof
  show "reads_local in_GetResponse"
    unfolding in_GetResponse_def [abs_def] by (intro local_intros string_c.reads_local)
qed (simp add: in_GetResponse_def out_GetResponse_def string_c.round)

interpretation deleteResponse_c: codec out_DeleteResponse in_DeleteResponse "\<lambda>r. string_ok (delete_res_value r)"
proof
  show "reads_local in_DeleteResponse"
    unfolding in_DeleteResponse_def [abs_def] by (intro local_intros string_c.reads_local)
qed (simp add: in_DeleteResponse_def out_DeleteResponse_def string_c.round)

interpretation multiGetResponse_c: codec out_MultiGetResponse in_MultiGetResponse "\<lambda>r. vector_ok string_ok (multiget_res_values r)"
proof
  show "reads_local in_MultiGetResponse"
    unfolding in_MultiGetResponse_def [abs_def] by (intro local_intros strings_c.reads_local)
qed (simp add: in_MultiGetResponse_def out_MultiGetResponse_def strings_c.round)

interpretation queryResponse_c: codec out_QueryResponse in_QueryResponse "\<lambda>r. config_fits (query_config r)"
proof
  show "reads_local in_QueryResponse"
    unfolding in_QueryResponse_def [abs_def] by (intro local_intros config_c.reads_local)
qed (simp add: in_QueryResponse_def out_QueryResponse_def config_c.round)

interpretation errorResponse_c: codec out_ErrorResponse in_ErrorResponse "\<lambda>r. string_ok (error_msg r)"
proof
  show "reads_local in_ErrorResponse"
    unfolding in_ErrorResponse_def [abs_def] by (intro local_intros string_c.reads_local)
qed (simp add: in_ErrorResponse_def out_ErrorResponse_def string_c.round)

text \<open>Every string and every list of a request is shorter than \<open>2 ^ 32\<close>.\<close>

fun request_fits :: "Request \<Rightarrow> bool" where
  "request_fits (JoinReq r) \<longleftrightarrow> string_ok (join_server r)"
| "request_fits (LeaveReq r) \<longleftrightarrow> string_ok (leave_server r)"
| "request_fits (MoveReq r) \<longleftrightarrow> string_ok (move_server r) \<and> vector_ok shard_fits (move_shards r)"
| "request_fits (QueryReq r) \<longleftrightarrow> True"
| "request_fits (GetReq r) \<longleftrightarrow> string_ok (get_key r)"
| "request_fits (PutReq r) \<longleftrightarrow> string_ok (put_key r) \<and> string_ok (put_value r)"
| "request_fits (AppendReq r) \<longleftrightarrow> string_ok (append_key r) \<and> string_ok (append_value r)"
| "request_fits (DeleteReq r) \<longleftrightarrow> string_ok (delete_key r)"
| "request_fits (MultiGetReq r) \<longleftrightarrow> vector_ok string_ok (multiget_keys r)"
| "request_fits (MultiPutReq r) \<longleftrightarrow> vector_ok string_ok (multiput_keys r) \<and> vector_ok string_ok (multiput_values r)"

fun response_fits :: "Response \<Rightarrow> bool" where
  "response_fits (JoinRes r) \<longleftrightarrow> True"
| "response_fits (LeaveRes r) \<longleftrightarrow> True"
| "response_fits (MoveRes r) \<longleftrightarrow> True"
| "response_fits (QueryRes r) \<longleftrightarrow> config_fits (query_config r)"
| "response_fits (GetRes r) \<longleftrightarrow> string_ok (get_res_value r)"
| "response_fits (PutRes r) \<longleftrightarrow> True"
| "response_fits (AppendRes r) \<longleftrightarrow> True"
| "response_fits (DeleteRes r) \<longleftrightarrow> string_ok (delete_res_value r)"
| "response_fits (MultiGetRes r) \<longleftrightarrow> vector_ok string_ok (multiget_res_values r)"
| "response_fits (MultiPutRes r) \<longleftrightarrow> True"
| "response_fits (ErrorRes r) \<longleftrightarrow> string_ok (error_msg r)"

lemmas request_rounds = joinRequest_c.round_all leaveRequest_c.round_all moveRequest_c.round_all getRequest_c.round_all putRequest_c.round_all appendRequest_c.round_all deleteRequest_c.round_all multiGetRequest_c.round_all multiPutRequest_c.round_all

lemmas request_prefixes = joinRequest_c.prefix_fails leaveRequest_c.prefix_fails moveRequest_c.prefix_fails getRequest_c.prefix_fails putRequest_c.prefix_fails appendRequest_c.prefix_fails deleteRequest_c.prefix_fails multiGetRequest_c.prefix_fails multiPutRequest_c.prefix_fails

lemmas response_rounds = queryResponse_c.round_all getResponse_c.round_all deleteResponse_c.round_all multiGetResponse_c.round_all errorResponse_c.round_all

lemmas response_prefixes = queryResponse_c.prefix_fails getResponse_c.prefix_fails deleteResponse_c.prefix_fails multiGetResponse_c.prefix_fails errorResponse_c.prefix_fails

lemma deserialize_request_body:
  assumes "request_fits r"
  shows "deserialize_request \<lparr>type = type_code (request_type r), sz = n, buf = request_body r\<rparr> = Inr (Some r)"
proof (cases r)
  case (QueryReq q)
  then show ?thesis by (cases q) (simp add: deserialize_request_def decoded_def)
qed (use assms in \<open>simp_all add: deserialize_request_def decoded_def request_rounds\<close>)

lemma deserialize_request_prefix:
  assumes "request_fits r" "k < length (request_body r)"
  shows "deserialize_request \<lparr>type = type_code (request_type r), sz = n, buf = take k (request_body r)\<rparr> = Inr None"
  using assms by (cases r) (simp_all add: deserialize_request_def decoded_def request_prefixes)

lemma deserialize_response_body:
  assumes "response_fits r"
  shows "deserialize_response \<lparr>type = type_code (response_type r), sz = n, buf = response_body r\<rparr> = Inr (Some r)"
proof (cases r)
  case (JoinRes q)
  then show ?thesis by (cases q) (simp add: deserialize_response_def decoded_def)
next
  case (LeaveRes q)
  then show ?thesis by (cases q) (simp add: deserialize_response_def decoded_def)
next
  case (MoveRes q)
  then show ?thesis by (cases q) (simp add: deserialize_response_def decoded_def)
next
  case (PutRes q)
  then show ?thesis by (cases q) (simp add: deserialize_response_def decoded_def)
next
  case (AppendRes q)
  then show ?thesis by (cases q) (simp add: deserialize_response_def decoded_def)
next
  case (MultiPutRes q)
  then show ?thesis by (cases q) (simp add: deserialize_response_def decoded_def)
qed (use assms in \<open>simp_all add: deserialize_response_def decoded_def response_rounds\<close>)

lemma deserialize_response_prefix:
  assumes "response_fits r" "k < length (response_body r)"
  shows "deserialize_response \<lparr>type = type_code (response_type r), sz = n, buf = take k (response_body r)\<rparr> = Inr None"
  using assms by (cases r) (simp_all add: deserialize_response_def decoded_def response_prefixes)

section \<open>Properties\<close>

text \<open>
  C11. Requests survive the wire: a request whose strings and lists are shorter than \<open>2 ^ 32\<close> is
  serialised into a message from which \<open>deserialize_request\<close> gives it back; a message of the same
  type whose buffer is any proper prefix of it is rejected, never read as another request.
\<close>

theorem request_roundtrip:
  assumes "request_fits r"
  shows "\<exists>m. serialize_request r = Inr (Some m) \<and> sz m = of_nat (length (buf m))
    \<and> deserialize_request m = Inr (Some r)
    \<and> (\<forall>n<length (buf m). deserialize_request (m\<lparr>buf := take n (buf m)\<rparr>) = Inr None)"
  using assms
  by (simp add: serialize_request_def Let_def deserialize_request_body deserialize_request_prefix)

theorem request_roundtrip_witness:
  "\<exists>m. serialize_request (PutReq \<lparr>put_key = ''k'', put_value = ''v1''\<rparr>) = Inr (Some m)
    \<and> deserialize_request m = Inr (Some (PutReq \<lparr>put_key = ''k'', put_value = ''v1''\<rparr>))"
  using request_roundtrip[of "PutReq \<lparr>put_key = ''k'', put_value = ''v1''\<rparr>"]
  by (auto simp: string_ok_def size_ok_def)

text \<open>
  C26. Responses survive the wire in the same way: the response comes back from the message it was
  serialised into, and no proper prefix of the buffer is accepted.
\<close>

theorem response_roundtrip:
  assumes "response_fits r"
  shows "\<exists>m. serialize_response r = Inr (Some m) \<and> sz m = of_nat (length (buf m))
    \<and> deserialize_response m = Inr (Some r)
    \<and> (\<forall>n<length (buf m). deserialize_response (m\<lparr>buf := take n (buf m)\<rparr>) = Inr None)"
  using assms
  by (simp add: serialize_response_def Let_def deserialize_response_body deserialize_response_prefix)

theorem response_roundtrip_witness:
  "\<exists>m. serialize_response (QueryRes \<lparr>query_config = \<lparr>server_to_shards =
        [(''a:1'', [\<lparr>lower = ''0'', upper = ''H''\<rparr>]), (''b:2'', [\<lparr>lower = ''I'', upper = ''Z''\<rparr>])]\<rparr>\<rparr>) = Inr (Some m)
    \<and> deserialize_response m = Inr (Some (QueryRes \<lparr>query_config = \<lparr>server_to_shards =
        [(''a:1'', [\<lparr>lower = ''0'', upper = ''H''\<rparr>]), (''b:2'', [\<lparr>lower = ''I'', upper = ''Z''\<rparr>])]\<rparr>\<rparr>))"
proof -
  have "response_fits (QueryRes \<lparr>query_config = \<lparr>server_to_shards =
        [(''a:1'', [\<lparr>lower = ''0'', upper = ''H''\<rparr>]), (''b:2'', [\<lparr>lower = ''I'', upper = ''Z''\<rparr>])]\<rparr>\<rparr>)"
    by (simp add: config_fits_def config_wf_def om_wf_def vector_ok_def entry_fits_def shard_fits_def
        string_ok_def size_ok_def less_char_def)
  from response_roundtrip[OF this] show ?thesis by blast
qed

end
