(* ===== verification/Net_Transport.thy ===== *)
theory Net_Transport
  imports Net_Wire
begin

text \<open>
  \<open>net/network_helpers.cpp\<close>, \<open>net/network_messages.cpp\<close> and \<open>net/network_conn.cpp\<close>: sending and
  receiving all bytes of a buffer over a socket, messages with their header, and connections.

  What the operating system does is a trace: each iteration of a loop consumes one event, the time
  elapsed since the loop began (in milliseconds) and what \<open>send\<close> or \<open>recv\<close> would return, so at most
  that many bytes go over the socket. A socket with no event left, and a \<open>recv\<close> on a stream with
  nothing to read, wait for ever (\<open>None\<close>).
\<close>

section \<open>sendall and recvall\<close>

record io_event =
  elapsed :: nat
  grant :: int

definition ETIMEOUT :: int where
  "ETIMEOUT = - 2"

text \<open>The byte counts are \<open>size_t\<close>, the functions return \<open>int\<close>.\<close>

definition to_int :: "nat \<Rightarrow> int" where
  "to_int n = sint (of_nat n :: u32)"

definition timed_out :: "nat \<Rightarrow> io_event \<Rightarrow> bool" where
  "timed_out timeout e \<longleftrightarrow> timeout > 0 \<and> elapsed e > timeout"

text \<open>
  \<open>sendall\<close>: the result, the bytes that went over the socket, and the events left. The argument
  \<open>data\<close> is what is left of the buffer, \<open>n_sent\<close> the count so far.
\<close>

fun sendall_loop :: "nat \<Rightarrow> nat \<Rightarrow> bytes \<Rightarrow> io_event list \<Rightarrow> (int \<times> bytes \<times> io_event list) option" where
  "sendall_loop timeout n_sent [] evs = Some (to_int n_sent, [], evs)"
| "sendall_loop timeout n_sent data [] = None"
| "sendall_loop timeout n_sent data (e # evs) =
     (if timed_out timeout e then Some (ETIMEOUT, [], evs)
      else if grant e \<le> 0 then Some (grant e, [], evs)
      else let cur = min (nat (grant e)) (length data)
           in (case sendall_loop timeout (n_sent + cur) (drop cur data) evs of
                 None \<Rightarrow> None
               | Some (r, wire, evs) \<Rightarrow> Some (r, take cur data @ wire, evs)))"

definition sendall :: "bytes \<Rightarrow> nat \<Rightarrow> io_event list \<Rightarrow> (int \<times> bytes \<times> io_event list) option" where
  "sendall data timeout evs = sendall_loop timeout 0 data evs"

text \<open>
  \<open>recvall\<close>: the result, the bytes received, what is left of the stream, and the events left.
\<close>

fun recvall_loop ::
  "nat \<Rightarrow> nat \<Rightarrow> bytes \<Rightarrow> bytes \<Rightarrow> io_event list
    \<Rightarrow> (int \<times> bytes \<times> bytes \<times> io_event list) option" where
  "recvall_loop timeout n_to_recv got strm [] =
     (if length got < n_to_recv then None else Some (to_int (length got), got, strm, []))"
| "recvall_loop timeout n_to_recv got strm (e # evs) =
     (if \<not> length got < n_to_recv then Some (to_int (length got), got, strm, e # evs)
      else if timed_out timeout e then Some (ETIMEOUT, got, strm, evs)
      else if grant e \<le> 0 then Some (grant e, got, strm, evs)
      else let cur = min (min (nat (grant e)) (n_to_recv - length got)) (length strm)
           in if cur = 0 then None
              else recvall_loop timeout n_to_recv (got @ take cur strm) (drop cur strm) evs)"

definition recvall ::
  "nat \<Rightarrow> nat \<Rightarrow> bytes \<Rightarrow> io_event list \<Rightarrow> (int \<times> bytes \<times> bytes \<times> io_event list) option" where
  "recvall len timeout strm evs = recvall_loop timeout len [] strm evs"

section \<open>Messages\<close>

text \<open>
  \<open>htonl\<close> takes and gives 32 bits, so it keeps the low half of the size; the eight bytes of the
  \<open>size_t\<close> it is assigned to lie in memory least significant first.
\<close>

definition bswap32 :: "u32 \<Rightarrow> u32" where
  "bswap32 w = push_bit 24 (w AND 0xFF) OR push_bit 8 (w AND 0xFF00)
     OR (drop_bit 8 w AND 0xFF00) OR (drop_bit 24 w AND 0xFF)"

definition htonl :: "u64 \<Rightarrow> u64" where
  "htonl n = ucast (bswap32 (ucast n))"

definition out_u64 :: "u64 \<Rightarrow> bytes" where
  "out_u64 w = map (\<lambda>i. ucast (drop_bit (8 * i) w)) [0, 1, 2, 3, 4, 5, 6, 7]"

definition in_u64 :: "bytes \<Rightarrow> u64" where
  "in_u64 bs = fold (\<lambda>i w. w OR push_bit (8 * i) (ucast (bs ! i))) [0, 1, 2, 3, 4, 5, 6, 7] 0"

text \<open>The type and the size are sent without a timeout, the buffer with one.\<close>

definition send_message ::
  "Message \<Rightarrow> nat \<Rightarrow> io_event list \<Rightarrow> (bool \<times> bytes \<times> io_event list) option result" where
  "send_message msg timeout evs =
     res_bind (assert_r (timeout > 0) ''timeout > 0ms'') (\<lambda>_.
     res_bind (assert_r (sz msg = of_nat (length (buf msg))) ''msg->sz == msg->buf.size()'') (\<lambda>_.
     case sendall (out_u32 (type msg)) 0 evs of None \<Rightarrow> Inr None
     | Some (cur, w1, evs) \<Rightarrow>
       if cur < 0 then Inr (Some (False, w1, evs))
       else res_bind (assert_r (cur = 4) ''curr == sizeof(msg->type)'') (\<lambda>_.
       case sendall (out_u64 (htonl (sz msg))) 0 evs of None \<Rightarrow> Inr None
       | Some (cur, w2, evs) \<Rightarrow>
         if cur < 0 then Inr (Some (False, w1 @ w2, evs))
         else res_bind (assert_r (cur = 8) ''curr == sizeof(size_nbo)'') (\<lambda>_.
         if sz msg > 0 then
           (case sendall (buf msg) timeout evs of None \<Rightarrow> Inr None
            | Some (cur, w3, evs) \<Rightarrow>
              if cur < 0 then Inr (Some (False, w1 @ w2 @ w3, evs))
              else res_bind (assert_r ((of_int cur :: u64) = sz msg) ''size_t(curr) == msg->sz'') (\<lambda>_.
                Inr (Some (True, w1 @ w2 @ w3, evs))))
         else Inr (Some (True, w1 @ w2, evs))))))"

text \<open>\<open>recv_message\<close> writes the message it is given; on failure the fields it has read are set.\<close>

definition recv_message ::
  "Message \<Rightarrow> nat \<Rightarrow> bytes \<Rightarrow> io_event list
    \<Rightarrow> (bool \<times> Message \<times> bytes \<times> io_event list) option result" where
  "recv_message msg timeout strm evs =
     res_bind (assert_r (timeout > 0) ''timeout > 0ms'') (\<lambda>_.
     case recvall 4 0 strm evs of None \<Rightarrow> Inr None
     | Some (cur, got, strm, evs) \<Rightarrow>
       if cur \<le> 0 then Inr (Some (False, msg, strm, evs))
       else res_bind (assert_r (cur = 4) ''curr == sizeof(msg->type)'') (\<lambda>_.
       let msg = msg\<lparr>type := (case in_u32 got of Some (w, _) \<Rightarrow> w | None \<Rightarrow> 0)\<rparr>
       in (case recvall 8 0 strm evs of None \<Rightarrow> Inr None
       | Some (cur, got, strm, evs) \<Rightarrow>
         if cur \<le> 0 then Inr (Some (False, msg, strm, evs))
         else let msg = msg\<lparr>sz := htonl (in_u64 got)\<rparr>
         in res_bind (assert_r (cur = 8) ''curr == sizeof(msg->sz)'') (\<lambda>_.
         if sz msg > 0 then
           (case recvall (unat (sz msg)) timeout strm evs of None \<Rightarrow> Inr None
            | Some (cur, got, strm, evs) \<Rightarrow>
              if cur \<le> 0 then Inr (Some (False, msg, strm, evs))
              else res_bind (assert_r ((of_int cur :: u64) = sz msg) ''size_t(curr) == msg->sz'') (\<lambda>_.
                Inr (Some (True, msg\<lparr>buf := got\<rparr>, strm, evs))))
         else Inr (Some (True, msg, strm, evs))))))"

section \<open>Connections\<close>

definition empty_message :: Message where
  "empty_message = \<lparr>type = 0, sz = 0, buf = []\<rparr>"

text \<open>The default timeout of messages, 400 milliseconds.\<close>

definition default_timeout :: nat where
  "default_timeout = 400"

definition send_request ::
  "Request \<Rightarrow> io_event list \<Rightarrow> (bool \<times> bytes \<times> io_event list) option result" where
  "send_request req evs = res_bind (serialize_request req) (\<lambda>m.
     case m of None \<Rightarrow> Inr (Some (False, [], evs))
     | Some msg \<Rightarrow> send_message msg default_timeout evs)"

definition recv_request ::
  "bytes \<Rightarrow> io_event list \<Rightarrow> (Request option \<times> bytes \<times> io_event list) option result" where
  "recv_request strm evs = res_bind (recv_message empty_message default_timeout strm evs) (\<lambda>r.
     case r of None \<Rightarrow> Inr None
     | Some (ok, msg, strm, evs) \<Rightarrow>
       if \<not> ok then Inr (Some (None, strm, evs))
       else res_bind (deserialize_request msg) (\<lambda>req. Inr (Some (req, strm, evs))))"

definition send_response ::
  "Response \<Rightarrow> io_event list \<Rightarrow> (bool \<times> bytes \<times> io_event list) option result" where
  "send_response res evs = res_bind (serialize_response res) (\<lambda>m.
     case m of None \<Rightarrow> Inr (Some (False, [], evs))
     | Some msg \<Rightarrow> send_message msg default_timeout evs)"

definition recv_response ::
  "bytes \<Rightarrow> io_event list \<Rightarrow> (Response option \<times> bytes \<times> io_event list) option result" where
  "recv_response strm evs = res_bind (recv_message empty_message default_timeout strm evs) (\<lambda>r.
     case r of None \<Rightarrow> Inr None
     | Some (ok, msg, strm, evs) \<Rightarrow>
       if \<not> ok then Inr (Some (None, strm, evs))
       else res_bind (deserialize_response msg) (\<lambda>res. Inr (Some (res, strm, evs))))"

text \<open>
  \<open>ClientConn\<close>: the connection flag guards the descriptor, so it is closed or shut down once.
  The calls made to the operating system are listed in order.
\<close>

datatype conn_call = CloseFd int | ShutdownFd int

record ClientConn =
  conn_fd :: int
  conn_address :: string
  is_connected :: bool

definition client_close :: "ClientConn \<Rightarrow> bool \<times> ClientConn \<times> conn_call list" where
  "client_close c =
     (if is_connected c then (True, c\<lparr>is_connected := False\<rparr>, [CloseFd (conn_fd c)])
      else (True, c, []))"

definition client_shutdown :: "ClientConn \<Rightarrow> bool \<times> ClientConn \<times> conn_call list" where
  "client_shutdown c =
     (if is_connected c then (True, c\<lparr>is_connected := False\<rparr>, [ShutdownFd (conn_fd c)])
      else (True, c, []))"

definition client_destroy :: "ClientConn \<Rightarrow> ClientConn \<times> conn_call list" where
  "client_destroy c =
     (if is_connected c then (c\<lparr>is_connected := False\<rparr>, [CloseFd (conn_fd c)]) else (c, []))"

section \<open>Addresses\<close>

text \<open>\<open>address.find(':')\<close> and the two \<open>substr\<close> of \<open>open_listener_socket\<close> and \<open>connect_to_address\<close>.\<close>

fun split_address :: "string \<Rightarrow> (string \<times> string) option" where
  "split_address [] = None"
| "split_address (c # cs) =
     (if c = CHR '':'' then Some ([], cs)
      else map_option (\<lambda>(hostname, port). (c # hostname, port)) (split_address cs))"

definition host_address :: "string \<Rightarrow> string \<Rightarrow> string" where
  "host_address hostname port = hostname @ '':'' @ port"

lemma split_host_address:
  "CHR '':'' \<notin> set hostname \<Longrightarrow> split_address (host_address hostname port) = Some (hostname, port)"
  by (induction hostname) (auto simp: host_address_def)

section \<open>Facts about the loops\<close>

lemma to_int_small: "n < 2 ^ 31 \<Longrightarrow> to_int n = int n"
  unfolding to_int_def signed_of_nat by (simp add: signed_take_bit_int_eq_self)

definition socket_ok :: "nat \<Rightarrow> io_event list \<Rightarrow> bool" where
  "socket_ok timeout evs \<longleftrightarrow> (\<forall>e\<in>set evs. grant e > 0 \<and> \<not> timed_out timeout e)"

text \<open>
  \<open>send\<close> returns the number of bytes it sent or \<open>- 1\<close>; asked to send at least one byte it does not
  return 0.
\<close>

definition send_events :: "io_event list \<Rightarrow> bool" where
  "send_events evs \<longleftrightarrow> (\<forall>e\<in>set evs. grant e \<noteq> 0)"

text \<open>Whatever the socket does, what goes over it is a prefix of the data.\<close>

lemma sendall_loop_prefix:
  "sendall_loop t n data evs = Some (r, wire, evs') \<Longrightarrow> send_events evs \<Longrightarrow>
    (\<exists>k. wire = take k data) \<and> send_events evs'
    \<and> (r = to_int (n + length data) \<and> wire = data \<or> r < 0)"
proof (induction t n data evs arbitrary: wire rule: sendall_loop.induct)
  case (1 t n evs)
  then show ?case by auto
next
  case (2 t n d ds)
  then show ?case by simp
next
  case (3 t n d ds e evs)
  have ev: "send_events evs" "grant e \<noteq> 0" using 3(3) by (auto simp: send_events_def)
  show ?case
  proof (cases "timed_out t e \<or> grant e \<le> 0")
    case True
    then have "wire = take 0 (d # ds)" "evs' = evs" "r < 0"
      using 3(2) ev(2) by (auto simp: ETIMEOUT_def split: if_splits)
    then show ?thesis using ev(1) by blast
  next
    case False
    define c where "c = min (nat (grant e)) (length (d # ds))"
    have "sendall_loop t n (d # ds) (e # evs) = (case sendall_loop t (n + c) (drop c (d # ds)) evs of
        None \<Rightarrow> None | Some (r, wire, evs) \<Rightarrow> Some (r, take c (d # ds) @ wire, evs))"
      using False by (simp only: sendall_loop.simps Let_def c_def[symmetric] de_Morgan_disj if_False)
    then obtain w where w: "sendall_loop t (n + c) (drop c (d # ds)) evs = Some (r, w, evs')"
      "wire = take c (d # ds) @ w"
      using 3(2) by (auto split: option.splits)
    have f: "\<not> timed_out t e" "\<not> grant e \<le> 0" using False by auto
    have l: "n + c + length (drop c (d # ds)) = n + length (d # ds)" by (simp add: c_def)
    from 3(1)[OF f c_def w(1) ev(1)] obtain k where k: "w = take k (drop c (d # ds))" "send_events evs'"
      "r = to_int (n + length (d # ds)) \<and> w = drop c (d # ds) \<or> r < 0"
      unfolding l by blast
    have "wire = take (c + k) (d # ds)" unfolding w(2) k(1) by (simp only: take_add)
    moreover have "w = drop c (d # ds) \<Longrightarrow> wire = d # ds"
      unfolding w(2) by (simp only: append_take_drop_id)
    ultimately show ?thesis using k(2,3) by blast
  qed
qed

lemma sendall_loop_ok:
  assumes "socket_ok t evs" "length data \<le> length evs"
  shows "\<exists>evs'. sendall_loop t n data evs = Some (to_int (n + length data), data, evs')
    \<and> set evs' \<subseteq> set evs \<and> length evs \<le> length evs' + length data"
  using assms
proof (induction t n data evs rule: sendall_loop.induct)
  case (1 t n evs)
  then show ?case by simp
next
  case (2 t n d ds)
  then show ?case by simp
next
  case (3 t n d ds e evs)
  have ok: "\<not> timed_out t e" "\<not> grant e \<le> 0" "socket_ok t evs"
    using 3(2) by (auto simp: socket_ok_def)
  define c where "c = min (nat (grant e)) (length (d # ds))"
  have c: "0 < c" "c \<le> length (d # ds)" using ok(2) by (auto simp: c_def)
  have "length (drop c (d # ds)) \<le> length evs" using 3(3) c by auto
  from 3(1)[OF ok(1,2) c_def ok(3) this] obtain evs' where
    e: "sendall_loop t (n + c) (drop c (d # ds)) evs
        = Some (to_int (n + c + length (drop c (d # ds))), drop c (d # ds), evs')"
      "set evs' \<subseteq> set evs" "length evs \<le> length evs' + length (drop c (d # ds))" by blast
  have l: "n + c + length (drop c (d # ds)) = n + length (d # ds)" using c by simp
  have "sendall_loop t n (d # ds) (e # evs) = Some (to_int (n + length (d # ds)), d # ds, evs')"
    using ok(1,2) by (simp only: sendall_loop.simps Let_def c_def[symmetric] e(1) l if_False
        option.case prod.case append_take_drop_id)
  then show ?case using e(2,3) c by (intro exI[of _ evs']) auto
qed

text \<open>What \<open>recvall\<close> takes from the stream, it hands over in order.\<close>

lemma recvall_loop_exact:
  "recvall_loop t n got strm evs = Some (r, got', strm', evs') \<Longrightarrow> length got \<le> n \<Longrightarrow>
    got' @ strm' = got @ strm \<and> length got' \<le> n
    \<and> (r = to_int (length got') \<and> length got' = n \<or> r \<le> 0)"
proof (induction t n got strm evs rule: recvall_loop.induct)
  case (1 t n got strm)
  then show ?case by (auto split: if_splits)
next
  case (2 t n got strm e evs)
  show ?case
  proof (cases "length got < n \<and> \<not> timed_out t e \<and> \<not> grant e \<le> 0")
    case False
    then show ?thesis using 2(2,3) by (auto simp: ETIMEOUT_def split: if_splits)
  next
    case True
    define c where "c = min (min (nat (grant e)) (n - length got)) (length strm)"
    have "c \<noteq> 0" using 2(2) True by (auto simp: c_def Let_def split: if_splits)
    moreover have "recvall_loop t n (got @ take c strm) (drop c strm) evs = Some (r, got', strm', evs')"
      using 2(2) True by (simp add: c_def Let_def split: if_splits)
    moreover have "length (got @ take c strm) \<le> n" using True by (auto simp: c_def)
    ultimately show ?thesis using 2(1)[of c] True by (simp add: c_def)
  qed
qed

lemma recvall_loop_ok:
  assumes "socket_ok t evs" "n - length got \<le> length evs" "n - length got \<le> length strm" "length got \<le> n"
  shows "\<exists>evs'. recvall_loop t n got strm evs
      = Some (to_int n, got @ take (n - length got) strm, drop (n - length got) strm, evs')
    \<and> set evs' \<subseteq> set evs \<and> length evs \<le> length evs' + (n - length got)"
  using assms
proof (induction t n got strm evs rule: recvall_loop.induct)
  case (1 t n got strm)
  then show ?case by simp
next
  case (2 t n got strm e evs)
  show ?case
  proof (cases "length got < n")
    case False
    then show ?thesis using 2(2-) by simp
  next
    case True
    have ok: "\<not> timed_out t e" "\<not> grant e \<le> 0" "socket_ok t evs"
      using 2(2) by (auto simp: socket_ok_def)
    define c where "c = min (min (nat (grant e)) (n - length got)) (length strm)"
    have c: "c \<noteq> 0" "c \<le> n - length got" "c \<le> length strm" using ok(2) 2(4) True by (auto simp: c_def)
    have l: "length (got @ take c strm) = length got + c" using c by simp
    have p: "n - length (got @ take c strm) \<le> length evs"
        "n - length (got @ take c strm) \<le> length (drop c strm)" "length (got @ take c strm) \<le> n"
      unfolding l using 2(3-) c by auto
    have nn: "\<not> \<not> length got < n" using True by simp
    from 2(1)[OF nn ok(1,2) c_def c(1) ok(3) p]
    obtain evs' where e: "recvall_loop t n (got @ take c strm) (drop c strm) evs
        = Some (to_int n, (got @ take c strm) @ take (n - length (got @ take c strm)) (drop c strm),
            drop (n - length (got @ take c strm)) (drop c strm), evs')"
        "set evs' \<subseteq> set evs" "length evs \<le> length evs' + (n - length (got @ take c strm))"
      by blast
    have d: "n - length got = c + (n - (length got + c))" using c by simp
    have t1: "take (n - length got) strm = take c strm @ take (n - (length got + c)) (drop c strm)"
      by (subst d) (simp only: take_add)
    have t2: "drop (n - length got) strm = drop (n - (length got + c)) (drop c strm)"
      by (subst d) (simp add: add.commute)
    have "recvall_loop t n got strm (e # evs) = recvall_loop t n (got @ take c strm) (drop c strm) evs"
      using True ok(1,2) c(1)
      by (simp only: recvall_loop.simps Let_def c_def[symmetric] if_False not_True_eq_False)
    then have "recvall_loop t n got strm (e # evs)
        = Some (to_int n, got @ take (n - length got) strm, drop (n - length got) strm, evs')"
      using e(1) unfolding t1 t2 l by (simp only: append_assoc)
    moreover have "length (e # evs) \<le> length evs' + (n - length got)"
      using e(3) c unfolding l by simp
    moreover have "set evs' \<subseteq> set (e # evs)" using e(2) by auto
    ultimately show ?thesis by blast
  qed
qed

section \<open>Facts about the header\<close>

lemma byte_masks: "(0xFF :: u32) = mask 8" "(0xFF00 :: u32) = push_bit 8 (mask 8)"
  by (simp_all add: mask_eq_exp_minus_1 push_bit_eq_mult)

lemma bit_bswap32:
  assumes "n < 32"
  shows "bit (bswap32 w) n \<longleftrightarrow>
    bit w (if n < 8 then n + 24 else if n < 16 then n + 8 else if n < 24 then n - 8 else n - 24)"
proof -
  have "n < 8 \<or> 8 \<le> n \<and> n < 16 \<or> 16 \<le> n \<and> n < 24 \<or> 24 \<le> n \<and> n < 32" using assms by auto
  then show ?thesis
    unfolding bswap32_def byte_masks
    by (elim disjE) (auto simp: bit_simps add.commute dest: bit_imp_le_length)
qed

lemma bswap32_bswap32 [simp]: "bswap32 (bswap32 w) = w"
proof (rule bit_word_eqI)
  fix n assume "n < LENGTH(32)"
  then have "n < 8 \<or> 8 \<le> n \<and> n < 16 \<or> 16 \<le> n \<and> n < 24 \<or> 24 \<le> n \<and> n < 32" by auto
  then show "bit (bswap32 (bswap32 w)) n = bit w n" by (elim disjE) (auto simp: bit_bswap32 split: if_splits)
qed

lemma htonl_htonl: "n < 2 ^ 32 \<Longrightarrow> htonl (htonl n) = n"
proof -
  assume n: "n < 2 ^ 32"
  have "(ucast (ucast (bswap32 (ucast n)) :: u64) :: u32) = bswap32 (ucast n)"
    by (rule bit_word_eqI) (simp add: bit_simps)
  then have "htonl (htonl n) = ucast (ucast n :: u32)"
    by (simp add: htonl_def)
  also have "\<dots> = n"
  proof (rule bit_word_eqI)
    have "unat n < 2 ^ 32" using n by (simp add: word_less_nat_alt)
    then have "unat (take_bit 32 n) = unat n" by (simp add: unsigned_take_bit_eq take_bit_nat_eq_self)
    then have t: "take_bit 32 n = n" by (simp only: word_unat_eq_iff)
    fix k assume "k < LENGTH(64)"
    show "bit (ucast (ucast n :: u32) :: u64) k = bit n k"
      by (subst (2) t [symmetric]) (auto simp: bit_simps)
  qed
  finally show ?thesis .
qed

lemma in_out_u64: "in_u64 (out_u64 w) = w"
proof (rule bit_word_eqI)
  fix n assume "n < LENGTH(64)"
  then have "n < 8 \<or> 8 \<le> n \<and> n < 16 \<or> 16 \<le> n \<and> n < 24 \<or> 24 \<le> n \<and> n < 32
    \<or> 32 \<le> n \<and> n < 40 \<or> 40 \<le> n \<and> n < 48 \<or> 48 \<le> n \<and> n < 56 \<or> 56 \<le> n \<and> n < 64" by auto
  then show "bit (in_u64 (out_u64 w)) n = bit w n"
    unfolding in_u64_def out_u64_def
    by (elim disjE) (auto simp: bit_simps)
qed

section \<open>Messages on the wire\<close>

definition frame :: "Message \<Rightarrow> bytes" where
  "frame m = out_u32 (type m) @ out_u64 (htonl (sz m)) @ buf m"

definition message_ok :: "Message \<Rightarrow> bool" where
  "message_ok m \<longleftrightarrow> sz m = of_nat (length (buf m)) \<and> length (buf m) < 2 ^ 31"

lemma length_out_u32 [simp]: "length (out_u32 w) = 4"
  by (simp add: out_u32_def)

lemma length_out_u64 [simp]: "length (out_u64 w) = 8"
  by (simp add: out_u64_def)

lemma message_ok_sizes:
  assumes "message_ok m"
  shows "unat (sz m) = length (buf m)" "sz m < 2 ^ 32" "(of_int (int (length (buf m))) :: u64) = sz m"
    "htonl (htonl (sz m)) = sz m" "sz m > 0 \<longleftrightarrow> buf m \<noteq> []"
proof -
  have l: "length (buf m) < 2 ^ 31" and s: "sz m = of_nat (length (buf m))"
    using assms by (auto simp: message_ok_def)
  show u: "unat (sz m) = length (buf m)" using l s by (simp add: unat_of_nat)
  show b: "sz m < 2 ^ 32" using l by (simp add: word_less_nat_alt u)
  show "(of_int (int (length (buf m))) :: u64) = sz m" using s by simp
  show "htonl (htonl (sz m)) = sz m" by (rule htonl_htonl[OF b])
  show "sz m > 0 \<longleftrightarrow> buf m \<noteq> []" by (simp add: word_less_nat_alt u)
qed

lemma to_int_8: "to_int 4 = 4" "to_int 8 = 8"
  by (simp_all add: to_int_small)

lemma socket_ok_0: "socket_ok t evs \<Longrightarrow> socket_ok 0 evs"
  by (simp add: socket_ok_def timed_out_def)

lemma recvall_take:
  assumes "recvall n t strm evs = Some (r, got, strm', evs')" "0 < r"
  shows "n \<le> length strm \<and> got = take n strm \<and> strm' = drop n strm \<and> r = to_int n"
proof -
  have "got @ strm' = strm" "length got = n" "r = to_int n"
    using recvall_loop_exact[of t n "[]" strm evs r got strm' evs'] assms by (auto simp: recvall_def)
  then show ?thesis by auto
qed

lemma sendall_cases:
  assumes "send_events evs" "length data < 2 ^ 31"
  obtains "sendall data t evs = None"
    | k r evs' where "sendall data t evs = Some (r, take k data, evs')" "r < 0" "send_events evs'"
    | evs' where "sendall data t evs = Some (int (length data), data, evs')" "send_events evs'"
proof (cases "sendall data t evs")
  case None
  then show ?thesis using that(1) by blast
next
  case (Some x)
  then obtain r w evs' where x: "sendall_loop t 0 data evs = Some (r, w, evs')"
    by (cases x) (auto simp: sendall_def)
  from sendall_loop_prefix[OF x assms(1)] show ?thesis
    using that(2,3) x to_int_small[OF assms(2)] by (auto simp: sendall_def)
qed

lemma frame_takes:
  "take k (out_u32 (type m)) = take (min k 4) (frame m)"
  "out_u32 (type m) @ take k (out_u64 (htonl (sz m))) = take (4 + min k 8) (frame m)"
  "out_u32 (type m) @ out_u64 (htonl (sz m)) @ take k (buf m) = take (12 + k) (frame m)"
  by (simp_all add: frame_def min_def)

lemma send_message_frame:
  assumes m: "message_ok m" and t: "0 < t" and ev: "send_events evs"
  shows "\<exists>res. send_message m t evs = Inr res \<and>
    (\<forall>ok w evs'. res = Some (ok, w, evs') \<longrightarrow> (\<exists>k. w = take k (frame m)) \<and> (ok \<longrightarrow> w = frame m))"
proof -
  note sizes = message_ok_sizes[OF m]
  have s: "sz m = of_nat (length (buf m))" "length (buf m) < 2 ^ 31" using m by (auto simp: message_ok_def)
  have pre: "assert_r (0 < t) x = Inr ()" "assert_r (sz m = of_nat (length (buf m))) y = Inr ()" for x y
    using t s by simp_all
  have l4: "length (out_u32 (type m)) < 2 ^ 31" "length (out_u64 (htonl (sz m))) < 2 ^ 31" by simp_all
  show ?thesis
    using ev l4(1)
  proof (cases rule: sendall_cases[of evs "out_u32 (type m)" 0])
    case 1
    then show ?thesis by (simp add: send_message_def pre)
  next
    case (2 k r evs')
    then show ?thesis by (auto simp: send_message_def pre frame_takes)
  next
    case (3 evs1)
    note first = 3
    show ?thesis
      using 3(2) l4(2)
    proof (cases rule: sendall_cases[of evs1 "out_u64 (htonl (sz m))" 0])
      case 1
      then show ?thesis using first by (simp add: send_message_def pre)
    next
      case (2 k r evs')
      then show ?thesis using first by (auto simp: send_message_def pre frame_takes)
    next
      case (3 evs2)
      note second = 3
      show ?thesis
      proof (cases "buf m = []")
        case True
        then have z: "sz m = 0" using sizes(5) by (simp add: word_gt_0)
        have "take 12 (frame m) = frame m" using True by (simp add: frame_def)
        then show ?thesis using first second True z pre
          by (auto simp: send_message_def frame_def intro!: exI[of _ 12])
      next
        case False
        then have pos: "0 < sz m" using sizes(5) by simp
        show ?thesis
          using 3(2) s(2)
        proof (cases rule: sendall_cases[of evs2 "buf m" t])
          case 1
          then show ?thesis using first second pos by (simp add: send_message_def pre)
        next
          case (2 k r evs')
          then show ?thesis using first second pos by (auto simp: send_message_def pre frame_takes)
        next
          case (3 evs3)
          then show ?thesis
            using first second pos sizes(3)
            by (auto simp: send_message_def pre frame_def intro!: exI[of _ "12 + length (buf m)"])
        qed
      qed
    qed
  qed
qed

lemma recvall_cases:
  assumes "n < 2 ^ 31"
  obtains "recvall n t strm evs = None"
    | r got strm' evs' where "recvall n t strm evs = Some (r, got, strm', evs')" "r \<le> 0"
    | evs' where "recvall n t strm evs = Some (int n, take n strm, drop n strm, evs')"
        "n \<le> length strm"
proof (cases "recvall n t strm evs")
  case None
  then show ?thesis using that(1) by blast
next
  case (Some x)
  then obtain r got strm' evs' where x: "recvall n t strm evs = Some (r, got, strm', evs')"
    by (cases x) auto
  show ?thesis
  proof (cases "r \<le> 0")
    case True
    then show ?thesis using that(2) x by blast
  next
    case False
    then show ?thesis using that(3) x recvall_take[OF x] to_int_small[OF assms] by auto
  qed
qed

lemma frame_drops:
  "take 4 (frame m @ rest) = out_u32 (type m)"
  "drop 4 (frame m @ rest) = out_u64 (htonl (sz m)) @ buf m @ rest"
  by (simp_all add: frame_def)

lemma recv_message_frame:
  assumes m: "message_ok m" and t: "0 < t"
  shows "\<exists>res. recv_message empty_message t (frame m @ rest) evs = Inr res \<and>
    (\<forall>m' strm evs'. res = Some (True, m', strm, evs') \<longrightarrow> m' = m \<and> strm = rest)"
proof -
  note sizes = message_ok_sizes[OF m]
  have l: "length (buf m) < 2 ^ 31" using m by (simp add: message_ok_def)
  have u: "in_u32 (out_u32 w) = Some (w, [])" for w using in_out_u32[of w "[]"] by simp
  have n: "(4::nat) < 2 ^ 31" "(8::nat) < 2 ^ 31" by simp_all
  show ?thesis
  proof (cases rule: recvall_cases[OF n(1), of 0 "frame m @ rest" evs])
    case 1
    then show ?thesis using t by (simp add: recv_message_def)
  next
    case (2 r got strm' evs')
    then show ?thesis using t by (auto simp: recv_message_def)
  next
    case (3 evs1)
    note first = 3(1)[unfolded frame_drops]
    show ?thesis
    proof (cases rule: recvall_cases[OF n(2), of 0 "out_u64 (htonl (sz m)) @ buf m @ rest" evs1])
      case 1
      then show ?thesis using t first by (simp add: recv_message_def u)
    next
      case (2 r got strm' evs')
      then show ?thesis using t first by (auto simp: recv_message_def u)
    next
      case (3 evs2)
      then have second: "recvall 8 0 (out_u64 (htonl (sz m)) @ buf m @ rest) evs1
          = Some (8, out_u64 (htonl (sz m)), buf m @ rest, evs2)" by simp
      show ?thesis
      proof (cases "buf m = []")
        case True
        then have "\<not> 0 < sz m" using sizes(5) by simp
        then show ?thesis
          using t first second True by (auto simp: recv_message_def u in_out_u64 sizes(4) empty_message_def)
      next
        case False
        then have pos: "0 < sz m" using sizes(5) by simp
        show ?thesis
        proof (cases rule: recvall_cases[OF l, of t "buf m @ rest" evs2])
          case 1
          then show ?thesis
            using t first second pos by (simp add: recv_message_def u in_out_u64 sizes(1,4))
        next
          case (2 r got strm' evs')
          then show ?thesis
            using t first second pos by (auto simp: recv_message_def u in_out_u64 sizes(1,4))
        next
          case (3 evs3)
          then show ?thesis
            using t first second pos sizes(3)
            by (auto simp: recv_message_def u in_out_u64 sizes(1,4) empty_message_def Let_def False)
        qed
      qed
    qed
  qed
qed

text \<open>
  C8. What arrives is what was sent: for a message whose size field is right and below \<open>2 ^ 31\<close>,
  whatever the socket does (any chunks, errors, closing or timeouts at any point), \<open>send_message\<close>
  fails no assertion and puts a prefix of the frame on the wire, all of it when it returns true; and
  \<open>recv_message\<close> reading a stream that begins with the frame fails no assertion either, and when
  it returns true has read exactly this message and left the rest of the stream.
\<close>

theorem message_transport_exact:
  assumes "message_ok m" "0 < t"
  shows "(\<forall>evs. send_events evs \<longrightarrow> (\<exists>res. send_message m t evs = Inr res \<and>
           (\<forall>ok w evs'. res = Some (ok, w, evs') \<longrightarrow>
              (\<exists>k. w = take k (frame m)) \<and> (ok \<longrightarrow> w = frame m))))
    \<and> (\<forall>evs rest. \<exists>res. recv_message empty_message t (frame m @ rest) evs = Inr res \<and>
           (\<forall>m' strm evs'. res = Some (True, m', strm, evs') \<longrightarrow> m' = m \<and> strm = rest))"
  using send_message_frame[OF assms] recv_message_frame[OF assms] by blast

theorem message_transport_exact_witness:
  "\<exists>res. recv_message empty_message 400 (frame \<lparr>type = 0, sz = 2, buf = [1, 2]\<rparr> @ [9])
       [\<lparr>elapsed = 0, grant = 3\<rparr>, \<lparr>elapsed = 1, grant = 7\<rparr>, \<lparr>elapsed = 2, grant = 0\<rparr>] = Inr res
     \<and> (\<forall>m' strm evs'. res = Some (True, m', strm, evs')
          \<longrightarrow> m' = \<lparr>type = 0, sz = 2, buf = [1, 2]\<rparr> \<and> strm = [9])"
  using message_transport_exact[of "\<lparr>type = 0, sz = 2, buf = [1, 2]\<rparr>" 400]
  by (simp add: message_ok_def)

lemma sendall_ok:
  assumes "socket_ok t evs" "length data \<le> length evs" "length data < 2 ^ 31"
  obtains evs' where "sendall data t evs = Some (int (length data), data, evs')"
    "set evs' \<subseteq> set evs" "length evs \<le> length evs' + length data"
  using sendall_loop_ok[OF assms(1,2), of 0] to_int_small[OF assms(3)] by (auto simp: sendall_def)

lemma recvall_ok:
  assumes "socket_ok t evs" "n \<le> length evs" "n \<le> length strm" "n < 2 ^ 31"
  obtains evs' where "recvall n t strm evs = Some (int n, take n strm, drop n strm, evs')"
    "set evs' \<subseteq> set evs" "length evs \<le> length evs' + n"
  using recvall_loop_ok[of t evs n "[]" strm] to_int_small[OF assms(4)] assms by (auto simp: recvall_def)

lemma socket_ok_subset: "socket_ok t evs \<Longrightarrow> set evs' \<subseteq> set evs \<Longrightarrow> socket_ok t evs'"
  by (auto simp: socket_ok_def)

lemma send_message_ok:
  assumes m: "message_ok m" and t: "0 < t" and ok: "socket_ok t evs" "12 + length (buf m) \<le> length evs"
  shows "\<exists>evs'. send_message m t evs = Inr (Some (True, frame m, evs'))"
proof -
  note sizes = message_ok_sizes[OF m]
  have s: "sz m = of_nat (length (buf m))" "length (buf m) < 2 ^ 31" using m by (auto simp: message_ok_def)
  have pre: "assert_r (0 < t) x = Inr ()" "assert_r (sz m = of_nat (length (buf m))) y = Inr ()" for x y
    using t s by simp_all
  obtain evs1 where 1: "sendall (out_u32 (type m)) 0 evs = Some (int (length (out_u32 (type m))), out_u32 (type m), evs1)"
      "set evs1 \<subseteq> set evs" "length evs \<le> length evs1 + length (out_u32 (type m))"
    by (rule sendall_ok[OF socket_ok_0[OF ok(1)], of "out_u32 (type m)"]) (use ok(2) in auto)
  note ok1 = socket_ok_subset[OF ok(1) 1(2)]
  obtain evs2 where 2: "sendall (out_u64 (htonl (sz m))) 0 evs1
        = Some (int (length (out_u64 (htonl (sz m)))), out_u64 (htonl (sz m)), evs2)"
      "set evs2 \<subseteq> set evs1" "length evs1 \<le> length evs2 + length (out_u64 (htonl (sz m)))"
    by (rule sendall_ok[OF socket_ok_0[OF ok1], of "out_u64 (htonl (sz m))"]) (use ok(2) 1(3) in auto)
  note ok2 = socket_ok_subset[OF ok1 2(2)]
  show ?thesis
  proof (cases "buf m = []")
    case True
    then have "sz m = 0" using sizes(5) by (simp add: word_gt_0)
    then show ?thesis using 1(1) 2(1) True pre by (simp add: send_message_def frame_def)
  next
    case False
    then have pos: "0 < sz m" using sizes(5) by simp
    obtain evs3 where "sendall (buf m) t evs2 = Some (int (length (buf m)), buf m, evs3)"
      by (rule sendall_ok[OF ok2 _ s(2)]) (use ok(2) 1(3) 2(3) in auto)
    then show ?thesis using 1(1) 2(1) pos sizes(3) by (simp add: send_message_def pre frame_def)
  qed
qed

lemma recv_message_ok:
  assumes m: "message_ok m" and t: "0 < t" and ok: "socket_ok t evs" "12 + length (buf m) \<le> length evs"
  shows "\<exists>evs'. recv_message empty_message t (frame m @ rest) evs = Inr (Some (True, m, rest, evs'))"
proof -
  note sizes = message_ok_sizes[OF m]
  have l: "length (buf m) < 2 ^ 31" using m by (simp add: message_ok_def)
  have u: "in_u32 (out_u32 w) = Some (w, [])" for w using in_out_u32[of w "[]"] by simp
  obtain evs1 where 1: "recvall 4 0 (frame m @ rest) evs = Some (int 4, out_u32 (type m), out_u64 (htonl (sz m)) @ buf m @ rest, evs1)"
      "set evs1 \<subseteq> set evs" "length evs \<le> length evs1 + 4"
    by (rule recvall_ok[OF socket_ok_0[OF ok(1)], of 4 "frame m @ rest"]) (use ok(2) in \<open>auto simp: frame_def\<close>)
  note ok1 = socket_ok_subset[OF ok(1) 1(2)]
  obtain evs2 where 2: "recvall 8 0 (out_u64 (htonl (sz m)) @ buf m @ rest) evs1
        = Some (int 8, out_u64 (htonl (sz m)), buf m @ rest, evs2)"
      "set evs2 \<subseteq> set evs1" "length evs1 \<le> length evs2 + 8"
    by (rule recvall_ok[OF socket_ok_0[OF ok1], of 8 "out_u64 (htonl (sz m)) @ buf m @ rest"]) (use ok(2) 1(3) in auto)
  note ok2 = socket_ok_subset[OF ok1 2(2)]
  show ?thesis
  proof (cases "buf m = []")
    case True
    then have "\<not> 0 < sz m" using sizes(5) by simp
    then show ?thesis
      using t 1(1) 2(1) True by (simp add: recv_message_def u in_out_u64 sizes(4) empty_message_def)
  next
    case False
    then have pos: "0 < sz m" using sizes(5) by simp
    obtain evs3 where "recvall (length (buf m)) t (buf m @ rest) evs2 = Some (int (length (buf m)), buf m, rest, evs3)"
      by (rule recvall_ok[OF ok2 _ _ l, of "buf m @ rest"]) (use ok(2) 1(3) 2(3) in auto)
    then show ?thesis
      using t 1(1) 2(1) pos sizes(3) False
      by (simp add: recv_message_def u in_out_u64 sizes(1,4) empty_message_def Let_def)
  qed
qed

text \<open>
  C30. A request reaches the server and a response the client: over sockets that keep granting bytes
  (one at a time or more) within the timeout, a request that fits the wire format and is below
  \<open>2 ^ 31\<close> bytes is sent successfully, and receiving from the stream of bytes that were sent gives
  the request itself; the same for responses.
\<close>

theorem request_response_delivery:
  assumes "request_fits q" "length (request_body q) < 2 ^ 31" "response_fits r" "length (response_body r) < 2 ^ 31"
    "socket_ok default_timeout out_evs" "socket_ok default_timeout in_evs"
    "12 + length (request_body q) + length (response_body r) \<le> length out_evs"
    "12 + length (request_body q) + length (response_body r) \<le> length in_evs"
  shows "(\<exists>w e1 e2. send_request q out_evs = Inr (Some (True, w, e1))
        \<and> recv_request (w @ rest) in_evs = Inr (Some (Some q, rest, e2)))
    \<and> (\<exists>w e1 e2. send_response r out_evs = Inr (Some (True, w, e1))
        \<and> recv_response (w @ rest) in_evs = Inr (Some (Some r, rest, e2)))"
proof
  let ?m = "\<lparr>type = type_code (request_type q), sz = of_nat (length (request_body q)), buf = request_body q\<rparr>"
  have m: "message_ok ?m" using assms(2) by (simp add: message_ok_def)
  have t: "0 < default_timeout" by (simp add: default_timeout_def)
  show "\<exists>w e1 e2. send_request q out_evs = Inr (Some (True, w, e1))
        \<and> recv_request (w @ rest) in_evs = Inr (Some (Some q, rest, e2))"
    using send_message_ok[OF m t assms(5)] recv_message_ok[OF m t assms(6), of rest] assms(7,8)
      deserialize_request_body[OF assms(1)]
    by (auto simp: send_request_def recv_request_def serialize_request_def Let_def)
next
  let ?m = "\<lparr>type = type_code (response_type r), sz = of_nat (length (response_body r)), buf = response_body r\<rparr>"
  have m: "message_ok ?m" using assms(4) by (simp add: message_ok_def)
  have t: "0 < default_timeout" by (simp add: default_timeout_def)
  show "\<exists>w e1 e2. send_response r out_evs = Inr (Some (True, w, e1))
        \<and> recv_response (w @ rest) in_evs = Inr (Some (Some r, rest, e2))"
    using send_message_ok[OF m t assms(5)] recv_message_ok[OF m t assms(6), of rest] assms(7,8)
      deserialize_response_body[OF assms(3)]
    by (auto simp: send_response_def recv_response_def serialize_response_def Let_def)
qed

theorem request_response_delivery_witness:
  "\<exists>w e1 e2. send_request (GetReq \<lparr>get_key = ''k''\<rparr>) (replicate 100 \<lparr>elapsed = 5, grant = 3\<rparr>)
       = Inr (Some (True, w, e1))
     \<and> recv_request (w @ []) (replicate 100 \<lparr>elapsed = 0, grant = 1\<rparr>)
       = Inr (Some (Some (GetReq \<lparr>get_key = ''k''\<rparr>), [], e2))"
proof -
  have len: "length (request_body (GetReq \<lparr>get_key = ''k''\<rparr>)) = 5" "length (response_body (PutRes PutResponse)) = 0"
    by (simp_all add: out_GetRequest_def out_string_def out_size_def)
  show ?thesis
    by (rule conjunct1[OF request_response_delivery[where r = "PutRes PutResponse"]])
      (use len in \<open>auto simp: string_ok_def size_ok_def socket_ok_def timed_out_def default_timeout_def\<close>)
qed

end
