(* ===== verification/Kv_Server.thy ===== *)
theory Kv_Server
  imports Kv_Interface Net_Transport Simple_Kv Concurrent_Kv
begin

text \<open>
  The key-value server, \<open>server/server.hpp\<close> and \<open>server.cpp\<close>: the responsibility check, the
  processing of requests over the virtual functions of its store, the queues of accepted clients,
  and the conversation with the shard controller. The refinement of the server to a partial map is
  proved once for every store that meets the contract, in \<open>kv_store\<close> and \<open>kv_live\<close>.
\<close>

section \<open>Exchanges with another process\<close>

text \<open>
  What a client of another process sees when it connects, sends a request and waits for the
  response. The other processes and the network are a parameter: a function of the address, the
  request and a state of the world.
\<close>

datatype exchange = NoConnection | SendFailed | NoResponse | Answer Response

type_synonym 'w network = "string \<Rightarrow> Request \<Rightarrow> 'w \<Rightarrow> (exchange \<times> 'w) result"

section \<open>State\<close>

record 's KvServer =
  srv_address :: string
  store :: 's
  config :: ShardControllerConfig
  is_stopped :: bool
  conn_queues :: "ClientConn list list"
  shardcontroller_address :: string
  n_workers :: nat

text \<open>The server before \<open>start\<close>, and its queues once \<open>start\<close> has resized them.\<close>

definition new_server :: "string \<Rightarrow> string \<Rightarrow> nat \<Rightarrow> 's \<Rightarrow> 's KvServer" where
  "new_server addr shardcontroller n st =
     \<lparr>srv_address = addr, store = st, config = \<lparr>server_to_shards = []\<rparr>, is_stopped = False,
      conn_queues = replicate n [], shardcontroller_address = shardcontroller, n_workers = n\<rparr>"

section \<open>Processing requests\<close>

definition responsible_for :: "'s KvServer \<Rightarrow> string \<Rightarrow> bool" where
  "responsible_for srv key =
     (if shardcontroller_address srv = [] then True
      else case get_server (config srv) key of
             None \<Rightarrow> False
           | Some server \<Rightarrow> server = srv_address srv)"

fun responsible_loop :: "'s KvServer \<Rightarrow> string list \<Rightarrow> bool" where
  "responsible_loop srv [] = True"
| "responsible_loop srv (k # ks) =
     (case get_server (config srv) k of
        None \<Rightarrow> False
      | Some server \<Rightarrow> if server \<noteq> srv_address srv then False else responsible_loop srv ks)"

definition responsible_for_keys :: "'s KvServer \<Rightarrow> string list \<Rightarrow> bool" where
  "responsible_for_keys srv keys =
     (if shardcontroller_address srv = [] then True else responsible_loop srv keys)"

definition error_response :: "string \<Rightarrow> Response" where
  "error_response msg = ErrorRes \<lparr>error_msg = msg\<rparr>"

text \<open>
  One branch of \<open>process_request\<close>: \<open>responsible && store->Op(req, &res)\<close>, then the response or an
  error whose text depends on the responsibility.
\<close>

definition process_op ::
  "bool \<Rightarrow> ('s \<Rightarrow> (bool \<times> 'r \<times> 's) result) \<Rightarrow> ('r \<Rightarrow> Response) \<Rightarrow> string \<Rightarrow> string \<Rightarrow> 's KvServer
    \<Rightarrow> (Response \<times> 's KvServer) result" where
  "process_op responsible op wrap not_responsible failed srv =
     (if responsible then
        res_bind (op (store srv)) (\<lambda>(ok, res, st).
          Inr (if ok then wrap res else error_response failed, srv\<lparr>store := st\<rparr>))
      else Inr (error_response not_responsible, srv))"

fun process_request :: "'s KvStore \<Rightarrow> Request \<Rightarrow> 's KvServer \<Rightarrow> (Response \<times> 's KvServer) result" where
  "process_request ops (GetReq q) srv =
     process_op (responsible_for srv (get_key q)) (kv_Get ops q \<lparr>get_res_value = []\<rparr>) GetRes
       ''server not responsible for key'' ''key does not exist in the KVStore'' srv"
| "process_request ops (PutReq q) srv =
     process_op (responsible_for srv (put_key q)) (kv_Put ops q PutResponse) PutRes
       ''server not responsible for key'' ''internal KVStore error'' srv"
| "process_request ops (AppendReq q) srv =
     process_op (responsible_for srv (append_key q)) (kv_Append ops q AppendResponse) AppendRes
       ''server not responsible for key'' ''internal KVStore error'' srv"
| "process_request ops (DeleteReq q) srv =
     process_op (responsible_for srv (delete_key q)) (kv_Delete ops q \<lparr>delete_res_value = []\<rparr>) DeleteRes
       ''server not responsible for key'' ''key does not exist in the KVStore'' srv"
| "process_request ops (MultiGetReq q) srv =
     process_op (responsible_for_keys srv (multiget_keys q))
       (kv_MultiGet ops q \<lparr>multiget_res_values = []\<rparr>) MultiGetRes
       ''server not responsible for key(s)'' ''key(s) do not exist in the KVStore'' srv"
| "process_request ops (MultiPutReq q) srv =
     process_op (responsible_for_keys srv (multiput_keys q)) (kv_MultiPut ops q MultiPutResponse) MultiPutRes
       ''server not responsible for key(s)'' ''internal KVStore error'' srv"
| "process_request ops req srv = Inl (LogicError ''invalid variant!'')"

text \<open>
  The inner loop of \<open>work_loop\<close>, over what \<open>recv_request\<close> gives one call after the other and
  whether \<open>send_response\<close> succeeds: the responses sent, whether the client was closed, the server.
  At the end of the list the worker waits for the next request.
\<close>

fun client_loop ::
  "'s KvStore \<Rightarrow> Request option list \<Rightarrow> bool list \<Rightarrow> 's KvServer \<Rightarrow> (Response list \<times> bool \<times> 's KvServer) result" where
  "client_loop ops [] sends srv = Inr ([], False, srv)"
| "client_loop ops (None # reqs) sends srv = Inr ([], True, srv)"
| "client_loop ops (Some req # reqs) sends srv =
     res_bind (process_request ops req srv) (\<lambda>(res, srv).
       case sends of
         [] \<Rightarrow> Inr ([], False, srv)
       | sent # sends \<Rightarrow>
           if \<not> sent then Inr ([], True, srv)
           else res_bind (client_loop ops reqs sends srv) (\<lambda>(out, closed, srv).
                  Inr (res # out, closed, srv)))"

text \<open>One pass of \<open>work_loop\<close> over the queue: the front client is taken off, if there is one.\<close>

definition pop_client :: "nat \<Rightarrow> 's KvServer \<Rightarrow> (ClientConn option \<times> 's KvServer) result" where
  "pop_client worker_id srv =
     res_bind (index_r (conn_queues srv) worker_id ''conn_queues[worker_id]'') (\<lambda>q.
       case q of
         [] \<Rightarrow> Inr (None, srv)
       | c # cs \<Rightarrow> Inr (Some c, srv\<lparr>conn_queues := (conn_queues srv)[worker_id := cs]\<rparr>))"

text \<open>
  \<open>accept_clients_loop\<close>, over what the flag reads and \<open>accept_client\<close> gives in each pass; the
  number of the next worker is a local variable of the loop.
\<close>

fun accept_loop ::
  "(bool \<times> ClientConn option) list \<Rightarrow> nat \<Rightarrow> 's KvServer \<Rightarrow> (nat \<times> 's KvServer) result" where
  "accept_loop [] next_worker srv = Inr (next_worker, srv)"
| "accept_loop ((stopped, client) # evs) next_worker srv =
     (if stopped then Inr (next_worker, srv)
      else case client of
        None \<Rightarrow> Inr (next_worker, srv)
      | Some c \<Rightarrow>
          res_bind (index_r (conn_queues srv) next_worker ''conn_queues[next_worker]'') (\<lambda>q.
            accept_loop evs ((next_worker + 1) mod n_workers srv)
              (srv\<lparr>conn_queues := (conn_queues srv)[next_worker := q @ [c]]\<rparr>)))"

text \<open>\<open>stop\<close>: sets the flag and shuts down the clients that are still queued.\<close>

definition stop_server :: "'s KvServer \<Rightarrow> 's KvServer \<times> conn_call list" where
  "stop_server srv =
     (srv\<lparr>is_stopped := True,
          conn_queues := map (map (\<lambda>c. fst (snd (client_shutdown c)))) (conn_queues srv)\<rparr>,
      concat (map (\<lambda>q. concat (map (\<lambda>c. snd (snd (client_shutdown c))) q)) (conn_queues srv)))"

section \<open>The shard controller's client\<close>

definition server_Join :: "'w network \<Rightarrow> 's KvServer \<Rightarrow> 'w \<Rightarrow> (bool \<times> 'w) result" where
  "server_Join net srv w =
     res_bind (net (shardcontroller_address srv) (JoinReq \<lparr>join_server = srv_address srv\<rparr>) w) (\<lambda>(x, w).
       Inr ((case x of Answer (JoinRes r) \<Rightarrow> True | _ \<Rightarrow> False), w))"

definition server_Leave :: "'w network \<Rightarrow> 's KvServer \<Rightarrow> 'w \<Rightarrow> (bool \<times> 'w) result" where
  "server_Leave net srv w =
     res_bind (net (shardcontroller_address srv) (LeaveReq \<lparr>leave_server = srv_address srv\<rparr>) w) (\<lambda>(x, w).
       Inr ((case x of Answer (LeaveRes r) \<Rightarrow> True | _ \<Rightarrow> False), w))"

definition query_shardcontroller ::
  "'w network \<Rightarrow> string \<Rightarrow> 'w \<Rightarrow> (QueryResponse option \<times> 'w) result" where
  "query_shardcontroller net conn w =
     res_bind (net conn (QueryReq QueryRequest) w) (\<lambda>(x, w).
       Inr ((case x of Answer (QueryRes r) \<Rightarrow> Some r | _ \<Rightarrow> None), w))"

text \<open>
  \<open>process_config\<close> queries the shard controller and reports whether it answered; updating the
  configuration and moving keys is left to do, so the server stays as it is.
\<close>

definition process_config :: "'w network \<Rightarrow> 's KvServer \<Rightarrow> 'w \<Rightarrow> (bool \<times> 's KvServer \<times> 'w) result" where
  "process_config net srv w =
     res_bind (query_shardcontroller net (shardcontroller_address srv) w) (\<lambda>(res, w).
       case res of None \<Rightarrow> Inr (False, srv, w) | Some r \<Rightarrow> Inr (True, srv, w))"

text \<open>
  \<open>process_config_loop\<close>, over what the flag reads and \<open>process_config\<close> returns in each pass: the
  number of passes it made and whether it is over.
\<close>

fun config_loop :: "(bool \<times> bool) list \<Rightarrow> nat \<Rightarrow> nat \<times> bool" where
  "config_loop [] failure_count = (0, False)"
| "config_loop ((stopped, ok) # evs) failure_count =
     (if stopped then (0, True)
      else if ok then map_prod Suc id (config_loop evs 0)
      else if failure_count + 1 > 100 then (1, True)
      else map_prod Suc id (config_loop evs (failure_count + 1)))"

section \<open>Debugging\<close>

definition server_get_config :: "'s KvServer \<Rightarrow> ShardControllerConfig" where
  "server_get_config srv = config srv"

fun kvpairs_loop :: "'s KvStore \<Rightarrow> string list \<Rightarrow> 's \<Rightarrow> (string, string) omap \<Rightarrow> ((string, string) omap \<times> 's) result" where
  "kvpairs_loop ops [] st m = Inr (m, st)"
| "kvpairs_loop ops (k # ks) st m =
     res_bind (kv_Get ops \<lparr>get_key = k\<rparr> \<lparr>get_res_value = []\<rparr> st) (\<lambda>(ok, res, st).
       kvpairs_loop ops ks st (if ok then om_put k (get_res_value res) m else m))"

definition all_kvpairs ::
  "'s KvStore \<Rightarrow> (string list \<Rightarrow> string list) \<Rightarrow> 's KvServer \<Rightarrow> ((string, string) omap \<times> 's KvServer) result" where
  "all_kvpairs ops order srv =
     res_bind (kv_AllKeys ops order (store srv)) (\<lambda>(keys, st).
     res_bind (kvpairs_loop ops keys st []) (\<lambda>(m, st). Inr (m, srv\<lparr>store := st\<rparr>)))"

section \<open>The server as a partial map\<close>

fun is_kv_request :: "Request \<Rightarrow> bool" where
  "is_kv_request (JoinReq r) = False"
| "is_kv_request (LeaveReq r) = False"
| "is_kv_request (MoveReq r) = False"
| "is_kv_request (QueryReq r) = False"
| "is_kv_request r = True"

text \<open>What a server without shard controller answers when its contents are the map \<open>m\<close>.\<close>

fun spec_request :: "Request \<Rightarrow> kvmap \<Rightarrow> Response \<times> kvmap" where
  "spec_request (GetReq q) m =
     (case m (get_key q) of
        Some v \<Rightarrow> (GetRes \<lparr>get_res_value = v\<rparr>, m)
      | None \<Rightarrow> (error_response ''key does not exist in the KVStore'', m))"
| "spec_request (PutReq q) m = (PutRes PutResponse, m(put_key q \<mapsto> put_value q))"
| "spec_request (AppendReq q) m = (AppendRes AppendResponse, spec_append (append_key q) (append_value q) m)"
| "spec_request (DeleteReq q) m =
     (case m (delete_key q) of
        Some v \<Rightarrow> (DeleteRes \<lparr>delete_res_value = v\<rparr>, m(delete_key q := None))
      | None \<Rightarrow> (error_response ''key does not exist in the KVStore'', m))"
| "spec_request (MultiGetReq q) m =
     (case spec_multiget m (multiget_keys q) of
        Some vs \<Rightarrow> (MultiGetRes \<lparr>multiget_res_values = vs\<rparr>, m)
      | None \<Rightarrow> (error_response ''key(s) do not exist in the KVStore'', m))"
| "spec_request (MultiPutReq q) m =
     (if length (multiput_keys q) = length (multiput_values q)
      then (MultiPutRes MultiPutResponse, m(multiput_keys q [\<mapsto>] multiput_values q))
      else (error_response ''internal KVStore error'', m))"
| "spec_request r m = (error_response [], m)"

fun spec_run :: "Request list \<Rightarrow> kvmap \<Rightarrow> Response list \<times> kvmap" where
  "spec_run [] m = ([], m)"
| "spec_run (r # rs) m =
     (let (x, m) = spec_request r m; (xs, m) = spec_run rs m in (x # xs, m))"

fun server_run :: "'s KvStore \<Rightarrow> Request list \<Rightarrow> 's KvServer \<Rightarrow> (Response list \<times> 's KvServer) result" where
  "server_run ops [] srv = Inr ([], srv)"
| "server_run ops (r # rs) srv = res_bind (process_request ops r srv) (\<lambda>(x, srv).
     res_bind (server_run ops rs srv) (\<lambda>(xs, srv). Inr (x # xs, srv)))"

fun is_error :: "Response \<Rightarrow> bool" where
  "is_error (ErrorRes r) = True"
| "is_error r = False"

lemma is_error_response [simp]: "is_error (error_response msg)"
  by (simp add: error_response_def)

lemma standalone_responsible [simp]:
  "shardcontroller_address srv = [] \<Longrightarrow> responsible_for srv k"
  "shardcontroller_address srv = [] \<Longrightarrow> responsible_for_keys srv ks"
  by (simp_all add: responsible_for_def responsible_for_keys_def)

context kv_store
begin

text \<open>One request: the response and the new contents are those of the specification.\<close>

lemma process_request_spec:
  assumes "inv (store srv)" "shardcontroller_address srv = []" "is_kv_request r"
  shows "\<exists>st. process_request ops r srv = Inr (fst (spec_request r (abs (store srv))), srv\<lparr>store := st\<rparr>)
    \<and> abs st = snd (spec_request r (abs (store srv)))
    \<and> (\<not> is_error (fst (spec_request r (abs (store srv)))) \<longrightarrow> inv st)"
proof (cases r)
  case (GetReq q)
  show ?thesis
  proof (cases "abs (store srv) (get_key q)")
    case None
    then show ?thesis
      using Get_miss[OF assms(1) None, of "\<lparr>get_res_value = []\<rparr>"] assms(2) GetReq
      by (auto simp: process_op_def)
  next
    case (Some v)
    then show ?thesis
      using Get_hit[OF assms(1) Some, of "\<lparr>get_res_value = []\<rparr>"] assms(2) GetReq
      by (auto simp: process_op_def)
  qed
next
  case (PutReq q)
  then show ?thesis
    using Put_ok[OF assms(1), of q PutResponse] assms(2) by (auto simp: process_op_def)
next
  case (AppendReq q)
  then show ?thesis
    using Append_ok[OF assms(1), of q AppendResponse] assms(2) by (auto simp: process_op_def)
next
  case (DeleteReq q)
  show ?thesis
  proof (cases "abs (store srv) (delete_key q)")
    case None
    then show ?thesis
      using Delete_miss[OF assms(1) None, of "\<lparr>delete_res_value = []\<rparr>"] assms(2) DeleteReq
      by (auto simp: process_op_def)
  next
    case (Some v)
    then show ?thesis
      using Delete_hit[OF assms(1) Some, of "\<lparr>delete_res_value = []\<rparr>"] assms(2) DeleteReq
      by (auto simp: process_op_def)
  qed
next
  case (MultiGetReq q)
  show ?thesis
  proof (cases "spec_multiget (abs (store srv)) (multiget_keys q)")
    case None
    then show ?thesis
      using MultiGet_miss[OF assms(1) None, of "\<lparr>multiget_res_values = []\<rparr>"] assms(2) MultiGetReq
      by (auto simp: process_op_def)
  next
    case (Some vs)
    then show ?thesis
      using MultiGet_hit[OF assms(1) Some, of "\<lparr>multiget_res_values = []\<rparr>"] assms(2) MultiGetReq
      by (auto simp: process_op_def)
  qed
next
  case (MultiPutReq q)
  show ?thesis
  proof (cases "length (multiput_keys q) = length (multiput_values q)")
    case True
    then show ?thesis
      using MultiPut_ok[OF assms(1) True, of MultiPutResponse] assms(2) MultiPutReq
      by (auto simp: process_op_def)
  next
    case False
    then show ?thesis
      using MultiPut_bad[OF assms(1) False, of MultiPutResponse] assms(2) MultiPutReq
      by (auto simp: process_op_def)
  qed
qed (use assms(3) in simp_all)

lemma server_run_spec:
  assumes "inv (store srv)" "shardcontroller_address srv = []" "\<forall>r\<in>set rs. is_kv_request r"
    "\<forall>x\<in>set (fst (spec_run rs (abs (store srv)))). \<not> is_error x"
  shows "\<exists>st. server_run ops rs srv = Inr (fst (spec_run rs (abs (store srv))), srv\<lparr>store := st\<rparr>)
    \<and> abs st = snd (spec_run rs (abs (store srv))) \<and> inv st"
  using assms
proof (induction rs arbitrary: srv)
  case Nil
  then show ?case by (intro exI[of _ "store srv"]) simp
next
  case (Cons r rs)
  let ?m = "abs (store srv)"
  obtain x m where x: "spec_request r ?m = (x, m)" by fastforce
  obtain xs m' where xs: "spec_run rs m = (xs, m')" by fastforce
  have e: "\<not> is_error x" "\<forall>y\<in>set xs. \<not> is_error y" using Cons.prems(4) x xs by simp_all
  have "is_kv_request r" using Cons.prems(3) by simp
  from process_request_spec[OF Cons.prems(1,2) this]
  obtain st where st: "process_request ops r srv = Inr (x, srv\<lparr>store := st\<rparr>)" "abs st = m" "inv st"
    using x e(1) by auto
  have "\<exists>st'. server_run ops rs (srv\<lparr>store := st\<rparr>) = Inr (xs, srv\<lparr>store := st'\<rparr>)
      \<and> abs st' = m' \<and> inv st'"
    using Cons.IH[of "srv\<lparr>store := st\<rparr>"] st Cons.prems(2,3) xs e(2) by simp
  then show ?case using st(1) x xs by auto
qed

text \<open>The pairs \<open>all_kvpairs\<close> collects are those of the map.\<close>

lemma kvpairs_loop_spec:
  assumes "inv st" "\<forall>k\<in>set ks. abs st k \<noteq> None" "om_wf m"
  shows "\<exists>m' st'. kvpairs_loop ops ks st m = Inr (m', st') \<and> inv st' \<and> abs st' = abs st \<and> om_wf m'
    \<and> (\<forall>k. om_find m' k = (if k \<in> set ks then abs st k else om_find m k))"
  using assms
proof (induction ks arbitrary: st m)
  case Nil
  then show ?case by simp
next
  case (Cons k ks)
  then obtain v where "abs st (get_key \<lparr>get_key = k\<rparr>) = Some v" by auto
  from Get_hit[OF Cons.prems(1) this, of "\<lparr>get_res_value = []\<rparr>"] obtain st1 where
    1: "kv_Get ops \<lparr>get_key = k\<rparr> \<lparr>get_res_value = []\<rparr> st = Inr (True, \<lparr>get_res_value = v\<rparr>, st1)"
       "inv st1" "abs st1 = abs st" by blast
  have "om_wf (om_put k v m)" using Cons.prems(3) by simp
  with Cons.IH[of st1 "om_put k v m"] 1(2,3) Cons.prems(2) obtain m' st' where
    2: "kvpairs_loop ops ks st1 (om_put k v m) = Inr (m', st')" "inv st'" "abs st' = abs st" "om_wf m'"
       "\<forall>j. om_find m' j = (if j \<in> set ks then abs st j else om_find (om_put k v m) j)"
    by auto
  have "\<forall>j. om_find m' j = (if j \<in> set (k # ks) then abs st j else om_find m j)"
    using 2(5) Cons.prems(3) \<open>abs st (get_key \<lparr>get_key = k\<rparr>) = Some v\<close> by auto
  then show ?case using 1(1) 2(1-4) by auto
qed

lemma all_kvpairs_spec:
  assumes "inv (store srv)" "\<And>xs. mset (order xs) = mset xs"
  shows "\<exists>m st. all_kvpairs ops order srv = Inr (m, srv\<lparr>store := st\<rparr>) \<and> inv st
    \<and> abs st = abs (store srv) \<and> om_wf m \<and> om_find m = abs (store srv)"
proof -
  obtain ks st1 where 1: "kv_AllKeys ops order (store srv) = Inr (ks, st1)" "inv st1"
      "abs st1 = abs (store srv)" "set ks = dom (abs (store srv))"
    using AllKeys_ok[OF assms] by blast
  have "\<forall>k\<in>set ks. abs st1 k \<noteq> None" unfolding 1(3,4) by auto
  from kvpairs_loop_spec[OF 1(2) this om.wf_empty] obtain m st where
    2: "kvpairs_loop ops ks st1 [] = Inr (m, st)" "inv st" "abs st = abs st1" "om_wf m"
       "\<forall>k. om_find m k = (if k \<in> set ks then abs st1 k else None)" by auto
  have "om_find m = abs (store srv)"
    using 2(5) unfolding 1(3,4) by (auto simp: fun_eq_iff domIff)
  then show ?thesis using 1(1,3) 2(1-4) by (auto simp: all_kvpairs_def)
qed

end

context kv_live
begin

lemma process_op_live:
  assumes "process_op b op wrap nr failed srv = Inr (x, srv')" "inv (store srv)"
    "\<And>ok r st. op (store srv) = Inr (ok, r, st) \<Longrightarrow> inv st"
  shows "inv (store srv')"
  using assms by (auto simp: process_op_def res_bind_Inr split: if_splits)

lemma process_request_live:
  assumes "process_request ops r srv = Inr (x, srv')" "inv (store srv)"
  shows "inv (store srv')"
proof (cases r)
  case (GetReq q)
  then show ?thesis using assms Get_live by (auto elim!: process_op_live)
next
  case (PutReq q)
  have "inv st" if "kv_Put ops q PutResponse (store srv) = Inr (ok, r, st)" for ok r st
    using Put_ok[OF assms(2), of q PutResponse] that by auto
  then show ?thesis using PutReq assms by (auto elim!: process_op_live)
next
  case (AppendReq q)
  have "inv st" if "kv_Append ops q AppendResponse (store srv) = Inr (ok, r, st)" for ok r st
    using Append_ok[OF assms(2), of q AppendResponse] that by auto
  then show ?thesis using AppendReq assms by (auto elim!: process_op_live)
next
  case (DeleteReq q)
  then show ?thesis using assms Delete_live by (auto elim!: process_op_live)
next
  case (MultiGetReq q)
  then show ?thesis using assms MultiGet_live by (auto elim!: process_op_live)
next
  case (MultiPutReq q)
  then show ?thesis using assms MultiPut_live by (auto elim!: process_op_live)
qed (use assms in simp_all)

lemma server_run_live:
  assumes "inv (store srv)" "shardcontroller_address srv = []" "\<forall>r\<in>set rs. is_kv_request r"
  shows "\<exists>st. server_run ops rs srv = Inr (fst (spec_run rs (abs (store srv))), srv\<lparr>store := st\<rparr>)
    \<and> abs st = snd (spec_run rs (abs (store srv))) \<and> inv st"
  using assms
proof (induction rs arbitrary: srv)
  case Nil
  then show ?case by (intro exI[of _ "store srv"]) simp
next
  case (Cons r rs)
  let ?m = "abs (store srv)"
  obtain x m where x: "spec_request r ?m = (x, m)" by fastforce
  obtain xs m' where xs: "spec_run rs m = (xs, m')" by fastforce
  have "is_kv_request r" using Cons.prems(3) by simp
  from process_request_spec[OF Cons.prems(1,2) this]
  obtain st where st: "process_request ops r srv = Inr (x, srv\<lparr>store := st\<rparr>)" "abs st = m"
    using x by auto
  have "inv st" using process_request_live[OF st(1) Cons.prems(1)] by simp
  then have "\<exists>st'. server_run ops rs (srv\<lparr>store := st\<rparr>) = Inr (xs, srv\<lparr>store := st'\<rparr>)
      \<and> abs st' = m' \<and> inv st'"
    using Cons.IH[of "srv\<lparr>store := st\<rparr>"] st Cons.prems(2,3) xs by simp
  then show ?case using st(1) x xs by auto
qed

end

section \<open>Lemmas about the loops\<close>

lemma accept_loop_run:
  assumes "n_workers srv = n" "length (conn_queues srv) = n" "0 < n" "w < n"
  shows "\<exists>qs. accept_loop (map (\<lambda>c. (False, Some c)) cs) w srv
      = Inr ((w + length cs) mod n, srv\<lparr>conn_queues := qs\<rparr>) \<and> length qs = n
    \<and> (\<forall>i<n. qs ! i = conn_queues srv ! i @ map ((!) cs) (filter (\<lambda>j. (w + j) mod n = i) [0..<length cs]))"
  using assms
proof (induction cs arbitrary: w srv)
  case Nil
  then show ?case by (intro exI[of _ "conn_queues srv"]) simp
next
  case (Cons c cs)
  let ?w = "(w + 1) mod n"
  let ?srv = "srv\<lparr>conn_queues := (conn_queues srv)[w := conn_queues srv ! w @ [c]]\<rparr>"
  have w: "?w < n" using Cons.prems(3) by simp
  obtain qs where qs: "accept_loop (map (\<lambda>c. (False, Some c)) cs) ?w ?srv
      = Inr ((?w + length cs) mod n, srv\<lparr>conn_queues := qs\<rparr>)" "length qs = n"
    "\<forall>i<n. qs ! i = conn_queues ?srv ! i @ map ((!) cs) (filter (\<lambda>j. (?w + j) mod n = i) [0..<length cs])"
    using Cons.IH[of ?srv ?w] Cons.prems w by auto
  have shift: "(?w + j) mod n = (w + Suc j) mod n" for j
    by (metis Suc_eq_plus1 add.assoc add.commute mod_add_left_eq plus_1_eq_Suc)
  have "accept_loop (map (\<lambda>c. (False, Some c)) (c # cs)) w srv
      = Inr ((w + length (c # cs)) mod n, srv\<lparr>conn_queues := qs\<rparr>)"
    using qs(1) Cons.prems shift[of "length cs"] by simp
  moreover have "qs ! i = conn_queues srv ! i @
      map ((!) (c # cs)) (filter (\<lambda>j. (w + j) mod n = i) [0..<length (c # cs)])" if i: "i < n" for i
  proof -
    have f: "filter (\<lambda>j. (w + j) mod n = i) [0..<length (c # cs)]
        = (if w = i then [0] else []) @ map Suc (filter (\<lambda>j. (?w + j) mod n = i) [0..<length cs])"
      using Cons.prems(4) unfolding shift
      by (simp add: upt_conv_Cons map_Suc_upt[symmetric] filter_map comp_def del: upt_Suc)
    show ?thesis
      using qs(3)[rule_format, OF i] Cons.prems(2,4) unfolding f
      by (auto simp: nth_list_update comp_def)
  qed
  ultimately show ?case using qs(2) by blast
qed

text \<open>\<open>process_config_loop\<close> with \<open>f\<close> failures behind it behaves as if it had seen them.\<close>

definition failing :: "bool list \<Rightarrow> nat \<Rightarrow> bool" where
  "failing oks i \<longleftrightarrow> i + 101 \<le> length oks \<and> (\<forall>j. i \<le> j \<and> j < i + 101 \<longrightarrow> \<not> oks ! j)"

lemma config_loop_windows:
  assumes "f \<le> 100" "config_loop (map (Pair False) oks) f = (n, over)"
  shows "n \<le> length oks \<and> (over \<longrightarrow> 101 \<le> f + n \<and> failing (replicate f False @ oks) (f + n - 101))
    \<and> (\<not> over \<longrightarrow> n = length oks \<and> (\<forall>i. \<not> failing (replicate f False @ oks) i))"
  using assms
proof (induction oks arbitrary: f n over)
  case Nil
  then show ?case by (auto simp: failing_def)
next
  case (Cons ok oks)
  show ?case
  proof (cases ok)
    case True
    obtain n' o' where r: "config_loop (map (Pair False) oks) 0 = (n', o')" by fastforce
    have n: "n = Suc n'" "over = o'" using Cons.prems(2) True r by auto
    note IH = Cons.IH[OF _ r, simplified]
    have w: "failing (replicate f False @ True # oks) i \<longleftrightarrow> f < i \<and> failing oks (i - Suc f)" for i
    proof
      assume l: "failing (replicate f False @ True # oks) i"
      have "f < i"
      proof (rule ccontr)
        assume "\<not> f < i"
        then have "i \<le> f \<and> f < i + 101" using Cons.prems(1) by simp
        then have "\<not> (replicate f False @ True # oks) ! f" using l unfolding failing_def by blast
        then show False by (simp add: nth_append)
      qed
      moreover have "\<not> oks ! j" if "i - Suc f \<le> j" "j < i - Suc f + 101" for j
      proof -
        have "i \<le> j + Suc f \<and> j + Suc f < i + 101" using that \<open>f < i\<close> by auto
        then have "\<not> (replicate f False @ True # oks) ! (j + Suc f)" using l unfolding failing_def by blast
        then show ?thesis by (simp add: nth_append)
      qed
      ultimately show "f < i \<and> failing oks (i - Suc f)" using l by (auto simp: failing_def)
    next
      assume r: "f < i \<and> failing oks (i - Suc f)"
      show "failing (replicate f False @ True # oks) i"
        unfolding failing_def
      proof (intro conjI allI impI)
        show "i + 101 \<le> length (replicate f False @ True # oks)" using r by (auto simp: failing_def)
        fix j assume j: "i \<le> j \<and> j < i + 101"
        then have "i - Suc f \<le> j - Suc f \<and> j - Suc f < i - Suc f + 101" using r by auto
        then have "\<not> oks ! (j - Suc f)" using r unfolding failing_def by blast
        moreover have "j = Suc f + (j - Suc f)" using j r by auto
        ultimately show "\<not> (replicate f False @ True # oks) ! j"
          by (metis (no_types) add_Suc append_is_Nil_conv diff_add_inverse length_replicate not_add_less1
              nth_Cons_Suc nth_append add_Suc_shift)
      qed
    qed
    have eq: "f + Suc n' - 101 - Suc f = n' - 101" if "101 \<le> n'" using that by simp
    show ?thesis
      using IH True n by (auto simp: w eq)
  next
    case False
    show ?thesis
    proof (cases "f = 100")
      case True
      then have n: "n = 1" "over" using Cons.prems(2) False by auto
      have e: "replicate f False @ ok # oks = replicate 101 False @ oks"
        using True False by (simp add: replicate_append_same[symmetric] numeral_eq_Suc)
      have "failing (replicate 101 False @ oks) 0" by (simp add: failing_def nth_append)
      then have "failing (replicate f False @ ok # oks) 0" unfolding e .
      then show ?thesis using n True by simp
    next
      case f: False
      obtain n' o' where r: "config_loop (map (Pair False) oks) (Suc f) = (n', o')" by fastforce
      have n: "n = Suc n'" "over = o'" using Cons.prems False f r by auto
      have e: "replicate f False @ ok # oks = replicate (Suc f) False @ oks"
        using False by (simp add: replicate_app_Cons_same)
      have "Suc f \<le> 100" using Cons.prems(1) f by simp
      from Cons.IH[OF this r] show ?thesis unfolding e n by (simp del: replicate_Suc)
    qed
  qed
qed

section \<open>The server over the simple store\<close>

lemma server_run_append:
  "server_run ops (xs @ ys) srv = res_bind (server_run ops xs srv) (\<lambda>(as, srv).
     res_bind (server_run ops ys srv) (\<lambda>(bs, srv). Inr (as @ bs, srv)))"
proof (induction xs arbitrary: srv)
  case Nil
  show ?case by (cases "server_run ops ys srv") auto
next
  case (Cons r xs)
  show ?case
  proof (cases "process_request ops r srv")
    case (Inl e)
    then show ?thesis by simp
  next
    case (Inr p)
    then obtain x srv1 where p: "process_request ops r srv = Inr (x, srv1)" by (cases p) auto
    show ?thesis
    proof (cases "server_run ops xs srv1")
      case (Inl e)
      then show ?thesis using p Cons.IH[of srv1] by simp
    next
      case (Inr q)
      then show ?thesis
        using p Cons.IH[of srv1] by (cases q; cases "server_run ops ys (snd q)") auto
    qed
  qed
qed

lemmas simple_request_simps = process_op_def simple_ops_def simple_simps

lemma simple_locked_request:
  assumes "mtx (store srv)" "shardcontroller_address srv = []" "is_kv_request r"
  shows "process_request simple_ops r srv = Inl (NeverReturns ''mtx.lock()'')"
  using assms by (cases r) (simp_all add: simple_request_simps)

lemma simple_error_locks:
  assumes "process_request simple_ops r srv = Inr (x, srv')" "is_error x" "shardcontroller_address srv = []"
  shows "mtx (store srv')"
proof (cases r)
  case (MultiGetReq q)
  then show ?thesis
    using assms
    by (auto simp: simple_request_simps simple_multiget_loop_eq split: if_splits option.splits)
qed (use assms in \<open>auto simp: simple_request_simps Let_def split: if_splits option.splits\<close>)

section \<open>Properties\<close>

text \<open>
  C1. The server over the concurrent store is a map: without a shard controller, any sequence of
  key-value requests (absent keys and malformed \<open>MultiPut\<close>s included) is answered as the
  specification answers it, and leaves the contents the specification leaves; in particular no
  request throws, fails an assertion or waits for ever.
\<close>

theorem concurrent_server_refines_map:
  assumes "db_ok (store srv)" "shardcontroller_address srv = []" "\<forall>r\<in>set rs. is_kv_request r"
  shows "\<exists>db. server_run conc_ops rs srv = Inr (fst (spec_run rs (conc_abs (store srv))), srv\<lparr>store := db\<rparr>)
    \<and> conc_abs db = snd (spec_run rs (conc_abs (store srv))) \<and> db_ok db"
  using conc_kv.server_run_live[OF assms] .

theorem concurrent_server_refines_map_witness:
  "\<exists>srv'. server_run conc_ops [GetReq \<lparr>get_key = ''k''\<rparr>, PutReq \<lparr>put_key = ''k'', put_value = ''v''\<rparr>,
       GetReq \<lparr>get_key = ''k''\<rparr>] (new_server ''s:1'' [] 5 (db_init (\<lambda>k. 7)))
     = Inr ([error_response ''key does not exist in the KVStore'', PutRes PutResponse,
             GetRes \<lparr>get_res_value = ''v''\<rparr>], srv')"
  using concurrent_server_refines_map[of "new_server ''s:1'' [] 5 (db_init (\<lambda>k. 7))"
      "[GetReq \<lparr>get_key = ''k''\<rparr>, PutReq \<lparr>put_key = ''k'', put_value = ''v''\<rparr>, GetReq \<lparr>get_key = ''k''\<rparr>]"]
  by (auto simp: new_server_def db_ok_init conc_abs_init)

text \<open>
  C35. The server over the simple store (the one \<open>start\<close> creates) answers like the specification up
  to and including the first request the specification answers with an error; every further
  key-value request it processes after that waits for ever.
\<close>

theorem simple_server_until_first_error:
  assumes "simple_ready (store srv)" "shardcontroller_address srv = []"
    "\<forall>r\<in>set (rs @ [bad, next_req] @ others). is_kv_request r"
    "spec_run rs (simple_abs (store srv)) = (xs, m)" "\<forall>x\<in>set xs. \<not> is_error x"
    "is_error (fst (spec_request bad m))"
  shows "(\<exists>srv'. server_run simple_ops (rs @ [bad]) srv = Inr (xs @ [fst (spec_request bad m)], srv'))
    \<and> server_run simple_ops (rs @ [bad, next_req] @ others) srv = Inl (NeverReturns ''mtx.lock()'')"
proof -
  have kv: "\<forall>r\<in>set rs. is_kv_request r" "is_kv_request bad" "is_kv_request next_req"
    using assms(3) by auto
  obtain st where st: "server_run simple_ops rs srv = Inr (xs, srv\<lparr>store := st\<rparr>)"
      "simple_abs st = m" "simple_ready st"
    using simple_kv.server_run_spec[OF assms(1,2) kv(1)] assms(4,5) by auto
  let ?srv = "srv\<lparr>store := st\<rparr>"
  obtain st' where b: "process_request simple_ops bad ?srv
      = Inr (fst (spec_request bad m), ?srv\<lparr>store := st'\<rparr>)"
    using simple_kv.process_request_spec[of ?srv bad] st(2,3) assms(2) kv(2) by auto
  have "mtx st'" using simple_error_locks[OF b assms(6)] assms(2) by simp
  then have "process_request simple_ops next_req (?srv\<lparr>store := st'\<rparr>) = Inl (NeverReturns ''mtx.lock()'')"
    using simple_locked_request[of "?srv\<lparr>store := st'\<rparr>" next_req] assms(2) kv(3) by simp
  then show ?thesis using st(1) b by (simp add: server_run_append)
qed

theorem simple_server_until_first_error_witness:
  "server_run simple_ops [PutReq \<lparr>put_key = ''a'', put_value = ''1''\<rparr>, GetReq \<lparr>get_key = ''b''\<rparr>,
     GetReq \<lparr>get_key = ''a''\<rparr>] (new_server ''s:1'' [] 5 simple_init) = Inl (NeverReturns ''mtx.lock()'')"
  using simple_server_until_first_error[of "new_server ''s:1'' [] 5 simple_init"
      "[PutReq \<lparr>put_key = ''a'', put_value = ''1''\<rparr>]" "GetReq \<lparr>get_key = ''b''\<rparr>" "GetReq \<lparr>get_key = ''a''\<rparr>" "[]"]
  by (simp add: new_server_def simple_ready_def simple_init_def simple_abs_def)

text \<open>
  \<open>all_kvpairs\<close> is a snapshot: on a server over either store (the simple one unlocked) it
  returns, in key order, exactly the pairs of the store, whatever the iteration order of the hash
  table, and changes no contents.
\<close>

theorem all_kvpairs_snapshot:
  assumes "\<And>xs. mset (order xs) = mset xs"
  shows "(simple_ready (store srv) \<longrightarrow> (\<exists>m st. all_kvpairs simple_ops order srv = Inr (m, srv\<lparr>store := st\<rparr>)
        \<and> om_wf m \<and> om_find m = simple_abs (store srv) \<and> simple_abs st = simple_abs (store srv) \<and> simple_ready st))
    \<and> (db_ok (store srv') \<longrightarrow> (\<exists>m st. all_kvpairs conc_ops order srv' = Inr (m, srv'\<lparr>store := st\<rparr>)
        \<and> om_wf m \<and> om_find m = conc_abs (store srv') \<and> conc_abs st = conc_abs (store srv') \<and> db_ok st))"
  using simple_kv.all_kvpairs_spec[of srv order, OF _ assms] conc_kv.all_kvpairs_spec[of srv' order, OF _ assms]
  by blast

theorem all_kvpairs_snapshot_witness:
  "\<exists>st. all_kvpairs simple_ops rev (new_server ''s:1'' [] 5 \<lparr>mtx = False, store_tbl = [(''b'', ''2''), (''a'', ''1'')]\<rparr>)
     = Inr ([(''a'', ''1''), (''b'', ''2'')], st)"
proof -
  let ?st = "\<lparr>mtx = False, store_tbl = [(''b'', ''2''), (''a'', ''1'')]\<rparr>"
  let ?srv = "new_server ''s:1'' [] 5 ?st"
  have "simple_ready (store ?srv)" by (simp add: new_server_def simple_ready_def um_wf_def)
  then obtain m st where m: "all_kvpairs simple_ops rev ?srv = Inr (m, ?srv\<lparr>store := st\<rparr>)"
      "om_wf m" "om_find m = simple_abs (store ?srv)"
    using conjunct1[OF all_kvpairs_snapshot[of rev ?srv, OF mset_rev]] by blast
  have st: "store ?srv = ?st" by (simp add: new_server_def)
  have w: "om_wf [(''a'', ''1''), (''b'', ''2'')]" by (simp add: om_wf_def less_char_def)
  have "m = [(''a'', ''1''), (''b'', ''2'')]"
    by (rule om_wf_inj[OF m(2) w]) (auto simp: m(3) st simple_abs_def um_find_def om_find_def fun_eq_iff)
  then show ?thesis using m(1) by blast
qed

text \<open>
  A server with a shard controller refuses every request for a key: because \<open>get_server\<close> finds no
  server, \<open>process_request\<close> answers ``server not responsible'' for any configuration, and leaves the
  server as it was. (Only \<open>MultiGet\<close> and \<open>MultiPut\<close> without keys get to the store.)
\<close>

theorem distributed_server_refuses_keys:
  assumes "shardcontroller_address srv \<noteq> []"
  shows "process_request ops (GetReq q1) srv = Inr (error_response ''server not responsible for key'', srv)
    \<and> process_request ops (PutReq q2) srv = Inr (error_response ''server not responsible for key'', srv)
    \<and> process_request ops (AppendReq q3) srv = Inr (error_response ''server not responsible for key'', srv)
    \<and> process_request ops (DeleteReq q4) srv = Inr (error_response ''server not responsible for key'', srv)
    \<and> (multiget_keys q5 \<noteq> [] \<longrightarrow>
        process_request ops (MultiGetReq q5) srv = Inr (error_response ''server not responsible for key(s)'', srv))
    \<and> (multiput_keys q6 \<noteq> [] \<longrightarrow>
        process_request ops (MultiPutReq q6) srv = Inr (error_response ''server not responsible for key(s)'', srv))"
proof -
  have "\<not> responsible_for srv k" for k using assms by (simp add: responsible_for_def)
  moreover have "ks \<noteq> [] \<Longrightarrow> \<not> responsible_for_keys srv ks" for ks
    using assms by (cases ks) (simp_all add: responsible_for_keys_def)
  ultimately show ?thesis by (simp add: process_op_def)
qed

theorem distributed_server_refuses_keys_witness:
  "process_request simple_ops (PutReq \<lparr>put_key = ''A'', put_value = ''v''\<rparr>) (new_server ''s:1'' ''c:2'' 5 simple_init)
     = Inr (error_response ''server not responsible for key'', new_server ''s:1'' ''c:2'' 5 simple_init)"
proof -
  have "shardcontroller_address (new_server ''s:1'' ''c:2'' 5 simple_init) \<noteq> []"
    by (simp add: new_server_def)
  from distributed_server_refuses_keys[OF this] show ?thesis by blast
qed

text \<open>
  Accepted clients are dealt to the workers in turn: starting with worker 0, the clients added
  to the queue of worker \<open>i\<close> are those whose position in the order of acceptance is \<open>i\<close> modulo the
  number of workers, in that order; every accepted client is queued, and no queue is accessed out
  of range.
\<close>

theorem accept_round_robin:
  assumes "length (conn_queues srv) = n_workers srv" "0 < n_workers srv"
  shows "\<exists>qs. accept_loop (map (\<lambda>c. (False, Some c)) cs) 0 srv
      = Inr (length cs mod n_workers srv, srv\<lparr>conn_queues := qs\<rparr>) \<and> length qs = n_workers srv
    \<and> (\<forall>i<n_workers srv. qs ! i = conn_queues srv ! i
          @ map ((!) cs) (filter (\<lambda>j. j mod n_workers srv = i) [0..<length cs]))"
  using accept_loop_run[OF refl assms(1,2,2), of cs] by simp

theorem accept_round_robin_witness:
  "\<exists>srv. accept_loop (map (\<lambda>fd. (False, Some \<lparr>conn_fd = fd, conn_address = ''c'', is_connected = True\<rparr>)) [4, 5, 6])
       0 (new_server ''s:1'' [] 2 simple_init) = Inr (1, srv)
     \<and> map conn_fd (conn_queues srv ! 0) = [4, 6] \<and> map conn_fd (conn_queues srv ! 1) = [5]"
  using accept_round_robin[of "new_server ''s:1'' [] 2 simple_init"
      "map (\<lambda>fd. \<lparr>conn_fd = fd, conn_address = ''c'', is_connected = True\<rparr>) [4, 5, 6]"]
  by (auto simp: new_server_def upt_conv_Cons)

text \<open>
  The loop that polls the shard controller gives up exactly after 101 failures in a row: while
  the server is not stopped, the loop is over after \<open>n\<close> passes only when the last 101 of them failed,
  and if it is not over then it made all passes and no 101 in a row failed.
\<close>

theorem config_loop_gives_up:
  "(snd (config_loop (map (Pair False) oks) 0) \<longrightarrow>
      101 \<le> fst (config_loop (map (Pair False) oks) 0)
      \<and> failing oks (fst (config_loop (map (Pair False) oks) 0) - 101))
   \<and> (\<not> snd (config_loop (map (Pair False) oks) 0) \<longrightarrow>
      fst (config_loop (map (Pair False) oks) 0) = length oks \<and> (\<forall>i. \<not> failing oks i))"
  using config_loop_windows[of 0 oks "fst (config_loop (map (Pair False) oks) 0)"
      "snd (config_loop (map (Pair False) oks) 0)"] by simp

theorem config_loop_gives_up_witness:
  "\<not> failing [False, True, False] 0 \<and> \<not> snd (config_loop (map (Pair False) [False, True, False]) 0)"
  using config_loop_gives_up[of "[False, True, False]"] by simp

end
