(* ===== verification/Shard_Controller.thy ===== *)
theory Shard_Controller
  imports Kv_Server
begin

text \<open>
  The shard controller, \<open>shardcontroller/static_shardcontroller.hpp\<close> and \<open>.cpp\<close>: its four
  operations as far as they are written (\<open>Query\<close>, \<open>Join\<close> and \<open>Leave\<close> leave the configuration
  alone), the processing of requests, and the set of current connections with \<open>stop\<close>.
\<close>

section \<open>State and operations\<close>

record StaticShardController =
  sc_config :: ShardControllerConfig
  sc_is_stopped :: bool
  sc_address :: string
  current_conns :: "ClientConn list"

definition new_shardcontroller :: "string \<Rightarrow> StaticShardController" where
  "new_shardcontroller addr =
     \<lparr>sc_config = \<lparr>server_to_shards = []\<rparr>, sc_is_stopped = False, sc_address = addr, current_conns = []\<rparr>"

definition sc_Query ::
  "QueryRequest \<Rightarrow> QueryResponse \<Rightarrow> StaticShardController \<Rightarrow> bool \<times> QueryResponse \<times> StaticShardController" where
  "sc_Query req res sc = (True, res, sc)"

definition sc_Join :: "JoinRequest \<Rightarrow> StaticShardController \<Rightarrow> bool \<times> StaticShardController" where
  "sc_Join req sc = (True, sc)"

definition sc_Leave :: "LeaveRequest \<Rightarrow> StaticShardController \<Rightarrow> bool \<times> StaticShardController" where
  "sc_Leave req sc = (True, sc)"

text \<open>
  The innermost loop of \<open>Move\<close>, over the shards of one server: \<open>false\<close> when a granularity differs.
  In every case of the overlap the loop goes on without putting anything into \<open>new_shards\<close>.
\<close>

fun move_shard_loop :: "Shard \<Rightarrow> Shard list \<Rightarrow> Shard list \<Rightarrow> (bool \<times> Shard list) result" where
  "move_shard_loop moved [] new_shards = Inr (True, new_shards)"
| "move_shard_loop moved (cur # current_shards) new_shards =
     res_bind (granularity moved) (\<lambda>g1. res_bind (granularity cur) (\<lambda>g2.
       if g1 \<noteq> g2 then Inr (False, new_shards)
       else res_bind (get_overlap cur moved) (\<lambda>os.
         case os of
           NO_OVERLAP \<Rightarrow> move_shard_loop moved current_shards new_shards
         | OVERLAP_START \<Rightarrow> move_shard_loop moved current_shards new_shards
         | OVERLAP_END \<Rightarrow> move_shard_loop moved current_shards new_shards
         | COMPLETELY_CONTAINS \<Rightarrow> move_shard_loop moved current_shards new_shards
         | COMPLETELY_CONTAINED \<Rightarrow> move_shard_loop moved current_shards new_shards)))"

text \<open>The loop over the servers replaces each one's shards; an early return keeps what was replaced.\<close>

fun move_server_loop ::
  "Shard \<Rightarrow> (string \<times> Shard list) list \<Rightarrow> (bool \<times> (string \<times> Shard list) list) result" where
  "move_server_loop moved [] = Inr (True, [])"
| "move_server_loop moved ((server, current_shards) # servers) =
     res_bind (move_shard_loop moved current_shards []) (\<lambda>(ok, new_shards).
       if \<not> ok then Inr (False, (server, current_shards) # servers)
       else res_bind (move_server_loop moved servers) (\<lambda>(ok, servers).
              Inr (ok, (server, new_shards) # servers)))"

fun move_loop :: "Shard list \<Rightarrow> (string \<times> Shard list) list \<Rightarrow> (bool \<times> (string \<times> Shard list) list) result" where
  "move_loop [] servers = Inr (True, servers)"
| "move_loop (moved # shards) servers =
     res_bind (move_server_loop moved servers) (\<lambda>(ok, servers).
       if ok then move_loop shards servers else Inr (False, servers))"

definition sc_Move :: "MoveRequest \<Rightarrow> StaticShardController \<Rightarrow> (bool \<times> StaticShardController) result" where
  "sc_Move req sc =
     res_bind (move_loop (move_shards req) (server_to_shards (sc_config sc))) (\<lambda>(ok, servers).
       Inr (ok, sc\<lparr>sc_config := (sc_config sc)\<lparr>server_to_shards := servers\<rparr>\<rparr>))"

fun sc_process_request ::
  "Request \<Rightarrow> StaticShardController \<Rightarrow> (Response \<times> StaticShardController) result" where
  "sc_process_request (JoinReq q) sc = (case sc_Join q sc of (ok, sc) \<Rightarrow>
     Inr (if ok then JoinRes JoinResponse else error_response ''Failed to process Join request.'', sc))"
| "sc_process_request (LeaveReq q) sc = (case sc_Leave q sc of (ok, sc) \<Rightarrow>
     Inr (if ok then LeaveRes LeaveResponse else error_response ''Failed to process Leave request.'', sc))"
| "sc_process_request (MoveReq q) sc = res_bind (sc_Move q sc) (\<lambda>(ok, sc).
     Inr (if ok then MoveRes MoveResponse else error_response ''Failed to process Move request.'', sc))"
| "sc_process_request (QueryReq q) sc =
     (case sc_Query q \<lparr>query_config = \<lparr>server_to_shards = []\<rparr>\<rparr> sc of (ok, res, sc) \<Rightarrow>
     Inr (if ok then QueryRes res else error_response ''Failed to process Query request.'', sc))"
| "sc_process_request req sc = Inl (LogicError ''invalid request variant!'')"

section \<open>Connections\<close>

text \<open>
  \<open>accept_clients_loop\<close>: each accepted connection joins the current ones, and a thread of its own
  handles it.
\<close>

fun sc_accept_loop ::
  "(bool \<times> ClientConn option) list \<Rightarrow> StaticShardController \<Rightarrow> StaticShardController" where
  "sc_accept_loop [] sc = sc"
| "sc_accept_loop ((stopped, conn) # evs) sc =
     (if stopped then sc
      else case conn of
        None \<Rightarrow> sc
      | Some c \<Rightarrow> sc_accept_loop evs (sc\<lparr>current_conns := current_conns sc @ [c]\<rparr>))"

text \<open>
  The loop of \<open>handle_client\<close>, over what \<open>is_stopped\<close> and \<open>is_connected\<close> read, what \<open>recv_request\<close>
  gives and whether the response is sent: the responses sent and whether the loop is over.
\<close>

fun handle_loop ::
  "(bool \<times> Request option \<times> bool) list \<Rightarrow> StaticShardController
    \<Rightarrow> (Response list \<times> bool \<times> StaticShardController) result" where
  "handle_loop [] sc = Inr ([], False, sc)"
| "handle_loop ((go_on, req, sent) # evs) sc =
     (if \<not> go_on then Inr ([], True, sc)
      else case req of
        None \<Rightarrow> Inr ([], True, sc)
      | Some q \<Rightarrow> res_bind (sc_process_request q sc) (\<lambda>(res, sc).
          if \<not> sent then Inr ([], True, sc)
          else res_bind (handle_loop evs sc) (\<lambda>(out, over, sc). Inr (res # out, over, sc))))"

text \<open>
  The end of \<open>handle_client\<close>: the client is shut down and its connection, found by its descriptor,
  taken off the current ones; whether \<open>stop\<close> is woken is the second result.
\<close>

fun remove_conn :: "int \<Rightarrow> ClientConn list \<Rightarrow> ClientConn list" where
  "remove_conn fd [] = []"
| "remove_conn fd (c # cs) = (if conn_fd c = fd then cs else c # remove_conn fd cs)"

definition finish_client :: "ClientConn \<Rightarrow> StaticShardController \<Rightarrow> StaticShardController \<times> bool \<times> conn_call list" where
  "finish_client client sc =
     (let calls = snd (snd (client_shutdown client));
          sc = sc\<lparr>current_conns := remove_conn (conn_fd client) (current_conns sc)\<rparr>
      in (sc, current_conns sc = [], calls))"

text \<open>\<open>stop\<close>, up to its wait: it waits until the current connections are empty.\<close>

definition sc_stop :: "StaticShardController \<Rightarrow> StaticShardController \<times> conn_call list" where
  "sc_stop sc =
     (sc\<lparr>sc_is_stopped := True,
         current_conns := map (\<lambda>c. fst (snd (client_shutdown c))) (current_conns sc)\<rparr>,
      concat (map (\<lambda>c. snd (snd (client_shutdown c))) (current_conns sc)))"

definition stop_can_return :: "StaticShardController \<Rightarrow> bool" where
  "stop_can_return sc \<longleftrightarrow> current_conns sc = []"

section \<open>Facts about Move\<close>

lemma get_overlap_total: "lower a \<le> upper a \<Longrightarrow> lower b \<le> upper b \<Longrightarrow> \<exists>os. get_overlap a b = Inr os"
  by (auto simp: get_overlap_def)

text \<open>Shards of one granularity with bounds in order, as \<open>split_into\<close> and the operations make them.\<close>

definition uniform :: "nat \<Rightarrow> Shard list \<Rightarrow> bool" where
  "uniform g ss \<longleftrightarrow> (\<forall>s\<in>set ss. granularity s = Inr g \<and> lower s \<le> upper s)"

lemma move_shard_loop_uniform:
  "uniform g (moved # ss) \<Longrightarrow> move_shard_loop moved ss ns = Inr (True, ns)"
proof (induction ss)
  case Nil
  then show ?case by simp
next
  case (Cons s ss)
  then have "uniform g (moved # ss)" by (simp add: uniform_def)
  moreover obtain os where "get_overlap s moved = Inr os"
    using get_overlap_total[of s moved] Cons.prems by (auto simp: uniform_def)
  ultimately show ?case
    using Cons by (cases os) (simp_all add: uniform_def)
qed

lemma move_server_loop_uniform:
  "\<forall>p\<in>set servers. uniform g (moved # snd p) \<Longrightarrow>
    move_server_loop moved servers = Inr (True, map (\<lambda>p. (fst p, [])) servers)"
  by (induction servers) (auto simp: move_shard_loop_uniform)

lemma move_loop_uniform:
  assumes "\<forall>p\<in>set servers. uniform g (snd p)" "uniform g shards"
  shows "move_loop shards servers
    = Inr (True, if shards = [] then servers else map (\<lambda>p. (fst p, [])) servers)"
  using assms
proof (induction shards arbitrary: servers)
  case Nil
  then show ?case by simp
next
  case (Cons s ss)
  have "move_server_loop s servers = Inr (True, map (\<lambda>p. (fst p, [])) servers)"
    using Cons.prems by (intro move_server_loop_uniform) (auto simp: uniform_def)
  moreover have "move_loop ss (map (\<lambda>p. (fst p, [])) servers)
      = Inr (True, map (\<lambda>p. (fst p, [])) servers)"
    using Cons.IH[of "map (\<lambda>p. (fst p, [])) servers"] Cons.prems by (auto simp: uniform_def)
  ultimately show ?case by simp
qed

section \<open>Facts about connections\<close>

lemma remove_conn_absent: "fd \<notin> conn_fd ` set cs \<Longrightarrow> remove_conn fd cs = cs"
  by (induction cs) auto

lemma remove_conn_fds:
  "distinct (map conn_fd cs) \<Longrightarrow> map conn_fd (remove_conn fd cs) = filter (\<lambda>f. f \<noteq> fd) (map conn_fd cs)"
proof (induction cs)
  case Nil
  then show ?case by simp
next
  case (Cons c cs)
  then show ?case by (auto intro!: filter_True[symmetric])
qed

lemma map_fd_shutdown [simp]: "conn_fd (fst (snd (client_shutdown c))) = conn_fd c"
  by (simp add: client_shutdown_def)

fun finish_all :: "ClientConn list \<Rightarrow> StaticShardController \<Rightarrow> StaticShardController" where
  "finish_all [] sc = sc"
| "finish_all (c # cs) sc = finish_all cs (fst (finish_client c sc))"

lemma finish_all_conns:
  "distinct (map conn_fd (current_conns sc)) \<Longrightarrow>
    map conn_fd (current_conns (finish_all cs sc))
      = filter (\<lambda>f. f \<notin> conn_fd ` set cs) (map conn_fd (current_conns sc))"
proof (induction cs arbitrary: sc)
  case Nil
  then show ?case by simp
next
  case (Cons c cs)
  let ?sc = "fst (finish_client c sc)"
  have fds: "map conn_fd (current_conns ?sc) = filter (\<lambda>f. f \<noteq> conn_fd c) (map conn_fd (current_conns sc))"
    using remove_conn_fds[OF Cons.prems, of "conn_fd c"] by (simp add: finish_client_def Let_def)
  then have "distinct (map conn_fd (current_conns ?sc))" using Cons.prems by simp
  from Cons.IH[OF this] show ?case unfolding finish_all.simps fds
    by (simp add: conj_commute)
qed

section \<open>Properties\<close>

text \<open>
  \<open>Move\<close> loses shards: when all shards have the same granularity and their bounds in order, a
  \<open>Move\<close> of at least one shard succeeds and leaves every server, the target included, without any
  shard, since each overlap case is left to do and nothing is moved onto the target.
\<close>

theorem move_drops_all_shards:
  assumes "move_shards req \<noteq> []" "uniform g (move_shards req)"
    "\<forall>p\<in>set (server_to_shards (sc_config sc)). uniform g (snd p)"
  shows "\<exists>sc'. sc_process_request (MoveReq req) sc = Inr (MoveRes MoveResponse, sc')
    \<and> map fst (server_to_shards (sc_config sc')) = map fst (server_to_shards (sc_config sc))
    \<and> (\<forall>p\<in>set (server_to_shards (sc_config sc')). snd p = [])"
  using move_loop_uniform[OF assms(3,2)] assms(1) by (auto simp: sc_Move_def comp_def)

theorem move_drops_all_shards_witness:
  "\<exists>sc'. sc_process_request (MoveReq \<lparr>move_server = ''b'', move_shards = [\<lparr>lower = ''A'', upper = ''F''\<rparr>]\<rparr>)
       \<lparr>sc_config = \<lparr>server_to_shards = [(''a'', [\<lparr>lower = ''0'', upper = ''Z''\<rparr>])]\<rparr>,
        sc_is_stopped = False, sc_address = ''c'', current_conns = []\<rparr> = Inr (MoveRes MoveResponse, sc')
     \<and> (\<forall>p\<in>set (server_to_shards (sc_config sc')). snd p = [])"
proof -
  let ?req = "\<lparr>move_server = ''b'', move_shards = [\<lparr>lower = ''A'', upper = ''F''\<rparr>]\<rparr>"
  let ?sc = "\<lparr>sc_config = \<lparr>server_to_shards = [(''a'', [\<lparr>lower = ''0'', upper = ''Z''\<rparr>])]\<rparr>,
        sc_is_stopped = False, sc_address = ''c'', current_conns = []\<rparr>"
  have "move_shards ?req \<noteq> []" "uniform 1 (move_shards ?req)"
    "\<forall>p\<in>set (server_to_shards (sc_config ?sc)). uniform 1 (snd p)"
    by (simp_all add: uniform_def granularity_def less_eq_char_def)
  from move_drops_all_shards[OF this] show ?thesis by blast
qed

text \<open>
  \<open>stop\<close> returns: after \<open>stop\<close> has shut down the current connections (each one that was connected
  exactly once), and their threads have finished, in any order and with any other finished
  clients in between, no current connection is left, which is what \<open>stop\<close> waits for.
\<close>

theorem stop_waits_for_all_clients:
  assumes "distinct (map conn_fd (current_conns sc))"
    "conn_fd ` set (current_conns sc) \<subseteq> conn_fd ` set clients"
  shows "snd (sc_stop sc) = map (\<lambda>c. ShutdownFd (conn_fd c)) (filter is_connected (current_conns sc))
    \<and> (\<forall>c\<in>set (current_conns (fst (sc_stop sc))). \<not> is_connected c)
    \<and> stop_can_return (finish_all clients (fst (sc_stop sc)))"
proof (intro conjI)
  show "snd (sc_stop sc) = map (\<lambda>c. ShutdownFd (conn_fd c)) (filter is_connected (current_conns sc))"
  proof -
    have "concat (map (\<lambda>c. snd (snd (client_shutdown c))) cs)
        = map (\<lambda>c. ShutdownFd (conn_fd c)) (filter is_connected cs)" for cs
      by (induction cs) (auto simp: client_shutdown_def)
    then show ?thesis by (simp add: sc_stop_def)
  qed
  show "\<forall>c\<in>set (current_conns (fst (sc_stop sc))). \<not> is_connected c"
    by (auto simp: sc_stop_def client_shutdown_def)
  let ?sc = "fst (sc_stop sc)"
  have fds: "map conn_fd (current_conns ?sc) = map conn_fd (current_conns sc)"
    by (simp add: sc_stop_def comp_def)
  then have "distinct (map conn_fd (current_conns ?sc))" using assms(1) by simp
  from finish_all_conns[OF this, of clients]
  have "map conn_fd (current_conns (finish_all clients ?sc)) = []"
    using assms(2) unfolding fds by (auto simp: filter_empty_conv)
  then show "stop_can_return (finish_all clients ?sc)" by (simp add: stop_can_return_def)
qed

theorem stop_waits_for_all_clients_witness:
  "stop_can_return (finish_all [\<lparr>conn_fd = 5, conn_address = ''d'', is_connected = True\<rparr>,
       \<lparr>conn_fd = 4, conn_address = ''c'', is_connected = True\<rparr>]
     (fst (sc_stop \<lparr>sc_config = \<lparr>server_to_shards = []\<rparr>, sc_is_stopped = False, sc_address = ''c'',
        current_conns = [\<lparr>conn_fd = 4, conn_address = ''c'', is_connected = True\<rparr>,
                         \<lparr>conn_fd = 5, conn_address = ''d'', is_connected = True\<rparr>]\<rparr>)))"
  using stop_waits_for_all_clients[of "\<lparr>sc_config = \<lparr>server_to_shards = []\<rparr>, sc_is_stopped = False,
       sc_address = ''c'', current_conns = [\<lparr>conn_fd = 4, conn_address = ''c'', is_connected = True\<rparr>,
                         \<lparr>conn_fd = 5, conn_address = ''d'', is_connected = True\<rparr>]\<rparr>"
      "[\<lparr>conn_fd = 5, conn_address = ''d'', is_connected = True\<rparr>,
       \<lparr>conn_fd = 4, conn_address = ''c'', is_connected = True\<rparr>]"]
  by simp

end
