(* ===== verification/Kv_Client.thy ===== *)
theory Kv_Client
  imports Kv_Server
begin

text \<open>
  The clients (\<open>client/simple_client.cpp\<close> and \<open>client/shardkv_client.cpp\<close>). A client's operations
  are the virtual functions of \<open>Client\<close> over the world the network acts on.
\<close>

record 'w Client =
  cl_Get :: "string \<Rightarrow> 'w \<Rightarrow> (string option \<times> 'w) result"
  cl_Put :: "string \<Rightarrow> string \<Rightarrow> 'w \<Rightarrow> (bool \<times> 'w) result"
  cl_Append :: "string \<Rightarrow> string \<Rightarrow> 'w \<Rightarrow> (bool \<times> 'w) result"
  cl_Delete :: "string \<Rightarrow> 'w \<Rightarrow> (string option \<times> 'w) result"
  cl_MultiGet :: "string list \<Rightarrow> 'w \<Rightarrow> (string list option \<times> 'w) result"
  cl_MultiPut :: "string list \<Rightarrow> string list \<Rightarrow> 'w \<Rightarrow> (bool \<times> 'w) result"
  cl_GDPRDelete :: "string \<Rightarrow> 'w \<Rightarrow> (bool \<times> 'w) result"

section \<open>The simple client\<close>

definition simple_client_Get :: "'w network \<Rightarrow> string \<Rightarrow> string \<Rightarrow> 'w \<Rightarrow> (string option \<times> 'w) result" where
  "simple_client_Get net server_addr key w =
     res_bind (net server_addr (GetReq \<lparr>get_key = key\<rparr>) w) (\<lambda>(x, w).
       Inr ((case x of Answer (GetRes r) \<Rightarrow> Some (get_res_value r) | _ \<Rightarrow> None), w))"

definition simple_client_Put :: "'w network \<Rightarrow> string \<Rightarrow> string \<Rightarrow> string \<Rightarrow> 'w \<Rightarrow> (bool \<times> 'w) result" where
  "simple_client_Put net server_addr key val w =
     res_bind (net server_addr (PutReq \<lparr>put_key = key, put_value = val\<rparr>) w) (\<lambda>(x, w).
       Inr ((case x of Answer (PutRes r) \<Rightarrow> True | _ \<Rightarrow> False), w))"

definition simple_client_Append :: "'w network \<Rightarrow> string \<Rightarrow> string \<Rightarrow> string \<Rightarrow> 'w \<Rightarrow> (bool \<times> 'w) result" where
  "simple_client_Append net server_addr key val w =
     res_bind (net server_addr (AppendReq \<lparr>append_key = key, append_value = val\<rparr>) w) (\<lambda>(x, w).
       Inr ((case x of Answer (AppendRes r) \<Rightarrow> True | _ \<Rightarrow> False), w))"

definition simple_client_Delete :: "'w network \<Rightarrow> string \<Rightarrow> string \<Rightarrow> 'w \<Rightarrow> (string option \<times> 'w) result" where
  "simple_client_Delete net server_addr key w =
     res_bind (net server_addr (DeleteReq \<lparr>delete_key = key\<rparr>) w) (\<lambda>(x, w).
       Inr ((case x of Answer (DeleteRes r) \<Rightarrow> Some (delete_res_value r) | _ \<Rightarrow> None), w))"

definition simple_client_MultiGet :: "'w network \<Rightarrow> string \<Rightarrow> string list \<Rightarrow> 'w \<Rightarrow> (string list option \<times> 'w) result" where
  "simple_client_MultiGet net server_addr keys w =
     res_bind (net server_addr (MultiGetReq \<lparr>multiget_keys = keys\<rparr>) w) (\<lambda>(x, w).
       Inr ((case x of Answer (MultiGetRes r) \<Rightarrow> Some (multiget_res_values r) | _ \<Rightarrow> None), w))"

definition simple_client_MultiPut :: "'w network \<Rightarrow> string \<Rightarrow> string list \<Rightarrow> string list \<Rightarrow> 'w \<Rightarrow> (bool \<times> 'w) result" where
  "simple_client_MultiPut net server_addr keys values w =
     res_bind (net server_addr (MultiPutReq \<lparr>multiput_keys = keys, multiput_values = values\<rparr>) w) (\<lambda>(x, w).
       Inr ((case x of Answer (MultiPutRes r) \<Rightarrow> True | _ \<Rightarrow> False), w))"

text \<open>\<open>GDPRDelete\<close> is left to do and reports failure.\<close>

definition simple_client_GDPRDelete :: "string \<Rightarrow> 'w \<Rightarrow> (bool \<times> 'w) result" where
  "simple_client_GDPRDelete user w = Inr (False, w)"

definition simple_client :: "'w network \<Rightarrow> string \<Rightarrow> 'w Client" where
  "simple_client net addr = \<lparr>cl_Get = simple_client_Get net addr, cl_Put = simple_client_Put net addr,
     cl_Append = simple_client_Append net addr, cl_Delete = simple_client_Delete net addr,
     cl_MultiGet = simple_client_MultiGet net addr, cl_MultiPut = simple_client_MultiPut net addr,
     cl_GDPRDelete = simple_client_GDPRDelete\<rparr>"

section \<open>The client of the sharded store\<close>

definition shardkv_Query :: "'w network \<Rightarrow> string \<Rightarrow> 'w \<Rightarrow> (ShardControllerConfig option \<times> 'w) result" where
  "shardkv_Query net sc_addr w =
     res_bind (net sc_addr (QueryReq QueryRequest) w) (\<lambda>(x, w).
       Inr ((case x of Answer (QueryRes r) \<Rightarrow> Some (query_config r) | _ \<Rightarrow> None), w))"

definition shardkv_Move :: "'w network \<Rightarrow> string \<Rightarrow> string \<Rightarrow> Shard list \<Rightarrow> 'w \<Rightarrow> (bool \<times> 'w) result" where
  "shardkv_Move net sc_addr dest_server shards w =
     res_bind (net sc_addr (MoveReq \<lparr>move_server = dest_server, move_shards = shards\<rparr>) w) (\<lambda>(x, w).
       Inr ((case x of Answer (MoveRes r) \<Rightarrow> True | _ \<Rightarrow> False), w))"

definition shardkv_Get :: "'w network \<Rightarrow> string \<Rightarrow> string \<Rightarrow> 'w \<Rightarrow> (string option \<times> 'w) result" where
  "shardkv_Get net sc_addr key w =
     res_bind (shardkv_Query net sc_addr w) (\<lambda>(conf, w).
       case conf of None \<Rightarrow> Inr (None, w)
       | Some c \<Rightarrow> (case get_server c key of None \<Rightarrow> Inr (None, w)
                   | Some server \<Rightarrow> simple_client_Get net server key w))"

definition shardkv_Put :: "'w network \<Rightarrow> string \<Rightarrow> string \<Rightarrow> string \<Rightarrow> 'w \<Rightarrow> (bool \<times> 'w) result" where
  "shardkv_Put net sc_addr key val w =
     res_bind (shardkv_Query net sc_addr w) (\<lambda>(conf, w).
       case conf of None \<Rightarrow> Inr (False, w)
       | Some c \<Rightarrow> (case get_server c key of None \<Rightarrow> Inr (False, w)
                   | Some server \<Rightarrow> simple_client_Put net server key val w))"

definition shardkv_Append :: "'w network \<Rightarrow> string \<Rightarrow> string \<Rightarrow> string \<Rightarrow> 'w \<Rightarrow> (bool \<times> 'w) result" where
  "shardkv_Append net sc_addr key val w =
     res_bind (shardkv_Query net sc_addr w) (\<lambda>(conf, w).
       case conf of None \<Rightarrow> Inr (False, w)
       | Some c \<Rightarrow> (case get_server c key of None \<Rightarrow> Inr (False, w)
                   | Some server \<Rightarrow> simple_client_Append net server key val w))"

definition shardkv_Delete :: "'w network \<Rightarrow> string \<Rightarrow> string \<Rightarrow> 'w \<Rightarrow> (string option \<times> 'w) result" where
  "shardkv_Delete net sc_addr key w =
     res_bind (shardkv_Query net sc_addr w) (\<lambda>(conf, w).
       case conf of None \<Rightarrow> Inr (None, w)
       | Some c \<Rightarrow> (case get_server c key of None \<Rightarrow> Inr (None, w)
                   | Some server \<Rightarrow> simple_client_Delete net server key w))"

text \<open>\<open>MultiGet\<close> and \<open>MultiPut\<close> are left to do; they report success without talking to anybody.\<close>

definition shardkv_MultiGet :: "string list \<Rightarrow> 'w \<Rightarrow> (string list option \<times> 'w) result" where
  "shardkv_MultiGet keys w = Inr (Some [], w)"

definition shardkv_MultiPut :: "string list \<Rightarrow> string list \<Rightarrow> 'w \<Rightarrow> (bool \<times> 'w) result" where
  "shardkv_MultiPut keys values w = Inr (True, w)"

definition shardkv_GDPRDelete :: "string \<Rightarrow> 'w \<Rightarrow> (bool \<times> 'w) result" where
  "shardkv_GDPRDelete user w = Inl (AssertFailed ''false'')"

definition shardkv_client :: "'w network \<Rightarrow> string \<Rightarrow> 'w Client" where
  "shardkv_client net addr = \<lparr>cl_Get = shardkv_Get net addr, cl_Put = shardkv_Put net addr,
     cl_Append = shardkv_Append net addr, cl_Delete = shardkv_Delete net addr,
     cl_MultiGet = shardkv_MultiGet, cl_MultiPut = shardkv_MultiPut,
     cl_GDPRDelete = shardkv_GDPRDelete\<rparr>"

section \<open>Client and server together\<close>

text \<open>A network on which one server, at any address, answers every request.\<close>

definition server_network :: "'s KvStore \<Rightarrow> 's KvServer network" where
  "server_network ops addr req srv =
     res_bind (process_request ops req srv) (\<lambda>(res, srv). Inr (Answer res, srv))"

definition standalone :: "DbMap KvServer \<Rightarrow> bool" where
  "standalone srv \<longleftrightarrow> db_ok (store srv) \<and> shardcontroller_address srv = []"

text \<open>A server's contents, seen through the store.\<close>

definition contents :: "DbMap KvServer \<Rightarrow> kvmap" where
  "contents srv = conc_abs (store srv)"

lemma network_spec:
  assumes "standalone srv" "is_kv_request r"
  shows "\<exists>srv'. server_network conc_ops addr r srv = Inr (Answer (fst (spec_request r (contents srv))), srv')
    \<and> standalone srv' \<and> contents srv' = snd (spec_request r (contents srv))"
proof -
  have c: "db_ok (store srv)" "shardcontroller_address srv = []"
    using assms(1) by (auto simp: standalone_def)
  obtain st where st: "process_request conc_ops r srv
        = Inr (fst (spec_request r (conc_abs (store srv))), srv\<lparr>store := st\<rparr>)"
      "conc_abs st = snd (spec_request r (conc_abs (store srv)))"
    using conc_kv.process_request_spec[OF c assms(2)] by blast
  have "db_ok st" using conc_kv.process_request_live[OF st(1) c(1)] by simp
  then show ?thesis using st c(2) by (simp add: server_network_def standalone_def contents_def)
qed

lemmas client_simps = simple_client_Get_def simple_client_Put_def simple_client_Append_def
  simple_client_Delete_def simple_client_MultiGet_def simple_client_MultiPut_def
  simple_client_GDPRDelete_def simple_client_def error_response_def

text \<open>
  C16. A client of a server over the concurrent store sees a map: every operation of the simple
  client returns what the map gives (a value exactly for keys that are present, success exactly
  when the numbers of keys and values agree), and changes the map as its name says.
\<close>

theorem client_sees_map:
  assumes "standalone srv"
  shows "(\<exists>s. cl_Get (simple_client (server_network conc_ops) a) k srv = Inr (contents srv k, s)
        \<and> standalone s \<and> contents s = contents srv)
    \<and> (\<exists>s. cl_Put (simple_client (server_network conc_ops) a) k v srv = Inr (True, s)
        \<and> standalone s \<and> contents s = (contents srv)(k \<mapsto> v))
    \<and> (\<exists>s. cl_Append (simple_client (server_network conc_ops) a) k v srv = Inr (True, s)
        \<and> standalone s \<and> contents s = spec_append k v (contents srv))
    \<and> (\<exists>s. cl_Delete (simple_client (server_network conc_ops) a) k srv = Inr (contents srv k, s)
        \<and> standalone s \<and> contents s = (contents srv)(k := None))
    \<and> (\<exists>s. cl_MultiGet (simple_client (server_network conc_ops) a) ks srv
            = Inr (spec_multiget (contents srv) ks, s) \<and> standalone s \<and> contents s = contents srv)
    \<and> (\<exists>s. cl_MultiPut (simple_client (server_network conc_ops) a) ks vs srv
            = Inr (length ks = length vs, s) \<and> standalone s
        \<and> contents s = (if length ks = length vs then (contents srv)(ks [\<mapsto>] vs) else contents srv))"
proof (intro conjI)
  note n = network_spec[OF assms]
  show "\<exists>s. cl_Get (simple_client (server_network conc_ops) a) k srv = Inr (contents srv k, s)
        \<and> standalone s \<and> contents s = contents srv"
    using n[of "GetReq \<lparr>get_key = k\<rparr>" a] by (auto simp: client_simps split: option.splits)
  show "\<exists>s. cl_Put (simple_client (server_network conc_ops) a) k v srv = Inr (True, s)
        \<and> standalone s \<and> contents s = (contents srv)(k \<mapsto> v)"
    using n[of "PutReq \<lparr>put_key = k, put_value = v\<rparr>" a] by (auto simp: client_simps)
  show "\<exists>s. cl_Append (simple_client (server_network conc_ops) a) k v srv = Inr (True, s)
        \<and> standalone s \<and> contents s = spec_append k v (contents srv)"
    using n[of "AppendReq \<lparr>append_key = k, append_value = v\<rparr>" a] by (auto simp: client_simps)
  show "\<exists>s. cl_Delete (simple_client (server_network conc_ops) a) k srv = Inr (contents srv k, s)
        \<and> standalone s \<and> contents s = (contents srv)(k := None)"
    using n[of "DeleteReq \<lparr>delete_key = k\<rparr>" a]
    by (auto simp: client_simps fun_upd_idem split: option.splits)
  show "\<exists>s. cl_MultiGet (simple_client (server_network conc_ops) a) ks srv
            = Inr (spec_multiget (contents srv) ks, s) \<and> standalone s \<and> contents s = contents srv"
    using n[of "MultiGetReq \<lparr>multiget_keys = ks\<rparr>" a] by (auto simp: client_simps split: option.splits)
  show "\<exists>s. cl_MultiPut (simple_client (server_network conc_ops) a) ks vs srv
            = Inr (length ks = length vs, s) \<and> standalone s
        \<and> contents s = (if length ks = length vs then (contents srv)(ks [\<mapsto>] vs) else contents srv)"
    using n[of "MultiPutReq \<lparr>multiput_keys = ks, multiput_values = vs\<rparr>" a]
    by (auto simp: client_simps split: if_splits)
qed

theorem client_sees_map_witness:
  "\<exists>s. cl_Get (simple_client (server_network conc_ops) ''s:1'') ''k''
       (new_server ''s:1'' [] 5 (db_init (\<lambda>k. 7))) = Inr (None, s)"
proof -
  let ?srv = "new_server ''s:1'' [] 5 (db_init (\<lambda>k. 7))"
  have "standalone ?srv" by (simp add: standalone_def new_server_def db_ok_init)
  moreover have "contents ?srv ''k'' = None" by (simp add: contents_def new_server_def conc_abs_init)
  ultimately show ?thesis
    using conjunct1[OF client_sees_map[of ?srv "''s:1''" "''k''" "[]" "[]" "[]"]] by auto
qed

text \<open>
  A client of the sharded store never reaches a key: whatever the shard controller answers,
  \<open>Get\<close>, \<open>Put\<close>, \<open>Append\<close> and \<open>Delete\<close> ask it for the configuration and then fail, so their only
  exchange is this query; \<open>MultiGet\<close> and \<open>MultiPut\<close> report success (\<open>MultiGet\<close> with no values) without
  any exchange.
\<close>

theorem shardkv_client_reaches_no_key:
  assumes "net sc (QueryReq QueryRequest) w = Inr (x, w')"
  shows "cl_Get (shardkv_client net sc) k w = Inr (None, w')
    \<and> cl_Put (shardkv_client net sc) k v w = Inr (False, w')
    \<and> cl_Append (shardkv_client net sc) k v w = Inr (False, w')
    \<and> cl_Delete (shardkv_client net sc) k w = Inr (None, w')
    \<and> cl_MultiGet (shardkv_client net sc) ks w = Inr (Some [], w)
    \<and> cl_MultiPut (shardkv_client net sc) ks vs w = Inr (True, w)"
  using assms
  by (auto simp: shardkv_client_def shardkv_Get_def shardkv_Put_def shardkv_Append_def
      shardkv_Delete_def shardkv_MultiGet_def shardkv_MultiPut_def shardkv_Query_def
      split: exchange.splits Response.splits)

theorem shardkv_client_reaches_no_key_witness:
  "cl_Put (shardkv_client (\<lambda>addr req w. Inr (Answer (QueryRes \<lparr>query_config = \<lparr>server_to_shards =
       [(''s:1'', [\<lparr>lower = ''0'', upper = ''Z''\<rparr>])]\<rparr>\<rparr>), w)) ''c:2'') ''A'' ''v'' () = Inr (False, ())"
  using shardkv_client_reaches_no_key[of "\<lambda>addr req w. Inr (Answer (QueryRes \<lparr>query_config = \<lparr>server_to_shards =
       [(''s:1'', [\<lparr>lower = ''0'', upper = ''Z''\<rparr>])]\<rparr>\<rparr>), w)" "''c:2''" "()"]
  by simp

end
