(* ===== verification/Repl_Cmds.thy ===== *)
theory Repl_Cmds
  imports Kv_Client Shard_Controller
begin

text \<open>
  The command line: \<open>repl/repl.cpp\<close> with \<open>replcommand.hpp\<close>, the commands under \<open>client/cmd\<close>,
  \<open>server/cmd\<close> and \<open>shardcontroller/cmd\<close>, and what the three programs under \<open>cmd\<close> make of their
  arguments. What is printed is a list of outputs in their order; of an error its colour and its
  message are kept, not the function, file and line the macro \<open>cerr_color\<close> puts in front.
\<close>

section \<open>Commands and the interpreter of a line\<close>

datatype color = RED | YELLOW

datatype console_out = Cout string | Cerr color string

type_synonym 'w action = "'w \<Rightarrow> (console_out list \<times> 'w) result"

record 'w ReplCommand =
  cmd_name :: string
  cmd_params :: string
  cmd_description :: string
  cmd_handle :: "string \<Rightarrow> 'w action"

definition cmd_help :: "'w ReplCommand \<Rightarrow> string" where
  "cmd_help c = cmd_name c @ '' '' @ cmd_params c @ '': '' @ cmd_description c"

definition usage_of :: "string \<Rightarrow> string \<Rightarrow> string" where
  "usage_of name params = ''Usage: '' @ name @ '' '' @ params"

definition repl_help :: "'w ReplCommand list \<Rightarrow> string" where
  "repl_help commands = ''Available commands:'' @ newline @ concat (map (\<lambda>c. ''- '' @ cmd_help c @ newline) commands)"

definition find_command :: "string \<Rightarrow> 'w ReplCommand list \<Rightarrow> 'w ReplCommand option" where
  "find_command name commands = List.find (\<lambda>c. cmd_name c = name) commands"

definition process_line :: "'w ReplCommand list \<Rightarrow> string \<Rightarrow> 'w action" where
  "process_line commands line w =
     (let name = takeWhile (\<lambda>c. c \<noteq> CHR '' '') line;
          remaining = (if CHR '' '' \<in> set line then drop (length name + 1) line else [])
      in if line = [] then Inr ([], w)
         else if name = ''help'' then Inr ([Cout (repl_help commands @ newline)], w)
         else case find_command name commands of
           Some cmd \<Rightarrow> cmd_handle cmd remaining w
         | None \<Rightarrow> Inr ([Cerr YELLOW ''Invalid command.'', Cout (repl_help commands @ newline)], w))"

definition tokens_of :: "string \<Rightarrow> string list" where
  "tokens_of s = split_str s (CHR '' '')"

definition fail_with :: "string \<Rightarrow> 'w action" where
  "fail_with msg w = Inr ([Cerr RED msg], w)"

section \<open>The commands of a client\<close>

definition get_handle :: "'w Client \<Rightarrow> string \<Rightarrow> 'w action" where
  "get_handle client s w =
     (let tokens = tokens_of s; usage = usage_of ''get'' ''<key>'' in
      if length tokens = 0 then fail_with (''Missing key. '' @ usage) w
      else if 1 < length tokens then fail_with (''Too many parameters. '' @ usage) w
      else res_bind (cl_Get client (tokens ! 0) w) (\<lambda>(res, w).
        case res of None \<Rightarrow> Inr ([], w) | Some v \<Rightarrow> Inr ([Cout (''Got value: '' @ v @ newline)], w)))"

definition GetCommand :: "'w Client \<Rightarrow> 'w ReplCommand" where
  "GetCommand client = \<lparr>cmd_name = ''get'', cmd_params = ''<key>'',
     cmd_description = ''Gets <key>'' @ [CHR 0x27] @ ''s value; prints an error if not found'', cmd_handle = get_handle client\<rparr>"

text \<open>The value of \<open>put\<close>: every token but the first with a space behind it, less the last character.\<close>

definition put_value_of :: "string list \<Rightarrow> string" where
  "put_value_of tokens = butlast (concat (map (\<lambda>t. t @ '' '') (tl tokens)))"

definition put_handle :: "'w Client \<Rightarrow> string \<Rightarrow> 'w action" where
  "put_handle client s w =
     (let tokens = tokens_of s; usage = usage_of ''put'' ''<key> <value>'' in
      if length tokens < 2 then fail_with (''Missing key and/or value. '' @ usage) w
      else res_bind (cl_Put client (tokens ! 0) (put_value_of tokens) w) (\<lambda>(res, w). Inr ([], w)))"

definition PutCommand :: "'w Client \<Rightarrow> 'w ReplCommand" where
  "PutCommand client = \<lparr>cmd_name = ''put'', cmd_params = ''<key> <value>'',
     cmd_description = ''Sets <key> to <value>'', cmd_handle = put_handle client\<rparr>"

definition append_handle :: "'w Client \<Rightarrow> string \<Rightarrow> 'w action" where
  "append_handle client s w =
     (let tokens = tokens_of s; usage = usage_of ''append'' ''<key> <value>'' in
      if length tokens < 2 then fail_with (''Missing key and/or value. '' @ usage) w
      else res_bind (cl_Append client (tokens ! 0) (tokens ! 1) w) (\<lambda>(res, w). Inr ([], w)))"

definition AppendCommand :: "'w Client \<Rightarrow> 'w ReplCommand" where
  "AppendCommand client = \<lparr>cmd_name = ''append'', cmd_params = ''<key> <value>'',
     cmd_description = ''Appends <value> to <key>; creates <key> if does not exist'', cmd_handle = append_handle client\<rparr>"

definition delete_handle :: "'w Client \<Rightarrow> string \<Rightarrow> 'w action" where
  "delete_handle client s w =
     (let tokens = tokens_of s; usage = usage_of ''delete'' ''<key>'' in
      if length tokens = 0 then fail_with (''Missing key. '' @ usage) w
      else if 1 < length tokens then fail_with (''Too many parameters. '' @ usage) w
      else res_bind (cl_Delete client (tokens ! 0) w) (\<lambda>(res, w).
        case res of None \<Rightarrow> Inr ([], w) | Some v \<Rightarrow> Inr ([Cout (''Got value: '' @ v @ newline)], w)))"

definition DeleteCommand :: "'w Client \<Rightarrow> 'w ReplCommand" where
  "DeleteCommand client = \<lparr>cmd_name = ''delete'', cmd_params = ''<key>'',
     cmd_description = ''Deletes <key> and gets its last value'', cmd_handle = delete_handle client\<rparr>"

definition multiget_handle :: "'w Client \<Rightarrow> string \<Rightarrow> 'w action" where
  "multiget_handle client s w =
     (let tokens = tokens_of s in
      if length tokens < 1 then fail_with (''Missing keys. '' @ usage_of ''multiget'' ''<key1> ...'') w
      else res_bind (cl_MultiGet client tokens w) (\<lambda>(res, w).
        case res of None \<Rightarrow> Inr ([], w)
        | Some vs \<Rightarrow> Inr ([Cout (''Got values: '' @ concat (map (\<lambda>v. v @ '' '') vs) @ newline)], w)))"

definition MultiGetCommand :: "'w Client \<Rightarrow> 'w ReplCommand" where
  "MultiGetCommand client = \<lparr>cmd_name = ''multiget'', cmd_params = ''<key1> ...'',
     cmd_description = ''Gets the values of <key1>, ..., <keyn>; prints an error if any are not found'',
     cmd_handle = multiget_handle client\<rparr>"

text \<open>The loop of \<open>multiput\<close>: \<open>i\<close> goes over the even indices of the tokens.\<close>

function pair_loop :: "nat \<Rightarrow> string list \<Rightarrow> string list \<Rightarrow> string list \<Rightarrow> (string list \<times> string list) result" where
  "pair_loop i tokens keys values =
     (if i < length tokens
      then res_bind (index_r tokens i ''tokens'') (\<lambda>k. res_bind (index_r tokens (i + 1) ''tokens'') (\<lambda>v.
        if i div 2 < length keys \<and> i div 2 < length values
        then pair_loop (i + 2) tokens (keys[i div 2 := k]) (values[i div 2 := v])
        else Inl (UndefinedBehaviour ''keys'')))
      else Inr (keys, values))"
  by pat_completeness auto
termination by (relation "measure (\<lambda>(i, tokens, _). length tokens - i)") auto

declare pair_loop.simps [simp del]

definition multiput_handle :: "'w Client \<Rightarrow> string \<Rightarrow> 'w action" where
  "multiput_handle client s w =
     (let tokens = tokens_of s; n = length tokens div 2 in
      if length tokens < 2 \<or> length tokens mod 2 \<noteq> 0
      then fail_with (''Missing keys and/or values. '' @ usage_of ''multiput'' ''<key1> <value1> ...'') w
      else res_bind (pair_loop 0 tokens (replicate n []) (replicate n [])) (\<lambda>(keys, values).
        res_bind (cl_MultiPut client keys values w) (\<lambda>(res, w). Inr ([], w))))"

definition MultiPutCommand :: "'w Client \<Rightarrow> 'w ReplCommand" where
  "MultiPutCommand client = \<lparr>cmd_name = ''multiput'', cmd_params = ''<key1> <value1> ...'',
     cmd_description = ''Sets the values of <key1>, ..., <keyn> to <value1>, ..., <valuen>'',
     cmd_handle = multiput_handle client\<rparr>"

definition gdpr_handle :: "'w Client \<Rightarrow> string \<Rightarrow> 'w action" where
  "gdpr_handle client s w =
     (let tokens = tokens_of s; usage = usage_of ''gdprdelete'' ''<user>'' in
      if length tokens = 0 then fail_with (''Missing key. '' @ usage) w
      else if 1 < length tokens then fail_with (''Too many parameters. '' @ usage) w
      else res_bind (cl_GDPRDelete client (tokens ! 0) w) (\<lambda>(res, w).
        if res then Inr ([Cout (''Success'' @ newline)], w) else Inr ([], w)))"

definition GDPRDeleteCommand :: "'w Client \<Rightarrow> 'w ReplCommand" where
  "GDPRDeleteCommand client = \<lparr>cmd_name = ''gdprdelete'', cmd_params = ''<user>'',
     cmd_description = ''Deletes <user>'' @ [CHR 0x27] @ ''s data according to GDPR requirements'', cmd_handle = gdpr_handle client\<rparr>"

section \<open>The commands for the shard controller\<close>

text \<open>The loop of \<open>move\<close> over the bounds: an output ends it early.\<close>

definition move_usage :: string where
  "move_usage = usage_of ''move'' ''<address> <s1 lower> <s1 upper> ... <sn lower> <sn upper>''"

function bounds_loop :: "nat \<Rightarrow> string list \<Rightarrow> Shard list \<Rightarrow> (console_out option \<times> Shard list) result" where
  "bounds_loop i tokens shards =
     (if i < length tokens
      then res_bind (index_r tokens i ''tokens'') (\<lambda>lo.
        res_bind (if is_valid lo then res_bind (index_r tokens (i + 1) ''tokens'') (\<lambda>up. Inr (is_valid up))
                  else Inr False) (\<lambda>valid.
        if \<not> valid
        then Inr (Some (Cerr RED (''Invalid shard boundaries; valid characters (case-insensitive): ''
               @ [CHR 0x22] @ VALID_CHARS @ [CHR 0x22] @ ''.'')), shards)
        else res_bind (index_r tokens (i + 1) ''tokens'') (\<lambda>up.
          if length lo \<noteq> length up
          then Inr (Some (Cerr RED (''Invalid shard boundaries; must be same granularity. '' @ move_usage)), shards)
          else if i div 2 < length shards
          then bounds_loop (i + 2) tokens (shards[i div 2 := \<lparr>lower = to_upper lo, upper = to_upper up\<rparr>])
          else Inl (UndefinedBehaviour ''shards''))))
      else Inr (None, shards))"
  by pat_completeness auto
termination by (relation "measure (\<lambda>(i, tokens, _). length tokens - i)") auto

declare bounds_loop.simps [simp del]

text \<open>\<open>move\<close> complains about an incomplete shard, and goes on.\<close>

definition move_handle :: "'w network \<Rightarrow> string \<Rightarrow> string \<Rightarrow> 'w action" where
  "move_handle net sc_addr s w =
     (let tokens = tokens_of s in
      if length tokens < 3 then fail_with (''Missing server address, or at least 1 shard. '' @ move_usage) w
      else
        let out = (if length tokens mod 2 = 0 then [Cerr RED (''Ill-formed shards. '' @ move_usage)] else []);
            host = takeWhile (\<lambda>c. c \<noteq> CHR '':'') (tokens ! 0);
            port = drop (length host + 1) (tokens ! 0)
        in if CHR '':'' \<notin> set (tokens ! 0) \<or> \<not> is_number port
           then Inr (out @ [Cerr RED (''Ill-formed address. '' @ move_usage)], w)
           else res_bind (bounds_loop 1 tokens (replicate ((length tokens - 1) div 2) \<lparr>lower = [], upper = []\<rparr>))
             (\<lambda>(bad, shards). case bad of
                Some e \<Rightarrow> Inr (out @ [e], w)
              | None \<Rightarrow> res_bind (shardkv_Move net sc_addr (tokens ! 0) shards w) (\<lambda>(res, w).
                  Inr (out @ (if res then [] else [Cerr RED ''Failed to send Move request to shardcontroller.'']), w))))"

definition MoveCommand :: "'w network \<Rightarrow> string \<Rightarrow> 'w ReplCommand" where
  "MoveCommand net sc_addr = \<lparr>cmd_name = ''move'',
     cmd_params = ''<address> <s1 lower> <s1 upper> ... <sn lower> <sn upper>'',
     cmd_description = ''moves shards s1, ..., sn to the key-value server running on <address> (hostname:port)'',
     cmd_handle = move_handle net sc_addr\<rparr>"

definition client_query_handle :: "'w network \<Rightarrow> string \<Rightarrow> string \<Rightarrow> 'w action" where
  "client_query_handle net sc_addr s w =
     res_bind (shardkv_Query net sc_addr w) (\<lambda>(conf, w). case conf of
       None \<Rightarrow> Inr ([Cerr RED ''Failed to query shardcontroller.''], w)
     | Some c \<Rightarrow> Inr ([Cout (print_config c)], w))"

definition ClientQueryCommand :: "'w network \<Rightarrow> string \<Rightarrow> 'w ReplCommand" where
  "ClientQueryCommand net sc_addr = \<lparr>cmd_name = ''query'', cmd_params = [],
     cmd_description = ''Gets the current shardcontroller configuration.'', cmd_handle = client_query_handle net sc_addr\<rparr>"

definition sc_query_handle :: "string \<Rightarrow> StaticShardController action" where
  "sc_query_handle s sc = (case sc_Query QueryRequest \<lparr>query_config = \<lparr>server_to_shards = []\<rparr>\<rparr> sc of
     (ok, res, sc) \<Rightarrow> Inr ([Cout (print_config (query_config res))], sc))"

definition QueryCommand :: "StaticShardController ReplCommand" where
  "QueryCommand = \<lparr>cmd_name = ''query'', cmd_params = [],
     cmd_description = ''Gets the current shardcontroller configuration.'', cmd_handle = sc_query_handle\<rparr>"

section \<open>The commands of a server\<close>

text \<open>The world of a server's commands is the server and what its network acts on.\<close>

definition join_handle :: "'w network \<Rightarrow> string \<Rightarrow> ('s KvServer \<times> 'w) action" where
  "join_handle net s sw = (case sw of (srv, w) \<Rightarrow>
     res_bind (server_Join net srv w) (\<lambda>(res, w).
       Inr (if res then [] else [Cerr RED ''Failed to send Join request to shardcontroller.''], (srv, w))))"

definition JoinCommand :: "'w network \<Rightarrow> ('s KvServer \<times> 'w) ReplCommand" where
  "JoinCommand net = \<lparr>cmd_name = ''join'', cmd_params = [], cmd_description =
     ''tells the Shardcontroller that this key-value server is available for shard distribution.'',
     cmd_handle = join_handle net\<rparr>"

definition leave_handle :: "'w network \<Rightarrow> string \<Rightarrow> ('s KvServer \<times> 'w) action" where
  "leave_handle net s sw = (case sw of (srv, w) \<Rightarrow>
     res_bind (server_Leave net srv w) (\<lambda>(res, w).
       Inr (if res then [] else [Cerr RED ''Failed to send Leave request to shardcontroller.''], (srv, w))))"

definition LeaveCommand :: "'w network \<Rightarrow> ('s KvServer \<times> 'w) ReplCommand" where
  "LeaveCommand net = \<lparr>cmd_name = ''leave'', cmd_params = [], cmd_description =
     ''tells the Shardcontroller that this key-value server is no longer available for shard distribution.'',
     cmd_handle = leave_handle net\<rparr>"

definition print_handle ::
  "'s KvStore \<Rightarrow> (string list \<Rightarrow> string list) \<Rightarrow> string \<Rightarrow> ('s KvServer \<times> 'w) action" where
  "print_handle ops order s sw = (case sw of (srv, w) \<Rightarrow>
     let tokens = tokens_of s in
     if length tokens \<noteq> 1 then fail_with (''Missing print type. '' @ usage_of ''print'' ''<store|config>'') sw
     else if to_lower (tokens ! 0) = ''store'' then
       res_bind (all_kvpairs ops order srv) (\<lambda>(m, srv).
         Inr (Cout (''Key-value pairs:'' @ newline)
              # map (\<lambda>(k, v). Cout ([CHR 0x09] @ k @ '': '' @ v @ newline)) m, (srv, w)))
     else if to_lower (tokens ! 0) = ''config'' then
       Inr ([Cout (print_config (server_get_config srv))], sw)
     else fail_with (''Print type must be either '' @ [CHR 0x22] @ ''store'' @ [CHR 0x22] @ '' or ''
            @ [CHR 0x22] @ ''config'' @ [CHR 0x22] @ ''.'') sw)"

definition PrintCommand ::
  "'s KvStore \<Rightarrow> (string list \<Rightarrow> string list) \<Rightarrow> ('s KvServer \<times> 'w) ReplCommand" where
  "PrintCommand ops order = \<lparr>cmd_name = ''print'', cmd_params = ''<store|config>'', cmd_description =
     ''Prints either the internal store contents, or the shardcontroller configuration.'',
     cmd_handle = print_handle ops order\<rparr>"

section \<open>The programs\<close>

definition kv_commands :: "'w Client \<Rightarrow> 'w ReplCommand list" where
  "kv_commands client = [GetCommand client, PutCommand client, AppendCommand client, DeleteCommand client,
     MultiGetCommand client, MultiPutCommand client, GDPRDeleteCommand client]"

definition simple_client_commands :: "'w network \<Rightarrow> string \<Rightarrow> 'w ReplCommand list" where
  "simple_client_commands net addr = kv_commands (simple_client net addr)"

definition client_commands :: "'w network \<Rightarrow> string \<Rightarrow> 'w ReplCommand list" where
  "client_commands net addr = [ClientQueryCommand net addr, MoveCommand net addr] @ kv_commands (shardkv_client net addr)"

definition N_WORKERS :: nat where
  "N_WORKERS = 5"

text \<open>\<open>std::stoi\<close> on a string, and its conversion to \<open>uint64_t\<close>.\<close>

definition is_space :: "char \<Rightarrow> bool" where
  "is_space c \<longleftrightarrow> char_code c = 32 \<or> (9 \<le> char_code c \<and> char_code c \<le> 13)"

definition digits_val :: "string \<Rightarrow> int" where
  "digits_val s = foldl (\<lambda>v c. 10 * v + (int (char_code c) - 48)) 0 s"

definition stoi :: "string \<Rightarrow> int result" where
  "stoi s =
     (let s = dropWhile is_space s;
          neg = (s \<noteq> [] \<and> hd s = CHR ''-'');
          s = (if s \<noteq> [] \<and> hd s \<in> {CHR ''-'', CHR ''+''} then tl s else s);
          ds = takeWhile isdigit s;
          v = (if neg then - digits_val ds else digits_val ds)
      in if ds = [] then Inl (LogicError ''stoi: invalid_argument'')
         else if v < - (2 ^ 31) \<or> 2 ^ 31 - 1 < v then Inl (LogicError ''stoi: out_of_range'')
         else Inr v)"

definition to_uint64 :: "int \<Rightarrow> nat" where
  "to_uint64 v = nat (v mod 2 ^ 64)"

text \<open>
  What \<open>main\<close> of the server makes of its arguments (the program's name first): the address of the
  shard controller (empty for the concurrent store), the number of workers, and the commands of its
  interpreter; \<open>None\<close> when it prints how it is used and exits.
\<close>

definition server_args :: "string list \<Rightarrow> (string \<times> nat) option result" where
  "server_args argv =
     (let argc = length argv in
      if argc < 2 \<or> 4 < argc then Inr None
      else if argc = 3 then
        if CHR '':'' \<in> set (argv ! 2) then Inr (Some (argv ! 2, N_WORKERS))
        else res_bind (stoi (argv ! 2)) (\<lambda>n. Inr (Some ([], to_uint64 n)))
      else if argc = 4 then res_bind (stoi (argv ! 3)) (\<lambda>n. Inr (Some (argv ! 2, to_uint64 n)))
      else Inr (Some ([], N_WORKERS)))"

definition server_commands ::
  "'s KvStore \<Rightarrow> (string list \<Rightarrow> string list) \<Rightarrow> 'w network \<Rightarrow> string list \<Rightarrow> ('s KvServer \<times> 'w) ReplCommand list" where
  "server_commands ops order net argv =
     (if length argv = 4 then [JoinCommand net, LeaveCommand net] else []) @ [PrintCommand ops order]"

definition shardcontroller_commands :: "StaticShardController ReplCommand list" where
  "shardcontroller_commands = [QueryCommand]"

section \<open>Facts\<close>

fun split_pairs :: "string list \<Rightarrow> string list \<times> string list" where
  "split_pairs (k # v # ts) = (let (ks, vs) = split_pairs ts in (k # ks, v # vs))"
| "split_pairs ts = ([], [])"

definition interleave :: "string list \<Rightarrow> string list \<Rightarrow> string list" where
  "interleave ks vs = concat (map (\<lambda>(k, v). [k, v]) (zip ks vs))"

lemma interleave_nth:
  assumes "length ks = length vs" "j < length ks"
  shows "interleave ks vs ! (2 * j) = ks ! j \<and> interleave ks vs ! Suc (2 * j) = vs ! j"
  using assms
proof (induction ks vs arbitrary: j rule: list_induct2')
  case (4 k ks v vs)
  then show ?case by (cases j) (auto simp: interleave_def)
qed auto

lemma length_interleave [simp]: "length ks = length vs \<Longrightarrow> length (interleave ks vs) = 2 * length ks"
  unfolding interleave_def by (induction ks vs rule: list_induct2) auto

lemma pair_loop_interleave:
  assumes "length ks = length vs" "j \<le> length ks" "length a = length ks" "length b = length ks"
    "take j a = take j ks" "take j b = take j vs"
  shows "pair_loop (2 * j) (interleave ks vs) a b = Inr (ks, vs)"
  using assms(2-6)
proof (induction "length ks - j" arbitrary: j a b)
  case 0
  then have "j = length ks" by simp
  then show ?case using 0 assms(1) by (simp add: pair_loop.simps)
next
  case (Suc n)
  then have j: "j < length ks" by simp
  let ?a = "a[j := ks ! j]" and ?b = "b[j := vs ! j]"
  have "pair_loop (2 * Suc j) (interleave ks vs) ?a ?b = Inr (ks, vs)"
  proof (rule Suc.hyps(1))
    show "take (Suc j) ?a = take (Suc j) ks" "take (Suc j) ?b = take (Suc j) vs"
      using Suc.prems j assms(1) by (simp_all add: take_Suc_conv_app_nth take_update_swap list_update_append)
  qed (use Suc j in auto)
  then show ?case
    using j assms(1) Suc.prems interleave_nth[OF assms(1) j]
    by (subst pair_loop.simps) simp
qed

definition word_like :: "string \<Rightarrow> bool" where
  "word_like s \<longleftrightarrow> s \<noteq> [] \<and> CHR '' '' \<notin> set s"

lemma tokens_join: "\<forall>t\<in>set ts. word_like t \<Longrightarrow> tokens_of (join_with '' '' ts) = ts"
  unfolding tokens_of_def
proof (induction ts)
  case Nil
  then show ?case by simp
next
  case (Cons t ts)
  then show ?case
    by (cases ts) (auto simp: word_like_def split_str_word(2) split_str_word(1)[where s = "join_with _ _"])
qed

lemma process_known:
  assumes "CHR '' '' \<notin> set name" "name \<noteq> []" "name \<noteq> ''help''"
  shows "process_line commands (name @ '' '' @ rest) w = (case find_command name commands of
     Some cmd \<Rightarrow> cmd_handle cmd rest w
   | None \<Rightarrow> Inr ([Cerr YELLOW ''Invalid command.'', Cout (repl_help commands @ newline)], w))"
proof -
  have "takeWhile (\<lambda>c. c \<noteq> CHR '' '') (name @ '' '' @ rest) = name"
    using assms(1) takeWhile_item(1)[of "CHR '' ''" name rest] by simp
  moreover have "drop (length name + 1) (name @ '' '' @ rest) = rest" by (simp add: Suc_diff_le)
  ultimately show ?thesis using assms(2,3) unfolding process_line_def Let_def
    by (simp split: option.split)
qed

lemma find_kv_commands:
  "find_command ''put'' (kv_commands client) = Some (PutCommand client)"
  "find_command ''multiput'' (kv_commands client) = Some (MultiPutCommand client)"
  by (simp_all add: find_command_def kv_commands_def GetCommand_def PutCommand_def AppendCommand_def
      DeleteCommand_def MultiGetCommand_def MultiPutCommand_def)

lemma find_move: "find_command ''move'' (client_commands net addr) = Some (MoveCommand net addr)"
  by (simp add: find_command_def client_commands_def MoveCommand_def ClientQueryCommand_def)

lemma put_value_join: "ts \<noteq> [] \<Longrightarrow> put_value_of (k # ts) = join_with '' '' ts"
  unfolding put_value_of_def
proof (induction ts)
  case Nil
  then show ?case by simp
next
  case (Cons t ts)
  then show ?case by (cases ts) (auto simp: butlast_append)
qed

text \<open>The loop of \<open>move\<close> over complete shards followed by a single bound.\<close>

definition pair_ok :: "string \<Rightarrow> string \<Rightarrow> bool" where
  "pair_ok lo up \<longleftrightarrow> is_valid lo \<and> is_valid up \<and> length lo = length up"

lemma bounds_loop_partial:
  assumes "list_all2 pair_ok los ups" "is_valid x" "j \<le> length los" "length shards = length los"
  shows "bounds_loop (Suc (2 * j)) (a # interleave los ups @ [x]) shards = Inl (UndefinedBehaviour ''tokens'')"
  using assms(3,4)
proof (induction "length los - j" arbitrary: j shards)
  case 0
  have l: "length los = length ups" using assms(1) by (rule list_all2_lengthD)
  have "j = length los" using 0 by simp
  then show ?case using l assms(2)
    by (subst bounds_loop.simps) (simp add: nth_append)
next
  case (Suc n)
  have l: "length los = length ups" using assms(1) by (rule list_all2_lengthD)
  have j: "j < length los" using Suc by simp
  have p: "pair_ok (los ! j) (ups ! j)" using assms(1) j by (simp add: list_all2_conv_all_nth)
  let ?s = "shards[j := \<lparr>lower = to_upper (los ! j), upper = to_upper (ups ! j)\<rparr>]"
  have "bounds_loop (Suc (2 * Suc j)) (a # interleave los ups @ [x]) ?s = Inl (UndefinedBehaviour ''tokens'')"
    by (rule Suc.hyps(1)) (use Suc j in auto)
  then show ?case
    using j l p Suc.prems interleave_nth[OF l j]
    by (subst bounds_loop.simps) (simp add: nth_append pair_ok_def)
qed

lemma put_handle_words:
  "tokens_of s = k # ts \<Longrightarrow> ts \<noteq> [] \<Longrightarrow>
    put_handle client s w = res_bind (cl_Put client k (join_with '' '' ts) w) (\<lambda>(res, w). Inr ([], w))"
  by (simp add: put_handle_def put_value_join Suc_le_eq not_less)

lemma multiput_handle_pairs:
  assumes "tokens_of s = interleave ks vs" "ks \<noteq> []" "length ks = length vs"
  shows "multiput_handle client s w = res_bind (cl_MultiPut client ks vs w) (\<lambda>(res, w). Inr ([], w))"
proof -
  let ?n = "length vs"
  have "pair_loop (2 * 0) (interleave ks vs) (replicate ?n []) (replicate ?n []) = Inr (ks, vs)"
    by (rule pair_loop_interleave) (use assms(3) in auto)
  moreover have "\<not> length vs < 1" using assms(2,3) by (cases ks) auto
  ultimately show ?thesis using assms(3) by (simp add: multiput_handle_def assms(1))
qed

lemma move_handle_partial:
  assumes ts: "tokens_of s = a # interleave los ups @ [x]" and l: "los \<noteq> []" "list_all2 pair_ok los ups" "is_valid x"
    and a: "a = host @ CHR '':'' # port" "CHR '':'' \<notin> set host" "is_number port"
  shows "move_handle net addr s w = Inl (UndefinedBehaviour ''tokens'')"
proof -
  have len: "length los = length ups" using l(2) by (rule list_all2_lengthD)
  have "takeWhile (\<lambda>c. c \<noteq> CHR '':'') a = host" using takeWhile_item(1)[OF a(2), of port] a(1) by simp
  moreover have "drop (length host + 1) a = port" using a(1) by (simp add: Suc_diff_le)
  moreover have "CHR '':'' \<in> set a" using a(1) by simp
  moreover have "bounds_loop (Suc (2 * 0)) (a # interleave los ups @ [x])
      (replicate (length los) \<lparr>lower = [], upper = []\<rparr>) = Inl (UndefinedBehaviour ''tokens'')"
    by (rule bounds_loop_partial[OF l(2,3)]) simp_all
  moreover have "\<not> length (a # interleave los ups @ [x]) < 3" using l(1) len by (cases los) auto
  ultimately show ?thesis using a(3) len
    unfolding move_handle_def ts Let_def by simp
qed

section \<open>Properties\<close>

text \<open>
  C32. A command line reaches the client as it was meant: \<open>put\<close> with a key and the words of a value puts
  the words joined by single spaces, and \<open>multiput\<close> with alternating keys and values puts exactly
  these keys and values, in their order.
\<close>

theorem put_lines_reach_client:
  assumes "ts \<noteq> []" "\<forall>t\<in>set (k # ts). word_like t"
    "ks \<noteq> []" "length ks = length vs" "\<forall>t\<in>set (interleave ks vs). word_like t"
  shows "process_line (kv_commands client) (''put '' @ join_with '' '' (k # ts)) w
      = res_bind (cl_Put client k (join_with '' '' ts) w) (\<lambda>(res, w). Inr ([], w))
    \<and> process_line (kv_commands client) (''multiput '' @ join_with '' '' (interleave ks vs)) w
      = res_bind (cl_MultiPut client ks vs w) (\<lambda>(res, w). Inr ([], w))"
proof
  show "process_line (kv_commands client) (''put '' @ join_with '' '' (k # ts)) w
      = res_bind (cl_Put client k (join_with '' '' ts) w) (\<lambda>(res, w). Inr ([], w))"
    using process_known[of "''put''" "kv_commands client" "join_with '' '' (k # ts)" w]
      put_handle_words[OF tokens_join[OF assms(2)] assms(1), of client w]
    by (simp add: find_kv_commands PutCommand_def)
  show "process_line (kv_commands client) (''multiput '' @ join_with '' '' (interleave ks vs)) w
      = res_bind (cl_MultiPut client ks vs w) (\<lambda>(res, w). Inr ([], w))"
    using process_known[of "''multiput''" "kv_commands client" "join_with '' '' (interleave ks vs)" w]
      multiput_handle_pairs[OF tokens_join[OF assms(5)] assms(3,4), of client w]
    by (simp add: find_kv_commands MultiPutCommand_def)
qed

theorem put_lines_reach_client_witness:
  "process_line (kv_commands (shardkv_client (\<lambda>a r w. Inl (LogicError ''x'')) ''c:1'')) ''multiput a b c d'' ()
    = Inr ([], ())"
  using conjunct2[OF put_lines_reach_client[of "[''v'']" "''k''" "[''a'', ''c'']" "[''b'', ''d'']"
      "shardkv_client (\<lambda>a r w. Inl (LogicError ''x'')) ''c:1''" "()"]]
  by (simp add: word_like_def interleave_def shardkv_client_def shardkv_MultiPut_def)

text \<open>
  \<open>move\<close> with an incomplete last shard reads past its tokens: when the address is well-formed, the
  complete shards are valid and the single last bound is valid too, the complaint about an
  ill-formed shard is printed but the handler goes on and reads a token that does not exist.
\<close>

theorem move_partial_shard_undefined:
  assumes "list_all2 pair_ok los ups" "los \<noteq> []" "is_valid x" "CHR '':'' \<notin> set host" "is_number port"
    "\<forall>t\<in>set ((host @ '':'' @ port) # interleave los ups @ [x]). word_like t"
  shows "process_line (client_commands net addr)
      (''move '' @ join_with '' '' ((host @ '':'' @ port) # interleave los ups @ [x])) w
    = Inl (UndefinedBehaviour ''tokens'')"
proof -
  let ?ts = "(host @ '':'' @ port) # interleave los ups @ [x]"
  have "move_handle net addr (join_with '' '' ?ts) w = Inl (UndefinedBehaviour ''tokens'')"
    by (rule move_handle_partial[OF tokens_join[OF assms(6)] assms(2,1,3) _ assms(4,5)]) simp
  then show ?thesis
    using process_known[of "''move''" "client_commands net addr" "join_with '' '' ?ts" w]
    by (simp add: find_move MoveCommand_def)
qed

theorem move_partial_shard_undefined_witness:
  "process_line (client_commands (\<lambda>a r w. Inr (Answer (MoveRes MoveResponse), w)) ''c:1'')
     ''move h:80 A F G'' () = Inl (UndefinedBehaviour ''tokens'')"
proof -
  have v: "pair_ok ''A'' ''F''" "is_valid ''G''" by (simp_all add: pair_ok_def is_valid_iff VALID_CHARS_def toupper_def char_code_def)
  have "is_number ''80''" by (simp add: is_number_iff isdigit_def char_code_def)
  then show ?thesis
    using move_partial_shard_undefined[of "[''A'']" "[''F'']" "''G''" "''h''" "''80''"] v
    by (simp add: interleave_def word_like_def)
qed

end
