(* ===== verification/Dmalloc_Base.thy ===== *)
theory Dmalloc_Base
  imports Std_Map "HOL-Library.Multiset"
begin

text \<open>
  The base allocator of the debugging allocator, \<open>dmalloc/basealloc.cc\<close>: freed blocks are kept and
  handed out again, chosen by a linear congruential generator, and never returned to the C library
  before the program ends. What \<open>malloc\<close> of the C library would return is an argument of
  \<open>base_malloc\<close>.
\<close>

section \<open>State and operations\<close>

record base_state =
  allocs :: "(u64, u64) umap"
  frees :: "(u64 \<times> u64) list"
  disabled :: int
  rng :: u64
  atexit_installed :: bool
  free_calls :: "u64 list"

definition base_init :: base_state where
  "base_init = \<lparr>allocs = [], frees = [], disabled = 0, rng = 8973443640547502487,
     atexit_installed = False, free_calls = []\<rparr>"

definition alloc_random :: "base_state \<Rightarrow> u32 \<times> base_state" where
  "alloc_random b = (let x = rng b * 6364136223846793005 + 1 in (ucast (drop_bit 32 x), b\<lparr>rng := x\<rparr>))"

text \<open>
  The search of \<open>base_malloc\<close> for a freed block: at most ten tries, each with a random index. A
  block found leaves \<open>frees\<close> (its place is taken by the last one) and enters \<open>allocs\<close>.
\<close>

definition um_insert :: "'k \<Rightarrow> 'v \<Rightarrow> ('k, 'v) umap \<Rightarrow> ('k, 'v) umap" where
  "um_insert k v m = (case um_find m k of Some _ \<Rightarrow> m | None \<Rightarrow> um_put k v m)"

definition take_free :: "nat \<Rightarrow> base_state \<Rightarrow> base_state" where
  "take_free i b =
     b\<lparr>allocs := um_insert (fst (frees b ! i)) (snd (frees b ! i)) (allocs b),
       frees := butlast ((frees b)[i := last (frees b)])\<rparr>"

function find_free :: "nat \<Rightarrow> u64 \<Rightarrow> base_state \<Rightarrow> u64 \<times> base_state" where
  "find_free ntries sz b =
     (if ntries < 10 \<and> ntries < length (frees b)
      then case alloc_random b of (r, b) \<Rightarrow>
        let i = unat r mod length (frees b)
        in if sz \<le> snd (frees b ! i)
           then (fst (frees b ! i), take_free i b)
           else find_free (ntries + 1) sz b
      else (0, b))"
  by pat_completeness auto
termination by (relation "measure (\<lambda>(ntries, sz, b). 10 - ntries)") auto

declare find_free.simps [simp del]

definition base_malloc :: "u64 \<Rightarrow> u64 \<Rightarrow> base_state \<Rightarrow> u64 \<times> base_state" where
  "base_malloc sys sz b =
     (if disabled b \<noteq> 0 then (sys, b)
      else
        let b = b\<lparr>disabled := disabled b + 1\<rparr>;
            b = b\<lparr>atexit_installed := True\<rparr>;
            (r, b) = alloc_random b;
            (ptr, b) = (if r mod 4 \<noteq> 0 then find_free 0 sz b else (0, b));
            ptr = (if ptr = 0 then sys else ptr);
            b = (if ptr \<noteq> 0 then b\<lparr>allocs := um_put ptr sz (allocs b)\<rparr> else b)
        in (ptr, b\<lparr>disabled := disabled b - 1\<rparr>))"

definition base_free :: "u64 \<Rightarrow> base_state \<Rightarrow> base_state" where
  "base_free ptr b =
     (if disabled b \<noteq> 0 \<or> ptr = 0 then b\<lparr>free_calls := free_calls b @ [ptr]\<rparr>
      else
        let b = b\<lparr>disabled := disabled b + 1\<rparr>;
            b = (case um_find (allocs b) ptr of
                   Some s \<Rightarrow> b\<lparr>frees := frees b @ [(ptr, s)], allocs := um_erase ptr (allocs b)\<rparr>
                 | None \<Rightarrow> b)
        in b\<lparr>disabled := disabled b - 1\<rparr>)"

definition base_allocator_disable :: "bool \<Rightarrow> base_state \<Rightarrow> base_state" where
  "base_allocator_disable d b = b\<lparr>disabled := (if d then 1 else 0)\<rparr>"

definition base_allocator_atexit :: "base_state \<Rightarrow> base_state" where
  "base_allocator_atexit b = b\<lparr>free_calls := free_calls b @ map fst (frees b)\<rparr>"

section \<open>Regions of memory\<close>

text \<open>The addresses of a block, as natural numbers; a block does not wrap around.\<close>

definition span :: "u64 \<Rightarrow> u64 \<Rightarrow> nat set" where
  "span a n = {unat a ..< unat a + unat n}"

definition block_ok :: "u64 \<times> u64 \<Rightarrow> bool" where
  "block_ok p \<longleftrightarrow> fst p \<noteq> 0 \<and> fst p mod 16 = 0 \<and> 0 < snd p \<and> unat (fst p) + unat (snd p) < 2 ^ 64"

definition disjoint_from :: "u64 \<times> u64 \<Rightarrow> (u64 \<times> u64) set \<Rightarrow> bool" where
  "disjoint_from p S \<longleftrightarrow> (\<forall>q\<in>S. span (fst p) (snd p) \<inter> span (fst q) (snd q) = {})"

definition blocks_ok :: "(u64 \<times> u64) list \<Rightarrow> bool" where
  "blocks_ok bs \<longleftrightarrow> (\<forall>p\<in>set bs. block_ok p) \<and> distinct (map fst bs)
     \<and> (\<forall>p\<in>set bs. \<forall>q\<in>set bs. p \<noteq> q \<longrightarrow> span (fst p) (snd p) \<inter> span (fst q) (snd q) = {})"

text \<open>The invariant of the base allocator: live and freed blocks together are pairwise disjoint.\<close>

definition base_ok :: "base_state \<Rightarrow> bool" where
  "base_ok b \<longleftrightarrow> blocks_ok (allocs b @ frees b) \<and> disabled b = 0"

text \<open>What \<open>malloc\<close> promises of its result for a request of \<open>sz\<close> bytes.\<close>

definition fresh :: "u64 \<Rightarrow> u64 \<Rightarrow> base_state \<Rightarrow> bool" where
  "fresh sys sz b \<longleftrightarrow> sys = 0 \<or>
     block_ok (sys, sz) \<and> disjoint_from (sys, sz) (set (allocs b) \<union> set (frees b))"

lemma span_self: "block_ok p \<Longrightarrow> unat (fst p) \<in> span (fst p) (snd p)"
  by (auto simp: span_def block_ok_def word_less_nat_alt)

lemma span_shrink: "m \<le> n \<Longrightarrow> span a m \<subseteq> span a n"
  by (auto simp: span_def word_le_nat_alt)

lemma blocks_ok_Cons:
  "blocks_ok (p # bs) \<longleftrightarrow> block_ok p \<and> disjoint_from p (set bs) \<and> blocks_ok bs"
proof
  assume a: "blocks_ok (p # bs)"
  then have "p \<notin> set bs" by (auto simp: blocks_ok_def)
  then show "block_ok p \<and> disjoint_from p (set bs) \<and> blocks_ok bs"
    using a by (auto simp: blocks_ok_def disjoint_from_def)
next
  assume a: "block_ok p \<and> disjoint_from p (set bs) \<and> blocks_ok bs"
  have "fst p \<noteq> fst q" if "q \<in> set bs" for q
  proof
    assume e: "fst p = fst q"
    have "unat (fst p) \<in> span (fst p) (snd p)" "unat (fst q) \<in> span (fst q) (snd q)"
      using a that by (auto simp: blocks_ok_def intro: span_self)
    then show False using a that e by (auto simp: disjoint_from_def)
  qed
  then show "blocks_ok (p # bs)"
    using a by (auto simp: blocks_ok_def disjoint_from_def)
qed

lemma blocks_ok_mset: "mset xs = mset ys \<Longrightarrow> blocks_ok xs \<Longrightarrow> blocks_ok ys"
proof -
  assume m: "mset xs = mset ys" and ok: "blocks_ok xs"
  have "mset (map fst xs) = mset (map fst ys)" using m by simp
  then have "distinct (map fst ys)"
    using ok mset_eq_imp_distinct_iff by (auto simp: blocks_ok_def simp del: mset_map)
  moreover have "set xs = set ys" using m by (rule mset_eq_setD)
  ultimately show ?thesis using ok by (simp add: blocks_ok_def)
qed

lemma blocks_ok_sub: "mset ys \<subseteq># mset xs \<Longrightarrow> blocks_ok xs \<Longrightarrow> blocks_ok ys"
proof -
  assume m: "mset ys \<subseteq># mset xs" and ok: "blocks_ok xs"
  obtain zs where "mset xs = mset (zs @ ys)"
    using m by (metis mset_append ex_mset subset_mset.add_diff_inverse union_commute)
  then have "blocks_ok (zs @ ys)" using ok blocks_ok_mset by blast
  then show ?thesis by (induction zs) (auto simp: blocks_ok_Cons)
qed

section \<open>The operations keep the invariant\<close>

lemma mset_swap_remove:
  assumes "i < length xs"
  shows "mset xs = add_mset (xs ! i) (mset (butlast (xs[i := last xs])))"
proof -
  obtain ys z where xs: "xs = ys @ [z]" using assms by (cases xs rule: rev_cases) auto
  show ?thesis
  proof (cases "i < length ys")
    case True
    then have "xs ! i = ys ! i" "mset (ys[i := z]) = add_mset z (mset ys - {#ys ! i#})"
      by (auto simp: xs nth_append mset_update)
    then show ?thesis using True
      by (simp add: xs list_update_append butlast_append)
  next
    case False
    then have "i = length ys" using assms xs by simp
    then show ?thesis by (simp add: xs)
  qed
qed

lemma mset_um_put_absent: "k \<notin> fst ` set m \<Longrightarrow> mset (um_put k v m) = add_mset (k, v) (mset m)"
  unfolding um_put_def by (induction m) auto

lemma mset_um_put_present:
  "distinct (map fst m) \<Longrightarrow> (k, v) \<in> set m \<Longrightarrow> add_mset (k, v) (mset (um_put k w m)) = add_mset (k, w) (mset m)"
  unfolding um_put_def
proof (induction m)
  case Nil
  then show ?case by simp
next
  case (Cons p m)
  show ?case
  proof (cases "fst p = k")
    case True
    then have "k \<notin> fst ` set m" using Cons.prems(1) by auto
    then have "(k, v) \<notin> set m" by force
    then have "p = (k, v)" using Cons.prems(2) by auto
    then show ?thesis by simp
  next
    case False
    then show ?thesis using Cons by (cases p) (auto simp: add_mset_commute)
  qed
qed

lemma mset_um_erase:
  "distinct (map fst m) \<Longrightarrow> (k, v) \<in> set m \<Longrightarrow> mset m = add_mset (k, v) (mset (um_erase k m))"
  unfolding um_erase_def
proof (induction m)
  case Nil
  then show ?case by simp
next
  case (Cons p m)
  show ?case
  proof (cases "fst p = k")
    case True
    then have abs: "k \<notin> fst ` set m" using Cons.prems(1) by auto
    then have "(k, v) \<notin> set m" by force
    then have "p = (k, v)" using Cons.prems(2) by auto
    then show ?thesis using abs by (simp add: delete_notin_dom)
  next
    case False
    then show ?thesis using Cons by (cases p) (auto simp: add_mset_commute)
  qed
qed

lemma um_find_None: "um_find m k = None \<longleftrightarrow> k \<notin> fst ` set m"
  by (simp add: um_find_def map_of_eq_None_iff)

text \<open>Two states that differ in the generator only.\<close>

definition same_blocks :: "base_state \<Rightarrow> base_state \<Rightarrow> bool" where
  "same_blocks b b' \<longleftrightarrow> allocs b' = allocs b \<and> frees b' = frees b \<and> disabled b' = disabled b"

lemma find_free_spec:
  "find_free n sz b = (p, b') \<Longrightarrow>
    p = 0 \<and> same_blocks b b' \<or>
    (\<exists>i b1. same_blocks b b1 \<and> i < length (frees b) \<and> fst (frees b ! i) = p \<and> sz \<le> snd (frees b ! i)
      \<and> b' = take_free i b1)"
proof (induction n sz b arbitrary: p b' rule: find_free.induct)
  case (1 n sz b)
  obtain r b1 where r: "alloc_random b = (r, b1)" by (cases "alloc_random b")
  then have s: "same_blocks b b1" by (auto simp: alloc_random_def Let_def same_blocks_def)
  show ?case
  proof (cases "n < 10 \<and> n < length (frees b)")
    case False
    then show ?thesis using "1.prems" by (auto simp: find_free.simps same_blocks_def)
  next
    case True
    let ?i = "unat r mod length (frees b1)"
    have i: "?i < length (frees b)"
      using True s by (simp add: same_blocks_def) (metis less_nat_zero_code mod_less_divisor neq0_conv)
    show ?thesis
    proof (cases "sz \<le> snd (frees b1 ! ?i)")
      case True': True
      have "fst (frees b ! ?i) = p \<and> b' = take_free ?i b1"
        using "1.prems" True True' r s by (simp add: find_free.simps[of n] same_blocks_def Let_def)
      moreover have "sz \<le> snd (frees b ! ?i)" using True' s by (simp add: same_blocks_def)
      ultimately show ?thesis using s i by blast
    next
      case False
      then have f: "find_free (n + 1) sz b1 = (p, b')"
        using "1.prems" True r by (simp add: find_free.simps[of n] Let_def)
      have "p = 0 \<and> same_blocks b1 b' \<or>
        (\<exists>i b2. same_blocks b1 b2 \<and> i < length (frees b1) \<and> fst (frees b1 ! i) = p
          \<and> sz \<le> snd (frees b1 ! i) \<and> b' = take_free i b2)"
        by (rule "1.IH"[OF True r[symmetric] refl False f])
      then show ?thesis using s by (auto simp: same_blocks_def)
    qed
  qed
qed

lemma base_malloc_spec:
  assumes ok: "base_ok b" and sz: "0 < sz" and fr: "fresh sys sz b"
    and m: "base_malloc sys sz b = (p, b')"
  shows "base_ok b' \<and> (if p = 0 then um_find (allocs b') = um_find (allocs b)
    else um_find (allocs b) p = None \<and> um_find (allocs b') = (um_find (allocs b))(p \<mapsto> sz))"
proof -
  define b1 where "b1 = b\<lparr>disabled := disabled b + 1, atexit_installed := True\<rparr>"
  obtain r b2 where r: "alloc_random b1 = (r, b2)" by (cases "alloc_random b1")
  have b2: "allocs b2 = allocs b" "frees b2 = frees b" "disabled b2 = 1"
    using r ok by (auto simp: alloc_random_def Let_def b1_def base_ok_def)
  obtain q b3 where q: "(if r mod 4 \<noteq> 0 then find_free 0 sz b2 else (0, b2)) = (q, b3)"
    by (cases "if r mod 4 \<noteq> 0 then find_free 0 sz b2 else (0, b2)")
  let ?b4 = "\<lambda>p. if p \<noteq> 0 then b3\<lparr>allocs := um_put p sz (allocs b3)\<rparr> else b3"
  have res: "p = (if q = 0 then sys else q)" "b' = (?b4 p)\<lparr>disabled := disabled (?b4 p) - 1\<rparr>"
    using m r q ok by (auto simp: base_malloc_def b1_def Let_def base_ok_def)
  have bs: "blocks_ok (allocs b @ frees b)" using ok by (simp add: base_ok_def)
  have um: "um_wf (allocs b)" using bs by (simp add: blocks_ok_def um_wf_def)
  have cases: "q = 0 \<and> same_blocks b2 b3 \<or>
      (\<exists>i b1. same_blocks b2 b1 \<and> i < length (frees b2) \<and> fst (frees b2 ! i) = q
        \<and> sz \<le> snd (frees b2 ! i) \<and> b3 = take_free i b1)"
    using q find_free_spec[of 0 sz b2 q b3] by (auto simp: same_blocks_def split: if_splits)
  show ?thesis
  proof (cases "q = 0")
    case True
    have "\<not> (\<exists>i. i < length (frees b) \<and> fst (frees b ! i) = 0)"
      using bs nth_mem by (fastforce simp: blocks_ok_def block_ok_def)
    then have b3: "allocs b3 = allocs b" "frees b3 = frees b" "disabled b3 = 1"
      using cases True b2 by (auto simp: same_blocks_def)
    show ?thesis
    proof (cases "sys = 0")
      case True': True
      then show ?thesis using res True b3 bs by (simp add: base_ok_def)
    next
      case False
      have new: "blocks_ok ((sys, sz) # allocs b @ frees b)"
        using fr False bs by (simp add: fresh_def blocks_ok_Cons)
      then have abs: "sys \<notin> fst ` set (allocs b)" by (auto simp: blocks_ok_def)
      then have "mset ((sys, sz) # allocs b @ frees b) = mset (um_put sys sz (allocs b) @ frees b)"
        by (simp add: mset_um_put_absent)
      from blocks_ok_mset[OF this new] show ?thesis
        using res True False b3 abs um by (simp add: base_ok_def um_find_None)
    qed
  next
    case False
    then obtain i b5 where i: "same_blocks b2 b5" "i < length (frees b)" "fst (frees b ! i) = q"
        "sz \<le> snd (frees b ! i)" "b3 = take_free i b5"
      using cases b2 by auto
    define s where "s = snd (frees b ! i)"
    have fi: "frees b ! i = (q, s)" using i(3) s_def by (metis prod.collapse)
    let ?fs = "butlast ((frees b)[i := last (frees b)])"
    have ms: "mset (frees b) = add_mset (q, s) (mset ?fs)"
      using mset_swap_remove[OF i(2)] fi by simp
    have "mset ((q, s) # allocs b @ ?fs) = mset (allocs b @ frees b)" using ms by simp
    from blocks_ok_mset[OF this[symmetric] bs] have old: "blocks_ok ((q, s) # allocs b @ ?fs)" .
    then have abs: "q \<notin> fst ` set (allocs b)" by (auto simp: blocks_ok_def)
    have "span q sz \<subseteq> span q s" using i(4) s_def by (intro span_shrink) simp
    moreover have "unat sz \<le> unat s" using i(4) s_def by (simp add: word_le_nat_alt)
    ultimately have new: "blocks_ok ((q, sz) # allocs b @ ?fs)"
      using old sz by (fastforce simp: blocks_ok_Cons block_ok_def disjoint_from_def)
    have a: "um_insert q s (allocs b) = um_put q s (allocs b)"
      using abs by (simp add: um_insert_def um_find_None[THEN iffD2])
    have "mset (um_put q sz (um_put q s (allocs b))) = add_mset (q, sz) (mset (allocs b))"
      using abs um by (simp add: um_put_def update_Some_unfold AList.update_triv mset_um_put_absent[unfolded um_put_def])
    then have "mset ((q, sz) # allocs b @ ?fs) = mset (um_put q sz (um_put q s (allocs b)) @ ?fs)"
      by simp
    from blocks_ok_mset[OF this new] show ?thesis
      using res False i b2 fi abs um a
      by (simp add: base_ok_def take_free_def same_blocks_def um_find_None)
  qed
qed

lemma base_free_spec:
  assumes ok: "base_ok b" and p: "p \<noteq> 0"
  shows "base_ok (base_free p b) \<and> um_find (allocs (base_free p b)) = (um_find (allocs b))(p := None)"
proof (cases "um_find (allocs b) p")
  case None
  then show ?thesis using ok p by (auto simp: base_free_def base_ok_def Let_def fun_eq_iff)
next
  case (Some s)
  have bs: "blocks_ok (allocs b @ frees b)" using ok by (simp add: base_ok_def)
  then have um: "um_wf (allocs b)" by (simp add: blocks_ok_def um_wf_def)
  have mem: "(p, s) \<in> set (allocs b)" using Some by (simp add: um_find_def map_of_SomeD)
  have "mset (allocs b) = add_mset (p, s) (mset (um_erase p (allocs b)))"
    using um mem by (intro mset_um_erase) (simp add: um_wf_def)
  then have "mset (allocs b @ frees b) = mset (um_erase p (allocs b) @ frees b @ [(p, s)])" by simp
  from blocks_ok_mset[OF this bs] show ?thesis
    using Some ok p um by (simp add: base_free_def base_ok_def Let_def)
qed

section \<open>The interface of the base allocator\<close>

text \<open>
  \<open>live b p\<close> is the size of the block at \<open>p\<close> that was handed out, \<open>avail sys n b\<close> what the C
  library promises of the block \<open>sys\<close> it would give for \<open>n\<close> bytes.
\<close>

record 'b base_ops =
  bmalloc :: "u64 \<Rightarrow> u64 \<Rightarrow> 'b \<Rightarrow> u64 \<times> 'b"
  bfree :: "u64 \<Rightarrow> 'b \<Rightarrow> 'b"
  bdisable :: "bool \<Rightarrow> 'b \<Rightarrow> 'b"

locale base_allocator =
  fixes ops :: "'b base_ops"
    and ok :: "'b \<Rightarrow> bool"
    and live :: "'b \<Rightarrow> u64 \<Rightarrow> u64 option"
    and avail :: "u64 \<Rightarrow> u64 \<Rightarrow> 'b \<Rightarrow> bool"
  assumes live_block: "ok b \<Longrightarrow> live b p = Some n \<Longrightarrow> block_ok (p, n)"
    and live_disjoint: "ok b \<Longrightarrow> live b p = Some n \<Longrightarrow> live b q = Some k \<Longrightarrow> p \<noteq> q \<Longrightarrow> span p n \<inter> span q k = {}"
    and malloc_ok: "ok b \<Longrightarrow> 0 < n \<Longrightarrow> avail sys n b \<Longrightarrow> bmalloc ops sys n b = (p, b') \<Longrightarrow>
      ok b' \<and> (if p = 0 then live b' = live b else live b p = None \<and> live b' = (live b)(p \<mapsto> n))"
    and free_ok: "ok b \<Longrightarrow> p \<noteq> 0 \<Longrightarrow> ok (bfree ops p b) \<and> live (bfree ops p b) = (live b)(p := None)"
    and disable_ok: "ok b \<Longrightarrow> bdisable ops False (bdisable ops True b) = b"

lemma um_find_mem: "um_find m k = Some v \<Longrightarrow> (k, v) \<in> set m"
  by (simp add: um_find_def map_of_SomeD)

definition base_live :: "base_state \<Rightarrow> u64 \<Rightarrow> u64 option" where
  "base_live b = um_find (allocs b)"

definition base_impl :: "base_state base_ops" where
  "base_impl = \<lparr>bmalloc = base_malloc, bfree = base_free, bdisable = base_allocator_disable\<rparr>"

interpretation bs: base_allocator base_impl base_ok base_live fresh
proof
  fix b p n assume "base_ok b" "base_live b p = Some n"
  then show "block_ok (p, n)"
    using um_find_mem[of "allocs b" p n] by (auto simp: base_ok_def blocks_ok_def base_live_def)
next
  fix b p n q k assume "base_ok b" "base_live b p = Some n" "base_live b q = Some k" "p \<noteq> q"
  then show "span p n \<inter> span q k = {}"
    using um_find_mem[of "allocs b" p n] um_find_mem[of "allocs b" q k]
    by (fastforce simp: base_ok_def blocks_ok_def base_live_def)
next
  fix b n sys p b' assume "base_ok b" "0 < n" "fresh sys n b" "bmalloc base_impl sys n b = (p, b')"
  then show "base_ok b' \<and> (if p = 0 then base_live b' = base_live b
      else base_live b p = None \<and> base_live b' = (base_live b)(p \<mapsto> n))"
    using base_malloc_spec[of b n sys p b'] by (simp add: base_impl_def base_live_def)
next
  fix b p assume "base_ok b" "(p :: u64) \<noteq> 0"
  then show "base_ok (bfree base_impl p b) \<and> base_live (bfree base_impl p b) = (base_live b)(p := None)"
    using base_free_spec[of b p] by (simp add: base_impl_def base_live_def)
next
  fix b assume "base_ok b"
  then show "bdisable base_impl False (bdisable base_impl True b) = b"
    by (simp add: base_impl_def base_allocator_disable_def base_ok_def)
qed

end
