(* ===== verification/Byte_Memory.thy ===== *)
theory Byte_Memory
  imports Prelude
begin

text \<open>
  A byte-addressed memory with 64-bit addresses, and the little-endian words the machine stores in
  it. A region \<open>{unat a ..< unat a + n}\<close> that does not wrap around is named by the naturals of its
  addresses; writing one region leaves every disjoint one alone.
\<close>

section \<open>Reading and writing\<close>

type_synonym memory = "u64 \<Rightarrow> u8"

definition mem_read :: "u64 \<Rightarrow> nat \<Rightarrow> memory \<Rightarrow> bytes" where
  "mem_read a n m = map (\<lambda>i. m (a + word_of_nat i)) [0..<n]"

definition mem_write :: "u64 \<Rightarrow> bytes \<Rightarrow> memory \<Rightarrow> memory" where
  "mem_write a bs m = (\<lambda>x. if unat (x - a) < length bs then bs ! unat (x - a) else m x)"

definition le_bytes :: "nat \<Rightarrow> 'a::len word \<Rightarrow> bytes" where
  "le_bytes n w = map (\<lambda>i. ucast (drop_bit (8 * i) w)) [0..<n]"

fun le_word :: "bytes \<Rightarrow> 'a::len word" where
  "le_word [] = 0"
| "le_word (b # bs) = ucast b OR push_bit 8 (le_word bs)"

definition read64 :: "u64 \<Rightarrow> memory \<Rightarrow> u64" where
  "read64 a m = le_word (mem_read a 8 m)"

definition read32 :: "u64 \<Rightarrow> memory \<Rightarrow> u32" where
  "read32 a m = le_word (mem_read a 4 m)"

definition write64 :: "u64 \<Rightarrow> u64 \<Rightarrow> memory \<Rightarrow> memory" where
  "write64 a w m = mem_write a (le_bytes 8 w) m"

definition write32 :: "u64 \<Rightarrow> u32 \<Rightarrow> memory \<Rightarrow> memory" where
  "write32 a w m = mem_write a (le_bytes 4 w) m"

section \<open>Words and bytes\<close>

lemma length_le_bytes [simp]: "length (le_bytes n w) = n"
  by (simp add: le_bytes_def)

lemma length_mem_read [simp]: "length (mem_read a n m) = n"
  by (simp add: mem_read_def)

lemma bit_le_word:
  "bit (le_word bs :: 'a::len word) k \<longleftrightarrow> k < LENGTH('a) \<and> k div 8 < length bs \<and> bit (bs ! (k div 8)) (k mod 8)"
proof (induction bs arbitrary: k)
  case Nil
  then show ?case by simp
next
  case (Cons b bs)
  show ?case
  proof (cases "k < 8")
    case True
    then show ?thesis by (auto simp: bit_or_iff bit_ucast_iff bit_push_bit_iff)
  next
    case False
    then obtain j where j: "k = 8 + j" by (metis le_add_diff_inverse not_less)
    have "\<not> bit b k" using False bit_imp_le_length[of b k] by auto
    moreover have "(8 + j) div 8 = Suc (j div 8)" "(8 + j) mod 8 = j mod 8" by simp_all
    ultimately show ?thesis using Cons[of j] by (auto simp: j bit_or_iff bit_ucast_iff bit_push_bit_iff)
  qed
qed

lemma le_word_bytes: "LENGTH('a) \<le> 8 * n \<Longrightarrow> le_word (le_bytes n w) = (w :: 'a::len word)"
proof (rule bit_word_eqI)
  fix k assume n: "LENGTH('a) \<le> 8 * n" and k: "k < LENGTH('a)"
  then have "k div 8 < n" by auto
  then show "bit (le_word (le_bytes n w) :: 'a word) k = bit w k"
    using k by (simp add: bit_le_word le_bytes_def bit_ucast_iff bit_drop_bit_eq)
qed

lemma le_bytes_word: "8 * length bs \<le> LENGTH('a) \<Longrightarrow> le_bytes (length bs) (le_word bs :: 'a::len word) = bs"
proof (rule nth_equalityI)
  fix i assume l: "8 * length bs \<le> LENGTH('a)" and "i < length (le_bytes (length bs) (le_word bs :: 'a word))"
  then have i: "i < length bs" by simp
  show "le_bytes (length bs) (le_word bs :: 'a word) ! i = bs ! i"
  proof (rule bit_word_eqI)
    fix k assume k: "k < LENGTH(8)"
    then have "8 * i + k < LENGTH('a)" using i l by simp
    then show "bit (le_bytes (length bs) (le_word bs :: 'a word) ! i) k = bit (bs ! i) k"
      using i k by (simp add: le_bytes_def bit_ucast_iff bit_drop_bit_eq bit_le_word add.commute)
  qed
qed simp

lemma le_word_inj:
  "length bs = length cs \<Longrightarrow> 8 * length bs \<le> LENGTH('a) \<Longrightarrow>
    (le_word bs :: 'a::len word) = le_word cs \<longleftrightarrow> bs = cs"
  by (metis le_bytes_word)

section \<open>Regions\<close>

lemma offset_less_iff:
  fixes a x :: u64
  assumes "unat a + n \<le> 2 ^ 64"
  shows "unat (x - a) < n \<longleftrightarrow> unat x \<in> {unat a ..< unat a + n}"
proof (cases "a \<le> x")
  case True
  then have "unat (x - a) = unat x - unat a" "unat a \<le> unat x"
    by (simp_all add: unat_sub word_le_nat_alt)
  then show ?thesis by auto
next
  case False
  then have lt: "unat x < unat a" by (simp add: word_le_nat_alt)
  have "unat (x - a) = 2 ^ 64 + unat x - unat a"
    using unat_sub_if'[of x a] False by (simp add: word_le_nat_alt)
  then show ?thesis using lt assms by auto
qed

lemma unat_u64: "unat (a :: u64) < 2 ^ 64"
  by (rule order_less_le_trans[OF unsigned_less]) simp

lemma unat_offset: "unat (a :: u64) + i < 2 ^ 64 \<Longrightarrow> unat (a + word_of_nat i) = unat a + i"
  by (simp add: unat_word_ariths unat_of_nat)

lemma mem_read_write [simp]: "length bs \<le> 2 ^ 64 \<Longrightarrow> mem_read a (length bs) (mem_write a bs m) = bs"
proof (rule nth_equalityI)
  fix i assume l: "length bs \<le> 2 ^ 64" and "i < length (mem_read a (length bs) (mem_write a bs m))"
  then have i: "i < length bs" by simp
  then have "unat (word_of_nat i :: u64) = i" using l by (simp add: unat_of_nat)
  then show "mem_read a (length bs) (mem_write a bs m) ! i = bs ! i"
    using i by (simp add: mem_read_def mem_write_def)
qed simp

lemma mem_write_outside:
  "unat a + length bs \<le> 2 ^ 64 \<Longrightarrow> unat x \<notin> {unat a ..< unat a + length bs} \<Longrightarrow> mem_write a bs m x = m x"
  by (simp add: mem_write_def offset_less_iff del: atLeastLessThan_iff)

lemma mem_read_cong:
  assumes "unat a + n \<le> 2 ^ 64" "\<And>x. unat x \<in> {unat a ..< unat a + n} \<Longrightarrow> m x = m' x"
  shows "mem_read a n m = mem_read a n m'"
proof -
  have "m (a + word_of_nat i) = m' (a + word_of_nat i)" if "i < n" for i
    using assms that by (intro assms(2)) (simp add: unat_offset)
  then show ?thesis by (simp add: mem_read_def)
qed

lemma mem_read_frame:
  "unat a + n \<le> 2 ^ 64 \<Longrightarrow> unat b + length bs \<le> 2 ^ 64 \<Longrightarrow>
    {unat a ..< unat a + n} \<inter> {unat b ..< unat b + length bs} = {} \<Longrightarrow>
    mem_read a n (mem_write b bs m) = mem_read a n m"
  by (rule mem_read_cong) (auto intro: mem_write_outside)

lemma read64_write64 [simp]: "read64 a (write64 a w m) = w"
  using mem_read_write[of "le_bytes 8 w" a m]
  by (simp add: read64_def write64_def le_word_bytes del: mem_read_write)

lemma read32_write32 [simp]: "read32 a (write32 a w m) = w"
  using mem_read_write[of "le_bytes 4 w" a m]
  by (simp add: read32_def write32_def le_word_bytes del: mem_read_write)

text \<open>Reads and writes at different offsets of one block.\<close>

lemma mem_read_offsets:
  fixes x y :: u64
  assumes "unat x + n \<le> unat y \<and> unat y + length bs \<le> 2 ^ 64
    \<or> unat y + length bs \<le> unat x \<and> unat x + n \<le> 2 ^ 64"
  shows "mem_read (a + x) n (mem_write (a + y) bs m) = mem_read (a + x) n m"
proof -
  have "mem_write (a + y) bs m (a + x + word_of_nat i) = m (a + x + word_of_nat i)" if i: "i < n" for i
  proof -
    have "unat x + i < 2 ^ 64" using assms i unat_u64[of y] by auto
    then have xi: "unat (x + word_of_nat i) = unat x + i" by (rule unat_offset)
    have "unat (x + word_of_nat i) \<notin> {unat y ..< unat y + length bs}" using assms i xi by auto
    moreover have "unat y + length bs \<le> 2 ^ 64" using assms unat_u64[of x] by auto
    ultimately have n: "\<not> unat (x + word_of_nat i - y) < length bs"
      by (simp only: offset_less_iff simp_thms)
    have e: "a + x + word_of_nat i - (a + y) = x + word_of_nat i - y" by (simp add: algebra_simps)
    show ?thesis unfolding mem_write_def e using n by (rule if_not_P)
  qed
  then show ?thesis by (simp add: mem_read_def)
qed

lemma read64_offsets:
  fixes x y :: u64
  shows "unat x + 8 \<le> unat y \<and> unat y + 8 \<le> 2 ^ 64 \<or> unat y + 8 \<le> unat x \<and> unat x + 8 \<le> 2 ^ 64 \<Longrightarrow>
      read64 (a + x) (write64 (a + y) w m) = read64 (a + x) m"
    and "unat x + 8 \<le> unat y \<and> unat y + 4 \<le> 2 ^ 64 \<or> unat y + 4 \<le> unat x \<and> unat x + 8 \<le> 2 ^ 64 \<Longrightarrow>
      read64 (a + x) (write32 (a + y) v m) = read64 (a + x) m"
  by (simp_all add: read64_def write64_def write32_def mem_read_offsets)

lemma read32_offsets:
  fixes x y :: u64
  shows "unat x + 4 \<le> unat y \<and> unat y + 8 \<le> 2 ^ 64 \<or> unat y + 8 \<le> unat x \<and> unat x + 4 \<le> 2 ^ 64 \<Longrightarrow>
      read32 (a + x) (write64 (a + y) w m) = read32 (a + x) m"
  by (simp add: read32_def write64_def mem_read_offsets)

text \<open>Two memories that agree on a region.\<close>

definition agree :: "nat set \<Rightarrow> memory \<Rightarrow> memory \<Rightarrow> bool" where
  "agree S m m' \<longleftrightarrow> (\<forall>x. unat x \<in> S \<longrightarrow> m x = m' x)"

lemma agree_refl [simp]: "agree S m m"
  by (simp add: agree_def)

lemma agree_trans: "agree S m m' \<Longrightarrow> agree S m' m'' \<Longrightarrow> agree S m m''"
  by (simp add: agree_def)

lemma agree_mono: "agree S m m' \<Longrightarrow> T \<subseteq> S \<Longrightarrow> agree T m m'"
  by (auto simp: agree_def)

lemma agree_write:
  "unat a + length bs \<le> 2 ^ 64 \<Longrightarrow> S \<inter> {unat a ..< unat a + length bs} = {} \<Longrightarrow> agree S (mem_write a bs m) m"
  unfolding agree_def by (intro allI impI mem_write_outside) auto

lemma read64_agree:
  "agree S m m' \<Longrightarrow> {unat a ..< unat a + 8} \<subseteq> S \<Longrightarrow> unat a + 8 \<le> 2 ^ 64 \<Longrightarrow> read64 a m = read64 a m'"
proof -
  assume "agree S m m'" "{unat a ..< unat a + 8} \<subseteq> S" "unat a + 8 \<le> 2 ^ 64"
  then have "mem_read a 8 m = mem_read a 8 m'" by (intro mem_read_cong) (auto simp: agree_def)
  then show ?thesis by (simp add: read64_def)
qed

lemma read32_agree:
  "agree S m m' \<Longrightarrow> {unat a ..< unat a + 4} \<subseteq> S \<Longrightarrow> unat a + 4 \<le> 2 ^ 64 \<Longrightarrow> read32 a m = read32 a m'"
proof -
  assume "agree S m m'" "{unat a ..< unat a + 4} \<subseteq> S" "unat a + 4 \<le> 2 ^ 64"
  then have "mem_read a 4 m = mem_read a 4 m'" by (intro mem_read_cong) (auto simp: agree_def)
  then show ?thesis by (simp add: read32_def)
qed

end
