(* ===== verification/Dmalloc.thy ===== *)
theory Dmalloc
  imports Dmalloc_Base Byte_Memory
begin

text \<open>
  The debugging allocator, \<open>dmalloc/dmalloc.cc\<close> with \<open>dmalloc.hh\<close>: every block carries a header of
  48 bytes in front and a boundary value of 8 bytes behind, and \<open>dfree\<close> uses them, the active list
  and the heap bounds to tell invalid frees. Memory is byte-addressed, so writes of the user that
  leave a block are writes like any other. The operations of the base allocator are a parameter, as
  they are external functions in \<open>dmalloc.hh\<close>; \<open>Dmalloc_Base\<close> provides them.
\<close>

section \<open>State\<close>

record dmalloc_stats =
  nactive :: u64
  active_size :: u64
  ntotal :: u64
  total_size :: u64
  nfail :: u64
  fail_size :: u64
  heap_min :: u64
  heap_max :: u64

record alloc_info =
  ptr_val :: u64
  alloc_size :: u64
  is_allocated :: u32
  padding :: u64
  info_file :: u64
  info_line :: u64

record 'b dm_state =
  g_stats :: dmalloc_stats
  g_active :: "(u64, u64) omap"
  mem :: memory
  base :: 'b

definition g_stats_init :: dmalloc_stats where
  "g_stats_init = \<lparr>nactive = 0, active_size = 0, ntotal = 0, total_size = 0, nfail = 0, fail_size = 0,
     heap_min = -1, heap_max = 0\<rparr>"

definition IS_ALLOC :: u32 where
  "IS_ALLOC = 0xf4ba49d1"

definition BOUND_VAL :: u64 where
  "BOUND_VAL = 0x185a4b2f"

text \<open>
  The layout of \<open>alloc_info_t\<close>: 8, 8, 4 (and 4 unused), 8, 8 and 8 bytes; \<open>A\<close> is
  \<open>alignof(std::max_align_t)\<close>.
\<close>

definition hdr_sz :: u64 where
  "hdr_sz = (let A = 16 in (48 + A - 1) AND NOT (A - 1))"

definition ftr_sz :: u64 where
  "ftr_sz = 8"

definition load_info :: "u64 \<Rightarrow> memory \<Rightarrow> alloc_info" where
  "load_info h m = \<lparr>ptr_val = read64 h m, alloc_size = read64 (h + 8) m, is_allocated = read32 (h + 16) m,
     padding = read64 (h + 24) m, info_file = read64 (h + 32) m, info_line = read64 (h + 40) m\<rparr>"

text \<open>What \<open>dfree\<close> prints to the standard error, by the arguments of each \<open>fprintf\<close>.\<close>

datatype dm_message =
    NotAllocated u64 u64 u64
  | NotInHeap u64 u64 u64
  | DoubleFree u64 u64 u64
  | InsideRegion u64 u64 u64 u64 u64
  | WildWrite u64 u64 u64

datatype 'b free_outcome =
    FreeReturns "dm_message list" "'b dm_state"
  | FreeAborts "dm_message list"

section \<open>Allocation\<close>

definition count_failure :: "u64 \<Rightarrow> 'b dm_state \<Rightarrow> 'b dm_state" where
  "count_failure sz st = st\<lparr>g_stats := (g_stats st)\<lparr>nfail := nfail (g_stats st) + 1,
     fail_size := fail_size (g_stats st) + sz\<rparr>\<rparr>"

definition count_success :: "u64 \<Rightarrow> dmalloc_stats \<Rightarrow> dmalloc_stats" where
  "count_success sz g = g\<lparr>nactive := nactive g + 1, active_size := active_size g + sz,
     ntotal := ntotal g + 1, total_size := total_size g + sz\<rparr>"

definition widen_heap :: "u64 \<Rightarrow> u64 \<Rightarrow> dmalloc_stats \<Rightarrow> dmalloc_stats" where
  "widen_heap user sz g =
     (let g = (if user < heap_min g then g\<lparr>heap_min := user\<rparr> else g);
          end_addr = user + sz
      in if heap_max g < end_addr then g\<lparr>heap_max := end_addr\<rparr> else g)"

text \<open>The boundary value behind the block, and then the fields of the header.\<close>

definition write_block :: "u64 \<Rightarrow> u64 \<Rightarrow> u64 \<Rightarrow> u64 \<Rightarrow> memory \<Rightarrow> memory" where
  "write_block raw sz file line m =
     (let m = write64 (raw + (hdr_sz + sz)) BOUND_VAL m;
          m = write64 (raw + 0) (raw + hdr_sz) m;
          m = write64 (raw + 8) sz m;
          m = write32 (raw + 16) IS_ALLOC m;
          m = write64 (raw + 24) BOUND_VAL m;
          m = write64 (raw + 32) file m
      in write64 (raw + 40) line m)"

definition dmalloc :: "'b base_ops \<Rightarrow> u64 \<Rightarrow> u64 \<Rightarrow> u64 \<Rightarrow> u64 \<Rightarrow> 'b dm_state \<Rightarrow> u64 \<times> 'b dm_state" where
  "dmalloc ops sys sz file line st =
     (let total = hdr_sz + sz + ftr_sz in
      if - 1 - hdr_sz - ftr_sz < sz then (0, count_failure sz st)
      else case bmalloc ops sys total (base st) of (raw, b) \<Rightarrow>
        let st = st\<lparr>base := b\<rparr> in
        if raw = 0 then (0, count_failure sz st)
        else
          let st = st\<lparr>g_stats := count_success sz (g_stats st)\<rparr>;
              user = raw + hdr_sz;
              st = st\<lparr>base := bdisable ops True (base st)\<rparr>;
              st = st\<lparr>g_active := om_put user raw (g_active st)\<rparr>;
              st = st\<lparr>base := bdisable ops False (base st)\<rparr>;
              st = st\<lparr>g_stats := widen_heap user sz (g_stats st)\<rparr>
          in (user, st\<lparr>mem := write_block raw sz file line (mem st)\<rparr>))"

definition mem_zero :: "u64 \<Rightarrow> nat \<Rightarrow> memory \<Rightarrow> memory" where
  "mem_zero a n m = (\<lambda>x. if unat (x - a) < n then 0 else m x)"

definition dcalloc ::
  "'b base_ops \<Rightarrow> u64 \<Rightarrow> u64 \<Rightarrow> u64 \<Rightarrow> u64 \<Rightarrow> u64 \<Rightarrow> 'b dm_state \<Rightarrow> u64 \<times> 'b dm_state" where
  "dcalloc ops sys nmemb sz file line st =
     (if \<not> (nmemb = 0 \<or> sz = 0) \<and> - 1 div nmemb < sz
      then (0, st\<lparr>g_stats := (g_stats st)\<lparr>nfail := nfail (g_stats st) + 1, fail_size := - 1\<rparr>\<rparr>)
      else case dmalloc ops sys (nmemb * sz) file line st of (ptr, st) \<Rightarrow>
        (ptr, if ptr \<noteq> 0 then st\<lparr>mem := mem_zero ptr (unat (nmemb * sz)) (mem st)\<rparr> else st))"

section \<open>Release\<close>

text \<open>The entry of the active list before \<open>upper_bound(p)\<close>, if there is one.\<close>

definition entry_below :: "u64 \<Rightarrow> (u64, u64) omap \<Rightarrow> (u64 \<times> u64) option" where
  "entry_below p m = (let below = takeWhile (\<lambda>e. fst e \<le> p) m in if below = [] then None else Some (last below))"

definition inside_report :: "u64 \<Rightarrow> 'b dm_state \<Rightarrow> dm_message list" where
  "inside_report p st = (case entry_below p (g_active st) of
     None \<Rightarrow> []
   | Some (start, h) \<Rightarrow>
       let a = load_info h (mem st); end_addr = start + alloc_size a
       in if start < p \<and> p < end_addr
          then [InsideRegion (info_file a) (info_line a) p (p - start) (alloc_size a)] else [])"

definition dfree :: "'b base_ops \<Rightarrow> u64 \<Rightarrow> u64 \<Rightarrow> u64 \<Rightarrow> 'b dm_state \<Rightarrow> 'b free_outcome" where
  "dfree ops ptr file line st =
     (if ptr = 0 then FreeReturns [] st
      else
        let hdr = ptr - hdr_sz in
        if hdr mod 16 \<noteq> 0 then FreeAborts [NotAllocated file line ptr]
        else if ptr < heap_min (g_stats st) \<or> heap_max (g_stats st) \<le> ptr
          then FreeAborts [NotInHeap file line ptr]
        else
          let info = load_info hdr (mem st) in
          if ptr_val info = ptr \<and> is_allocated info \<noteq> IS_ALLOC then FreeAborts [DoubleFree file line ptr]
          else if ptr_val info \<noteq> ptr \<or> om_find (g_active st) ptr = None
            then FreeAborts (NotAllocated file line ptr # inside_report ptr st)
          else
            let to_check = read64 (hdr + (hdr_sz + alloc_size (load_info hdr (mem st)))) (mem st);
                msgs = (if to_check \<noteq> BOUND_VAL \<or> padding (load_info hdr (mem st)) \<noteq> BOUND_VAL
                        then [WildWrite file line ptr] else []);
                st = st\<lparr>mem := write32 (hdr + 16) 0 (mem st)\<rparr>;
                st = st\<lparr>base := bfree ops hdr (base st)\<rparr>;
                st = st\<lparr>base := bdisable ops True (base st)\<rparr>;
                st = st\<lparr>g_active := om_erase ptr (g_active st)\<rparr>;
                st = st\<lparr>base := bdisable ops False (base st)\<rparr>;
                g = g_stats st
            in FreeReturns msgs (st\<lparr>g_stats := g\<lparr>nactive := nactive g - 1,
                 active_size := active_size g - alloc_size info\<rparr>\<rparr>))"

definition get_statistics :: "'b dm_state \<Rightarrow> dmalloc_stats" where
  "get_statistics st = g_stats st"

text \<open>The numbers \<open>print_statistics\<close> prints, and the objects \<open>print_leak_report\<close> prints, last address first.\<close>

definition print_statistics :: "'b dm_state \<Rightarrow> u64 list \<times> u64 list" where
  "print_statistics st = (let s = get_statistics st in
     ([nactive s, ntotal s, nfail s], [active_size s, total_size s, fail_size s]))"

definition print_leak_report :: "'b dm_state \<Rightarrow> (u64 \<times> u64 \<times> u64 \<times> u64) list" where
  "print_leak_report st = map (\<lambda>(p, h). let i = load_info h (mem st) in
     (info_file i, info_line i, p, alloc_size i)) (rev (g_active st))"

section \<open>Blocks in memory\<close>

lemma hdr_sz_48 [simp]: "hdr_sz = 48"
  by (simp add: hdr_sz_def)

lemma ftr_sz_8 [simp]: "ftr_sz = 8"
  by (simp add: ftr_sz_def)

text \<open>The user address \<open>u\<close> has an intact block of \<open>s\<close> bytes.\<close>

definition intact :: "u64 \<Rightarrow> u64 \<Rightarrow> memory \<Rightarrow> bool" where
  "intact u s m \<longleftrightarrow> (let i = load_info (u - 48) m in ptr_val i = u \<and> alloc_size i = s
     \<and> is_allocated i = IS_ALLOC \<and> padding i = BOUND_VAL \<and> read64 (u + s) m = BOUND_VAL)"

text \<open>The bytes of the block: the header, the user's bytes and the boundary value.\<close>

definition extent :: "u64 \<Rightarrow> u64 \<Rightarrow> nat set" where
  "extent u s = {unat u - 48 ..< unat u + unat s + 8}"

definition placed :: "u64 \<Rightarrow> u64 \<Rightarrow> bool" where
  "placed u s \<longleftrightarrow> 48 \<le> unat u \<and> unat u + unat s + 8 < 2 ^ 64"

lemma placed_hdr: "placed u s \<Longrightarrow> unat (u - 48) = unat u - 48"
  by (simp add: placed_def unat_sub word_le_nat_alt)

lemma placed_ftr: "placed u s \<Longrightarrow> unat (u + s) = unat u + unat s"
  by (simp add: placed_def unat_word_ariths)

lemma load_info_agree_hdr:
  assumes "agree {unat u - 48 ..< unat u} m m'" "48 \<le> unat u"
  shows "load_info (u - 48) m = load_info (u - 48) m'"
proof -
  have h: "unat (u - 48) = unat u - 48" using assms(2) by (simp add: unat_sub word_le_nat_alt)
  have off: "unat (u - 48 + k) = unat u - 48 + unat k" if "unat k < 48" for k
    using that assms(2) unat_u64[of u] h
    by (subst unat_plus_simple[THEN iffD1]) (auto simp: no_olen_add_nat)
  have r: "read64 (u - 48 + k) m = read64 (u - 48 + k) m'" if "unat k \<le> 40" for k
    using assms(2) that off[of k] unat_u64[of u]
    by (intro read64_agree[OF assms(1)]) auto
  have "read32 (u - 48 + 16) m = read32 (u - 48 + 16) m'"
    using assms(2) off[of 16] unat_u64[of u]
    by (intro read32_agree[OF assms(1)]) auto
  then show ?thesis
    using r[of 0] r[of 8] r[of 24] r[of 32] r[of 40] by (simp add: load_info_def)
qed

lemma load_info_agree:
  "agree (extent u s) m m' \<Longrightarrow> placed u s \<Longrightarrow> load_info (u - 48) m = load_info (u - 48) m'"
  by (rule load_info_agree_hdr) (auto simp: extent_def placed_def elim: agree_mono)

lemma intact_agree:
  assumes "agree (extent u s) m m'" "placed u s"
  shows "intact u s m \<longleftrightarrow> intact u s m'"
proof -
  have "read64 (u + s) m = read64 (u + s) m'"
    using assms(2) placed_ftr[OF assms(2)]
    by (intro read64_agree[OF assms(1)]) (auto simp: extent_def placed_def)
  then show ?thesis using load_info_agree[OF assms] by (simp add: intact_def)
qed

lemma load_write_block:
  assumes "unat s + 56 \<le> 2 ^ 64"
  shows "load_info h (write_block h s file line m)
      = \<lparr>ptr_val = h + 48, alloc_size = s, is_allocated = IS_ALLOC, padding = BOUND_VAL,
         info_file = file, info_line = line\<rparr>"
    and "read64 (h + (48 + s)) (write_block h s file line m) = BOUND_VAL"
proof -
  have f: "unat (48 + s) = 48 + unat s" using assms by (simp add: unat_word_ariths)
  note o = read64_offsets[where a = h] read32_offsets[where a = h]
  have z: "read64 h x = read64 (h + 0) x" for x by simp
  show "load_info h (write_block h s file line m)
      = \<lparr>ptr_val = h + 48, alloc_size = s, is_allocated = IS_ALLOC, padding = BOUND_VAL,
         info_file = file, info_line = line\<rparr>"
    unfolding load_info_def write_block_def Let_def hdr_sz_48 z
    using assms by (simp add: o f del: add_0_right)
  show "read64 (h + (48 + s)) (write_block h s file line m) = BOUND_VAL"
    unfolding load_info_def write_block_def Let_def hdr_sz_48
    using assms by (simp add: o f del: add_0_right)
qed

lemma intact_write_block:
  assumes "placed u s"
  shows "intact u s (write_block (u - 48) s file line m)"
proof -
  have s: "unat s + 56 \<le> 2 ^ 64" using assms by (simp add: placed_def)
  show ?thesis using load_write_block[OF s, where h = "u - 48"] by (simp add: intact_def Let_def)
qed

text \<open>What \<open>write_block\<close> leaves alone.\<close>

lemma agree_write_block:
  assumes "placed u s" "S \<inter> extent u s = {}"
  shows "agree S (write_block (u - 48) s file line m) m"
proof -
  have off: "unat (u - 48 + k) = unat u - 48 + unat k" if "unat k \<le> 48 + unat s" for k
    using that assms(1) placed_hdr[OF assms(1)]
    by (subst unat_plus_simple[THEN iffD1]) (auto simp: placed_def no_olen_add_nat)
  have f: "unat (48 + s) = 48 + unat s" using assms(1) by (simp add: unat_word_ariths placed_def)
  have sub: "{unat (u - 48 + k) ..< unat (u - 48 + k) + 8} \<subseteq> extent u s"
      "unat (u - 48 + k) + 8 \<le> 2 ^ 64" if "unat k \<le> 48 + unat s" for k
    using that assms(1) off[OF that] by (auto simp: placed_def extent_def)
  have w8: "agree S (write64 (u - 48 + k) w n) n" if "unat k \<le> 48 + unat s" for k w n
    unfolding write64_def using sub[OF that] assms(2) by (intro agree_write) auto
  have w4: "agree S (write32 (u - 48 + k) w n) n" if "unat k \<le> 48 + unat s" for k w n
    unfolding write32_def using sub[OF that] assms(2) by (intro agree_write) fastforce+
  show ?thesis unfolding write_block_def Let_def hdr_sz_48
    by (intro agree_trans[OF w8] agree_trans[OF w4] w8) (simp_all add: f)
qed

section \<open>Blocks and the invariant\<close>

text \<open>The blocks of a state: the user addresses in the active list and the sizes in their headers.\<close>

definition dm_sizes :: "'b dm_state \<Rightarrow> u64 \<Rightarrow> u64 option" where
  "dm_sizes st u = map_option (\<lambda>h. alloc_size (load_info h (mem st))) (om_find (g_active st) u)"

definition dm_block :: "('b \<Rightarrow> u64 \<Rightarrow> u64 option) \<Rightarrow> 'b dm_state \<Rightarrow> u64 \<Rightarrow> u64 \<Rightarrow> bool" where
  "dm_block live st u s \<longleftrightarrow> placed u s \<and> u mod 16 = 0 \<and> om_find (g_active st) u = Some (u - 48)
     \<and> live (base st) (u - 48) = Some (56 + s) \<and> intact u s (mem st)
     \<and> heap_min (g_stats st) \<le> u \<and> u + s \<le> heap_max (g_stats st)"

definition entry_size :: "memory \<Rightarrow> u64 \<times> u64 \<Rightarrow> u64" where
  "entry_size m e = alloc_size (load_info (snd e) m)"

text \<open>The invariant: every active block is intact, live and within the heap bounds, and the counters fit.\<close>

definition dm_ok :: "('b \<Rightarrow> bool) \<Rightarrow> ('b \<Rightarrow> u64 \<Rightarrow> u64 option) \<Rightarrow> 'b dm_state \<Rightarrow> bool" where
  "dm_ok ok live st \<longleftrightarrow> ok (base st) \<and> om_wf (g_active st)
     \<and> (\<forall>u s. dm_sizes st u = Some s \<longrightarrow> dm_block live st u s)
     \<and> nactive (g_stats st) = word_of_nat (length (g_active st))
     \<and> active_size (g_stats st) = sum_list (map (entry_size (mem st)) (g_active st))"

lemma span_extent: "placed u s \<Longrightarrow> span (u - 48) (56 + s) = extent u s"
proof -
  assume p: "placed u s"
  then have "unat (56 + s) = 56 + unat s" by (simp add: placed_def unat_word_ariths)
  then show ?thesis using p placed_hdr[OF p] by (auto simp: span_def extent_def placed_def)
qed

lemma placed_block:
  assumes "block_ok (h, 56 + s)" "unat s + 56 < 2 ^ 64"
  shows "placed (h + 48) s \<and> (h + 48) mod 16 = 0 \<and> h + 48 \<noteq> 0"
proof -
  have s: "unat (56 + s) = 56 + unat s" using assms(2) by (simp add: unat_word_ariths)
  then have h: "unat (h + 48) = unat h + 48" using assms(1) by (simp add: block_ok_def unat_word_ariths)
  have "unat (h mod 16) = unat (0 :: u64)" using assms(1) by (simp add: block_ok_def)
  then have "unat h mod 16 = 0" by (simp add: unat_mod_distrib)
  then have "(unat h + 48) mod 16 = 0" by presburger
  then have "unat ((h + 48) mod 16) = 0" by (simp add: unat_mod_distrib h)
  then have "(h + 48) mod 16 = 0" by (metis unat_eq_zero)
  moreover have "placed (h + 48) s" using s h assms(1) by (simp add: placed_def block_ok_def)
  moreover have "h + 48 \<noteq> 0" using h by (metis add_is_0 unat_0 zero_neq_numeral)
  ultimately show ?thesis by simp
qed

lemma om_put_absent_sum:
  "k \<notin> fst ` set m \<Longrightarrow> sum_list (map f (om_put k v m)) = f (k, v) + sum_list (map f m)" for f :: "_ \<Rightarrow> u64"
  by (induction k v m rule: om_put.induct) (auto simp: algebra_simps)

lemma om_put_absent_length: "k \<notin> fst ` set m \<Longrightarrow> length (om_put k v m) = Suc (length m)"
  by (induction k v m rule: om_put.induct) auto

lemma om_erase_present:
  "distinct (map fst m) \<Longrightarrow> (k, v) \<in> set m \<Longrightarrow>
    length m = Suc (length (om_erase k m)) \<and> sum_list (map f m) = f (k, v) + (sum_list (map f (om_erase k m)) :: u64)"
proof (induction m)
  case Nil
  then show ?case by simp
next
  case (Cons e m)
  show ?case
  proof (cases "e = (k, v)")
    case True
    then have "k \<notin> fst ` set m" using Cons.prems by auto
    then have "om_erase k m = m" unfolding om_erase_def by (intro filter_True) (auto simp: image_iff)
    then show ?thesis using True by (simp add: om_erase_def)
  next
    case False
    then have "k \<in> fst ` set m" using Cons.prems(2) by force
    then have "fst e \<noteq> k" using Cons.prems(1) by auto
    then show ?thesis using False Cons by (cases e) (auto simp: om_erase_def algebra_simps)
  qed
qed

lemma om_find_None: "om_find m k = None \<longleftrightarrow> k \<notin> fst ` set m"
  by (simp add: om_find_def map_of_eq_None_iff)

lemma om_find_mem: "om_wf m \<Longrightarrow> (k, v) \<in> set m \<longleftrightarrow> om_find m k = Some v"
  by (simp add: om_find_def om_wf_distinct)

lemma entry_below_Some:
  assumes "om_wf m" "om_find m q = Some h" "q \<le> p" "\<And>v k. om_find m v = Some k \<Longrightarrow> v \<le> p \<Longrightarrow> v \<le> q"
  shows "entry_below p m = Some (q, h)"
  using assms
proof (induction m)
  case Nil
  then show ?case by (simp add: om_find_def)
next
  case (Cons e m)
  obtain k v where e: "e = (k, v)" by (cases e)
  have wf: "om_wf m" "\<forall>x\<in>fst ` set m. k < x" using Cons.prems(1) e by (auto simp: om_wf_def)
  show ?case
  proof (cases "k = q")
    case True
    have "takeWhile (\<lambda>e. fst e \<le> p) m = []"
    proof (cases m)
      case (Cons e' m')
      then have k': "q < fst e'" using wf(2) True by simp
      have "om_find (e # m) (fst e') = Some (snd e')" using Cons k' e True by (auto simp: om_find_def)
      then have "\<not> fst e' \<le> p" using Cons.prems(4) k' by force
      then show ?thesis using Cons by simp
    qed simp
    then show ?thesis using True e Cons.prems by (simp add: entry_below_def om_find_def)
  next
    case False
    then have q: "om_find m q = Some h" using Cons.prems(2) e by (simp add: om_find_def)
    then have "q \<in> fst ` set m" using om_find_None[of m q] by auto
    then have "k < q" using wf(2) by blast
    have "entry_below p m = Some (q, h)"
    proof (rule Cons.IH[OF wf(1) q Cons.prems(3)])
      fix x y assume x: "om_find m x = Some y" "x \<le> p"
      then have "x \<in> fst ` set m" using om_find_None[of m x] by auto
      then have "k < x" using wf(2) by blast
      then have "om_find (e # m) x = Some y" using x e by (auto simp: om_find_def)
      then show "x \<le> q" using Cons.prems(4) x(2) by blast
    qed
    then show ?thesis using e \<open>k < q\<close> Cons.prems(3)
      by (auto simp: entry_below_def Let_def split: if_splits)
  qed
qed

text \<open>Changing memory outside the blocks, and the statistics only, keeps the blocks.\<close>

lemma dm_sizes_update [simp]:
  "dm_sizes (st\<lparr>g_stats := g\<rparr>) = dm_sizes st" "dm_sizes (st\<lparr>base := b\<rparr>) = dm_sizes st"
  by (simp_all add: dm_sizes_def fun_eq_iff)

lemma dm_sizes_cong:
  "g_active st' = g_active st \<Longrightarrow>
    (\<And>u h. om_find (g_active st) u = Some h \<Longrightarrow> load_info h (mem st') = load_info h (mem st)) \<Longrightarrow>
    dm_sizes st' = dm_sizes st"
  by (auto simp: dm_sizes_def fun_eq_iff map_option_case split: option.splits)

lemma dm_ok_entry:
  assumes "dm_ok ok live st" "om_find (g_active st) u = Some h"
  shows "h = u - 48 \<and> dm_sizes st u = Some (alloc_size (load_info h (mem st)))
    \<and> dm_block live st u (alloc_size (load_info h (mem st)))"
proof -
  have s: "dm_sizes st u = Some (alloc_size (load_info h (mem st)))"
    using assms(2) by (simp add: dm_sizes_def)
  then have "dm_block live st u (alloc_size (load_info h (mem st)))"
    using assms(1) by (simp add: dm_ok_def)
  moreover from this have "h = u - 48" using assms(2) by (simp add: dm_block_def)
  ultimately show ?thesis using s by blast
qed

context base_allocator
begin

lemma blocks_apart:
  assumes "dm_ok ok live st" "dm_sizes st u = Some s" "dm_sizes st v = Some t" "u \<noteq> v"
  shows "extent u s \<inter> extent v t = {}"
proof -
  have b: "dm_block live st u s" "dm_block live st v t" "ok (base st)"
    using assms by (auto simp: dm_ok_def)
  then have "span (u - 48) (56 + s) \<inter> span (v - 48) (56 + t) = {}"
    using live_disjoint[of "base st" "u - 48" "56 + s" "v - 48" "56 + t"] assms(4)
    by (simp add: dm_block_def)
  then show ?thesis using b by (simp add: span_extent dm_block_def)
qed

lemma dmalloc_fails:
  "dmalloc ops sys sz file line st = (p, st') \<Longrightarrow> - 57 < sz \<Longrightarrow> p = 0 \<and> st' = count_failure sz st"
  by (simp add: dmalloc_def)

lemma dmalloc_succeeds:
  assumes inv: "dm_ok ok live st" and av: "avail sys (56 + sz) (base st)" and sz: "unat sz + 56 < 2 ^ 64"
    and bm: "bmalloc ops sys (56 + sz) (base st) = (raw, b)" and raw: "raw \<noteq> 0"
    and st': "st' = st\<lparr>base := b, g_active := om_put (raw + 48) raw (g_active st),
      g_stats := widen_heap (raw + 48) sz (count_success sz (g_stats st)),
      mem := write_block raw sz file line (mem st)\<rparr>"
  shows "dm_ok ok live st' \<and> dm_sizes st (raw + 48) = None \<and> dm_sizes st' = (dm_sizes st)(raw + 48 \<mapsto> sz)
    \<and> placed (raw + 48) sz \<and> (raw + 48) mod 16 = 0 \<and> raw + 48 \<noteq> 0
    \<and> (\<forall>v t. dm_sizes st v = Some t \<longrightarrow> agree (extent v t) (mem st') (mem st))"
proof -
  let ?u = "raw + 48"
  have wf: "om_wf (g_active st)" "ok (base st)" using inv by (auto simp: dm_ok_def)
  have "unat (56 + sz) = 56 + unat sz" using sz by (simp add: unat_word_ariths)
  then have pos: "0 < 56 + sz" by (simp add: word_less_nat_alt)
  have b: "ok b" "live (base st) raw = None" "live b = (live (base st))(raw \<mapsto> 56 + sz)"
    using malloc_ok[OF wf(2) pos av bm] raw by auto
  then have blk: "block_ok (raw, 56 + sz)" using live_block[of b raw] by simp
  note pl = placed_block[OF blk sz]
  have ext: "extent ?u sz = span raw (56 + sz)" using span_extent[of ?u sz] pl by simp
  have new: "om_find (g_active st) ?u = None"
  proof (rule ccontr)
    assume "om_find (g_active st) ?u \<noteq> None"
    then obtain h where h: "om_find (g_active st) ?u = Some h" by blast
    then show False using dm_ok_entry[OF inv h] b(2) by (simp add: dm_block_def)
  qed
  have apart: "extent v t \<inter> extent ?u sz = {}" if v: "dm_sizes st v = Some t" for v t
  proof -
    have bv: "dm_block live st v t" using v inv by (simp add: dm_ok_def)
    then have "live b (v - 48) = Some (56 + t)" "v - 48 \<noteq> raw" using b by (auto simp: dm_block_def)
    then have "span (v - 48) (56 + t) \<inter> span raw (56 + sz) = {}"
      using live_disjoint[OF b(1), of "v - 48" "56 + t" raw "56 + sz"] b(3) by simp
    then show ?thesis using bv ext by (simp add: span_extent dm_block_def)
  qed
  have ag: "agree (extent v t) (mem st') (mem st)" if v: "dm_sizes st v = Some t" for v t
    using agree_write_block[OF conjunct1[OF pl] apart[OF v]]
    by (simp add: st')
  have info: "load_info h (mem st') = load_info h (mem st)" if h: "om_find (g_active st) v = Some h" for v h
  proof -
    note e = dm_ok_entry[OF inv h]
    then have "placed v (alloc_size (load_info h (mem st)))" unfolding dm_block_def by blast
    from load_info_agree[OF ag[OF conjunct1[OF conjunct2[OF e]]] this] show ?thesis using e by simp
  qed
  have int: "intact ?u sz (mem st')" using intact_write_block[of ?u sz] pl by (simp add: st')
  then have own: "alloc_size (load_info raw (mem st')) = sz" by (simp add: intact_def Let_def)
  have act: "om_find (g_active st') = (om_find (g_active st))(?u \<mapsto> raw)"
    using wf(1) by (simp add: st')
  have sizes: "dm_sizes st' = (dm_sizes st)(?u \<mapsto> sz)"
    using info own by (auto simp: dm_sizes_def act fun_eq_iff map_option_case split: option.splits)
  have g: "heap_min (g_stats st') \<le> heap_min (g_stats st)" "heap_min (g_stats st') \<le> ?u"
      "heap_max (g_stats st) \<le> heap_max (g_stats st')" "?u + sz \<le> heap_max (g_stats st')"
      "nactive (g_stats st') = nactive (g_stats st) + 1"
      "active_size (g_stats st') = active_size (g_stats st) + sz"
    by (auto simp: st' widen_heap_def count_success_def Let_def)
  have blocks: "dm_block live st' v t" if v: "dm_sizes st' v = Some t" for v t
  proof (cases "v = ?u")
    case True
    then show ?thesis using v sizes pl b int g by (simp add: dm_block_def act) (simp add: st')
  next
    case False
    then have v': "dm_sizes st v = Some t" using v sizes by simp
    then have bv: "dm_block live st v t" using inv by (simp add: dm_ok_def)
    have "intact v t (mem st')" using intact_agree[OF ag[OF v']] bv by (simp add: dm_block_def)
    moreover have "v - 48 \<noteq> raw" using bv b(2) by (auto simp: dm_block_def)
    then have "live (base st') (v - 48) = Some (56 + t)"
      using bv b by (simp add: st' dm_block_def)
    ultimately show ?thesis using bv False g by (auto simp: dm_block_def act)
  qed
  have absent: "?u \<notin> fst ` set (g_active st)" using new by (simp add: om_find_None)
  have same: "map (entry_size (mem st')) (g_active st) = map (entry_size (mem st)) (g_active st)"
    using info wf(1) by (auto simp: entry_size_def om_find_mem)
  have put: "g_active st' = om_put ?u raw (g_active st)" by (simp add: st')
  have "entry_size (mem st') (?u, raw) = sz" using own by (simp add: entry_size_def)
  then have "sum_list (map (entry_size (mem st')) (g_active st')) = sz + sum_list (map (entry_size (mem st)) (g_active st))"
    unfolding put om_put_absent_sum[OF absent] same by simp
  moreover have "length (g_active st') = Suc (length (g_active st))"
    using absent by (simp add: st' om_put_absent_length)
  moreover have "om_wf (g_active st')" "ok (base st')" using wf b by (simp_all add: st')
  ultimately have "dm_ok ok live st'"
    using inv g blocks by (simp add: dm_ok_def)
  then show ?thesis using sizes pl ag new by (simp add: dm_sizes_def)
qed

text \<open>The whole of \<open>dmalloc\<close>: it either counts a failure or adds an intact block.\<close>

lemma dmalloc_spec:
  assumes inv: "dm_ok ok live st" and av: "avail sys (56 + sz) (base st)"
    and m: "dmalloc ops sys sz file line st = (p, st')"
  shows "dm_ok ok live st' \<and>
    (if p = 0 then dm_sizes st' = dm_sizes st \<and> mem st' = mem st
        \<and> nfail (g_stats st') = nfail (g_stats st) + 1 \<and> fail_size (g_stats st') = fail_size (g_stats st) + sz
     else dm_sizes st p = None \<and> dm_sizes st' = (dm_sizes st)(p \<mapsto> sz) \<and> placed p sz \<and> p mod 16 = 0
        \<and> (\<forall>v t. dm_sizes st v = Some t \<longrightarrow> agree (extent v t) (mem st') (mem st)))"
proof (cases "- 57 < sz")
  case True
  then show ?thesis using dmalloc_fails[OF m True] inv
    by (simp add: count_failure_def dm_ok_def dm_sizes_def dm_block_def)
next
  case False
  then have "unat sz \<le> unat (- 57 :: u64)" by (simp only: not_less word_le_nat_alt)
  then have sz: "unat sz + 56 < 2 ^ 64" by simp
  obtain raw b where bm: "bmalloc ops sys (56 + sz) (base st) = (raw, b)"
    by (cases "bmalloc ops sys (56 + sz) (base st)")
  have t: "hdr_sz + sz + ftr_sz = 56 + sz" by simp
  have "unat (56 + sz) = 56 + unat sz" using sz by (simp add: unat_word_ariths)
  then have pos: "0 < 56 + sz" by (simp add: word_less_nat_alt)
  have b: "ok b" "raw = 0 \<Longrightarrow> live b = live (base st)"
    using malloc_ok[OF _ pos av bm] inv by (auto simp: dm_ok_def split: if_splits)
  show ?thesis
  proof (cases "raw = 0")
    case True
    then have "p = 0 \<and> st' = count_failure sz (st\<lparr>base := b\<rparr>)"
      using m False bm unfolding dmalloc_def t Let_def by simp
    then show ?thesis using inv b True
      by (simp add: count_failure_def dm_ok_def dm_sizes_def dm_block_def)
  next
    case raw: False
    have "p = raw + 48 \<and> st' = st\<lparr>base := b, g_active := om_put (raw + 48) raw (g_active st),
      g_stats := widen_heap (raw + 48) sz (count_success sz (g_stats st)),
      mem := write_block raw sz file line (mem st)\<rparr>"
      using m False raw bm disable_ok[OF b(1)] unfolding dmalloc_def t Let_def
      by (auto intro!: dm_state.equality)
    then show ?thesis using dmalloc_succeeds[OF inv av sz bm raw] by auto
  qed
qed

text \<open>A free of an active block below the top of the heap.\<close>

lemma dfree_spec:
  assumes inv: "dm_ok ok live st" and s: "dm_sizes st p = Some s" and top: "p < heap_max (g_stats st)"
  shows "\<exists>st'. dfree ops p file line st = FreeReturns [] st' \<and> dm_ok ok live st'
    \<and> dm_sizes st' = (dm_sizes st)(p := None)
    \<and> (\<forall>v t. dm_sizes st v = Some t \<longrightarrow> v \<noteq> p \<longrightarrow> agree (extent v t) (mem st') (mem st))"
proof -
  have wf: "om_wf (g_active st)" "ok (base st)" using inv by (auto simp: dm_ok_def)
  have blk: "dm_block live st p s" using inv s by (simp add: dm_ok_def)
  then have pl: "placed p s" and act: "om_find (g_active st) p = Some (p - 48)"
    and lv: "live (base st) (p - 48) = Some (56 + s)" by (auto simp: dm_block_def)
  have info: "ptr_val (load_info (p - 48) (mem st)) = p" "alloc_size (load_info (p - 48) (mem st)) = s"
      "is_allocated (load_info (p - 48) (mem st)) = IS_ALLOC" "padding (load_info (p - 48) (mem st)) = BOUND_VAL"
      "read64 (p + s) (mem st) = BOUND_VAL"
    using blk by (auto simp: dm_block_def intact_def Let_def)
  have b48: "block_ok (p - 48, 56 + s)" using live_block[OF wf(2) lv] .
  then have h: "p - 48 \<noteq> 0" "(p - 48) mod 16 = 0" by (auto simp: block_ok_def)
  have p0: "p \<noteq> 0" using pl by (auto simp: placed_def)
  let ?m = "write32 (p - 48 + 16) 0 (mem st)"
  define st' where "st' = st\<lparr>mem := ?m, base := bfree ops (p - 48) (base st),
    g_active := om_erase p (g_active st), g_stats := (g_stats st)\<lparr>nactive := nactive (g_stats st) - 1,
    active_size := active_size (g_stats st) - s\<rparr>\<rparr>"
  have fr: "ok (bfree ops (p - 48) (base st))"
      "live (bfree ops (p - 48) (base st)) = (live (base st))(p - 48 := None)"
    using free_ok[OF wf(2) h(1)] by auto
  have res: "dfree ops p file line st = FreeReturns [] st'"
    using blk top p0 h(2) info act disable_ok[OF fr(1)]
    by (simp add: dfree_def Let_def dm_block_def not_less st'_def)
  have ag: "agree (extent v t) (mem st') (mem st)" if v: "dm_sizes st v = Some t" "v \<noteq> p" for v t
  proof -
    have u: "unat (p - 48 + 16) = unat p - 32"
      using pl by (simp add: placed_def unat_sub word_le_nat_alt)
    show ?thesis unfolding st'_def write32_def using blocks_apart[OF inv v(1) s v(2)] u pl
      by (simp, intro agree_write) (auto simp: extent_def placed_def)
  qed
  have act': "om_find (g_active st') = (om_find (g_active st))(p := None)"
    using wf(1) by (simp add: st'_def)
  have linfo: "load_info h (mem st') = load_info h (mem st)"
    if h: "om_find (g_active st) v = Some h" "v \<noteq> p" for v h
  proof -
    note e = dm_ok_entry[OF inv h(1)]
    then have "placed v (alloc_size (load_info h (mem st)))" unfolding dm_block_def by blast
    from load_info_agree[OF ag[OF conjunct1[OF conjunct2[OF e]] h(2)] this] show ?thesis using e by simp
  qed
  have sizes: "dm_sizes st' = (dm_sizes st)(p := None)"
    using linfo by (auto simp: dm_sizes_def act' fun_eq_iff map_option_case split: option.splits)
  have blocks: "dm_block live st' v t" if v: "dm_sizes st' v = Some t" for v t
  proof -
    have v': "dm_sizes st v = Some t" "v \<noteq> p" using v sizes by (auto split: if_splits)
    then have bv: "dm_block live st v t" using inv by (simp add: dm_ok_def)
    have "intact v t (mem st')" using intact_agree[OF ag[OF v']] bv by (simp add: dm_block_def)
    moreover have "v - 48 \<noteq> p - 48" using v'(2) by simp
    ultimately show ?thesis using bv v'(2) fr by (simp add: dm_block_def act') (simp add: st'_def)
  qed
  have mem_act: "(p, p - 48) \<in> set (g_active st)" using act wf(1) by (simp add: om_find_mem)
  have lens: "length (g_active st) = Suc (length (g_active st'))"
      "sum_list (map (entry_size (mem st)) (g_active st))
        = s + sum_list (map (entry_size (mem st)) (g_active st'))"
    using om_erase_present[OF om_wf_distinct[OF wf(1)] mem_act, of "entry_size (mem st)"] info(2)
    by (simp_all add: st'_def entry_size_def)
  have same: "map (entry_size (mem st')) (g_active st') = map (entry_size (mem st)) (g_active st')"
  proof (rule map_cong[OF refl])
    fix e assume e: "e \<in> set (g_active st')"
    obtain v h where vh: "e = (v, h)" by (cases e)
    have "om_wf (g_active st')" using wf(1) by (simp add: st'_def)
    then have "om_find (g_active st') v = Some h" using e vh by (simp add: om_find_mem)
    then have "om_find (g_active st) v = Some h \<and> v \<noteq> p" by (simp add: act' split: if_splits)
    then show "entry_size (mem st') e = entry_size (mem st) e"
      using linfo[of v h] unfolding vh entry_size_def snd_conv by simp
  qed
  have sums: "active_size (g_stats st') = sum_list (map (entry_size (mem st')) (g_active st'))"
  proof -
    have "active_size (g_stats st') = active_size (g_stats st) - s" by (simp add: st'_def)
    moreover have "active_size (g_stats st) = sum_list (map (entry_size (mem st)) (g_active st))"
      using inv by (simp only: dm_ok_def)
    ultimately show ?thesis unfolding same using lens(2) by simp
  qed
  have "nactive (g_stats st') = nactive (g_stats st) - 1" by (simp add: st'_def)
  then have counts: "nactive (g_stats st') = word_of_nat (length (g_active st'))"
    using inv lens(1) by (simp add: dm_ok_def)
  have "ok (base st')" "om_wf (g_active st')" using fr wf(1) by (simp_all add: st'_def)
  then have "dm_ok ok live st'"
    unfolding dm_ok_def using blocks sums counts by blast
  then show ?thesis using res sizes ag by blast
qed

text \<open>A write of the user within its own block.\<close>

lemma user_write_ok:
  assumes inv: "dm_ok ok live st" and s: "dm_sizes st p = Some s"
    and a: "unat p \<le> unat a" "unat a + length bs \<le> unat p + unat s"
    and st': "st' = st\<lparr>mem := mem_write a bs (mem st)\<rparr>"
  shows "dm_ok ok live st' \<and> dm_sizes st' = dm_sizes st"
proof -
  have wf: "om_wf (g_active st)" using inv by (simp add: dm_ok_def)
  have pl: "placed p s" using inv s by (simp add: dm_ok_def dm_block_def)
  have ag: "agree S (mem st') (mem st)" if "S \<inter> {unat p ..< unat p + unat s} = {}" for S
    unfolding st' using that a pl by (simp, intro agree_write) (auto simp: placed_def)
  have info: "load_info h (mem st') = load_info h (mem st) \<and>
      intact v (alloc_size (load_info h (mem st))) (mem st')"
    if h: "om_find (g_active st) v = Some h" for v h
  proof -
    note e = dm_ok_entry[OF inv h]
    let ?t = "alloc_size (load_info h (mem st))"
    have b: "placed v ?t" "intact v ?t (mem st)" using e unfolding dm_block_def by blast+
    have out: "{unat v - 48 ..< unat v} \<inter> {unat p ..< unat p + unat s} = {}
        \<and> {unat v + unat ?t ..< unat v + unat ?t + 8} \<inter> {unat p ..< unat p + unat s} = {}"
    proof (cases "v = p")
      case True
      then have "?t = s" using e s by simp
      then show ?thesis using True by auto
    next
      case False
      have "extent v ?t \<inter> extent p s = {}"
        using blocks_apart[OF inv _ s False] e by blast
      then show ?thesis unfolding extent_def by (auto simp: disjoint_iff)
    qed
    have "load_info (v - 48) (mem st') = load_info (v - 48) (mem st)"
      using b(1) out by (intro load_info_agree_hdr ag) (auto simp: placed_def)
    moreover have "read64 (v + ?t) (mem st') = read64 (v + ?t) (mem st)"
      using b(1) out placed_ftr[OF b(1)]
      by (intro read64_agree[OF ag[of "{unat v + unat ?t ..< unat v + unat ?t + 8}"]])
        (auto simp: placed_def)
    moreover have "h = v - 48" using e by blast
    ultimately show ?thesis using b(2) by (simp add: intact_def Let_def)
  qed
  have same: "g_active st' = g_active st" "g_stats st' = g_stats st" "base st' = base st"
    by (simp_all add: st')
  have sizes: "dm_sizes st' = dm_sizes st"
    using info by (intro dm_sizes_cong) (simp_all add: same)
  have "dm_block live st' v t" if v: "dm_sizes st v = Some t" for v t
  proof -
    obtain h where h: "om_find (g_active st) v = Some h" "t = alloc_size (load_info h (mem st))"
      using v by (auto simp: dm_sizes_def)
    have "intact v t (mem st')" using info[OF h(1)] h(2) by simp
    moreover have "dm_block live st v t" using inv v by (simp add: dm_ok_def)
    ultimately show ?thesis by (simp add: dm_block_def same)
  qed
  moreover have "map (entry_size (mem st')) (g_active st) = map (entry_size (mem st)) (g_active st)"
    using info wf by (auto simp: entry_size_def om_find_mem)
  ultimately show ?thesis using inv sizes unfolding dm_ok_def same by metis
qed

lemma dfree_inside:
  assumes inv: "dm_ok ok live st" and s: "dm_sizes st q = Some s"
    and p: "q < p" "unat p < unat q + unat s" "(p - 48) mod 16 = 0"
    and nohdr: "ptr_val (load_info (p - 48) (mem st)) \<noteq> p"
  shows "dfree ops p file line st = FreeAborts [NotAllocated file line p,
    InsideRegion (info_file (load_info (q - 48) (mem st))) (info_line (load_info (q - 48) (mem st))) p (p - q) s]"
proof -
  have wf: "om_wf (g_active st)" using inv by (simp add: dm_ok_def)
  have blk: "dm_block live st q s" using inv s by (simp add: dm_ok_def)
  then have pl: "placed q s" and act: "om_find (g_active st) q = Some (q - 48)"
    and int: "intact q s (mem st)" by (auto simp: dm_block_def)
  have size: "alloc_size (load_info (q - 48) (mem st)) = s" using int by (simp add: intact_def Let_def)
  have "unat (q + s) = unat q + unat s" using placed_ftr[OF pl] .
  then have pend: "p < q + s" using p(2) by (simp add: word_less_nat_alt)
  then have rng: "heap_min (g_stats st) \<le> p" "p < heap_max (g_stats st)"
    using blk p(1) by (auto simp: dm_block_def)
  have below: "v \<le> q" if v: "om_find (g_active st) v = Some h" "v \<le> p" for v h
  proof (rule ccontr)
    assume n: "\<not> v \<le> q"
    note e = dm_ok_entry[OF inv v(1)]
    let ?t = "alloc_size (load_info h (mem st))"
    have "extent v ?t \<inter> extent q s = {}" using blocks_apart[OF inv _ s] e n by blast
    moreover have "unat v \<in> extent v ?t" by (simp add: extent_def)
    moreover have "unat v \<in> extent q s"
      using n v(2) p(2) by (auto simp: extent_def word_le_nat_alt)
    ultimately show False by blast
  qed
  have "entry_below p (g_active st) = Some (q, q - 48)"
    using entry_below_Some[OF wf act] p(1) below by auto
  moreover have "p \<noteq> 0" using p(1) by auto
  ultimately show ?thesis using p(1,3) rng nohdr size pend
    by (simp add: dfree_def inside_report_def Let_def not_less not_le)
qed

end

section \<open>Facts that need no interface\<close>

lemma dfree_returns_header:
  assumes "dfree ops p file line st = FreeReturns msgs st'" "p \<noteq> 0"
  shows "(p - 48) mod 16 = 0 \<and> heap_min (g_stats st) \<le> p \<and> p < heap_max (g_stats st)
    \<and> ptr_val (load_info (p - 48) (mem st)) = p
    \<and> mem st' = write32 (p - 48 + 16) 0 (mem st) \<and> heap_min (g_stats st') = heap_min (g_stats st)
    \<and> heap_max (g_stats st') = heap_max (g_stats st)"
  using assms by (auto simp: dfree_def Let_def not_less not_le split: if_splits)

lemma dfree_double:
  assumes "dfree ops p file line st = FreeReturns msgs st'" "p \<noteq> 0"
  shows "dfree ops p file' line' st' = FreeAborts [DoubleFree file' line' p]"
proof -
  note h = dfree_returns_header[OF assms]
  have "read64 (p - 48 + 0) (write32 (p - 48 + 16) 0 (mem st)) = read64 (p - 48 + 0) (mem st)"
    by (rule read64_offsets) simp
  then have "ptr_val (load_info (p - 48) (mem st')) = p" using h by (simp add: load_info_def)
  moreover have "is_allocated (load_info (p - 48) (mem st')) = 0"
    using h by (simp add: load_info_def)
  ultimately show ?thesis using h assms(2) by (simp add: dfree_def Let_def not_less not_le IS_ALLOC_def)
qed

text \<open>A state reached from an intact block by changing its boundary value.\<close>

lemma dfree_wild:
  assumes blk: "dm_block live st p s" and top: "p < heap_max (g_stats st)"
    and hdr: "agree {unat p - 48 ..< unat p} m (mem st)"
    and x: "unat x \<in> {unat p + unat s ..< unat p + unat s + 8}" "m x \<noteq> mem st x"
  shows "\<exists>st'. dfree ops p file line (st\<lparr>mem := m\<rparr>) = FreeReturns [WildWrite file line p] st'"
proof -
  have pl: "placed p s" and int: "intact p s (mem st)" and act: "om_find (g_active st) p = Some (p - 48)"
    using blk by (auto simp: dm_block_def)
  have p0: "p \<noteq> 0" using pl by (auto simp: placed_def)
  have al: "(p - 48) mod 16 = 0"
  proof -
    have "unat (p mod 16) = 0" using blk by (simp add: dm_block_def)
    then have "unat p mod 16 = 0" by (simp add: unat_mod_distrib)
    moreover have "48 \<le> unat p" using pl by (simp add: placed_def)
    ultimately have "(unat p - 48) mod 16 = 0" by presburger
    then have "unat ((p - 48) mod 16) = 0" by (simp add: unat_mod_distrib placed_hdr[OF pl])
    then show ?thesis by (metis unat_eq_zero)
  qed
  have info: "load_info (p - 48) m = load_info (p - 48) (mem st)"
    using pl by (intro load_info_agree_hdr[OF hdr]) (simp add: placed_def)
  have ps: "unat (p + s) = unat p + unat s" using placed_ftr[OF pl] .
  have "mem_read (p + s) 8 m \<noteq> mem_read (p + s) 8 (mem st)"
  proof
    assume e: "mem_read (p + s) 8 m = mem_read (p + s) 8 (mem st)"
    define i where "i = unat x - unat (p + s)"
    have i: "i < 8" "unat (p + s) + i = unat x" using x(1) ps by (auto simp: i_def)
    then have "unat (p + s + word_of_nat i) = unat x" using unat_u64[of x] by (subst unat_offset) auto
    then have "p + s + word_of_nat i = x" by (simp only: word_unat_eq_iff)
    moreover have "mem_read (p + s) 8 m ! i = mem_read (p + s) 8 (mem st) ! i" using e by simp
    ultimately show False using x(2) i(1) by (simp add: mem_read_def)
  qed
  then have "read64 (p + s) m \<noteq> read64 (p + s) (mem st)"
    unfolding read64_def by (subst le_word_inj) simp_all
  then have "read64 (p + s) m \<noteq> BOUND_VAL" using int by (simp add: intact_def Let_def)
  then show ?thesis using p0 al blk top act int
    by (simp add: dfree_def Let_def not_less not_le dm_block_def info intact_def)
qed

section \<open>Programs over the allocator\<close>

abbreviation dm_inv :: "base_state dm_state \<Rightarrow> bool" where
  "dm_inv \<equiv> dm_ok base_ok base_live"

definition dm_init :: "memory \<Rightarrow> base_state dm_state" where
  "dm_init m = \<lparr>g_stats = g_stats_init, g_active = [], mem = m, base = base_init\<rparr>"

definition user_write :: "u64 \<Rightarrow> bytes \<Rightarrow> 'b dm_state \<Rightarrow> 'b dm_state" where
  "user_write a bs st = st\<lparr>mem := mem_write a bs (mem st)\<rparr>"

definition within :: "u64 \<Rightarrow> bytes \<Rightarrow> u64 \<Rightarrow> u64 \<Rightarrow> bool" where
  "within a bs p s \<longleftrightarrow> unat p \<le> unat a \<and> unat a + length bs \<le> unat p + unat s"

text \<open>
  The states a program reaches that allocates (what \<open>malloc\<close> gives is fresh), writes within its
  blocks and calls \<open>dfree\<close> in any way that returns.
\<close>

inductive dm_reach :: "base_state dm_state \<Rightarrow> bool" where
  start: "dm_reach (dm_init m)"
| alloc: "dm_reach st \<Longrightarrow> fresh sys (56 + sz) (base st) \<Longrightarrow> dmalloc base_impl sys sz file line st = (p, st') \<Longrightarrow> dm_reach st'"
| calloc: "dm_reach st \<Longrightarrow> fresh sys (56 + n * sz) (base st) \<Longrightarrow> dcalloc base_impl sys n sz file line st = (p, st') \<Longrightarrow> dm_reach st'"
| writes: "dm_reach st \<Longrightarrow> dm_sizes st p = Some s \<Longrightarrow> within a bs p s \<Longrightarrow> dm_reach (user_write a bs st)"
| release: "dm_reach st \<Longrightarrow> dfree base_impl p file line st = FreeReturns msgs st' \<Longrightarrow> dm_reach st'"

inductive_cases dm_reach_cases: "dm_reach st"

lemma dm_inv_init: "dm_inv (dm_init m)"
  by (simp add: dm_ok_def dm_init_def base_ok_def base_init_def blocks_ok_def om_wf_def dm_sizes_def
      om_find_def g_stats_init_def)

lemma mem_zero_write: "mem_zero a n m = mem_write a (replicate n 0) m"
  by (auto simp: mem_zero_def mem_write_def)

lemma mul_fits:
  fixes n s :: u64
  assumes "\<not> (\<not> (n = 0 \<or> s = 0) \<and> - 1 div n < s)"
  shows "unat (n * s) = unat n * unat s"
proof (cases "n = 0 \<or> s = 0")
  case False
  then have "s \<le> - 1 div n" using assms by (simp add: not_less)
  then have "unat s \<le> unat (- 1 :: u64) div unat n"
    by (simp only: word_le_nat_alt unat_div_distrib)
  then have "unat s * unat n \<le> unat (- 1 :: u64)"
    using False by (subst (asm) less_eq_div_iff_mult_less_eq) (auto simp: unat_gt_0)
  moreover have "unat (- 1 :: u64) < 2 ^ 64" by (rule unat_u64)
  ultimately have "unat n * unat s < 2 ^ 64" by (simp add: mult.commute)
  then show ?thesis by (simp add: unat_word_ariths)
qed auto

lemma dcalloc_spec:
  assumes inv: "dm_inv st" and av: "fresh sys (56 + n * sz) (base st)"
    and c: "dcalloc base_impl sys n sz file line st = (p, st')"
  shows "dm_inv st' \<and> (if p = 0 then dm_sizes st' = dm_sizes st
    else unat (n * sz) = unat n * unat sz \<and> dm_sizes st' = (dm_sizes st)(p \<mapsto> n * sz)
      \<and> mem_read p (unat n * unat sz) (mem st') = replicate (unat n * unat sz) 0)"
proof (cases "\<not> (n = 0 \<or> sz = 0) \<and> - 1 div n < sz")
  case True
  then have "p = 0 \<and> st' = st\<lparr>g_stats := (g_stats st)\<lparr>nfail := nfail (g_stats st) + 1, fail_size := - 1\<rparr>\<rparr>"
    using c by (auto simp: dcalloc_def)
  then show ?thesis using inv by (simp add: dm_ok_def dm_block_def)
next
  case False
  note n = mul_fits[OF False]
  obtain q st1 where m: "dmalloc base_impl sys (n * sz) file line st = (q, st1)"
    by (cases "dmalloc base_impl sys (n * sz) file line st")
  have q: "p = q" "st' = (if p \<noteq> 0 then st1\<lparr>mem := mem_zero p (unat (n * sz)) (mem st1)\<rparr> else st1)"
    using c False m by (auto simp: dcalloc_def)
  note s = bs.dmalloc_spec[OF inv av m]
  show ?thesis
  proof (cases "p = 0")
    case True
    then show ?thesis using q s by simp
  next
    case p0: False
    let ?bs = "replicate (unat (n * sz)) 0 :: bytes"
    have st': "st' = st1\<lparr>mem := mem_write p ?bs (mem st1)\<rparr>" using p0 q by (simp add: mem_zero_write)
    have s1: "dm_inv st1" "dm_sizes st1 = (dm_sizes st)(p \<mapsto> n * sz)" using s p0 q(1) by auto
    have "dm_inv st' \<and> dm_sizes st' = dm_sizes st1"
      by (rule bs.user_write_ok[OF s1(1) _ _ _ st', of p "n * sz"]) (simp_all add: s1(2))
    moreover have "mem_read p (length ?bs) (mem st') = ?bs"
      unfolding st' using unat_u64[of "n * sz"] by (simp, subst mem_read_write[of ?bs, simplified]) simp_all
    ultimately show ?thesis using p0 n s1(2) by simp
  qed
qed

lemma dfree_returns_active:
  assumes "dfree base_impl p file line st = FreeReturns msgs st'" "p \<noteq> 0"
  shows "\<exists>s. dm_sizes st p = Some s"
  using assms by (auto simp: dfree_def Let_def dm_sizes_def split: if_splits)

lemma dm_reach_inv: "dm_reach st \<Longrightarrow> dm_inv st"
proof (induction rule: dm_reach.induct)
  case (start m)
  then show ?case by (rule dm_inv_init)
next
  case (alloc st sys sz f l p st')
  then show ?case using bs.dmalloc_spec by blast
next
  case (calloc st sys n sz f l p st')
  then show ?case using dcalloc_spec by blast
next
  case (writes st p s a bs)
  show ?case
    using bs.user_write_ok[OF writes.IH writes.hyps(2) _ _ user_write_def] writes.hyps(3)
    by (simp add: within_def)
next
  case (release st p f l msgs st')
  show ?case
  proof (cases "p = 0")
    case True
    then show ?thesis using release by (simp add: dfree_def)
  next
    case False
    note r = release.hyps(2)
    obtain s where s: "dm_sizes st p = Some s" using dfree_returns_active[OF r False] by blast
    have top: "p < heap_max (g_stats st)" using dfree_returns_header[OF r False] by simp
    show ?thesis using bs.dfree_spec[OF release.IH s top, of f l] r by auto
  qed
qed

end
