(* ===== verification/Dmalloc_Props.thy ===== *)
theory Dmalloc_Props
  imports Dmalloc
begin

text \<open>
  The properties of the debugging allocator over its base allocator: the invariant of every
  reachable state, the errors \<open>dfree\<close> detects, the one it reports wrongly, and \<open>dcalloc\<close>.
\<close>

section \<open>A concrete run\<close>

lemma first_malloc:
  assumes "frees b = []" "disabled b = 0" "sys \<noteq> 0"
  shows "\<exists>b'. base_malloc sys sz b = (sys, b') \<and> frees b' = []"
proof -
  obtain r b1 where r: "alloc_random (b\<lparr>disabled := 1, atexit_installed := True\<rparr>) = (r, b1)"
    by (cases "alloc_random (b\<lparr>disabled := 1, atexit_installed := True\<rparr>)")
  then have "frees b1 = []" using assms(1) by (auto simp: alloc_random_def Let_def)
  then show ?thesis using assms r by (auto simp: base_malloc_def Let_def find_free.simps)
qed

lemma first_dmalloc:
  assumes "sys \<noteq> 0" "sz \<le> - 57"
  shows "\<exists>st'. dmalloc base_impl sys sz l1 l2 (dm_init m) = (sys + 48, st')"
  using first_malloc[of base_init sys "56 + sz"] assms
  by (auto simp: dmalloc_def base_impl_def dm_init_def base_init_def Let_def not_less)

lemma fresh_init: "block_ok (sys, n) \<Longrightarrow> fresh sys n (base (dm_init m))"
  by (simp add: fresh_def dm_init_def base_init_def disjoint_from_def)

text \<open>The state after a first allocation of 64 bytes at 4144.\<close>

definition run1 :: "base_state dm_state" where
  "run1 = snd (dmalloc base_impl 4096 64 1 2 (dm_init (\<lambda>x. 0)))"

lemma run1_alloc: "dmalloc base_impl 4096 64 1 2 (dm_init (\<lambda>x. 0)) = (4144, run1)"
  using first_dmalloc[of 4096 64 1 2 "\<lambda>x. 0"] by (auto simp: run1_def)

lemma run1_fresh: "fresh 4096 (56 + 64) (base (dm_init (\<lambda>x. 0)))"
  by (rule fresh_init) (simp add: block_ok_def)

lemma run1_reach: "dm_reach run1"
  by (rule dm_reach.alloc[OF dm_reach.start run1_fresh run1_alloc])

lemma run1_sizes: "dm_sizes run1 = [4144 \<mapsto> 64]"
  using bs.dmalloc_spec[OF dm_inv_init run1_fresh run1_alloc]
  by (simp add: dm_init_def dm_sizes_def om_find_def fun_eq_iff)

lemma run1_top: "heap_max (g_stats run1) = 4208"
  using first_malloc[of base_init 4096 120]
  by (auto simp: run1_def dmalloc_def base_impl_def dm_init_def base_init_def Let_def
      widen_heap_def count_success_def g_stats_init_def)

lemma run1_mem: "mem run1 = write_block 4096 64 1 2 (\<lambda>x. 0)"
  using first_malloc[of base_init 4096 120]
  by (auto simp: run1_def dmalloc_def base_impl_def dm_init_def base_init_def Let_def)

lemma write_block_data:
  assumes "8 \<le> unat s" "unat s + 56 \<le> 2 ^ 64"
  shows "read64 (h + 48) (write_block h s f l m) = read64 (h + 48) m"
proof -
  have u: "unat (48 + s) = 48 + unat s" using assms(2) by (simp add: unat_word_ariths)
  show ?thesis unfolding write_block_def Let_def hdr_sz_48
    using assms by (simp add: read64_offsets[where a = h] u del: add_0_right)
qed

lemma run1_data: "read64 4144 (mem run1) = 0"
proof -
  have "read64 (4096 + 48) (mem run1) = read64 (4096 + 48) (\<lambda>x. 0)"
    unfolding run1_mem by (rule write_block_data) simp_all
  also have "\<dots> = 0" by (simp add: read64_def mem_read_def upt_rec)
  finally show ?thesis by simp
qed

section \<open>Properties\<close>

text \<open>
  C5. Whatever a program does through the allocator (allocate, write within its blocks, free), every
  active block has an intact header and boundary value, is aligned to 16 bytes and disjoint from all
  others with their headers, and the statistics count exactly the active blocks and their bytes.
\<close>

theorem active_blocks_intact:
  assumes "dm_reach st" "dm_sizes st u = Some s"
  shows "intact u s (mem st) \<and> u mod 16 = 0 \<and> placed u s
    \<and> (\<forall>v t. dm_sizes st v = Some t \<longrightarrow> v \<noteq> u \<longrightarrow> extent u s \<inter> extent v t = {})
    \<and> nactive (get_statistics st) = word_of_nat (length (g_active st))
    \<and> active_size (get_statistics st) = sum_list (map (entry_size (mem st)) (g_active st))"
proof -
  note inv = dm_reach_inv[OF assms(1)]
  then have "dm_block base_live st u s" using assms(2) by (simp add: dm_ok_def)
  moreover have "extent u s \<inter> extent v t = {}" if "dm_sizes st v = Some t" "v \<noteq> u" for v t
    using bs.blocks_apart[OF inv assms(2) that(1)] that(2) by blast
  ultimately show ?thesis using inv by (simp add: dm_block_def dm_ok_def get_statistics_def)
qed

theorem active_blocks_intact_witness:
  "intact 4144 64 (mem run1) \<and> active_size (get_statistics run1) = sum_list (map (entry_size (mem run1)) (g_active run1))"
  using active_blocks_intact[OF run1_reach, of 4144 64] run1_sizes by simp

text \<open>
  C29. A block of at least one byte can be used and freed: after \<open>dmalloc\<close> and a write within the block,
  \<open>dfree\<close> returns without a report and the active blocks are those of before.
\<close>

theorem malloc_write_free:
  assumes "dm_reach st" "fresh sys (56 + sz) (base st)" "dmalloc base_impl sys sz file line st = (p, st1)"
    "p \<noteq> 0" "0 < sz" "within a bs p sz"
  shows "\<exists>st2. dfree base_impl p file2 line2 (user_write a bs st1) = FreeReturns [] st2
    \<and> dm_reach st2 \<and> dm_sizes st2 = dm_sizes st"
proof -
  note s = bs.dmalloc_spec[OF dm_reach_inv[OF assms(1)] assms(2,3)]
  have r1: "dm_reach st1" by (rule dm_reach.alloc[OF assms(1,2,3)])
  have s1: "dm_sizes st1 p = Some sz" "dm_sizes st p = None" "dm_sizes st1 = (dm_sizes st)(p \<mapsto> sz)"
    "placed p sz" using s assms(4) by auto
  let ?w = "user_write a bs st1"
  have r2: "dm_reach ?w" by (rule dm_reach.writes[OF r1 s1(1) assms(6)])
  note inv2 = dm_reach_inv[OF r2]
  have sz: "dm_sizes ?w = dm_sizes st1"
    using bs.user_write_ok[OF dm_reach_inv[OF r1] s1(1) _ _ user_write_def] assms(6) by (simp add: within_def)
  have top: "p < heap_max (g_stats ?w)"
  proof -
    have "p + sz \<le> heap_max (g_stats ?w)" using inv2 s1(1) sz by (simp add: dm_ok_def dm_block_def)
    moreover have "unat p < unat (p + sz)"
      using placed_ftr[OF s1(4)] assms(5) by (simp add: word_less_nat_alt)
    then have "p < p + sz" by (simp add: word_less_nat_alt)
    ultimately show ?thesis by simp
  qed
  have "dm_sizes ?w p = Some sz" using sz s1(1) by simp
  from bs.dfree_spec[OF inv2 this top, of file2 line2]
  obtain st2 where st2: "dfree base_impl p file2 line2 ?w = FreeReturns [] st2"
      "dm_sizes st2 = (dm_sizes ?w)(p := None)" by blast
  have "dm_sizes st2 = dm_sizes st" using st2(2) sz s1(2,3) by auto
  then show ?thesis using st2(1) dm_reach.release[OF r2 st2(1)] by blast
qed

theorem malloc_write_free_witness:
  "\<exists>st2. dfree base_impl 4144 0 0 (user_write 4150 [1, 2, 3] run1) = FreeReturns [] st2 \<and> dm_reach st2"
  using malloc_write_free[OF dm_reach.start run1_fresh run1_alloc, of 4150 "[1, 2, 3]" 0 0]
  by (auto simp: within_def)

text \<open>
  A double free is detected: after a \<open>dfree\<close> of a pointer other than null that returned, a second
  one reports a double free and aborts, with any base allocator.
\<close>

theorem double_free_detected:
  assumes "dfree ops p file line st = FreeReturns msgs st'" "p \<noteq> 0"
  shows "dfree ops p file2 line2 st' = FreeAborts [DoubleFree file2 line2 p]"
  by (rule dfree_double[OF assms])

theorem double_free_detected_witness:
  "\<exists>st2. dfree base_impl 4144 0 0 run1 = FreeReturns [] st2
    \<and> dfree base_impl 4144 7 8 st2 = FreeAborts [DoubleFree 7 8 4144]"
proof -
  have "dm_sizes run1 4144 = Some 64" "4144 < heap_max (g_stats run1)"
    by (simp_all add: run1_sizes run1_top)
  from bs.dfree_spec[OF dm_reach_inv[OF run1_reach] this, of 0 0]
  obtain st2 where st2: "dfree base_impl 4144 0 0 run1 = FreeReturns [] st2" by blast
  show ?thesis using double_free_detected[OF st2, of 7 8] st2 by simp
qed

text \<open>
  C39. A wild write is detected: when one byte of the eight behind a block is changed, freeing the
  block reports it (and releases the block all the same).
\<close>

theorem wild_write_detected:
  assumes "dm_reach st" "dm_sizes st p = Some s" "p < heap_max (g_stats st)"
    "unat p + unat s \<le> unat a" "unat a < unat p + unat s + 8" "b \<noteq> mem st a"
  shows "\<exists>st'. dfree base_impl p file line (user_write a [b] st) = FreeReturns [WildWrite file line p] st'"
proof -
  have blk: "dm_block base_live st p s" using dm_reach_inv[OF assms(1)] assms(2) by (simp add: dm_ok_def)
  then have "placed p s" by (simp add: dm_block_def)
  then have ag: "agree {unat p - 48 ..< unat p} (mem_write a [b] (mem st)) (mem st)"
    using assms(4,5) by (intro agree_write) (auto simp: placed_def)
  have "mem_write a [b] (mem st) a \<noteq> mem st a" using assms(6) by (simp add: mem_write_def)
  from dfree_wild[OF blk assms(3) ag _ this] show ?thesis
    using assms(4,5) by (simp add: user_write_def)
qed

theorem wild_write_detected_witness:
  "\<exists>st'. dfree base_impl 4144 5 6 (user_write 4210 [mem run1 4210 + 1] run1) = FreeReturns [WildWrite 5 6 4144] st'"
  using wild_write_detected[OF run1_reach, of 4144 64 4210 "mem run1 4210 + 1" 5 6]
  by (simp add: run1_sizes run1_top)

text \<open>
  A free of a pointer into the middle of an active block is located: when it is aligned and no
  header of its own stands in front of it, \<open>dfree\<close> aborts, naming the file and line of the block, the
  offset into it and its size.
\<close>

theorem inside_free_located:
  assumes "dm_reach st" "dm_sizes st q = Some s" "q < p" "unat p < unat q + unat s" "(p - 48) mod 16 = 0"
    "ptr_val (load_info (p - 48) (mem st)) \<noteq> p"
  shows "dfree base_impl p file line st = FreeAborts [NotAllocated file line p,
    InsideRegion (info_file (load_info (q - 48) (mem st))) (info_line (load_info (q - 48) (mem st))) p (p - q) s]"
  by (rule bs.dfree_inside[OF dm_reach_inv[OF assms(1)] assms(2-6)])

theorem inside_free_located_witness:
  "\<exists>f l. dfree base_impl 4192 3 4 run1 = FreeAborts [NotAllocated 3 4 4192, InsideRegion f l 4192 48 64]"
proof -
  have "ptr_val (load_info (4192 - 48) (mem run1)) \<noteq> 4192" using run1_data by (simp add: load_info_def)
  then show ?thesis using inside_free_located[OF run1_reach, of 4144 64 4192 3 4] by (simp add: run1_sizes)
qed

text \<open>
  C38. \<open>dcalloc\<close> never gives a block smaller than asked for: a pointer other than null means that the
  product of its arguments fits into 64 bits, that a block of that many bytes was added to the active
  ones, and that all its bytes are zero; otherwise the active blocks are those of before.
\<close>

theorem calloc_zeroed_no_overflow:
  assumes "dm_reach st" "fresh sys (56 + n * sz) (base st)" "dcalloc base_impl sys n sz file line st = (p, st')"
  shows "dm_reach st' \<and> (if p = 0 then dm_sizes st' = dm_sizes st
    else unat (n * sz) = unat n * unat sz \<and> dm_sizes st' = (dm_sizes st)(p \<mapsto> n * sz)
      \<and> mem_read p (unat n * unat sz) (mem st') = replicate (unat n * unat sz) 0)"
  using dcalloc_spec[OF dm_reach_inv[OF assms(1)] assms(2,3)] dm_reach.calloc[OF assms] by blast

theorem calloc_zeroed_no_overflow_witness:
  "\<exists>st'. dcalloc base_impl 4096 2 3 1 2 (dm_init (\<lambda>x. 7)) = (4144, st') \<and> mem_read 4144 6 (mem st') = replicate 6 0"
proof -
  obtain st1 where "dmalloc base_impl 4096 (2 * 3) 1 2 (dm_init (\<lambda>x. 7)) = (4144, st1)"
    using first_dmalloc[of 4096 "2 * 3" 1 2 "\<lambda>x. 7"] by auto
  then obtain st' where c: "dcalloc base_impl 4096 2 3 1 2 (dm_init (\<lambda>x. 7)) = (4144, st')"
    by (auto simp: dcalloc_def)
  have "fresh 4096 (56 + 2 * 3) (base (dm_init (\<lambda>x. 7)))" by (rule fresh_init) (simp add: block_ok_def)
  from calloc_zeroed_no_overflow[OF dm_reach.start this c] c show ?thesis by simp
qed

text \<open>
  A block of no bytes at the top of the heap cannot be freed: its address is the largest end of a
  block, which \<open>dfree\<close> takes to be outside the heap, so freeing what \<open>dmalloc(0)\<close> returned aborts.
\<close>

theorem zero_block_not_freed:
  assumes "dm_reach st" "fresh sys 56 (base st)" "dmalloc base_impl sys 0 file line st = (p, st')"
    "p \<noteq> 0" "heap_max (g_stats st) \<le> p"
  shows "dm_sizes st' p = Some 0 \<and> dfree base_impl p file2 line2 st' = FreeAborts [NotInHeap file2 line2 p]"
proof -
  have f: "fresh sys (56 + 0) (base st)" using assms(2) by simp
  note s = bs.dmalloc_spec[OF dm_reach_inv[OF assms(1)] f assms(3)]
  have top: "heap_max (g_stats st') = p"
    using assms(3,4,5)
    by (auto simp: dmalloc_def Let_def widen_heap_def count_success_def split: prod.splits if_splits)
  have d: "dm_sizes st' p = Some 0" "dm_inv st'" using s assms(4) by auto
  then have "dm_block base_live st' p 0" by (simp add: dm_ok_def)
  then have "block_ok (p - 48, 56)" using d(2) bs.live_block[of "base st'" "p - 48" 56]
    by (simp add: dm_block_def dm_ok_def)
  then have "(p - 48) mod 16 = 0" by (simp add: block_ok_def)
  then show ?thesis using top d(1) assms(4) by (simp add: dfree_def Let_def)
qed

theorem zero_block_not_freed_witness:
  "\<exists>st'. dmalloc base_impl 4096 0 1 2 (dm_init (\<lambda>x. 0)) = (4144, st')
    \<and> dfree base_impl 4144 3 4 st' = FreeAborts [NotInHeap 3 4 4144]"
proof -
  obtain st' where m: "dmalloc base_impl 4096 0 1 2 (dm_init (\<lambda>x. 0)) = (4144, st')"
    using first_dmalloc[of 4096 0 1 2 "\<lambda>x. 0"] by auto
  have "fresh 4096 56 (base (dm_init (\<lambda>x. 0)))" by (rule fresh_init) (simp add: block_ok_def)
  from zero_block_not_freed[OF dm_reach.start this m, of 3 4] m show ?thesis
    by (simp add: dm_init_def g_stats_init_def)
qed

end
