(* ===== verification/File_Posix.thy ===== *)
theory File_Posix
  imports Prelude
begin

text \<open>
  What the file I/O library uses of the operating system: an open file with its offset. The calls
  are a parameter of the library (a record \<open>sys_ops\<close> over the state of the system), and so is the room that is
  left on the stack. The locale \<open>posix_file\<close> states what POSIX says of a regular file open for reading and
  writing on which no call fails, and \<open>disk_ops True\<close> provides it; \<open>disk_ops False\<close> is a file open for reading
  only, where every write fails. The abstract file, a byte list with a position, is the specification of the library.
\<close>

section \<open>Bytes of a file\<close>

text \<open>\<open>bs\<close> written over \<open>F\<close> at \<open>p\<close>; a hole behind the end of \<open>F\<close> reads as zeros.\<close>

definition splice :: "bytes \<Rightarrow> nat \<Rightarrow> bytes \<Rightarrow> bytes" where
  "splice F p bs =
     (if bs = [] then F else take p (F @ replicate (p - length F) 0) @ bs @ drop (p + length bs) F)"

lemma splice_Nil [simp]: "splice F p [] = F"
  by (simp add: splice_def)

lemma length_splice: "bs \<noteq> [] \<Longrightarrow> length (splice F p bs) = max (length F) (p + length bs)"
  by (simp add: splice_def)

lemma splice_inside: "p \<le> length F \<Longrightarrow> splice F p bs = take p F @ bs @ drop (p + length bs) F"
  by (cases "bs = []") (simp_all add: splice_def)

lemma splice_same: "p \<le> length F \<Longrightarrow> splice F p (take n (drop p F)) = F"
proof -
  assume p: "p \<le> length F"
  have "take n (drop p F) @ drop (p + min (length F - p) n) F = drop p F"
  proof (cases "n \<le> length F - p")
    case True
    then show ?thesis using append_take_drop_id[of n "drop p F"] by (simp add: min_absorb2 add.commute)
  next
    case False
    then show ?thesis using p by (simp add: min_absorb1)
  qed
  then show ?thesis using p by (simp add: splice_inside)
qed

lemma drop_splice:
  "p \<le> length F \<Longrightarrow> drop p (splice F p bs) = bs @ drop (p + length bs) F"
  by (simp add: splice_inside)

lemma take_splice: "p \<le> length F \<Longrightarrow> n \<le> p \<Longrightarrow> take n (splice F p bs) = take n F"
  by (simp add: splice_inside min_absorb1)

lemma splice_splice:
  "p \<le> length F \<Longrightarrow> splice (splice F p xs) (p + length xs) ys = splice F p (xs @ ys)"
  by (cases "xs = []"; cases "ys = []") (simp_all add: splice_inside ac_simps)

lemma splice_append: "splice (A @ M) (length A) bs = A @ bs @ drop (length bs) M"
  by (simp add: splice_inside)

lemma splice_overwrite:
  assumes "p \<le> length F" "i \<le> length c"
  shows "splice (splice F p c) (p + i) w = splice F p (take i c @ w @ drop (i + length w) c)"
proof -
  obtain A M where F: "F = A @ M" "length A = p"
    using assms(1) by (metis append_take_drop_id length_take min_absorb2)
  obtain c1 c2 where c: "c = c1 @ c2" "length c1 = i"
    using assms(2) by (metis append_take_drop_id length_take min_absorb2)
  have l: "splice F p c = (A @ c1) @ (c2 @ drop (length c) M)" "p + i = length (A @ c1)"
    using splice_append[of A M c] F c by simp_all
  have e: "length w - length c2 + length c = i + length w + (length c2 - length w)" using c by simp
  have "splice (splice F p c) (p + i) w = A @ c1 @ w @ drop (length w) c2 @ drop (length w - length c2 + length c) M"
    unfolding l splice_append by simp
  also have "\<dots> = splice F p (c1 @ w @ drop (length w) c2)"
    unfolding e using splice_append[of A M "c1 @ w @ drop (length w) c2"] F c by (simp add: add.assoc)
  finally show ?thesis using c by simp
qed

section \<open>The system calls\<close>

text \<open>
  \<open>stack_room\<close> is the largest array that fits on the stack, \<open>stack_frames\<close> the depth of calls that does.
\<close>

record 'o sys_ops =
  sys_lseek :: "int \<Rightarrow> 'o \<Rightarrow> int \<times> 'o"
  sys_lseek_end :: "'o \<Rightarrow> int \<times> 'o"
  sys_read :: "nat \<Rightarrow> 'o \<Rightarrow> (int \<times> bytes) \<times> 'o"
  sys_write :: "bytes \<Rightarrow> 'o \<Rightarrow> int \<times> 'o"
  sys_fstat :: "'o \<Rightarrow> int option"
  stack_room :: nat
  stack_frames :: nat

locale posix_file =
  fixes sys :: "'o sys_ops"
    and data :: "'o \<Rightarrow> bytes"
    and off :: "'o \<Rightarrow> nat"
  assumes lseek_ok: "0 \<le> p \<Longrightarrow> sys_lseek sys p s = (r, s') \<Longrightarrow> r = p \<and> data s' = data s \<and> off s' = nat p"
    and lseek_neg: "p < 0 \<Longrightarrow> sys_lseek sys p s = (- 1, s)"
    and lseek_end_ok: "sys_lseek_end sys s = (r, s') \<Longrightarrow> r = int (length (data s)) \<and> data s' = data s \<and> off s' = length (data s)"
    and read_ok: "sys_read sys n s = ((r, bs), s') \<Longrightarrow>
      bs = take n (drop (off s) (data s)) \<and> r = int (length bs) \<and> data s' = data s \<and> off s' = off s + length bs"
    and write_ok: "sys_write sys bs s = (r, s') \<Longrightarrow>
      r = int (length bs) \<and> data s' = splice (data s) (off s) bs \<and> off s' = off s + length bs"
    and fstat_ok: "sys_fstat sys s = Some (int (length (data s)))"

record disk =
  disk_data :: bytes
  disk_off :: nat

text \<open>The file of a descriptor that is open for writing when \<open>rw\<close>; a write on any other returns -1 (\<open>EBADF\<close>).\<close>

definition disk_ops :: "nat \<Rightarrow> nat \<Rightarrow> bool \<Rightarrow> disk sys_ops" where
  "disk_ops room frames rw = \<lparr>
     sys_lseek = (\<lambda>p s. if p < 0 then (- 1, s) else (p, s\<lparr>disk_off := nat p\<rparr>)),
     sys_lseek_end = (\<lambda>s. (int (length (disk_data s)), s\<lparr>disk_off := length (disk_data s)\<rparr>)),
     sys_read = (\<lambda>n s. let bs = take n (drop (disk_off s) (disk_data s))
       in ((int (length bs), bs), s\<lparr>disk_off := disk_off s + length bs\<rparr>)),
     sys_write = (\<lambda>bs s. if rw then (int (length bs),
         \<lparr>disk_data = splice (disk_data s) (disk_off s) bs, disk_off = disk_off s + length bs\<rparr>)
       else (- 1, s)),
     sys_fstat = (\<lambda>s. Some (int (length (disk_data s)))),
     stack_room = room, stack_frames = frames\<rparr>"

interpretation dk: posix_file "disk_ops room frames True" disk_data disk_off for room frames
  by unfold_locales (auto simp: disk_ops_def Let_def split: if_splits)

lemma disk_ops_stack [simp]: "stack_room (disk_ops r n rw) = r" "stack_frames (disk_ops r n rw) = n"
  by (simp_all add: disk_ops_def)

section \<open>The abstract file and the operations of the library\<close>

record afile =
  abytes :: bytes
  apos :: nat

text \<open>A value returned as a C \<open>int\<close>.\<close>

definition to_int :: "int \<Rightarrow> int" where
  "to_int v = (v + 2 ^ 31) mod 2 ^ 32 - 2 ^ 31"

lemma small_to_int [simp]: "- (2 ^ 31) \<le> v \<Longrightarrow> v < 2 ^ 31 \<Longrightarrow> to_int v = v"
  by (simp add: to_int_def)

datatype file_op = Seek int | Read nat | Write bytes | Readc | Writec int

text \<open>An operation returns a number; a read also fills a buffer.\<close>

type_synonym file_ret = "int \<times> bytes"

fun spec_op :: "file_op \<Rightarrow> afile \<Rightarrow> file_ret \<times> afile" where
  "spec_op (Seek p) a = (if p < 0 then ((- 1, []), a) else ((to_int p, []), a\<lparr>apos := nat p\<rparr>))"
| "spec_op (Read n) a = (let bs = take n (drop (apos a) (abytes a))
     in ((int (length bs), bs), a\<lparr>apos := apos a + length bs\<rparr>))"
| "spec_op (Write bs) a = ((int (length bs), []),
     \<lparr>abytes = splice (abytes a) (apos a) bs, apos = apos a + length bs\<rparr>)"
| "spec_op Readc a = (case take 1 (drop (apos a) (abytes a)) of
     [] \<Rightarrow> ((- 1, []), a) | b # _ \<Rightarrow> ((uint b, []), a\<lparr>apos := apos a + 1\<rparr>))"
| "spec_op (Writec ch) a = ((ch, []),
     \<lparr>abytes = splice (abytes a) (apos a) [word_of_int ch], apos = apos a + 1\<rparr>)"

fun spec_ops :: "file_op list \<Rightarrow> afile \<Rightarrow> file_ret list \<times> afile" where
  "spec_ops [] a = ([], a)"
| "spec_ops (x # xs) a = (let (r, a) = spec_op x a; (rs, a) = spec_ops xs a in (r # rs, a))"

text \<open>
  The operations that are compared, on a file open for writing or not: no write is empty, characters are
  bytes, positions are an \<open>off_t\<close>, one system call can move all bytes asked for, and the stack has room. A
  write behind the end of the file fills the hole up to its block from an array on the stack, whose size must be
  positive when the file ends in front of the block.
\<close>

definition io_max :: nat where
  "io_max = 0x7FFFF000"

definition hole_fits :: "nat \<Rightarrow> afile \<Rightarrow> bool" where
  "hole_fits room a \<longleftrightarrow> (let block = apos a - apos a mod 8 in
     apos a \<le> length (abytes a) \<or> block < length (abytes a) \<or>
     length (abytes a) < block \<and> block - length (abytes a) \<le> min room io_max)"

fun op_fits :: "'o sys_ops \<Rightarrow> bool \<Rightarrow> file_op \<Rightarrow> afile \<Rightarrow> bool" where
  "op_fits sys rw (Seek p) a \<longleftrightarrow> p < 2 ^ 63 - 8"
| "op_fits sys rw (Read n) a \<longleftrightarrow> n \<le> io_max \<and> n < stack_frames sys"
| "op_fits sys rw Readc a \<longleftrightarrow> 1 < stack_frames sys"
| "op_fits sys rw (Write bs) a \<longleftrightarrow> rw \<and> bs \<noteq> [] \<and> length bs \<le> io_max \<and> length bs < stack_frames sys \<and>
     apos a + length bs < 2 ^ 63 - 8 \<and> hole_fits (stack_room sys) a"
| "op_fits sys rw (Writec ch) a \<longleftrightarrow> rw \<and> 0 \<le> ch \<and> ch < 256 \<and> 1 < stack_frames sys \<and>
     apos a + 1 < 2 ^ 63 - 8 \<and> hole_fits (stack_room sys) a"

fun ops_fit :: "'o sys_ops \<Rightarrow> bool \<Rightarrow> file_op list \<Rightarrow> afile \<Rightarrow> bool" where
  "ops_fit sys rw [] a \<longleftrightarrow> True"
| "ops_fit sys rw (x # xs) a \<longleftrightarrow> op_fits sys rw x a \<and> ops_fit sys rw xs (snd (spec_op x a))"

end
