(* ===== verification/File_Student.thy ===== *)
theory File_Student
  imports File_Posix
begin

text \<open>
  \<open>fileio/impl/student.c\<close>: file I/O through a cache of one block of \<open>CACHE_SIZE\<close> bytes. The two
  recursive functions \<open>io300_read\<close> and \<open>io300_write\<close> take the depth of calls the stack has room for; one
  more than the number of bytes asked for is enough. Positions and sizes of files (\<open>off_t\<close>) are
  never negative after \<open>io300_open\<close>, so they are naturals.
\<close>

section \<open>State\<close>

definition CACHE_SIZE :: nat where
  "CACHE_SIZE = 8"

lemma CACHE_SIZE_8 [simp]: "CACHE_SIZE = 8"
  by (simp add: CACHE_SIZE_def)

record io300_statistics =
  read_calls :: nat
  write_calls :: nat
  seeks :: nat

record 'o io300_file =
  fd :: int
  cache :: bytes
  cache_pos :: nat
  cache_idx :: nat
  cache_valid :: nat
  is_dirty :: bool
  file_size :: nat
  stats :: io300_statistics
  dev :: 'o

definition check_invariants :: "'o io300_file \<Rightarrow> unit result" where
  "check_invariants f =
     res_bind (assert_r (0 \<le> fd f) ''f->fd >= 0'') (\<lambda>_.
     res_bind (assert_r (cache_valid f \<le> CACHE_SIZE) ''f->cache_valid <= CACHE_SIZE'') (\<lambda>_.
     res_bind (assert_r (cache_pos f mod CACHE_SIZE = 0) ''f->cache_pos % CACHE_SIZE == 0'') (\<lambda>_.
     assert_r (cache_idx f \<le> CACHE_SIZE) ''f->cache_idx <= CACHE_SIZE'')))"

section \<open>The cache and the file\<close>

function flush_loop :: "'o sys_ops \<Rightarrow> nat \<Rightarrow> 'o io300_file \<Rightarrow> int \<times> 'o io300_file" where
  "flush_loop sys count f =
     (if count < cache_valid f
      then case sys_write sys (take (cache_valid f - count) (drop count (cache f))) (dev f) of (n, s) \<Rightarrow>
        let f = f\<lparr>dev := s\<rparr> in
        if n \<le> 0 then (- 1, f) else flush_loop sys (count + nat n) f
      else (0, f\<lparr>is_dirty := False\<rparr>))"
  by pat_completeness auto
termination by (relation "measure (\<lambda>(sys, count, f). cache_valid f - count)") auto

declare flush_loop.simps [simp del]

definition flush :: "'o sys_ops \<Rightarrow> 'o io300_file \<Rightarrow> (int \<times> 'o io300_file) result" where
  "flush sys f = res_bind (check_invariants f) (\<lambda>_. Inr (
     if \<not> is_dirty f then (0, f)
     else case sys_lseek sys (int (cache_pos f)) (dev f) of (offset, s) \<Rightarrow>
       let f = f\<lparr>dev := s\<rparr> in
       if offset < 0 then (to_int offset, f) else flush_loop sys 0 f))"

definition fetch :: "'o sys_ops \<Rightarrow> 'o io300_file \<Rightarrow> (int \<times> 'o io300_file) result" where
  "fetch sys f = res_bind (check_invariants f) (\<lambda>_. Inr (
     if file_size f \<le> cache_pos f then (0, f\<lparr>cache_valid := 0\<rparr>)
     else case sys_lseek sys (int (cache_pos f)) (dev f) of (seek_rc, s) \<Rightarrow>
       let f = f\<lparr>dev := s\<rparr> in
       if seek_rc < 0 then (- 1, f)
       else case sys_read sys CACHE_SIZE (dev f) of ((res, bs), s) \<Rightarrow>
         let f = f\<lparr>dev := s, cache := bs @ drop (length bs) (cache f)\<rparr> in
         if res < 0 then (to_int res, f)
         else (to_int res, f\<lparr>cache_valid := nat res\<rparr>)))"

section \<open>Open, seek, close\<close>

datatype open_flags = ReadOnly | ReadWriteTrunc | ReadWrite

definition mode_flags :: "int \<Rightarrow> open_flags option" where
  "mode_flags mode = (if mode = 1 then Some ReadOnly
     else if mode = 2 then Some ReadWriteTrunc
     else if mode = 3 then Some ReadWrite else None)"

text \<open>
  The path is \<open>None\<close> when it is null; \<open>os_open\<close> is \<open>open\<close>, \<open>mem1\<close> and \<open>mem2\<close> say whether the two
  calls of \<open>malloc\<close> succeed, \<open>junk\<close> is what the allocated cache holds. \<open>None\<close> is a null result.
\<close>

definition io300_open ::
  "'o sys_ops \<Rightarrow> (string \<Rightarrow> open_flags \<Rightarrow> int \<times> 'o) \<Rightarrow> bool \<Rightarrow> bool \<Rightarrow> bytes \<Rightarrow> string option \<Rightarrow> int
    \<Rightarrow> 'o io300_file option result" where
  "io300_open sys os_open mem1 mem2 junk path mode =
     (case path of None \<Rightarrow> Inr None
      | Some p \<Rightarrow> (case mode_flags mode of None \<Rightarrow> Inr None
      | Some flags \<Rightarrow> (case os_open p flags of (d, s) \<Rightarrow>
         if d = - 1 \<or> \<not> mem1 \<or> \<not> mem2 then Inr None
         else case sys_lseek_end sys s of (fsize, s) \<Rightarrow>
           if fsize < 0 then Inr None
           else
             let f = \<lparr>fd = d, cache = junk, cache_pos = 0, cache_idx = 0,
                      cache_valid = min (nat fsize) CACHE_SIZE, is_dirty = False, file_size = nat fsize,
                      stats = \<lparr>read_calls = 0, write_calls = 0, seeks = 0\<rparr>, dev = s\<rparr>
             in case sys_lseek sys 0 (dev f) of (rc, s) \<Rightarrow>
               let f = f\<lparr>dev := s\<rparr> in
               if rc < 0 then Inr None
               else res_bind (fetch sys f) (\<lambda>(bytes_fetched, f).
                 if bytes_fetched < 0 then Inr None
                 else
                   let f = (if bytes_fetched < int CACHE_SIZE then f\<lparr>cache_valid := nat bytes_fetched\<rparr> else f)
                   in res_bind (check_invariants f) (\<lambda>_. Inr (Some f))))))"

definition io300_seek :: "'o sys_ops \<Rightarrow> int \<Rightarrow> 'o io300_file \<Rightarrow> (int \<times> 'o io300_file) result" where
  "io300_seek sys pos f = res_bind (check_invariants f) (\<lambda>_.
     let f = f\<lparr>stats := (stats f)\<lparr>seeks := seeks (stats f) + 1\<rparr>\<rparr> in
     if pos < 0 then Inr (- 1, f)
     else if int (cache_pos f) \<le> pos \<and> pos < int (cache_pos f + CACHE_SIZE)
       then Inr (to_int pos, f\<lparr>cache_idx := nat pos - cache_pos f\<rparr>)
     else res_bind (flush sys f) (\<lambda>(_, f).
       let f = f\<lparr>cache_pos := nat pos - nat pos mod CACHE_SIZE, cache_idx := nat pos mod CACHE_SIZE\<rparr>
       in res_bind (fetch sys f) (\<lambda>(_, f). Inr (to_int pos, f))))"

text \<open>After \<open>close\<close> and \<open>free\<close> only the state of the system is left.\<close>

definition io300_close :: "'o sys_ops \<Rightarrow> 'o io300_file \<Rightarrow> (int \<times> 'o) result" where
  "io300_close sys f = res_bind (check_invariants f) (\<lambda>_.
     res_bind (flush sys f) (\<lambda>(_, f). Inr (0, dev f)))"

definition io300_filesize :: "'o sys_ops \<Rightarrow> 'o io300_file \<Rightarrow> int result" where
  "io300_filesize sys f = res_bind (check_invariants f) (\<lambda>_.
     Inr (case sys_fstat sys (dev f) of Some n \<Rightarrow> n | None \<Rightarrow> - 1))"

section \<open>Read\<close>

text \<open>From the end of the block on: flush, go to the next block and fetch it.\<close>

definition next_block :: "'o sys_ops \<Rightarrow> 'o io300_file \<Rightarrow> (int \<times> 'o io300_file) result" where
  "next_block sys f =
     res_bind (flush sys f) (\<lambda>(flush_res, f).
       if flush_res < 0 then Inr (flush_res, f)
       else
         let f = f\<lparr>cache_pos := cache_pos f + CACHE_SIZE, cache_idx := 0\<rparr>
         in fetch sys f)"

primrec io300_read :: "nat \<Rightarrow> 'o sys_ops \<Rightarrow> nat \<Rightarrow> 'o io300_file \<Rightarrow> (file_ret \<times> 'o io300_file) result" where
  "io300_read 0 sys sz f = Inl (UndefinedBehaviour ''stack overflow in io300_read'')"
| "io300_read (Suc fuel) sys sz f =
     (let f = f\<lparr>stats := (stats f)\<lparr>read_calls := read_calls (stats f) + 1\<rparr>\<rparr> in
      res_bind (check_invariants f) (\<lambda>_.
      if file_size f \<le> cache_pos f + cache_idx f then Inr ((0, []), f)
      else
        let bytes_until_cache_end = CACHE_SIZE - cache_idx f;
            avail = (if cache_idx f < cache_valid f then cache_valid f - cache_idx f else 0);
            readable_bytes = min sz (min bytes_until_cache_end avail);
            buff = take readable_bytes (drop (cache_idx f) (cache f))
        in if readable_bytes = sz \<or> cache_pos f + cache_idx f + readable_bytes = file_size f
           then
             let f = f\<lparr>cache_idx := cache_idx f + readable_bytes\<rparr>
             in if cache_idx f = CACHE_SIZE
                then res_bind (next_block sys f) (\<lambda>(rc, f).
                  if rc < 0 then Inr ((rc, buff), f) else Inr ((int readable_bytes, buff), f))
                else Inr ((int readable_bytes, buff), f)
           else res_bind (next_block sys f) (\<lambda>(rc, f).
             if rc < 0 then Inr ((rc, buff), f)
             else res_bind (io300_read fuel sys (sz - readable_bytes) f) (\<lambda>((n, more_bytes), f).
               Inr ((int readable_bytes + n, buff @ more_bytes), f)))))"

definition read_op :: "'o sys_ops \<Rightarrow> nat \<Rightarrow> 'o io300_file \<Rightarrow> (file_ret \<times> 'o io300_file) result" where
  "read_op sys sz f = io300_read (stack_frames sys) sys sz f"

definition io300_readc :: "'o sys_ops \<Rightarrow> 'o io300_file \<Rightarrow> (int \<times> 'o io300_file) result" where
  "io300_readc sys f = res_bind (check_invariants f) (\<lambda>_.
     res_bind (read_op sys 1 f) (\<lambda>((res, bs), f).
       Inr (if res \<le> 0 then - 1 else uint (bs ! 0), f)))"

section \<open>Write\<close>

definition cache_store :: "nat \<Rightarrow> bytes \<Rightarrow> bytes \<Rightarrow> bytes" where
  "cache_store i bs c = take i c @ bs @ drop (i + length bs) c"

text \<open>
  The head beyond the end of the file: the bytes of the block in front of the head and behind the
  end of the file become zero, and when the file ends before the block, it is filled up to the block from the
  array \<open>temp\<close>, whose size must be positive and fit on the stack.
\<close>

definition fill_hole :: "'o sys_ops \<Rightarrow> 'o io300_file \<Rightarrow> (int \<times> 'o io300_file) result" where
  "fill_hole sys f =
     (if file_size f < cache_pos f + cache_idx f
      then
        let eof_idx = (if cache_pos f < file_size f then file_size f - cache_pos f else 0);
            f = (if eof_idx < cache_idx f
                 then f\<lparr>cache := cache_store eof_idx (replicate (cache_idx f - eof_idx) 0) (cache f), is_dirty := True\<rparr>
                 else f)
        in if eof_idx = 0
           then case sys_lseek sys (int (file_size f)) (dev f) of (seek_rc, s) \<Rightarrow>
             let f = f\<lparr>dev := s\<rparr> in
             if seek_rc < 0 then Inr (seek_rc, f)
             else
               let bytes_to_fill = cache_pos f - file_size f in
               if bytes_to_fill = 0 \<or> stack_room sys < bytes_to_fill
               then Inl (UndefinedBehaviour ''char temp[bytes_to_fill]'')
               else case sys_write sys (replicate bytes_to_fill 0) (dev f) of (write_rc, s) \<Rightarrow>
                 let f = f\<lparr>dev := s\<rparr> in
                 if write_rc < 0 then Inr (write_rc, f)
                 else Inr (0, f\<lparr>file_size := cache_pos f + cache_idx f\<rparr>)
           else Inr (0, f\<lparr>file_size := cache_pos f + cache_idx f\<rparr>)
      else Inr (0, f))"

text \<open>The rest of one pass of \<open>io300_write\<close>: the number of bytes that went into the block.\<close>

definition write_block_part :: "'o sys_ops \<Rightarrow> bytes \<Rightarrow> 'o io300_file \<Rightarrow> (nat \<times> 'o io300_file) result" where
  "write_block_part sys buff f =
     (let writable_bytes = min (length buff) (CACHE_SIZE - cache_idx f);
          f = (if 0 < writable_bytes
               then f\<lparr>cache := cache_store (cache_idx f) (take writable_bytes buff) (cache f), is_dirty := True,
                      cache_valid := max (cache_valid f) (cache_idx f + writable_bytes)\<rparr>
               else f);
          potential_new_sz = cache_pos f + cache_idx f + length buff;
          f = (if file_size f < potential_new_sz then f\<lparr>file_size := potential_new_sz\<rparr> else f)
      in if cache_idx f + writable_bytes = CACHE_SIZE
         then res_bind (flush sys f) (\<lambda>(_, f).
           let f = f\<lparr>cache_pos := cache_pos f + CACHE_SIZE, cache_idx := 0, cache_valid := 0\<rparr>
           in if cache_pos f < file_size f
              then res_bind (fetch sys f) (\<lambda>(_, f). Inr (writable_bytes, f))
              else Inr (writable_bytes, f))
         else Inr (writable_bytes, f\<lparr>cache_idx := cache_idx f + writable_bytes\<rparr>))"

primrec io300_write :: "nat \<Rightarrow> 'o sys_ops \<Rightarrow> bytes \<Rightarrow> 'o io300_file \<Rightarrow> (int \<times> 'o io300_file) result" where
  "io300_write 0 sys buff f = Inl (UndefinedBehaviour ''stack overflow in io300_write'')"
| "io300_write (Suc fuel) sys buff f =
     (let f = f\<lparr>stats := (stats f)\<lparr>write_calls := write_calls (stats f) + 1\<rparr>\<rparr> in
      res_bind (check_invariants f) (\<lambda>_.
      res_bind (fill_hole sys f) (\<lambda>(rc, f).
      if rc < 0 then Inr (rc, f)
      else res_bind (write_block_part sys buff f) (\<lambda>(writable_bytes, f).
        if writable_bytes = length buff then Inr (int writable_bytes, f)
        else res_bind (io300_write fuel sys (drop writable_bytes buff) f) (\<lambda>(n, f).
          Inr (int writable_bytes + n, f))))))"

definition write_op :: "'o sys_ops \<Rightarrow> bytes \<Rightarrow> 'o io300_file \<Rightarrow> (int \<times> 'o io300_file) result" where
  "write_op sys buff f = io300_write (stack_frames sys) sys buff f"

definition io300_writec :: "'o sys_ops \<Rightarrow> int \<Rightarrow> 'o io300_file \<Rightarrow> (int \<times> 'o io300_file) result" where
  "io300_writec sys ch f = res_bind (check_invariants f) (\<lambda>_.
     let c = word_of_int ch :: u8 in
     res_bind (write_op sys [c] f) (\<lambda>(n, f). Inr (if n = 1 then uint c else - 1, f)))"

section \<open>Sequences of operations\<close>

fun student_op :: "'o sys_ops \<Rightarrow> file_op \<Rightarrow> 'o io300_file \<Rightarrow> (file_ret \<times> 'o io300_file) result" where
  "student_op sys (Seek p) f = res_bind (io300_seek sys p f) (\<lambda>(r, f). Inr ((r, []), f))"
| "student_op sys (Read n) f = read_op sys n f"
| "student_op sys (Write bs) f = res_bind (write_op sys bs f) (\<lambda>(r, f). Inr ((r, []), f))"
| "student_op sys Readc f = res_bind (io300_readc sys f) (\<lambda>(r, f). Inr ((r, []), f))"
| "student_op sys (Writec ch) f = res_bind (io300_writec sys ch f) (\<lambda>(r, f). Inr ((r, []), f))"

fun student_ops :: "'o sys_ops \<Rightarrow> file_op list \<Rightarrow> 'o io300_file \<Rightarrow> (file_ret list \<times> 'o io300_file) result" where
  "student_ops sys [] f = Inr ([], f)"
| "student_ops sys (x # xs) f = res_bind (student_op sys x f) (\<lambda>(r, f).
     res_bind (student_ops sys xs f) (\<lambda>(rs, f). Inr (r # rs, f)))"

section \<open>The contract of the cache\<close>

text \<open>
  The file \<open>F\<close> as the library's user sees it: the block in the cache shows \<open>F\<close>, and what the
  system holds is \<open>F\<close>, except under the block when the cache is dirty.
\<close>

definition cache_view :: "('o \<Rightarrow> bytes) \<Rightarrow> bytes \<Rightarrow> 'o io300_file \<Rightarrow> bool" where
  "cache_view data F f \<longleftrightarrow> length (cache f) = 8 \<and> 0 \<le> fd f \<and> cache_pos f mod 8 = 0 \<and> cache_valid f \<le> 8
     \<and> min 8 (length F - cache_pos f) = cache_valid f
     \<and> take 8 (drop (cache_pos f) F) = take (cache_valid f) (cache f)
     \<and> (if is_dirty f then cache_pos f \<le> length (data (dev f))
          \<and> splice (data (dev f)) (cache_pos f) (take (cache_valid f) (cache f)) = F
        else data (dev f) = F)"

definition file_rel :: "('o \<Rightarrow> bytes) \<Rightarrow> afile \<Rightarrow> 'o io300_file \<Rightarrow> bool" where
  "file_rel data a f \<longleftrightarrow> cache_view data (abytes a) f \<and> cache_idx f < 8
     \<and> apos a = cache_pos f + cache_idx f \<and> file_size f = length (abytes a)"

lemma view_checks: "cache_view data F f \<Longrightarrow> cache_idx f \<le> 8 \<Longrightarrow> check_invariants f = Inr ()"
  by (simp add: cache_view_def check_invariants_def)

lemma view_cong:
  "cache_view data F f \<Longrightarrow> fd f' = fd f \<Longrightarrow> cache f' = cache f \<Longrightarrow> cache_pos f' = cache_pos f
    \<Longrightarrow> cache_valid f' = cache_valid f \<Longrightarrow> is_dirty f' = is_dirty f \<Longrightarrow> dev f' = dev f \<Longrightarrow> cache_view data F f'"
  by (simp add: cache_view_def)

context posix_file
begin

lemma flush_spec:
  assumes v: "cache_view data F f" and i: "cache_idx f \<le> 8"
  shows "\<exists>s. flush sys f = Inr (0, f\<lparr>is_dirty := False, dev := s\<rparr>)
    \<and> cache_view data F (f\<lparr>is_dirty := False, dev := s\<rparr>) \<and> data s = F"
proof (cases "is_dirty f")
  case False
  then have "flush sys f = Inr (0, f\<lparr>is_dirty := False, dev := dev f\<rparr>)"
    using view_checks[OF v i] by (simp add: flush_def)
  moreover have "data (dev f) = F" "cache_view data F (f\<lparr>is_dirty := False, dev := dev f\<rparr>)"
    using v False by (simp_all add: cache_view_def)
  ultimately show ?thesis by blast
next
  case True
  obtain r s where s: "sys_lseek sys (int (cache_pos f)) (dev f) = (r, s)"
    by (cases "sys_lseek sys (int (cache_pos f)) (dev f)")
  have ls: "r = int (cache_pos f)" "data s = data (dev f)" "off s = cache_pos f"
    using lseek_ok[OF _ s] by auto
  let ?bs = "take (cache_valid f) (cache f)"
  obtain n t where t: "sys_write sys ?bs s = (n, t)" by (cases "sys_write sys ?bs s")
  have wr: "n = int (length ?bs)" "data t = splice (data s) (cache_pos f) ?bs"
    using write_ok[OF t] ls(3) by auto
  have len: "length ?bs = cache_valid f" using v by (simp add: cache_view_def)
  have dF: "splice (data (dev f)) (cache_pos f) ?bs = F" using v True by (simp add: cache_view_def)
  show ?thesis
  proof (cases "cache_valid f = 0")
    case True': True
    then have "flush sys f = Inr (0, f\<lparr>is_dirty := False, dev := s\<rparr>)"
      using True s ls view_checks[OF v i] by (simp add: flush_def flush_loop.simps)
    moreover have "data s = F" using dF ls(2) True' by simp
    moreover from this have "cache_view data F (f\<lparr>is_dirty := False, dev := s\<rparr>)"
      using v by (simp add: cache_view_def)
    ultimately show ?thesis by blast
  next
    case False
    have "flush_loop sys 0 (f\<lparr>dev := s\<rparr>) = flush_loop sys (cache_valid f) (f\<lparr>dev := t\<rparr>)"
      using False t wr(1) len by (subst flush_loop.simps) simp
    also have "\<dots> = (0, f\<lparr>is_dirty := False, dev := t\<rparr>)"
      by (subst flush_loop.simps) simp
    finally have "flush sys f = Inr (0, f\<lparr>is_dirty := False, dev := t\<rparr>)"
      using True s ls view_checks[OF v i] by (simp add: flush_def)
    moreover have "data t = F" using dF wr(2) ls(2) by simp
    moreover from this have "cache_view data F (f\<lparr>is_dirty := False, dev := t\<rparr>)"
      using v by (simp add: cache_view_def)
    ultimately show ?thesis by blast
  qed
qed

lemma fetch_spec:
  assumes c: "length (cache f) = 8" "0 \<le> fd f" "cache_pos f mod 8 = 0" "cache_valid f \<le> 8" "cache_idx f \<le> 8"
    and clean: "\<not> is_dirty f" "data (dev f) = F" and size: "length F \<le> file_size f"
  shows "\<exists>r f'. fetch sys f = Inr (r, f') \<and> 0 \<le> r \<and> r = int (cache_valid f') \<and> cache_view data F f' \<and> \<not> is_dirty f'
    \<and> cache_pos f' = cache_pos f \<and> cache_idx f' = cache_idx f \<and> file_size f' = file_size f"
proof -
  have ci: "check_invariants f = Inr ()" using c by (simp add: check_invariants_def)
  show ?thesis
  proof (cases "file_size f \<le> cache_pos f")
    case True
    then have "fetch sys f = Inr (0, f\<lparr>cache_valid := 0\<rparr>)" using ci by (simp add: fetch_def)
    moreover have "cache_view data F (f\<lparr>cache_valid := 0\<rparr>)"
      using c clean size True by (simp add: cache_view_def)
    ultimately show ?thesis using clean by fastforce
  next
    case False
    obtain r s where s: "sys_lseek sys (int (cache_pos f)) (dev f) = (r, s)"
      by (cases "sys_lseek sys (int (cache_pos f)) (dev f)")
    have ls: "r = int (cache_pos f)" "data s = F" "off s = cache_pos f"
      using lseek_ok[OF _ s] clean by auto
    obtain n bs t where t: "sys_read sys 8 s = ((n, bs), t)" by (metis surj_pair)
    have rd: "bs = take 8 (drop (cache_pos f) F)" "n = int (length bs)" "data t = F"
      using read_ok[OF t] ls by auto
    have lb: "length bs \<le> 8" "length bs = min 8 (length F - cache_pos f)" using rd(1) by auto
    let ?f = "f\<lparr>dev := t, cache := bs @ drop (length bs) (cache f), cache_valid := length bs\<rparr>"
    have "fetch sys f = Inr (int (length bs), ?f)"
      using ci False s ls t rd(2) lb by (simp add: fetch_def)
    moreover have "cache_view data F ?f"
      using c clean rd lb by (auto simp: cache_view_def min_def split: if_splits)
    ultimately show ?thesis using clean by fastforce
  qed
qed

lemma next_block_spec:
  assumes v: "cache_view data F f" and i: "cache_idx f \<le> 8" and size: "length F \<le> file_size f"
  shows "\<exists>r f'. next_block sys f = Inr (r, f') \<and> 0 \<le> r \<and> cache_view data F f' \<and> \<not> is_dirty f'
    \<and> cache_pos f' = cache_pos f + 8 \<and> cache_idx f' = 0 \<and> file_size f' = file_size f"
proof -
  obtain s where s: "flush sys f = Inr (0, f\<lparr>is_dirty := False, dev := s\<rparr>)" "data s = F"
    using flush_spec[OF v i] by blast
  let ?f = "f\<lparr>is_dirty := False, dev := s, cache_pos := cache_pos f + 8, cache_idx := 0\<rparr>"
  have "\<exists>r f'. fetch sys ?f = Inr (r, f') \<and> 0 \<le> r \<and> r = int (cache_valid f') \<and> cache_view data F f' \<and> \<not> is_dirty f'
    \<and> cache_pos f' = cache_pos ?f \<and> cache_idx f' = cache_idx ?f \<and> file_size f' = file_size ?f"
    by (rule fetch_spec) (use v s(2) size in \<open>simp_all add: cache_view_def\<close>)
  then show ?thesis using s(1) by (auto simp: next_block_def)
qed

end

end
