(* ===== verification/File_Student_Facts.thy ===== *)
theory File_Student_Facts
  imports File_Student
begin

text \<open>
  The cached file refines the abstract file: each operation of \<open>student.c\<close> keeps the relation
  between the two and returns what the abstract file gives, proved once over any system that obeys
  \<open>posix_file\<close>.
\<close>

section \<open>The block and the file\<close>

lemma take_len_append: "length xs = n \<Longrightarrow> take n (xs @ ys) = xs"
  by simp

lemma view_take:
  assumes "cache_view data F f" "cache_idx f + r \<le> cache_valid f"
  shows "take r (drop (cache_idx f) (cache f)) = take r (drop (cache_pos f + cache_idx f) F)"
proof -
  let ?i = "cache_idx f"
  have "take r (drop ?i (take (cache_valid f) (cache f))) = take r (drop ?i (take 8 (drop (cache_pos f) F)))"
    using assms(1) by (simp add: cache_view_def)
  moreover have "r \<le> cache_valid f - ?i" "r \<le> 8 - ?i"
    using assms by (auto simp: cache_view_def)
  ultimately show ?thesis
    by (simp add: drop_take min_absorb1 add.commute)
qed

lemma store_view:
  assumes v: "cache_view data F f" and bs: "bs \<noteq> []" "cache_idx f + length bs \<le> 8"
    and p: "cache_pos f + cache_idx f \<le> length F"
    and f': "f' = f\<lparr>cache := cache_store (cache_idx f) bs (cache f), is_dirty := True,
      cache_valid := max (cache_valid f) (cache_idx f + length bs)\<rparr>"
  shows "cache_view data (splice F (cache_pos f + cache_idx f) bs) f'"
proof -
  let ?D = "data (dev f)" and ?c = "take (cache_valid f) (cache f)" and ?i = "cache_idx f" and ?p = "cache_pos f"
  let ?c' = "take ?i ?c @ bs @ drop (?i + length bs) ?c"
  have l8: "length (cache f) = 8" "cache_valid f \<le> 8" and mn: "min 8 (length F - ?p) = cache_valid f"
    and c: "take 8 (drop ?p F) = ?c"
    using v by (auto simp: cache_view_def)
  have D: "?p \<le> length ?D" "splice ?D ?p ?c = F"
  proof -
    have "?p \<le> length ?D \<and> splice ?D ?p ?c = F"
    proof (cases "is_dirty f")
      case True
      then show ?thesis using v by (simp add: cache_view_def)
    next
      case False
      then have "?D = F" using v by (simp add: cache_view_def)
      then show ?thesis using p c splice_same[of ?p F 8] by simp
    qed
    then show "?p \<le> length ?D" "splice ?D ?p ?c = F" by auto
  qed
  have iv: "?i \<le> cache_valid f" using mn bs(2) p by auto
  then have ic: "?i \<le> length ?c" using l8 by simp
  have F': "splice F (?p + ?i) bs = splice ?D ?p ?c'"
    using splice_overwrite[OF D(1) ic, of bs] D(2) by simp
  have c': "take (cache_valid f') (cache f') = ?c'"
    using iv l8 bs(2) by (simp add: f' cache_store_def drop_take min_absorb1 max_def) arith
  have lc': "length ?c' = cache_valid f'" using iv l8 bs(2) by (simp add: f' max_def)
  have ne: "?c' \<noteq> []" using bs(1) by simp
  have lF': "length (splice F (?p + ?i) bs) = max (length F) (?p + ?i + length bs)"
    by (rule length_splice[OF bs(1)])
  have mn': "min 8 (length (splice F (?p + ?i) bs) - ?p) = cache_valid f'"
    unfolding lF' using mn bs(2) by (simp add: f')
  have v8: "cache_valid f' \<le> 8" using l8 bs(2) by (simp add: f')
  have d: "drop ?p (splice F (?p + ?i) bs) = ?c' @ drop (?p + length ?c') ?D"
    unfolding F' by (rule drop_splice[OF D(1)])
  have t8: "take 8 (drop ?p (splice F (?p + ?i) bs)) = ?c'"
  proof (cases "cache_valid f' = 8")
    case True
    then show ?thesis unfolding d by (intro take_len_append) (simp only: lc')
  next
    case False
    then have "length (splice F (?p + ?i) bs) - ?p = length ?c'" using mn' v8 lc' by linarith
    then have "length (drop ?p (splice F (?p + ?i) bs)) = length ?c'" by simp
    then have "drop (?p + length ?c') ?D = []" unfolding d by simp
    then show ?thesis unfolding d append_Nil2[of ?c'] using take_all[of ?c' 8] lc' v8
      by (simp only: append_Nil2)
  qed
  have same: "fd f' = fd f" "cache_pos f' = ?p" "dev f' = dev f" "is_dirty f'" "length (cache f') = 8"
    using l8 bs(2) by (simp_all add: f' cache_store_def)
  show ?thesis unfolding cache_view_def same(1,2,3)
    using v same(4,5) v8 mn' t8 c' D(1) F' by (simp add: cache_view_def)
qed

text \<open>The passes of \<open>io300_write\<close> after the hole is filled.\<close>

definition write_rest :: "nat \<Rightarrow> 'o sys_ops \<Rightarrow> bytes \<Rightarrow> 'o io300_file \<Rightarrow> (int \<times> 'o io300_file) result" where
  "write_rest fuel sys buff f = res_bind (write_block_part sys buff f) (\<lambda>(writable_bytes, f).
     if writable_bytes = length buff then Inr (int writable_bytes, f)
     else res_bind (io300_write fuel sys (drop writable_bytes buff) f) (\<lambda>(n, f).
       Inr (int writable_bytes + n, f)))"

definition written :: "('o \<Rightarrow> bytes) \<Rightarrow> bytes \<Rightarrow> nat \<Rightarrow> bytes \<Rightarrow> nat \<Rightarrow> (int \<times> 'o io300_file) result \<Rightarrow> bool" where
  "written data F P buff fs r \<longleftrightarrow> (\<exists>f'. r = Inr (int (length buff), f') \<and> cache_view data (splice F P buff) f'
     \<and> cache_idx f' < 8 \<and> cache_pos f' + cache_idx f' = P + length buff \<and> file_size f' = max fs (P + length buff))"

context posix_file
begin

lemma read_spec:
  assumes "cache_view data F f" "cache_idx f < 8" "file_size f = length F" "sz < fuel"
  shows "\<exists>f'. io300_read fuel sys sz f
      = Inr ((int (length (take sz (drop (cache_pos f + cache_idx f) F))), take sz (drop (cache_pos f + cache_idx f) F)), f')
    \<and> cache_view data F f' \<and> cache_idx f' < 8 \<and> file_size f' = length F
    \<and> cache_pos f' + cache_idx f' = cache_pos f + cache_idx f + length (take sz (drop (cache_pos f + cache_idx f) F))"
  using assms
proof (induction fuel arbitrary: sz f)
  case 0
  then show ?case by simp
next
  case (Suc fuel)
  define f1 where "f1 = f\<lparr>stats := (stats f)\<lparr>read_calls := read_calls (stats f) + 1\<rparr>\<rparr>"
  have f1: "cache_idx f1 = cache_idx f" "cache_pos f1 = cache_pos f" "file_size f1 = length F"
      "cache_valid f1 = cache_valid f" "cache f1 = cache f"
    using Suc.prems(3) by (simp_all add: f1_def)
  have v1: "cache_view data F f1" by (rule view_cong[OF Suc.prems(1)]) (simp_all add: f1_def)
  have ck: "check_invariants f1 = Inr ()" using view_checks[OF v1] Suc.prems(2) f1(1) by simp
  let ?P = "cache_pos f + cache_idx f"
  show ?case
  proof (cases "length F \<le> ?P")
    case True
    then have "io300_read (Suc fuel) sys sz f = Inr ((0, []), f1)"
      unfolding io300_read.simps f1_def[symmetric] Let_def using ck f1 by simp
    then show ?thesis using True v1 f1 Suc.prems(2) by auto
  next
    case False
    define avail where "avail = cache_valid f - cache_idx f"
    define r where "r = min sz avail"
    have mn: "min 8 (length F - cache_pos f) = cache_valid f" using Suc.prems(1) by (simp add: cache_view_def)
    then have iv: "cache_idx f < cache_valid f" using False Suc.prems(2) by auto
    have le: "avail \<le> 8 - cache_idx f" using mn by (auto simp: avail_def)
    have buf: "take r (drop (cache_idx f) (cache f)) = take r (drop ?P F)"
      using view_take[OF Suc.prems(1), of r] iv by (simp add: r_def avail_def)
    have rlen: "?P + r \<le> length F" using mn iv False by (auto simp: r_def avail_def)
    have rr: "min sz (min (8 - cache_idx f) (if cache_idx f < cache_valid f then cache_valid f - cache_idx f else 0)) = r"
      using iv le by (simp add: r_def avail_def)
    have ix: "cache_idx (f1\<lparr>cache_idx := x\<rparr>) = x" for x by simp
    have notpast: "(length F \<le> ?P) = False" using False by simp
    have step: "io300_read (Suc fuel) sys sz f =
      (if r = sz \<or> ?P + r = length F
       then if cache_idx f + r = 8
            then res_bind (next_block sys (f1\<lparr>cache_idx := cache_idx f + r\<rparr>)) (\<lambda>(rc, f).
              if rc < 0 then Inr ((rc, take r (drop ?P F)), f) else Inr ((int r, take r (drop ?P F)), f))
            else Inr ((int r, take r (drop ?P F)), f1\<lparr>cache_idx := cache_idx f + r\<rparr>)
       else res_bind (next_block sys f1) (\<lambda>(rc, f).
         if rc < 0 then Inr ((rc, take r (drop ?P F)), f)
         else res_bind (io300_read fuel sys (sz - r) f) (\<lambda>((n, more_bytes), f).
           Inr ((int r + n, take r (drop ?P F) @ more_bytes), f))))"
      unfolding io300_read.simps f1_def[symmetric] Let_def
      by (simp only: ck res_bind.simps f1 rr buf notpast if_False CACHE_SIZE_8 ix)
    show ?thesis
    proof (cases "r = sz \<or> ?P + r = length F")
      case True
      have bs: "take sz (drop ?P F) = take r (drop ?P F)"
      proof (cases "r = sz")
        case False
        then have "length (drop ?P F) \<le> r" using True by simp
        moreover have "r \<le> sz" by (simp add: r_def)
        ultimately show ?thesis by simp
      qed simp
      have lbs: "length (take r (drop ?P F)) = r" using rlen by simp
      let ?f2 = "f1\<lparr>cache_idx := cache_idx f + r\<rparr>"
      have v2: "cache_view data F ?f2" by (rule view_cong[OF v1]) simp_all
      show ?thesis
      proof (cases "cache_idx f + r = 8")
        case True': True
        obtain k f3 where f3: "next_block sys ?f2 = Inr (k, f3)" "0 \<le> k" "cache_view data F f3"
            "cache_pos f3 = cache_pos f + 8" "cache_idx f3 = 0" "file_size f3 = length F"
          using next_block_spec[OF v2] True' f1 by auto
        have "io300_read (Suc fuel) sys sz f = Inr ((int r, take r (drop ?P F)), f3)"
          unfolding step using True True' f3(1,2) by simp
        then show ?thesis unfolding bs lbs using f3 True' by auto
      next
        case no: False
        then have "io300_read (Suc fuel) sys sz f = Inr ((int r, take r (drop ?P F)), ?f2)"
          unfolding step using True by simp
        moreover have "cache_idx f + r < 8" using no le iv mn by (auto simp: r_def avail_def)
        ultimately show ?thesis unfolding bs lbs using v2 f1 by auto
      qed
    next
      case no: False
      then have r: "r = avail" "r < sz" "1 \<le> r" using iv by (auto simp: r_def avail_def)
      then have "cache_idx f + r = cache_valid f" using iv by (simp add: avail_def)
      then have v8: "cache_idx f + r = 8" using no mn False iv by auto
      obtain k f3 where f3: "next_block sys f1 = Inr (k, f3)" "0 \<le> k" "cache_view data F f3"
          "cache_pos f3 = cache_pos f + 8" "cache_idx f3 = 0" "file_size f3 = length F"
        using next_block_spec[OF v1] Suc.prems(2) f1 by auto
      have P3: "cache_pos f3 + cache_idx f3 = ?P + r" using f3 v8 by simp
      have "sz - r < fuel" using r Suc.prems(4) by simp
      from Suc.IH[OF f3(3) _ f3(6) this] obtain f4 where f4:
        "io300_read fuel sys (sz - r) f3 = Inr ((int (length (take (sz - r) (drop (?P + r) F))), take (sz - r) (drop (?P + r) F)), f4)"
        "cache_view data F f4" "cache_idx f4 < 8" "file_size f4 = length F"
        "cache_pos f4 + cache_idx f4 = ?P + r + length (take (sz - r) (drop (?P + r) F))"
        unfolding P3 using f3(5) by auto
      have res: "io300_read (Suc fuel) sys sz f = Inr ((int r + int (length (take (sz - r) (drop (?P + r) F))),
          take r (drop ?P F) @ take (sz - r) (drop (?P + r) F)), f4)"
        unfolding step using no f3(1,2) f4(1) by simp
      have app: "take r (drop ?P F) @ take (sz - r) (drop (?P + r) F) = take sz (drop ?P F)"
        using r(2) take_add[of r "sz - r" "drop ?P F"] by (simp add: add.commute)
      have "length (take sz (drop ?P F)) = r + length (take (sz - r) (drop (?P + r) F))"
        using rlen unfolding app[symmetric] by simp
      then show ?thesis using res f4 unfolding app by auto
    qed
  qed
qed

text \<open>One pass of \<open>io300_write\<close> with the head inside the file.\<close>

lemma write_block_part_spec:
  assumes v: "cache_view data F f" and i: "cache_idx f < 8" and P: "P = cache_pos f + cache_idx f" "P \<le> length F"
    and fs: "length F \<le> file_size f" and w: "w = min (length buff) (8 - cache_idx f)"
  shows "\<exists>f'. write_block_part sys buff f = Inr (w, f') \<and> cache_view data (splice F P (take w buff)) f'
    \<and> cache_idx f' < 8 \<and> cache_pos f' + cache_idx f' = P + w \<and> file_size f' = max (file_size f) (P + length buff)"
proof -
  let ?F = "splice F P (take w buff)"
  define f1 where "f1 = (if 0 < w
    then f\<lparr>cache := cache_store (cache_idx f) (take w buff) (cache f), is_dirty := True,
           cache_valid := max (cache_valid f) (cache_idx f + w)\<rparr> else f)"
  define f2 where "f2 = (if file_size f1 < P + length buff then f1\<lparr>file_size := P + length buff\<rparr> else f1)"
  have wl: "length (take w buff) = w" "cache_idx f + w \<le> 8" using w i by auto
  have v1: "cache_view data ?F f1"
  proof (cases "w = 0")
    case True
    then show ?thesis using v by (simp add: f1_def)
  next
    case False
    then have "take w buff \<noteq> []" using wl(1) by (metis list.size(3))
    from store_view[OF v this _ _ refl] show ?thesis
      using False wl P by (simp add: f1_def)
  qed
  have f1: "cache_idx f1 = cache_idx f" "cache_pos f1 = cache_pos f" "file_size f1 = file_size f"
    by (simp_all add: f1_def)
  have v2: "cache_view data ?F f2" by (rule view_cong[OF v1]) (simp_all add: f2_def)
  have f2: "cache_idx f2 = cache_idx f" "cache_pos f2 = cache_pos f" "file_size f2 = max (file_size f) (P + length buff)"
    by (simp_all add: f2_def f1)
  have lF: "length ?F \<le> file_size f2"
  proof (cases "take w buff = []")
    case True
    then show ?thesis using fs f2 unfolding True by simp
  next
    case False
    have "w \<le> length buff" using w by simp
    then show ?thesis unfolding length_splice[OF False] wl(1) f2(3) using fs by auto
  qed
  have step: "write_block_part sys buff f =
     (if cache_idx f + w = 8
         then res_bind (flush sys f2) (\<lambda>(_, f).
           if cache_pos f + 8 < file_size f
              then res_bind (fetch sys (f\<lparr>cache_pos := cache_pos f + 8, cache_idx := 0, cache_valid := 0\<rparr>)) (\<lambda>(_, f). Inr (w, f))
              else Inr (w, f\<lparr>cache_pos := cache_pos f + 8, cache_idx := 0, cache_valid := 0\<rparr>))
         else Inr (w, f2\<lparr>cache_idx := cache_idx f + w\<rparr>))"
    unfolding write_block_part_def Let_def CACHE_SIZE_8 w[symmetric] f1_def[symmetric] f1(1,2) P(1)[symmetric]
      f2_def[symmetric] f2(1) by simp
  show ?thesis
  proof (cases "cache_idx f + w = 8")
    case False
    let ?g = "f2\<lparr>cache_idx := cache_idx f + w\<rparr>"
    have "cache_view data ?F ?g" by (rule view_cong[OF v2]) simp_all
    moreover have "cache_idx f + w < 8" using wl(2) False by simp
    ultimately show ?thesis unfolding step using False f2 P(1) by simp
  next
    case True
    obtain s where s: "flush sys f2 = Inr (0, f2\<lparr>is_dirty := False, dev := s\<rparr>)"
        "cache_view data ?F (f2\<lparr>is_dirty := False, dev := s\<rparr>)" "data s = ?F"
      using flush_spec[OF v2] f2(1) i by auto
    let ?g = "f2\<lparr>is_dirty := False, dev := s, cache_pos := cache_pos f + 8, cache_idx := 0, cache_valid := 0\<rparr>"
    have gc: "length (cache ?g) = 8" "0 \<le> fd ?g" "cache_pos ?g mod 8 = 0"
      using s(2) f2(2) by (simp_all add: cache_view_def)
    show ?thesis
    proof (cases "cache_pos f + 8 < file_size f2")
      case True': True
      have "\<exists>r f'. fetch sys ?g = Inr (r, f') \<and> 0 \<le> r \<and> r = int (cache_valid f') \<and> cache_view data ?F f' \<and> \<not> is_dirty f'
        \<and> cache_pos f' = cache_pos ?g \<and> cache_idx f' = cache_idx ?g \<and> file_size f' = file_size ?g"
        by (rule fetch_spec[OF gc]) (simp_all add: s(3) lF)
      then show ?thesis unfolding step using True True' s(1) f2 P(1) by auto
    next
      case no: False
      then have "cache_view data ?F ?g"
        using gc lF s(3) f2 by (simp add: cache_view_def)
      then show ?thesis unfolding step using True no s(1) f2 P(1) by simp
    qed
  qed
qed

lemma write_rest_spec:
  assumes IH: "\<And>bs g G. cache_view data G g \<Longrightarrow> cache_idx g < 8 \<Longrightarrow> cache_pos g + cache_idx g \<le> length G \<Longrightarrow>
      length G \<le> file_size g \<Longrightarrow> length bs < fuel \<Longrightarrow>
      written data G (cache_pos g + cache_idx g) bs (file_size g) (io300_write fuel sys bs g)"
    and v: "cache_view data F f" and i: "cache_idx f < 8" and P: "P = cache_pos f + cache_idx f" "P \<le> length F"
    and fs: "length F \<le> file_size f" and fuel: "length buff < Suc fuel"
  shows "written data F P buff (file_size f) (write_rest fuel sys buff f)"
proof -
  define w where "w = min (length buff) (8 - cache_idx f)"
  obtain g where g: "write_block_part sys buff f = Inr (w, g)" "cache_view data (splice F P (take w buff)) g"
      "cache_idx g < 8" "cache_pos g + cache_idx g = P + w" "file_size g = max (file_size f) (P + length buff)"
    using write_block_part_spec[OF v i P fs w_def] by blast
  show ?thesis
  proof (cases "w = length buff")
    case True
    then show ?thesis using g by (simp add: written_def write_rest_def)
  next
    case False
    then have w: "w < length buff" "0 < w" using i by (auto simp: w_def)
    let ?G = "splice F P (take w buff)"
    have "take w buff \<noteq> []" using w by auto
    then have lG: "length ?G = max (length F) (P + w)" using w by (simp add: length_splice)
    have lf: "length (drop w buff) < fuel" using w fuel by simp
    have "written data ?G (P + w) (drop w buff) (file_size g) (io300_write fuel sys (drop w buff) g)"
      unfolding g(4)[symmetric]
      by (rule IH[OF g(2,3) _ _ lf]) (use g(4,5) lG fs w in auto)
    moreover have "splice ?G (P + w) (drop w buff) = splice F P buff"
      using splice_splice[OF P(2), of "take w buff" "drop w buff"] w by simp
    ultimately show ?thesis using g(1,5) w False
      by (auto simp: written_def write_rest_def)
  qed
qed

lemma io300_write_step:
  assumes "cache_view data F f" "cache_idx f < 8"
  shows "io300_write (Suc fuel) sys buff f =
    res_bind (fill_hole sys (f\<lparr>stats := (stats f)\<lparr>write_calls := write_calls (stats f) + 1\<rparr>\<rparr>)) (\<lambda>(rc, g).
      if rc < 0 then Inr (rc, g) else write_rest fuel sys buff g)"
proof -
  let ?f = "f\<lparr>stats := (stats f)\<lparr>write_calls := write_calls (stats f) + 1\<rparr>\<rparr>"
  have "cache_view data F ?f" by (rule view_cong[OF assms(1)]) simp_all
  then have "check_invariants ?f = Inr ()" using view_checks assms(2) by force
  then show ?thesis unfolding io300_write.simps Let_def write_rest_def by simp
qed

lemma write_inside:
  "cache_view data F f \<Longrightarrow> cache_idx f < 8 \<Longrightarrow> cache_pos f + cache_idx f \<le> length F \<Longrightarrow>
    length F \<le> file_size f \<Longrightarrow> length buff < fuel \<Longrightarrow>
    written data F (cache_pos f + cache_idx f) buff (file_size f) (io300_write fuel sys buff f)"
proof (induction fuel arbitrary: F f buff)
  case 0
  then show ?case by simp
next
  case (Suc fuel)
  let ?f = "f\<lparr>stats := (stats f)\<lparr>write_calls := write_calls (stats f) + 1\<rparr>\<rparr>"
  have v: "cache_view data F ?f" by (rule view_cong[OF Suc.prems(1)]) simp_all
  have "fill_hole sys ?f = Inr (0, ?f)" using Suc.prems(3,4) by (simp add: fill_hole_def)
  then have e: "io300_write (Suc fuel) sys buff f = write_rest fuel sys buff ?f"
    using io300_write_step[OF Suc.prems(1,2)] by simp
  have "written data F (cache_pos f + cache_idx f) buff (file_size ?f) (write_rest fuel sys buff ?f)"
    by (rule write_rest_spec[OF Suc.IH v]) (use Suc.prems in auto)
  then show ?case unfolding e by simp
qed

lemma splice_hole: "bs \<noteq> [] \<Longrightarrow> splice (F @ replicate (p - length F) 0) p bs = splice F p bs"
  by (auto simp: splice_def)

lemma fill_hole_spec:
  assumes v: "cache_view data F f" and i: "cache_idx f < 8" and fs: "file_size f = length F"
    and P: "P = cache_pos f + cache_idx f" "length F < P"
    and hole: "length F < cache_pos f \<Longrightarrow> cache_pos f - length F \<le> stack_room sys" "length F \<noteq> cache_pos f"
  shows "\<exists>g. fill_hole sys f = Inr (0, g) \<and> cache_view data (F @ replicate (P - length F) 0) (g\<lparr>cache_valid := cache_idx f\<rparr>)
    \<and> cache_idx g = cache_idx f \<and> cache_pos g = cache_pos f \<and> file_size g = P \<and> cache_valid g \<le> cache_idx f"
proof -
  let ?i = "cache_idx f" and ?p = "cache_pos f"
  define eof where "eof = length F - ?p"
  define z where "z = replicate (?i - eof) (0 :: u8)"
  define f1 where "f1 = (if eof < ?i then f\<lparr>cache := cache_store eof z (cache f), is_dirty := True\<rparr> else f)"
  have valid: "cache_valid f = eof" using v i P by (auto simp: cache_view_def eof_def)
  have e: "(if ?p < file_size f then file_size f - ?p else 0) = eof" by (simp add: fs eof_def)
  have past: "file_size f < ?p + ?i" using P fs by simp
  have f1: "cache_idx f1 = ?i" "cache_pos f1 = ?p" "file_size f1 = length F" "cache_valid f1 = eof" "dev f1 = dev f"
    "fd f1 = fd f"
    by (simp_all add: f1_def fs valid)
  have fill: "fill_hole sys f = (if eof = 0
     then case sys_lseek sys (int (length F)) (dev f) of (seek_rc, s) \<Rightarrow>
       if seek_rc < 0 then Inr (seek_rc, f1\<lparr>dev := s\<rparr>)
       else if ?p - length F = 0 \<or> stack_room sys < ?p - length F then Inl (UndefinedBehaviour ''char temp[bytes_to_fill]'')
       else case sys_write sys (replicate (?p - length F) 0) s of (write_rc, s) \<Rightarrow>
         if write_rc < 0 then Inr (write_rc, f1\<lparr>dev := s\<rparr>)
         else Inr (0, f1\<lparr>dev := s, file_size := P\<rparr>)
     else Inr (0, f1\<lparr>file_size := P\<rparr>))"
    unfolding fill_hole_def Let_def e z_def[symmetric] f1_def[symmetric] if_P[OF past]
    by (simp add: f1 P(1) cong: prod.case_cong if_cong)
  show ?thesis
  proof (cases "eof = 0")
    case False
    then have "?p < length F" by (simp add: eof_def)
    then have lt: "eof < ?i" and pe: "?p + eof = length F" using P by (auto simp: eof_def)
    let ?h = "f\<lparr>cache_idx := eof\<rparr>"
    have vh: "cache_view data F ?h" by (rule view_cong[OF v]) simp_all
    have "cache_view data (splice F (cache_pos ?h + cache_idx ?h) z) (?h\<lparr>cache := cache_store (cache_idx ?h) z (cache ?h),
        is_dirty := True, cache_valid := max (cache_valid ?h) (cache_idx ?h + length z)\<rparr>)"
      by (rule store_view[OF vh _ _ _ refl]) (use lt i pe in \<open>auto simp: z_def\<close>)
    moreover have "splice F (?p + eof) z = F @ replicate (P - length F) 0"
      using pe P(1) unfolding splice_inside[OF pe[THEN eq_refl]] by (simp add: z_def)
    ultimately have "cache_view data (F @ replicate (P - length F) 0) (f\<lparr>cache_idx := eof, cache := cache_store eof z (cache f),
        is_dirty := True, cache_valid := ?i\<rparr>)"
      using lt valid by (simp add: z_def max_absorb2)
    then have "cache_view data (F @ replicate (P - length F) 0) (f1\<lparr>file_size := P, cache_valid := ?i\<rparr>)"
      by (rule view_cong) (simp_all add: f1_def lt)
    then show ?thesis unfolding fill using False f1 lt by simp
  next
    case True
    then have pF: "length F \<le> ?p" by (simp add: eof_def)
    have D: "data (dev f) = F" using v valid True by (cases "is_dirty f") (auto simp: cache_view_def)
    obtain r s where s: "sys_lseek sys (int (length F)) (dev f) = (r, s)"
      by (cases "sys_lseek sys (int (length F)) (dev f)")
    have ls: "r = int (length F)" "data s = F" "off s = length F" using lseek_ok[OF _ s] D by auto
    obtain n t where t: "sys_write sys (replicate (?p - length F) 0) s = (n, t)"
      by (cases "sys_write sys (replicate (?p - length F) 0) s")
    let ?B = "F @ replicate (?p - length F) 0"
    have wr: "\<not> n < 0" "data t = ?B"
      using write_ok[OF t] ls by (auto simp: splice_inside)
    have fg: "fill_hole sys f = Inr (0, f1\<lparr>dev := t, file_size := P\<rparr>)"
      unfolding fill using True s t ls(1) wr(1) hole pF by simp
    let ?h = "f\<lparr>cache_idx := 0, dev := t\<rparr>"
    have lB: "length ?B = ?p" using pF by simp
    have vh: "cache_view data ?B ?h"
      using v valid True wr(2) lB by (simp add: cache_view_def)
    have all: "?B @ replicate ?i 0 = F @ replicate (P - length F) 0"
      using pF P(1) by (simp add: replicate_add[symmetric])
    have "cache_view data (F @ replicate (P - length F) 0) (f1\<lparr>dev := t, file_size := P, cache_valid := ?i\<rparr>)"
    proof (cases "?i = 0")
      case i0: True
      have "cache_view data ?B (f1\<lparr>dev := t, file_size := P, cache_valid := ?i\<rparr>)"
        by (rule view_cong[OF vh]) (simp_all add: f1_def i0 valid True)
      then show ?thesis using i0 P(1) by simp
    next
      case False
      have "cache_view data (splice ?B (cache_pos ?h + cache_idx ?h) z) (?h\<lparr>cache := cache_store (cache_idx ?h) z (cache ?h),
          is_dirty := True, cache_valid := max (cache_valid ?h) (cache_idx ?h + length z)\<rparr>)"
        by (rule store_view[OF vh _ _ _ refl]) (use False True i lB in \<open>auto simp: z_def\<close>)
      moreover have "splice ?B ?p z = F @ replicate (P - length F) 0"
        unfolding splice_inside[OF lB[symmetric, THEN eq_refl]] using True all pF by (simp add: z_def)
      ultimately have "cache_view data (F @ replicate (P - length F) 0) (f\<lparr>cache_idx := 0, dev := t,
          cache := cache_store 0 z (cache f), is_dirty := True, cache_valid := ?i\<rparr>)"
        using True valid by (simp add: z_def)
      then show ?thesis by (rule view_cong) (use False True in \<open>simp_all add: f1_def\<close>)
    qed
    then show ?thesis unfolding fg using f1 True by simp
  qed
qed

lemma write_block_part_valid:
  assumes "buff \<noteq> []" "cache_idx g < 8" "cache_valid g \<le> cache_idx g"
  shows "write_block_part sys buff g = write_block_part sys buff (g\<lparr>cache_valid := cache_idx g\<rparr>)"
proof -
  define w where "w = min (length buff) (8 - cache_idx g)"
  have w: "(0 < w) = True" using assms by (auto simp: w_def)
  have sel: "cache_idx (g\<lparr>cache_valid := n\<rparr>) = cache_idx g" "cache_pos (g\<lparr>cache_valid := n\<rparr>) = cache_pos g"
    "cache (g\<lparr>cache_valid := n\<rparr>) = cache g" "cache_valid (g\<lparr>cache_valid := n\<rparr>) = n" for n
    by simp_all
  have m: "max (cache_valid g) (cache_idx g + w) = cache_idx g + w"
    "max (cache_idx g) (cache_idx g + w) = cache_idx g + w" using assms(3) by auto
  have r: "g\<lparr>cache_valid := k, cache := c, is_dirty := True, cache_valid := n\<rparr>
    = g\<lparr>cache := c, is_dirty := True, cache_valid := n\<rparr>" for c k n by simp
  show ?thesis
    unfolding write_block_part_def Let_def CACHE_SIZE_8 sel w_def[symmetric]
    by (simp only: w if_True m r)
qed

lemma write_spec:
  assumes rel: "file_rel data a f" and ne: "buff \<noteq> []" and depth: "length buff < stack_frames sys"
    and hole: "hole_fits (stack_room sys) a"
  shows "\<exists>f'. write_op sys buff f = Inr (int (length buff), f')
    \<and> file_rel data \<lparr>abytes = splice (abytes a) (apos a) buff, apos = apos a + length buff\<rparr> f'"
proof -
  let ?F = "abytes a" and ?P = "apos a"
  have v: "cache_view data ?F f" and i: "cache_idx f < 8" and P: "?P = cache_pos f + cache_idx f"
    and fs: "file_size f = length ?F" using rel by (auto simp: file_rel_def)
  have len: "length (splice ?F ?P buff) = max (length ?F) (?P + length buff)" by (rule length_splice[OF ne])
  have "written data ?F ?P buff (length ?F) (write_op sys buff f)
    \<or> written data (?F @ replicate (?P - length ?F) 0) ?P buff ?P (write_op sys buff f) \<and> length ?F < ?P"
  proof (cases "?P \<le> length ?F")
    case True
    then have "written data ?F ?P buff (length ?F) (write_op sys buff f)"
      using write_inside[OF v i, of buff "stack_frames sys"] P fs depth by (simp add: write_op_def)
    then show ?thesis by blast
  next
    case False
    let ?f = "f\<lparr>stats := (stats f)\<lparr>write_calls := write_calls (stats f) + 1\<rparr>\<rparr>"
    let ?G = "?F @ replicate (?P - length ?F) 0"
    have vf: "cache_view data ?F ?f" by (rule view_cong[OF v]) simp_all
    obtain n where n: "stack_frames sys = Suc n" "length buff < Suc n" using depth by (cases "stack_frames sys") auto
    have block: "apos a - apos a mod 8 = cache_pos f"
    proof -
      have "cache_pos f mod 8 = 0" using v by (simp add: cache_view_def)
      then have "(cache_pos f + cache_idx f) mod 8 = cache_idx f" using i by (metis add_0 mod_add_left_eq mod_less)
      then show ?thesis using P by simp
    qed
    obtain g where g: "fill_hole sys ?f = Inr (0, g)" "cache_view data ?G (g\<lparr>cache_valid := cache_idx f\<rparr>)"
        "cache_idx g = cache_idx f" "cache_pos g = cache_pos f" "file_size g = ?P" "cache_valid g \<le> cache_idx f"
      using fill_hole_spec[OF vf, of ?P] i fs P False hole[unfolded hole_fits_def Let_def block] by auto
    let ?g = "g\<lparr>cache_valid := cache_idx f\<rparr>"
    have e: "write_op sys buff f = write_rest n sys buff ?g"
    proof -
      have "write_op sys buff f = write_rest n sys buff g"
        using io300_write_step[OF v i, of n buff] g(1) n(1) by (simp add: write_op_def)
      also have "\<dots> = write_rest n sys buff ?g"
        using write_block_part_valid[OF ne, of g] g(3,6) i by (simp add: write_rest_def)
      finally show ?thesis .
    qed
    have "written data ?G ?P buff (file_size ?g) (write_rest n sys buff ?g)"
      by (rule write_rest_spec[OF write_inside g(2)]) (use g(3,4,5) i P False n in auto)
    then show ?thesis unfolding e using g(5) False by simp
  qed
  then show ?thesis
    using len splice_hole[OF ne, of ?F ?P] by (auto simp: written_def file_rel_def)
qed

lemma seek_spec:
  assumes rel: "file_rel data a f"
  shows "\<exists>f'. io300_seek sys p f = Inr (if p < 0 then - 1 else to_int p, f')
    \<and> file_rel data (if p < 0 then a else a\<lparr>apos := nat p\<rparr>) f'"
proof -
  let ?F = "abytes a"
  let ?f = "f\<lparr>stats := (stats f)\<lparr>seeks := seeks (stats f) + 1\<rparr>\<rparr>"
  have v: "cache_view data ?F f" and i: "cache_idx f < 8" and fs: "file_size f = length ?F"
    and P: "apos a = cache_pos f + cache_idx f" using rel by (auto simp: file_rel_def)
  have vf: "cache_view data ?F ?f" by (rule view_cong[OF v]) simp_all
  have ck: "check_invariants f = Inr ()" using view_checks[OF v] i by simp
  show ?thesis
  proof (cases "p < 0")
    case True
    then show ?thesis using ck vf i fs P by (auto simp: io300_seek_def file_rel_def)
  next
    case pos: False
    show ?thesis
    proof (cases "int (cache_pos f) \<le> p \<and> p < int (cache_pos f + 8)")
      case True
      let ?g = "?f\<lparr>cache_idx := nat p - cache_pos f\<rparr>"
      have "cache_view data ?F ?g" by (rule view_cong[OF vf]) simp_all
      then show ?thesis using True pos ck fs by (auto simp: io300_seek_def file_rel_def)
    next
      case False
      have i8: "cache_idx ?f \<le> 8" using i by simp
      obtain s where s: "flush sys ?f = Inr (0, ?f\<lparr>is_dirty := False, dev := s\<rparr>)" "data s = ?F"
          "cache_view data ?F (?f\<lparr>is_dirty := False, dev := s\<rparr>)"
        using flush_spec[OF vf i8] by blast
      let ?g = "?f\<lparr>is_dirty := False, dev := s, cache_pos := nat p - nat p mod 8, cache_idx := nat p mod 8\<rparr>"
      have "\<exists>r f'. fetch sys ?g = Inr (r, f') \<and> 0 \<le> r \<and> r = int (cache_valid f') \<and> cache_view data ?F f' \<and> \<not> is_dirty f'
        \<and> cache_pos f' = cache_pos ?g \<and> cache_idx f' = cache_idx ?g \<and> file_size f' = file_size ?g"
        by (rule fetch_spec) (use v s(2) fs in \<open>simp_all add: cache_view_def minus_mod_eq_mult_div\<close>)
      then show ?thesis using False pos ck s(1) fs by (auto simp: io300_seek_def file_rel_def Let_def)
    qed
  qed
qed

lemma read_op_spec:
  assumes rel: "file_rel data a f" and depth: "n < stack_frames sys"
  shows "\<exists>f'. read_op sys n f = Inr (fst (spec_op (Read n) a), f') \<and> file_rel data (snd (spec_op (Read n) a)) f'"
proof -
  let ?bs = "take n (drop (apos a) (abytes a))"
  have r: "cache_view data (abytes a) f" "cache_idx f < 8" "file_size f = length (abytes a)"
    "cache_pos f + cache_idx f = apos a" using rel by (simp_all add: file_rel_def)
  obtain f' where f': "io300_read (stack_frames sys) sys n f = Inr ((int (length ?bs), ?bs), f')"
      "cache_view data (abytes a) f'" "cache_idx f' < 8" "file_size f' = length (abytes a)"
      "cache_pos f' + cache_idx f' = apos a + length ?bs"
    using read_spec[OF r(1,2,3), of n "stack_frames sys"] depth unfolding r(4) by fastforce
  have "file_rel data (a\<lparr>apos := apos a + length ?bs\<rparr>) f'"
    unfolding file_rel_def using f'(2-5) by simp
  then show ?thesis using f'(1) by (simp add: read_op_def Let_def)
qed

lemma student_op_spec:
  assumes rel: "file_rel data a f" and ok: "op_fits sys rw x a"
  shows "\<exists>f'. student_op sys x f = Inr (fst (spec_op x a), f') \<and> file_rel data (snd (spec_op x a)) f'"
proof (cases x)
  case (Seek p)
  then show ?thesis using seek_spec[OF rel, of p] by (auto split: if_splits)
next
  case (Read n)
  then show ?thesis using read_op_spec[OF rel] ok by (simp del: spec_op.simps)
next
  case (Write bs)
  then show ?thesis using write_spec[OF rel, of bs] ok by auto
next
  case Readc
  have ck: "check_invariants f = Inr ()" using view_checks rel by (force simp: file_rel_def)
  obtain f' where f': "read_op sys 1 f = Inr (fst (spec_op (Read 1) a), f')"
      "file_rel data (snd (spec_op (Read 1) a)) f'"
    using read_op_spec[OF rel, of 1] ok Readc by auto
  show ?thesis
  proof (cases "take 1 (drop (apos a) (abytes a))")
    case Nil
    then show ?thesis using f' ck Readc by (auto simp: io300_readc_def)
  next
    case (Cons b bs)
    then have "bs = []" by (metis One_nat_def length_Cons length_greater_0_conv less_numeral_extra(3)
      length_take min.bounded_iff Suc_le_mono le_refl le_zero_eq length_0_conv nat_le_linear min.cobounded1 min.cobounded2)
    then show ?thesis using f' ck Readc Cons by (auto simp: io300_readc_def)
  qed
next
  case (Writec ch)
  have ck: "check_invariants f = Inr ()" using view_checks rel by (force simp: file_rel_def)
  have "uint (word_of_int ch :: u8) = ch" using ok Writec by (simp add: unsigned_of_int take_bit_int_eq_self)
  then show ?thesis using write_spec[OF rel, of "[word_of_int ch]"] ck ok Writec
    by (auto simp: io300_writec_def)
qed

lemma student_ops_spec:
  "file_rel data a f \<Longrightarrow> ops_fit sys rw xs a \<Longrightarrow>
    \<exists>f'. student_ops sys xs f = Inr (fst (spec_ops xs a), f') \<and> file_rel data (snd (spec_ops xs a)) f'"
proof (induction xs arbitrary: a f)
  case Nil
  then show ?case by simp
next
  case (Cons x xs)
  obtain f1 where f1: "student_op sys x f = Inr (fst (spec_op x a), f1)" "file_rel data (snd (spec_op x a)) f1"
    using student_op_spec[OF Cons.prems(1)] Cons.prems(2) by auto
  obtain f2 where "student_ops sys xs f1 = Inr (fst (spec_ops xs (snd (spec_op x a))), f2)"
      "file_rel data (snd (spec_ops xs (snd (spec_op x a)))) f2"
    using Cons.IH[OF f1(2)] Cons.prems(2) by auto
  then show ?case using f1(1) by (auto split: prod.splits)
qed

lemma close_spec:
  assumes "file_rel data a f"
  shows "\<exists>s. io300_close sys f = Inr (0, s) \<and> data s = abytes a"
proof -
  have v: "cache_view data (abytes a) f" "cache_idx f \<le> 8" using assms by (auto simp: file_rel_def)
  show ?thesis using flush_spec[OF v] view_checks[OF v] by (auto simp: io300_close_def)
qed

lemma open_spec:
  assumes "mode_flags mode = Some flags" "os_open p flags = (d, s)" "0 \<le> d" "length junk = 8"
  shows "\<exists>f. io300_open sys os_open True True junk (Some p) mode = Inr (Some f)
    \<and> file_rel data \<lparr>abytes = data s, apos = 0\<rparr> f"
proof -
  obtain e s1 where s1: "sys_lseek_end sys s = (e, s1)" by (cases "sys_lseek_end sys s")
  have e: "e = int (length (data s))" "data s1 = data s" using lseek_end_ok[OF s1] by auto
  obtain r s2 where s2: "sys_lseek sys 0 s1 = (r, s2)" by (cases "sys_lseek sys 0 s1")
  have r: "r = 0" "data s2 = data s" using lseek_ok[OF _ s2] e by auto
  let ?f = "\<lparr>fd = d, cache = junk, cache_pos = 0, cache_idx = 0, cache_valid = min (length (data s)) 8,
    is_dirty = False, file_size = length (data s),
    stats = \<lparr>read_calls = 0, write_calls = 0, seeks = 0\<rparr>, dev = s2\<rparr>"
  have "\<exists>r f'. fetch sys ?f = Inr (r, f') \<and> 0 \<le> r \<and> r = int (cache_valid f') \<and> cache_view data (data s) f' \<and> \<not> is_dirty f'
    \<and> cache_pos f' = cache_pos ?f \<and> cache_idx f' = cache_idx ?f \<and> file_size f' = file_size ?f"
    by (rule fetch_spec) (simp_all add: assms r)
  then obtain k f' where f': "fetch sys ?f = Inr (k, f')" "0 \<le> k" "k = int (cache_valid f')" "cache_view data (data s) f'"
      "cache_pos f' = 0" "cache_idx f' = 0" "file_size f' = length (data s)" by auto
  have "f'\<lparr>cache_valid := nat k\<rparr> = f'" using f'(3) by simp
  then have "io300_open sys os_open True True junk (Some p) mode = Inr (Some f')"
    using assms s1 s2 e(1) r(1) f'(1,2,6) view_checks[OF f'(4)] by (simp add: io300_open_def Let_def)
  then show ?thesis using f' by (simp add: file_rel_def)
qed

end

section \<open>A file open for reading only\<close>

text \<open>As long as nothing is written the cache is clean and no operation calls \<open>write\<close>.\<close>

definition clean_result :: "('a \<times> 'o io300_file) result \<Rightarrow> bool" where
  "clean_result r \<longleftrightarrow> (\<forall>x f. r = Inr (x, f) \<longrightarrow> \<not> is_dirty f)"

lemma clean_bind:
  "clean_result m \<Longrightarrow> (\<And>x f. \<not> is_dirty f \<Longrightarrow> clean_result (g (x, f))) \<Longrightarrow> clean_result (res_bind m g)"
  by (cases m) (auto simp: clean_result_def)

lemma clean_Inr [simp]: "clean_result (Inr (x, f)) \<longleftrightarrow> \<not> is_dirty f"
  by (simp add: clean_result_def)

lemma clean_Inl [simp]: "clean_result (Inl e)"
  by (simp add: clean_result_def)

lemma same_bind:
  "clean_result m \<Longrightarrow> (\<And>x f. \<not> is_dirty f \<Longrightarrow> g (x, f) = h (x, f)) \<Longrightarrow> res_bind m g = res_bind m h"
  by (cases m) (auto simp: clean_result_def)

lemma flush_clean:
  assumes "\<not> is_dirty f"
  shows "flush (sys\<lparr>sys_write := w\<rparr>) f = flush sys f" "clean_result (flush sys f)"
  using assms by (cases "check_invariants f"; simp add: flush_def)+

lemma fetch_clean:
  assumes "\<not> is_dirty f"
  shows "fetch (sys\<lparr>sys_write := w\<rparr>) f = fetch sys f" "clean_result (fetch sys f)"
  using assms by (cases "check_invariants f"; simp add: fetch_def Let_def split: prod.split)+

lemma next_block_clean:
  assumes "\<not> is_dirty f"
  shows "next_block (sys\<lparr>sys_write := w\<rparr>) f = next_block sys f" "clean_result (next_block sys f)"
  unfolding next_block_def Let_def flush_clean(1)[OF assms]
  by (intro same_bind clean_bind flush_clean(2)[OF assms]; simp add: fetch_clean)+

lemma read_clean:
  "\<not> is_dirty f \<Longrightarrow> io300_read n (sys\<lparr>sys_write := w\<rparr>) sz f = io300_read n sys sz f"
  "\<not> is_dirty f \<Longrightarrow> clean_result (io300_read n sys sz f)"
proof (induction n arbitrary: sz f)
  case (Suc n)
  have nb: "next_block (sys\<lparr>sys_write := w\<rparr>) h = next_block sys h" "clean_result (next_block sys h)" if "\<not> is_dirty h" for h
    using next_block_clean[OF that] by simp_all
  {
    case 1
    define g where "g = f\<lparr>stats := (stats f)\<lparr>read_calls := read_calls (stats f) + 1\<rparr>\<rparr>"
    have g: "\<not> is_dirty g" "\<not> is_dirty (g\<lparr>cache_idx := i\<rparr>)" for i using 1 by (simp_all add: g_def)
    show ?case unfolding io300_read.simps Let_def g_def[symmetric] nb(1)[OF g(1)] nb(1)[OF g(2)]
      by (intro arg_cong[where f = "res_bind (check_invariants g)"] ext if_cong refl same_bind[OF nb(2)[OF g(1)]])
        (simp add: Suc.IH(1))
  next
    case 2
    define g where "g = f\<lparr>stats := (stats f)\<lparr>read_calls := read_calls (stats f) + 1\<rparr>\<rparr>"
    have g: "\<not> is_dirty g" "\<not> is_dirty (g\<lparr>cache_idx := i\<rparr>)" for i using 2 by (simp_all add: g_def)
    have b: "clean_result (if P then A else B)" if "clean_result A" "clean_result B" for P and A B :: "('b \<times> 'a io300_file) result"
      using that by simp
    have c: "clean_result (res_bind (check_invariants h) (\<lambda>_. A))" if "clean_result A" for h and A :: "('b \<times> 'a io300_file) result"
      using that by (cases "check_invariants h") simp_all
    show ?case unfolding io300_read.simps Let_def g_def[symmetric]
      by (intro b c clean_bind[OF nb(2)[OF g(1)]] clean_bind[OF nb(2)[OF g(2)]])
        (auto simp: g intro!: clean_bind Suc.IH(2))
  }
qed simp_all

lemma seek_clean:
  assumes "\<not> is_dirty f"
  shows "io300_seek (sys\<lparr>sys_write := w\<rparr>) p f = io300_seek sys p f" "clean_result (io300_seek sys p f)"
proof -
  define g where "g = f\<lparr>stats := (stats f)\<lparr>seeks := seeks (stats f) + 1\<rparr>\<rparr>"
  have g: "\<not> is_dirty g" using assms by (simp add: g_def)
  show "io300_seek (sys\<lparr>sys_write := w\<rparr>) p f = io300_seek sys p f"
    unfolding io300_seek_def Let_def g_def[symmetric] flush_clean(1)[OF g]
    by (cases "check_invariants f") (auto simp: fetch_clean flush_clean(2)[OF g] intro!: same_bind)
  show "clean_result (io300_seek sys p f)"
    unfolding io300_seek_def Let_def g_def[symmetric]
    by (cases "check_invariants f") (auto simp: g fetch_clean flush_clean(2)[OF g] intro!: clean_bind)
qed

lemma student_op_clean:
  assumes "\<not> is_dirty f" "op_fits sys False x a"
  shows "student_op (sys\<lparr>sys_write := w\<rparr>) x f = student_op sys x f" "clean_result (student_op sys x f)"
proof -
  have r: "read_op (sys\<lparr>sys_write := w\<rparr>) n f = read_op sys n f" "clean_result (read_op sys n f)" for n
    using read_clean[OF assms(1)] by (simp_all add: read_op_def)
  show "student_op (sys\<lparr>sys_write := w\<rparr>) x f = student_op sys x f"
    using assms r by (cases x) (simp_all add: seek_clean io300_readc_def)
  have c: "clean_result (io300_readc sys f)"
    by (cases "check_invariants f") (auto simp: io300_readc_def intro!: clean_bind r(2))
  show "clean_result (student_op sys x f)"
    using assms r c by (cases x) (auto intro!: clean_bind seek_clean(2))
qed

lemma student_ops_clean:
  "\<not> is_dirty f \<Longrightarrow> ops_fit sys False xs a \<Longrightarrow> student_ops (sys\<lparr>sys_write := w\<rparr>) xs f = student_ops sys xs f"
  "\<not> is_dirty f \<Longrightarrow> ops_fit sys False xs a \<Longrightarrow> clean_result (student_ops sys xs f)"
proof (induction xs arbitrary: f a)
  case (Cons x xs)
  {
    case 1
    then have x: "op_fits sys False x a" "ops_fit sys False xs (snd (spec_op x a))" by simp_all
    note c = student_op_clean[OF 1(1) x(1)]
    show ?case unfolding student_ops.simps c(1)
      by (rule same_bind[OF c(2)]) (simp add: Cons.IH(1)[OF _ x(2)])
  next
    case 2
    then have x: "op_fits sys False x a" "ops_fit sys False xs (snd (spec_op x a))" by simp_all
    note c = student_op_clean[OF 2(1) x(1)]
    show ?case unfolding student_ops.simps
      by (rule clean_bind[OF c(2)]) (auto intro!: clean_bind Cons.IH(2)[OF _ x(2)])
  }
qed simp_all

lemma open_clean:
  "io300_open (sys\<lparr>sys_write := w\<rparr>) os_open m1 m2 junk p mode = io300_open sys os_open m1 m2 junk p mode"
  by (auto simp: io300_open_def fetch_clean Let_def split: option.split prod.split)

lemma open_not_dirty:
  assumes "io300_open sys os_open m1 m2 junk p mode = Inr (Some f)"
  shows "\<not> is_dirty f"
proof -
  have "fetch sys g = Inr (x, h) \<Longrightarrow> \<not> is_dirty g \<Longrightarrow> \<not> is_dirty h" for g x h
    using fetch_clean(2)[of g sys] by (simp add: clean_result_def)
  then show ?thesis using assms unfolding io300_open_def
    by (auto simp: Let_def res_bind_Inr split: option.splits prod.splits if_splits)
qed

lemma close_clean: "\<not> is_dirty f \<Longrightarrow> io300_close (sys\<lparr>sys_write := w\<rparr>) f = io300_close sys f"
  by (simp add: io300_close_def flush_clean)

end
