(* ===== verification/File_Naive.thy ===== *)
theory File_Naive
  imports File_Student_Facts
begin

text \<open>
  \<open>fileio/impl/naive.c\<close>: the same library without a cache, one system call per operation, and the
  properties of the cached implementation: it cannot be told from the naive one, except that
  \<open>io300_filesize\<close> misses what is still in the cache.
\<close>

section \<open>The naive implementation\<close>

record 'o naive_file =
  nfd :: int
  ndev :: 'o

definition naive_open :: "(string \<Rightarrow> open_flags \<Rightarrow> int \<times> 'o) \<Rightarrow> bool \<Rightarrow> string \<Rightarrow> int \<Rightarrow> 'o naive_file option" where
  "naive_open os_open mem path mode =
     (if \<not> mem then None
      else case mode_flags mode of None \<Rightarrow> None
      | Some flags \<Rightarrow> (case os_open path flags of (d, s) \<Rightarrow>
          if d = - 1 then None else Some \<lparr>nfd = d, ndev = s\<rparr>))"

definition naive_close :: "'o naive_file \<Rightarrow> int \<times> 'o" where
  "naive_close f = (0, ndev f)"

definition naive_filesize :: "'o sys_ops \<Rightarrow> 'o naive_file \<Rightarrow> int" where
  "naive_filesize sys f = (case sys_fstat sys (ndev f) of Some n \<Rightarrow> n | None \<Rightarrow> - 1)"

definition naive_seek :: "'o sys_ops \<Rightarrow> int \<Rightarrow> 'o naive_file \<Rightarrow> int \<times> 'o naive_file" where
  "naive_seek sys pos f = (case sys_lseek sys pos (ndev f) of (r, s) \<Rightarrow> (to_int r, f\<lparr>ndev := s\<rparr>))"

definition naive_readc :: "'o sys_ops \<Rightarrow> 'o naive_file \<Rightarrow> int \<times> 'o naive_file" where
  "naive_readc sys f = (case sys_read sys 1 (ndev f) of ((r, bs), s) \<Rightarrow>
     (if r = 1 then uint (bs ! 0) else - 1, f\<lparr>ndev := s\<rparr>))"

definition naive_writec :: "'o sys_ops \<Rightarrow> int \<Rightarrow> 'o naive_file \<Rightarrow> int \<times> 'o naive_file" where
  "naive_writec sys ch f = (case sys_write sys [word_of_int ch] (ndev f) of (r, s) \<Rightarrow>
     (if r = 1 then ch else - 1, f\<lparr>ndev := s\<rparr>))"

definition naive_read :: "'o sys_ops \<Rightarrow> nat \<Rightarrow> 'o naive_file \<Rightarrow> file_ret \<times> 'o naive_file" where
  "naive_read sys sz f = (case sys_read sys sz (ndev f) of (r, s) \<Rightarrow> (r, f\<lparr>ndev := s\<rparr>))"

definition naive_write :: "'o sys_ops \<Rightarrow> bytes \<Rightarrow> 'o naive_file \<Rightarrow> int \<times> 'o naive_file" where
  "naive_write sys buff f = (case sys_write sys buff (ndev f) of (r, s) \<Rightarrow> (r, f\<lparr>ndev := s\<rparr>))"

fun naive_op :: "'o sys_ops \<Rightarrow> file_op \<Rightarrow> 'o naive_file \<Rightarrow> file_ret \<times> 'o naive_file" where
  "naive_op sys (Seek p) f = (case naive_seek sys p f of (r, f) \<Rightarrow> ((r, []), f))"
| "naive_op sys (Read n) f = naive_read sys n f"
| "naive_op sys (Write bs) f = (case naive_write sys bs f of (r, f) \<Rightarrow> ((r, []), f))"
| "naive_op sys Readc f = (case naive_readc sys f of (r, f) \<Rightarrow> ((r, []), f))"
| "naive_op sys (Writec ch) f = (case naive_writec sys ch f of (r, f) \<Rightarrow> ((r, []), f))"

fun naive_ops :: "'o sys_ops \<Rightarrow> file_op list \<Rightarrow> 'o naive_file \<Rightarrow> file_ret list \<times> 'o naive_file" where
  "naive_ops sys [] f = ([], f)"
| "naive_ops sys (x # xs) f = (let (r, f) = naive_op sys x f; (rs, f) = naive_ops sys xs f in (r # rs, f))"

section \<open>The naive implementation is the abstract file\<close>

context posix_file
begin

lemma naive_op_spec:
  assumes "data (ndev g) = abytes a" "off (ndev g) = apos a" "op_fits sys rw x a"
  shows "\<exists>g'. naive_op sys x g = (fst (spec_op x a), g') \<and> data (ndev g') = abytes (snd (spec_op x a))
    \<and> off (ndev g') = apos (snd (spec_op x a))"
proof (cases x)
  case (Seek p)
  show ?thesis
  proof (cases "p < 0")
    case True
    then show ?thesis using Seek assms lseek_neg[OF True, of "ndev g"] by (simp add: naive_seek_def)
  next
    case False
    obtain r s where s: "sys_lseek sys p (ndev g) = (r, s)" by (cases "sys_lseek sys p (ndev g)")
    then show ?thesis using lseek_ok[OF _ s] False Seek assms by (simp add: naive_seek_def)
  qed
next
  case (Read n)
  obtain r bs s where s: "sys_read sys n (ndev g) = ((r, bs), s)" by (metis surj_pair)
  then show ?thesis using read_ok[OF s] Read assms by (simp add: naive_read_def Let_def)
next
  case (Write bs)
  obtain r s where s: "sys_write sys bs (ndev g) = (r, s)" by (cases "sys_write sys bs (ndev g)")
  then show ?thesis using write_ok[OF s] Write assms by (simp add: naive_write_def)
next
  case Readc
  obtain r bs s where s: "sys_read sys 1 (ndev g) = ((r, bs), s)" by (metis surj_pair)
  show ?thesis
  proof (cases "drop (apos a) (abytes a)")
    case Nil
    then show ?thesis using read_ok[OF s] s Readc assms by (simp add: naive_readc_def)
  next
    case (Cons b cs)
    then show ?thesis using read_ok[OF s] s Readc assms by (simp add: naive_readc_def)
  qed
next
  case (Writec ch)
  obtain r s where s: "sys_write sys [word_of_int ch] (ndev g) = (r, s)"
    by (cases "sys_write sys [word_of_int ch] (ndev g)")
  then show ?thesis using write_ok[OF s] Writec assms by (simp add: naive_writec_def)
qed

lemma naive_ops_spec:
  "data (ndev g) = abytes a \<Longrightarrow> off (ndev g) = apos a \<Longrightarrow> ops_fit sys rw xs a \<Longrightarrow>
    \<exists>g'. naive_ops sys xs g = (fst (spec_ops xs a), g') \<and> data (ndev g') = abytes (snd (spec_ops xs a))"
proof (induction xs arbitrary: a g)
  case Nil
  then show ?case by simp
next
  case (Cons x xs)
  obtain g1 where g1: "naive_op sys x g = (fst (spec_op x a), g1)" "data (ndev g1) = abytes (snd (spec_op x a))"
      "off (ndev g1) = apos (snd (spec_op x a))"
    using naive_op_spec[OF Cons.prems(1,2), where x = x and rw = rw] Cons.prems(3) by auto
  then show ?case using Cons.IH[OF g1(2,3)] Cons.prems(3) by (auto split: prod.splits)
qed

end

text \<open>Without writes the naive operations do not call \<open>write\<close>.\<close>

lemma naive_ops_clean:
  "ops_fit sys False xs a \<Longrightarrow> naive_ops (sys\<lparr>sys_write := w\<rparr>) xs g = naive_ops sys xs g"
proof (induction xs arbitrary: a g)
  case (Cons x xs)
  have "naive_op (sys\<lparr>sys_write := w\<rparr>) x g = naive_op sys x g"
    using Cons.prems by (cases x) (simp_all add: naive_seek_def naive_readc_def naive_read_def)
  moreover obtain r h where "naive_op sys x g = (r, h)" by (cases "naive_op sys x g")
  ultimately show ?case using Cons.IH[of "snd (spec_op x a)" h] Cons.prems by simp
qed simp

lemma ops_fit_readonly: "ops_fit (sys\<lparr>sys_write := w\<rparr>) rw xs a = ops_fit sys rw xs a"
proof (induction xs arbitrary: a)
  case (Cons x xs)
  have "op_fits (sys\<lparr>sys_write := w\<rparr>) rw x a = op_fits sys rw x a" by (cases x) simp_all
  then show ?case using Cons by simp
qed simp

section \<open>Properties\<close>

lemma disk_ops_readonly: "disk_ops room frames False = (disk_ops room frames True)\<lparr>sys_write := \<lambda>bs s. (- 1, s)\<rparr>"
  by (simp add: disk_ops_def)

lemma op_fits_mode: "op_fits sys False x a \<Longrightarrow> op_fits sys' True x a"
  if "stack_room sys' = stack_room sys" "stack_frames sys' = stack_frames sys" for sys :: "'o sys_ops" and sys' :: "'p sys_ops"
  using that by (cases x) simp_all

lemma ops_fit_mode: "ops_fit (disk_ops r n rw) rw xs a \<Longrightarrow> ops_fit (disk_ops r n True) True xs a"
proof (induction xs arbitrary: a)
  case (Cons x xs)
  then have "op_fits (disk_ops r n True) True x a"
    by (cases rw) (auto intro: op_fits_mode[where sys = "disk_ops r n False"])
  then show ?case using Cons by simp
qed simp

lemma same_rw:
  assumes "ops_fit (disk_ops room frames True) True ops \<lparr>abytes = disk_data s, apos = 0\<rparr>" "mode_flags mode = Some flags" "os_open p flags = (d, s)" "0 \<le> d"
    "disk_off s = 0" "length junk = 8"
  shows "\<exists>f f' g' s' rs. io300_open (disk_ops room frames True) os_open True True junk (Some p) mode = Inr (Some f)
    \<and> student_ops (disk_ops room frames True) ops f = Inr (rs, f') \<and> naive_ops (disk_ops room frames True) ops \<lparr>nfd = d, ndev = s\<rparr> = (rs, g')
    \<and> io300_close (disk_ops room frames True) f' = Inr (0, s') \<and> disk_data s' = disk_data (ndev g')"
proof -
  let ?a = "\<lparr>abytes = disk_data s, apos = 0\<rparr>" and ?sys = "disk_ops room frames True"
  obtain f where f: "io300_open ?sys os_open True True junk (Some p) mode = Inr (Some f)"
      "file_rel disk_data ?a f"
    using dk.open_spec[of mode flags os_open p d s junk, OF assms(2,3,4,6)] by blast
  obtain f' where f': "student_ops ?sys ops f = Inr (fst (spec_ops ops ?a), f')"
      "file_rel disk_data (snd (spec_ops ops ?a)) f'"
    using dk.student_ops_spec[OF f(2) assms(1)] by blast
  obtain s' where s': "io300_close ?sys f' = Inr (0, s')" "disk_data s' = abytes (snd (spec_ops ops ?a))"
    using dk.close_spec[OF f'(2)] by blast
  let ?g = "\<lparr>nfd = d, ndev = s\<rparr>"
  obtain g' where "naive_ops ?sys ops ?g = (fst (spec_ops ops ?a), g')"
      "disk_data (ndev g') = abytes (snd (spec_ops ops ?a))"
    using dk.naive_ops_spec[of ?g ?a _ _ True ops] assms(1,5) by auto
  then show ?thesis using f(1) f'(1) s' by metis
qed

text \<open>
  C6. The cached implementation cannot be told from the naive one. Both open the same file in the same mode and
  are given the same operations: seeks and reads, and in the modes that open for writing also writes. When the
  operations fit (no write is empty, no array for a hole is empty or larger than the stack has room for,
  sizes are within what one system call moves), both return the same numbers and the same
  bytes, whatever the cache held before, and when the cached file is closed, the disk holds the
  same bytes as after the naive operations.
\<close>

theorem student_same_as_naive:
  assumes "mode_flags mode = Some flags" "os_open p flags = (d, s)" "0 \<le> d" "disk_off s = 0" "length junk = 8"
    "sys = disk_ops room frames (flags \<noteq> ReadOnly)"
    "ops_fit sys (flags \<noteq> ReadOnly) ops \<lparr>abytes = disk_data s, apos = 0\<rparr>"
  shows "\<exists>f g f' g' s' rs. io300_open sys os_open True True junk (Some p) mode = Inr (Some f)
    \<and> naive_open os_open True p mode = Some g
    \<and> student_ops sys ops f = Inr (rs, f') \<and> naive_ops sys ops g = (rs, g')
    \<and> io300_close sys f' = Inr (0, s') \<and> disk_data s' = disk_data (ndev g')"
proof -
  let ?rw = "disk_ops room frames True" and ?g = "\<lparr>nfd = d, ndev = s\<rparr>"
  have g: "naive_open os_open True p mode = Some ?g" using assms(1-3) by (simp add: naive_open_def)
  obtain f f' g' s' rs where r: "io300_open ?rw os_open True True junk (Some p) mode = Inr (Some f)"
    "student_ops ?rw ops f = Inr (rs, f')" "naive_ops ?rw ops ?g = (rs, g')"
    "io300_close ?rw f' = Inr (0, s')" "disk_data s' = disk_data (ndev g')"
    using same_rw[of room frames ops s mode flags os_open p d junk, OF ops_fit_mode[OF assms(7)[unfolded assms(6)]] assms(1-5)] by blast
  show ?thesis
  proof (cases "flags = ReadOnly")
    case False
    then have "sys = ?rw" using assms(6) by simp
    then show ?thesis using g r by blast
  next
    case True
    define w where "w = (\<lambda>(bs :: bytes) (s :: disk). (- 1 :: int, s))"
    have sys: "sys = ?rw\<lparr>sys_write := w\<rparr>" using True assms(6) by (simp add: disk_ops_readonly w_def)
    have fit: "ops_fit ?rw False ops \<lparr>abytes = disk_data s, apos = 0\<rparr>"
      using assms(7) True unfolding sys ops_fit_readonly by simp
    have clean: "\<not> is_dirty f" using open_not_dirty[OF r(1)] .
    then have "\<not> is_dirty f'" using student_ops_clean(2)[OF clean fit] r(2) by (simp add: clean_result_def)
    then show ?thesis
      using g r unfolding sys
      by (metis open_clean student_ops_clean(1)[OF clean fit] naive_ops_clean[OF fit] close_clean)
  qed
qed

theorem student_same_as_naive_witness:
  "\<exists>f g f' g' s' rs. io300_open (disk_ops 4096 100 True) (\<lambda>p m. (3, \<lparr>disk_data = [1, 2, 3], disk_off = 0\<rparr>)) True True
      (replicate 8 7) (Some ''f'') 3 = Inr (Some f)
    \<and> naive_open (\<lambda>p m. (3, \<lparr>disk_data = [1, 2, 3], disk_off = 0\<rparr>)) True ''f'' 3 = Some g
    \<and> student_ops (disk_ops 4096 100 True) [Seek 20, Write [5, 6], Seek 2, Read 30] f = Inr (rs, f')
    \<and> naive_ops (disk_ops 4096 100 True) [Seek 20, Write [5, 6], Seek 2, Read 30] g = (rs, g')
    \<and> io300_close (disk_ops 4096 100 True) f' = Inr (0, s') \<and> disk_data s' = disk_data (ndev g')"
  by (rule student_same_as_naive[where flags = ReadWrite and d = 3 and room = 4096 and frames = 100
        and s = "\<lparr>disk_data = [1, 2, 3], disk_off = 0\<rparr>"])
    (simp_all add: mode_flags_def hole_fits_def io_max_def Let_def)

text \<open>
  On a file that is open for reading only the two differ: the cached implementation reports the write as done and
  shows it to the next read, and \<open>io300_close\<close> returns 0 although the byte is lost; the naive implementation
  returns -1 for the write.
\<close>

lemma readonly_write_is_lost:
  "(case io300_open (disk_ops 4096 100 False) (\<lambda>p m. (3, \<lparr>disk_data = [1, 2, 3], disk_off = 0\<rparr>)) True True (replicate 8 7) (Some ''f'') 1 of
      Inr (Some f) \<Rightarrow>
        (case student_ops (disk_ops 4096 100 False) [Write [9], Seek 0, Read 3] f of
           Inr (rs, f') \<Rightarrow> rs = [(1, []), (0, []), (3, [9, 2, 3])] \<and>
             (case io300_close (disk_ops 4096 100 False) f' of Inr (r, s) \<Rightarrow> r = 0 \<and> disk_data s = [1, 2, 3] | _ \<Rightarrow> False)
         | _ \<Rightarrow> False)
    | _ \<Rightarrow> False)
    \<and> fst (naive_ops (disk_ops 4096 100 False) [Write [9], Seek 0, Read 3] \<lparr>nfd = 3, ndev = \<lparr>disk_data = [1, 2, 3], disk_off = 0\<rparr>\<rparr>)
      = [(- 1, []), (0, []), (3, [1, 2, 3])]"
  by code_simp

text \<open>
  With the file ending where the block begins, the array for the hole has no elements, which C does not
  allow: writing behind the end of an empty file is undefined, as the sanitizer of the \<open>Makefile\<close> reports.
\<close>

lemma empty_hole_undefined:
  assumes "file_rel data a f" "abytes a = []" "0 < apos a" "apos a < 8" "0 < stack_frames sys"
    "\<And>s. 0 \<le> fst (sys_lseek sys 0 s)"
  shows "write_op sys buff f = Inl (UndefinedBehaviour ''char temp[bytes_to_fill]'')"
proof -
  obtain n where n: "stack_frames sys = Suc n" using assms(5) by (cases "stack_frames sys") auto
  have v: "cache_view data [] f" "cache_idx f < 8" "apos a = cache_pos f + cache_idx f" "file_size f = 0"
    using assms(1,2) by (auto simp: file_rel_def)
  then have p: "cache_pos f = 0" using assms(4) by (auto simp: cache_view_def)
  have ck: "check_invariants (f\<lparr>stats := st\<rparr>) = Inr ()" for st
    by (rule view_checks[OF view_cong[OF v(1)]]) (use v(2) in simp_all)
  obtain r s where s: "sys_lseek sys 0 (dev f) = (r, s)" by (cases "sys_lseek sys 0 (dev f)")
  then have "\<not> r < 0" using assms(6)[of "dev f"] by simp
  then show ?thesis
    using v p assms(3) s by (simp add: write_op_def n Let_def ck fill_hole_def)
qed

text \<open>
  \<open>io300_filesize\<close> misses the cache: when the file is in step with the disk and a byte is written
  behind its end without filling the block, the file has grown but \<open>io300_filesize\<close> still returns the
  old size.
\<close>

theorem filesize_misses_cache:
  assumes "file_rel disk_data a f" "\<not> is_dirty f" "apos a = length (abytes a)" "apos a mod 8 \<noteq> 7"
    "0 \<le> ch" "ch < 256" "1 < frames"
  shows "\<exists>f'. io300_writec (disk_ops room frames True) ch f = Inr (ch, f')
    \<and> file_rel disk_data \<lparr>abytes = abytes a @ [word_of_int ch], apos = apos a + 1\<rparr> f'
    \<and> io300_filesize (disk_ops room frames True) f' = Inr (int (length (abytes a)))"
proof -
  let ?c = "word_of_int ch :: u8"
  have v: "cache_view disk_data (abytes a) f" and i: "cache_idx f < 8" and fs: "file_size f = length (abytes a)"
    and P: "apos a = cache_pos f + cache_idx f" using assms(1) by (auto simp: file_rel_def)
  have D: "disk_data (dev f) = abytes a" using v assms(2) by (simp add: cache_view_def)
  have "cache_pos f mod 8 = 0" using v by (simp add: cache_view_def)
  then have i7: "Suc (cache_idx f) < 8" using assms(4) i P by presburger
  have ck: "check_invariants f = Inr ()" using view_checks[OF v] i by simp
  have u: "uint ?c = ch" using assms(5,6) by (simp add: unsigned_of_int take_bit_int_eq_self)
  obtain f' where f': "write_op (disk_ops room frames True) [?c] f = Inr (1, f')"
      "file_rel disk_data \<lparr>abytes = abytes a @ [?c], apos = apos a + 1\<rparr> f'"
    using dk.write_spec[OF assms(1), of "[?c]" room frames] assms(3,7) by (auto simp: splice_inside hole_fits_def)
  let ?f = "f\<lparr>stats := (stats f)\<lparr>write_calls := write_calls (stats f) + 1\<rparr>\<rparr>"
  have "fill_hole (disk_ops room frames True) ?f = Inr (0, ?f)" using fs P assms(3) by (simp add: fill_hole_def)
  moreover obtain n where n: "frames = Suc n" using assms(7) by (cases frames) auto
  ultimately have "write_op (disk_ops room frames True) [?c] f = write_rest n (disk_ops room frames True) [?c] ?f"
    using dk.io300_write_step[OF v i, of n room frames "[?c]"] by (simp add: write_op_def)
  then have "dev f' = dev f"
    using f'(1) i7 by (auto simp: write_rest_def write_block_part_def Let_def split: if_splits)
  moreover have "check_invariants f' = Inr ()"
    using view_checks f'(2) by (force simp: file_rel_def)
  ultimately have "io300_filesize (disk_ops room frames True) f' = Inr (int (length (abytes a)))"
    using D dk.fstat_ok by (simp add: io300_filesize_def)
  moreover have "io300_writec (disk_ops room frames True) ch f = Inr (ch, f')" using f'(1) ck u by (simp add: io300_writec_def)
  ultimately show ?thesis using f'(2) by blast
qed

theorem filesize_misses_cache_witness:
  "\<exists>f f'. io300_writec (disk_ops 0 2 True) 65 f = Inr (65, f') \<and> io300_filesize (disk_ops 0 2 True) f' = Inr 0"
proof -
  let ?f = "\<lparr>fd = 3, cache = replicate 8 0, cache_pos = 0, cache_idx = 0, cache_valid = 0, is_dirty = False,
    file_size = 0, stats = \<lparr>read_calls = 0, write_calls = 0, seeks = 0\<rparr>,
    dev = \<lparr>disk_data = [], disk_off = 0\<rparr>\<rparr>"
  have "file_rel disk_data \<lparr>abytes = [], apos = 0\<rparr> ?f" by (simp add: file_rel_def cache_view_def)
  from filesize_misses_cache[OF this, of 65 2 0] show ?thesis by auto
qed

end
