(* ===== verification/Snake_List.thy ===== *)
theory Snake_List
  imports Prelude
begin

text \<open>
  The doubly linked list of the snake game, \<open>snake/src/linked_list.c\<close>, over a heap of nodes: an
  address is allocated when the heap has a node for it, and following a null or a dangling pointer
  is undefined. The loops follow pointers and need not end on a cyclic heap: they are partial
  functions, \<open>None\<close> standing for a loop that goes on for ever. What \<open>malloc\<close> returns is an argument, and so is
  the memory the data pointers refer to. The variable \<open>*head_list\<close> is part of the state; the pointer to it is
  never null.
\<close>

section \<open>Nodes and the heap\<close>

type_synonym addr = nat

text \<open>A \<open>void*\<close>: \<open>None\<close> is the null pointer.\<close>

type_synonym 'd ptr = "'d option"

record 'd node =
  node_data :: "'d ptr"
  node_next :: "addr option"
  node_prev :: "addr option"

type_synonym 'd nheap = "addr \<Rightarrow> 'd node option"

definition deref :: "'d nheap \<Rightarrow> addr option \<Rightarrow> 'd node result" where
  "deref h p = (case p of None \<Rightarrow> Inl (UndefinedBehaviour ''null pointer'')
     | Some a \<Rightarrow> (case h a of None \<Rightarrow> Inl (UndefinedBehaviour ''dangling pointer'') | Some n \<Rightarrow> Inr n))"

definition set_next :: "addr option \<Rightarrow> addr option \<Rightarrow> 'd nheap \<Rightarrow> 'd nheap result" where
  "set_next p q h = res_bind (deref h p) (\<lambda>n. Inr (h(the p \<mapsto> n\<lparr>node_next := q\<rparr>)))"

definition set_prev :: "addr option \<Rightarrow> addr option \<Rightarrow> 'd nheap \<Rightarrow> 'd nheap result" where
  "set_prev p q h = res_bind (deref h p) (\<lambda>n. Inr (h(the p \<mapsto> n\<lparr>node_prev := q\<rparr>)))"

text \<open>The sequencing of computations that may fail or not end.\<close>

definition run_bind :: "'a result option \<Rightarrow> ('a \<Rightarrow> 'b result option) \<Rightarrow> 'b result option" where
  "run_bind m f = (case m of None \<Rightarrow> None | Some (Inl e) \<Rightarrow> Some (Inl e) | Some (Inr x) \<Rightarrow> f x)"

lemma run_bind_simps [simp]:
  "run_bind (Some (Inr x)) f = f x" "run_bind (Some (Inl e)) f = Some (Inl e)" "run_bind None f = None"
  by (simp_all add: run_bind_def)

section \<open>The operations\<close>

partial_function (option) length_loop :: "'d nheap \<Rightarrow> addr option \<Rightarrow> int \<Rightarrow> int result option" where
  "length_loop h current len = (case current of None \<Rightarrow> Some (Inr len)
     | Some a \<Rightarrow> if len = INT_MAX then Some (Inl (UndefinedBehaviour ''signed overflow''))
        else (case deref h (Some a) of Inl e \<Rightarrow> Some (Inl e)
        | Inr n \<Rightarrow> length_loop h (node_next n) (len + 1)))"

definition ll_length :: "'d nheap \<Rightarrow> addr option \<Rightarrow> int result option" where
  "ll_length h head_list = (if head_list = None then Some (Inr 0) else length_loop h head_list 0)"

definition ll_get_first :: "'d nheap \<Rightarrow> addr option \<Rightarrow> 'd ptr result" where
  "ll_get_first h head_list = (if head_list = None then Inr None
     else res_bind (deref h head_list) (\<lambda>n. Inr (node_data n)))"

text \<open>The loops that go to the last node.\<close>

partial_function (option) last_loop :: "'d nheap \<Rightarrow> addr \<Rightarrow> addr result option" where
  "last_loop h a = (case deref h (Some a) of Inl e \<Rightarrow> Some (Inl e)
     | Inr n \<Rightarrow> (case node_next n of None \<Rightarrow> Some (Inr a) | Some b \<Rightarrow> last_loop h b))"

definition ll_get_last :: "'d nheap \<Rightarrow> addr option \<Rightarrow> 'd ptr result option" where
  "ll_get_last h head_list = (case head_list of None \<Rightarrow> Some (Inr None)
     | Some a \<Rightarrow> run_bind (last_loop h a) (\<lambda>l. Some (res_bind (deref h (Some l)) (\<lambda>n. Inr (node_data n)))))"

definition ll_insert_first ::
  "addr option \<Rightarrow> 'd ptr \<Rightarrow> 'd nheap \<times> addr option \<Rightarrow> ('d nheap \<times> addr option) result" where
  "ll_insert_first new to_add s = (case s of (h, head_list) \<Rightarrow> (case new of None \<Rightarrow> Inr s
     | Some a \<Rightarrow>
         let h = h(a \<mapsto> \<lparr>node_data = to_add, node_next = head_list, node_prev = None\<rparr>)
         in if head_list \<noteq> None
            then res_bind (set_prev head_list (Some a) h) (\<lambda>h. Inr (h, Some a))
            else Inr (h, Some a)))"

text \<open>\<open>ll_insert_last\<close> does not look whether \<open>malloc\<close> failed.\<close>

definition ll_insert_last ::
  "addr option \<Rightarrow> 'd ptr \<Rightarrow> 'd nheap \<times> addr option \<Rightarrow> ('d nheap \<times> addr option) result option" where
  "ll_insert_last new to_add s = (case s of (h, head_list) \<Rightarrow>
     if to_add = None then Some (Inr s)
     else case new of None \<Rightarrow> Some (Inl (UndefinedBehaviour ''null pointer''))
     | Some a \<Rightarrow>
         let h = h(a \<mapsto> \<lparr>node_data = to_add, node_next = None, node_prev = None\<rparr>)
         in case head_list of None \<Rightarrow> Some (Inr (h, Some a))
            | Some b \<Rightarrow> run_bind (last_loop h b) (\<lambda>cur. Some (
                res_bind (set_next (Some cur) (Some a) h) (\<lambda>h.
                res_bind (set_prev (Some a) (Some cur) h) (\<lambda>h. Inr (h, head_list))))))"

partial_function (option) get_loop :: "'d nheap \<Rightarrow> addr option \<Rightarrow> int \<Rightarrow> 'd ptr result option" where
  "get_loop h cur index = (case cur of None \<Rightarrow> Some (Inr None)
     | Some a \<Rightarrow> (case deref h (Some a) of Inl e \<Rightarrow> Some (Inl e)
        | Inr n \<Rightarrow> if index = 0 then Some (Inr (node_data n)) else get_loop h (node_next n) (index - 1)))"

definition ll_get :: "'d nheap \<Rightarrow> addr option \<Rightarrow> int \<Rightarrow> 'd ptr result option" where
  "ll_get h head_list index = (if index < 0 then Some (Inr None) else get_loop h head_list index)"

text \<open>
  \<open>memcmp (p, q, len) == 0\<close>: \<open>m d\<close> are the bytes that can be read from \<open>d\<close> on. A null pointer and a read behind
  these bytes are undefined.
\<close>

definition readable :: "('d \<Rightarrow> bytes) \<Rightarrow> nat \<Rightarrow> 'd ptr \<Rightarrow> bool" where
  "readable m len p \<longleftrightarrow> (case p of None \<Rightarrow> False | Some d \<Rightarrow> len \<le> length (m d))"

definition same_bytes :: "('d \<Rightarrow> bytes) \<Rightarrow> nat \<Rightarrow> 'd ptr \<Rightarrow> 'd ptr \<Rightarrow> bool" where
  "same_bytes m len p q \<longleftrightarrow> take len (m (the p)) = take len (m (the q))"

definition memcmp_eq :: "('d \<Rightarrow> bytes) \<Rightarrow> 'd ptr \<Rightarrow> 'd ptr \<Rightarrow> nat \<Rightarrow> bool result" where
  "memcmp_eq m p q len =
     (if readable m len p \<and> readable m len q then Inr (same_bytes m len p q)
      else Inl (UndefinedBehaviour ''memcmp''))"

definition unlink :: "addr \<Rightarrow> 'd node \<Rightarrow> 'd nheap \<times> addr option \<Rightarrow> ('d nheap \<times> addr option) result" where
  "unlink a n s = (case s of (h, head_list) \<Rightarrow>
     res_bind (if node_next n \<noteq> None then set_prev (node_next n) (node_prev n) h else Inr h) (\<lambda>h.
     res_bind (if head_list = Some a then Inr (h, node_next n)
               else res_bind (set_next (node_prev n) (node_next n) h) (\<lambda>h. Inr (h, head_list))) (\<lambda>(h, head_list).
     Inr (h(a := None), head_list))))"

partial_function (option) remove_loop ::
  "('d \<Rightarrow> bytes) \<Rightarrow> 'd ptr \<Rightarrow> nat \<Rightarrow> addr option \<Rightarrow> 'd nheap \<times> addr option \<Rightarrow> ('d ptr \<times> 'd nheap \<times> addr option) result option" where
  "remove_loop m to_remove len cur s = (case cur of None \<Rightarrow> Some (Inr (None, s))
     | Some a \<Rightarrow> (case deref (fst s) (Some a) of Inl e \<Rightarrow> Some (Inl e)
        | Inr n \<Rightarrow> (case memcmp_eq m (node_data n) to_remove len of Inl e \<Rightarrow> Some (Inl e)
           | Inr same \<Rightarrow> if same
                   then Some (res_bind (unlink a n s) (\<lambda>s. Inr (node_data n, s)))
                   else remove_loop m to_remove len (node_next n) s)))"

definition ll_remove_element ::
  "('d \<Rightarrow> bytes) \<Rightarrow> 'd ptr \<Rightarrow> nat \<Rightarrow> 'd nheap \<times> addr option \<Rightarrow> ('d ptr \<times> 'd nheap \<times> addr option) result option" where
  "ll_remove_element m to_remove len s =
     (if snd s = None then Some (Inr (None, s)) else remove_loop m to_remove len (snd s) s)"

partial_function (option) reverse_loop ::
  "addr option \<Rightarrow> addr option \<Rightarrow> 'd nheap \<times> addr option \<Rightarrow> ('d nheap \<times> addr option) result option" where
  "reverse_loop cur placeholder s = (case cur of None \<Rightarrow> Some (Inr s)
     | Some a \<Rightarrow> (case deref (fst s) (Some a) of Inl e \<Rightarrow> Some (Inl e)
        | Inr n \<Rightarrow> reverse_loop (node_next n) (Some a)
            ((fst s)(a \<mapsto> n\<lparr>node_prev := node_next n, node_next := placeholder\<rparr>),
             if node_next n = None then Some a else snd s)))"

definition reverse_helper :: "'d nheap \<times> addr option \<Rightarrow> ('d nheap \<times> addr option) result option" where
  "reverse_helper s = (case snd s of None \<Rightarrow> Some (Inr s)
     | Some a \<Rightarrow> (case deref (fst s) (Some a) of Inl e \<Rightarrow> Some (Inl e)
        | Inr n \<Rightarrow> if node_next n \<noteq> None then reverse_loop (Some a) None s else Some (Inr s)))"

definition ll_reverse :: "'d nheap \<times> addr option \<Rightarrow> ('d nheap \<times> addr option) result option" where
  "ll_reverse s = reverse_helper s"

definition ll_remove_first :: "'d nheap \<times> addr option \<Rightarrow> ('d ptr \<times> 'd nheap \<times> addr option) result" where
  "ll_remove_first s = (case s of (h, head_list) \<Rightarrow> (case head_list of None \<Rightarrow> Inr (None, s)
     | Some a \<Rightarrow> res_bind (deref h (Some a)) (\<lambda>n.
         res_bind (if node_next n \<noteq> None then set_prev (node_next n) None h else Inr h) (\<lambda>h.
         Inr (node_data n, h(a := None), node_next n)))))"

definition ll_remove_last :: "'d nheap \<times> addr option \<Rightarrow> ('d ptr \<times> 'd nheap \<times> addr option) result option" where
  "ll_remove_last s = (case s of (h, head_list) \<Rightarrow> (case head_list of None \<Rightarrow> Some (Inr (None, s))
     | Some a \<Rightarrow> (case deref h (Some a) of Inl e \<Rightarrow> Some (Inl e)
        | Inr n \<Rightarrow> if node_next n = None then Some (Inr (node_data n, h(a := None), None))
            else run_bind (last_loop h a) (\<lambda>cur. Some (
              res_bind (deref h (Some cur)) (\<lambda>m.
              res_bind (set_next (node_prev m) None h) (\<lambda>h.
              Inr (node_data m, h(cur := None), head_list))))))))"

section \<open>Lists in the heap\<close>

text \<open>The nodes from \<open>p\<close> on, the first one's predecessor being \<open>pv\<close>.\<close>

fun dlist :: "'d nheap \<Rightarrow> addr option \<Rightarrow> addr option \<Rightarrow> (addr \<times> 'd ptr) list \<Rightarrow> bool" where
  "dlist h pv p [] \<longleftrightarrow> p = None"
| "dlist h pv p ((a, d) # xs) \<longleftrightarrow> p = Some a \<and>
     (case h a of None \<Rightarrow> False
      | Some n \<Rightarrow> node_data n = d \<and> node_prev n = pv \<and> dlist h (Some a) (node_next n) xs)"

definition holds_list :: "'d nheap \<times> addr option \<Rightarrow> 'd ptr list \<Rightarrow> bool" where
  "holds_list s ds \<longleftrightarrow> (\<exists>xs. dlist (fst s) None (snd s) xs \<and> distinct (map fst xs) \<and> map snd xs = ds)"

lemma dlist_cong: "(\<And>a d. (a, d) \<in> set xs \<Longrightarrow> h' a = h a) \<Longrightarrow> dlist h' pv p xs = dlist h pv p xs"
proof (induction xs arbitrary: pv p)
  case Nil
  then show ?case by simp
next
  case (Cons x xs)
  obtain a d where x: "x = (a, d)" by (cases x)
  have "h' a = h a" using Cons.prems x by auto
  moreover have "dlist h' q r xs = dlist h q r xs" for q r by (rule Cons.IH) (use Cons.prems in auto)
  ultimately show ?case by (simp add: x split: option.split)
qed

lemma dlist_upd [simp]: "a \<notin> fst ` set xs \<Longrightarrow> dlist (h(a := v)) pv p xs = dlist h pv p xs"
  by (rule dlist_cong) (auto simp: rev_image_eqI)

lemma dlist_None [simp]: "dlist h pv None xs \<longleftrightarrow> xs = []"
  by (cases xs) auto

lemma dlist_Some: "dlist h pv p xs \<Longrightarrow> p = (case xs of [] \<Rightarrow> None | (a, d) # _ \<Rightarrow> Some a)"
  by (cases xs) auto

lemma dlist_alloc: "dlist h pv p xs \<Longrightarrow> (a, d) \<in> set xs \<Longrightarrow> h a \<noteq> None"
  by (induction xs arbitrary: pv p) (auto split: option.splits)

lemma dlist_fresh: "dlist h pv p xs \<Longrightarrow> h a = None \<Longrightarrow> a \<notin> fst ` set xs"
  using dlist_alloc by fastforce

text \<open>Changing the predecessor of the first node.\<close>

lemma dlist_set_prev:
  "dlist h pv (Some a) ((a, d) # xs) \<Longrightarrow> a \<notin> fst ` set xs \<Longrightarrow>
    \<exists>h'. set_prev (Some a) q h = Inr h' \<and> dlist h' q (Some a) ((a, d) # xs) \<and> (\<forall>b. b \<noteq> a \<longrightarrow> h' b = h b)"
  by (auto simp: set_prev_def deref_def split: option.splits)

lemma length_loop_dlist: "dlist h pv p xs \<Longrightarrow> n \<le> INT_MAX \<Longrightarrow>
  length_loop h p n = Some (if n + int (length xs) \<le> INT_MAX then Inr (n + int (length xs)) else Inl (UndefinedBehaviour ''signed overflow''))"
proof (induction xs arbitrary: pv p n)
  case Nil
  then show ?case by (subst length_loop.simps) simp
next
  case (Cons x xs)
  obtain a d where x: "x = (a, d)" by (cases x)
  obtain m where m: "h a = Some m" "p = Some a" "dlist h (Some a) (node_next m) xs"
    using Cons.prems(1) x by (auto split: option.splits)
  show ?case
  proof (cases "n = INT_MAX")
    case True
    then show ?thesis using m(2) by (subst length_loop.simps) simp
  next
    case False
    then show ?thesis using Cons.IH[OF m(3), of "n + 1"] Cons.prems(2) m(1,2)
      by (subst length_loop.simps) (auto simp: deref_def add.commute add.left_commute)
  qed
qed

lemma last_loop_dlist:
  "dlist h pv (Some a) ((a, d) # xs) \<Longrightarrow> last_loop h a = Some (Inr (fst (last ((a, d) # xs))))"
proof (induction xs arbitrary: pv a d)
  case Nil
  then show ?case by (subst last_loop.simps) (auto simp: deref_def split: option.splits)
next
  case (Cons x xs)
  obtain b e where x: "x = (b, e)" by (cases x)
  obtain m where m: "h a = Some m" "node_next m = Some b" "dlist h (Some a) (Some b) (x # xs)"
    using Cons.prems x by (auto split: option.splits)
  show ?case using Cons.IH[of "Some a" b e] m x
    by (subst last_loop.simps) (simp add: deref_def)
qed

lemma get_loop_dlist:
  "dlist h pv p xs \<Longrightarrow> 0 \<le> i \<Longrightarrow>
    get_loop h p i = Some (Inr (if nat i < length xs then snd (xs ! nat i) else None))"
proof (induction xs arbitrary: pv p i)
  case Nil
  then show ?case by (subst get_loop.simps) simp
next
  case (Cons x xs)
  obtain a d where x: "x = (a, d)" by (cases x)
  obtain m where m: "h a = Some m" "p = Some a" "dlist h (Some a) (node_next m) xs" "node_data m = d"
    using Cons.prems(1) x by (auto split: option.splits)
  show ?case
  proof (cases "i = 0")
    case True
    then show ?thesis using m x by (subst get_loop.simps) (simp add: deref_def)
  next
    case False
    then obtain j where j: "nat i = Suc j" "nat (i - 1) = j" using Cons.prems(2) by (cases "nat i") auto
    then show ?thesis using Cons.IH[OF m(3), of "i - 1"] False Cons.prems(2) m(1,2)
      by (subst get_loop.simps) (simp add: deref_def)
  qed
qed

lemma last_node:
  "dlist h pv p xs \<Longrightarrow> xs \<noteq> [] \<Longrightarrow> \<exists>n. h (fst (last xs)) = Some n \<and> node_data n = snd (last xs)
    \<and> node_next n = None \<and> node_prev n = (if length xs = 1 then pv else Some (fst (last (butlast xs))))"
proof (induction xs arbitrary: pv p)
  case Nil
  then show ?case by simp
next
  case (Cons x xs)
  obtain a d where x: "x = (a, d)" by (cases x)
  obtain m where m: "h a = Some m" "dlist h (Some a) (node_next m) xs" "node_data m = d" "node_prev m = pv"
    using Cons.prems(1) x by (auto split: option.splits)
  show ?case
  proof (cases xs)
    case Nil
    then show ?thesis using m x by simp
  next
    case (Cons y ys)
    then show ?thesis using Cons.IH[OF m(2)] x by (cases ys) auto
  qed
qed

section \<open>Segments\<close>

text \<open>The nodes from \<open>p\<close> to \<open>r\<close>, which is not part of them.\<close>

fun dseg :: "'d nheap \<Rightarrow> addr option \<Rightarrow> addr option \<Rightarrow> (addr \<times> 'd ptr) list \<Rightarrow> addr option \<Rightarrow> bool" where
  "dseg h pv p [] r \<longleftrightarrow> p = r"
| "dseg h pv p ((a, d) # xs) r \<longleftrightarrow> p = Some a \<and>
     (case h a of None \<Rightarrow> False
      | Some n \<Rightarrow> node_data n = d \<and> node_prev n = pv \<and> dseg h (Some a) (node_next n) xs r)"

lemma dlist_dseg: "dlist h pv p xs = dseg h pv p xs None"
  by (induction h pv p xs rule: dlist.induct) (auto split: option.split)

definition end_of :: "addr option \<Rightarrow> (addr \<times> 'd ptr) list \<Rightarrow> addr option" where
  "end_of pv xs = (if xs = [] then pv else Some (fst (last xs)))"

lemma end_of_simps [simp]: "end_of pv [] = pv" "end_of pv (x # xs) = end_of (Some (fst x)) xs"
  by (simp_all add: end_of_def)

lemma dseg_append:
  "dseg h pv p (xs @ ys) r \<longleftrightarrow> (\<exists>q. dseg h pv p xs q \<and> dseg h (end_of pv xs) q ys r)"
proof (induction xs arbitrary: pv p)
  case Nil
  then show ?case by simp
next
  case (Cons x xs)
  then show ?case by (cases x) (auto split: option.split)
qed

lemma dseg_upd [simp]: "a \<notin> fst ` set xs \<Longrightarrow> dseg (h(a := v)) pv p xs r = dseg h pv p xs r"
proof (induction xs arbitrary: pv p)
  case Nil
  then show ?case by simp
next
  case (Cons x xs)
  then show ?case by (cases x) (auto split: option.split)
qed

lemma dseg_set_next:
  assumes "dseg h pv p xs q" "xs \<noteq> []" "distinct (map fst xs)" "h (fst (last xs)) = Some n"
  shows "dseg (h(fst (last xs) \<mapsto> n\<lparr>node_next := q'\<rparr>)) pv p xs q'"
proof -
  obtain ys a d where xs: "xs = ys @ [(a, d)]" using assms(2) by (metis rev_exhaust surj_pair)
  then have "a \<notin> fst ` set ys" using assms(3) by auto
  then show ?thesis using assms(1,4) xs by (auto simp: dseg_append)
qed

section \<open>The operations on lists in the heap\<close>

lemma holdsE:
  assumes "holds_list (h, p) ds"
  obtains xs where "dlist h None p xs" "distinct (map fst xs)" "map snd xs = ds"
  using assms by (auto simp: holds_list_def)

lemma holdsI: "dlist h None p xs \<Longrightarrow> distinct (map fst xs) \<Longrightarrow> map snd xs = ds \<Longrightarrow> holds_list (h, p) ds"
  by (auto simp: holds_list_def)

lemma length_holds: "holds_list (h, p) ds \<Longrightarrow> ll_length h p =
    Some (if int (length ds) \<le> INT_MAX then Inr (int (length ds)) else Inl (UndefinedBehaviour ''signed overflow''))"
proof (erule holdsE)
  fix xs assume xs: "dlist h None p xs" "map snd xs = ds"
  show ?thesis using length_loop_dlist[OF xs(1), of 0] xs
    by (cases "p = None") (auto simp: ll_length_def INT_MAX_def)
qed

lemma first_holds: "holds_list (h, p) ds \<Longrightarrow> ll_get_first h p = Inr (if ds = [] then None else hd ds)"
proof (erule holdsE)
  fix xs assume "dlist h None p xs" "map snd xs = ds"
  then show ?thesis by (cases xs) (auto simp: ll_get_first_def deref_def split: option.splits)
qed

lemma last_holds: "holds_list (h, p) ds \<Longrightarrow> ll_get_last h p = Some (Inr (if ds = [] then None else last ds))"
proof (erule holdsE)
  fix xs assume xs: "dlist h None p xs" "map snd xs = ds"
  show ?thesis
  proof (cases xs)
    case Nil
    then show ?thesis using xs by (simp add: ll_get_last_def)
  next
    case (Cons x ys)
    obtain a d where x: "x = (a, d)" by (cases x)
    have p: "p = Some a" using xs(1) Cons x by simp
    have l: "last_loop h a = Some (Inr (fst (last xs)))" using last_loop_dlist xs(1) Cons x p by metis
    obtain n where "h (fst (last xs)) = Some n" "node_data n = snd (last xs)"
      using last_node[OF xs(1)] Cons by auto
    then show ?thesis using l p xs(2) Cons by (auto simp: ll_get_last_def deref_def last_map)
  qed
qed

lemma get_holds:
  "holds_list (h, p) ds \<Longrightarrow>
    ll_get h p i = Some (Inr (if 0 \<le> i \<and> nat i < length ds then ds ! nat i else None))"
  by (erule holdsE) (auto simp: ll_get_def get_loop_dlist)

lemma insert_first_holds:
  assumes "holds_list (h, p) ds" "h a = None"
  shows "\<exists>s'. ll_insert_first (Some a) d (h, p) = Inr s' \<and> holds_list s' (d # ds)"
proof -
  obtain xs where xs: "dlist h None p xs" "distinct (map fst xs)" "map snd xs = ds"
    using assms(1) by (rule holdsE)
  have new: "a \<notin> fst ` set xs" using dlist_fresh[OF xs(1) assms(2)] .
  let ?n = "\<lparr>node_data = d, node_next = p, node_prev = None\<rparr>"
  show ?thesis
  proof (cases xs)
    case Nil
    then have "dlist (h(a \<mapsto> ?n)) None (Some a) [(a, d)]" using xs(1) by simp
    then have "holds_list (h(a \<mapsto> ?n), Some a) (d # ds)" by (rule holdsI) (use Nil xs in auto)
    then show ?thesis using Nil xs(1) by (auto simp: ll_insert_first_def Let_def)
  next
    case (Cons x ys)
    obtain b e where x: "x = (b, e)" by (cases x)
    have p: "p = Some b" using xs(1) Cons x by simp
    have "dlist (h(a \<mapsto> ?n)) None p xs" using xs(1) new by simp
    then have l: "dlist (h(a \<mapsto> ?n)) None (Some b) ((b, e) # ys)" unfolding p Cons x .
    have l2: "b \<notin> fst ` set ys" "a \<noteq> b" using xs(2) new Cons x by auto
    obtain h' where h': "set_prev (Some b) (Some a) (h(a \<mapsto> ?n)) = Inr h'"
        "dlist h' (Some a) (Some b) xs" "h' a = Some ?n"
      using dlist_set_prev[OF l l2(1), of "Some a"] l2(2) unfolding Cons x by auto
    have "dlist h' None (Some a) ((a, d) # xs)" using h' p by simp
    then have "holds_list (h', Some a) (d # ds)" by (rule holdsI) (use xs new in auto)
    then show ?thesis using h'(1) p by (auto simp: ll_insert_first_def Let_def)
  qed
qed

lemma insert_last_holds:
  assumes "holds_list (h, p) ds" "h a = None" "d \<noteq> None"
  shows "\<exists>s'. ll_insert_last (Some a) d (h, p) = Some (Inr s') \<and> holds_list s' (ds @ [d])"
proof -
  obtain xs where xs: "dlist h None p xs" "distinct (map fst xs)" "map snd xs = ds"
    using assms(1) by (rule holdsE)
  have new: "a \<notin> fst ` set xs" using dlist_fresh[OF xs(1) assms(2)] .
  let ?n = "\<lparr>node_data = d, node_next = None, node_prev = None\<rparr>"
  let ?h = "h(a \<mapsto> ?n)"
  show ?thesis
  proof (cases xs)
    case Nil
    then have "holds_list (?h, Some a) (ds @ [d])" using xs by (intro holdsI[of _ _ "[(a, d)]"]) auto
    then show ?thesis using Nil xs(1) assms(3) by (auto simp: ll_insert_last_def Let_def)
  next
    case (Cons x ys)
    obtain b e where x: "x = (b, e)" by (cases x)
    have p: "p = Some b" using xs(1) Cons x by simp
    have d1: "dlist ?h None (Some b) xs" using xs(1) new p by simp
    have l: "last_loop ?h b = Some (Inr (fst (last xs)))" using last_loop_dlist d1 Cons x by metis
    let ?l = "fst (last xs)"
    have la: "?l \<noteq> a" using new Cons by (metis image_eqI last_in_set list.discI)
    obtain n where n: "?h ?l = Some n" using last_node[OF d1] Cons by auto
    have seg: "dseg (?h(?l \<mapsto> n\<lparr>node_next := Some a\<rparr>)) None (Some b) xs (Some a)"
      using dseg_set_next[of ?h None "Some b" xs None n "Some a"] d1 xs(2) n Cons by (simp add: dlist_dseg)
    let ?h2 = "?h(?l \<mapsto> n\<lparr>node_next := Some a\<rparr>, a \<mapsto> ?n\<lparr>node_prev := Some ?l\<rparr>)"
    have "dseg ?h2 None (Some b) xs (Some a)" unfolding dseg_upd[OF new] by (rule seg)
    moreover have "dseg ?h2 (end_of None xs) (Some a) [(a, d)] None" using Cons by (simp add: end_of_def)
    ultimately have "dlist ?h2 None (Some b) (xs @ [(a, d)])" unfolding dlist_dseg dseg_append by blast
    then have "holds_list (?h2, Some b) (ds @ [d])" by (rule holdsI) (use xs new in auto)
    moreover have "ll_insert_last (Some a) d (h, p) = Some (Inr (?h2, Some b))"
      using l n la assms(3) p
      by (auto simp: ll_insert_last_def Let_def set_next_def set_prev_def deref_def)
    ultimately show ?thesis by blast
  qed
qed

lemma remove_first_holds:
  assumes "holds_list (h, p) ds"
  shows "\<exists>s'. ll_remove_first (h, p) = Inr (if ds = [] then None else hd ds, s') \<and> holds_list s' (tl ds)"
proof -
  obtain xs where xs: "dlist h None p xs" "distinct (map fst xs)" "map snd xs = ds"
    using assms by (rule holdsE)
  show ?thesis
  proof (cases xs)
    case Nil
    then show ?thesis using xs assms by (auto simp: ll_remove_first_def)
  next
    case (Cons x ys)
    obtain a d where x: "x = (a, d)" by (cases x)
    obtain n where n: "h a = Some n" "p = Some a" "dlist h (Some a) (node_next n) ys" "node_data n = d"
      using xs(1) Cons x by (auto split: option.splits)
    have na: "a \<notin> fst ` set ys" using xs(2) Cons x by auto
    show ?thesis
    proof (cases ys)
      case Nil
      then have "holds_list (h(a := None), None) (tl ds)" using xs(3) Cons by (intro holdsI[of _ _ "[]"]) auto
      then show ?thesis using n Nil xs(3) Cons x by (auto simp: ll_remove_first_def deref_def)
    next
      case C2: (Cons y zs)
      obtain b e where y: "y = (b, e)" by (cases y)
      have nx: "node_next n = Some b" using n(3) C2 y by simp
      have d: "dlist h (Some a) (Some b) ((b, e) # zs)" "b \<notin> fst ` set zs" "b \<noteq> a"
        using n(3) nx C2 y xs(2) Cons na by auto
      obtain h' where h': "set_prev (Some b) None h = Inr h'" "dlist h' None (Some b) ys"
        using dlist_set_prev[OF d(1,2), of None] C2 y by auto
      then have "dlist (h'(a := None)) None (Some b) ys" using na by simp
      then have "holds_list (h'(a := None), Some b) (tl ds)" by (rule holdsI) (use xs Cons in auto)
      then show ?thesis using n nx h'(1) xs(3) Cons x by (auto simp: ll_remove_first_def deref_def)
    qed
  qed
qed

lemma remove_last_holds:
  assumes "holds_list (h, p) ds"
  shows "\<exists>s'. ll_remove_last (h, p) = Some (Inr (if ds = [] then None else last ds, s')) \<and> holds_list s' (butlast ds)"
proof -
  obtain xs where xs: "dlist h None p xs" "distinct (map fst xs)" "map snd xs = ds"
    using assms by (rule holdsE)
  show ?thesis
  proof (cases xs rule: rev_cases)
    case Nil
    then show ?thesis using xs assms by (auto simp: ll_remove_last_def)
  next
    case (snoc ys x)
    obtain c e where x: "x = (c, e)" by (cases x)
    obtain n where n: "h c = Some n" "node_data n = e" "node_next n = None" "node_prev n = end_of None ys"
      using last_node[OF xs(1)] snoc x by (auto simp: end_of_def split: if_splits)
    have nc: "c \<notin> fst ` set ys" using xs(2) snoc x by auto
    show ?thesis
    proof (cases ys)
      case Nil
      then have "p = Some c" using xs(1) snoc x by simp
      moreover have "holds_list (h(c := None), None) (butlast ds)"
        using xs(3) snoc Nil by (intro holdsI[of _ _ "[]"]) auto
      ultimately show ?thesis using n snoc Nil x xs(3) by (auto simp: ll_remove_last_def deref_def)
    next
      case (Cons y zs)
      obtain a d where y: "y = (a, d)" by (cases y)
      have p: "p = Some a" using xs(1) snoc Cons y by simp
      let ?l = "fst (last ys)"
      have l: "last_loop h a = Some (Inr c)"
        using last_loop_dlist[of h None a d "zs @ [x]"] xs(1) snoc Cons y p x by simp
      have seg: "dseg h None p ys (Some c)"
        using xs(1) snoc x unfolding dlist_dseg by (auto simp: dseg_append)
      have nl: "?l \<noteq> c" using nc Cons by (metis image_eqI last_in_set list.discI)
      have "dlist h None p (ys @ [x])" using xs(1) snoc by simp
      then obtain k where k: "h ?l = Some k"
        using dlist_alloc[of h None p "ys @ [x]" ?l "snd (last ys)"] Cons by fastforce
      obtain m where m: "h a = Some m" "node_next m \<noteq> None"
      proof -
        obtain m where m: "h a = Some m" "dlist h (Some a) (node_next m) (zs @ [x])"
          using xs(1) snoc Cons y by (auto split: option.splits)
        then have "node_next m \<noteq> None" using dlist_Some[OF m(2)] by (auto split: list.splits)
        then show thesis using m(1) that by blast
      qed
      let ?h = "h(?l \<mapsto> k\<lparr>node_next := None\<rparr>)"
      have "dseg ?h None p ys None"
        using dseg_set_next[OF seg _ _ k, of None] Cons xs(2) snoc by simp
      then have "dlist (?h(c := None)) None p ys" unfolding dlist_dseg dseg_upd[OF nc] .
      then have "holds_list (?h(c := None), p) (butlast ds)"
        by (rule holdsI) (use xs snoc in auto)
      moreover have "ll_remove_last (h, p) = Some (Inr (e, ?h(c := None), p))"
        using p m l n k nl Cons by (simp add: ll_remove_last_def deref_def set_next_def end_of_def)
      ultimately show ?thesis using xs(3) snoc x by auto
    qed
  qed
qed

text \<open>Taking a node out of the middle.\<close>

lemma unlink_dlist:
  assumes d: "dlist h None p (us @ (a, d) # vs)" "distinct (map fst (us @ (a, d) # vs))" and n: "h a = Some n"
  shows "\<exists>h' p'. unlink a n (h, p) = Inr (h', p') \<and> dlist h' None p' (us @ vs)"
proof -
  have seg: "dseg h None p us (Some a)" "dlist h (Some a) (node_next n) vs" "node_prev n = end_of None us"
    using d(1) n unfolding dlist_dseg by (auto simp: dseg_append split: option.splits)
  have na: "a \<notin> fst ` set us" "a \<notin> fst ` set vs" using d(2) by auto
  obtain h1 where h1: "(if node_next n \<noteq> None then set_prev (node_next n) (node_prev n) h else Inr h) = Inr h1"
      "dlist h1 (end_of None us) (node_next n) vs" "dseg h1 None p us (Some a)" "\<And>x. x \<in> fst ` set us \<Longrightarrow> h1 x = h x"
  proof (cases vs)
    case Nil
    then have "node_next n = None" using seg(2) by simp
    then show thesis using that[of h] seg(1) Nil by simp
  next
    case (Cons v ws)
    obtain b e where v: "v = (b, e)" by (cases v)
    have nx: "node_next n = Some b" using seg(2) Cons v by simp
    have nb: "b \<notin> fst ` set ws" "b \<notin> fst ` set us" using d(2) Cons v by auto
    have "dlist h (Some a) (Some b) ((b, e) # ws)" using seg(2) nx Cons v by simp
    then obtain m where m: "h b = Some m" "node_data m = e" "dlist h (Some b) (node_next m) ws"
      by (auto split: option.splits)
    let ?h = "h(b \<mapsto> m\<lparr>node_prev := node_prev n\<rparr>)"
    have "dlist ?h (end_of None us) (node_next n) vs"
      using m nb(1) nx Cons v seg(3) by simp
    moreover have "dseg ?h None p us (Some a)" using seg(1) nb(2) by simp
    moreover have "set_prev (Some b) (node_prev n) h = Inr ?h" using m by (simp add: set_prev_def deref_def)
    moreover have "?h x = h x" if "x \<in> fst ` set us" for x using that nb(2) by auto
    ultimately show thesis using nx by (intro that[of ?h]) simp_all
  qed
  show ?thesis
  proof (cases us rule: rev_cases)
    case Nil
    then have "p = Some a" using seg(1) by simp
    then have "unlink a n (h, p) = Inr (h1(a := None), node_next n)" using h1(1) by (simp add: unlink_def)
    moreover have "dlist (h1(a := None)) None (node_next n) vs" using h1(2) na Nil by simp
    ultimately show ?thesis using Nil by auto
  next
    case (snoc us' l)
    obtain b e where l: "l = (b, e)" by (cases l)
    have bv: "b \<notin> fst ` set vs" "b \<noteq> a" using d(2) snoc l by auto
    have pa: "p \<noteq> Some a"
    proof
      assume "p = Some a"
      moreover obtain c q w where us: "us = (c, q) # w" using snoc by (metis append_is_Nil_conv list.exhaust not_Cons_self2 surj_pair)
      ultimately have "c = a" using seg(1) by simp
      then show False using na us by simp
    qed
    have "dlist h None p (us @ (a, d) # vs)" by (rule d(1))
    then have "h b \<noteq> None" using dlist_alloc[of h None p "us @ (a, d) # vs" b e] snoc l by simp
    then obtain k where k: "h1 b = Some k" using h1(4)[of b] snoc l by force
    let ?h = "h1(b \<mapsto> k\<lparr>node_next := node_next n\<rparr>)"
    have "dseg ?h None p us (node_next n)"
      using dseg_set_next[OF h1(3), of k "node_next n"] k snoc l d(2) by simp
    moreover have "dlist ?h (end_of None us) (node_next n) vs" using h1(2) bv by simp
    ultimately have "dlist ?h None p (us @ vs)" unfolding dlist_dseg dseg_append by blast
    moreover have "a \<notin> fst ` set (us @ vs)" using na by auto
    ultimately have "dlist (?h(a := None)) None p (us @ vs)" by simp
    moreover have "unlink a n (h, p) = Inr (?h(a := None), p)"
      using h1(1) pa k seg(3) snoc l by (simp add: unlink_def set_next_def deref_def end_of_def)
    ultimately show ?thesis by blast
  qed
qed

fun remove_same :: "('d ptr \<Rightarrow> bool) \<Rightarrow> 'd ptr list \<Rightarrow> 'd ptr list" where
  "remove_same same [] = []"
| "remove_same same (d # ds) = (if same d then ds else d # remove_same same ds)"

lemma memcmp_readable [simp]:
  "readable m len d \<Longrightarrow> readable m len d' \<Longrightarrow> memcmp_eq m d d' len = Inr (same_bytes m len d d')"
  by (simp add: memcmp_eq_def)

lemma remove_loop_dlist:
  assumes "readable m len to_remove"
  defines "same \<equiv> \<lambda>d. same_bytes m len d to_remove"
  shows "dlist h (end_of None us) q vs \<Longrightarrow> dlist h None p (us @ vs) \<Longrightarrow> distinct (map fst (us @ vs)) \<Longrightarrow> \<forall>v \<in> set vs. readable m len (snd v) \<Longrightarrow>
    \<exists>s'. remove_loop m to_remove len q (h, p)
        = Some (Inr (case List.find same (map snd vs) of None \<Rightarrow> None | Some d \<Rightarrow> d, s'))
      \<and> holds_list s' (map snd us @ remove_same same (map snd vs))"
proof (induction vs arbitrary: us q)
  case Nil
  have "holds_list (h, p) (map snd us)" using Nil.prems(2,3) by (intro holdsI[of _ _ us]) auto
  then show ?case using Nil.prems(1) by (subst remove_loop.simps) simp
next
  case (Cons v vs)
  obtain a d where v: "v = (a, d)" by (cases v)
  obtain n where n: "h a = Some n" "q = Some a" "node_data n = d" "dlist h (Some a) (node_next n) vs"
    using Cons.prems(1) v by (auto split: option.splits)
  have cmp: "memcmp_eq m d to_remove len = Inr (same d)" using Cons.prems(4) v assms(1) by (simp add: same_def)
  show ?case
  proof (cases "same d")
    case True
    obtain h' p' where u: "unlink a n (h, p) = Inr (h', p')" "dlist h' None p' (us @ vs)"
      using unlink_dlist[of h p us a d vs n] Cons.prems(2,3) n(1) v by auto
    have "holds_list (h', p') (map snd us @ map snd vs)"
      by (rule holdsI[OF u(2)]) (use Cons.prems(3) in auto)
    then show ?thesis using True n v u(1) cmp by (subst remove_loop.simps) (simp add: deref_def)
  next
    case False
    have "dlist h (end_of None (us @ [v])) (node_next n) vs" using n(4) v by (simp add: end_of_def)
    from Cons.IH[OF this] Cons.prems(2-4) obtain s' where s':
      "remove_loop m to_remove len (node_next n) (h, p)
        = Some (Inr (case List.find same (map snd vs) of None \<Rightarrow> None | Some d \<Rightarrow> d, s'))"
      "holds_list s' (map snd (us @ [v]) @ remove_same same (map snd vs))" by auto
    then show ?thesis using False n v cmp by (subst remove_loop.simps) (simp add: deref_def)
  qed
qed

lemma remove_element_holds:
  assumes "holds_list (h, p) ds" "readable m len to_remove" "\<forall>d \<in> set ds. readable m len d"
  defines "same \<equiv> \<lambda>d. same_bytes m len d to_remove"
  shows "\<exists>s'. ll_remove_element m to_remove len (h, p)
      = Some (Inr (case List.find same ds of None \<Rightarrow> None | Some d \<Rightarrow> d, s'))
    \<and> holds_list s' (remove_same same ds)"
proof -
  obtain xs where xs: "dlist h None p xs" "distinct (map fst xs)" "map snd xs = ds"
    using assms(1) by (rule holdsE)
  show ?thesis
  proof (cases "p = None")
    case True
    then show ?thesis using xs assms(1) by (auto simp: ll_remove_element_def)
  next
    case False
    then obtain a where "p = Some a" by blast
    then show ?thesis using remove_loop_dlist[OF assms(2), of h "[]" p xs p] xs assms(3)
      by (auto simp: ll_remove_element_def same_def)
  qed
qed

text \<open>\<open>ll_insert_first\<close> accepts a null pointer as data; \<open>ll_remove_element\<close> hands it to \<open>memcmp\<close>.\<close>

lemma null_element_undefined:
  assumes "holds_list (h, p) (None # ds)"
  shows "ll_remove_element m to_remove len (h, p) = Some (Inl (UndefinedBehaviour ''memcmp''))"
proof -
  obtain xs where xs: "dlist h None p xs" "map snd xs = None # ds" using assms by (rule holdsE)
  then obtain a ys where "xs = (a, None) # ys" by (cases xs) auto
  then obtain n where "p = Some a" "h a = Some n" "node_data n = None" using xs(1) by (auto split: option.splits)
  then show ?thesis
    by (simp add: ll_remove_element_def remove_loop.simps[of m to_remove len "Some a"] deref_def memcmp_eq_def readable_def)
qed

lemma reverse_loop_dlist:
  "dlist h ph q ys \<Longrightarrow> dlist h q ph zs \<Longrightarrow> distinct (map fst (ys @ zs)) \<Longrightarrow> ys \<noteq> [] \<Longrightarrow>
    \<exists>h'. reverse_loop q ph (h, p) = Some (Inr (h', Some (fst (last ys))))
      \<and> dlist h' None (Some (fst (last ys))) (rev ys @ zs)"
proof (induction ys arbitrary: h ph q zs p)
  case Nil
  then show ?case by simp
next
  case (Cons y ys)
  obtain a d where y: "y = (a, d)" by (cases y)
  obtain n where n: "h a = Some n" "q = Some a" "node_data n = d" "dlist h (Some a) (node_next n) ys"
    using Cons.prems(1) y by (auto split: option.splits)
  let ?h = "h(a \<mapsto> n\<lparr>node_prev := node_next n, node_next := ph\<rparr>)"
  have na: "a \<notin> fst ` set ys" "a \<notin> fst ` set zs" using Cons.prems(3) y by auto
  have z: "dlist ?h (node_next n) (Some a) ((a, d) # zs)" using n Cons.prems(2) na(2) by simp
  have yz: "dlist ?h (Some a) (node_next n) ys" using n(4) na(1) by simp
  have step: "reverse_loop q ph (h, p) = reverse_loop (node_next n) (Some a)
      (?h, if node_next n = None then Some a else p)"
    using n by (subst reverse_loop.simps) (simp add: deref_def)
  show ?case
  proof (cases ys)
    case Nil
    then have nn: "node_next n = None" using yz by simp
    have "reverse_loop None (Some a) (?h, Some a) = Some (Inr (?h, Some a))"
      by (subst reverse_loop.simps) simp
    then show ?thesis using z nn Nil y unfolding step by simp
  next
    case (Cons w ws)
    obtain b where nn: "node_next n = Some b" using yz Cons by (cases w) auto
    have "\<exists>h'. reverse_loop (node_next n) (Some a) (?h, p) = Some (Inr (h', Some (fst (last ys))))
      \<and> dlist h' None (Some (fst (last ys))) (rev ys @ ((a, d) # zs))"
      by (rule Cons.IH[OF yz z]) (use Cons.prems(3) y Cons in auto)
    then show ?thesis unfolding step using nn Cons y by simp
  qed
qed

lemma reverse_holds:
  assumes "holds_list (h, p) ds"
  shows "\<exists>s'. ll_reverse (h, p) = Some (Inr s') \<and> holds_list s' (rev ds)"
proof -
  obtain xs where xs: "dlist h None p xs" "distinct (map fst xs)" "map snd xs = ds"
    using assms by (rule holdsE)
  show ?thesis
  proof (cases xs)
    case Nil
    then show ?thesis using xs assms by (auto simp: ll_reverse_def reverse_helper_def)
  next
    case (Cons x ys)
    obtain a d where x: "x = (a, d)" by (cases x)
    obtain n where n: "h a = Some n" "p = Some a" "dlist h (Some a) (node_next n) ys"
      using xs(1) Cons x by (auto split: option.splits)
    show ?thesis
    proof (cases "node_next n = None")
      case True
      then have "ys = []" using n(3) by simp
      then have "rev ds = ds" using xs(3) Cons by auto
      then show ?thesis using True n assms by (auto simp: ll_reverse_def reverse_helper_def deref_def)
    next
      case False
      obtain h' where h': "reverse_loop p None (h, p) = Some (Inr (h', Some (fst (last xs))))"
          "dlist h' None (Some (fst (last xs))) (rev xs)"
        using reverse_loop_dlist[of h None p xs "[]" p] xs Cons by auto
      have "holds_list (h', Some (fst (last xs))) (rev ds)"
        by (rule holdsI[OF h'(2)]) (use xs in \<open>auto simp: rev_map[symmetric]\<close>)
      then show ?thesis using False n h'(1) by (auto simp: ll_reverse_def reverse_helper_def deref_def)
    qed
  qed
qed

section \<open>Property\<close>

text \<open>
  C12. The linked list is a list: on a heap that holds the list \<open>ds\<close>, every operation ends without an
  undefined access, returns what the list operation of its name gives (null for an empty list, a
  missing index or a missing element), and leaves a heap that holds the resulting list; the two
  insertions are given a free node by \<open>malloc\<close>. Two conditions are the caller's: the length overflows the \<open>int\<close>
  that counts, and is then undefined, exactly when the list has more than \<open>2 ^ 31 - 1\<close> elements, and
  \<open>ll_remove_element\<close>, which removes the first element with the \<open>size\<close> bytes asked for, needs these bytes
  to be readable at every element, so none is null.
\<close>

theorem linked_list_refines_list:
  assumes "holds_list (h, p) ds" "h a = None" "d \<noteq> None"
  shows "ll_length h p = Some (if int (length ds) \<le> INT_MAX then Inr (int (length ds)) else Inl (UndefinedBehaviour ''signed overflow''))
    \<and> ll_get_first h p = Inr (if ds = [] then None else hd ds)
    \<and> ll_get_last h p = Some (Inr (if ds = [] then None else last ds))
    \<and> ll_get h p i = Some (Inr (if 0 \<le> i \<and> nat i < length ds then ds ! nat i else None))
    \<and> (\<exists>s. ll_insert_first (Some a) d (h, p) = Inr s \<and> holds_list s (d # ds))
    \<and> (\<exists>s. ll_insert_last (Some a) d (h, p) = Some (Inr s) \<and> holds_list s (ds @ [d]))
    \<and> (\<exists>s. ll_remove_first (h, p) = Inr (if ds = [] then None else hd ds, s) \<and> holds_list s (tl ds))
    \<and> (\<exists>s. ll_remove_last (h, p) = Some (Inr (if ds = [] then None else last ds, s)) \<and> holds_list s (butlast ds))
    \<and> (readable m len to_remove \<and> (\<forall>d \<in> set ds. readable m len d) \<longrightarrow>
        (\<exists>s. ll_remove_element m to_remove len (h, p)
            = Some (Inr (case List.find (\<lambda>d. same_bytes m len d to_remove) ds of None \<Rightarrow> None | Some d \<Rightarrow> d, s))
          \<and> holds_list s (remove_same (\<lambda>d. same_bytes m len d to_remove) ds)))
    \<and> (\<exists>s. ll_reverse (h, p) = Some (Inr s) \<and> holds_list s (rev ds))"
  using length_holds[OF assms(1)] first_holds[OF assms(1)] last_holds[OF assms(1)] get_holds[OF assms(1)]
    insert_first_holds[OF assms(1,2)] insert_last_holds[OF assms] remove_first_holds[OF assms(1)]
    remove_last_holds[OF assms(1)] remove_element_holds[OF assms(1)] reverse_holds[OF assms(1)]
  by blast

text \<open>Two elements, with the bytes 1 2 and 3 4; the second is found by its first byte and removed.\<close>

theorem linked_list_refines_list_witness:
  "\<exists>s s'. ll_reverse ([1 \<mapsto> \<lparr>node_data = Some (10 :: nat), node_next = Some 2, node_prev = None\<rparr>,
      2 \<mapsto> \<lparr>node_data = Some 20, node_next = None, node_prev = Some 1\<rparr>], Some 1) = Some (Inr s)
    \<and> holds_list s [Some 20, Some 10]
    \<and> ll_remove_element (\<lambda>d. if d = 10 then [1, 2] else if d = 20 then [3, 4] else [3]) (Some 30) 1
        ([1 \<mapsto> \<lparr>node_data = Some (10 :: nat), node_next = Some 2, node_prev = None\<rparr>,
      2 \<mapsto> \<lparr>node_data = Some 20, node_next = None, node_prev = Some 1\<rparr>], Some 1) = Some (Inr (Some 20, s'))
    \<and> holds_list s' [Some 10]"
proof -
  let ?h = "[1 \<mapsto> \<lparr>node_data = Some 10, node_next = Some 2, node_prev = None\<rparr>,
      2 \<mapsto> \<lparr>node_data = Some 20, node_next = None, node_prev = Some 1\<rparr>] :: nat nheap"
  let ?m = "\<lambda>d :: nat. if d = 10 then [1, 2] else if d = 20 then [3, 4] else [3 :: u8]"
  have "holds_list (?h, Some 1) [Some 10, Some 20]"
    by (rule holdsI[of _ _ "[(1, Some 10), (2, Some 20)]"]) simp_all
  from linked_list_refines_list[OF this, of 3 "Some 5" 0 ?m 1 "Some 30"]
  show ?thesis by (auto simp: readable_def same_bytes_def)
qed

end
