(* ===== verification/Snake_Game.thy ===== *)
theory Snake_Game
  imports Snake_List
begin

text \<open>
  The step of the snake game, \<open>snake/src/game.c\<close> with \<open>common.c\<close> and \<open>common.h\<close>, and how the board
  is drawn (\<open>render.c\<close>) and keys are read (\<open>snake.c\<close>). The snake's positions are the list the linked
  list of \<open>Snake_List\<close> holds; the random numbers come from a generator that is a parameter.
\<close>

section \<open>Cells\<close>

definition PLAIN_CELL :: u32 where "PLAIN_CELL = 0"
definition FLAG_SNAKE :: u32 where "FLAG_SNAKE = 1"
definition FLAG_WALL :: u32 where "FLAG_WALL = 2"
definition FLAG_FOOD :: u32 where "FLAG_FOOD = 4"
definition FLAG_GRASS :: u32 where "FLAG_GRASS = 8"

definition has_flag :: "u32 \<Rightarrow> u32 \<Rightarrow> bool" where
  "has_flag c f \<longleftrightarrow> c AND f \<noteq> 0"

datatype input_key = INPUT_UP | INPUT_DOWN | INPUT_LEFT | INPUT_RIGHT | INPUT_NONE

datatype snake_direction = UP | DOWN | LEFT | RIGHT

record 'g game =
  cells :: "u32 list"
  snake_dir :: snake_direction
  snake_pos :: "nat list"
  g_game_over :: bool
  g_score :: int
  seed :: 'g

section \<open>Food\<close>

text \<open>\<open>generate_index\<close> takes an \<open>unsigned\<close>; a remainder by zero is undefined.\<close>

definition generate_index :: "('g \<Rightarrow> nat \<times> 'g) \<Rightarrow> nat \<Rightarrow> 'g \<Rightarrow> (nat \<times> 'g) result" where
  "generate_index rnd bound g =
     (let n = bound mod 2 ^ 32 in
      if n = 0 then Inl (UndefinedBehaviour ''rand() % 0'')
      else case rnd g of (r, g) \<Rightarrow> Inr (r mod n, g))"

text \<open>The attempts left, \<open>max - attempts\<close>, drive the recursion.\<close>

primrec food_loop :: "nat \<Rightarrow> ('g \<Rightarrow> nat \<times> 'g) \<Rightarrow> nat \<Rightarrow> u32 list \<Rightarrow> 'g \<Rightarrow> (u32 list \<times> 'g) result" where
  "food_loop 0 rnd area cs g = Inl (AssertFailed ''ERROR:  No empty or grass-only cells to place food on board.'')"
| "food_loop (Suc left) rnd area cs g =
     res_bind (generate_index rnd area g) (\<lambda>(i, g).
     res_bind (index_r cs i ''cells'') (\<lambda>c.
       if c = PLAIN_CELL \<or> c = FLAG_GRASS then Inr (cs[i := c OR FLAG_FOOD], g)
       else food_loop left rnd area cs g))"

definition place_food :: "('g \<Rightarrow> nat \<times> 'g) \<Rightarrow> nat \<Rightarrow> nat \<Rightarrow> u32 list \<Rightarrow> 'g \<Rightarrow> (u32 list \<times> 'g) result" where
  "place_food rnd width height cs g = food_loop (sz_mul width height) rnd (sz_mul width height) cs g"

section \<open>One step\<close>

text \<open>The new direction: a snake of more than one cell does not turn back.\<close>

fun turn :: "input_key \<Rightarrow> nat \<Rightarrow> snake_direction \<Rightarrow> snake_direction" where
  "turn INPUT_NONE snake_len old_dir = old_dir"
| "turn INPUT_DOWN snake_len old_dir = (if \<not> (1 < snake_len) \<or> old_dir \<noteq> UP then DOWN else old_dir)"
| "turn INPUT_UP snake_len old_dir = (if \<not> (1 < snake_len) \<or> old_dir \<noteq> DOWN then UP else old_dir)"
| "turn INPUT_LEFT snake_len old_dir = (if \<not> (1 < snake_len) \<or> old_dir \<noteq> RIGHT then LEFT else old_dir)"
| "turn INPUT_RIGHT snake_len old_dir = (if \<not> (1 < snake_len) \<or> old_dir \<noteq> LEFT then RIGHT else old_dir)"

fun next_cell :: "snake_direction \<Rightarrow> nat \<Rightarrow> nat \<Rightarrow> nat" where
  "next_cell UP width head_val = sz_sub head_val width"
| "next_cell DOWN width head_val = sz_add head_val width"
| "next_cell RIGHT width head_val = sz_add head_val 1"
| "next_cell LEFT width head_val = sz_sub head_val 1"

text \<open>
  The tail is taken off the list; its cell loses the snake unless the head is on it. The list is not
  empty, for the head has just been put in.
\<close>

definition drop_tail :: "u32 list \<Rightarrow> nat list \<Rightarrow> (u32 list \<times> nat list) result" where
  "drop_tail cs pos =
     (let last_cell = last pos; pos = butlast pos in
      if pos = [] then Inl (UndefinedBehaviour ''null pointer'')
      else if hd pos \<noteq> last_cell
        then res_bind (index_r cs last_cell ''cells'') (\<lambda>c. Inr (cs[last_cell := c AND NOT FLAG_SNAKE], pos))
      else Inr (cs, pos))"

definition update :: "('g \<Rightarrow> nat \<times> 'g) \<Rightarrow> nat \<Rightarrow> nat \<Rightarrow> input_key \<Rightarrow> bool \<Rightarrow> 'g game \<Rightarrow> 'g game result" where
  "update rnd width height input growing g =
     (if snake_pos g = [] then Inl (UndefinedBehaviour ''null pointer'')
      else
        let g = g\<lparr>snake_dir := turn input (length (snake_pos g)) (snake_dir g)\<rparr>;
            new_cell = next_cell (snake_dir g) width (hd (snake_pos g));
            tail = last (snake_pos g)
        in res_bind (index_r (cells g) new_cell ''cells'') (\<lambda>c.
          if has_flag c FLAG_WALL \<or> has_flag c FLAG_SNAKE \<and> tail \<noteq> new_cell
          then Inr (g\<lparr>g_game_over := True\<rparr>)
          else
            let pos = new_cell # snake_pos g;
                c = c OR FLAG_SNAKE;
                cs = (cells g)[new_cell := c]
            in if has_flag c FLAG_FOOD
               then
                 let cs = cs[new_cell := c AND NOT FLAG_FOOD]
                 in res_bind (place_food rnd width height cs (seed g)) (\<lambda>(cs, s).
                    res_bind (if \<not> growing then drop_tail cs pos else Inr (cs, pos)) (\<lambda>(cs, pos).
                    Inr (g\<lparr>g_score := g_score g + 1, cells := cs, snake_pos := pos, seed := s\<rparr>)))
               else res_bind (drop_tail cs pos) (\<lambda>(cs, pos). Inr (g\<lparr>cells := cs, snake_pos := pos\<rparr>))))"

text \<open>\<open>teardown\<close> frees the board and takes the positions off the list until it is empty.\<close>

definition teardown :: "'g game \<Rightarrow> 'g game" where
  "teardown g = g\<lparr>cells := [], snake_pos := []\<rparr>"

section \<open>Drawing and keys\<close>

datatype glyph = SnakeOnGrass | SnakeGlyph | FoodOnGrass | FoodGlyph | WallGlyph | GrassGlyph | Blank

definition cell_glyph :: "u32 \<Rightarrow> glyph" where
  "cell_glyph c =
     (if has_flag c FLAG_SNAKE then (if has_flag c FLAG_GRASS then SnakeOnGrass else SnakeGlyph)
      else if has_flag c FLAG_FOOD then (if has_flag c FLAG_GRASS then FoodOnGrass else FoodGlyph)
      else if has_flag c FLAG_WALL then WallGlyph
      else if has_flag c FLAG_GRASS then GrassGlyph else Blank)"

text \<open>Each cell is drawn at its row and column.\<close>

definition render_game :: "u32 list \<Rightarrow> nat \<Rightarrow> nat \<Rightarrow> (nat \<times> nat \<times> glyph) list result" where
  "render_game cs width height =
     map_r (\<lambda>i. res_bind (index_r cs i ''cells'') (\<lambda>c. Inr (i div width, i mod width, cell_glyph c)))
       [0..<sz_mul width height]"

text \<open>The window must have two more lines than the board.\<close>

definition check_terminal_size :: "int \<Rightarrow> int \<Rightarrow> int \<Rightarrow> int \<Rightarrow> bool" where
  "check_terminal_size LINES COLS width height = (let req_h = height + 2; req_w = width in
     \<not> (LINES < req_h \<or> COLS < req_w))"

text \<open>The codes of the arrow keys in curses.\<close>

definition get_input :: "int \<Rightarrow> input_key" where
  "get_input input = (if input = 259 then INPUT_UP else if input = 258 then INPUT_DOWN
     else if input = 260 then INPUT_LEFT else if input = 261 then INPUT_RIGHT else INPUT_NONE)"

text \<open>The loop of \<open>main\<close>, over the keys it reads.\<close>

fun game_loop :: "('g \<Rightarrow> nat \<times> 'g) \<Rightarrow> nat \<Rightarrow> nat \<Rightarrow> bool \<Rightarrow> int list \<Rightarrow> 'g game \<Rightarrow> 'g game result" where
  "game_loop rnd width height grows [] g = Inr g"
| "game_loop rnd width height grows (k # ks) g =
     (if g_game_over g then Inr g
      else res_bind (update rnd width height (get_input k) grows g) (\<lambda>g.
        game_loop rnd width height grows ks g))"

section \<open>The invariant\<close>

lemma flag_bits:
  "has_flag c FLAG_SNAKE \<longleftrightarrow> bit c 0" "has_flag c FLAG_WALL \<longleftrightarrow> bit c 1"
  "has_flag c FLAG_FOOD \<longleftrightarrow> bit c 2" "has_flag c FLAG_GRASS \<longleftrightarrow> bit c 3"
  using bit_iff_and_push_bit_not_eq_0[of c 0] bit_iff_and_push_bit_not_eq_0[of c 1]
    bit_iff_and_push_bit_not_eq_0[of c 2] bit_iff_and_push_bit_not_eq_0[of c 3]
  by (simp_all add: has_flag_def FLAG_SNAKE_def FLAG_WALL_def FLAG_FOOD_def FLAG_GRASS_def push_bit_eq_mult)

lemma flag_values: "bit FLAG_SNAKE n \<longleftrightarrow> n = 0" "bit FLAG_FOOD n \<longleftrightarrow> n = 2" "bit FLAG_GRASS n \<longleftrightarrow> n = 3"
proof -
  have f: "FLAG_FOOD = 2 ^ 2" and g: "FLAG_GRASS = 2 ^ 3" by (simp_all add: FLAG_FOOD_def FLAG_GRASS_def)
  show "bit FLAG_FOOD n \<longleftrightarrow> n = 2" unfolding f by (subst bit_exp_iff) auto
  show "bit FLAG_GRASS n \<longleftrightarrow> n = 3" unfolding g by (subst bit_exp_iff) auto
  show "bit FLAG_SNAKE n \<longleftrightarrow> n = 0" by (simp add: FLAG_SNAKE_def bit_1_iff)
qed

lemma set_snake [simp]:
  "bit (c OR FLAG_SNAKE) 0" "0 < n \<Longrightarrow> bit (c OR FLAG_SNAKE) n = bit c n"
  by (simp_all add: bit_or_iff flag_values)

lemma clear_snake [simp]:
  "\<not> bit (c AND NOT FLAG_SNAKE) 0" "0 < n \<Longrightarrow> bit (c AND NOT FLAG_SNAKE) n = bit c n" for c :: u32
  by (auto simp: bit_and_iff bit_not_iff flag_values dest: bit_imp_le_length)

lemma food_bits [simp]:
  "bit (c AND NOT FLAG_FOOD) n = (bit c n \<and> n \<noteq> 2)" "bit (c OR FLAG_FOOD) n = (bit c n \<or> n = 2)" for c :: u32
  by (auto simp: bit_and_iff bit_or_iff bit_not_iff flag_values dest: bit_imp_le_length)

text \<open>
  The board is surrounded by walls, the snake's cells are exactly those of its list, each once, and
  none of them is a wall or holds food.
\<close>

definition border :: "nat \<Rightarrow> nat \<Rightarrow> nat \<Rightarrow> bool" where
  "border w h i \<longleftrightarrow> i < w \<or> w * (h - 1) \<le> i \<or> i mod w = 0 \<or> i mod w = w - 1"

definition board_ok :: "nat \<Rightarrow> nat \<Rightarrow> u32 list \<Rightarrow> nat list \<Rightarrow> bool" where
  "board_ok w h cs pos \<longleftrightarrow>
     length cs = w * h \<and> w * h < 2 ^ 32 \<and>
     list_all (\<lambda>i. border w h i \<longrightarrow> has_flag (cs ! i) FLAG_WALL) [0..<w * h] \<and>
     pos \<noteq> [] \<and> distinct pos \<and>
     list_all (\<lambda>i. has_flag (cs ! i) FLAG_SNAKE \<longleftrightarrow> i \<in> set pos) [0..<w * h] \<and>
     list_all (\<lambda>i. i < w * h \<and> \<not> has_flag (cs ! i) FLAG_WALL \<and> \<not> has_flag (cs ! i) FLAG_FOOD) pos"

definition game_ok :: "nat \<Rightarrow> nat \<Rightarrow> 'g game \<Rightarrow> bool" where
  "game_ok w h g \<longleftrightarrow> board_ok w h (cells g) (snake_pos g)"

text \<open>The cell one step from \<open>p\<close>, by row and column.\<close>

fun grid_step :: "snake_direction \<Rightarrow> nat \<times> nat \<Rightarrow> nat \<times> nat" where
  "grid_step UP (r, c) = (r - 1, c)"
| "grid_step DOWN (r, c) = (r + 1, c)"
| "grid_step RIGHT (r, c) = (r, c + 1)"
| "grid_step LEFT (r, c) = (r, c - 1)"

lemmas board_defs = board_ok_def list_all_iff flag_bits

lemma interior_head:
  assumes "board_ok w h cs pos" "p \<in> set pos"
  shows "w \<le> p" "p + w < w * h" "0 < w" "p mod w \<noteq> 0" "p mod w \<noteq> w - 1" "w * h < size_lim"
proof -
  have "p < w * h" "\<not> has_flag (cs ! p) FLAG_WALL" using assms by (auto simp: board_ok_def list_all_iff)
  then have "\<not> border w h p" using assms by (auto simp: board_ok_def list_all_iff)
  then have b: "w \<le> p" "p < w * (h - 1)" "p mod w \<noteq> 0" "p mod w \<noteq> w - 1" by (auto simp: border_def)
  show "w \<le> p" "p mod w \<noteq> 0" "p mod w \<noteq> w - 1" using b by auto
  show "p + w < w * h" using b by (cases h) auto
  show "0 < w" using b by (cases w) auto
  show "w * h < size_lim" using assms(1) by (simp add: board_ok_def size_lim_def)
qed

lemma next_cell_in_range:
  assumes "board_ok w h cs pos" "p \<in> set pos"
  shows "next_cell d w p < length cs" "next_cell d w p \<noteq> p"
    "(next_cell d w p div w, next_cell d w p mod w) = grid_step d (p div w, p mod w)"
proof -
  note i = interior_head[OF assms]
  have len: "length cs = w * h" using assms(1) by (simp add: board_ok_def)
  have exact: "next_cell d w p = (case d of UP \<Rightarrow> p - w | DOWN \<Rightarrow> p + w | RIGHT \<Rightarrow> p + 1 | LEFT \<Rightarrow> p - 1)"
    using i by (cases d) simp_all
  show "next_cell d w p < length cs" "next_cell d w p \<noteq> p" using i len by (auto simp: exact split: snake_direction.split)
  define r c where "r = p div w" and "c = p mod w"
  have p: "p = r * w + c" "0 < c" "c + 1 < w" "1 \<le> r"
    using i mod_less_divisor[OF i(3), of p] by (auto simp: r_def c_def div_greater_zero_iff Suc_le_eq simp del: mod_less_divisor)
  have dm: "(a * w + b) div w = a" "(a * w + b) mod w = b" if "b < w" for a b using that by auto
  have up: "p - w = (r - 1) * w + c" and down: "p + w = (r + 1) * w + c"
    and right: "p + 1 = r * w + (c + 1)" and left: "p - 1 = r * w + (c - 1)"
    using p by (auto simp: diff_mult_distrib)
  show "(next_cell d w p div w, next_cell d w p mod w) = grid_step d (p div w, p mod w)"
  proof (cases d)
    case UP
    have "next_cell d w p = (r - 1) * w + c" unfolding exact using UP up by simp
    then show ?thesis using dm[of c "r - 1"] p(3) UP by (simp add: r_def c_def)
  next
    case DOWN
    have "next_cell d w p = (r + 1) * w + c" unfolding exact using DOWN down by simp
    then show ?thesis using dm[of c "r + 1"] p(3) DOWN by (simp add: r_def c_def)
  next
    case RIGHT
    have "next_cell d w p = r * w + (c + 1)" unfolding exact using RIGHT right by simp
    then show ?thesis using dm[of "c + 1" r] p(3) RIGHT by (simp add: r_def c_def)
  next
    case LEFT
    have "next_cell d w p = r * w + (c - 1)" unfolding exact using LEFT left by simp
    then show ?thesis using dm[of "c - 1" r] p(3) LEFT by (simp add: r_def c_def)
  qed
qed

text \<open>Placing food: a sample either hits a free cell or the attempts run out.\<close>

lemma food_loop_cases:
  assumes "area = length cs" "0 < area" "area < 2 ^ 32"
  shows "food_loop n rnd area cs s = Inl (AssertFailed ''ERROR:  No empty or grass-only cells to place food on board.'') \<or>
    (\<exists>i s'. i < length cs \<and> (cs ! i = PLAIN_CELL \<or> cs ! i = FLAG_GRASS) \<and>
       food_loop n rnd area cs s = Inr (cs[i := cs ! i OR FLAG_FOOD], s'))"
proof (induction n arbitrary: s)
  case 0
  then show ?case by simp
next
  case (Suc n)
  obtain r s1 where rs: "rnd s = (r, s1)" by (cases "rnd s")
  have lt: "r mod length cs < length cs" using assms by simp
  have "food_loop (Suc n) rnd area cs s =
      (let i = r mod length cs in
       if cs ! i = PLAIN_CELL \<or> cs ! i = FLAG_GRASS then Inr (cs[i := cs ! i OR FLAG_FOOD], s1) else food_loop n rnd area cs s1)"
    using assms lt rs by (simp add: generate_index_def Let_def)
  then show ?case using Suc.IH[of s1] lt by (auto simp: Let_def)
qed

lemma food_keeps_board:
  assumes "board_ok w h cs pos" "i < length cs" "cs ! i = PLAIN_CELL \<or> cs ! i = FLAG_GRASS"
  shows "board_ok w h (cs[i := cs ! i OR FLAG_FOOD]) pos"
proof -
  have "\<not> bit (cs ! i) 0" using assms(3) by (auto simp: PLAIN_CELL_def flag_values)
  then have "i \<notin> set pos" using assms(1,2) by (auto simp: board_defs)
  then show ?thesis using assms(1,2) by (auto simp: board_defs nth_list_update)
qed

lemma place_food_cases:
  assumes "board_ok w h cs pos"
  shows "place_food rnd w h cs s = Inl (AssertFailed ''ERROR:  No empty or grass-only cells to place food on board.'') \<or>
    (\<exists>cs' s'. place_food rnd w h cs s = Inr (cs', s') \<and> board_ok w h cs' pos)"
proof -
  obtain p where p: "p \<in> set pos" using assms by (cases pos) (auto simp: board_ok_def)
  note i = interior_head[OF assms p]
  have "w * h = length cs" "w * h < 2 ^ 32" "0 < w * h" "sz_mul w h = w * h"
    using assms i by (auto simp: board_ok_def intro: gr0I)
  then show ?thesis
    using food_loop_cases[of "w * h" cs "w * h" rnd s] food_keeps_board[OF assms] by (fastforce simp: place_food_def)
qed

text \<open>The head enters a cell that is neither wall nor snake; the tail leaves its cell.\<close>

lemma add_head_board:
  assumes "board_ok w h cs pos" "n < length cs" "\<not> has_flag (cs ! n) FLAG_WALL" "n \<notin> set pos"
    "c = cs ! n OR FLAG_SNAKE \<and> \<not> has_flag (cs ! n) FLAG_FOOD \<or> c = (cs ! n OR FLAG_SNAKE) AND NOT FLAG_FOOD"
  shows "board_ok w h (cs[n := c]) (n # pos)"
proof -
  have b: "bit c 0" "bit c 1 = bit (cs ! n) 1" "\<not> bit c 2"
    using assms(5) by (auto simp: flag_bits)
  show ?thesis using assms(1-4) b by (auto simp: board_defs nth_list_update)
qed

lemma drop_tail_board:
  assumes "board_ok w h cs pos" "2 \<le> length pos"
  shows "\<exists>cs'. drop_tail cs pos = Inr (cs', butlast pos) \<and> board_ok w h cs' (butlast pos)"
proof -
  obtain xs t where pos: "pos = xs @ [t]" using assms(2) by (cases pos rule: rev_cases) auto
  with assms(2) obtain x ys where xs: "xs = x # ys" by (cases xs) auto
  have d: "t \<notin> set xs" "t < length cs" "x \<noteq> t" using assms(1) pos xs by (auto simp: board_ok_def list_all_iff)
  have "board_ok w h (cs[t := cs ! t AND NOT FLAG_SNAKE]) xs"
    using assms(1) d xs unfolding pos by (auto simp: board_defs nth_list_update)
  then show ?thesis using d pos xs by (simp add: drop_tail_def)
qed

lemma update_eat:
  assumes "board_ok w h cs pos" "n < length cs" "\<not> has_flag (cs ! n) FLAG_WALL" "n \<notin> set pos" "has_flag (cs ! n) FLAG_FOOD"
    "cs1 = cs[n := (cs ! n OR FLAG_SNAKE) AND NOT FLAG_FOOD]" "place_food rnd w h cs1 s = Inr (cs2, s')"
  shows "board_ok w h cs2 (n # pos)"
    "\<exists>cs3. drop_tail cs2 (n # pos) = Inr (cs3, n # butlast pos) \<and> board_ok w h cs3 (n # butlast pos)"
proof -
  have "board_ok w h cs1 (n # pos)" using add_head_board[OF assms(1-4)] assms(6) by simp
  then show b: "board_ok w h cs2 (n # pos)" using place_food_cases[of w h cs1 "n # pos" rnd s] assms(7) by auto
  have "pos \<noteq> []" using assms(1) by (simp add: board_ok_def)
  then show "\<exists>cs3. drop_tail cs2 (n # pos) = Inr (cs3, n # butlast pos) \<and> board_ok w h cs3 (n # butlast pos)"
    using drop_tail_board[OF b] by (cases pos) auto
qed

text \<open>A snake may enter the cell its tail leaves: the cell keeps the flag.\<close>

lemma update_plain:
  assumes "board_ok w h cs pos" "n < length cs" "\<not> has_flag (cs ! n) FLAG_WALL" "n \<in> set pos \<Longrightarrow> last pos = n" "n \<noteq> hd pos"
    "\<not> has_flag (cs ! n) FLAG_FOOD"
  shows "\<exists>cs'. drop_tail (cs[n := cs ! n OR FLAG_SNAKE]) (n # pos) = Inr (cs', n # butlast pos) \<and> board_ok w h cs' (n # butlast pos)"
proof (cases "n \<in> set pos")
  case False
  have "board_ok w h (cs[n := cs ! n OR FLAG_SNAKE]) (n # pos)" using add_head_board[OF assms(1-3) False] assms(6) by simp
  moreover have "pos \<noteq> []" using assms(1) by (simp add: board_ok_def)
  ultimately show ?thesis using drop_tail_board[of w h _ "n # pos"] by (cases pos) auto
next
  case True
  then obtain xs where pos: "pos = xs @ [n]" "xs \<noteq> []" using assms(4,5) True by (cases pos rule: rev_cases) (fastforce simp: hd_append)+
  have "bit (cs ! n) 0" using True assms(1,2) by (auto simp: board_defs)
  then have "cs ! n OR FLAG_SNAKE = cs ! n" by (intro bit_eqI) (auto simp: bit_or_iff flag_values)
  then have same: "cs[n := cs ! n OR FLAG_SNAKE] = cs" by simp
  have "board_ok w h cs (n # xs)" using assms(1) pos by (auto simp: board_ok_def list_all_iff)
  then show ?thesis using pos by (simp add: drop_tail_def same)
qed

text \<open>What a step may do to the game.\<close>

definition step_outcome :: "nat \<Rightarrow> input_key \<Rightarrow> bool \<Rightarrow> 'g game \<Rightarrow> 'g game \<Rightarrow> bool" where
  "step_outcome w input growing g g' \<longleftrightarrow>
     snake_dir g' = turn input (length (snake_pos g)) (snake_dir g) \<and>
     (let p = hd (snake_pos g); n = next_cell (snake_dir g') w p; c = cells g ! n in
      (n div w, n mod w) = grid_step (snake_dir g') (p div w, p mod w) \<and>
      (if has_flag c FLAG_WALL \<or> n \<in> set (butlast (snake_pos g))
       then g' = g\<lparr>snake_dir := snake_dir g', g_game_over := True\<rparr>
       else g_game_over g' = g_game_over g \<and>
         g_score g' = g_score g + (if has_flag c FLAG_FOOD then 1 else 0) \<and>
         snake_pos g' = n # (if has_flag c FLAG_FOOD \<and> growing then snake_pos g else butlast (snake_pos g))))"

text \<open>The one failure a good board allows.\<close>

abbreviation no_room :: cpp_error where
  "no_room \<equiv> AssertFailed ''ERROR:  No empty or grass-only cells to place food on board.''"

lemma update_cases:
  assumes "game_ok w h g"
  shows "update rnd w h input growing g =
           Inl (AssertFailed ''ERROR:  No empty or grass-only cells to place food on board.'') \<or>
         (\<exists>g'. update rnd w h input growing g = Inr g' \<and> game_ok w h g' \<and> step_outcome w input growing g g')"
proof -
  define d pos cs where "d = turn input (length (snake_pos g)) (snake_dir g)" and "pos = snake_pos g" and "cs = cells g"
  define n where "n = next_cell d w (hd pos)"
  have ok: "board_ok w h cs pos" using assms by (simp add: game_ok_def pos_def cs_def)
  then have ne: "pos \<noteq> []" "hd pos \<in> set pos" "distinct pos" by (auto simp: board_ok_def)
  have lt: "n < length cs" "n \<noteq> hd pos"
    and step: "(n div w, n mod w) = grid_step d (hd pos div w, hd pos mod w)"
    unfolding n_def by (rule next_cell_in_range[OF ok ne(2)])+
  have flag: "has_flag (cs ! n) FLAG_SNAKE \<longleftrightarrow> n \<in> set pos" using ok lt by (auto simp: board_ok_def list_all_iff)
  have split: "n \<in> set pos \<and> last pos \<noteq> n \<longleftrightarrow> n \<in> set (butlast pos)"
    using ne by (cases pos rule: rev_cases) auto
  have upd: "update rnd w h input growing g =
      (if has_flag (cs ! n) FLAG_WALL \<or> n \<in> set (butlast pos) then Inr (g\<lparr>snake_dir := d, g_game_over := True\<rparr>)
       else if has_flag (cs ! n) FLAG_FOOD
       then res_bind (place_food rnd w h (cs[n := (cs ! n OR FLAG_SNAKE) AND NOT FLAG_FOOD]) (seed g)) (\<lambda>(cs, s).
            res_bind (if \<not> growing then drop_tail cs (n # pos) else Inr (cs, n # pos)) (\<lambda>(cs, pos).
              Inr (g\<lparr>snake_dir := d, g_score := g_score g + 1, cells := cs, snake_pos := pos, seed := s\<rparr>)))
       else res_bind (drop_tail (cs[n := cs ! n OR FLAG_SNAKE]) (n # pos)) (\<lambda>(cs, pos).
            Inr (g\<lparr>snake_dir := d, cells := cs, snake_pos := pos\<rparr>)))"
    using ne lt flag split unfolding n_def d_def pos_def cs_def by (simp add: update_def Let_def flag_bits)
  show ?thesis
  proof (cases "has_flag (cs ! n) FLAG_WALL \<or> n \<in> set (butlast pos)")
    case True
    then show ?thesis using upd assms step by (simp add: step_outcome_def game_ok_def Let_def d_def n_def pos_def cs_def)
  next
    case alive: False
    then have tail: "n \<in> set pos \<Longrightarrow> last pos = n" and wall: "\<not> has_flag (cs ! n) FLAG_WALL" using split by auto
    show ?thesis
    proof (cases "has_flag (cs ! n) FLAG_FOOD")
      case False
      then show ?thesis using update_plain[OF ok lt(1) wall tail lt(2)] upd alive step
        by (fastforce simp: step_outcome_def game_ok_def Let_def d_def n_def pos_def cs_def)
    next
      case True
      then have out: "n \<notin> set pos" using ok by (auto simp: board_ok_def list_all_iff)
      define cs1 where "cs1 = cs[n := (cs ! n OR FLAG_SNAKE) AND NOT FLAG_FOOD]"
      have "board_ok w h cs1 (n # pos)" using add_head_board[OF ok lt(1) wall out] by (simp add: cs1_def)
      from place_food_cases[OF this, of rnd "seed g"] show ?thesis
      proof (elim disjE exE conjE)
        assume "place_food rnd w h cs1 (seed g) = Inl (AssertFailed ''ERROR:  No empty or grass-only cells to place food on board.'')"
        then show ?thesis using upd alive True by (simp add: cs1_def)
      next
        fix cs2 s' assume p: "place_food rnd w h cs1 (seed g) = Inr (cs2, s')" "board_ok w h cs2 (n # pos)"
        note eat = update_eat[OF ok lt(1) wall out True cs1_def p(1)]
        then show ?thesis using upd alive True step p(1)
          by (cases growing) (fastforce simp: step_outcome_def game_ok_def Let_def d_def n_def pos_def cs_def cs1_def)+
      qed
    qed
  qed
qed

lemmas flag_defs = has_flag_def FLAG_SNAKE_def FLAG_WALL_def FLAG_FOOD_def FLAG_GRASS_def PLAIN_CELL_def

lemma food_loop_numeral:
  "food_loop (numeral k) rnd area cs g =
     res_bind (generate_index rnd area g) (\<lambda>(i, g).
     res_bind (index_r cs i ''cells'') (\<lambda>c.
       if c = PLAIN_CELL \<or> c = FLAG_GRASS then Inr (cs[i := c OR FLAG_FOOD], g)
       else food_loop (pred_numeral k) rnd area cs g))"
  by (simp add: numeral_eq_Suc)

lemma upt_15: "[0..<15::nat] = [0, 1, 2, 3, 4, 5, 6, 7, 8, 9, 10, 11, 12, 13, 14]"
  by (simp add: upt_conv_Cons)

text \<open>A corridor of three cells: the snake, food and a free cell.\<close>

definition corridor :: "nat game" where
  "corridor = \<lparr>cells = [2,2,2,2,2, 2,1,4,0,2, 2,2,2,2,2], snake_dir = RIGHT, snake_pos = [6], g_game_over = False, g_score = 0, seed = 8\<rparr>"

lemma corridor_food:
  "place_food (\<lambda>r. (r, r)) 5 3 [2,2,2,2,2, 2,1,1,0,2, 2,2,2,2,2] 8 = Inr ([2,2,2,2,2, 2,1,1,4,2, 2,2,2,2,2], 8)"
  "place_food (\<lambda>r. (r, r)) 5 3 [2,2,2,2,2, 2,1,4,0,2, 2,2,2,2,2] 6 = Inl no_room"
  by (simp_all add: place_food_def sz_mul_def size_lim_def generate_index_def flag_defs food_loop_numeral)

section \<open>Whole games\<close>

text \<open>The only failure of a game on a good board is the assertion of \<open>place_food\<close>.\<close>

lemma game_loop_keeps:
  "game_ok w h g \<Longrightarrow> (case game_loop rnd w h grows ks g of Inl e \<Rightarrow> e = no_room | Inr g' \<Rightarrow> game_ok w h g')"
proof (induction ks arbitrary: g)
  case Nil
  then show ?case by simp
next
  case (Cons k ks)
  then show ?case using update_cases[OF Cons.prems, of rnd "get_input k" grows] Cons.IH
    by (auto split: sum.splits) fastforce+
qed

text \<open>
  \<open>place_food\<close> samples as often as there are cells, so it may miss every free cell: its assertion
  fails on a board that has one.
\<close>

lemma place_food_misses_free_cell:
  "\<exists>cs. cs ! 8 = PLAIN_CELL \<and> length cs = 5 * 3 \<and>
     place_food (\<lambda>r. (r, r)) 5 3 cs 6 = Inl no_room"
  using corridor_food(2) by (intro exI[of _ "[2,2,2,2,2, 2,1,4,0,2, 2,2,2,2,2]"]) (simp add: PLAIN_CELL_def)

text \<open>
  C9. On a board surrounded by walls a game, whatever keys are pressed and whatever numbers are drawn,
  never reads or writes out of bounds and never dereferences a null pointer: it can only fail the
  assertion of \<open>place_food\<close>. In every game it reaches, the cells with the snake's flag are exactly the
  cells of its list, each once, with no wall or food among them; and the next step moves the head by one
  row or one column in the chosen direction, ends the game exactly when that cell is a wall or a part of
  the snake that does not move away (and then moves nothing), adds the food eaten to the score and, when
  the snake grows, to its length.
\<close>

theorem games_are_safe:
  assumes "game_ok w h g"
  shows "case game_loop rnd w h grows ks g of Inl e \<Rightarrow> e = no_room
    | Inr g1 \<Rightarrow> game_ok w h g1 \<and>
        (update rnd w h input grows g1 = Inl no_room \<or>
         (\<exists>g2. update rnd w h input grows g1 = Inr g2 \<and> game_ok w h g2 \<and> step_outcome w input grows g1 g2))"
  using game_loop_keeps[OF assms, of rnd grows ks] update_cases[of w h _ rnd input grows] by (auto split: sum.splits)

theorem games_are_safe_witness:
  "game_ok 5 3 corridor \<and>
   (\<exists>g'. update (\<lambda>r. (r, r)) 5 3 INPUT_NONE False corridor = Inr g' \<and> game_ok 5 3 g' \<and> g_score g' = 1 \<and> snake_pos g' = [7])"
proof -
  have ok: "game_ok 5 3 corridor"
    by (simp add: game_ok_def board_ok_def corridor_def border_def flag_defs upt_15)
  have run: "update (\<lambda>r. (r, r)) 5 3 INPUT_NONE False corridor =
      Inr (corridor\<lparr>cells := [2,2,2,2,2, 2,0,1,4,2, 2,2,2,2,2], snake_pos := [7], g_score := 1\<rparr>)"
    using corridor_food(1) by (simp add: update_def drop_tail_def corridor_def flag_defs Let_def sz_add_def size_lim_def)
  show ?thesis using games_are_safe[OF ok, where rnd = "\<lambda>r. (r, r)" and grows = False and ks = "[]" and input = INPUT_NONE] ok run
    by (auto simp: corridor_def)
qed

end
