(* ===== verification/Snake_Setup.thy ===== *)
theory Snake_Setup
  imports Snake_Game
begin

text \<open>
  How a game is set up, \<open>snake/src/game_setup.c\<close> and \<open>game_setup.h\<close>: the default board, the parser of
  compressed boards such as \<open>B3x5|W5|W1S1E2W1|W5\<close>, and \<open>initialize_game\<close>. A C string is the list of its
  characters before the NUL; a cell that malloc gave and nothing wrote is \<open>None\<close>.
\<close>

section \<open>Definitions\<close>

datatype board_init_status =
    INIT_SUCCESS
  | INIT_ERR_INCORRECT_DIMENSIONS
  | INIT_ERR_WRONG_SNAKE_NUM
  | INIT_ERR_BAD_CHAR
  | INIT_UNIMPLEMENTED

text \<open>\<open>None\<close> is the null pointer of a failed malloc.\<close>

type_synonym board_cells = "u32 option list option"

subsection \<open>The default board\<close>

definition initialize_default_board :: "bool \<Rightarrow> (board_init_status \<times> u32 list \<times> nat \<times> nat) result" where
  "initialize_default_board malloc_ok =
     (if \<not> malloc_ok then Inl (UndefinedBehaviour ''null pointer'')
      else
        let cs = replicate (20 * 10) PLAIN_CELL;
            cs = fold (\<lambda>i cs. cs[i := FLAG_WALL, i + 20 * (10 - 1) := FLAG_WALL]) [0..<20] cs;
            cs = fold (\<lambda>i cs. cs[i * 20 := FLAG_WALL, i * 20 + 20 - 1 := FLAG_WALL]) [0..<10] cs;
            cs = fold (\<lambda>i cs. cs[i + 20 := FLAG_GRASS, i + 20 * (9 - 1) := FLAG_GRASS]) [1..<19] cs;
            cs = fold (\<lambda>i cs. cs[i * 20 + 1 := FLAG_GRASS, i * 20 + 19 - 1 := FLAG_GRASS]) [1..<9] cs;
            cs = cs[20 * 2 + 2 := FLAG_SNAKE]
        in Inr (INIT_SUCCESS, cs, 20, 10))"

subsection \<open>Numbers and dimensions\<close>

definition is_digit :: "char \<Rightarrow> bool" where
  "is_digit c \<longleftrightarrow> CHR ''0'' \<le> c \<and> c \<le> CHR ''9''"

text \<open>One more decimal digit of an \<open>int\<close>; signed overflow is undefined.\<close>

definition push_digit :: "nat \<Rightarrow> char \<Rightarrow> nat result" where
  "push_digit n c = (let m = 10 * n + (of_char c - 48) in
     if m < 2 ^ 31 then Inr m else Inl (UndefinedBehaviour ''int overflow''))"

text \<open>The end of the string is a NUL, which is not a digit. \<open>None\<close> is \<open>INIT_ERR_INCORRECT_DIMENSIONS\<close>.\<close>

fun set_dimensions_loop :: "string \<Rightarrow> bool \<Rightarrow> nat \<Rightarrow> nat \<Rightarrow> (nat \<times> nat) option result" where
  "set_dimensions_loop [] on_rows row_dim col_dim = Inr None"
| "set_dimensions_loop (c # cs) on_rows row_dim col_dim =
     (if c = CHR ''|'' then Inr (Some (row_dim, col_dim))
      else if c = CHR ''B'' then set_dimensions_loop cs on_rows row_dim col_dim
      else if c = CHR ''x'' then set_dimensions_loop cs False row_dim col_dim
      else if \<not> is_digit c then Inr None
      else if on_rows then res_bind (push_digit row_dim c) (\<lambda>r. set_dimensions_loop cs on_rows r col_dim)
      else res_bind (push_digit col_dim c) (\<lambda>k. set_dimensions_loop cs on_rows row_dim k))"

text \<open>The width and the height.\<close>

definition set_dimensions :: "string \<Rightarrow> (nat \<times> nat) option result" where
  "set_dimensions compressed =
     res_bind (set_dimensions_loop compressed True 0 0) (\<lambda>r. Inr (map_option (\<lambda>(row_dim, col_dim). (col_dim, row_dim)) r))"

subsection \<open>Rows\<close>

definition flag_of :: "char \<Rightarrow> u32 option" where
  "flag_of c = (if c = CHR ''S'' then Some FLAG_SNAKE else if c = CHR ''E'' then Some PLAIN_CELL
     else if c = CHR ''G'' then Some FLAG_GRASS else if c = CHR ''W'' then Some FLAG_WALL else None)"

text \<open>
  The recursion counts the cells left to fill; the second component is \<open>int num_snakes\<close>, whose overflow is undefined.
\<close>

primrec fill_cells :: "nat \<Rightarrow> nat \<Rightarrow> nat \<Rightarrow> char \<Rightarrow> board_cells \<times> nat \<Rightarrow> (board_init_status \<times> board_cells \<times> nat) result" where
  "fill_cells 0 area j flag st = Inr (INIT_SUCCESS, st)"
| "fill_cells (Suc n) area j flag st =
     (if area \<le> j then Inr (INIT_ERR_INCORRECT_DIMENSIONS, st)
      else case flag_of flag of
        None \<Rightarrow> Inr (INIT_ERR_BAD_CHAR, st)
      | Some v \<Rightarrow>
          case fst st of
            None \<Rightarrow> Inl (UndefinedBehaviour ''null pointer'')
          | Some cs \<Rightarrow>
              if flag = CHR ''S'' \<and> int (snd st) = INT_MAX then Inl (UndefinedBehaviour ''num_snakes += 1'')
              else fill_cells n area (j + 1) flag
                (Some (cs[j := Some v]), if flag = CHR ''S'' then snd st + 1 else snd st))"

fun read_count :: "nat \<Rightarrow> string \<Rightarrow> (nat \<times> string) result" where
  "read_count n [] = Inr (n, [])"
| "read_count n (c # cs) = (if is_digit c then res_bind (push_digit n c) (\<lambda>n. read_count n cs) else Inr (n, c # cs))"

lemma read_count_length: "read_count n s = Inr (k, r) \<Longrightarrow> length r \<le> length s"
  by (induction n s rule: read_count.induct) (auto simp: res_bind_Inr le_SucI split: if_splits)

text \<open>The runs of one row, with the next cell to fill and the cells of the row so far.\<close>

function row_loop :: "nat \<Rightarrow> string \<Rightarrow> nat \<Rightarrow> nat \<Rightarrow> board_cells \<times> nat \<Rightarrow> (board_init_status \<times> nat \<times> nat \<times> board_cells \<times> nat) result" where
  "row_loop area [] curr_cell in_row st = Inr (INIT_SUCCESS, curr_cell, in_row, st)"
| "row_loop area (c # row_token) curr_cell in_row st =
     (case read_count 0 row_token of
        Inl e \<Rightarrow> Inl e
      | Inr (count, row_token) \<Rightarrow>
          res_bind (fill_cells count area curr_cell c st) (\<lambda>(status, st).
            if status \<noteq> INIT_SUCCESS then Inr (status, curr_cell, in_row, st)
            else row_loop area row_token (curr_cell + count) (in_row + count) st))"
  by pat_completeness auto
termination
  by (relation "measure (\<lambda>(area, s, _). length s)") (auto dest!: read_count_length)

fun rows_loop :: "nat \<Rightarrow> nat \<Rightarrow> string list \<Rightarrow> nat \<Rightarrow> nat \<Rightarrow> board_cells \<times> nat \<Rightarrow> (board_init_status \<times> board_cells \<times> nat) result" where
  "rows_loop width height [] curr_row curr_cell st =
     Inr (if curr_row \<noteq> height then INIT_ERR_INCORRECT_DIMENSIONS else INIT_SUCCESS, st)"
| "rows_loop width height (row_token # rows) curr_row curr_cell st =
     res_bind (row_loop (width * height) row_token curr_cell 0 st) (\<lambda>(status, curr_cell, in_row, st).
       if status \<noteq> INIT_SUCCESS then Inr (status, st)
       else if in_row \<noteq> width then Inr (INIT_ERR_INCORRECT_DIMENSIONS, st)
       else rows_loop width height rows (curr_row + 1) curr_cell st)"

text \<open>\<open>strtok\<close> with the separator \<open>|\<close>: the pieces between separators that are not empty.\<close>

fun tokens :: "string \<Rightarrow> string \<Rightarrow> string list" where
  "tokens [] piece = (if piece = [] then [] else [rev piece])"
| "tokens (c # cs) piece =
     (if c = CHR ''|'' then (if piece = [] then [] else [rev piece]) @ tokens cs [] else tokens cs (c # piece))"

record board_setup =
  dims :: "(nat \<times> nat) option"
  board :: board_cells

text \<open>The status and what was written through the pointers.\<close>

definition decompress_board_str :: "bool \<Rightarrow> string \<Rightarrow> (board_init_status \<times> board_setup) result" where
  "decompress_board_str malloc_ok compressed =
     res_bind (set_dimensions compressed) (\<lambda>d.
       case d of
         None \<Rightarrow> Inr (INIT_ERR_INCORRECT_DIMENSIONS, \<lparr>dims = None, board = None\<rparr>)
       | Some (width, height) \<Rightarrow>
           let cs = if malloc_ok then Some (replicate (width * height) None) else None
           in res_bind (rows_loop width height (tl (tokens compressed [])) 0 0 (cs, 0)) (\<lambda>(status, cs, num_snakes).
                Inr (if status \<noteq> INIT_SUCCESS then status
                     else if num_snakes \<noteq> 1 then INIT_ERR_WRONG_SNAKE_NUM else INIT_SUCCESS,
                     \<lparr>dims = Some (width, height), board = cs\<rparr>)))"

subsection \<open>The game\<close>

text \<open>Reading memory nothing has written is undefined.\<close>

definition read_cell :: "board_cells \<Rightarrow> nat \<Rightarrow> u32 result" where
  "read_cell b i = (case b of
       None \<Rightarrow> Inl (UndefinedBehaviour ''uninitialised or null pointer'')
     | Some cs \<Rightarrow> if i < length cs
         then (case cs ! i of None \<Rightarrow> Inl (UndefinedBehaviour ''uninitialised cell'') | Some c \<Rightarrow> Inr c)
         else Inl (UndefinedBehaviour ''cells''))"

text \<open>The first cell with the snake's flag; 42 stays when there is none.\<close>

fun find_snake :: "board_cells \<Rightarrow> nat list \<Rightarrow> nat result" where
  "find_snake b [] = Inr 42"
| "find_snake b (i # is) = res_bind (read_cell b i) (\<lambda>c. if has_flag c FLAG_SNAKE then Inr i else find_snake b is)"

text \<open>\<open>place_food\<close> on a board that may have cells nothing wrote.\<close>

primrec food_loop_raw :: "nat \<Rightarrow> ('g \<Rightarrow> nat \<times> 'g) \<Rightarrow> nat \<Rightarrow> board_cells \<Rightarrow> 'g \<Rightarrow> (board_cells \<times> 'g) result" where
  "food_loop_raw 0 rnd area b g = Inl no_room"
| "food_loop_raw (Suc left) rnd area b g =
     res_bind (generate_index rnd area g) (\<lambda>(i, g).
     res_bind (read_cell b i) (\<lambda>c.
       if c = PLAIN_CELL \<or> c = FLAG_GRASS
       then Inr (map_option (\<lambda>cs. cs[i := Some (c OR FLAG_FOOD)]) b, g)
       else food_loop_raw left rnd area b g))"

text \<open>
  The status and the game with its width and height. \<open>board_rep\<close> is \<open>None\<close> for the null pointer. The
  board is written to and read whatever status the parser returned.
\<close>

definition initialize_game ::
  "bool \<Rightarrow> ('g \<Rightarrow> nat \<times> 'g) \<Rightarrow> string option \<Rightarrow> 'g \<Rightarrow> (board_init_status \<times> nat \<times> nat \<times> board_cells \<times> nat list \<times> 'g) result" where
  "initialize_game malloc_ok rnd board_rep g =
     (case board_rep of
        None \<Rightarrow>
          res_bind (initialize_default_board malloc_ok) (\<lambda>(status, cs, width, height).
          res_bind (food_loop_raw (sz_mul width height) rnd (sz_mul width height) (Some (map Some cs)) g) (\<lambda>(b, g).
            Inr (status, width, height, b, [42], g)))
      | Some compressed \<Rightarrow>
          res_bind (decompress_board_str malloc_ok compressed) (\<lambda>(status, s).
          case dims s of
            None \<Rightarrow> Inl (UndefinedBehaviour ''width and height are not initialised'')
          | Some (width, height) \<Rightarrow>
              res_bind (find_snake (board s) [0..<sz_mul width height]) (\<lambda>start.
              res_bind (food_loop_raw (sz_mul width height) rnd (sz_mul width height) (board s) g) (\<lambda>(b, g).
                Inr (status, width, height, b, [start], g)))))"

section \<open>The parser accepts every run-length encoding\<close>

fun show_nat :: "nat \<Rightarrow> string" where
  "show_nat n = (if n < 10 then [char_of (48 + n)] else show_nat (n div 10) @ [char_of (48 + n mod 10)])"

declare show_nat.simps [simp del]

definition show_run :: "char \<times> nat \<Rightarrow> string" where
  "show_run r = fst r # show_nat (snd r)"

definition show_row :: "(char \<times> nat) list \<Rightarrow> string" where
  "show_row row = concat (map show_run row)"

definition show_board :: "nat \<Rightarrow> (char \<times> nat) list list \<Rightarrow> string" where
  "show_board w rows = ''B'' @ show_nat (length rows) @ ''x'' @ show_nat w @ concat (map (\<lambda>row. CHR ''|'' # show_row row) rows)"

definition row_cells :: "(char \<times> nat) list \<Rightarrow> u32 list" where
  "row_cells row = concat (map (\<lambda>(c, n). replicate n (the (flag_of c))) row)"

definition snakes :: "u32 list \<Rightarrow> nat" where
  "snakes cs = length (filter (\<lambda>c. c = FLAG_SNAKE) cs)"

lemma snakes_append [simp]: "snakes (xs @ ys) = snakes xs + snakes ys" "snakes [] = 0"
  by (simp_all add: snakes_def)

lemma flag_of_snake: "flag_of c = Some v \<Longrightarrow> v = FLAG_SNAKE \<longleftrightarrow> c = CHR ''S''"
  by (auto simp: flag_of_def FLAG_SNAKE_def PLAIN_CELL_def FLAG_WALL_def FLAG_GRASS_def split: if_splits)

lemma snakes_replicate: "flag_of c = Some v \<Longrightarrow> snakes (replicate n v) = (if c = CHR ''S'' then n else 0)"
  using flag_of_snake[of c v] by (auto simp: snakes_def)

lemma flag_not_digit: "flag_of c \<noteq> None \<Longrightarrow> \<not> is_digit c \<and> c \<noteq> CHR ''|''"
  by (auto simp: flag_of_def is_digit_def less_eq_char_def split: if_splits)

subsection \<open>Numbers\<close>

definition digits_value :: "nat \<Rightarrow> string \<Rightarrow> nat" where
  "digits_value m ds = foldl (\<lambda>a c. 10 * a + (of_char c - 48)) m ds"

lemma digits_value_Cons [simp]: "digits_value m (c # ds) = digits_value (10 * m + (of_char c - 48)) ds" "digits_value m [] = m"
  by (simp_all add: digits_value_def)

lemma digits_value_append [simp]: "digits_value m (ds @ es) = digits_value (digits_value m ds) es"
  by (simp add: digits_value_def)

lemma digits_value_ge: "m \<le> digits_value m ds"
proof (induction ds arbitrary: m)
  case (Cons c ds)
  show ?case using Cons.IH[of "10 * m + (of_char c - 48)"] by (simp add: order_trans[OF _ Cons.IH])
qed simp

lemma digit_char: "d < 10 \<Longrightarrow> of_char (char_of (48 + d) :: char) = 48 + d \<and> is_digit (char_of (48 + d))" for d :: nat
  by (auto simp: is_digit_def less_eq_char_def)

lemma show_nat_digits: "list_all is_digit (show_nat n) \<and> digits_value 0 (show_nat n) = n \<and> show_nat n \<noteq> []"
proof (induction n rule: show_nat.induct)
  case (1 n)
  then show ?case using digit_char[of n] digit_char[of "n mod 10"]
    by (subst (1 2 3) show_nat.simps) auto
qed

lemma push_digit_ok: "10 * n + (of_char c - 48) < 2 ^ 31 \<Longrightarrow> push_digit n c = Inr (10 * n + (of_char c - 48))"
  by (simp add: push_digit_def Let_def)

lemma digits_fit:
  assumes "digits_value n (c # ds) < 2 ^ 31"
  shows "push_digit n c = Inr (10 * n + (of_char c - 48))"
  using assms digits_value_ge[of "10 * n + (of_char c - 48)" ds] by (simp add: push_digit_ok)

lemma read_count_digits:
  "list_all is_digit ds \<Longrightarrow> digits_value n ds < 2 ^ 31 \<Longrightarrow> read_count n (ds @ rest) = read_count (digits_value n ds) rest"
proof (induction ds arbitrary: n)
  case (Cons c ds)
  then show ?case using digits_fit[of n c ds] by simp
qed simp

lemma set_dimensions_digits:
  "list_all is_digit ds \<Longrightarrow> digits_value r ds < 2 ^ 31 \<Longrightarrow>
     set_dimensions_loop (ds @ rest) True r k = set_dimensions_loop rest True (digits_value r ds) k"
  "list_all is_digit ds \<Longrightarrow> digits_value k ds < 2 ^ 31 \<Longrightarrow>
     set_dimensions_loop (ds @ rest) False r k = set_dimensions_loop rest False r (digits_value k ds)"
proof (induction ds arbitrary: r k)
  case (Cons c ds)
  { case 1
    moreover have "c \<noteq> CHR ''|''" "c \<noteq> CHR ''B''" "c \<noteq> CHR ''x''" using 1 by (auto simp: is_digit_def less_eq_char_def)
    ultimately show ?case using digits_fit[of r c ds] Cons(1) by simp }
  { case 2
    moreover have "c \<noteq> CHR ''|''" "c \<noteq> CHR ''B''" "c \<noteq> CHR ''x''" using 2 by (auto simp: is_digit_def less_eq_char_def)
    ultimately show ?case using digits_fit[of k c ds] Cons(2) by simp }
qed simp_all

subsection \<open>What is filled so far\<close>

text \<open>The first cells hold \<open>xs\<close>, the rest was never written; the counter counts the snakes.\<close>

definition filled :: "nat \<Rightarrow> u32 list \<Rightarrow> board_cells \<times> nat" where
  "filled area xs = (Some (map Some xs @ replicate (area - length xs) None), snakes xs)"

lemma filled_start: "filled area [] = (Some (replicate area None), 0)"
  by (simp add: filled_def)

lemma filled_write:
  assumes "length xs < area" "flag_of c = Some v" "int (snakes (xs @ [v])) \<le> INT_MAX"
  shows "fill_cells (Suc n) area (length xs) c (filled area xs) = fill_cells n area (length (xs @ [v])) c (filled area (xs @ [v]))"
proof -
  obtain m where m: "area - length xs = Suc m" using assms(1) by (cases "area - length xs") auto
  then have "area - length (xs @ [v]) = m" by simp
  then show ?thesis using assms m flag_of_snake[OF assms(2)]
    by (auto simp add: filled_def list_update_append snakes_def)
qed

lemma filled_overflow:
  assumes "length xs < area" "flag_of c = Some v" "\<not> int (snakes (xs @ [v])) \<le> INT_MAX" "int (snakes xs) \<le> INT_MAX"
  shows "fill_cells (Suc n) area (length xs) c (filled area xs) = Inl (UndefinedBehaviour ''num_snakes += 1'')"
proof -
  have "v = FLAG_SNAKE" using assms(3,4) by (auto simp: snakes_def split: if_splits)
  then have "c = CHR ''S''" "int (snakes xs) = INT_MAX" using assms(3,4) flag_of_snake[OF assms(2)] by (auto simp: snakes_def)
  then show ?thesis using assms(1,2) by (simp add: filled_def)
qed

lemma fill_cells_ok:
  "flag_of c = Some v \<Longrightarrow> length xs + n \<le> area \<Longrightarrow> int (snakes (xs @ replicate n v)) \<le> INT_MAX \<Longrightarrow>
     fill_cells n area (length xs) c (filled area xs) = Inr (INIT_SUCCESS, filled area (xs @ replicate n v))"
proof (induction n arbitrary: xs)
  case 0
  then show ?case by simp
next
  case (Suc n)
  then show ?case using filled_write[of xs area c v n] Suc.IH[of "xs @ [v]"]
    by (simp del: fill_cells.simps add: replicate_append_same[symmetric] snakes_def split: if_splits)
qed

definition cell_flags :: "u32 set" where
  "cell_flags = {PLAIN_CELL, FLAG_SNAKE, FLAG_WALL, FLAG_GRASS}"

lemma fill_cells_inv:
  "length xs \<le> area \<Longrightarrow> set xs \<subseteq> cell_flags \<Longrightarrow> int (snakes xs) \<le> INT_MAX \<Longrightarrow>
     fill_cells n area (length xs) c (filled area xs) = Inl (UndefinedBehaviour ''num_snakes += 1'') \<or>
     (\<exists>status ys. fill_cells n area (length xs) c (filled area xs) = Inr (status, filled area ys) \<and> length ys \<le> area \<and>
       int (snakes ys) \<le> INT_MAX \<and> set ys \<subseteq> cell_flags \<and> (status = INIT_SUCCESS \<longrightarrow> length ys = length xs + n))"
proof (induction n arbitrary: xs)
  case 0
  then show ?case by auto
next
  case (Suc n)
  show ?case
  proof (cases "length xs < area \<and> flag_of c \<noteq> None")
    case False
    then show ?thesis using Suc.prems by (auto simp: not_less)
  next
    case True
    then obtain v where v: "flag_of c = Some v" by auto
    then have "set (xs @ [v]) \<subseteq> cell_flags"
      using Suc.prems by (auto simp: cell_flags_def flag_of_def split: if_splits)
    then show ?thesis using Suc.IH[of "xs @ [v]"] Suc.prems(3) True filled_write[OF _ v, of xs area n] filled_overflow[OF _ v, of xs area n]
      by (cases "int (snakes (xs @ [v])) \<le> INT_MAX") (simp_all del: fill_cells.simps snakes_append)
  qed
qed

lemma row_loop_inv:
  "row_loop area s (length xs) k (filled area xs) = Inr (status, n, k', st) \<Longrightarrow> length xs \<le> area \<Longrightarrow> set xs \<subseteq> cell_flags \<Longrightarrow>
     int (snakes xs) \<le> INT_MAX \<Longrightarrow>
     \<exists>ys. st = filled area ys \<and> length ys \<le> area \<and> set ys \<subseteq> cell_flags \<and> int (snakes ys) \<le> INT_MAX \<and>
       (status = INIT_SUCCESS \<longrightarrow> n = length ys \<and> length ys + k = length xs + k')"
proof (induction "length s" arbitrary: s xs k rule: less_induct)
  case less
  show ?case
  proof (cases s)
    case Nil
    then show ?thesis using less.prems by auto
  next
    case (Cons c t)
    show ?thesis
    proof (cases "read_count 0 t")
      case (Inl e)
      then show ?thesis using less.prems Cons by simp
    next
      case (Inr p)
      obtain count r where p: "p = (count, r)" by (cases p)
      then have len: "length r < length s" using read_count_length[of 0 t count r] Inr Cons by simp
      obtain st1 ys where f: "fill_cells count area (length xs) c (filled area xs) = Inr (st1, filled area ys)" "length ys \<le> area"
        "set ys \<subseteq> cell_flags" "st1 = INIT_SUCCESS \<longrightarrow> length ys = length xs + count" "int (snakes ys) \<le> INT_MAX"
        using fill_cells_inv[OF less.prems(2-4), of count c] less.prems(1) Cons Inr p by auto
      show ?thesis
      proof (cases "st1 = INIT_SUCCESS")
        case False
        then show ?thesis using less.prems f Cons Inr p by auto
      next
        case True
        then have "row_loop area r (length ys) (k + count) (filled area ys) = Inr (status, n, k', st)"
          using less.prems(1) f Cons Inr p by simp
        from less.hyps[OF len this f(2,3,5)] show ?thesis using f(4) True by auto
      qed
    qed
  qed
qed

lemma rows_loop_inv:
  "rows_loop w h rows r (length xs) (filled (w * h) xs) = Inr (INIT_SUCCESS, st) \<Longrightarrow> length xs = r * w \<Longrightarrow> length xs \<le> w * h \<Longrightarrow>
     set xs \<subseteq> cell_flags \<Longrightarrow> int (snakes xs) \<le> INT_MAX \<Longrightarrow> \<exists>ys. st = filled (w * h) ys \<and> length ys = w * h \<and> set ys \<subseteq> cell_flags"
proof (induction rows arbitrary: r xs)
  case Nil
  then show ?case by (auto simp: mult.commute split: if_splits)
next
  case (Cons row rows)
  then obtain status n k' st1 where row: "row_loop (w * h) row (length xs) 0 (filled (w * h) xs) = Inr (status, n, k', st1)"
    "status = INIT_SUCCESS" "k' = w" "rows_loop w h rows (r + 1) n st1 = Inr (INIT_SUCCESS, st)"
    by (auto simp: res_bind_Inr split: if_splits)
  obtain ys where ys: "st1 = filled (w * h) ys" "length ys \<le> w * h" "set ys \<subseteq> cell_flags" "n = length ys" "length ys = length xs + w"
    "int (snakes ys) \<le> INT_MAX"
    using row_loop_inv[OF row(1) Cons.prems(3-5)] row(2,3) by auto
  show ?case using Cons.IH[of "r + 1" ys] row(4) ys Cons.prems(2) by (simp add: add.commute)
qed

subsection \<open>Rows and boards\<close>

definition row_ok :: "nat \<Rightarrow> (char \<times> nat) list \<Rightarrow> bool" where
  "row_ok w row \<longleftrightarrow> list_all (\<lambda>(c, n). flag_of c \<noteq> None) row \<and> sum_list (map snd row) = w"

lemma show_row_parts:
  assumes "list_all (\<lambda>(c, n). flag_of c \<noteq> None) row"
  shows "CHR ''|'' \<notin> set (show_row row)" "read_count n (show_row row) = Inr (n, show_row row)" "row \<noteq> [] \<Longrightarrow> show_row row \<noteq> []"
proof -
  have d: "is_digit c \<Longrightarrow> c \<noteq> CHR ''|''" for c by (auto simp: is_digit_def less_eq_char_def)
  have "list_all is_digit (show_nat m)" for m using show_nat_digits by simp
  then show "CHR ''|'' \<notin> set (show_row row)" using assms d flag_not_digit
    by (fastforce simp: show_row_def show_run_def list_all_iff)
  show "read_count n (show_row row) = Inr (n, show_row row)"
    using assms flag_not_digit by (cases row) (auto simp: show_row_def show_run_def)
  show "row \<noteq> [] \<Longrightarrow> show_row row \<noteq> []" by (cases row) (auto simp: show_row_def show_run_def)
qed

lemma row_loop_ok:
  "list_all (\<lambda>(c, n). flag_of c \<noteq> None) row \<Longrightarrow> length xs + sum_list (map snd row) \<le> area \<Longrightarrow> sum_list (map snd row) < 2 ^ 31 \<Longrightarrow>
     int (snakes (xs @ row_cells row)) \<le> INT_MAX \<Longrightarrow> row_loop area (show_row row) (length xs) k (filled area xs) =
       Inr (INIT_SUCCESS, length (xs @ row_cells row), k + sum_list (map snd row), filled area (xs @ row_cells row))"
proof (induction row arbitrary: xs k)
  case Nil
  then show ?case by (simp add: show_row_def row_cells_def)
next
  case (Cons run row)
  obtain c n where run: "run = (c, n)" by (cases run)
  then obtain v where v: "flag_of c = Some v" using Cons.prems(1) by auto
  have count: "read_count 0 (show_nat n @ show_row row) = Inr (n, show_row row)"
    using read_count_digits[of "show_nat n" 0 "show_row row"] show_nat_digits[of n] Cons.prems run show_row_parts(2)[of row n]
    by simp
  have "show_row (run # row) = c # (show_nat n @ show_row row)" by (simp add: run show_row_def show_run_def)
  then show ?case using count fill_cells_ok[OF v, of xs n area] Cons.IH[of "xs @ replicate n v" "k + n"] Cons.prems run v
    by (simp add: row_cells_def add.assoc)
qed

lemma length_row_cells: "row_ok w row \<Longrightarrow> length (row_cells row) = w"
  by (auto simp: row_ok_def row_cells_def length_concat intro!: arg_cong[where f = sum_list])

lemma rows_loop_ok:
  "list_all (row_ok w) rows \<Longrightarrow> length xs + length rows * w \<le> w * h \<Longrightarrow> w < 2 ^ 31 \<Longrightarrow> r + length rows = h \<Longrightarrow>
     int (snakes (xs @ concat (map row_cells rows))) \<le> INT_MAX \<Longrightarrow>
     rows_loop w h (map show_row rows) r (length xs) (filled (w * h) xs) =
       Inr (INIT_SUCCESS, filled (w * h) (xs @ concat (map row_cells rows)))"
proof (induction rows arbitrary: xs r)
  case Nil
  then show ?case by simp
next
  case (Cons row rows)
  then have row: "row_ok w row" by simp
  then have "row_loop (w * h) (show_row row) (length xs) 0 (filled (w * h) xs) =
      Inr (INIT_SUCCESS, length (xs @ row_cells row), w, filled (w * h) (xs @ row_cells row))"
    using row_loop_ok[of row xs "w * h" 0] Cons.prems by (simp add: row_ok_def)
  then show ?case using Cons.IH[of "xs @ row_cells row" "r + 1"] Cons.prems row by (simp add: length_row_cells)
qed

lemma tokens_piece: "CHR ''|'' \<notin> set s \<Longrightarrow> tokens (s @ t) p = tokens t (rev s @ p)"
  by (induction s arbitrary: p) auto

lemma tokens_rows:
  "list_all (\<lambda>row. CHR ''|'' \<notin> set row \<and> row \<noteq> []) rows \<Longrightarrow> p \<noteq> [] \<Longrightarrow>
     tokens (concat (map (\<lambda>row. CHR ''|'' # row) rows)) p = rev p # rows"
proof (induction rows arbitrary: p)
  case Nil
  then show ?case by simp
next
  case (Cons row rows)
  then show ?case using tokens_piece[of row "concat (map (\<lambda>row. CHR ''|'' # row) rows)" "[]"] by simp
qed

lemma show_board_dims:
  assumes "rows \<noteq> []" "w < 2 ^ 31" "length rows < 2 ^ 31"
  shows "set_dimensions (show_board w rows) = Inr (Some (w, length rows))"
proof -
  obtain row rs where rows: "rows = row # rs" using assms(1) by (cases rows) auto
  define rest where "rest = concat (map (\<lambda>row. CHR ''|'' # show_row row) rows)"
  have rest: "\<exists>t. rest = CHR ''|'' # t" by (simp add: rest_def rows)
  have h: "list_all is_digit (show_nat (length rows))" "digits_value 0 (show_nat (length rows)) = length rows"
    and w: "list_all is_digit (show_nat w)" "digits_value 0 (show_nat w) = w" using show_nat_digits by auto
  have "set_dimensions_loop (show_board w rows) True 0 0 =
      set_dimensions_loop (show_nat (length rows) @ CHR ''x'' # show_nat w @ rest) True 0 0"
    by (simp add: show_board_def rest_def)
  also have "\<dots> = set_dimensions_loop (show_nat w @ rest) False (length rows) 0"
    using set_dimensions_digits(1)[OF h(1), of 0] h(2) assms(3) by simp
  also have "\<dots> = Inr (Some (length rows, w))"
    using set_dimensions_digits(2)[OF w(1), of 0] w(2) assms(2) rest by auto
  finally show ?thesis by (simp add: set_dimensions_def)
qed

lemma show_board_tokens:
  assumes "list_all (row_ok w) rows" "0 < w"
  shows "tl (tokens (show_board w rows) []) = map show_row rows"
proof -
  define hd_part where "hd_part = ''B'' @ show_nat (length rows) @ ''x'' @ show_nat w"
  have d: "is_digit c \<Longrightarrow> c \<noteq> CHR ''|''" for c by (auto simp: is_digit_def less_eq_char_def)
  have dig: "list_all is_digit (show_nat n)" for n using show_nat_digits by simp
  have bar: "CHR ''|'' \<notin> set hd_part" "hd_part \<noteq> []"
    using d dig[of "length rows"] dig[of w] by (auto simp: hd_part_def list_all_iff)
  have parts: "list_all (\<lambda>row. CHR ''|'' \<notin> set row \<and> row \<noteq> []) (map show_row rows)"
  proof -
    have "CHR ''|'' \<notin> set (show_row row) \<and> show_row row \<noteq> []" if "row \<in> set rows" for row
    proof -
      have r: "row_ok w row" using assms(1) that by (simp add: list_all_iff)
      then have "row \<noteq> []" using assms(2) by (auto simp: row_ok_def)
      then show ?thesis using show_row_parts(1,3)[of row] r by (simp add: row_ok_def)
    qed
    then show ?thesis by (simp add: list_all_iff)
  qed
  have "show_board w rows = hd_part @ concat (map (\<lambda>row. CHR ''|'' # row) (map show_row rows))"
    by (simp add: show_board_def hd_part_def comp_def)
  then show ?thesis using tokens_piece[OF bar(1)] tokens_rows[OF parts, of "rev hd_part"] bar(2) by simp
qed

text \<open>
  C17. Every run-length encoding of a board of \<open>w\<close> columns and any number of rows, whatever runs each row is
  cut into, is parsed back to exactly its cells, as long as the snake's cells can be counted in an \<open>int\<close>: the parser returns \<open>INIT_SUCCESS\<close> when one cell is the
  snake and \<open>INIT_ERR_WRONG_SNAKE_NUM\<close> when none or several are, and every cell has been written.
\<close>

theorem decompress_inverts_encoding:
  assumes "rows \<noteq> []" "list_all (row_ok w) rows" "0 < w" "w < 2 ^ 31" "length rows < 2 ^ 31"
    "int (snakes (concat (map row_cells rows))) \<le> INT_MAX"
  shows "decompress_board_str True (show_board w rows) =
    Inr (if snakes (concat (map row_cells rows)) = 1 then INIT_SUCCESS else INIT_ERR_WRONG_SNAKE_NUM,
      \<lparr>dims = Some (w, length rows), board = Some (map Some (concat (map row_cells rows)))\<rparr>)"
proof -
  have "length (concat (map row_cells rows)) = w * length rows"
    using assms(2) by (induction rows) (auto simp: length_row_cells)
  then show ?thesis
    using show_board_dims[OF assms(1,4,5)] show_board_tokens[OF assms(2,3)] rows_loop_ok[OF assms(2), of "[]" "length rows" 0] assms(4,6)
    by (simp add: decompress_board_str_def filled_start[symmetric]) (simp add: filled_def mult.commute)
qed

theorem decompress_inverts_encoding_witness:
  "decompress_board_str True ''B1x5|W1S1E2W1'' =
     Inr (INIT_SUCCESS, \<lparr>dims = Some (5, 1), board = Some [Some 2, Some 1, Some 0, Some 0, Some 2]\<rparr>)"
proof -
  define row where "row = [(CHR ''W'', 1::nat), (CHR ''S'', 1), (CHR ''E'', 2), (CHR ''W'', 1)]"
  have s: "show_board 5 [row] = ''B1x5|W1S1E2W1''" unfolding row_def by code_simp
  have c: "row_cells row = [2, 1, 0, 0, 2]"
    by (simp add: row_cells_def row_def flag_of_def flag_defs numeral_2_eq_2)
  have "row_ok 5 row" by (simp add: row_ok_def row_def flag_of_def)
  then show ?thesis using decompress_inverts_encoding[of "[row]" 5] by (simp add: s c snakes_def flag_defs INT_MAX_def)
qed

section \<open>From a board to a game\<close>

text \<open>Nothing is written through a null pointer.\<close>

lemma fill_cells_null: "fill_cells n a j c (None, 0) = Inr (status, y) \<Longrightarrow> y = (None, 0)"
  by (cases n) (auto split: option.splits if_splits)

lemma row_loop_null: "row_loop a t j q (None, 0) = Inr (status, j', q', y) \<Longrightarrow> y = (None, 0)"
proof (induction "length t" arbitrary: t j q rule: less_induct)
  case less
  show ?case
  proof (cases t)
    case Nil
    then show ?thesis using less.prems by simp
  next
    case (Cons c u)
    obtain n r where n: "read_count 0 u = Inr (n, r)" using less.prems Cons by (auto split: sum.splits)
    obtain s1 where f: "fill_cells n a j c (None, 0) = Inr (s1, None, 0)"
      using less.prems Cons n fill_cells_null[of n a j c] by (fastforce simp: res_bind_Inr)
    have "length r < length t" using read_count_length[OF n] Cons by simp
    then show ?thesis using less.hyps[of r "j + n" "q + n"] less.prems Cons n f by (auto split: if_splits)
  qed
qed

lemma rows_loop_null: "rows_loop w h rs r j (None, 0) = Inr (status, y) \<Longrightarrow> y = (None, 0)"
proof (induction rs arbitrary: r j)
  case (Cons t rs)
  then obtain s1 j1 q1 y1 where row: "row_loop (w * h) t j 0 (None, 0) = Inr (s1, j1, q1, y1)" by (auto simp: res_bind_Inr)
  then have "y1 = (None, 0)" by (rule row_loop_null)
  then show ?case using Cons row by (auto split: if_splits)
qed auto

lemma success_is_filled:
  assumes "decompress_board_str ok s = Inr (INIT_SUCCESS, st)"
  shows "\<exists>w h cs. st = \<lparr>dims = Some (w, h), board = Some (map Some cs)\<rparr> \<and> length cs = w * h \<and> set cs \<subseteq> cell_flags \<and> snakes cs = 1"
proof -
  obtain w h where d: "set_dimensions s = Inr (Some (w, h))"
    using assms by (auto simp: decompress_board_str_def res_bind_Inr split: option.splits)
  define start :: board_cells where "start = (if ok then Some (replicate (w * h) None) else None)"
  obtain b k where run: "rows_loop w h (tl (tokens s [])) 0 0 (start, 0) = Inr (INIT_SUCCESS, b, k)" "k = 1"
    "st = \<lparr>dims = Some (w, h), board = b\<rparr>"
    using assms d by (auto simp: decompress_board_str_def res_bind_Inr start_def split: if_splits)
  have ok using rows_loop_null[of w h "tl (tokens s [])" 0 0 INIT_SUCCESS "(b, k)"] run(1,2) by (cases ok) (auto simp: start_def)
  then have "(start, 0) = filled (w * h) []" by (simp add: start_def filled_def)
  then obtain ys where "(b, k) = filled (w * h) ys" "length ys = w * h" "set ys \<subseteq> cell_flags"
    using rows_loop_inv[of w h "tl (tokens s [])" 0 "[]" "(b, k)"] run(1) by (auto simp: INT_MAX_def)
  then show ?thesis using run by (intro exI[of _ w] exI[of _ h] exI[of _ ys]) (auto simp: filled_def)
qed

lemma food_loop_raw_filled:
  "food_loop_raw n rnd area (Some (map Some cs)) g =
     (case food_loop n rnd area cs g of Inl e \<Rightarrow> Inl e | Inr (cs', g') \<Rightarrow> Inr (Some (map Some cs'), g'))
   \<or> area \<noteq> length cs"
proof (cases "area = length cs")
  case True
  have "food_loop_raw n rnd (length cs) (Some (map Some cs)) g =
     (case food_loop n rnd (length cs) cs g of Inl e \<Rightarrow> Inl e | Inr (cs', g') \<Rightarrow> Inr (Some (map Some cs'), g'))"
  proof (induction n arbitrary: g)
    case (Suc n)
    show ?case
    proof (cases "generate_index rnd (length cs) g")
      case (Inr p)
      obtain i g1 where p: "p = (i, g1)" by (cases p)
      have lt: "i < length cs"
      proof -
        have "length cs mod 2 ^ 32 \<noteq> 0" "i < length cs mod 2 ^ 32"
          using Inr p by (auto simp: generate_index_def Let_def split: if_splits prod.splits)
        then show ?thesis by (meson less_le_trans mod_less_eq_dividend)
      qed
      then show ?thesis using Suc Inr p by (simp add: read_cell_def map_update)
    qed simp
  qed simp
  then show ?thesis using True by simp
qed simp

lemma raw_place_food:
  assumes "board_ok w h cs pos"
  shows "food_loop_raw (sz_mul w h) rnd (sz_mul w h) (Some (map Some cs)) g = Inl no_room \<or>
    (\<exists>cs' g'. food_loop_raw (sz_mul w h) rnd (sz_mul w h) (Some (map Some cs)) g = Inr (Some (map Some cs'), g') \<and> board_ok w h cs' pos)"
proof -
  have "sz_mul w h = length cs" using assms by (simp add: board_ok_def size_lim_def)
  then show ?thesis
    using place_food_cases[OF assms, of rnd g] food_loop_raw_filled[of "sz_mul w h" rnd "sz_mul w h" cs g] by (auto simp: place_food_def)
qed

lemma cell_flag_bits:
  "c \<in> cell_flags \<Longrightarrow> has_flag c FLAG_SNAKE \<longleftrightarrow> c = FLAG_SNAKE" "c \<in> cell_flags \<Longrightarrow> has_flag c FLAG_WALL \<longleftrightarrow> c = FLAG_WALL"
  "c \<in> cell_flags \<Longrightarrow> \<not> has_flag c FLAG_FOOD"
  by (auto simp: cell_flags_def flag_defs)

lemma snakes_one:
  assumes "snakes cs = 1"
  shows "\<exists>i. i < length cs \<and> cs ! i = FLAG_SNAKE \<and> (\<forall>j < length cs. cs ! j = FLAG_SNAKE \<longrightarrow> j = i)"
proof -
  have "card {i. i < length cs \<and> cs ! i = FLAG_SNAKE} = 1"
    using assms by (simp add: snakes_def length_filter_conv_card)
  then obtain i where "{i. i < length cs \<and> cs ! i = FLAG_SNAKE} = {i}" by (auto simp: card_1_singleton_iff)
  then show ?thesis by blast
qed

lemma find_snake_finds:
  "i \<in> set is \<Longrightarrow> (\<And>j. j \<in> set is \<Longrightarrow> j < length cs) \<Longrightarrow> (\<And>j. j \<in> set is \<Longrightarrow> has_flag (cs ! j) FLAG_SNAKE \<longleftrightarrow> j = i) \<Longrightarrow>
     find_snake (Some (map Some cs)) is = Inr i"
  by (induction "is") (auto simp: read_cell_def)

lemma walled_game:
  assumes "length cs = w * h" "set cs \<subseteq> cell_flags" "snakes cs = 1" "w * h < 2 ^ 32"
    "\<And>i. i < w * h \<Longrightarrow> border w h i \<Longrightarrow> cs ! i = FLAG_WALL"
  shows "\<exists>i. board_ok w h cs [i] \<and> find_snake (Some (map Some cs)) [0..<sz_mul w h] = Inr i"
proof -
  obtain i where i: "i < length cs" "cs ! i = FLAG_SNAKE" "\<forall>j < length cs. cs ! j = FLAG_SNAKE \<longrightarrow> j = i"
    using snakes_one[OF assms(3)] by blast
  have f: "j < length cs \<Longrightarrow> cs ! j \<in> cell_flags" for j using assms(2) nth_mem by blast
  have sn: "j < length cs \<Longrightarrow> has_flag (cs ! j) FLAG_SNAKE \<longleftrightarrow> j = i" for j 
    using i(2,3) cell_flag_bits(1)[OF f, of j] by auto
  have "\<not> has_flag (cs ! i) FLAG_WALL" "\<not> has_flag (cs ! i) FLAG_FOOD" using i(1,2) f[of i] by (auto simp: flag_defs)
  moreover have "border w h j \<Longrightarrow> j < w * h \<Longrightarrow> has_flag (cs ! j) FLAG_WALL" for j
    using assms(5)[of j] by (simp add: flag_defs)
  ultimately have "board_ok w h cs [i]" 
    using assms(1,4) i(1) sn by (simp add: board_ok_def list_all_iff)
  moreover have "sz_mul w h = w * h" using assms(4) by (simp add: size_lim_def)
  then have "find_snake (Some (map Some cs)) [0..<sz_mul w h] = Inr i"
    using find_snake_finds[of i "[0..<sz_mul w h]" cs] i(1) sn assms(1) by simp
  ultimately show ?thesis by blast
qed

text \<open>
  C31. A board string that the parser accepts and that is surrounded by walls gives a game on which
  \<open>games_are_safe\<close> holds: \<open>initialize_game\<close> never touches memory it must not, finds the one snake of the
  board and starts its list there; it can only fail the assertion of \<open>place_food\<close>.
\<close>

theorem accepted_boards_are_playable:
  assumes "decompress_board_str ok s = Inr (INIT_SUCCESS, st)" "dims st = Some (w, h)" "w * h < 2 ^ 32"
    "\<forall>i < w * h. border w h i \<longrightarrow> read_cell (board st) i = Inr FLAG_WALL"
  shows "initialize_game ok rnd (Some s) g = Inl no_room \<or>
    (\<exists>cs start g'. initialize_game ok rnd (Some s) g = Inr (INIT_SUCCESS, w, h, Some (map Some cs), [start], g') \<and> board_ok w h cs [start])"
proof -
  obtain cs where st: "st = \<lparr>dims = Some (w, h), board = Some (map Some cs)\<rparr>" "length cs = w * h" "set cs \<subseteq> cell_flags" "snakes cs = 1"
    using success_is_filled[OF assms(1)] assms(2) by auto
  have "cs ! i = FLAG_WALL" if "i < w * h" "border w h i" for i using assms(4) that st(1,2) by (auto simp: read_cell_def)
  then obtain i where i: "board_ok w h cs [i]" "find_snake (Some (map Some cs)) [0..<sz_mul w h] = Inr i"
    using walled_game[OF st(2-4) assms(3)] by blast
  then show ?thesis using raw_place_food[OF i(1), of rnd g] assms(1) st(1) by (auto simp: initialize_game_def)
qed

lemma food_loop_raw_hit:
  "generate_index rnd area g = Inr (i, g') \<Longrightarrow> read_cell b i = Inr PLAIN_CELL \<Longrightarrow> 0 < n \<Longrightarrow>
     food_loop_raw n rnd area b g \<noteq> Inl no_room"
  by (cases n) simp_all

theorem accepted_boards_are_playable_witness:
  "(\<exists>st. decompress_board_str True ''B3x4|W4|W1S1E1W1|W4'' = Inr (INIT_SUCCESS, st)) \<and>
   (\<exists>cs start g'. initialize_game True (\<lambda>r. (6, r)) (Some ''B3x4|W4|W1S1E1W1|W4'') (0::nat) = Inr (INIT_SUCCESS, 4, 3, Some (map Some cs), [start], g') \<and>
      board_ok 4 3 cs [start])"
proof -
  define row where "row = [(CHR ''W'', 1::nat), (CHR ''S'', 1), (CHR ''E'', 1), (CHR ''W'', 1)]"
  define rows where "rows = [[(CHR ''W'', 4)], row, [(CHR ''W'', 4)]]"
  define cs :: "u32 list" where "cs = [2, 2, 2, 2, 2, 1, 0, 2, 2, 2, 2, 2]"
  have s: "show_board 4 rows = ''B3x4|W4|W1S1E1W1|W4''" unfolding rows_def row_def by code_simp
  have c: "concat (map row_cells rows) = cs"
    by (simp add: rows_def row_cells_def row_def flag_of_def flag_defs cs_def numeral_eq_Suc)
  have ok: "list_all (row_ok 4) rows" by (simp add: row_ok_def rows_def row_def flag_of_def)
  have n: "rows \<noteq> []" "length rows = 3" "snakes cs = 1" "length cs = 12" by (simp_all add: rows_def cs_def snakes_def flag_defs)
  have dec: "decompress_board_str True ''B3x4|W4|W1S1E1W1|W4'' = Inr (INIT_SUCCESS, \<lparr>dims = Some (4, 3), board = Some (map Some cs)\<rparr>)"
    using show_board_dims[of rows 4] show_board_tokens[OF ok] rows_loop_ok[OF ok, of "[]" 3 0] n
    by (simp add: decompress_board_str_def filled_start[symmetric] s c INT_MAX_def) (simp add: filled_def)
  have u: "[0..<12::nat] = [0, 1, 2, 3, 4, 5, 6, 7, 8, 9, 10, 11]" by (simp add: upt_conv_Cons)
  have wall: "\<forall>i < 4 * 3. border 4 3 i \<longrightarrow> read_cell (Some (map Some cs)) i = Inr FLAG_WALL"
  proof -
    have "list_all (\<lambda>i. border 4 3 i \<longrightarrow> read_cell (Some (map Some cs)) i = Inr FLAG_WALL) [0..<12]"
      by (simp add: u border_def read_cell_def cs_def flag_defs)
    then show ?thesis by (simp add: list_all_iff)
  qed
  have "initialize_game True (\<lambda>r. (6, r)) (Some ''B3x4|W4|W1S1E1W1|W4'') (0::nat) \<noteq> Inl no_room"
  proof -
    have "find_snake (Some (map Some cs)) [0..<12] = Inr 5" by (simp add: u read_cell_def cs_def flag_defs)
    moreover have "generate_index (\<lambda>r. (6, r)) 12 (0::nat) = Inr (6, 0)" by (simp add: generate_index_def)
    moreover have "read_cell (Some (map Some cs)) 6 = Inr PLAIN_CELL" by (simp add: read_cell_def cs_def PLAIN_CELL_def)
    moreover have "sz_mul 4 3 = 12" by (simp add: size_lim_def)
    ultimately show ?thesis
      using dec food_loop_raw_hit[of "\<lambda>r. (6, r)" 12 "0::nat" 6 0 "Some (map Some cs)" 12]
      by (cases "food_loop_raw 12 (\<lambda>r. (6, r)) 12 (Some (map Some cs)) (0::nat)") (simp_all add: initialize_game_def split: prod.split)
  qed
  then show ?thesis
    using accepted_boards_are_playable[OF dec, of 4 3 "\<lambda>r. (6, r)" "0::nat"] wall dec by auto
qed

text \<open>
  When the dimensions of a board string are malformed, \<open>initialize_game\<close> goes on all the same: it reads the
  width and the height, which nothing has initialised.
\<close>

theorem malformed_dimensions_are_used:
  assumes "set_dimensions s = Inr None"
  shows "decompress_board_str ok s = Inr (INIT_ERR_INCORRECT_DIMENSIONS, \<lparr>dims = None, board = None\<rparr>) \<and>
    initialize_game ok rnd (Some s) g = Inl (UndefinedBehaviour ''width and height are not initialised'')"
  using assms by (simp_all add: decompress_board_str_def initialize_game_def)

theorem malformed_dimensions_are_used_witness:
  "initialize_game True (\<lambda>r. (0, r)) (Some ''B2y2|S1'') (0::nat) = Inl (UndefinedBehaviour ''width and height are not initialised'')"
  by (rule malformed_dimensions_are_used[THEN conjunct2]) (simp add: set_dimensions_def is_digit_def push_digit_def Let_def less_eq_char_def)

end
