(* ===== verification/Snake_Text.thy ===== *)
theory Snake_Text
  imports Prelude
begin

text \<open>
  The text of the snake game: counting the UTF-8 characters of the player's name
  (\<open>snake/src/mbstrings.c\<close>) and reading it (\<open>read_name\<close> of \<open>game.c\<close>). A C string is the list of its
  bytes before the NUL.
\<close>

section \<open>Counting characters\<close>

text \<open>The byte at the end of the string is 0.\<close>

definition byte_at :: "bytes \<Rightarrow> nat \<Rightarrow> u8" where
  "byte_at bytes i = (if i < length bytes then bytes ! i else 0)"

primrec are_remaining_bytes_valid :: "nat \<Rightarrow> bytes \<Rightarrow> nat \<Rightarrow> bool \<times> nat" where
  "are_remaining_bytes_valid 0 bytes curr_p = (True, curr_p)"
| "are_remaining_bytes_valid (Suc num_to_check) bytes curr_p =
     (let curr_byte = byte_at bytes curr_p in
      if drop_bit 6 curr_byte = 2 then are_remaining_bytes_valid num_to_check bytes (curr_p + 1)
      else (False, curr_p))"

lemma are_remaining_bytes_valid_pos: "are_remaining_bytes_valid n bytes p = (ok, q) \<Longrightarrow> p \<le> q"
  by (induction n arbitrary: p) (force simp: Let_def split: if_splits)+

text \<open>\<open>None\<close> is the result \<open>-1\<close>.\<close>

function mbslen_loop :: "bytes \<Rightarrow> nat \<Rightarrow> nat \<Rightarrow> nat option" where
  "mbslen_loop bytes pos num_chars =
     (if byte_at bytes pos = 0 then Some num_chars
      else
        let curr_byte = byte_at bytes pos in
        if drop_bit 7 curr_byte = 0 then mbslen_loop bytes (pos + 1) (num_chars + 1)
        else if drop_bit 5 curr_byte = 6 then
          (case are_remaining_bytes_valid 1 bytes (pos + 1) of (ok, p) \<Rightarrow>
            if \<not> ok then None else mbslen_loop bytes p (num_chars + 1))
        else if drop_bit 4 curr_byte = 14 then
          (case are_remaining_bytes_valid 2 bytes (pos + 1) of (ok, p) \<Rightarrow>
            if \<not> ok then None else mbslen_loop bytes p (num_chars + 1))
        else if drop_bit 3 curr_byte = 30 then
          (case are_remaining_bytes_valid 3 bytes (pos + 1) of (ok, p) \<Rightarrow>
            if \<not> ok then None else mbslen_loop bytes p (num_chars + 1))
        else None)"
  by pat_completeness auto
termination
proof (relation "measure (\<lambda>(bytes, pos, n). length bytes - pos)", goal_cases)
  case 1
  then show ?case by simp
qed (auto simp: byte_at_def dest!: are_remaining_bytes_valid_pos[OF sym] split: if_splits)

declare mbslen_loop.simps [simp del]

text \<open>The value of type \<open>size_t\<close>; \<open>None\<close> is the null pointer.\<close>

definition mbslen :: "bytes option \<Rightarrow> nat" where
  "mbslen bytes = (case bytes of None \<Rightarrow> size_lim - 1
     | Some bs \<Rightarrow> (case mbslen_loop bs 0 0 of None \<Rightarrow> size_lim - 1 | Some n \<Rightarrow> n))"

section \<open>Reading the name\<close>

text \<open>
  What each call of \<open>read\<close> returned: \<open>None\<close> for an error. The name is at most 999 bytes, up to the first
  NUL; a final newline is dropped; the prompt is repeated until the name is not empty. The loop ends only
  when \<open>read\<close> does provide a name.
\<close>

definition accept_name :: "bytes \<Rightarrow> bytes" where
  "accept_name got =
     (let got = take 999 got;
          buf = (if got \<noteq> [] \<and> last got = 10 then butlast got else got)
      in takeWhile (\<lambda>c. c \<noteq> 0) buf)"

fun read_name :: "bytes option list \<Rightarrow> bytes result" where
  "read_name [] = Inl (NeverReturns ''read_name'')"
| "read_name (r # rs) =
     (case r of
        None \<Rightarrow> read_name rs
      | Some got \<Rightarrow>
          if got = [] then read_name rs
          else if accept_name got \<noteq> [] then Inr (accept_name got) else read_name rs)"

section \<open>The characters \<open>mbslen\<close> counts\<close>

definition continuation :: "u8 \<Rightarrow> bool" where
  "continuation b \<longleftrightarrow> drop_bit 6 b = 2"

text \<open>A leading byte and as many continuation bytes as it announces.\<close>

definition char_ok :: "bytes \<Rightarrow> bool" where
  "char_ok ch \<longleftrightarrow> (case ch of
      [] \<Rightarrow> False
    | b # rest \<Rightarrow> b \<noteq> 0 \<and> list_all continuation rest \<and>
        (drop_bit 7 b = 0 \<and> length rest = 0 \<or> drop_bit 5 b = 6 \<and> length rest = 1 \<or>
         drop_bit 4 b = 14 \<and> length rest = 2 \<or> drop_bit 3 b = 30 \<and> length rest = 3))"

lemma byte_at_append [simp]:
  "byte_at (xs @ ys) (length xs) = byte_at ys 0" "byte_at (xs @ ys) (length xs + n) = byte_at ys n"
  by (auto simp: byte_at_def nth_append)

lemma byte_at_0 [simp]: "byte_at (b # bs) 0 = b" "byte_at [] 0 = 0" "byte_at (b # bs) (Suc n) = byte_at bs n"
  by (auto simp: byte_at_def)

text \<open>The position advances over the continuation bytes.\<close>

lemma remaining_iff:
  "are_remaining_bytes_valid n (xs @ ys) (length xs) = (True, q) \<longleftrightarrow>
     (\<exists>cs zs. ys = cs @ zs \<and> length cs = n \<and> list_all continuation cs \<and> q = length xs + n)"
proof (induction n arbitrary: xs ys)
  case 0
  then show ?case by auto
next
  case (Suc n)
  show ?case
  proof (cases ys)
    case Nil
    then show ?thesis by (simp add: Let_def byte_at_def)
  next
    case (Cons y zs)
    have "are_remaining_bytes_valid (Suc n) (xs @ ys) (length xs) =
        (if continuation y then are_remaining_bytes_valid n ((xs @ [y]) @ zs) (length (xs @ [y])) else (False, length xs))"
      by (simp add: Cons Let_def continuation_def)
    moreover have "(\<exists>cs rest. ys = cs @ rest \<and> length cs = Suc n \<and> list_all continuation cs \<and> q = length xs + Suc n) \<longleftrightarrow>
        continuation y \<and> (\<exists>cs rest. zs = cs @ rest \<and> length cs = n \<and> list_all continuation cs \<and> q = length (xs @ [y]) + n)"
      (is "?l \<longleftrightarrow> ?r")
    proof
      assume ?l then show ?r using Cons by (auto simp: Cons_eq_append_conv)
    next
      assume ?r
      then obtain cs rest where "zs = cs @ rest" "length cs = n" "list_all continuation cs" "continuation y" "q = length (xs @ [y]) + n" by auto
      then show ?l using Cons by (intro exI[of _ "y # cs"] exI[of _ rest]) simp
    qed
    ultimately show ?thesis using Suc[of "xs @ [y]" zs] by simp
  qed
qed

definition lead :: "u8 \<Rightarrow> nat option" where
  "lead b = (if drop_bit 7 b = 0 then Some 0 else if drop_bit 5 b = 6 then Some 1
     else if drop_bit 4 b = 14 then Some 2 else if drop_bit 3 b = 30 then Some 3 else None)"

lemma lead_exclusive:
  "drop_bit 5 b = 6 \<Longrightarrow> drop_bit 7 b \<noteq> 0" "drop_bit 4 b = 14 \<Longrightarrow> drop_bit 7 b \<noteq> 0 \<and> drop_bit 5 b \<noteq> 6"
  "drop_bit 3 b = 30 \<Longrightarrow> drop_bit 7 b \<noteq> 0 \<and> drop_bit 5 b \<noteq> 6 \<and> drop_bit 4 b \<noteq> 14" for b :: u8
proof -
  have d: "drop_bit 7 b = drop_bit 2 (drop_bit 5 b)" "drop_bit 5 b = drop_bit 1 (drop_bit 4 b)" "drop_bit 4 b = drop_bit 1 (drop_bit 3 b)"
    by simp_all
  have v: "drop_bit 2 6 = (1::u8)" "drop_bit 1 14 = (7::u8)" "drop_bit 2 7 = (1::u8)" "drop_bit 1 30 = (15::u8)" "drop_bit 1 15 = (7::u8)"
    by code_simp+
  show "drop_bit 5 b = 6 \<Longrightarrow> drop_bit 7 b \<noteq> 0" using v by (simp only: d(1)) simp
  show "drop_bit 4 b = 14 \<Longrightarrow> drop_bit 7 b \<noteq> 0 \<and> drop_bit 5 b \<noteq> 6" using v by (simp only: d(1,2)) simp
  show "drop_bit 3 b = 30 \<Longrightarrow> drop_bit 7 b \<noteq> 0 \<and> drop_bit 5 b \<noteq> 6 \<and> drop_bit 4 b \<noteq> 14" using v by (simp only: d) simp
qed

lemma char_ok_Cons: "char_ok (b # rest) \<longleftrightarrow> b \<noteq> 0 \<and> list_all continuation rest \<and> lead b = Some (length rest)"
  using lead_exclusive[of b] by (auto simp: char_ok_def lead_def numeral_eq_Suc)

lemma mbslen_loop_step:
  "mbslen_loop bytes pos n =
     (if byte_at bytes pos = 0 then Some n
      else case lead (byte_at bytes pos) of
        None \<Rightarrow> None
      | Some k \<Rightarrow> (case are_remaining_bytes_valid k bytes (pos + 1) of (ok, p) \<Rightarrow>
          if ok then mbslen_loop bytes p (n + 1) else None))"
  by (subst mbslen_loop.simps) (simp add: lead_def Let_def split: prod.split del: are_remaining_bytes_valid.simps(2))

lemma mbslen_loop_char:
  assumes "char_ok ch"
  shows "mbslen_loop (pre @ ch @ rest) (length pre) n = mbslen_loop (pre @ ch @ rest) (length (pre @ ch)) (n + 1)"
proof -
  obtain b cs where ch: "ch = b # cs" using assms by (cases ch) (auto simp: char_ok_def)
  then have l: "b \<noteq> 0" "list_all continuation cs" "lead b = Some (length cs)" using assms by (auto simp: char_ok_Cons)
  obtain ok q where r: "are_remaining_bytes_valid (length cs) ((pre @ [b]) @ cs @ rest) (length (pre @ [b])) = (ok, q)"
    by (cases "are_remaining_bytes_valid (length cs) ((pre @ [b]) @ cs @ rest) (length (pre @ [b]))") auto
  have "are_remaining_bytes_valid (length cs) ((pre @ [b]) @ cs @ rest) (length (pre @ [b])) = (True, length (pre @ [b]) + length cs)"
    using l(2) by (subst remaining_iff) auto
  then show ?thesis using l by (subst mbslen_loop_step) (simp add: ch)
qed

lemma mbslen_loop_chars:
  "list_all char_ok chs \<Longrightarrow> mbslen_loop (pre @ concat chs @ rest) (length pre) n =
     mbslen_loop (pre @ concat chs @ rest) (length (pre @ concat chs)) (n + length chs)"
proof (induction chs arbitrary: pre n)
  case (Cons ch chs)
  then show ?case using mbslen_loop_char[of ch pre "concat chs @ rest" n] Cons.IH[of "pre @ ch" "n + 1"] by simp
qed simp

text \<open>
  The bytes that are counted: any character of the right shape, also one that UTF-8 does not allow.
\<close>

lemma mbslen_chars:
  assumes "list_all char_ok chs"
  shows "mbslen (Some (concat chs)) = length chs"
proof -
  have "mbslen_loop ([] @ concat chs @ []) (length ([] @ concat chs)) (length chs) = Some (length chs)"
    by (subst mbslen_loop_step) (simp add: byte_at_def)
  then show ?thesis using mbslen_loop_chars[OF assms, of "[]" "[]" 0] by (simp add: mbslen_def)
qed

text \<open>An overlong form of the code point 0, a surrogate, and a number beyond the last code point are characters for \<open>mbslen\<close>.\<close>

lemma mbslen_accepts_invalid:
  "mbslen (Some [0xC0, 0x80]) = 1" "mbslen (Some [0xED, 0xA0, 0x80]) = 1" "mbslen (Some [0xF4, 0x90, 0x80, 0x80]) = 1"
proof -
  have "list_all char_ok [[0xC0, 0x80]]" "list_all char_ok [[0xED, 0xA0, 0x80]]" "list_all char_ok [[0xF4, 0x90, 0x80, 0x80]]"
    by code_simp+
  from this[THEN mbslen_chars]
  show "mbslen (Some [0xC0, 0x80]) = 1" "mbslen (Some [0xED, 0xA0, 0x80]) = 1" "mbslen (Some [0xF4, 0x90, 0x80, 0x80]) = 1"
    by simp_all
qed

section \<open>UTF-8\<close>

text \<open>The code points of Unicode, other than 0, which ends a C string, and their encoding.\<close>

definition code_point :: "nat \<Rightarrow> bool" where
  "code_point c \<longleftrightarrow> 0 < c \<and> c \<le> 0x10FFFF \<and> \<not> (0xD800 \<le> c \<and> c \<le> 0xDFFF)"

definition utf8 :: "nat \<Rightarrow> bytes" where
  "utf8 c = map of_nat
     (if c < 0x80 then [c]
      else if c < 0x800 then [0xC0 + c div 0x40, 0x80 + c mod 0x40]
      else if c < 0x10000 then [0xE0 + c div 0x1000, 0x80 + c div 0x40 mod 0x40, 0x80 + c mod 0x40]
      else [0xF0 + c div 0x40000, 0x80 + c div 0x1000 mod 0x40, 0x80 + c div 0x40 mod 0x40, 0x80 + c mod 0x40])"

definition encode :: "nat list \<Rightarrow> bytes" where
  "encode cs = concat (map utf8 cs)"

definition tail_byte :: "u8 \<Rightarrow> bool" where
  "tail_byte b \<longleftrightarrow> 0x80 \<le> b \<and> b < 0xC0"

text \<open>Bytes that begin with no character: a byte that begins none, or a code point that is cut off.\<close>

definition broken :: "bytes \<Rightarrow> bool" where
  "broken t \<longleftrightarrow> t \<noteq> [] \<and> (tail_byte (hd t) \<or> 0xF8 \<le> hd t) \<or>
     (\<exists>c p s r. code_point c \<and> utf8 c = p @ s \<and> p \<noteq> [] \<and> s \<noteq> [] \<and> t = p @ r \<and> (r = [] \<or> \<not> tail_byte (hd r)))"

lemma unat_drop_byte: "unat (drop_bit k b) = unat b div 2 ^ k" for b :: u8
  by (subst unat_drop_bit_eq) (rule drop_bit_eq_div)

lemma drop_of_nat: "n < 256 \<Longrightarrow> drop_bit k (of_nat n :: u8) = of_nat (n div 2 ^ k)"
proof -
  assume n: "n < 256"
  then have "n div 2 ^ k < 256" using div_le_dividend[of n "2 ^ k"] by linarith
  then show ?thesis using n unat_drop_byte[of k "of_nat n"] unfolding word_unat_eq_iff by (simp add: unat_of_nat)
qed

lemma tail_continuation: "tail_byte b \<longleftrightarrow> continuation b"
proof -
  have "drop_bit 6 b = 2 \<longleftrightarrow> unat b div 64 = 2" using unat_drop_byte[of 6 b] unfolding word_unat_eq_iff by simp
  also have "\<dots> \<longleftrightarrow> 128 \<le> unat b \<and> unat b < 192" by linarith
  finally show ?thesis by (simp add: tail_byte_def continuation_def word_le_nat_alt word_less_nat_alt)
qed

lemma of_nat_byte_0: "n < 256 \<Longrightarrow> (of_nat n :: u8) = 0 \<longleftrightarrow> n = 0"
  by (simp add: word_unat_eq_iff unat_of_nat)

lemma utf8_char:
  assumes "code_point c"
  shows "char_ok (utf8 c)"
proof -
  have cont: "continuation (0x80 + of_nat (n mod 0x40))" for n
  proof -
    have "drop_bit 6 (of_nat (0x80 + n mod 0x40) :: u8) = of_nat ((0x80 + n mod 0x40) div 2 ^ 6)" by (rule drop_of_nat) simp
    moreover have "(0x80 + n mod 0x40) div 2 ^ 6 = 2" by simp
    ultimately show ?thesis by (simp add: continuation_def)
  qed
  have c: "0 < c" "c \<le> 0x10FFFF" using assms by (simp_all add: code_point_def)
  consider "c < 0x80" | "\<not> c < 0x80" "c < 0x800" | "\<not> c < 0x800" "c < 0x10000" | "\<not> c < 0x10000" by linarith
  then show ?thesis
  proof cases
    case 1
    then have "drop_bit 7 (of_nat c :: u8) = of_nat (c div 2 ^ 7)" "(of_nat c :: u8) \<noteq> 0" using drop_of_nat[of c 7] of_nat_byte_0[of c] c by simp_all
    then show ?thesis using 1 by (simp add: utf8_def char_ok_def)
  next
    case 2
    define n where "n = 0xC0 + c div 0x40"
    have n: "n < 256" "n \<noteq> 0" "n div 2 ^ 5 = 6" using 2 by (simp_all add: n_def)
    have "drop_bit 5 (of_nat n :: u8) = 6" "(of_nat n :: u8) \<noteq> 0" using drop_of_nat[OF n(1), of 5] of_nat_byte_0[OF n(1)] n by simp_all
    then show ?thesis using 2 cont by (simp add: utf8_def char_ok_def n_def)
  next
    case 3
    define n where "n = 0xE0 + c div 0x1000"
    have n: "n < 256" "n \<noteq> 0" "n div 2 ^ 4 = 14" using 3 by (simp_all add: n_def)
    have "drop_bit 4 (of_nat n :: u8) = 14" "(of_nat n :: u8) \<noteq> 0" using drop_of_nat[OF n(1), of 4] of_nat_byte_0[OF n(1)] n by simp_all
    then show ?thesis using 3 cont by (simp add: utf8_def char_ok_def n_def)
  next
    case 4
    define n where "n = 0xF0 + c div 0x40000"
    have n: "n < 256" "n \<noteq> 0" "n div 2 ^ 3 = 30" using 4 c by (simp_all add: n_def)
    have "drop_bit 3 (of_nat n :: u8) = 30" "(of_nat n :: u8) \<noteq> 0" using drop_of_nat[OF n(1), of 3] of_nat_byte_0[OF n(1)] n by simp_all
    then show ?thesis using 4 cont by (simp add: utf8_def char_ok_def n_def)
  qed
qed

lemma high_lead: "0xF8 \<le> b \<Longrightarrow> lead b = None" "tail_byte b \<Longrightarrow> lead b = None" for b :: u8
proof -
  have d: "drop_bit k b = of_nat (unat b div 2 ^ k)" for k using drop_of_nat[of "unat b" k] unsigned_less[of b] by simp
  have small: "(of_nat m :: u8) = of_nat n \<longleftrightarrow> m = n" if "m < 256" "n < 256" for m n
    using that by (simp add: word_unat_eq_iff unat_of_nat)
  have ne: "drop_bit k b \<noteq> of_nat n" if "unat b div 2 ^ k \<noteq> n" "n < 256" for k n
  proof -
    have "unat b < 256" using unsigned_less[where 'a = nat and w = b] by simp
    then have "unat b div 2 ^ k < 256" by (rule le_less_trans[OF div_le_dividend])
    then show ?thesis using small[of "unat b div 2 ^ k" n] that unfolding d by simp
  qed
  have none: "lead b = None" if "unat b div 128 \<noteq> 0" "unat b div 32 \<noteq> 6" "unat b div 16 \<noteq> 14" "unat b div 8 \<noteq> 30"
    using ne[of 7 0] ne[of 5 6] ne[of 4 14] ne[of 3 30] that by (simp add: lead_def)
  have lt: "unat b < 256" using unsigned_less[where 'a = nat and w = b] by simp
  show "lead b = None" if "0xF8 \<le> b"
  proof -
    have "248 \<le> unat b" using that by (simp add: word_le_nat_alt)
    then show ?thesis using lt by (intro none) linarith+
  qed
  show "lead b = None" if "tail_byte b"
  proof -
    have "128 \<le> unat b" "unat b < 192" using that by (simp_all add: tail_byte_def word_le_nat_alt word_less_nat_alt)
    then show ?thesis by (intro none) linarith+
  qed
qed

lemma broken_ends:
  assumes "broken t"
  shows "mbslen_loop (pre @ t) (length pre) n = None"
proof -
  consider "t \<noteq> []" "tail_byte (hd t) \<or> 0xF8 \<le> hd t"
    | c p s r where "code_point c" "utf8 c = p @ s" "p \<noteq> []" "s \<noteq> []" "t = p @ r" "r = [] \<or> \<not> tail_byte (hd r)"
    using assms unfolding broken_def by blast
  then show ?thesis
  proof cases
    case 1
    then obtain b u where t: "t = b # u" by (cases t) auto
    have "b \<noteq> 0" "lead b = None" using 1 t high_lead by (auto simp: tail_byte_def word_le_nat_alt)
    then show ?thesis by (subst mbslen_loop_step) (simp add: t)
  next
    case 2
    then obtain b u where p: "p = b # u" by (cases p) auto
    have ok: "char_ok (b # u @ s)" using utf8_char[OF 2(1)] 2(2) p by simp
    then have b: "b \<noteq> 0" "lead b = Some (length u + length s)" by (simp_all add: char_ok_Cons)
    obtain q q' where r: "are_remaining_bytes_valid (length u + length s) ((pre @ [b]) @ u @ r) (length (pre @ [b])) = (q, q')" by fastforce
    have "\<not> q"
    proof
      assume q
      then obtain cs zs where cs: "u @ r = cs @ zs" "length cs = length u + length s" "list_all continuation cs"
        using r remaining_iff[of "length u + length s" "pre @ [b]" "u @ r" q'] by auto
      then have "r \<noteq> []" using 2(4) by (auto dest: arg_cong[where f = length])
      then obtain x r' where x: "r = x # r'" by (cases r) auto
      have "cs ! length u = (u @ r) ! length u" using cs(1,2) 2(4) by (simp add: nth_append)
      then have "cs ! length u = x" by (simp add: x)
      moreover have "length u < length cs" using cs(2) 2(4) by simp
      ultimately have "continuation x" using cs(3) by (metis list_all_length)
      then show False using 2(6) x by (simp add: tail_continuation)
    qed
    then show ?thesis using r b by (subst mbslen_loop_step) (simp add: 2(5) p)
  qed
qed

text \<open>
  C37. \<open>mbslen\<close> of the UTF-8 encoding of any code points is their number. Of the null pointer it is \<open>(size_t) -1\<close>, and
  so it is of a string that has, after any code points, a byte that can begin none, or a code point that is cut off by
  the end of the string or by a byte that does not continue it.
\<close>

theorem mbslen_counts_characters:
  assumes "list_all code_point cs" "length (encode cs) < size_lim - 1"
  shows "mbslen None = size_lim - 1 \<and> mbslen (Some (encode cs)) = length cs \<and> length cs < size_lim - 1 \<and>
    (\<forall>t. broken t \<longrightarrow> mbslen (Some (encode cs @ t)) = size_lim - 1)"
proof -
  have chars: "list_all char_ok (map utf8 cs)" using assms(1) utf8_char by (simp add: list_all_iff)
  have "mbslen (Some (encode cs @ t)) = size_lim - 1" if "broken t" for t
    using mbslen_loop_chars[OF chars, of "[]" t 0] broken_ends[OF that, of "encode cs"] by (simp add: encode_def mbslen_def)
  moreover have "length cs \<le> length (encode cs)" by (induction cs) (simp_all add: encode_def utf8_def)
  ultimately show ?thesis using mbslen_chars[OF chars] assms(2) by (simp add: encode_def mbslen_def)
qed

text \<open>Code points of one, two, three and four bytes; and the same ones with the last byte missing.\<close>

theorem mbslen_counts_characters_witness:
  "encode [0x41, 0xE9, 0x20AC, 0x1F40D] = [0x41, 0xC3, 0xA9, 0xE2, 0x82, 0xAC, 0xF0, 0x9F, 0x90, 0x8D] \<and>
   mbslen (Some [0x41, 0xC3, 0xA9, 0xE2, 0x82, 0xAC, 0xF0, 0x9F, 0x90, 0x8D]) = 4 \<and>
   mbslen (Some [0x41, 0xC3, 0xA9, 0xE2, 0x82, 0xAC, 0xF0, 0x9F, 0x90]) = size_lim - 1"
proof -
  have e: "encode [0x41, 0xE9, 0x20AC, 0x1F40D] = [0x41, 0xC3, 0xA9, 0xE2, 0x82, 0xAC, 0xF0, 0x9F, 0x90, 0x8D]"
    "encode [0x41, 0xE9, 0x20AC] = [0x41, 0xC3, 0xA9, 0xE2, 0x82, 0xAC]" by (simp_all add: encode_def utf8_def)
  have "utf8 0x1F40D = [0xF0, 0x9F, 0x90] @ [0x8D]" "code_point 0x1F40D" by (simp_all add: utf8_def code_point_def)
  then have b: "broken [0xF0, 0x9F, 0x90]" unfolding broken_def by (intro disjI2 exI[of _ "0x1F40D"] exI[of _ "[0xF0, 0x9F, 0x90]"] exI[of _ "[0x8D]"] exI[of _ "[]"]) simp
  have c: "list_all code_point [0x41, 0xE9, 0x20AC, 0x1F40D]" "list_all code_point [0x41, 0xE9, 0x20AC]" by (simp_all add: code_point_def)
  show ?thesis
    using mbslen_counts_characters[OF c(1)] mbslen_counts_characters[OF c(2)] b by (simp add: e size_lim_def)
qed

end
