(* ===== verification/Weensy_Pages.thy ===== *)
theory Weensy_Pages
  imports Prelude
begin

text \<open>
  Physical memory of the teaching kernel: the constants of \<open>weensyos/x86-64.h\<close> and \<open>kernel.hh\<close>, the
  page allocator \<open>kalloc\<close> and \<open>kfree\<close> of \<open>kernel.cc\<close>, and the address checks and
  \<open>kalloc_pagetable\<close> of \<open>k-hardware.cc\<close>.

  Memory is addressed by a page address and the index of an eight-byte word in the page: the kernel
  code modelled here writes whole pages and page table entries only. Addresses are 64-bit words.
\<close>

section \<open>Constants\<close>

definition PAGEOFFBITS :: nat where "PAGEOFFBITS = 12"
definition PAGEINDEXBITS :: nat where "PAGEINDEXBITS = 9"
definition PAGESIZE :: u64 where "PAGESIZE = 0x1000"

definition PTE_P :: u64 where "PTE_P = 1"
definition PTE_W :: u64 where "PTE_W = 2"
definition PTE_U :: u64 where "PTE_U = 4"
definition PTE_PWU :: u64 where "PTE_PWU = 7"
definition PTE_PS :: u64 where "PTE_PS = 0x80"
definition PTE_PAMASK :: u64 where "PTE_PAMASK = 0x000FFFFFFFFFF000"

definition VA_LOWMAX :: u64 where "VA_LOWMAX = 0x00007FFFFFFFFFFF"
definition VA_HIGHMIN :: u64 where "VA_HIGHMIN = 0xFFFF800000000000"

definition va_is_canonical :: "u64 \<Rightarrow> bool" where
  "va_is_canonical va \<longleftrightarrow> va \<le> VA_LOWMAX \<or> VA_HIGHMIN \<le> va"

definition KERNEL_START_ADDR :: u64 where "KERNEL_START_ADDR = 0x40000"
definition KERNEL_STACK_TOP :: u64 where "KERNEL_STACK_TOP = 0x80000"
definition PROC_START_ADDR :: u64 where "PROC_START_ADDR = 0x100000"
definition MEMSIZE_PHYSICAL :: u64 where "MEMSIZE_PHYSICAL = 0x200000"
definition MEMSIZE_VIRTUAL :: u64 where "MEMSIZE_VIRTUAL = 0x300000"
definition NPAGES :: nat where "NPAGES = 512"

text \<open>The integer part of \<open>lib.hh\<close>: rounding, on \<open>T = uintptr_t\<close>.\<close>

definition round_down :: "u64 \<Rightarrow> u64 \<Rightarrow> u64" where
  "round_down x m = x - x mod m"

definition round_up :: "u64 \<Rightarrow> u64 \<Rightarrow> u64" where
  "round_up x m = round_down (x + m - 1) m"

section \<open>Pages\<close>

record kmem =
  pmem :: "u64 \<Rightarrow> nat \<Rightarrow> u64"
  refcount :: "nat \<Rightarrow> u8"

definition page_used :: "u8 \<Rightarrow> bool" where
  "page_used rc \<longleftrightarrow> rc \<noteq> 0"

definition page_valid :: "u8 \<Rightarrow> bool" where
  "page_valid rc \<longleftrightarrow> rc \<le> 16"

definition reserved_physical_address :: "u64 \<Rightarrow> bool" where
  "reserved_physical_address pa \<longleftrightarrow> pa < PAGESIZE \<or> 0xA0000 \<le> pa \<and> pa < 0x100000"

text \<open>The end of the kernel's data, \<open>_kernel_end\<close>, is set by the linker.\<close>

definition allocatable_physical_address :: "u64 \<Rightarrow> u64 \<Rightarrow> bool" where
  "allocatable_physical_address kernel_end pa \<longleftrightarrow>
     \<not> reserved_physical_address pa
     \<and> (pa < KERNEL_START_ADDR \<or> round_up kernel_end PAGESIZE \<le> pa)
     \<and> (pa < KERNEL_STACK_TOP - PAGESIZE \<or> KERNEL_STACK_TOP \<le> pa)
     \<and> pa < MEMSIZE_PHYSICAL"

definition memset_page :: "u64 \<Rightarrow> u64 \<Rightarrow> kmem \<Rightarrow> kmem" where
  "memset_page pa w st = st\<lparr>pmem := (pmem st)(pa := (\<lambda>_. w))\<rparr>"

definition incref :: "nat \<Rightarrow> kmem \<Rightarrow> kmem" where
  "incref n st = st\<lparr>refcount := (refcount st)(n := refcount st n + 1)\<rparr>"

text \<open>The pages left to try drive the recursion; the null pointer is 0.\<close>

primrec kalloc_loop :: "nat \<Rightarrow> u64 \<Rightarrow> nat \<Rightarrow> kmem \<Rightarrow> u64 \<times> kmem" where
  "kalloc_loop 0 kernel_end pageno st = (0, st)"
| "kalloc_loop (Suc tries) kernel_end pageno st =
     (let pa = of_nat pageno * PAGESIZE in
      if allocatable_physical_address kernel_end pa \<and> refcount st pageno = 0
      then (pa, memset_page pa 0xCCCCCCCCCCCCCCCC (incref pageno st))
      else kalloc_loop tries kernel_end ((pageno + 1) mod NPAGES) st)"

definition kalloc :: "u64 \<Rightarrow> u64 \<Rightarrow> kmem \<Rightarrow> u64 \<times> kmem" where
  "kalloc kernel_end sz st = (if PAGESIZE < sz then (0, st) else kalloc_loop NPAGES kernel_end 0 st)"

definition kfree :: "u64 \<Rightarrow> u64 \<Rightarrow> kmem \<Rightarrow> kmem" where
  "kfree kernel_end kptr st =
     (if kptr = 0 then st
      else if kptr mod PAGESIZE \<noteq> 0 then st
      else if MEMSIZE_PHYSICAL \<le> kptr then st
      else if \<not> allocatable_physical_address kernel_end kptr then st
      else
        let pageno = unat (kptr div PAGESIZE) in
        if refcount st pageno = 0 then st
        else st\<lparr>refcount := (refcount st)(pageno := refcount st pageno - 1)\<rparr>)"

definition kalloc_pagetable :: "u64 \<Rightarrow> kmem \<Rightarrow> u64 \<times> kmem" where
  "kalloc_pagetable kernel_end st =
     (case kalloc kernel_end PAGESIZE st of (pt, st) \<Rightarrow>
        (pt, if pt \<noteq> 0 then memset_page pt 0 st else st))"

section \<open>What the allocator guarantees\<close>

definition page_of :: "u64 \<Rightarrow> nat" where
  "page_of pa = unat (pa div PAGESIZE)"

text \<open>A free page: allocatable, page-aligned, and in no use.\<close>

definition page_aligned :: "u64 \<Rightarrow> bool" where
  "page_aligned pa \<longleftrightarrow> pa mod PAGESIZE = 0"

definition free_page :: "u64 \<Rightarrow> kmem \<Rightarrow> u64 \<Rightarrow> bool" where
  "free_page kernel_end st pa \<longleftrightarrow>
     allocatable_physical_address kernel_end pa \<and> page_aligned pa \<and> refcount st (page_of pa) = 0"

lemma page_address:
  assumes "n < NPAGES"
  shows "unat (of_nat n * PAGESIZE) = 4096 * n" "page_of (of_nat n * PAGESIZE) = n" "page_aligned (of_nat n * PAGESIZE)"
proof -
  have "n * 4096 < 2 ^ 64" using assms by (simp add: NPAGES_def)
  then show u: "unat (of_nat n * PAGESIZE) = 4096 * n" using assms
    by (simp add: PAGESIZE_def unat_word_ariths take_bit_eq_mod NPAGES_def unat_of_nat)
  show "page_of (of_nat n * PAGESIZE) = n"
    using u by (simp add: page_of_def unat_div PAGESIZE_def)
  show "page_aligned (of_nat n * PAGESIZE)"
    using u by (simp add: page_aligned_def word_unat_eq_iff unat_mod PAGESIZE_def)
qed

lemma page_number:
  assumes "allocatable_physical_address kernel_end pa" "page_aligned pa"
  shows "page_of pa < NPAGES" "of_nat (page_of pa) * PAGESIZE = pa" "pa \<noteq> 0"
proof -
  have lt: "unat pa < 2097152" using assms(1)
    by (simp add: allocatable_physical_address_def MEMSIZE_PHYSICAL_def word_less_nat_alt)
  have m: "unat pa mod 4096 = 0" using assms(2) by (simp add: page_aligned_def word_unat_eq_iff unat_mod PAGESIZE_def)
  show "page_of pa < NPAGES" using lt by (simp add: page_of_def unat_div PAGESIZE_def NPAGES_def)
  show "of_nat (page_of pa) * PAGESIZE = pa" using m lt div_mult_mod_eq[of "unat pa" 4096]
    by (simp add: word_unat_eq_iff page_of_def unat_div PAGESIZE_def unat_word_ariths take_bit_eq_mod unat_of_nat)
  show "pa \<noteq> 0" using assms(1) by (auto simp: allocatable_physical_address_def reserved_physical_address_def PAGESIZE_def)
qed

lemma free_pageD:
  assumes "free_page ke st pa"
  shows "page_of pa < NPAGES" "of_nat (page_of pa) * PAGESIZE = pa" "pa \<noteq> 0" "refcount st (page_of pa) = 0" "page_aligned pa"
    "allocatable_physical_address ke pa" "unat pa = 4096 * page_of pa"
proof -
  show a: "refcount st (page_of pa) = 0" "page_aligned pa" "allocatable_physical_address ke pa" using assms by (auto simp: free_page_def)
  show "page_of pa < NPAGES" "of_nat (page_of pa) * PAGESIZE = pa" "pa \<noteq> 0" using page_number[OF a(3,2)] by auto
  then show "unat pa = 4096 * page_of pa" using page_address(1)[of "page_of pa"] by simp
qed

lemma page_of_inj: "free_page ke st p \<Longrightarrow> free_page ke st' q \<Longrightarrow> page_of p = page_of q \<longleftrightarrow> p = q"
  by (metis free_pageD(2))

lemma kalloc_loop_cases:
  "tries + n = NPAGES \<Longrightarrow>
     (\<exists>pa. free_page ke st pa \<and> n \<le> page_of pa \<and> (\<forall>q. free_page ke st q \<and> n \<le> page_of q \<longrightarrow> page_of pa \<le> page_of q) \<and>
        kalloc_loop tries ke n st = (pa, memset_page pa 0xCCCCCCCCCCCCCCCC (incref (page_of pa) st)))
     \<or> kalloc_loop tries ke n st = (0, st) \<and> (\<forall>q. free_page ke st q \<longrightarrow> page_of q < n)"
proof (induction tries arbitrary: n)
  case 0
  then show ?case using free_pageD(1) by auto
next
  case (Suc tries)
  then have n: "n < NPAGES" by simp
  define pa where "pa = of_nat n * PAGESIZE"
  have pa: "page_of pa = n" "page_aligned pa" unfolding pa_def using page_address[OF n] by auto
  have at_n: "free_page ke st q \<Longrightarrow> page_of q = n \<Longrightarrow> q = pa" for q
    using free_pageD(2)[of ke st q] by (simp add: pa_def)
  show ?case
  proof (cases "free_page ke st pa")
    case True
    then have "kalloc_loop (Suc tries) ke n st = (pa, memset_page pa 0xCCCCCCCCCCCCCCCC (incref (page_of pa) st))"
      using pa by (simp add: Let_def pa_def[symmetric] free_page_def)
    then show ?thesis using True pa(1) by auto
  next
    case False
    have "tries = 0 \<or> (n + 1) mod NPAGES = n + 1" using Suc.prems by (cases tries) auto
    moreover have "\<not> (allocatable_physical_address ke pa \<and> refcount st n = 0)" using False pa by (auto simp: free_page_def)
    ultimately have step: "kalloc_loop (Suc tries) ke n st = kalloc_loop tries ke (n + 1) st"
      by (auto simp: Let_def pa_def[symmetric])
    have up: "free_page ke st q \<Longrightarrow> n \<le> page_of q \<longleftrightarrow> n + 1 \<le> page_of q" for q
      using at_n[of q] False by (auto simp: Suc_le_eq le_less)
    have "tries + (n + 1) = NPAGES" using Suc.prems by simp
    from Suc.IH[OF this] show ?thesis
    proof (elim disjE exE conjE)
      fix pb assume b: "free_page ke st pb" "n + 1 \<le> page_of pb"
        "\<forall>q. free_page ke st q \<and> n + 1 \<le> page_of q \<longrightarrow> page_of pb \<le> page_of q"
        "kalloc_loop tries ke (n + 1) st = (pb, memset_page pb 0xCCCCCCCCCCCCCCCC (incref (page_of pb) st))"
      then show ?thesis using up step by (intro disjI1 exI[of _ pb]) auto
    next
      assume "kalloc_loop tries ke (n + 1) st = (0, st)" "\<forall>q. free_page ke st q \<longrightarrow> page_of q < n + 1"
      then show ?thesis using up step by (metis not_less)
    qed
  qed
qed

lemma kalloc_cases:
  assumes "\<not> PAGESIZE < sz"
  obtains (page) pa where "free_page ke st pa" "\<forall>q. free_page ke st q \<longrightarrow> page_of pa \<le> page_of q"
      "kalloc ke sz st = (pa, memset_page pa 0xCCCCCCCCCCCCCCCC (incref (page_of pa) st))"
    | (full) "kalloc ke sz st = (0, st)" "\<nexists>q. free_page ke st q"
  using kalloc_loop_cases[of NPAGES 0 ke st] assms by (auto simp: kalloc_def)

lemma alloc_free_pages:
  assumes "free_page ke st pa"
  shows "free_page ke (memset_page pa w (incref (page_of pa) st)) q \<longleftrightarrow> free_page ke st q \<and> q \<noteq> pa"
proof -
  have "free_page ke (memset_page pa w (incref (page_of pa) st)) q \<longleftrightarrow> free_page ke st q \<and> page_of q \<noteq> page_of pa"
    using free_pageD(4)[OF assms] by (auto simp: free_page_def memset_page_def incref_def)
  then show ?thesis using page_of_inj[OF _ assms, of st q] by auto
qed

lemma kfree_own:
  assumes "free_page ke st pa"
  shows "refcount (kfree ke pa (memset_page pa w (incref (page_of pa) st))) = refcount st"
proof -
  note f = free_pageD[OF assms]
  have "\<not> MEMSIZE_PHYSICAL \<le> pa" "unat (pa div PAGESIZE) = page_of pa" "pa mod PAGESIZE = 0"
    using f(5,6) by (auto simp: allocatable_physical_address_def not_le page_of_def page_aligned_def)
  moreover have "(refcount st)(page_of pa := 0) = refcount st" using f(4) by (simp add: fun_upd_idem)
  ultimately show ?thesis using f(3,4,6)
    by (simp add: kfree_def memset_page_def incref_def Let_def del: mod_eq_0_iff_dvd)
qed

text \<open>
  \<open>kalloc\<close> of at most a page gives the lowest free page: it is page-aligned, not reserved, not kernel
  data, nobody used it, and only its contents (now \<open>0xCC\<close>) and its count (now 1) change, so no later
  allocation gives it again before it is freed; it fails, changing nothing, exactly when no page is free.
  Freeing the page at once restores all counts. A larger request always fails.
\<close>

theorem kalloc_gives_fresh_page:
  "if PAGESIZE < sz then kalloc ke sz st = (0, st)
   else if \<exists>q. free_page ke st q
   then \<exists>pa st'. kalloc ke sz st = (pa, st') \<and> free_page ke st pa \<and> pa \<noteq> 0 \<and>
       (\<forall>q. free_page ke st q \<longrightarrow> pa \<le> q) \<and> (\<forall>q. free_page ke st' q \<longleftrightarrow> free_page ke st q \<and> q \<noteq> pa) \<and>
       pmem st' = (pmem st)(pa := (\<lambda>_. 0xCCCCCCCCCCCCCCCC)) \<and> refcount st' = (refcount st)(page_of pa := 1) \<and>
       refcount (kfree ke pa st') = refcount st
   else kalloc ke sz st = (0, st)"
proof (cases "PAGESIZE < sz")
  case True
  then show ?thesis by (simp add: kalloc_def)
next
  case small: False
  then show ?thesis
  proof (cases rule: kalloc_cases[where ke = ke and st = st])
    case (page pa)
    define st' where "st' = memset_page pa 0xCCCCCCCCCCCCCCCC (incref (page_of pa) st)"
    have le: "\<forall>q. free_page ke st q \<longrightarrow> pa \<le> q" using page(1,2) by (auto simp: word_le_nat_alt free_pageD(7))
    have free: "\<forall>q. free_page ke st' q \<longleftrightarrow> free_page ke st q \<and> q \<noteq> pa" using alloc_free_pages[OF page(1)] by (simp add: st'_def)
    have kf: "refcount (kfree ke pa st') = refcount st" using kfree_own[OF page(1)] by (simp add: st'_def)
    have upd: "pmem st' = (pmem st)(pa := (\<lambda>_. 0xCCCCCCCCCCCCCCCC)) \<and> refcount st' = (refcount st)(page_of pa := 1)"
      using free_pageD(4)[OF page(1)] by (simp add: st'_def memset_page_def incref_def)
    have "kalloc ke sz st = (pa, st')" using page(3) by (simp add: st'_def)
    then show ?thesis using small page(1) free_pageD(3)[OF page(1)] le free kf upd by auto
  next
    case full
    then show ?thesis using small by simp
  qed
qed

theorem kalloc_gives_fresh_page_witness:
  "\<exists>st. kalloc 0x50000 0x1000 \<lparr>pmem = (\<lambda>_ _. 0), refcount = (\<lambda>_. 0)\<rparr> = (0x1000, st) \<and> refcount st = (\<lambda>_. 0)(1 := 1)"
proof -
  let ?st = "\<lparr>pmem = (\<lambda>_ _. 0), refcount = (\<lambda>_. 0)\<rparr>"
  have f: "free_page 0x50000 ?st 0x1000"
    by (simp add: free_page_def allocatable_physical_address_def reserved_physical_address_def page_aligned_def PAGESIZE_def
        KERNEL_START_ADDR_def KERNEL_STACK_TOP_def MEMSIZE_PHYSICAL_def)
  have small: "\<not> PAGESIZE < 0x1000" by (simp add: PAGESIZE_def)
  have ex: "\<exists>q. free_page 0x50000 ?st q" using f by blast
  obtain pa st where k: "kalloc 0x50000 0x1000 ?st = (pa, st)" "free_page 0x50000 ?st pa" "pa \<le> 0x1000"
    "refcount st = (\<lambda>_. 0)(page_of pa := 1)"
    using kalloc_gives_fresh_page[of "0x1000" "0x50000" ?st, unfolded if_not_P[OF small] if_P[OF ex]] f
    by (elim exE conjE) simp
  have "0x1000 \<le> pa" using k(2)
    by (simp add: free_page_def allocatable_physical_address_def reserved_physical_address_def PAGESIZE_def not_less)
  then have "pa = 0x1000" using k(3) by simp
  then show ?thesis using k by (auto simp: page_of_def PAGESIZE_def)
qed

end
