(* ===== verification/Weensy_Vm.thy ===== *)
theory Weensy_Vm
  imports Weensy_Pages
begin

text \<open>
  The page table iterators of \<open>weensyos/k-vmiter.hh\<close> and \<open>k-vmiter.cc\<close>. A \<open>vmiter\<close> points at the entry
  that decides the mapping of one virtual address: the level of the entry is given by \<open>lbits\<close>, the number
  of address bits below it, and \<open>perm_\<close> collects the permissions of the levels above. A \<open>ptiter\<close> walks over
  the pages that hold a page table. The functions that can panic return a result.
\<close>

section \<open>vmiter\<close>

text \<open>The entry pointed at: the constant zero entry, or a word of a page.\<close>

datatype entry_ptr = ZeroEntry | Entry u64 nat

record vmiter =
  it_pt :: u64
  it_pep :: entry_ptr
  it_lbits :: nat
  it_perm :: u64
  it_va :: u64

definition initial_lbits :: nat where "initial_lbits = 39"
definition noncanonical_lbits :: nat where "noncanonical_lbits = 47"
definition done_lbits :: nat where "done_lbits = 64"
definition initial_perm :: u64 where "initial_perm = 0xFFF"

definition read_entry :: "kmem \<Rightarrow> entry_ptr \<Rightarrow> u64" where
  "read_entry st p = (case p of ZeroEntry \<Rightarrow> 0 | Entry pg i \<Rightarrow> pmem st pg i)"

definition write_entry :: "entry_ptr \<Rightarrow> u64 \<Rightarrow> kmem \<Rightarrow> kmem result" where
  "write_entry p e st = (case p of
       ZeroEntry \<Rightarrow> Inl (UndefinedBehaviour ''write to a constant'')
     | Entry pg i \<Rightarrow> Inr (st\<lparr>pmem := (pmem st)(pg := (pmem st pg)(i := e))\<rparr>))"

text \<open>The index of an address at the level whose entries have \<open>lbits\<close> bits below them.\<close>

definition va_index :: "u64 \<Rightarrow> nat \<Rightarrow> nat" where
  "va_index va lbits = unat (drop_bit lbits va AND 0x1FF)"

definition lbits_mask :: "nat \<Rightarrow> u64" where
  "lbits_mask lbits = NOT (push_bit lbits (NOT 0))"

text \<open>A present entry that points at a table of the next level.\<close>

definition is_table :: "u64 \<Rightarrow> bool" where
  "is_table e \<longleftrightarrow> e AND (PTE_P OR PTE_PS) = PTE_P"

function vm_down_loop :: "kmem \<Rightarrow> vmiter \<Rightarrow> vmiter" where
  "vm_down_loop st it =
     (if PAGEOFFBITS < it_lbits it \<and> is_table (read_entry st (it_pep it)) then
        let e = read_entry st (it_pep it);
            perm = it_perm it AND (e OR NOT (PTE_P OR PTE_W OR PTE_U));
            lbits = it_lbits it - PAGEINDEXBITS;
            pa = e AND PTE_PAMASK
        in vm_down_loop st (it\<lparr>it_perm := perm, it_lbits := lbits, it_pep := Entry pa (va_index (it_va it) lbits)\<rparr>)
      else it)"
  by pat_completeness auto
termination
  by (relation "measure (\<lambda>(st, it). it_lbits it)") (auto simp: PAGEINDEXBITS_def PAGEOFFBITS_def Let_def)

declare vm_down_loop.simps [simp del]

definition vm_down :: "kmem \<Rightarrow> vmiter \<Rightarrow> vmiter result" where
  "vm_down st it =
     (let it = vm_down_loop st it in
      if 0x100000000 \<le> read_entry st (it_pep it) AND PTE_PAMASK \<and> it_lbits it < PAGEOFFBITS + 2 * PAGEINDEXBITS
      then Inl (AssertFailed ''Page table may contain uninitialized memory!'')
      else Inr it)"

definition real_find :: "kmem \<Rightarrow> u64 \<Rightarrow> bool \<Rightarrow> vmiter \<Rightarrow> vmiter result" where
  "real_find st va stepping it =
     vm_down st
       ((if stepping \<and> va = 0 then it\<lparr>it_lbits := done_lbits, it_perm := 0, it_pep := ZeroEntry\<rparr>
         else if it_lbits it < initial_lbits
              \<and> (it_va it XOR va) AND push_bit (it_lbits it + PAGEINDEXBITS) (NOT 0) = 0
         then (case it_pep it of
                 ZeroEntry \<Rightarrow> it
               | Entry pg i \<Rightarrow> it\<lparr>it_pep := Entry pg (va_index va (it_lbits it))\<rparr>)
         else if \<not> va_is_canonical va then it\<lparr>it_lbits := noncanonical_lbits, it_perm := 0, it_pep := ZeroEntry\<rparr>
         else it\<lparr>it_lbits := initial_lbits, it_perm := initial_perm, it_pep := Entry (it_pt it) (va_index va initial_lbits)\<rparr>)
        \<lparr>it_va := va\<rparr>)"

definition new_vmiter :: "kmem \<Rightarrow> u64 \<Rightarrow> u64 \<Rightarrow> vmiter result" where
  "new_vmiter st pt va = real_find st va False
     \<lparr>it_pt = pt, it_pep = Entry pt 0, it_lbits = initial_lbits, it_perm = initial_perm, it_va = 0\<rparr>"

definition vm_done :: "vmiter \<Rightarrow> bool" where
  "vm_done it \<longleftrightarrow> it_lbits it = done_lbits"

definition vm_last_va :: "vmiter \<Rightarrow> u64" where
  "vm_last_va it = (if it_lbits it = noncanonical_lbits then VA_HIGHMIN else (it_va it OR lbits_mask (it_lbits it)) + 1)"

definition vm_range_size :: "vmiter \<Rightarrow> u64" where
  "vm_range_size it = vm_last_va it - it_va it"

definition vm_pa :: "kmem \<Rightarrow> vmiter \<Rightarrow> u64" where
  "vm_pa st it =
     (let e = read_entry st (it_pep it) in
      if e AND PTE_P \<noteq> 0 then
        let pa = e AND PTE_PAMASK;
            pa = (if PAGEOFFBITS < it_lbits it then pa AND NOT 0x1000 else pa)
        in pa + (it_va it AND lbits_mask (it_lbits it))
      else - 1)"

definition vm_kptr :: "kmem \<Rightarrow> vmiter \<Rightarrow> u64" where
  "vm_kptr st it = (if read_entry st (it_pep it) AND PTE_P \<noteq> 0 then vm_pa st it else 0)"

definition vm_perm :: "kmem \<Rightarrow> vmiter \<Rightarrow> u64" where
  "vm_perm st it = (let ph = read_entry st (it_pep it) AND it_perm it in ph AND - (ph AND PTE_P))"

definition vm_has_perm :: "kmem \<Rightarrow> vmiter \<Rightarrow> u64 \<Rightarrow> bool" where
  "vm_has_perm st it desired_perm \<longleftrightarrow> vm_perm st it AND desired_perm = desired_perm"

definition vm_present :: "kmem \<Rightarrow> vmiter \<Rightarrow> bool" where
  "vm_present st it = vm_has_perm st it PTE_P"

definition vm_writable :: "kmem \<Rightarrow> vmiter \<Rightarrow> bool" where
  "vm_writable st it = vm_has_perm st it (PTE_P OR PTE_W)"

definition vm_user :: "kmem \<Rightarrow> vmiter \<Rightarrow> bool" where
  "vm_user st it = vm_has_perm st it (PTE_P OR PTE_U)"

definition vm_find :: "kmem \<Rightarrow> u64 \<Rightarrow> vmiter \<Rightarrow> vmiter result" where
  "vm_find st va it = (if va \<noteq> it_va it then real_find st va False it else Inr it)"

text \<open>\<open>operator+=\<close>, \<open>operator-=\<close> and their copies.\<close>

definition vm_add :: "kmem \<Rightarrow> u64 \<Rightarrow> vmiter \<Rightarrow> vmiter result" where
  "vm_add st delta it = vm_find st (it_va it + delta) it"

definition vm_sub :: "kmem \<Rightarrow> u64 \<Rightarrow> vmiter \<Rightarrow> vmiter result" where
  "vm_sub st delta it = vm_find st (it_va it - delta) it"

definition vm_next :: "kmem \<Rightarrow> vmiter \<Rightarrow> vmiter result" where
  "vm_next st it =
     (let lbits = (if PAGEOFFBITS < it_lbits it \<and> vm_perm st it = 0 then it_lbits it else PAGEOFFBITS)
      in real_find st ((it_va it OR lbits_mask lbits) + 1) True it)"

definition vm_next_range :: "kmem \<Rightarrow> vmiter \<Rightarrow> vmiter result" where
  "vm_next_range st it = real_find st (vm_last_va it) True it"

subsection \<open>Changing mappings\<close>

text \<open>The result is 0 or -1. Every round goes one level down, so \<open>lbits\<close> bounds the rounds.\<close>

primrec map_levels :: "nat \<Rightarrow> u64 \<Rightarrow> u64 \<Rightarrow> kmem \<times> vmiter \<Rightarrow> (int \<times> kmem \<times> vmiter) result" where
  "map_levels 0 ke perm s = Inr (0, s)"
| "map_levels (Suc fuel) ke perm s =
     (case s of (st, it) \<Rightarrow>
       if PAGEOFFBITS < it_lbits it \<and> perm \<noteq> 0 then
         res_bind (assert_r (read_entry st (it_pep it) AND PTE_P = 0) ''!(*pep_ & PTE_P)'') (\<lambda>_.
         case kalloc ke PAGESIZE st of (pt, st) \<Rightarrow>
           if pt = 0 then Inr (- 1, st, it)
           else res_bind (write_entry (it_pep it) (pt OR PTE_P OR PTE_W OR PTE_U) (memset_page pt 0 st)) (\<lambda>st.
                res_bind (vm_down st it) (\<lambda>it. map_levels fuel ke perm (st, it))))
       else Inr (0, st, it))"

definition try_map :: "u64 \<Rightarrow> u64 \<Rightarrow> u64 \<Rightarrow> kmem \<times> vmiter \<Rightarrow> (int \<times> kmem \<times> vmiter) result" where
  "try_map ke pa perm s =
     (case s of (st, it) \<Rightarrow>
       let pa = (if pa = - 1 \<and> perm = 0 then 0 else pa) in
       res_bind (assert_r (it_va it mod PAGESIZE = 0) ''vmiter::try_map va not aligned'') (\<lambda>_.
       res_bind (if perm AND PTE_P \<noteq> 0
                 then res_bind (assert_r (pa \<noteq> - 1) ''vmiter::try_map mapping nonexistent pa'') (\<lambda>_.
                      assert_r (pa AND PTE_PAMASK = pa) ''vmiter::try_map pa not aligned'')
                 else assert_r (pa AND PTE_P = 0) ''vmiter::try_map invalid pa'') (\<lambda>_.
       res_bind (assert_r (perm AND NOT (it_perm it) AND (PTE_P OR PTE_W OR PTE_U) = 0) ''perm'') (\<lambda>_.
       res_bind (map_levels (it_lbits it) ke perm (st, it)) (\<lambda>(r, st, it).
         if r \<noteq> 0 then Inr (r, st, it)
         else if it_lbits it = PAGEOFFBITS
           then res_bind (write_entry (it_pep it) (pa OR perm) st) (\<lambda>st. Inr (0, st, it))
         else Inr (0, st, it))))))"

definition vm_map :: "u64 \<Rightarrow> u64 \<Rightarrow> u64 \<Rightarrow> kmem \<times> vmiter \<Rightarrow> (kmem \<times> vmiter) result" where
  "vm_map ke pa perm s = res_bind (try_map ke pa perm s) (\<lambda>(r, s).
     res_bind (assert_r (r = 0) ''vmiter::map failed'') (\<lambda>_. Inr s))"

text \<open>The overloads on kernel pointers also refuse the null pointer.\<close>

definition try_map_kptr :: "u64 \<Rightarrow> u64 \<Rightarrow> u64 \<Rightarrow> kmem \<times> vmiter \<Rightarrow> (int \<times> kmem \<times> vmiter) result" where
  "try_map_kptr ke kp perm s = res_bind (assert_r (kp \<noteq> 0) ''kp != nullptr'') (\<lambda>_. try_map ke kp perm s)"

definition vm_map_kptr :: "u64 \<Rightarrow> u64 \<Rightarrow> u64 \<Rightarrow> kmem \<times> vmiter \<Rightarrow> (kmem \<times> vmiter) result" where
  "vm_map_kptr ke kp perm s = res_bind (assert_r (kp \<noteq> 0) ''kp != nullptr'') (\<lambda>_. vm_map ke kp perm s)"

subsection \<open>Permissions of a range\<close>

text \<open>The loop advances the iterator, which the caller moves back; a range may have no end, so the result is optional.\<close>

partial_function (option) range_perm_loop :: "kmem \<Rightarrow> u64 \<Rightarrow> u64 \<Rightarrow> vmiter \<Rightarrow> (u64 \<times> vmiter) result option" where
  "range_perm_loop st p sz it =
     (if p \<noteq> 0 \<and> vm_last_va it - it_va it < sz then
        case vm_next_range st it of
          Inl e \<Rightarrow> Some (Inl e)
        | Inr it' \<Rightarrow> range_perm_loop st (p AND (if it_va it' \<noteq> 0 then vm_perm st it' else 0)) (sz - (vm_last_va it - it_va it)) it'
      else Some (Inr (p, it)))"

definition range_perm :: "kmem \<Rightarrow> u64 \<Rightarrow> vmiter \<Rightarrow> (u64 \<times> vmiter) result option" where
  "range_perm st sz it =
     map_option (\<lambda>r. res_bind r (\<lambda>(p, it'). res_bind (vm_find st (it_va it) it') (\<lambda>it''. Inr (p, it''))))
       (range_perm_loop st (if 0 < sz then vm_perm st it else - 1) sz it)"

definition has_range_perm :: "kmem \<Rightarrow> u64 \<Rightarrow> u64 \<Rightarrow> vmiter \<Rightarrow> bool result option" where
  "has_range_perm st sz desired_perm it =
     map_option (\<lambda>r. res_bind r (\<lambda>(p, it'). Inr (p AND desired_perm = desired_perm))) (range_perm st sz it)"

section \<open>ptiter\<close>

record ptiter =
  pt_pt :: u64
  pt_pep :: "u64 \<times> nat"
  pt_lbits :: nat
  pt_va :: u64

definition pt_entry :: "kmem \<Rightarrow> ptiter \<Rightarrow> u64" where
  "pt_entry st it = (case pt_pep it of (pg, i) \<Rightarrow> pmem st pg i)"

partial_function (option) pt_down :: "kmem \<Rightarrow> nat \<Rightarrow> bool \<Rightarrow> ptiter \<Rightarrow> ptiter option" where
  "pt_down st stop_lbits skip it =
     (if pt_lbits it < done_lbits then
        if \<not> skip \<and> is_table (pt_entry st it) then
          if pt_lbits it = stop_lbits then Some it
          else
            let lbits = pt_lbits it - PAGEINDEXBITS;
                pa = pt_entry st it AND PTE_PAMASK
            in pt_down st stop_lbits skip (it\<lparr>pt_lbits := lbits, pt_pep := (pa, va_index (pt_va it) lbits)\<rparr>)
        else
          let va = (pt_va it OR lbits_mask (pt_lbits it)) + 1 in
          if (va XOR pt_va it) AND NOT (lbits_mask (pt_lbits it + PAGEINDEXBITS)) \<noteq> 0 then
            if va = 0 \<and> pt_lbits it = initial_lbits then Some (it\<lparr>pt_lbits := done_lbits\<rparr>)
            else pt_down st (pt_lbits it + PAGEINDEXBITS) False
                   (it\<lparr>pt_lbits := initial_lbits, pt_pep := (pt_pt it, va_index (pt_va it) initial_lbits)\<rparr>)
          else pt_down st stop_lbits False
                 (it\<lparr>pt_pep := (case pt_pep it of (pg, i) \<Rightarrow> (pg, i + 1)), pt_va := (if va_is_canonical va then va else VA_HIGHMIN)\<rparr>)
      else Some it)"

definition pt_stop :: nat where "pt_stop = PAGEOFFBITS + PAGEINDEXBITS"

definition new_ptiter :: "kmem \<Rightarrow> u64 \<Rightarrow> ptiter option" where
  "new_ptiter st pt = pt_down st pt_stop False \<lparr>pt_pt = pt, pt_pep = (pt, 0), pt_lbits = initial_lbits, pt_va = 0\<rparr>"

definition pt_next :: "kmem \<Rightarrow> ptiter \<Rightarrow> ptiter option" where
  "pt_next st it = pt_down st pt_stop True it"

definition pt_done :: "ptiter \<Rightarrow> bool" where
  "pt_done it \<longleftrightarrow> pt_lbits it = done_lbits"

definition pt_pa :: "kmem \<Rightarrow> ptiter \<Rightarrow> u64" where
  "pt_pa st it = pt_entry st it AND PTE_PAMASK"

definition pt_iter_va :: "ptiter \<Rightarrow> u64" where
  "pt_iter_va it = pt_va it AND NOT (lbits_mask (pt_lbits it))"

definition pt_last_va :: "ptiter \<Rightarrow> u64" where
  "pt_last_va it = (pt_va it OR lbits_mask (pt_lbits it)) + 1"

definition pt_level :: "ptiter \<Rightarrow> int" where
  "pt_level it = (int (pt_lbits it) - int PAGEOFFBITS - int PAGEINDEXBITS) div int PAGEINDEXBITS"

section \<open>Moving an iterator is walking from the root\<close>

text \<open>An iterator at the entry for \<open>va\<close> of the table \<open>pg\<close>.\<close>

definition at_table :: "u64 \<Rightarrow> u64 \<Rightarrow> u64 \<Rightarrow> nat \<Rightarrow> u64 \<Rightarrow> vmiter" where
  "at_table pt va pg lbits perm = \<lparr>it_pt = pt, it_pep = Entry pg (va_index va lbits), it_lbits = lbits, it_perm = perm, it_va = va\<rparr>"

definition agree_above :: "nat \<Rightarrow> u64 \<Rightarrow> u64 \<Rightarrow> bool" where
  "agree_above n va va' \<longleftrightarrow> drop_bit n va = drop_bit n va'"

lemma agree_above_bits: "agree_above n va va' \<longleftrightarrow> (\<forall>k \<ge> n. bit va k = bit va' k)"
proof
  assume "agree_above n va va'"
  then have eq: "bit (drop_bit n va) j = bit (drop_bit n va') j" for j by (simp add: agree_above_def)
  have "bit va k = bit va' k" if "n \<le> k" for k using eq[of "k - n"] that by (simp add: bit_drop_bit_eq)
  then show "\<forall>k \<ge> n. bit va k = bit va' k" by simp
next
  assume "\<forall>k \<ge> n. bit va k = bit va' k"
  then show "agree_above n va va'" by (auto simp: agree_above_def bit_drop_bit_eq intro!: bit_word_eqI)
qed

lemma agree_above_mono: "agree_above n va va' \<Longrightarrow> n \<le> m \<Longrightarrow> agree_above m va va'"
  by (simp add: agree_above_bits)

lemma agree_above_index: "agree_above l va va' \<Longrightarrow> va_index va l = va_index va' l"
  by (simp add: agree_above_def va_index_def)

lemma xor_mask_agree: "(va XOR va') AND NOT (mask n) = 0 \<longleftrightarrow> agree_above n va va'"
proof -
  have "(va XOR va') AND NOT (mask n) = 0 \<longleftrightarrow> (\<forall>k. k < 64 \<and> n \<le> k \<longrightarrow> bit va k = bit va' k)"
    by (auto simp: bit_eq_iff bit_and_iff bit_xor_iff bit_mask_iff bit_not_iff dest: bit_imp_le_length)
  also have "\<dots> \<longleftrightarrow> agree_above n va va'"
  proof -
    have "k < 64" if "bit va k \<noteq> bit va' k" for k using that bit_imp_le_length[of va k] bit_imp_le_length[of va' k] by auto
    then show ?thesis by (auto simp: agree_above_bits)
  qed
  finally show ?thesis .
qed

lemma canonical_bits: "va_is_canonical va \<longleftrightarrow> drop_bit 47 va = 0 \<or> drop_bit 47 va = 0x1FFFF"
proof -
  have u: "unat (drop_bit 47 va) = unat va div 2 ^ 47" by (subst unat_drop_bit_eq) (rule drop_bit_eq_div)
  have lim: "unat va < 2 ^ 64" using unsigned_less[of va] by simp
  have "va \<le> VA_LOWMAX \<longleftrightarrow> unat va div 2 ^ 47 = 0" by (simp add: VA_LOWMAX_def word_le_nat_alt div_eq_0_iff) arith
  moreover have "VA_HIGHMIN \<le> va \<longleftrightarrow> unat va div 2 ^ 47 = 0x1FFFF"
    using lim by (simp add: VA_HIGHMIN_def word_le_nat_alt) arith
  ultimately show ?thesis by (simp add: va_is_canonical_def word_unat_eq_iff u)
qed

lemma canonical_agree: "agree_above n va va' \<Longrightarrow> n \<le> 47 \<Longrightarrow> va_is_canonical va \<longleftrightarrow> va_is_canonical va'"
  by (drule agree_above_mono) (auto simp: canonical_bits agree_above_def)

text \<open>One step of the loop, from table to table.\<close>

lemma down_at_table:
  "vm_down_loop st (at_table pt va pg l perm) =
     (let e = pmem st pg (va_index va l) in
      if PAGEOFFBITS < l \<and> is_table e
      then vm_down_loop st (at_table pt va (e AND PTE_PAMASK) (l - PAGEINDEXBITS) (perm AND (e OR NOT (PTE_P OR PTE_W OR PTE_U))))
      else at_table pt va pg l perm)"
  by (subst vm_down_loop.simps) (simp add: at_table_def read_entry_def Let_def)

lemma down_loop_prefix:
  "PAGEINDEXBITS * k + PAGEOFFBITS = l \<Longrightarrow>
     \<exists>pg' l' perm'. vm_down_loop st (at_table pt va0 pg l perm) = at_table pt va0 pg' l' perm' \<and> l' \<le> l \<and>
       (\<forall>va. agree_above (l' + PAGEINDEXBITS) va0 va \<longrightarrow>
          vm_down_loop st (at_table pt va pg l perm) = vm_down_loop st (at_table pt va pg' l' perm'))"
proof (induction k arbitrary: pg l perm)
  case 0
  then show ?case by (subst down_at_table) (auto simp: Let_def)
next
  case (Suc k)
  define e where "e = pmem st pg (va_index va0 l)"
  show ?case
  proof (cases "is_table e")
    case False
    then show ?thesis by (subst down_at_table) (auto simp: Let_def e_def[symmetric])
  next
    case True
    define pg1 perm1 where "pg1 = e AND PTE_PAMASK" and "perm1 = perm AND (e OR NOT (PTE_P OR PTE_W OR PTE_U))"
    have l: "PAGEINDEXBITS * k + PAGEOFFBITS = l - PAGEINDEXBITS" "PAGEOFFBITS < l" "PAGEINDEXBITS \<le> l"
      using Suc.prems by (auto simp: PAGEINDEXBITS_def)
    from Suc.IH[OF l(1), of pg1 perm1] obtain pg' l' perm' where
      ih: "vm_down_loop st (at_table pt va0 pg1 (l - PAGEINDEXBITS) perm1) = at_table pt va0 pg' l' perm'" "l' \<le> l - PAGEINDEXBITS"
        "\<And>va. agree_above (l' + PAGEINDEXBITS) va0 va \<Longrightarrow>
          vm_down_loop st (at_table pt va pg1 (l - PAGEINDEXBITS) perm1) = vm_down_loop st (at_table pt va pg' l' perm')"
      by blast
    have step: "vm_down_loop st (at_table pt va pg l perm) = vm_down_loop st (at_table pt va pg1 (l - PAGEINDEXBITS) perm1)"
      if "va_index va l = va_index va0 l" for va
      using True l that by (subst down_at_table) (simp add: Let_def e_def pg1_def perm1_def)
    have "va_index va l = va_index va0 l" if "agree_above (l' + PAGEINDEXBITS) va0 va" for va
      using agree_above_index[OF agree_above_mono[OF that, of l]] ih(2) l(3) by simp
    then show ?thesis using step ih
      by (intro exI[of _ pg'] exI[of _ l'] exI[of _ perm']) (auto intro: le_trans[OF ih(2)])
  qed
qed

lemma root_level: "PAGEINDEXBITS * 3 + PAGEOFFBITS = initial_lbits"
  by (simp add: PAGEINDEXBITS_def PAGEOFFBITS_def initial_lbits_def)

lemma new_vmiter_eq:
  "new_vmiter st pt va = vm_down st
     (if va_is_canonical va then at_table pt va pt initial_lbits initial_perm
      else \<lparr>it_pt = pt, it_pep = ZeroEntry, it_lbits = noncanonical_lbits, it_perm = 0, it_va = va\<rparr>)"
  by (simp add: new_vmiter_def real_find_def at_table_def)

lemma down_zero: "it_pep it = ZeroEntry \<Longrightarrow> vm_down st it = Inr it"
proof -
  assume z: "it_pep it = ZeroEntry"
  then have "vm_down_loop st it = it" by (subst vm_down_loop.simps) (simp add: read_entry_def is_table_def PTE_P_def)
  then show ?thesis using z by (simp add: vm_down_def read_entry_def)
qed

text \<open>
  An iterator is either past the canonical addresses or at an entry where the walk stops; all addresses
  that share the table of the entry are walked to from there.
\<close>

lemma new_vmiter_cases:
  assumes "new_vmiter st pt va0 = Inr it"
  obtains (hole) "\<not> va_is_canonical va0" "it = \<lparr>it_pt = pt, it_pep = ZeroEntry, it_lbits = noncanonical_lbits, it_perm = 0, it_va = va0\<rparr>"
    | (entry) pg l perm where "va_is_canonical va0" "it = at_table pt va0 pg l perm" "l \<le> initial_lbits"
        "\<And>va. agree_above (min (l + PAGEINDEXBITS) 47) va0 va \<Longrightarrow> new_vmiter st pt va = vm_down st (at_table pt va pg l perm)"
        "vm_down_loop st it = it"
proof (cases "va_is_canonical va0")
  case False
  then show ?thesis using assms by (intro hole) (simp_all add: new_vmiter_eq down_zero)
next
  case True
  obtain pg l perm where w: "vm_down_loop st (at_table pt va0 pt initial_lbits initial_perm) = at_table pt va0 pg l perm" "l \<le> initial_lbits"
    and pre: "\<And>va. agree_above (l + PAGEINDEXBITS) va0 va \<Longrightarrow>
       vm_down_loop st (at_table pt va pt initial_lbits initial_perm) = vm_down_loop st (at_table pt va pg l perm)"
    using down_loop_prefix[OF root_level, of st pt va0 pt initial_perm] by blast
  have it: "it = at_table pt va0 pg l perm" using assms True w(1) by (simp add: new_vmiter_eq vm_down_def Let_def split: if_splits)
  have step: "new_vmiter st pt va = vm_down st (at_table pt va pg l perm)" if a: "agree_above (min (l + PAGEINDEXBITS) 47) va0 va" for va
  proof -
    have "va_is_canonical va" using canonical_agree[OF a] True by simp
    then show ?thesis using pre[OF agree_above_mono[OF a]] by (simp add: new_vmiter_eq vm_down_def)
  qed
  have "vm_down_loop st it = it" using pre[of va0] w(1) it by (simp add: agree_above_def)
  then show ?thesis using entry[OF True it w(2) step] by simp
qed

text \<open>Stepping inside the current table gives what a walk from the root gives.\<close>

lemma real_find_eq:
  assumes "new_vmiter st pt va0 = Inr it" "va \<noteq> 0 \<or> \<not> stepping"
  shows "real_find st va stepping it = new_vmiter st pt va"
  using assms(1)
proof (cases rule: new_vmiter_cases)
  case hole
  then show ?thesis using assms(2)
    by (auto simp: real_find_def new_vmiter_eq at_table_def noncanonical_lbits_def initial_lbits_def)
next
  case (entry pg l perm)
  note it = entry(2)
  show ?thesis
  proof (cases "l < initial_lbits \<and> agree_above (l + PAGEINDEXBITS) va0 va")
    case False
    then show ?thesis using assms(2)
      by (auto simp: real_find_def it xor_mask_agree new_vmiter_eq) (auto simp: at_table_def xor_mask_agree)
  next
    case step: True
    then have "agree_above (min (l + PAGEINDEXBITS) 47) va0 va"
      by (simp add: initial_lbits_def PAGEINDEXBITS_def min_def)
    then have "new_vmiter st pt va = vm_down st (at_table pt va pg l perm)" by (rule entry(4))
    moreover have "real_find st va stepping it = vm_down st (at_table pt va pg l perm)"
      using step assms(2) by (cases stepping) (simp_all add: real_find_def it xor_mask_agree at_table_def)
    ultimately show ?thesis by simp
  qed
qed

lemma new_vmiter_va: "new_vmiter st pt va = Inr it \<Longrightarrow> it_va it = va"
  by (erule new_vmiter_cases) (auto simp: at_table_def)

text \<open>
  Moving an iterator gives the iterator a fresh walk from the root of the page table gives: \<open>find\<close>,
  \<open>+=\<close>, \<open>-=\<close>, and the steps of \<open>next\<close> and \<open>next_range\<close>, which start from the table the iterator is in when
  the address bits allow it; a step past the last address ends the iteration.
\<close>

theorem moving_is_walking:
  assumes "new_vmiter st pt va0 = Inr it"
  shows "vm_find st va it = new_vmiter st pt va \<and> vm_add st d it = new_vmiter st pt (va0 + d)
    \<and> vm_sub st d it = new_vmiter st pt (va0 - d)
    \<and> real_find st va True it =
        (if va = 0 then Inr (it\<lparr>it_lbits := done_lbits, it_perm := 0, it_pep := ZeroEntry, it_va := 0\<rparr>) else new_vmiter st pt va)"
proof -
  have find: "vm_find st va it = new_vmiter st pt va" for va
    using real_find_eq[OF assms, of va False] new_vmiter_va[OF assms] assms by (auto simp: vm_find_def)
  moreover have "real_find st 0 True it = Inr (it\<lparr>it_lbits := done_lbits, it_perm := 0, it_pep := ZeroEntry, it_va := 0\<rparr>)"
    by (simp add: real_find_def down_zero)
  ultimately show ?thesis using real_find_eq[OF assms, of va True] new_vmiter_va[OF assms] by (simp add: vm_add_def vm_sub_def)
qed

lemma down_loop_lbits: "it_lbits (vm_down_loop st it) \<le> it_lbits it"
proof (induction st it rule: vm_down_loop.induct)
  case (1 st it)
  show ?case
  proof (cases "PAGEOFFBITS < it_lbits it \<and> is_table (read_entry st (it_pep it))")
    case True
    then show ?thesis using "1.IH"[OF True refl refl refl refl]
      by (subst vm_down_loop.simps) (simp add: Let_def)
  next
    case False
    then show ?thesis by (subst vm_down_loop.simps) (simp only: if_not_P if_False le_refl)
  qed
qed

lemma same_entry:
  assumes "new_vmiter st pt va0 = Inr it" "agree_above (it_lbits it) va0 va"
  shows "new_vmiter st pt va = Inr (it\<lparr>it_va := va\<rparr>)"
  using assms(1)
proof (cases rule: new_vmiter_cases)
  case hole
  then have "\<not> va_is_canonical va" using canonical_agree[of 47 va0 va] assms(2) by (simp add: noncanonical_lbits_def)
  then show ?thesis using hole by (simp add: new_vmiter_eq down_zero)
next
  case (entry pg l perm)
  have a: "agree_above l va0 va" using assms(2) entry(2) by (simp add: at_table_def)
  have "l \<le> min (l + PAGEINDEXBITS) 47" using entry(3) by (simp add: initial_lbits_def)
  then have walk: "new_vmiter st pt va = vm_down st (at_table pt va pg l perm)" using entry(4) agree_above_mono[OF a] by blast
  have same: "at_table pt va pg l perm = it\<lparr>it_va := va\<rparr>" "at_table pt va pg l perm = at_table pt va0 pg l perm\<lparr>it_va := va\<rparr>"
    using agree_above_index[OF a] entry(2) by (simp_all add: at_table_def)
  have "\<not> (PAGEOFFBITS < l \<and> is_table (pmem st pg (va_index va0 l)))"
  proof
    assume c: "PAGEOFFBITS < l \<and> is_table (pmem st pg (va_index va0 l))"
    define e where "e = pmem st pg (va_index va0 l)"
    have "vm_down_loop st it = vm_down_loop st
        (at_table pt va0 (e AND PTE_PAMASK) (l - PAGEINDEXBITS) (perm AND (e OR NOT (PTE_P OR PTE_W OR PTE_U))))"
      unfolding entry(2) by (subst down_at_table) (simp add: c Let_def e_def)
    then have "it_lbits it \<le> l - PAGEINDEXBITS"
      using entry(5) down_loop_lbits[of st "at_table pt va0 (e AND PTE_PAMASK) (l - PAGEINDEXBITS)
        (perm AND (e OR NOT (PTE_P OR PTE_W OR PTE_U)))"] by (simp add: at_table_def)
    then have "l \<le> l - 9" "12 < l" using c entry(2) by (simp_all add: at_table_def PAGEINDEXBITS_def PAGEOFFBITS_def)
    then show False by linarith
  qed
  then have "vm_down_loop st (at_table pt va pg l perm) = at_table pt va pg l perm"
    using agree_above_index[OF a] by (subst down_at_table) (auto simp: Let_def)
  moreover have "vm_down st it = Inr it"
    using assms(1) walk entry(4)[of va0] entry(2) by (simp add: agree_above_def)
  ultimately show ?thesis using walk same entry(5) by (auto simp: vm_down_def Let_def split: if_splits)
qed

lemma drop_bit_mono: "a \<le> b \<Longrightarrow> drop_bit l a \<le> drop_bit l b" for a b :: u64
  by (simp only: word_le_nat_alt unat_drop_bit_eq) (simp add: drop_bit_eq_div div_le_mono)

lemma between_agree:
  assumes "va0 \<le> va" "va \<le> va0 OR mask l"
  shows "agree_above l va0 va"
proof -
  have "drop_bit l (va0 OR mask l) = drop_bit l va0"
    by (rule bit_word_eqI) (auto simp: bit_drop_bit_eq bit_or_iff bit_mask_iff)
  then show ?thesis using drop_bit_mono[OF assms(1), of l] drop_bit_mono[OF assms(2), of l] by (simp add: agree_above_def)
qed

lemma lbits_mask_eq: "lbits_mask l = mask l"
  by (simp add: lbits_mask_def)

text \<open>
  \<open>next\<close> moves to the next page or, from an unmapped region, past the region, and skips no mapping:
  every address after the current page and before the new position (or, when the iteration is over, up to
  the last address) is not present.
\<close>

theorem next_skips_only_unmapped:
  assumes "new_vmiter st pt va0 = Inr it" "vm_next st it = Inr it'" "va0 OR 0xFFF < va" "vm_done it' \<or> va < it_va it'"
  shows "\<exists>it2. new_vmiter st pt va = Inr it2 \<and> vm_perm st it2 = 0 \<and> \<not> vm_present st it2"
proof -
  define l where "l = (if PAGEOFFBITS < it_lbits it \<and> vm_perm st it = 0 then it_lbits it else PAGEOFFBITS)"
  define x where "x = va0 OR mask l"
  have va0: "it_va it = va0" using new_vmiter_va[OF assms(1)] .
  have it': "it_va it' = x + 1 \<and> \<not> vm_done it'" if nz: "x + 1 \<noteq> 0"
  proof -
    have "vm_next st it = real_find st (x + 1) True it" by (simp add: vm_next_def l_def x_def va0 lbits_mask_eq Let_def)
    then have w: "new_vmiter st pt (x + 1) = Inr it'" using real_find_eq[OF assms(1), of "x + 1" True] assms(2) nz by simp
    have "it_lbits it' \<noteq> done_lbits"
      using w by (cases rule: new_vmiter_cases) (auto simp: noncanonical_lbits_def done_lbits_def initial_lbits_def at_table_def)
    then show ?thesis using new_vmiter_va[OF w] by (simp add: vm_done_def)
  qed
  have "va \<le> x"
  proof (cases "x + 1 = 0")
    case True
    then have "x = - 1" by (simp add: eq_neg_iff_add_eq_0)
    then show ?thesis by simp
  next
    case False
    then have "va < x + 1" using assms(4) it' by auto
    moreover have "unat (x + 1) = Suc (unat x)" using False unatSuc[of x] by (simp add: add.commute)
    ultimately show ?thesis by (simp add: word_less_nat_alt word_le_nat_alt)
  qed
  have "mask PAGEOFFBITS = (0xFFF :: u64)" by (simp add: PAGEOFFBITS_def mask_eq_exp_minus_1)
  then have "l \<noteq> PAGEOFFBITS" using assms(3) \<open>va \<le> x\<close> by (auto simp: x_def)
  then have l: "l = it_lbits it" "vm_perm st it = 0" by (auto simp: l_def split: if_splits)
  have "va0 \<le> va0 OR 0xFFF" by (simp add: le_word_or2)
  then have "agree_above l va0 va" using between_agree[of va0 va l] \<open>va \<le> x\<close> assms(3) by (simp add: x_def)
  then have "new_vmiter st pt va = Inr (it\<lparr>it_va := va\<rparr>)" using same_entry[OF assms(1)] l(1) by simp
  moreover have "vm_perm st (it\<lparr>it_va := va\<rparr>) = 0" using l(2) by (simp add: vm_perm_def)
  ultimately show ?thesis by (simp add: vm_present_def vm_has_perm_def PTE_P_def)
qed

section \<open>Permissions of a range are the permissions of its addresses\<close>

definition allows :: "kmem \<Rightarrow> u64 \<Rightarrow> u64 \<Rightarrow> u64 \<Rightarrow> bool" where
  "allows st pt dp a \<longleftrightarrow> (case new_vmiter st pt a of Inl e \<Rightarrow> False | Inr it \<Rightarrow> vm_has_perm st it dp)"

definition allows_range :: "kmem \<Rightarrow> u64 \<Rightarrow> u64 \<Rightarrow> u64 \<Rightarrow> u64 \<Rightarrow> bool" where
  "allows_range st pt dp va sz \<longleftrightarrow>
     unat va + unat sz \<le> 2 ^ 64 \<and> (\<forall>a. va \<le> a \<and> unat a < unat va + unat sz \<longrightarrow> allows st pt dp a)"

lemma entry_lbits: "new_vmiter st pt va = Inr it \<Longrightarrow> it_lbits it \<le> noncanonical_lbits"
  by (erule new_vmiter_cases) (auto simp: at_table_def initial_lbits_def noncanonical_lbits_def)

lemma last_va_entry:
  assumes "new_vmiter st pt va = Inr it" "vm_perm st it \<noteq> 0"
  shows "vm_last_va it = (va OR mask (it_lbits it)) + 1"
proof -
  have "it_pep it \<noteq> ZeroEntry" using assms(2) by (auto simp: vm_perm_def read_entry_def)
  with assms(1) have "it_lbits it \<noteq> noncanonical_lbits"
    by (cases rule: new_vmiter_cases) (auto simp: at_table_def noncanonical_lbits_def initial_lbits_def)
  then show ?thesis using new_vmiter_va[OF assms(1)] by (simp add: vm_last_va_def lbits_mask_eq)
qed

lemma allows_entry:
  assumes "new_vmiter st pt va = Inr it" "va \<le> a" "a \<le> va OR mask (it_lbits it)"
  shows "allows st pt dp a \<longleftrightarrow> vm_has_perm st it dp"
proof -
  have "new_vmiter st pt a = Inr (it\<lparr>it_va := a\<rparr>)" using same_entry[OF assms(1) between_agree[OF assms(2,3)]] .
  then show ?thesis by (simp add: allows_def vm_has_perm_def vm_perm_def)
qed

lemma sum_mod_zero: "(a + b) mod m = 0 \<Longrightarrow> 0 < a \<Longrightarrow> a < m \<Longrightarrow> b < m \<Longrightarrow> b = m - a" for a b m :: nat
  by (cases "a + b < m") (auto simp: le_mod_geq)

lemma unat_neg: "va \<noteq> 0 \<Longrightarrow> unat (- va) = 2 ^ 64 - unat va" for va :: u64
proof (rule sum_mod_zero)
  assume "va \<noteq> 0"
  then show "0 < unat va" by (simp add: unat_gt_0)
  have "unat (va + - va) = (unat va + unat (- va)) mod 2 ^ 64" by (subst unat_word_ariths(1)) simp
  then show "(unat va + unat (- va)) mod 2 ^ 64 = 0" by simp
  show "unat va < 2 ^ 64" "unat (- va) < 2 ^ 64" using unsigned_less[of va] unsigned_less[of "- va"] by simp_all
qed

lemma unat_max: "unat (- 1 :: u64) = 2 ^ 64 - 1"
  using unat_neg[of 1] by simp

text \<open>The addresses from \<open>va\<close> to the end of its entry, and those after.\<close>

lemma range_end:
  fixes va :: u64
  assumes "x = va OR mask l" "l \<le> 47"
  shows "unat (x + 1 - va) = Suc (unat x) - unat va" "va \<le> x" "unat (x + 1) = (if x + 1 = 0 then 0 else Suc (unat x))"
    "x + 1 = 0 \<Longrightarrow> unat x = 2 ^ 64 - 1"
proof -
  show le: "va \<le> x" by (simp add: assms le_word_or2)
  show s: "unat (x + 1) = (if x + 1 = 0 then 0 else Suc (unat x))" using unatSuc[of x] by (simp add: add.commute)
  have top: "x = - 1" if "x + 1 = 0" using that by (simp add: eq_neg_iff_add_eq_0)
  then show tops: "x + 1 = 0 \<Longrightarrow> unat x = 2 ^ 64 - 1" by (simp add: unat_max)
  show "unat (x + 1 - va) = Suc (unat x) - unat va"
  proof (cases "x + 1 = 0")
    case True
    then have "bit (va OR mask l) 63" using top assms(1) by simp
    then have "va \<noteq> 0" using assms(2) by (auto simp: bit_or_iff bit_mask_iff)
    then show ?thesis using True tops unat_neg[of va] by simp
  next
    case False
    have "va \<le> x + 1" using le s False by (simp add: word_le_nat_alt)
    then show ?thesis using False s by (simp add: unat_sub)
  qed
qed

lemma low_entry_end: "va \<le> VA_LOWMAX \<Longrightarrow> l \<le> 47 \<Longrightarrow> va OR mask l \<le> VA_LOWMAX"
proof -
  have low: "x \<le> VA_LOWMAX \<longleftrightarrow> drop_bit 47 x = 0" for x
  proof -
    have "unat (drop_bit 47 x) = unat x div 2 ^ 47" by (subst unat_drop_bit_eq) (rule drop_bit_eq_div)
    then show ?thesis by (simp add: VA_LOWMAX_def word_le_nat_alt word_unat_eq_iff div_eq_0_iff) arith
  qed
  assume "va \<le> VA_LOWMAX" and l: "l \<le> 47"
  then have d: "drop_bit 47 va = 0" using low by simp
  have "bit (drop_bit 47 (va OR mask l)) n = bit (drop_bit 47 va) n" for n
    using l by (auto simp: bit_drop_bit_eq bit_or_iff bit_mask_iff)
  then have "drop_bit 47 (va OR mask l) = drop_bit 47 va" by (rule bit_word_eqI)
  then show ?thesis using d low by simp
qed

lemma subset_perm: "p AND w = p \<Longrightarrow> p AND d = d \<Longrightarrow> w AND d = d" for p w d :: u64
  by (metis and.assoc and.commute)

lemma allows_range_first:
  "new_vmiter st pt va = Inr it \<Longrightarrow> sz \<noteq> 0 \<Longrightarrow> allows_range st pt dp va sz \<Longrightarrow> vm_has_perm st it dp"
  unfolding allows_range_def by (auto simp: unat_gt_0 allows_def dest!: spec[of _ va])

lemma contains_both: "(p AND w) AND d = d \<longleftrightarrow> p AND d = d \<and> w AND d = d" for p w d :: u64
  by (auto simp: bit_eq_iff bit_and_iff)

text \<open>Splitting a range at the end of its first entry.\<close>

lemma allows_range_split:
  assumes "new_vmiter st pt va = Inr it" "vm_last_va it = (va OR mask (it_lbits it)) + 1" "vm_has_perm st it dp"
  shows "sz \<le> vm_last_va it - va \<Longrightarrow> allows_range st pt dp va sz"
    "vm_last_va it - va < sz \<Longrightarrow>
       allows_range st pt dp va sz \<longleftrightarrow> vm_last_va it \<noteq> 0 \<and> allows_range st pt dp (vm_last_va it) (sz - (vm_last_va it - va))"
proof -
  define x where "x = va OR mask (it_lbits it)"
  have l: "it_lbits it \<le> 47" using entry_lbits[OF assms(1)] by (simp add: noncanonical_lbits_def)
  note e = range_end[OF x_def l]
  have last: "vm_last_va it = x + 1" using assms(2) by (simp add: x_def)
  have ok: "allows st pt dp a" if "va \<le> a" "a \<le> x" for a using allows_entry[OF assms(1) that(1)] that(2) assms(3) by (simp add: x_def)
  have x: "unat va \<le> unat x" "unat x < 2 ^ 64" using e(2) unsigned_less[of x] by (simp_all add: word_le_nat_alt)
  show "sz \<le> vm_last_va it - va \<Longrightarrow> allows_range st pt dp va sz"
  proof -
    assume "sz \<le> vm_last_va it - va"
    then have "unat va + unat sz \<le> Suc (unat x)" using e(1) x by (simp add: last word_le_nat_alt)
    then show ?thesis using ok x unfolding allows_range_def by (auto simp: word_le_nat_alt)
  qed
  assume big: "vm_last_va it - va < sz"
  then have s: "Suc (unat x) < unat va + unat sz" "unat (sz - (x + 1 - va)) = unat sz - (Suc (unat x) - unat va)"
    using e(1) x by (simp_all add: last word_less_nat_alt unat_sub word_le_nat_alt)
  show "allows_range st pt dp va sz \<longleftrightarrow> vm_last_va it \<noteq> 0 \<and> allows_range st pt dp (vm_last_va it) (sz - (vm_last_va it - va))"
  proof (cases "x + 1 = 0")
    case True
    then show ?thesis using s(1) e(4) by (simp add: allows_range_def last)
  next
    case False
    then have n: "unat (x + 1) = Suc (unat x)" using e(3) by simp
    have sum: "unat (x + 1) + unat (sz - (x + 1 - va)) = unat va + unat sz" using n s x by simp
    have cov: "va \<le> a \<longleftrightarrow> va \<le> a \<and> a \<le> x \<or> x + 1 \<le> a" for a using n x by (auto simp: word_le_nat_alt)
    have "(\<forall>a. va \<le> a \<and> unat a < unat va + unat sz \<longrightarrow> allows st pt dp a) \<longleftrightarrow>
        (\<forall>a. x + 1 \<le> a \<and> unat a < unat va + unat sz \<longrightarrow> allows st pt dp a)" using ok cov by metis
    then show ?thesis using False sum by (simp add: allows_range_def last)
  qed
qed

lemma next_range_cases:
  assumes "new_vmiter st pt va = Inr it" "vm_next_range st it = Inr it2"
  shows "if vm_last_va it = 0 then it_pt it2 = pt \<and> it_lbits it2 = done_lbits \<and> it_va it2 = 0
    else new_vmiter st pt (vm_last_va it) = Inr it2 \<and> it_va it2 = vm_last_va it"
proof (cases "vm_last_va it = 0")
  case True
  have "it_pt it = pt" using assms(1) by (cases rule: new_vmiter_cases) (auto simp: at_table_def)
  then show ?thesis using True assms(2) by (auto simp: vm_next_range_def real_find_def down_zero)
next
  case False
  then have "new_vmiter st pt (vm_last_va it) = Inr it2" using assms(2) real_find_eq[OF assms(1), of "vm_last_va it" True]
    by (simp add: vm_next_range_def)
  then show ?thesis using False new_vmiter_va by auto
qed

text \<open>Ranges that begin in the lower half never reach the upper half.\<close>

lemma high_ranges:
  assumes "new_vmiter st pt va = Inr it" "vm_perm st it \<noteq> 0" "vm_last_va it = 0 \<or> VA_HIGHMIN \<le> vm_last_va it"
  shows "VA_HIGHMIN \<le> va"
proof -
  have canon: "va_is_canonical va"
    using assms(1,2) by (cases rule: new_vmiter_cases) (auto simp: vm_perm_def read_entry_def)
  have "it_lbits it \<le> 47" using entry_lbits[OF assms(1)] by (simp add: noncanonical_lbits_def)
  then have x: "va \<le> VA_LOWMAX \<Longrightarrow> va OR mask (it_lbits it) \<le> VA_LOWMAX" using low_entry_end by blast
  have "x \<le> VA_LOWMAX \<Longrightarrow> \<not> (x + 1 = 0 \<or> VA_HIGHMIN \<le> x + 1)" for x
  proof -
    assume a: "x \<le> VA_LOWMAX"
    have "x \<noteq> - 1" using a by (auto simp: VA_LOWMAX_def word_le_nat_alt unat_max)
    then have "x + 1 \<noteq> 0" by (simp add: eq_neg_iff_add_eq_0[symmetric])
    moreover from this have "unat (x + 1) = Suc (unat x)" using unatSuc[of x] by (simp add: add.commute)
    ultimately show ?thesis using a by (simp add: word_le_nat_alt VA_LOWMAX_def VA_HIGHMIN_def)
  qed
  then show ?thesis using canon x assms(3) last_va_entry[OF assms(1,2)] unfolding va_is_canonical_def by auto
qed

lemma range_perm_loop_meaning:
  "range_perm_loop st p sz it = Some r \<Longrightarrow>
     (p = 0 \<longrightarrow> r = Inr (0, it)) \<and>
     (\<forall>va q it'. new_vmiter st pt va = Inr it \<and> sz \<noteq> 0 \<and> p AND vm_perm st it = p \<and> r = Inr (q, it') \<longrightarrow>
        (q AND dp = dp \<longleftrightarrow> dp = 0 \<or> p AND dp = dp \<and> allows_range st pt dp va sz) \<and>
        ((\<exists>va'. new_vmiter st pt va' = Inr it') \<or> VA_HIGHMIN \<le> va \<and> it_pt it' = pt \<and> it_lbits it' = done_lbits \<and> it_va it' = 0))"
proof (induction st p sz it r rule: range_perm_loop.raw_induct[rotated, consumes 1, case_names step])
  case (step loop st p sz it r)
  show ?case
  proof (cases "p = 0")
    case True
    then have "r = Inr (0, it)" using step.hyps by simp
    then show ?thesis using True by auto
  next
    case p: False
    have "(q AND dp = dp \<longleftrightarrow> dp = 0 \<or> p AND dp = dp \<and> allows_range st pt dp va sz) \<and>
        ((\<exists>va'. new_vmiter st pt va' = Inr it') \<or> VA_HIGHMIN \<le> va \<and> it_pt it' = pt \<and> it_lbits it' = done_lbits \<and> it_va it' = 0)"
      if it: "new_vmiter st pt va = Inr it" and sz: "sz \<noteq> 0" and sub: "p AND vm_perm st it = p" and r: "r = Inr (q, it')" for va q it'
    proof -
      have va: "it_va it = va" using new_vmiter_va[OF it] .
      have perm: "vm_perm st it \<noteq> 0" using p sub by auto
      note last = last_va_entry[OF it perm]
      have has: "p AND dp = dp \<Longrightarrow> vm_has_perm st it dp" using subset_perm[OF sub] by (simp add: vm_has_perm_def)
      note split = allows_range_split[OF it last has]
      show ?thesis
      proof (cases "vm_last_va it - va < sz")
        case False
        then have "r = Inr (p, it)" using step.hyps p va by simp
        then show ?thesis using r it split(1)[of sz] False by (auto simp: not_less)
      next
        case big: True
        then obtain it2 where n: "vm_next_range st it = Inr it2" and
          rec: "loop st (p AND (if it_va it2 \<noteq> 0 then vm_perm st it2 else 0)) (sz - (vm_last_va it - va)) it2 = Some r"
          using step.hyps p va r by (auto split: sum.splits)
        note IH = step.IH[OF rec]
        show ?thesis
        proof (cases "vm_last_va it = 0")
          case True
          then have d: "it_pt it2 = pt \<and> it_lbits it2 = done_lbits \<and> it_va it2 = 0" using next_range_cases[OF it n] by simp
          then have "q = 0" "it' = it2" using IH r by auto
          moreover have "\<not> (p AND dp = dp \<and> allows_range st pt dp va sz)" if "dp \<noteq> 0" using split(2)[OF _ big] True by auto
          ultimately show ?thesis using d high_ranges[OF it perm] True by auto
        next
          case False
          then have it2: "new_vmiter st pt (vm_last_va it) = Inr it2" "it_va it2 = vm_last_va it" using next_range_cases[OF it n] by auto
          have "sz - (vm_last_va it - va) \<noteq> 0" using big by auto
          then have ih: "(q AND dp = dp \<longleftrightarrow> dp = 0 \<or> (p AND vm_perm st it2) AND dp = dp \<and> allows_range st pt dp (vm_last_va it) (sz - (vm_last_va it - va)))"
            "(\<exists>va'. new_vmiter st pt va' = Inr it') \<or> VA_HIGHMIN \<le> vm_last_va it \<and> it_pt it' = pt \<and> it_lbits it' = done_lbits \<and> it_va it' = 0"
            using IH it2 False r by (auto simp: and.assoc)
          have "(p AND vm_perm st it2) AND dp = dp \<longleftrightarrow> p AND dp = dp \<and> vm_perm st it2 AND dp = dp"
            by (rule contains_both)
          moreover have "allows_range st pt dp (vm_last_va it) (sz - (vm_last_va it - va)) \<Longrightarrow> vm_perm st it2 AND dp = dp"
            using allows_range_first[OF it2(1) \<open>sz - (vm_last_va it - va) \<noteq> 0\<close>] unfolding vm_has_perm_def .
          ultimately show ?thesis using ih split(2)[OF _ big] False high_ranges[OF it perm] by auto
        qed
      qed
    qed
    then show ?thesis using p by blast
  qed
qed

lemma find_back:
  assumes "new_vmiter st pt va = Inr it"
    "(\<exists>va'. new_vmiter st pt va' = Inr it') \<or> VA_HIGHMIN \<le> va \<and> it_pt it' = pt \<and> it_lbits it' = done_lbits \<and> it_va it' = 0"
  shows "vm_find st va it' = Inr it"
  using assms(2)
proof (elim disjE exE conjE)
  fix va' assume w: "new_vmiter st pt va' = Inr it'"
  show ?thesis using real_find_eq[OF w, of va False] new_vmiter_va[OF w] w assms(1) by (auto simp: vm_find_def)
next
  assume d: "VA_HIGHMIN \<le> va" "it_pt it' = pt" "it_lbits it' = done_lbits" "it_va it' = 0"
  then have "va \<noteq> 0" by (auto simp: VA_HIGHMIN_def)
  moreover have "real_find st va False it' = new_vmiter st pt va"
    using d by (cases it') (simp add: new_vmiter_def real_find_def done_lbits_def initial_lbits_def)
  ultimately show ?thesis using d assms(1) by (simp add: vm_find_def)
qed

text \<open>The loop ends: an entry that allows anything covers at least one address, so the size goes down.\<close>

lemma range_perm_loop_returns:
  "p = 0 \<or> (\<exists>va. new_vmiter st pt va = Inr it) \<and> p AND vm_perm st it = p \<Longrightarrow> \<exists>r. range_perm_loop st p sz it = Some r"
proof (induction "unat sz" arbitrary: p sz it rule: less_induct)
  case less
  show ?case
  proof (cases "p \<noteq> 0 \<and> vm_last_va it - it_va it < sz")
    case False
    then show ?thesis by (subst range_perm_loop.simps) auto
  next
    case True
    then obtain va where it: "new_vmiter st pt va = Inr it" and sub: "p AND vm_perm st it = p" using less.prems by auto
    define x where "x = va OR mask (it_lbits it)"
    have "it_lbits it \<le> 47" using entry_lbits[OF it] by (simp add: noncanonical_lbits_def)
    note e = range_end[OF x_def this]
    have "vm_perm st it \<noteq> 0" using True sub by auto
    then have last: "vm_last_va it = x + 1" using last_va_entry[OF it] by (simp add: x_def)
    have va: "it_va it = va" using new_vmiter_va[OF it] .
    have "0 < unat (vm_last_va it - va)" using e(1,2) by (simp add: last word_le_nat_alt)
    then have smaller: "unat (sz - (vm_last_va it - it_va it)) < unat sz"
      using True va by (simp add: word_less_nat_alt unat_sub word_le_nat_alt)
    show ?thesis
    proof (cases "vm_next_range st it")
      case (Inl e)
      then show ?thesis using True by (subst range_perm_loop.simps) auto
    next
      case (Inr it2)
      define q where "q = p AND (if it_va it2 \<noteq> 0 then vm_perm st it2 else 0)"
      have "q = 0 \<or> (\<exists>va. new_vmiter st pt va = Inr it2) \<and> q AND vm_perm st it2 = q"
        using next_range_cases[OF it Inr] by (auto simp: q_def and.assoc split: if_splits)
      from less.hyps[OF smaller this] show ?thesis using True Inr unfolding q_def by (subst range_perm_loop.simps) auto
    qed
  qed
qed

lemma find_panics:
  "real_find st va b it = Inl e \<Longrightarrow> e = AssertFailed ''Page table may contain uninitialized memory!''"
  by (auto simp: real_find_def vm_down_def Let_def split: if_splits)

lemma range_perm_loop_panics:
  "range_perm_loop st p sz it = Some r \<Longrightarrow> r = Inl e \<Longrightarrow> e = AssertFailed ''Page table may contain uninitialized memory!''"
proof (induction st p sz it r rule: range_perm_loop.raw_induct[rotated, consumes 1, case_names step])
  case (step loop st p sz it r)
  then show ?case by (auto simp: vm_next_range_def split: if_splits sum.splits dest: find_panics)
qed

lemma range_perm_answers:
  assumes "new_vmiter st pt va = Inr it" "dp \<noteq> 0"
  shows "\<exists>r. has_range_perm st sz dp it = Some r \<and>
    (case r of Inl e \<Rightarrow> e = AssertFailed ''Page table may contain uninitialized memory!''
     | Inr b \<Rightarrow> (b \<longleftrightarrow> allows_range st pt dp va sz \<or> sz = 0) \<and> (\<exists>p. range_perm st sz it = Some (Inr (p, it))))"
proof -
  have va: "it_va it = va" using new_vmiter_va[OF assms(1)] .
  show ?thesis
  proof (cases "sz = 0")
    case True
    then have "range_perm st sz it = Some (Inr (- 1, it))"
      by (simp add: range_perm_def range_perm_loop.simps vm_find_def)
    then show ?thesis using True by (simp add: has_range_perm_def)
  next
    case False
    then have pos: "0 < sz" by (simp add: word_gt_0)
    obtain r where r: "range_perm_loop st (vm_perm st it) sz it = Some r"
      using range_perm_loop_returns[of "vm_perm st it" st pt it sz] assms(1) by auto
    show ?thesis
    proof (cases r)
      case (Inl e)
      then show ?thesis using r pos range_perm_loop_panics[OF r] by (simp add: has_range_perm_def range_perm_def)
    next
      case (Inr y)
      then obtain p it1 where l: "range_perm_loop st (vm_perm st it) sz it = Some (Inr (p, it1))" using r by (cases y) auto
      note m = range_perm_loop_meaning[OF l, of pt dp, THEN conjunct2, rule_format, of va p it1]
      have "vm_find st va it1 = Inr it" using find_back[OF assms(1), of it1] m assms(1) False by auto
      then have rp: "range_perm st sz it = Some (Inr (p, it))" using l pos va by (simp add: range_perm_def)
      moreover have "allows_range st pt dp va sz \<Longrightarrow> vm_perm st it AND dp = dp"
        using allows_range_first[OF assms(1) False] unfolding vm_has_perm_def .
      ultimately show ?thesis using m assms(1,2) False by (auto simp: has_range_perm_def)
    qed
  qed
qed

text \<open>
  C20. \<open>range_perm(sz, perm)\<close> answers for every address: it always returns, unless the walk meets a table that
  may be uninitialized, and returns true exactly when the \<open>sz\<close> addresses from the iterator on do not wrap around
  and each of them has the permissions, as a walk to that address finds them; and the iterator, which the loop
  moves, is back where it was.
\<close>

theorem range_perm_covers_range:
  assumes "new_vmiter st pt va = Inr it" "dp \<noteq> 0"
  shows "\<exists>r. has_range_perm st sz dp it = Some r \<and>
    (case r of Inl e \<Rightarrow> e = AssertFailed ''Page table may contain uninitialized memory!''
     | Inr b \<Rightarrow> (b \<longleftrightarrow> allows_range st pt dp va sz \<or> sz = 0) \<and> (\<exists>p. range_perm st sz it = Some (Inr (p, it))))"
  by (rule range_perm_answers[OF assms])

text \<open>An empty page table, for the examples.\<close>

lemma empty_table_walk:
  assumes "pmem st pt = (\<lambda>_. 0)" "va_is_canonical va"
  shows "new_vmiter st pt va = Inr (at_table pt va pt initial_lbits initial_perm)"
proof -
  have e: "pmem st pt (va_index va initial_lbits) = 0" using assms(1) by simp
  have "vm_down_loop st (at_table pt va pt initial_lbits initial_perm) = at_table pt va pt initial_lbits initial_perm"
    using e by (subst down_at_table) (simp add: is_table_def PTE_P_def)
  then show ?thesis using assms(2) e by (simp add: new_vmiter_eq vm_down_def read_entry_def at_table_def)
qed

theorem moving_is_walking_witness:
  "\<exists>it. new_vmiter \<lparr>pmem = (\<lambda>_ _. 0), refcount = (\<lambda>_. 0)\<rparr> 0x1000 0x2000 = Inr it
     \<and> vm_find \<lparr>pmem = (\<lambda>_ _. 0), refcount = (\<lambda>_. 0)\<rparr> 0x5000 it = Inr (at_table 0x1000 0x5000 0x1000 39 0xFFF)"
proof -
  let ?st = "\<lparr>pmem = (\<lambda>_ _. 0) :: u64 \<Rightarrow> nat \<Rightarrow> u64, refcount = (\<lambda>_. 0)\<rparr>"
  have w: "new_vmiter ?st 0x1000 va = Inr (at_table 0x1000 va 0x1000 39 0xFFF)" if "va_is_canonical va" for va
    using empty_table_walk[of ?st "0x1000" va] that by (simp add: initial_lbits_def initial_perm_def)
  have c: "va_is_canonical 0x2000" "va_is_canonical 0x5000" by (simp_all add: va_is_canonical_def VA_LOWMAX_def)
  show ?thesis using moving_is_walking[OF w[OF c(1)], of "0x5000" 0] w[OF c(1)] w[OF c(2)] by auto
qed

theorem next_skips_only_unmapped_witness:
  "\<exists>it2. new_vmiter \<lparr>pmem = (\<lambda>_ _. 0), refcount = (\<lambda>_. 0)\<rparr> 0x1000 0x5000 = Inr it2
     \<and> \<not> vm_present \<lparr>pmem = (\<lambda>_ _. 0), refcount = (\<lambda>_. 0)\<rparr> it2"
proof -
  let ?st = "\<lparr>pmem = (\<lambda>_ _. 0) :: u64 \<Rightarrow> nat \<Rightarrow> u64, refcount = (\<lambda>_. 0)\<rparr>"
  have w: "new_vmiter ?st 0x1000 va = Inr (at_table 0x1000 va 0x1000 39 0xFFF)" if "va_is_canonical va" for va
    using empty_table_walk[of ?st "0x1000" va] that by (simp add: initial_lbits_def initial_perm_def)
  have c: "va_is_canonical 0x2000" "va_is_canonical 0x8000000000" by (simp_all add: va_is_canonical_def VA_LOWMAX_def)
  have "lbits_mask 39 = 0x7FFFFFFFFF" by (simp add: lbits_mask_eq mask_eq_exp_minus_1)
  then have "vm_next ?st (at_table 0x1000 0x2000 0x1000 39 0xFFF) = real_find ?st 0x8000000000 True (at_table 0x1000 0x2000 0x1000 39 0xFFF)"
    by (simp add: vm_next_def at_table_def vm_perm_def read_entry_def PAGEOFFBITS_def)
  also have "\<dots> = new_vmiter ?st 0x1000 0x8000000000" by (rule real_find_eq[OF w[OF c(1)]]) simp
  finally have n: "vm_next ?st (at_table 0x1000 0x2000 0x1000 39 0xFFF) = Inr (at_table 0x1000 0x8000000000 0x1000 39 0xFFF)"
    using w[OF c(2)] by simp
  show ?thesis using next_skips_only_unmapped[OF w[OF c(1)] n, of "0x5000"] by (auto simp: at_table_def)
qed

theorem range_perm_covers_range_witness:
  "\<exists>it. new_vmiter \<lparr>pmem = (\<lambda>_ _. 0), refcount = (\<lambda>_. 0)\<rparr> 0x1000 0x2000 = Inr it
     \<and> \<not> allows_range \<lparr>pmem = (\<lambda>_ _. 0), refcount = (\<lambda>_. 0)\<rparr> 0x1000 PTE_P 0x2000 16"
proof -
  let ?st = "\<lparr>pmem = (\<lambda>_ _. 0) :: u64 \<Rightarrow> nat \<Rightarrow> u64, refcount = (\<lambda>_. 0)\<rparr>"
  let ?it = "at_table 0x1000 0x2000 0x1000 39 0xFFF"
  have c: "va_is_canonical 0x2000" by (simp add: va_is_canonical_def VA_LOWMAX_def)
  have w: "new_vmiter ?st 0x1000 0x2000 = Inr ?it"
    using empty_table_walk[OF _ c, of ?st "0x1000"] by (simp add: initial_lbits_def initial_perm_def)
  have p: "vm_perm ?st ?it = 0" by (simp add: vm_perm_def read_entry_def at_table_def)
  have "has_range_perm ?st 16 PTE_P ?it = Some (Inr False)"
    by (simp add: has_range_perm_def range_perm_def range_perm_loop.simps[of _ 0] p vm_find_def PTE_P_def)
  then show ?thesis using range_perm_covers_range[OF w, of PTE_P 16] w by (simp add: PTE_P_def)
qed

section \<open>The walk over the table pages ends\<close>

lemma step_facts:
  fixes va :: u64
  assumes "va_is_canonical va" "l \<le> 39" "next_va = (va OR mask l) + 1"
  shows "agree_above (l + 9) next_va va \<Longrightarrow> va < (if va_is_canonical next_va then next_va else VA_HIGHMIN)"
    "l = 39 \<Longrightarrow> next_va \<noteq> 0 \<Longrightarrow> agree_above (l + 9) next_va va"
proof -
  define x where "x = va OR mask l"
  have l: "l \<le> 47" using assms(2) by simp
  note e = range_end[OF x_def l]
  have nv: "next_va = x + 1" using assms(3) by (simp add: x_def)
  have up: "va < next_va" if "next_va \<noteq> 0" using that e(2,3) nv by (simp add: word_less_nat_alt word_le_nat_alt)
  show "va < (if va_is_canonical next_va then next_va else VA_HIGHMIN)" if a: "agree_above (l + 9) next_va va"
  proof -
    have "next_va \<noteq> 0"
    proof
      assume z: "next_va = 0"
      then have "x = - 1" using nv by (simp add: eq_neg_iff_add_eq_0)
      then have "bit (va OR mask l) 63" using x_def by simp
      then have "bit va 63" using l by (auto simp: bit_or_iff bit_mask_iff)
      then show False using a z assms(2) by (auto simp: agree_above_bits)
    qed
    then show ?thesis using up by (auto simp: va_is_canonical_def not_le)
  qed
  show "agree_above (l + 9) next_va va" if l39: "l = 39" and nz: "next_va \<noteq> 0"
  proof -
    have u: "unat (drop_bit 48 y) = unat y div 2 ^ 48" for y :: u64 by (subst unat_drop_bit_eq) (rule drop_bit_eq_div)
    have div: "drop_bit 48 y = drop_bit 48 z \<longleftrightarrow> unat y div 2 ^ 48 = unat z div 2 ^ 48" for y z :: u64
      by (simp only: word_unat_eq_iff u)
    have "unat next_va div 2 ^ 48 = unat va div 2 ^ 48"
    proof (cases "va \<le> VA_LOWMAX")
      case True
      then have "x \<le> VA_LOWMAX" using low_entry_end[OF True l] by (simp add: x_def)
      then have "unat next_va \<le> 2 ^ 47" "unat va < 2 ^ 47" using True e(3) nv nz by (simp_all add: VA_LOWMAX_def word_le_nat_alt)
      then have "unat next_va < 2 ^ 48" "unat va < 2 ^ 48" by simp_all
      then show ?thesis by simp
    next
      case False
      then have h: "0xFFFF800000000000 \<le> unat va" using assms(1) by (simp add: va_is_canonical_def VA_HIGHMIN_def word_le_nat_alt)
      then have n: "0xFFFF800000000000 \<le> unat next_va" using up[OF nz] by (simp add: word_less_nat_alt)
      have top: "y div 2 ^ 48 = 65535" if "0xFFFF800000000000 \<le> y" "y < 2 ^ 64" for y :: nat
        using that by (intro div_nat_eqI) simp_all
      have "unat va < 2 ^ 64" "unat next_va < 2 ^ 64" using unsigned_less[of va] unsigned_less[of next_va] by simp_all
      then show ?thesis using top h n by (simp only:)
    qed
    then show ?thesis using div l39 by (simp add: agree_above_def)
  qed
qed

definition pt_ok :: "ptiter \<Rightarrow> bool" where
  "pt_ok it \<longleftrightarrow> va_is_canonical (pt_va it) \<and> pt_lbits it \<in> {21, 30, 39}"

lemma pt_down_unfold:
  assumes "pt_ok it" "nva = (pt_va it OR mask (pt_lbits it)) + 1"
  shows "pt_down st stop skip it =
    (if \<not> skip \<and> is_table (pt_entry st it) then
       if pt_lbits it = stop then Some it
       else pt_down st stop skip (it\<lparr>pt_lbits := pt_lbits it - PAGEINDEXBITS,
          pt_pep := (pt_entry st it AND PTE_PAMASK, va_index (pt_va it) (pt_lbits it - PAGEINDEXBITS))\<rparr>)
     else if \<not> agree_above (pt_lbits it + 9) nva (pt_va it) then
       if nva = 0 \<and> pt_lbits it = initial_lbits then Some (it\<lparr>pt_lbits := done_lbits\<rparr>)
       else pt_down st (pt_lbits it + 9) False
              (it\<lparr>pt_lbits := initial_lbits, pt_pep := (pt_pt it, va_index (pt_va it) initial_lbits)\<rparr>)
     else pt_down st stop False
       (it\<lparr>pt_pep := (case pt_pep it of (pg, i) \<Rightarrow> (pg, i + 1)), pt_va := (if va_is_canonical nva then nva else VA_HIGHMIN)\<rparr>))"
proof -
  have "pt_lbits it < done_lbits" using assms(1) by (auto simp: pt_ok_def done_lbits_def)
  then show ?thesis
    by (subst pt_down.simps) (simp only: Let_def lbits_mask_eq assms(2)[symmetric] xor_mask_agree PAGEINDEXBITS_def if_True)
qed

lemma pt_down_ends:
  "pt_ok it \<Longrightarrow> stop \<in> {21, 30, 39} \<Longrightarrow> stop \<le> pt_lbits it \<Longrightarrow>
     \<exists>it'. pt_down st stop skip it = Some it' \<and> (pt_done it' \<or> pt_ok it' \<and> is_table (pt_entry st it') \<and> pt_va it \<le> pt_va it' \<and>
        (pt_va it' = pt_va it \<longrightarrow> stop \<le> pt_lbits it' \<and> (skip \<longrightarrow> pt_lbits it < pt_lbits it')))"
proof (induction "(2 ^ 64 - unat (pt_va it)) * 10000 + (64 - stop) * 100 + pt_lbits it" arbitrary: stop skip it rule: less_induct)
  case less
  have lb: "pt_lbits it < done_lbits" "pt_lbits it \<le> 39" using less.prems(1) by (auto simp: pt_ok_def done_lbits_def)
  have canon: "va_is_canonical (pt_va it)" using less.prems(1) by (simp add: pt_ok_def)
  define nva where "nva = (pt_va it OR mask (pt_lbits it)) + 1"
  note s = step_facts[OF canon lb(2) nva_def]
  note unfold = pt_down_unfold[OF less.prems(1) nva_def, of st stop skip]
  consider (here) "\<not> skip" "is_table (pt_entry st it)" "pt_lbits it = stop"
    | (into) "\<not> skip" "is_table (pt_entry st it)" "pt_lbits it \<noteq> stop"
    | (up) "skip \<or> \<not> is_table (pt_entry st it)" "\<not> agree_above (pt_lbits it + 9) nva (pt_va it)"
    | (along) "skip \<or> \<not> is_table (pt_entry st it)" "agree_above (pt_lbits it + 9) nva (pt_va it)" by blast
  then show ?case
  proof cases
    case here
    then show ?thesis using less.prems unfold by auto
  next
    case into
    define it2 where "it2 = it\<lparr>pt_lbits := pt_lbits it - PAGEINDEXBITS,
        pt_pep := (pt_entry st it AND PTE_PAMASK, va_index (pt_va it) (pt_lbits it - PAGEINDEXBITS))\<rparr>"
    have "pt_ok it2" "stop \<le> pt_lbits it2" "pt_lbits it2 < pt_lbits it"
      using less.prems into(3) by (auto simp: pt_ok_def it2_def PAGEINDEXBITS_def)
    moreover have "pt_va it2 = pt_va it" by (simp add: it2_def)
    moreover have "pt_down st stop skip it = pt_down st stop skip it2"
      using into unfold by (simp add: it2_def)
    ultimately show ?thesis using less.hyps[of it2 stop skip] less.prems(2) into(1) by auto
  next
    case up
    show ?thesis
    proof (cases "nva = 0 \<and> pt_lbits it = 39")
      case True
      then have "pt_down st stop skip it = Some (it\<lparr>pt_lbits := done_lbits\<rparr>)"
        using up unfold by (auto simp: initial_lbits_def)
      then show ?thesis by (simp add: pt_done_def)
    next
      case False
      then have l: "pt_lbits it \<in> {21, 30}" using less.prems(1) s(2) up(2) by (auto simp: pt_ok_def)
      define it2 where "it2 = it\<lparr>pt_lbits := initial_lbits, pt_pep := (pt_pt it, va_index (pt_va it) initial_lbits)\<rparr>"
      have e: "pt_down st stop skip it = pt_down st (pt_lbits it + 9) False it2"
        using up unfold False by (auto simp: initial_lbits_def it2_def)
      have it2: "pt_ok it2" "pt_va it2 = pt_va it" "pt_lbits it2 = 39"
        using canon by (auto simp: pt_ok_def it2_def initial_lbits_def)
      have "\<exists>it'. pt_down st (pt_lbits it + 9) False it2 = Some it' \<and>
          (pt_done it' \<or> pt_ok it' \<and> is_table (pt_entry st it') \<and> pt_va it2 \<le> pt_va it' \<and>
           (pt_va it' = pt_va it2 \<longrightarrow> pt_lbits it + 9 \<le> pt_lbits it' \<and> (False \<longrightarrow> pt_lbits it2 < pt_lbits it')))"
        using l it2 less.prems(2,3) by (intro less.hyps) auto
      then show ?thesis using e it2(2) less.prems(3) by auto
    qed
  next
    case along
    define it2 where "it2 = it\<lparr>pt_pep := (case pt_pep it of (pg, i) \<Rightarrow> (pg, i + 1)), pt_va := (if va_is_canonical nva then nva else VA_HIGHMIN)\<rparr>"
    have up: "pt_va it < pt_va it2" using s(1)[OF along(2)] by (simp add: it2_def)
    have e: "pt_down st stop skip it = pt_down st stop False it2"
      using along unfold by (auto simp: it2_def)
    have it2: "pt_ok it2" "pt_lbits it2 = pt_lbits it"
      using less.prems(1) by (auto simp: pt_ok_def it2_def va_is_canonical_def)
    have lim: "unat (pt_va it2) < 2 ^ 64" using unsigned_less[of "pt_va it2"] by simp
    have "\<exists>it'. pt_down st stop False it2 = Some it' \<and>
        (pt_done it' \<or> pt_ok it' \<and> is_table (pt_entry st it') \<and> pt_va it2 \<le> pt_va it' \<and>
         (pt_va it' = pt_va it2 \<longrightarrow> stop \<le> pt_lbits it' \<and> (False \<longrightarrow> pt_lbits it2 < pt_lbits it')))"
      using it2 less.prems(2,3) up lim by (intro less.hyps) (auto simp: word_less_nat_alt)
    then show ?thesis using e up by fastforce
  qed
qed

lemma new_ptiter_ends: "\<exists>it. new_ptiter st pt = Some it \<and> (pt_done it \<or> pt_ok it)"
  using pt_down_ends[of "\<lparr>pt_pt = pt, pt_pep = (pt, 0), pt_lbits = initial_lbits, pt_va = 0\<rparr>" pt_stop st False]
  by (auto simp: new_ptiter_def pt_ok_def pt_stop_def PAGEOFFBITS_def PAGEINDEXBITS_def initial_lbits_def va_is_canonical_def)

lemma pt_next_ends:
  assumes "pt_ok it"
  shows "\<exists>it'. pt_next st it = Some it' \<and> (pt_done it' \<or>
    pt_ok it' \<and> (pt_va it < pt_va it' \<or> pt_va it = pt_va it' \<and> pt_lbits it < pt_lbits it'))"
  using pt_down_ends[OF assms, of pt_stop st True] assms
  by (fastforce simp: pt_next_def pt_ok_def pt_stop_def PAGEOFFBITS_def PAGEINDEXBITS_def)

end
