(* ===== verification/Weensy_Map.thy ===== *)
theory Weensy_Map
  imports Weensy_Vm
begin

text \<open>
  What the page table operations of \<open>Weensy_Vm\<close> do to the mappings. A page table is a tree of pages of
  four levels; the walk to an address is described level by level, and installing a mapping is shown to
  change the translation of one page only.
\<close>

section \<open>The tables on the way to an address\<close>

definition level_bits :: "nat \<Rightarrow> nat" where
  "level_bits d = initial_lbits - PAGEINDEXBITS * d"

definition entry_for :: "kmem \<Rightarrow> u64 \<Rightarrow> u64 \<Rightarrow> nat \<Rightarrow> u64" where
  "entry_for st p va d = pmem st p (va_index va (level_bits d))"

fun table_at :: "kmem \<Rightarrow> u64 \<Rightarrow> u64 \<Rightarrow> nat \<Rightarrow> u64 option" where
  "table_at st pt va 0 = Some pt"
| "table_at st pt va (Suc d) =
     (case table_at st pt va d of
        None \<Rightarrow> None
      | Some p \<Rightarrow> if is_table (entry_for st p va d) then Some (entry_for st p va d AND PTE_PAMASK) else None)"

definition same_path :: "nat \<Rightarrow> u64 \<Rightarrow> u64 \<Rightarrow> bool" where
  "same_path d va va' \<longleftrightarrow> list_all (\<lambda>j. va_index va (level_bits j) = va_index va' (level_bits j)) [0..<d]"

text \<open>
  No two paths lead to the same table; no table is a free page; the entries of the upper levels are
  absent or point at a table with all permissions, and no entry points beyond 4 GiB.
\<close>

definition entry_ok :: "nat \<Rightarrow> u64 \<Rightarrow> bool" where
  "entry_ok d e \<longleftrightarrow> e AND PTE_PAMASK < 0x100000000 \<and> (d < 3 \<longrightarrow> e AND PTE_P = 0 \<or> is_table e \<and> e AND PTE_PWU = PTE_PWU)"

definition vm_ok :: "u64 \<Rightarrow> kmem \<Rightarrow> u64 \<Rightarrow> bool" where
  "vm_ok ke st pt \<longleftrightarrow>
     (\<forall>va va' d d' p. d \<le> 3 \<and> d' \<le> 3 \<and> table_at st pt va d = Some p \<and> table_at st pt va' d' = Some p
        \<longrightarrow> d = d' \<and> same_path d va va') \<and>
     (\<forall>va d p. d \<le> 3 \<and> table_at st pt va d = Some p \<longrightarrow> \<not> free_page ke st p \<and> entry_ok d (entry_for st p va d))"

definition lookup :: "kmem \<Rightarrow> u64 \<Rightarrow> u64 \<Rightarrow> (u64 \<times> u64) option result" where
  "lookup st pt va = res_bind (new_vmiter st pt va) (\<lambda>it.
     Inr (if vm_present st it then Some (vm_pa st it, vm_perm st it) else None))"

definition tables :: "kmem \<Rightarrow> u64 \<Rightarrow> u64 set" where
  "tables st pt = {p. \<exists>va d. d \<le> 3 \<and> table_at st pt va d = Some p}"

lemma same_path_simps: "same_path 0 va va'" "same_path (Suc d) va va' \<longleftrightarrow> same_path d va va' \<and> va_index va (level_bits d) = va_index va' (level_bits d)"
  by (auto simp: same_path_def)

lemma same_path_refl [simp]: "same_path d va va"
  by (simp add: same_path_def list_all_iff)

lemma same_path_sym: "same_path d va va' \<longleftrightarrow> same_path d va' va"
  by (auto simp: same_path_def list_all_iff)

lemma same_path_trans: "same_path d va va' \<Longrightarrow> same_path d va' va'' \<Longrightarrow> same_path d va va''"
  by (auto simp: same_path_def list_all_iff)

lemma same_path_le: "same_path d va va' \<Longrightarrow> k \<le> d \<Longrightarrow> same_path k va va'"
  by (auto simp: same_path_def list_all_iff)

lemma level_bits_values: "level_bits 0 = initial_lbits" "level_bits 1 = 30" "level_bits 2 = 21" "level_bits 3 = PAGEOFFBITS"
  by (simp_all add: level_bits_def initial_lbits_def PAGEINDEXBITS_def PAGEOFFBITS_def)

lemma level_bits_Suc: "d < 3 \<Longrightarrow> level_bits (Suc d) = level_bits d - PAGEINDEXBITS \<and> PAGEOFFBITS < level_bits d"
  by (simp add: level_bits_def initial_lbits_def PAGEINDEXBITS_def PAGEOFFBITS_def)

lemma table_at_path: "same_path d va va' \<Longrightarrow> table_at st pt va d = table_at st pt va' d"
proof (induction d)
  case (Suc d)
  then show ?case by (auto simp: same_path_simps entry_for_def split: option.splits)
qed simp

lemma table_at_le: "table_at st pt va d = Some p \<Longrightarrow> k \<le> d \<Longrightarrow> \<exists>q. table_at st pt va k = Some q"
proof (induction d arbitrary: p)
  case (Suc d)
  then obtain q where "table_at st pt va d = Some q" by (auto split: option.splits)
  then show ?case using Suc by (cases "k = Suc d") auto
qed simp

lemma table_next: "table_at st pt va d = Some p \<Longrightarrow>
    table_at st pt va (Suc d) = (if is_table (entry_for st p va d) then Some (entry_for st p va d AND PTE_PAMASK) else None)"
  by simp

text \<open>The deepest table on the way.\<close>

definition leaf :: "kmem \<Rightarrow> u64 \<Rightarrow> u64 \<Rightarrow> nat \<Rightarrow> u64 \<Rightarrow> bool" where
  "leaf st pt va d p \<longleftrightarrow> d \<le> 3 \<and> table_at st pt va d = Some p \<and> (d = 3 \<or> \<not> is_table (entry_for st p va d))"

lemma leaf_table: "leaf st pt va d p \<Longrightarrow> p \<in> tables st pt"
  unfolding leaf_def tables_def by blast

lemma leaf_exists: "\<exists>d p. leaf st pt va d p"
proof -
  have "\<exists>d p. leaf st pt va d p" if "k \<le> 3" "table_at st pt va (3 - k) = Some p" for k p
    using that
  proof (induction k arbitrary: p)
    case 0
    then show ?case by (auto simp: leaf_def)
  next
    case (Suc k)
    show ?case
    proof (cases "is_table (entry_for st p va (3 - Suc k))")
      case False
      then show ?thesis using Suc.prems by (intro exI[of _ "3 - Suc k"] exI[of _ p]) (simp add: leaf_def)
    next
      case True
      have "3 - k = Suc (3 - Suc k)" using Suc.prems(1) by simp
      then have "table_at st pt va (3 - k) = Some (entry_for st p va (3 - Suc k) AND PTE_PAMASK)"
        using table_next[OF Suc.prems(2)] True by simp
      then show ?thesis using Suc.IH Suc.prems(1) by simp
    qed
  qed
  from this[of 3 pt] show ?thesis by simp
qed

lemma leaf_unique: "leaf st pt va d p \<Longrightarrow> leaf st pt va d' p' \<Longrightarrow> d' = d \<and> p' = p"
proof -
  have le: "d' \<le> d" if l: "leaf st pt va d p" and l': "leaf st pt va d' p'" for d d' p p'
  proof (rule ccontr)
    assume "\<not> d' \<le> d"
    then have d: "Suc d \<le> d'" "d < 3" using l' by (auto simp: leaf_def)
    then obtain q where "table_at st pt va (Suc d) = Some q" using table_at_le l' by (metis leaf_def)
    then show False using l d(2) table_next[of st pt va d p] by (auto simp: leaf_def split: if_splits)
  qed
  assume "leaf st pt va d p" "leaf st pt va d' p'"
  then show ?thesis using le[of d p d' p'] le[of d' p' d p] by (auto simp: leaf_def)
qed

section \<open>Walks end at the leaf\<close>

text \<open>With all permissions on the way, the permissions collected stay as they are at the root.\<close>

lemma pwu: "PTE_P OR PTE_W OR PTE_U = PTE_PWU"
  by (simp add: PTE_P_def PTE_W_def PTE_U_def PTE_PWU_def)

lemma and_PTE_P: "e AND PTE_P = 0 \<longleftrightarrow> \<not> bit e 0"
  using bit_iff_and_push_bit_not_eq_0[of e 0] by (simp add: PTE_P_def)

lemma pte_flag_bits:
  "bit PTE_P n \<longleftrightarrow> n = 0" "bit PTE_PS n \<longleftrightarrow> n = 7" "bit PTE_PWU n \<longleftrightarrow> n < 3"
proof -
  have ps: "PTE_PS = 2 ^ 7" and pwu: "PTE_PWU = mask 3" by (simp_all add: PTE_PS_def PTE_PWU_def mask_eq_exp_minus_1)
  show "bit PTE_P n \<longleftrightarrow> n = 0" by (simp add: PTE_P_def bit_1_iff)
  show "bit PTE_PS n \<longleftrightarrow> n = 7" unfolding ps by (subst bit_exp_iff) auto
  show "bit PTE_PWU n \<longleftrightarrow> n < 3" unfolding pwu by (auto simp: bit_mask_iff)
qed

lemma is_table_bits: "is_table e \<longleftrightarrow> bit e 0 \<and> \<not> bit e 7"
proof
  assume t: "is_table e"
  have "bit (e AND (PTE_P OR PTE_PS)) n = bit PTE_P n" for n using t by (simp add: is_table_def)
  from this[of 0] this[of 7] show "bit e 0 \<and> \<not> bit e 7" by (simp add: bit_and_iff bit_or_iff pte_flag_bits)
next
  assume "bit e 0 \<and> \<not> bit e 7"
  then show "is_table e" unfolding is_table_def
    by (intro bit_word_eqI) (auto simp: bit_and_iff bit_or_iff pte_flag_bits)
qed

lemma full_perm: "e AND PTE_PWU = PTE_PWU \<Longrightarrow> perm AND (e OR NOT PTE_PWU) = perm" for e :: u64
proof -
  assume a: "e AND PTE_PWU = PTE_PWU"
  have "bit e n \<or> \<not> bit PTE_PWU n" for n using a by (metis bit_and_iff)
  then show "perm AND (e OR NOT PTE_PWU) = perm"
    by (intro bit_word_eqI) (auto simp: bit_and_iff bit_or_iff bit_not_iff)
qed

lemma vm_okD:
  assumes "vm_ok ke st pt"
  shows "d \<le> 3 \<Longrightarrow> d' \<le> 3 \<Longrightarrow> table_at st pt va d = Some p \<Longrightarrow> table_at st pt va' d' = Some p \<Longrightarrow> d = d' \<and> same_path d va va'"
    "d \<le> 3 \<Longrightarrow> table_at st pt va d = Some p \<Longrightarrow> \<not> free_page ke st p"
    "d \<le> 3 \<Longrightarrow> table_at st pt va d = Some p \<Longrightarrow> entry_ok d (entry_for st p va d)"
  using assms unfolding vm_ok_def by blast+

text \<open>
  The kernel's own page table also has entries of the upper levels that map a large page for the kernel alone. Walks do
  not mind them; installing a mapping does.
\<close>

definition entry_walkable :: "nat \<Rightarrow> u64 \<Rightarrow> bool" where
  "entry_walkable d e \<longleftrightarrow> e AND PTE_PAMASK < 0x100000000 \<and>
     (d < 3 \<longrightarrow> e AND PTE_P = 0 \<or> is_table e \<and> e AND PTE_PWU = PTE_PWU \<or> e AND PTE_PS = PTE_PS \<and> e AND PTE_U = 0)"

definition walkable :: "u64 \<Rightarrow> kmem \<Rightarrow> u64 \<Rightarrow> bool" where
  "walkable ke st pt \<longleftrightarrow>
     (\<forall>va va' d d' p. d \<le> 3 \<and> d' \<le> 3 \<and> table_at st pt va d = Some p \<and> table_at st pt va' d' = Some p
        \<longrightarrow> d = d' \<and> same_path d va va') \<and>
     (\<forall>va d p. d \<le> 3 \<and> table_at st pt va d = Some p \<longrightarrow> \<not> free_page ke st p \<and> entry_walkable d (entry_for st p va d))"

lemma walkableD:
  assumes "walkable ke st pt"
  shows "d \<le> 3 \<Longrightarrow> d' \<le> 3 \<Longrightarrow> table_at st pt va d = Some p \<Longrightarrow> table_at st pt va' d' = Some p \<Longrightarrow> d = d' \<and> same_path d va va'"
    "d \<le> 3 \<Longrightarrow> table_at st pt va d = Some p \<Longrightarrow> \<not> free_page ke st p"
    "d \<le> 3 \<Longrightarrow> table_at st pt va d = Some p \<Longrightarrow> entry_walkable d (entry_for st p va d)"
  using assms unfolding walkable_def by blast+

lemma vm_ok_walkable: "vm_ok ke st pt \<Longrightarrow> walkable ke st pt"
  unfolding vm_ok_def walkable_def entry_ok_def entry_walkable_def by blast

lemma large_not_table: "e AND PTE_PS = PTE_PS \<Longrightarrow> \<not> is_table e"
proof -
  assume e: "e AND PTE_PS = PTE_PS"
  have "bit (e AND PTE_PS) 7" unfolding e by (simp add: pte_flag_bits)
  then show ?thesis by (simp add: is_table_bits bit_and_iff)
qed

lemma walk_to:
  assumes "\<And>k q. k < d \<Longrightarrow> table_at st pt va k = Some q \<Longrightarrow> entry_walkable k (entry_for st q va k)"
    "table_at st pt va d = Some p" "d \<le> 3"
  shows "vm_down_loop st (at_table pt va pt initial_lbits initial_perm) = vm_down_loop st (at_table pt va p (level_bits d) initial_perm)"
  using assms
proof (induction d arbitrary: p)
  case 0
  then show ?case by (simp add: level_bits_values)
next
  case (Suc d)
  then obtain q where q: "table_at st pt va d = Some q" "is_table (entry_for st q va d)" "p = entry_for st q va d AND PTE_PAMASK"
    by (auto split: option.splits if_splits)
  have "entry_walkable d (entry_for st q va d)" using Suc.prems(1)[of d q] q(1) by simp
  then have e: "entry_for st q va d AND PTE_PWU = PTE_PWU" using q(2) Suc.prems(3) large_not_table
    by (auto simp: entry_walkable_def is_table_bits and_PTE_P)
  have "vm_down_loop st (at_table pt va pt initial_lbits initial_perm) = vm_down_loop st (at_table pt va q (level_bits d) initial_perm)"
    using Suc.IH[of q] Suc.prems(1,3) q(1) by simp
  also have "\<dots> = vm_down_loop st (at_table pt va p (level_bits (Suc d)) initial_perm)"
    using q(2,3) level_bits_Suc[of d] Suc.prems(3) full_perm[OF e]
    by (subst down_at_table) (simp add: Let_def entry_for_def pwu)
  finally show ?case .
qed

lemma walkable_leaf:
  assumes "walkable ke st pt" "va_is_canonical va" "leaf st pt va d p"
  shows "new_vmiter st pt va = Inr (at_table pt va p (level_bits d) initial_perm)"
proof -
  have d: "d \<le> 3" "table_at st pt va d = Some p" "d = 3 \<or> \<not> is_table (entry_for st p va d)" using assms(3) by (auto simp: leaf_def)
  have "vm_down_loop st (at_table pt va pt initial_lbits initial_perm) = vm_down_loop st (at_table pt va p (level_bits d) initial_perm)"
    using walk_to[OF _ d(2,1)] walkableD(3)[OF assms(1)] d(1) by simp
  also have "\<dots> = at_table pt va p (level_bits d) initial_perm"
    using d(3) level_bits_values by (subst down_at_table) (auto simp: Let_def entry_for_def)
  finally have loop: "vm_down_loop st (at_table pt va pt initial_lbits initial_perm) = at_table pt va p (level_bits d) initial_perm" .
  have "entry_for st p va d AND PTE_PAMASK < 0x100000000" using walkableD(3)[OF assms(1) d(1,2)] by (simp add: entry_walkable_def)
  then have "\<not> 0x100000000 \<le> read_entry st (it_pep (at_table pt va p (level_bits d) initial_perm)) AND PTE_PAMASK"
    by (simp add: read_entry_def at_table_def entry_for_def not_le)
  then show ?thesis using assms(2) loop by (simp add: new_vmiter_eq vm_down_def Let_def)
qed

lemmas new_vmiter_leaf = walkable_leaf[OF vm_ok_walkable]

definition entry_mapping :: "u64 \<Rightarrow> nat \<Rightarrow> u64 \<Rightarrow> (u64 \<times> u64) option" where
  "entry_mapping va d e =
     (if bit e 0 then
        let pa = e AND PTE_PAMASK; pa = (if d < 3 then pa AND NOT 0x1000 else pa)
        in Some (pa + (va AND mask (level_bits d)), e AND initial_perm)
      else None)"

lemma perm_of_entry: "(e AND initial_perm) AND - ((e AND initial_perm) AND PTE_P) = (if bit e 0 then e AND initial_perm else 0)"
proof -
  have p: "(e AND initial_perm) AND PTE_P = (if bit e 0 then 1 else 0)"
  proof -
    have "bit initial_perm n \<longleftrightarrow> n < 12" for n
    proof -
      have m: "initial_perm = mask 12" by (simp add: initial_perm_def mask_eq_exp_minus_1)
      show ?thesis unfolding m by (auto simp: bit_mask_iff)
    qed
    then have "bit ((e AND initial_perm) AND PTE_P) n = bit (if bit e 0 then 1 else 0 :: u64) n" for n
      by (cases "n = 0") (simp_all add: bit_and_iff pte_flag_bits bit_1_iff)
    then show ?thesis by (rule bit_word_eqI) 
  qed
  show ?thesis unfolding p by simp
qed

lemma level_bits_big: "d \<le> 3 \<Longrightarrow> PAGEOFFBITS < level_bits d \<longleftrightarrow> d < 3"
  by (auto simp: level_bits_def initial_lbits_def PAGEINDEXBITS_def PAGEOFFBITS_def)

lemma walkable_lookup:
  assumes "walkable ke st pt" "va_is_canonical va" "leaf st pt va d p"
  shows "lookup st pt va = Inr (entry_mapping va d (entry_for st p va d))"
proof -
  let ?it = "at_table pt va p (level_bits d) initial_perm" and ?e = "entry_for st p va d"
  have d: "d \<le> 3" using assms(3) by (simp add: leaf_def)
  have r: "read_entry st (it_pep ?it) = ?e" "it_perm ?it = initial_perm" "it_lbits ?it = level_bits d" "it_va ?it = va"
    by (simp_all add: read_entry_def at_table_def entry_for_def)
  have perm: "vm_perm st ?it = (if bit ?e 0 then ?e AND initial_perm else 0)"
    using perm_of_entry[of ?e] by (simp add: vm_perm_def Let_def r)
  have "bit initial_perm 0" by (simp add: initial_perm_def)
  then have pres: "vm_present st ?it \<longleftrightarrow> bit ?e 0"
    unfolding vm_present_def vm_has_perm_def perm
    by (auto simp: PTE_P_def and_one_eq mod2_eq_if bit_0 even_and_iff)
  have "bit ?e 0 \<Longrightarrow> vm_pa st ?it = (let pa = ?e AND PTE_PAMASK; pa = (if d < 3 then pa AND NOT 0x1000 else pa) in pa + (va AND mask (level_bits d)))"
    using and_PTE_P[of ?e] level_bits_big[OF d] by (simp add: vm_pa_def r Let_def lbits_mask_eq)
  then show ?thesis using walkable_leaf[OF assms] pres perm by (simp add: lookup_def entry_mapping_def Let_def)
qed

lemmas lookup_leaf = walkable_lookup[OF vm_ok_walkable]

lemma lookup_hole: "\<not> va_is_canonical va \<Longrightarrow> lookup st pt va = Inr None"
  by (simp add: lookup_def new_vmiter_eq down_zero vm_present_def vm_has_perm_def vm_perm_def read_entry_def PTE_P_def)

text \<open>A table page that does not change on the way leaves the walk as it is.\<close>

lemma table_at_frame:
  assumes "\<And>k q. k < d \<Longrightarrow> table_at st pt va k = Some q \<Longrightarrow> entry_for st' q va k = entry_for st q va k"
  shows "table_at st' pt va d = table_at st pt va d"
  using assms
proof (induction d)
  case (Suc d)
  then have "table_at st' pt va d = table_at st pt va d" by simp
  then show ?case using Suc.prems[of d] by (auto split: option.splits)
qed simp

section \<open>Adding a table\<close>

definition table_entry :: "u64 \<Rightarrow> u64" where
  "table_entry q = q OR PTE_P OR PTE_W OR PTE_U"

lemma free_page_bits: "free_page ke st q \<Longrightarrow> bit q n \<Longrightarrow> 12 \<le> n \<and> n < 21"
proof -
  assume f: "free_page ke st q" and b: "bit q n"
  have "unat q = push_bit 12 (page_of q)" using free_pageD(7)[OF f] by (simp add: push_bit_eq_mult)
  moreover have "bit (unat q) n" using b by (simp add: bit_unsigned_iff)
  ultimately have "bit (push_bit 12 (page_of q)) n" by simp
  then have n: "12 \<le> n" "bit (page_of q) (n - 12)" by (simp_all add: bit_push_bit_iff)
  have "page_of q < 2 ^ 9" using free_pageD(1)[OF f] by (simp add: NPAGES_def)
  then have "take_bit 9 (page_of q) = page_of q" by (simp add: take_bit_nat_eq_self)
  then have "n - 12 < 9" using n(2) by (metis bit_take_bit_iff)
  then show ?thesis using n(1) by simp
qed

lemma pamask_bits: "bit PTE_PAMASK n \<longleftrightarrow> 12 \<le> n \<and> n < 52"
proof -
  have m: "PTE_PAMASK = push_bit 12 (mask 40)" by (simp add: PTE_PAMASK_def push_bit_eq_mult mask_eq_exp_minus_1)
  show ?thesis unfolding m by (auto simp: bit_push_bit_iff bit_mask_iff)
qed

lemma free_page_small: "free_page ke st q \<Longrightarrow> q < 0x200000"
  by (auto simp: free_page_def allocatable_physical_address_def MEMSIZE_PHYSICAL_def)

lemma table_entry_facts:
  assumes "free_page ke st q"
  shows "table_entry q AND PTE_PAMASK = q" "is_table (table_entry q)" "table_entry q AND PTE_PWU = PTE_PWU" "entry_ok d (table_entry q)"
proof -
  have e: "table_entry q = q OR PTE_PWU" by (simp add: table_entry_def pwu or.assoc)
  show pa: "table_entry q AND PTE_PAMASK = q" unfolding e
    by (rule bit_word_eqI) (auto simp: bit_and_iff bit_or_iff pamask_bits pte_flag_bits dest: free_page_bits[OF assms])
  show t: "is_table (table_entry q)" unfolding e is_table_bits
    using free_page_bits[OF assms, of 7] by (auto simp: bit_or_iff pte_flag_bits)
  show w: "table_entry q AND PTE_PWU = PTE_PWU" unfolding e
    by (rule bit_word_eqI) (auto simp: bit_and_iff bit_or_iff)
  have "q < 0x100000000" using free_page_small[OF assms] by (simp add: word_less_nat_alt)
  then show "entry_ok d (table_entry q)" using pa t w by (simp add: entry_ok_def)
qed

lemma no_table: "leaf st pt va d p \<Longrightarrow> d < 3 \<Longrightarrow> same_path d va va' \<Longrightarrow> va_index va (level_bits d) = va_index va' (level_bits d) \<Longrightarrow> d < k \<Longrightarrow>
    table_at st pt va' k = None"
proof (induction k)
  case (Suc k)
  show ?case
  proof (cases "k = d")
    case True
    then have "table_at st pt va' k = Some p" using table_at_path[OF Suc.prems(3)] Suc.prems(1) by (simp add: leaf_def)
    moreover have "\<not> is_table (entry_for st p va' k)" using Suc.prems(1,2,4) True by (simp add: leaf_def entry_for_def)
    ultimately show ?thesis by simp
  next
    case False
    then show ?thesis using Suc by simp
  qed
qed simp

text \<open>A new empty table under an absent entry of the leaf.\<close>

definition add_table :: "u64 \<Rightarrow> nat \<Rightarrow> u64 \<Rightarrow> kmem \<Rightarrow> kmem" where
  "add_table p i q st =
     (let st = memset_page q 0 (incref (page_of q) st)
      in st\<lparr>pmem := (pmem st)(p := (pmem st p)(i := table_entry q))\<rparr>)"

lemma add_table_free:
  assumes "free_page ke st q"
  shows "free_page ke (add_table p i q st) r \<longleftrightarrow> free_page ke st r \<and> r \<noteq> q"
  using alloc_free_pages[OF assms, of 0 r] by (simp add: add_table_def Let_def free_page_def)

lemma add_table_entry:
  assumes "vm_ok ke st pt" "leaf st pt va d p" "free_page ke st q" "st2 = add_table p (va_index va (level_bits d)) q st"
    "j \<le> 3" "table_at st pt va' j = Some r"
  shows "entry_for st2 r va' j = (if j = d \<and> same_path (Suc d) va va' then table_entry q else entry_for st r va' j)"
proof -
  have d: "d \<le> 3" "table_at st pt va d = Some p" using assms(2) by (auto simp: leaf_def)
  have rq: "r \<noteq> q" "p \<noteq> q" using vm_okD(2)[OF assms(1,5,6)] vm_okD(2)[OF assms(1) d] assms(3) by auto
  have mem: "pmem st2 r = (if r = p then (pmem st p)(va_index va (level_bits d) := table_entry q) else pmem st r)"
    using rq by (simp add: assms(4) add_table_def memset_page_def incref_def)
  show ?thesis
  proof (cases "r = p")
    case True
    then have "d = j \<and> same_path d va va'" using vm_okD(1)[OF assms(1) d(1) assms(5) d(2), of va'] assms(6) by blast
    then show ?thesis using mem True by (auto simp: entry_for_def same_path_simps)
  next
    case False
    have "\<not> (j = d \<and> same_path (Suc d) va va')"
      using False assms(6) d(2) table_at_path[OF same_path_le, of "Suc d" va va' d st pt] by auto
    then show ?thesis using mem False by (simp only: entry_for_def if_False)
  qed
qed

lemma add_table_at:
  assumes "vm_ok ke st pt" "leaf st pt va d p" "d < 3" "free_page ke st q" "st2 = add_table p (va_index va (level_bits d)) q st" "k \<le> 3"
  shows "table_at st2 pt va' k = (if k = Suc d \<and> same_path (Suc d) va va' then Some q else table_at st pt va' k)"
proof (cases "same_path (Suc d) va va'")
  case False
  then have "table_at st2 pt va' k = table_at st pt va' k"
    using table_at_frame[of k st pt va' st2] add_table_entry[OF assms(1,2,4,5)] assms(6) by simp
  then show ?thesis using False by simp
next
  case True
  have low: "table_at st2 pt va' j = table_at st pt va' j" if "j \<le> d" for j
    using table_at_frame[of j st pt va' st2] add_table_entry[OF assms(1,2,4,5)] that assms(3) by simp
  have "table_at st pt va d = Some p" using assms(2) by (simp add: leaf_def)
  then have p: "table_at st pt va' d = Some p" using table_at_path[OF same_path_le[OF True, of d]] by simp
  have E: "entry_for st2 p va' d = table_entry q" using add_table_entry[OF assms(1,2,4,5) _ p] True assms(3) by simp
  have q: "table_at st2 pt va' (Suc d) = Some q" using low[of d] p E table_entry_facts[OF assms(4)] by simp
  have "p \<noteq> q" using vm_okD(2)[OF assms(1) _ p] assms(3,4) by auto
  then have zero: "entry_for st2 q va' (Suc d) = 0"
    by (simp add: assms(5) entry_for_def add_table_def memset_page_def Let_def)
  have high: "table_at st2 pt va' (Suc (Suc d) + j) = None" for j
  proof (induction j)
    case 0
    then show ?case using q zero by (simp add: is_table_bits)
  next
    case (Suc j)
    then show ?case by simp
  qed
  have none: "table_at st pt va' j = None" if "d < j" for j
    using no_table[OF assms(2,3) _ _ that, of va'] True by (simp add: same_path_simps)
  consider "k \<le> d" | "k = Suc d" | j where "k = Suc (Suc d) + j"
    by (metis Suc_leI add_diff_inverse_nat le_antisym not_le not_less_eq_eq)
  then show ?thesis
  proof cases
    case 3
    then show ?thesis using high[of j] none[of k] by (simp del: table_at.simps)
  qed (use low q True in auto)
qed

lemma leaf_absent: "vm_ok ke st pt \<Longrightarrow> leaf st pt va d p \<Longrightarrow> d < 3 \<Longrightarrow> \<not> bit (entry_for st p va d) 0"
  using vm_okD(3)[of ke st pt d va p] by (auto simp: leaf_def entry_ok_def and_PTE_P)

lemma add_table_ok:
  assumes "vm_ok ke st pt" "leaf st pt va d p" "d < 3" "free_page ke st q" "st2 = add_table p (va_index va (level_bits d)) q st"
  shows "vm_ok ke st2 pt" "leaf st2 pt va (Suc d) q" "\<And>va'. lookup st2 pt va' = lookup st pt va'" "entry_for st2 q va (Suc d) = 0"
proof -
  note at = add_table_at[OF assms]
  note entry = add_table_entry[OF assms(1,2,4,5)]
  have old_not_q: "table_at st pt va' k \<noteq> Some q" if "k \<le> 3" for va' k using vm_okD(2)[OF assms(1) that] assms(4) by auto
  have pq: "p \<noteq> q" using old_not_q[of d va] assms(2) by (auto simp: leaf_def)
  have zero: "entry_for st2 q va' k = 0" for va' k using pq by (simp add: assms(5) entry_for_def add_table_def memset_page_def Let_def)
  then show "entry_for st2 q va (Suc d) = 0" .
  show ok: "vm_ok ke st2 pt"
    unfolding vm_ok_def
  proof (intro conjI allI impI; elim conjE)
    fix va1 va2 d1 d2 r
    assume a: "d1 \<le> 3" "d2 \<le> 3" "table_at st2 pt va1 d1 = Some r" "table_at st2 pt va2 d2 = Some r"
    show "d1 = d2" using a at[OF a(1), of va1] at[OF a(2), of va2] old_not_q[OF a(1)] old_not_q[OF a(2)] vm_okD(1)[OF assms(1) a(1,2), of va1 r va2]
      by (auto split: if_splits)
    show "same_path d1 va1 va2" using a at[OF a(1), of va1] at[OF a(2), of va2] old_not_q[OF a(1)] old_not_q[OF a(2)] vm_okD(1)[OF assms(1) a(1,2), of va1 r va2]
      by (auto split: if_splits dest: same_path_sym[THEN iffD1] same_path_trans)
  next
    fix va1 d1 r assume a: "d1 \<le> 3" "table_at st2 pt va1 d1 = Some r"
    show "\<not> free_page ke st2 r" using a at[OF a(1), of va1] vm_okD(2)[OF assms(1) a(1)] add_table_free[OF assms(4)] assms(5)
      by (auto split: if_splits)
    show "entry_ok d1 (entry_for st2 r va1 d1)"
    proof (cases "r = q")
      case True
      then show ?thesis using zero by (simp add: entry_ok_def)
    next
      case False
      then have r: "table_at st pt va1 d1 = Some r" using a at[OF a(1), of va1] by (auto split: if_splits)
      then show ?thesis using entry[OF a(1) r] vm_okD(3)[OF assms(1) a(1) r] table_entry_facts(4)[OF assms(4)] by simp
    qed
  qed
  show l2: "leaf st2 pt va (Suc d) q" using at[of "Suc d" va] assms(3) zero by (auto simp: leaf_def is_table_bits)
  show "lookup st2 pt va' = lookup st pt va'" for va'
  proof (cases "va_is_canonical va'")
    case False
    then show ?thesis by (simp add: lookup_hole)
  next
    case canon: True
    obtain d' r where l: "leaf st pt va' d' r" using leaf_exists by blast
    show ?thesis
    proof (cases "same_path (Suc d) va va'")
      case True
      have "leaf st pt va' d p" using assms(2) True table_at_path[of d va va' st pt] by (auto simp: leaf_def same_path_simps entry_for_def)
      moreover have "leaf st2 pt va' (Suc d) q" using at[of "Suc d" va'] assms(3) zero True by (auto simp: leaf_def is_table_bits)
      ultimately show ?thesis
        using lookup_leaf[OF ok canon] lookup_leaf[OF assms(1) canon] leaf_absent[OF assms(1) _ assms(3)] zero by (simp add: entry_mapping_def)
    next
      case False
      have d': "d' \<le> 3" "table_at st pt va' d' = Some r" using l by (auto simp: leaf_def)
      have e: "entry_for st2 r va' d' = entry_for st r va' d'" using entry[OF d'] False by simp
      have "leaf st2 pt va' d' r" using l e at[OF d'(1), of va'] False by (auto simp: leaf_def)
      then show ?thesis using lookup_leaf[OF ok canon] lookup_leaf[OF assms(1) canon l] e by simp
    qed
  qed
qed

section \<open>Installing a mapping\<close>

text \<open>
  What installing mappings in \<open>pt\<close> leaves alone: memory that is neither a table nor free, and the counts
  of pages in use; new tables come from the free pages.
\<close>

definition evolves :: "u64 \<Rightarrow> u64 \<Rightarrow> kmem \<Rightarrow> kmem \<Rightarrow> bool" where
  "evolves ke pt st st' \<longleftrightarrow>
     (\<forall>r. free_page ke st' r \<longrightarrow> free_page ke st r \<and> pmem st' r = pmem st r) \<and>
     (\<forall>r. r \<notin> tables st pt \<and> \<not> free_page ke st r \<longrightarrow> pmem st' r = pmem st r) \<and>
     (\<forall>n. refcount st' n = refcount st n \<or> refcount st' n = 1 \<and> (\<exists>r. free_page ke st r \<and> page_of r = n \<and> r \<in> tables st' pt)) \<and>
     tables st pt \<subseteq> tables st' pt \<and> tables st' pt \<subseteq> tables st pt \<union> {r. free_page ke st r}"

lemma evolves_refl: "evolves ke pt st st"
  by (simp add: evolves_def)

lemma tables_not_free: "vm_ok ke st pt \<Longrightarrow> r \<in> tables st pt \<Longrightarrow> \<not> free_page ke st r"
  using vm_okD(2) by (auto simp: tables_def)

lemma evolvesD:
  assumes "evolves ke pt st st'"
  shows "free_page ke st' r \<Longrightarrow> free_page ke st r" "free_page ke st' r \<Longrightarrow> pmem st' r = pmem st r"
    "r \<notin> tables st pt \<Longrightarrow> \<not> free_page ke st r \<Longrightarrow> pmem st' r = pmem st r"
    "refcount st' n = refcount st n \<or> refcount st' n = 1 \<and> (\<exists>r. free_page ke st r \<and> page_of r = n \<and> r \<in> tables st' pt)"
    "r \<in> tables st pt \<Longrightarrow> r \<in> tables st' pt" "r \<in> tables st' pt \<Longrightarrow> r \<in> tables st pt \<or> free_page ke st r"
  using assms unfolding evolves_def by blast+

lemma evolves_trans:
  assumes "evolves ke pt st st1" "evolves ke pt st1 st2"
  shows "evolves ke pt st st2"
  unfolding evolves_def
proof (intro conjI allI impI)
  note e = evolvesD[OF assms(1)] and f = evolvesD[OF assms(2)]
  fix r assume "free_page ke st2 r"
  then show "free_page ke st r" "pmem st2 r = pmem st r" using e(1,2)[of r] f(1,2)[of r] by auto
next
  note e = evolvesD[OF assms(1)] and f = evolvesD[OF assms(2)]
  fix r assume "r \<notin> tables st pt \<and> \<not> free_page ke st r"
  then show "pmem st2 r = pmem st r" using e(1,3,6)[of r] f(3)[of r] by auto
next
  note e = evolvesD[OF assms(1)] and f = evolvesD[OF assms(2)]
  fix n
  show "refcount st2 n = refcount st n \<or> refcount st2 n = 1 \<and> (\<exists>r. free_page ke st r \<and> page_of r = n \<and> r \<in> tables st2 pt)"
    using e(4)[of n] f(4)[of n] e(1) f(5) by auto
next
  show "tables st pt \<subseteq> tables st2 pt" "tables st2 pt \<subseteq> tables st pt \<union> {r. free_page ke st r}"
    using evolvesD(5,6,1)[OF assms(1)] evolvesD(5,6)[OF assms(2)] by blast+
qed

lemma add_table_evolves:
  assumes "vm_ok ke st pt" "leaf st pt va d p" "d < 3" "free_page ke st q" "st2 = add_table p (va_index va (level_bits d)) q st"
  shows "evolves ke pt st st2"
proof -
  note at = add_table_at[OF assms]
  have p: "p \<in> tables st pt" "p \<noteq> q" "\<not> free_page ke st p"
    using assms(2,4) vm_okD(2)[OF assms(1)] by (auto simp: leaf_def tables_def)
  have sub: "tables st pt \<subseteq> tables st2 pt" "tables st2 pt \<subseteq> tables st pt \<union> {q}"
  proof -
    have "table_at st2 pt va' k = Some r" if "k \<le> 3" "table_at st pt va' k = Some r" for va' k r
      using at[OF that(1), of va'] that no_table[OF assms(2,3), of va' k] by (auto simp: same_path_simps split: if_splits)
    then show "tables st pt \<subseteq> tables st2 pt" unfolding tables_def by blast
    show "tables st2 pt \<subseteq> tables st pt \<union> {q}"
    proof
      fix r assume "r \<in> tables st2 pt"
      then obtain va' k where k: "k \<le> 3" "table_at st2 pt va' k = Some r" by (auto simp: tables_def)
      then show "r \<in> tables st pt \<union> {q}" using at[OF k(1), of va'] by (auto simp: tables_def split: if_splits)
    qed
  qed
  have q2: "q \<in> tables st2 pt" using leaf_table[OF add_table_ok(2)[OF assms]] .
  have mem: "pmem st2 = (pmem st)(q := (\<lambda>_. 0), p := (pmem st p)(va_index va (level_bits d) := table_entry q))"
    using p(2) by (simp add: assms(5) add_table_def memset_page_def incref_def)
  have rc: "refcount st2 = (refcount st)(page_of q := 1)"
    using free_pageD(4)[OF assms(4)] by (simp add: assms(5) add_table_def memset_page_def incref_def)
  show ?thesis unfolding evolves_def
  proof (intro conjI allI impI)
    fix r assume "free_page ke st2 r"
    then have r: "free_page ke st r" "r \<noteq> q" using add_table_free[OF assms(4)] assms(5) by auto
    then show "free_page ke st r" "pmem st2 r = pmem st r" using p(3) mem by auto
  next
    fix r assume "r \<notin> tables st pt \<and> \<not> free_page ke st r"
    then show "pmem st2 r = pmem st r" using p(1) mem assms(4) by auto
  next
    fix n show "refcount st2 n = refcount st n \<or> refcount st2 n = 1 \<and> (\<exists>r. free_page ke st r \<and> page_of r = n \<and> r \<in> tables st2 pt)"
      using rc assms(4) q2 by auto
  qed (use sub assms(4) in auto)
qed

lemma map_round:
  assumes "vm_ok ke st pt" "leaf st pt va d p" "d < 3" "free_page ke st q"
    "kalloc ke PAGESIZE st = (q, memset_page q 0xCCCCCCCCCCCCCCCC (incref (page_of q) st))" "perm \<noteq> 0"
    "st2 = add_table p (va_index va (level_bits d)) q st"
  shows "map_levels (Suc fuel) ke perm (st, at_table pt va p (level_bits d) initial_perm) =
    map_levels fuel ke perm (st2, at_table pt va q (level_bits (Suc d)) initial_perm)"
proof -
  let ?it = "at_table pt va p (level_bits d) initial_perm"
  note ok = add_table_ok[OF assms(1-4,7)]
  have absent: "read_entry st (it_pep ?it) AND PTE_P = 0" "PAGEOFFBITS < it_lbits ?it"
    using leaf_absent[OF assms(1-3)] level_bits_Suc[OF assms(3)] by (auto simp: read_entry_def at_table_def entry_for_def and_PTE_P)
  have wr: "write_entry (it_pep ?it) (q OR PTE_P OR PTE_W OR PTE_U)
      (memset_page q 0 (memset_page q 0xCCCCCCCCCCCCCCCC (incref (page_of q) st))) = Inr st2"
    by (simp add: write_entry_def at_table_def assms(7) add_table_def memset_page_def incref_def table_entry_def)
  have d: "d \<le> 3" "table_at st pt va d = Some p" using assms(2) by (auto simp: leaf_def)
  have e: "pmem st2 p (va_index va (level_bits d)) = table_entry q"
    using add_table_entry[OF assms(1,2,4,7) d] by (simp add: entry_for_def)
  have "vm_down_loop st2 ?it = at_table pt va q (level_bits (Suc d)) initial_perm"
  proof -
    have "vm_down_loop st2 ?it = vm_down_loop st2 (at_table pt va q (level_bits (Suc d)) initial_perm)"
      using e table_entry_facts[OF assms(4)] level_bits_Suc[OF assms(3)] full_perm[of "table_entry q" initial_perm]
      by (subst down_at_table) (simp add: Let_def pwu)
    also have "\<dots> = at_table pt va q (level_bits (Suc d)) initial_perm"
      using ok(4) by (subst down_at_table) (simp add: Let_def entry_for_def is_table_bits)
    finally show ?thesis .
  qed
  then have down: "vm_down st2 ?it = Inr (at_table pt va q (level_bits (Suc d)) initial_perm)"
    using ok(4) by (simp add: vm_down_def Let_def read_entry_def at_table_def entry_for_def)
  show ?thesis using absent wr down assms(5,6) free_pageD(3)[OF assms(4)] by simp
qed

lemma map_levels_spec:
  "vm_ok ke st pt \<Longrightarrow> leaf st pt va d p \<Longrightarrow> perm \<noteq> 0 \<Longrightarrow> 3 - d < fuel \<Longrightarrow>
     \<exists>st'. vm_ok ke st' pt \<and> evolves ke pt st st' \<and> (\<forall>va'. lookup st' pt va' = lookup st pt va') \<and>
       ((\<exists>it'. map_levels fuel ke perm (st, at_table pt va p (level_bits d) initial_perm) = Inr (- 1, st', it') \<and> (\<nexists>q. free_page ke st' q)) \<or>
        (\<exists>p'. map_levels fuel ke perm (st, at_table pt va p (level_bits d) initial_perm) =
               Inr (0, st', at_table pt va p' (level_bits 3) initial_perm) \<and> leaf st' pt va 3 p'))"
proof (induction fuel arbitrary: st d p)
  case 0
  then show ?case by simp
next
  case (Suc fuel)
  have d: "d \<le> 3" using Suc.prems(2) by (simp add: leaf_def)
  show ?case
  proof (cases "d = 3")
    case True
    then show ?thesis using Suc.prems(1,2) level_bits_values
      by (intro exI[of _ st]) (auto simp: evolves_refl at_table_def)
  next
    case False
    then have d3: "d < 3" using d by simp
    show ?thesis
    proof (cases rule: kalloc_cases[where sz = PAGESIZE and ke = ke and st = st, OF less_irrefl])
      case page: (1 q)
      define st2 where "st2 = add_table p (va_index va (level_bits d)) q st"
      note ok = add_table_ok[OF Suc.prems(1,2) d3 page(1) st2_def]
      have "3 - Suc d < fuel" using Suc.prems(4) d3 by simp
      from Suc.IH[OF ok(1,2) Suc.prems(3) this] obtain st' where ih:
        "vm_ok ke st' pt" "evolves ke pt st2 st'" "\<And>va'. lookup st' pt va' = lookup st2 pt va'"
        "(\<exists>it'. map_levels fuel ke perm (st2, at_table pt va q (level_bits (Suc d)) initial_perm) = Inr (- 1, st', it') \<and> (\<nexists>q. free_page ke st' q)) \<or>
         (\<exists>p'. map_levels fuel ke perm (st2, at_table pt va q (level_bits (Suc d)) initial_perm) =
            Inr (0, st', at_table pt va p' (level_bits 3) initial_perm) \<and> leaf st' pt va 3 p')" by blast
      show ?thesis
        using ih ok(3) evolves_trans[OF add_table_evolves[OF Suc.prems(1,2) d3 page(1) st2_def] ih(2)]
          map_round[OF Suc.prems(1,2) d3 page(1,3) Suc.prems(3) st2_def, of fuel]
        by (intro exI[of _ st']) simp
    next
      case full: 2
      have "PAGEOFFBITS < level_bits d" using level_bits_Suc[OF d3] by simp
      then have "map_levels (Suc fuel) ke perm (st, at_table pt va p (level_bits d) initial_perm) =
          Inr (- 1, st, at_table pt va p (level_bits d) initial_perm)"
        using full(1) Suc.prems(3) leaf_absent[OF Suc.prems(1,2) d3]
        by (simp add: at_table_def read_entry_def entry_for_def and_PTE_P)
      then show ?thesis using Suc.prems(1) full(2) evolves_refl by (intro exI[of _ st]) auto
    qed
  qed
qed

text \<open>Writing the entry of the last level.\<close>

definition put_entry :: "u64 \<Rightarrow> nat \<Rightarrow> u64 \<Rightarrow> kmem \<Rightarrow> kmem" where
  "put_entry p i e st = st\<lparr>pmem := (pmem st)(p := (pmem st p)(i := e))\<rparr>"

lemma put_entry_ok:
  assumes "vm_ok ke st pt" "leaf st pt va 3 p" "e AND PTE_PAMASK < 0x100000000" "st2 = put_entry p (va_index va PAGEOFFBITS) e st"
  shows "vm_ok ke st2 pt" "evolves ke pt st st2" "tables st2 pt = tables st pt"
    "\<And>va'. va_is_canonical va' \<Longrightarrow> lookup st2 pt va' = (if same_path 4 va va' then Inr (entry_mapping va' 3 e) else lookup st pt va')"
proof -
  have p: "table_at st pt va 3 = Some p" using assms(2) by (simp add: leaf_def)
  have lb: "level_bits 3 = PAGEOFFBITS" by (rule level_bits_values)
  have entry: "entry_for st2 r va' j = (if j = 3 \<and> same_path 4 va va' then e else entry_for st r va' j)"
    if j: "j \<le> 3" "table_at st pt va' j = Some r" for j va' r
  proof (cases "r = p")
    case True
    then have "j = 3 \<and> same_path 3 va va'" using vm_okD(1)[OF assms(1) _ j(1) p, of va'] j(2) by auto
    then show ?thesis using True lb same_path_simps(2)[of 3 va va'] by (auto simp: assms(4) put_entry_def entry_for_def)
  next
    case False
    have "\<not> (j = 3 \<and> same_path 4 va va')"
      using False j(2) p table_at_path[OF same_path_le, of 4 va va' 3 st pt] by auto
    then show ?thesis using False by (simp only: if_False) (simp add: assms(4) put_entry_def entry_for_def)
  qed
  have at: "table_at st2 pt va' k = table_at st pt va' k" if "k \<le> 3" for va' k
    using table_at_frame[of k st pt va' st2] entry that by simp
  show tb: "tables st2 pt = tables st pt" unfolding tables_def using at by metis
  have fr: "free_page ke st2 r \<longleftrightarrow> free_page ke st r" for r by (simp add: assms(4) put_entry_def free_page_def)
  show ok: "vm_ok ke st2 pt" unfolding vm_ok_def
  proof (intro conjI allI impI; elim conjE)
    fix va1 va2 d1 d2 r
    assume a: "d1 \<le> 3" "d2 \<le> 3" "table_at st2 pt va1 d1 = Some r" "table_at st2 pt va2 d2 = Some r"
    then show "d1 = d2" "same_path d1 va1 va2" using vm_okD(1)[OF assms(1) a(1,2), of va1 r va2] at by auto
  next
    fix va1 d1 r assume a: "d1 \<le> 3" "table_at st2 pt va1 d1 = Some r"
    then have r: "table_at st pt va1 d1 = Some r" using at by simp
    show "\<not> free_page ke st2 r" using vm_okD(2)[OF assms(1) a(1) r] fr by simp
    show "entry_ok d1 (entry_for st2 r va1 d1)" using entry[OF a(1) r] vm_okD(3)[OF assms(1) a(1) r] assms(3) by (auto simp: entry_ok_def)
  qed
  have pt: "p \<in> tables st pt" "\<not> free_page ke st p" using leaf_table[OF assms(2)] vm_okD(2)[OF assms(1) _ p] by auto
  show "evolves ke pt st st2" unfolding evolves_def
    using fr tb pt by (auto simp: assms(4) put_entry_def)
  show "lookup st2 pt va' = (if same_path 4 va va' then Inr (entry_mapping va' 3 e) else lookup st pt va')" if c: "va_is_canonical va'" for va'
  proof (cases "same_path 4 va va'")
    case True
    have "table_at st pt va' 3 = Some p" using p table_at_path[OF same_path_le[OF True, of 3]] by simp
    then have "leaf st2 pt va' 3 p" "entry_for st2 p va' 3 = e" using at[of 3 va'] entry[of 3 va' p] True by (auto simp: leaf_def)
    then show ?thesis using lookup_leaf[OF ok c] True by simp
  next
    case False
    obtain d r where l: "leaf st pt va' d r" using leaf_exists by blast
    then have d: "d \<le> 3" "table_at st pt va' d = Some r" by (auto simp: leaf_def)
    have e: "entry_for st2 r va' d = entry_for st r va' d" using entry[OF d] False by simp
    then have "leaf st2 pt va' d r" using l at[OF d(1), of va'] by (simp add: leaf_def)
    then show ?thesis using lookup_leaf[OF ok c] lookup_leaf[OF assms(1) c l] e False by simp
  qed
qed

lemma index_bits: "va_index va l = va_index va' l \<Longrightarrow> l \<le> n \<Longrightarrow> n < l + 9 \<Longrightarrow> bit va n = bit va' n"
proof -
  assume i: "va_index va l = va_index va' l" and n: "l \<le> n" "n < l + 9"
  have m: "(0x1FF :: u64) = mask 9" by (simp add: mask_eq_exp_minus_1)
  have "unat (drop_bit l va AND mask 9) = unat (drop_bit l va' AND mask 9)" using i by (simp only: va_index_def m)
  then have "drop_bit l va AND mask 9 = drop_bit l va' AND mask 9" by (rule word_unat_eq_iff[THEN iffD2])
  then have "bit (drop_bit l va AND mask 9) (n - l) = bit (drop_bit l va' AND mask 9) (n - l)" by simp
  moreover have "n - l < 9" "l + (n - l) = n" using n by auto
  ultimately show ?thesis by (simp add: bit_and_iff bit_mask_iff bit_drop_bit_eq)
qed

lemma canonical_high_bits:
  assumes "va_is_canonical va" "47 \<le> n" "n < 64"
  shows "bit va n = bit va 47"
proof -
  have b: "bit va n = bit (drop_bit 47 va) (n - 47)" "bit va 47 = bit (drop_bit 47 va) 0" using assms(2) by (simp_all add: bit_drop_bit_eq)
  have m: "(0x1FFFF :: u64) = mask 17" by (simp add: mask_eq_exp_minus_1)
  consider "drop_bit 47 va = 0" | "drop_bit 47 va = mask 17" using assms(1) by (auto simp: canonical_bits m)
  moreover have "n - 47 < 17" using assms(2,3) by linarith
  ultimately show ?thesis by cases (auto simp: b bit_mask_iff)
qed

lemma small_perm_bits: "perm < 0x1000 \<Longrightarrow> bit perm n \<Longrightarrow> n < 12" for perm :: u64
proof -
  assume p: "perm < 0x1000" and b: "bit perm n"
  have "unat perm < 2 ^ 12" using p by (simp add: word_less_nat_alt)
  then have "take_bit 12 (unat perm) = unat perm" by (simp add: take_bit_nat_eq_self)
  moreover have "bit (unat perm) n" using b by (simp add: bit_unsigned_iff)
  ultimately show "n < 12" by (metis bit_take_bit_iff)
qed

lemma same_path_page:
  assumes "va_is_canonical va" "va_is_canonical va'"
  shows "same_path 4 va va' \<longleftrightarrow> agree_above PAGEOFFBITS va va'"
proof
  assume a: "agree_above PAGEOFFBITS va va'"
  have "va_index va (level_bits j) = va_index va' (level_bits j)" if "j < 4" for j
    using agree_above_index[OF agree_above_mono[OF a]] that by (simp add: level_bits_def initial_lbits_def PAGEINDEXBITS_def PAGEOFFBITS_def)
  then show "same_path 4 va va'" by (auto simp: same_path_def list_all_iff)
next
  assume s: "same_path 4 va va'"
  then have i: "va_index va 39 = va_index va' 39" "va_index va 30 = va_index va' 30" "va_index va 21 = va_index va' 21" "va_index va 12 = va_index va' 12"
    using s[unfolded same_path_def list_all_iff, rule_format, of 0] s[unfolded same_path_def list_all_iff, rule_format, of 1]
      s[unfolded same_path_def list_all_iff, rule_format, of 2] s[unfolded same_path_def list_all_iff, rule_format, of 3]
    by (simp_all add: level_bits_def initial_lbits_def PAGEINDEXBITS_def)
  have low: "bit va n = bit va' n" if "12 \<le> n" "n < 48" for n
  proof -
    consider "n < 21" | "21 \<le> n \<and> n < 30" | "30 \<le> n \<and> n < 39" | "39 \<le> n" by linarith
    then show ?thesis using that index_bits[OF i(1), of n] index_bits[OF i(2), of n] index_bits[OF i(3), of n] index_bits[OF i(4), of n]
      by cases simp_all
  qed
  have "bit va n = bit va' n" if "12 \<le> n" "n < 64" for n
    using low[of n] low[of 47] canonical_high_bits[OF assms(1), of n] canonical_high_bits[OF assms(2), of n] that
    by (cases "n < 48") simp_all
  then have "bit va n = bit va' n" if "12 \<le> n" for n
    using that bit_imp_le_length[of va n] bit_imp_le_length[of va' n] by (cases "n < 64") auto
  then show "agree_above PAGEOFFBITS va va'" by (simp add: agree_above_bits PAGEOFFBITS_def)
qed

lemma entry_mapping_page:
  assumes "bit perm 0" "perm < 0x1000" "pa AND PTE_PAMASK = pa"
  shows "entry_mapping va 3 (pa OR perm) = Some (pa + (va AND 0xFFF), perm)" "(pa OR perm) AND PTE_PAMASK = pa"
proof -
  note perm = small_perm_bits[OF assms(2)]
  have pa: "bit pa n \<Longrightarrow> 12 \<le> n \<and> n < 52" for n by (metis assms(3) bit_and_iff pamask_bits)
  show eq: "(pa OR perm) AND PTE_PAMASK = pa"
    by (rule bit_word_eqI) (auto simp: bit_and_iff bit_or_iff pamask_bits dest: perm pa)
  have ip: "initial_perm = mask 12" "(0xFFF :: u64) = mask 12" by (simp_all add: initial_perm_def mask_eq_exp_minus_1)
  have "(pa OR perm) AND initial_perm = perm" unfolding ip
    by (rule bit_word_eqI) (auto simp: bit_and_iff bit_or_iff bit_mask_iff dest: perm pa)
  then show "entry_mapping va 3 (pa OR perm) = Some (pa + (va AND 0xFFF), perm)"
    using assms(1) eq by (simp add: entry_mapping_def bit_or_iff level_bits_values PAGEOFFBITS_def ip(2)[symmetric] mask_eq_exp_minus_1)
qed

lemma try_map_lemma:
  assumes "vm_ok ke st pt" "va_is_canonical va" "va mod PAGESIZE = 0"
    "bit perm 0" "perm < 0x1000" "pa AND PTE_PAMASK = pa" "pa < 0x100000000" "new_vmiter st pt va = Inr it"
  shows "\<exists>r st' it'. try_map ke pa perm (st, it) = Inr (r, st', it') \<and> vm_ok ke st' pt \<and> evolves ke pt st st' \<and>
    (r = 0 \<and> (\<forall>va'. lookup st' pt va' =
        (if agree_above PAGEOFFBITS va va' then Inr (Some (pa + (va' AND 0xFFF), perm)) else lookup st pt va'))
     \<or> r = - 1 \<and> (\<nexists>q. free_page ke st' q) \<and> (\<forall>va'. lookup st' pt va' = lookup st pt va'))"
proof -
  obtain d p where l: "leaf st pt va d p" using leaf_exists by blast
  have d: "d \<le> 3" using l by (simp add: leaf_def)
  have it: "it = at_table pt va p (level_bits d) initial_perm" using new_vmiter_leaf[OF assms(1,2) l] assms(8) by simp
  have asserts: "it_va it mod PAGESIZE = 0" "perm AND PTE_P \<noteq> 0" "pa \<noteq> - 1" "perm \<noteq> 0"
    "perm AND NOT (it_perm it) AND (PTE_P OR PTE_W OR PTE_U) = 0"
  proof -
    show "it_va it mod PAGESIZE = 0" using assms(3) it by (simp add: at_table_def)
    show "perm AND PTE_P \<noteq> 0" "perm \<noteq> 0" using assms(4) and_PTE_P[of perm] by auto
    show "pa \<noteq> - 1" using assms(7) by auto
    have ip: "it_perm it = mask 12" using it by (simp add: at_table_def initial_perm_def mask_eq_exp_minus_1)
    show "perm AND NOT (it_perm it) AND (PTE_P OR PTE_W OR PTE_U) = 0" unfolding ip
      by (intro bit_word_eqI) (auto simp: bit_and_iff bit_not_iff bit_mask_iff dest: small_perm_bits[OF assms(5)])
  qed
  have "3 - d < it_lbits it" using it d by (simp add: at_table_def level_bits_def initial_lbits_def PAGEINDEXBITS_def)
  from map_levels_spec[OF assms(1) l asserts(4) this, folded it] obtain st1 where
    st1: "vm_ok ke st1 pt" "evolves ke pt st st1" "\<And>va'. lookup st1 pt va' = lookup st pt va'" and
    res: "(\<exists>it'. map_levels (it_lbits it) ke perm (st, it) = Inr (- 1, st1, it') \<and> (\<nexists>q. free_page ke st1 q)) \<or>
       (\<exists>p'. map_levels (it_lbits it) ke perm (st, it) = Inr (0, st1, at_table pt va p' (level_bits 3) initial_perm) \<and> leaf st1 pt va 3 p')"
    by blast
  from res show ?thesis
  proof (elim disjE exE conjE)
    fix it' assume "map_levels (it_lbits it) ke perm (st, it) = Inr (- 1, st1, it')" "\<nexists>q. free_page ke st1 q"
    then have "try_map ke pa perm (st, it) = Inr (- 1, st1, it')" using asserts assms(6) by (simp add: try_map_def Let_def)
    then show ?thesis using st1 \<open>\<nexists>q. free_page ke st1 q\<close> by blast
  next
    fix p' assume m: "map_levels (it_lbits it) ke perm (st, it) = Inr (0, st1, at_table pt va p' (level_bits 3) initial_perm)" "leaf st1 pt va 3 p'"
    define st2 where "st2 = put_entry p' (va_index va PAGEOFFBITS) (pa OR perm) st1"
    have "try_map ke pa perm (st, it) = Inr (0, st2, at_table pt va p' (level_bits 3) initial_perm)"
      using m(1) asserts assms(6) level_bits_values
      by (simp add: try_map_def Let_def at_table_def write_entry_def st2_def put_entry_def)
    moreover have "(pa OR perm) AND PTE_PAMASK < 0x100000000" using entry_mapping_page(2)[OF assms(4-6)] assms(7) by simp
    note ok = put_entry_ok[OF st1(1) m(2) this st2_def]
    have "lookup st2 pt va' = (if agree_above PAGEOFFBITS va va' then Inr (Some (pa + (va' AND 0xFFF), perm)) else lookup st pt va')" for va'
    proof (cases "va_is_canonical va'")
      case True
      then show ?thesis using ok(4)[OF True] same_path_page[OF assms(2) True] entry_mapping_page(1)[OF assms(4-6)] st1(3) by simp
    next
      case False
      then have "\<not> agree_above PAGEOFFBITS va va'" using assms(2) canonical_agree[of PAGEOFFBITS va va'] by (auto simp: PAGEOFFBITS_def)
      then show ?thesis using False by (simp add: lookup_hole)
    qed
    ultimately show ?thesis using ok(1) evolves_trans[OF st1(2) ok(2)] by blast
  qed
qed

lemma vm_ok_empty:
  assumes "pmem st pt = (\<lambda>_. 0)" "\<not> free_page ke st pt"
  shows "vm_ok ke st pt" "lookup st pt va = Inr None" "tables st pt = {pt}"
proof -
  have at: "table_at st pt va d = (if d = 0 then Some pt else None)" for va d
  proof (induction d)
    case (Suc d)
    then show ?case using assms(1) by (auto simp: entry_for_def is_table_bits)
  qed simp
  then show ok: "vm_ok ke st pt" using assms unfolding vm_ok_def
    by (auto simp: same_path_simps entry_ok_def entry_for_def split: if_splits)
  show "tables st pt = {pt}" by (auto simp: tables_def at split: if_splits)
  have "leaf st pt va 0 pt" using at[of va 0] assms(1) by (simp add: leaf_def entry_for_def is_table_bits)
  then show "lookup st pt va = Inr None" using lookup_leaf[OF ok] assms(1) lookup_hole
    by (cases "va_is_canonical va") (auto simp: entry_mapping_def entry_for_def)
qed

section \<open>Frames\<close>

text \<open>A walk reads the tables only: where they are unchanged, so are the walk and the translation.\<close>

lemma read_entry_cong: "pmem st' = pmem st \<Longrightarrow> read_entry st' = read_entry st"
  by (intro ext) (simp add: read_entry_def split: entry_ptr.splits)

lemma vm_down_loop_cong: "pmem st' = pmem st \<Longrightarrow> vm_down_loop st' it = vm_down_loop st it"
proof (induction st it rule: vm_down_loop.induct)
  case (1 st it)
  note r = read_entry_cong[OF "1.prems"]
  show ?case
  proof (cases "PAGEOFFBITS < it_lbits it \<and> is_table (read_entry st (it_pep it))")
    case True
    then show ?thesis using "1.IH"[OF True refl refl refl refl "1.prems"]
      by (subst (1 2) vm_down_loop.simps) (simp add: r Let_def)
  next
    case False
    then show ?thesis by (subst (1 2) vm_down_loop.simps) (simp only: r if_not_P if_False)
  qed
qed

lemma new_vmiter_cong: "pmem st' = pmem st \<Longrightarrow> new_vmiter st' pt va = new_vmiter st pt va"
  using vm_down_loop_cong[of st' st] read_entry_cong[of st' st] by (simp add: new_vmiter_eq vm_down_def)

lemma perm_cong:
  assumes "pmem st' = pmem st"
  shows "vm_perm st' it = vm_perm st it" "vm_pa st' it = vm_pa st it" "vm_has_perm st' it = vm_has_perm st it"
  using read_entry_cong[OF assms] by (auto simp: vm_perm_def vm_pa_def vm_has_perm_def intro!: ext)

lemma lookup_cong: "pmem st' = pmem st \<Longrightarrow> lookup st' pt va = lookup st pt va"
  using new_vmiter_cong[of st' st pt va] perm_cong[of st' st]
  by (cases "new_vmiter st pt va") (simp_all add: lookup_def vm_present_def)

lemma table_at_unchanged:
  assumes "\<And>q. q \<in> tables st pt \<Longrightarrow> pmem st' q = pmem st q"
  shows "d \<le> 3 \<Longrightarrow> table_at st' pt va d = table_at st pt va d"
    "d \<le> 3 \<Longrightarrow> table_at st pt va d = Some q \<Longrightarrow> entry_for st' q va d = entry_for st q va d"
proof -
  show entry: "entry_for st' q va k = entry_for st q va k" if "k \<le> 3" "table_at st pt va k = Some q" for va k q
  proof -
    have "q \<in> tables st pt" using that unfolding tables_def by blast
    then show ?thesis using assms[of q] by (simp add: entry_for_def)
  qed
  show "table_at st' pt va d = table_at st pt va d" if "d \<le> 3"
    using table_at_frame[of d st pt va st'] entry that by simp
qed

lemma walkable_frame:
  assumes "walkable ke st pt" "\<And>q. q \<in> tables st pt \<Longrightarrow> pmem st' q = pmem st q" "\<And>q. free_page ke st' q \<Longrightarrow> free_page ke st q"
  shows "walkable ke st' pt" "tables st' pt = tables st pt" "new_vmiter st' pt va = new_vmiter st pt va" "lookup st' pt va = lookup st pt va"
proof -
  have at: "table_at st' pt va d = table_at st pt va d" if "d \<le> 3" for va d
    by (rule table_at_unchanged(1)[OF _ that]) (rule assms(2))
  have entry: "entry_for st' q va d = entry_for st q va d" if "d \<le> 3" "table_at st pt va d = Some q" for va d q
    by (rule table_at_unchanged(2)[OF _ that]) (rule assms(2))
  show ok: "walkable ke st' pt" unfolding walkable_def
  proof (intro conjI allI impI; elim conjE)
    fix va va' d d' p assume a: "d \<le> 3" "d' \<le> 3" "table_at st' pt va d = Some p" "table_at st' pt va' d' = Some p"
    then show "d = d'" "same_path d va va'" using walkableD(1)[OF assms(1) a(1,2), of va p va'] at by auto
  next
    fix va d p assume a: "d \<le> 3" "table_at st' pt va d = Some p"
    then have p: "table_at st pt va d = Some p" using at by simp
    show "\<not> free_page ke st' p" using walkableD(2)[OF assms(1) a(1) p] assms(3) by blast
    show "entry_walkable d (entry_for st' p va d)" using walkableD(3)[OF assms(1) a(1) p] entry[OF a(1) p] by simp
  qed
  show "tables st' pt = tables st pt" unfolding tables_def using at by metis
  obtain d p where l: "leaf st pt va d p" using leaf_exists by blast
  then have d: "d \<le> 3" "table_at st pt va d = Some p" by (auto simp: leaf_def)
  then have l': "leaf st' pt va d p" using l at entry by (simp add: leaf_def)
  show "new_vmiter st' pt va = new_vmiter st pt va"
    using walkable_leaf[OF ok _ l'] walkable_leaf[OF assms(1) _ l] by (cases "va_is_canonical va") (auto simp: new_vmiter_eq down_zero)
  show "lookup st' pt va = lookup st pt va"
    using walkable_lookup[OF ok _ l'] walkable_lookup[OF assms(1) _ l] entry[OF d] lookup_hole by (cases "va_is_canonical va") auto
qed

lemma vm_ok_frame:
  assumes "vm_ok ke st pt" "\<And>q. q \<in> tables st pt \<Longrightarrow> pmem st' q = pmem st q" "\<And>q. free_page ke st' q \<Longrightarrow> free_page ke st q"
  shows "vm_ok ke st' pt" "tables st' pt = tables st pt" "new_vmiter st' pt va = new_vmiter st pt va" "lookup st' pt va = lookup st pt va"
proof -
  note same = walkable_frame[OF vm_ok_walkable[OF assms(1)] assms(2,3)]
  have at: "table_at st' pt va d = table_at st pt va d" if "d \<le> 3" for va d
    by (rule table_at_unchanged(1)[OF _ that]) (rule assms(2))
  have entry: "entry_for st' q va d = entry_for st q va d" if "d \<le> 3" "table_at st pt va d = Some q" for va d q
    by (rule table_at_unchanged(2)[OF _ that]) (rule assms(2))
  have "entry_ok d (entry_for st' p va d)" if "d \<le> 3" "table_at st' pt va d = Some p" for va d p
    using vm_okD(3)[OF assms(1) that(1)] entry[OF that(1)] at[OF that(1)] that(2) by simp
  then show "vm_ok ke st' pt" using same(1) unfolding vm_ok_def walkable_def by blast
  show "tables st' pt = tables st pt" "new_vmiter st' pt va = new_vmiter st pt va" "lookup st' pt va = lookup st pt va"
    using same(2-4) by blast+
qed

lemma walkable_exists: "walkable ke st pt \<Longrightarrow> \<exists>it. new_vmiter st pt va = Inr it"
  using walkable_leaf leaf_exists[of st pt va] by (cases "va_is_canonical va") (fastforce simp: new_vmiter_eq down_zero)+

lemmas walk_exists = walkable_exists[OF vm_ok_walkable]

text \<open>What an iterator of a well-formed page table shows at a page-aligned address.\<close>

lemma lookup_at:
  assumes "vm_ok ke st pt" "va_is_canonical va" "va AND 0xFFF = 0" "new_vmiter st pt va = Inr it"
  shows "lookup st pt va = Inr (if vm_present st it then Some (vm_pa st it, vm_perm st it) else None)"
    "vm_present st it \<Longrightarrow> vm_pa st it AND PTE_PAMASK = vm_pa st it \<and> vm_pa st it < 0x100000000 \<and>
       vm_perm st it < 0x1000 \<and> bit (vm_perm st it) 0"
proof -
  show l: "lookup st pt va = Inr (if vm_present st it then Some (vm_pa st it, vm_perm st it) else None)"
    using assms(4) by (simp add: lookup_def)
  obtain d p where leaf: "leaf st pt va d p" using leaf_exists by blast
  let ?e = "entry_for st p va d"
  have d: "d \<le> 3" "table_at st pt va d = Some p" using leaf by (auto simp: leaf_def)
  have m: "entry_mapping va d ?e = (if vm_present st it then Some (vm_pa st it, vm_perm st it) else None)"
    using lookup_leaf[OF assms(1,2) leaf] l by simp
  assume pr: "vm_present st it"
  then have e: "bit ?e 0" using m by (auto simp: entry_mapping_def split: if_splits)
  then have d3: "d = 3" using d(1) leaf_absent[OF assms(1) leaf] by (cases "d = 3") auto
  have m12: "(0xFFF :: u64) = mask 12" by (simp add: mask_eq_exp_minus_1)
  have "va AND mask (level_bits d) = 0" using assms(3) d3 level_bits_values by (simp add: PAGEOFFBITS_def m12)
  then have pa: "vm_pa st it = ?e AND PTE_PAMASK" "vm_perm st it = ?e AND initial_perm"
    using m e pr d3 by (simp_all add: entry_mapping_def)
  have "unat (take_bit 12 ?e) < 2 ^ 12" using take_bit_nat_less_exp[of 12 "unat ?e"] by (simp add: unsigned_take_bit_eq)
  then have "take_bit 12 ?e < 0x1000" by (simp add: word_less_nat_alt)
  then have "?e AND mask 12 < 0x1000" by (simp only: take_bit_eq_mask[symmetric])
  then have perm: "vm_perm st it < 0x1000" "bit (vm_perm st it) 0"
    unfolding pa(2) initial_perm_def m12 using e by (simp_all add: bit_and_iff bit_mask_iff)
  show "vm_pa st it AND PTE_PAMASK = vm_pa st it \<and> vm_pa st it < 0x100000000 \<and> vm_perm st it < 0x1000 \<and> bit (vm_perm st it) 0"
    using pa perm vm_okD(3)[OF assms(1) d] by (simp add: entry_ok_def and.assoc)
qed

text \<open>
  C10. \<open>try_map\<close> of a page-aligned address to a page below 4 GiB, in a page table whose tables are
  unshared and in use, returns 0 or -1 and keeps the page table well formed. With 0, exactly the addresses
  of that page are translated anew, to the given physical page and permissions, and every other address
  is translated as before; with -1, which happens only when no page is free, no translation changes. Memory
  that is no table of this page table and no free page is left alone, and counts change only for new tables.
\<close>

theorem try_map_changes_one_page:
  assumes "vm_ok ke st pt" "va_is_canonical va" "va mod PAGESIZE = 0"
    "bit perm 0" "perm < 0x1000" "pa AND PTE_PAMASK = pa" "pa < 0x100000000" "new_vmiter st pt va = Inr it"
  shows "\<exists>r st' it'. try_map ke pa perm (st, it) = Inr (r, st', it') \<and> vm_ok ke st' pt \<and> evolves ke pt st st' \<and>
    (r = 0 \<and> (\<forall>va'. lookup st' pt va' =
        (if agree_above PAGEOFFBITS va va' then Inr (Some (pa + (va' AND 0xFFF), perm)) else lookup st pt va'))
     \<or> r = - 1 \<and> (\<nexists>q. free_page ke st' q) \<and> (\<forall>va'. lookup st' pt va' = lookup st pt va'))"
  by (rule try_map_lemma[OF assms])

lemma boot_mem_ok:
  assumes "st = \<lparr>pmem = (\<lambda>_ _. 0), refcount = (\<lambda>_. 0)(1 := 1)\<rparr>"
  shows "vm_ok 0x50000 st 0x1000" "va_is_canonical va \<Longrightarrow> new_vmiter st 0x1000 va = Inr (at_table 0x1000 va 0x1000 39 0xFFF)"
proof -
  have "\<not> free_page 0x50000 st 0x1000" by (simp add: assms free_page_def page_of_def PAGESIZE_def)
  then show ok: "vm_ok 0x50000 st 0x1000" using vm_ok_empty(1)[of st "0x1000" "0x50000"] by (simp add: assms)
  have l: "leaf st 0x1000 va 0 0x1000" by (simp add: leaf_def entry_for_def assms is_table_bits)
  show "new_vmiter st 0x1000 va = Inr (at_table 0x1000 va 0x1000 39 0xFFF)" if "va_is_canonical va"
    using new_vmiter_leaf[OF ok that l] level_bits_values by (simp add: initial_lbits_def initial_perm_def)
qed

theorem try_map_changes_one_page_witness:
  "\<exists>st it r st' it'. new_vmiter st 0x1000 0x100000 = Inr it \<and> try_map 0x50000 0x5000 7 (st, it) = Inr (r, st', it') \<and>
     vm_ok 0x50000 st' 0x1000 \<and> (r = 0 \<longrightarrow> lookup st' 0x1000 0x100008 = Inr (Some (0x5008, 7)))"
proof -
  define st where "st = \<lparr>pmem = (\<lambda>_ _. 0) :: u64 \<Rightarrow> nat \<Rightarrow> u64, refcount = (\<lambda>_. 0)(1 := 1)\<rparr>"
  note b = boot_mem_ok[OF st_def]
  have hyps: "va_is_canonical 0x100000" "(0x100000 :: u64) mod PAGESIZE = 0" "bit (7 :: u64) 0" "(7 :: u64) < 0x1000"
    "(0x5000 :: u64) AND PTE_PAMASK = 0x5000" "(0x5000 :: u64) < 0x100000000"
    by (simp_all add: va_is_canonical_def VA_LOWMAX_def PAGESIZE_def PTE_PAMASK_def del: mod_eq_0_iff_dvd)
  have agree: "agree_above PAGEOFFBITS 0x100000 0x100008" by (simp add: agree_above_def PAGEOFFBITS_def)
  show ?thesis using try_map_changes_one_page[OF b(1) hyps b(2)[OF hyps(1)]] agree b(2)[OF hyps(1)] by fastforce
qed

end
