(* ===== verification/Weensy_Walk.thy ===== *)
theory Weensy_Walk
  imports Weensy_Map
begin

text \<open>
  The depth-first walk of a \<open>ptiter\<close> over the pages of a page table: from any position it moves to the next
  entry that points at a table, in an order in which children come before their parents, and it is done when
  there is none left. So it visits every table page but the root, each once.
\<close>

section \<open>The order of the walk\<close>

text \<open>
  The entry for \<open>va\<close> whose level has \<open>l\<close> bits below it comes when the last address below it has been passed;
  of several entries that end at one address, the deeper is first.
\<close>

definition entry_key :: "u64 \<Rightarrow> nat \<Rightarrow> nat" where
  "entry_key va l = unat (va OR mask l) * 64 + l"

lemma level_cases: "d \<le> 2 \<Longrightarrow> d = 0 \<and> level_bits d = 39 \<or> d = 1 \<and> level_bits d = 30 \<or> d = 2 \<and> level_bits d = 21"
  by (auto simp: le_Suc_eq numeral_2_eq_2 level_bits_def initial_lbits_def PAGEINDEXBITS_def)

lemma key_less:
  assumes "l < 64" "m < 64"
  shows "entry_key x m < entry_key y l \<longleftrightarrow> x OR mask m < y OR mask l \<or> x OR mask m = y OR mask l \<and> m < l"
  using assms unfolding entry_key_def word_less_nat_alt word_unat_eq_iff by linarith

lemma key_eq:
  assumes "l < 64" "m < 64"
  shows "entry_key x m = entry_key y l \<longleftrightarrow> x OR mask m = y OR mask l \<and> m = l"
proof
  assume "entry_key x m = entry_key y l"
  then have k: "unat (x OR mask m) * 64 + m = unat (y OR mask l) * 64 + l" by (simp only: entry_key_def)
  then have "unat (x OR mask m) = unat (y OR mask l)" using assms by linarith
  then show "x OR mask m = y OR mask l \<and> m = l" using k by (simp add: word_unat_eq_iff)
qed (auto simp: entry_key_def)

lemma or_mask_agree: "agree_above l x y \<longleftrightarrow> x OR mask l = y OR mask l"
proof
  assume a: "agree_above l x y"
  show "x OR mask l = y OR mask l"
  proof (rule bit_word_eqI)
    fix n show "bit (x OR mask l) n \<longleftrightarrow> bit (y OR mask l) n"
      using a by (cases "l \<le> n") (auto simp: agree_above_bits bit_or_iff bit_mask_iff dest: bit_imp_le_length)
  qed
next
  assume eq: "x OR mask l = y OR mask l"
  have "bit x n = bit y n" if "l \<le> n" for n
  proof -
    have "bit (x OR mask l) n = bit (y OR mask l) n" using eq by simp
    then show ?thesis using that by (simp add: bit_or_iff bit_mask_iff)
  qed
  then show "agree_above l x y" by (simp add: agree_above_bits)
qed

lemma or_mask_mono: "l \<le> m \<Longrightarrow> x OR mask l \<le> x OR mask m" for x :: u64
proof -
  assume "l \<le> m"
  then have "(x OR mask l) OR (x OR mask m) = x OR mask m"
    by (intro bit_word_eqI) (auto simp: bit_or_iff bit_mask_iff)
  then show ?thesis using le_word_or2[of "x OR mask l" "x OR mask m"] by simp
qed

lemma or_mask_below: "x OR mask m \<le> y OR mask l \<Longrightarrow> l \<le> m \<Longrightarrow> y \<le> x OR mask m \<Longrightarrow> agree_above m x y" for x y :: u64
proof -
  assume a: "x OR mask m \<le> y OR mask l" "l \<le> m" "y \<le> x OR mask m"
  have d: "drop_bit m (z OR mask k) = drop_bit m z" if "k \<le> m" for z :: u64 and k
    using that by (intro bit_word_eqI) (auto simp: bit_drop_bit_eq bit_or_iff bit_mask_iff)
  show ?thesis using drop_bit_mono[OF a(1), of m] drop_bit_mono[OF a(3), of m] d[of m x] d[OF a(2), of y]
    by (simp add: agree_above_def)
qed

section \<open>Iterators of a page table\<close>

text \<open>Where a \<open>ptiter\<close> can be: at the entry for its address of a table on the way to that address.\<close>

definition pt_at :: "kmem \<Rightarrow> u64 \<Rightarrow> ptiter \<Rightarrow> nat \<Rightarrow> bool" where
  "pt_at st pt it d \<longleftrightarrow> d \<le> 2 \<and> pt_lbits it = level_bits d \<and> pt_pt it = pt \<and> va_is_canonical (pt_va it) \<and>
     (\<exists>p. table_at st pt (pt_va it) d = Some p \<and> pt_pep it = (p, va_index (pt_va it) (level_bits d)))"

text \<open>The entries that point at tables.\<close>

definition table_entry_at :: "kmem \<Rightarrow> u64 \<Rightarrow> u64 \<Rightarrow> nat \<Rightarrow> u64 \<Rightarrow> bool" where
  "table_entry_at st pt x d q \<longleftrightarrow> d \<le> 2 \<and> va_is_canonical x \<and> table_at st pt x (Suc d) = Some q"

lemma pt_at_ok: "pt_at st pt it d \<Longrightarrow> pt_ok it"
  using level_cases[of d] by (auto simp: pt_at_def pt_ok_def)

lemma pt_at_entry: "pt_at st pt it d \<Longrightarrow> table_at st pt (pt_va it) d = Some (fst (pt_pep it)) \<and>
    pt_entry st it = entry_for st (fst (pt_pep it)) (pt_va it) d"
  by (auto simp: pt_at_def pt_entry_def entry_for_def)

lemma pt_at_table: "pt_at st pt it d \<Longrightarrow> is_table (pt_entry st it) \<Longrightarrow> table_entry_at st pt (pt_va it) d (pt_pa st it)"
  using pt_at_entry[of st pt it d] by (simp add: table_entry_at_def pt_at_def pt_pa_def)

lemma agree_same_path: "agree_above (level_bits d) x y \<Longrightarrow> d \<le> 3 \<Longrightarrow> same_path (Suc d) x y"
proof -
  assume a: "agree_above (level_bits d) x y" "d \<le> 3"
  have "va_index x (level_bits j) = va_index y (level_bits j)" if "j < Suc d" for j
  proof -
    have "level_bits d \<le> level_bits j" using that by (simp add: level_bits_def PAGEINDEXBITS_def)
    then show ?thesis using agree_above_index[OF agree_above_mono[OF a(1)]] by simp
  qed
  then show ?thesis by (auto simp: same_path_def list_all_iff)
qed

text \<open>Entries at or above a level below the current entry exist only if the current entry is a table.\<close>

lemma entry_below:
  assumes "pt_at st pt it d" "table_entry_at st pt x e q" "agree_above (level_bits d) x (pt_va it)" "d \<le> e"
  shows "is_table (pt_entry st it)"
proof -
  have d: "d \<le> 2" using assms(1) by (simp add: pt_at_def)
  have "same_path (Suc d) x (pt_va it)" using agree_same_path[OF assms(3)] d by simp
  then have eq: "table_at st pt x (Suc d) = table_at st pt (pt_va it) (Suc d)" by (rule table_at_path)
  obtain r where "table_at st pt x (Suc d) = Some r"
    using table_at_le[of st pt x "Suc e" q "Suc d"] assms(2,4) by (auto simp: table_entry_at_def)
  then show ?thesis using eq pt_at_entry[OF assms(1)] by (auto split: if_splits)
qed

definition walk_bound :: "nat \<Rightarrow> bool \<Rightarrow> ptiter \<Rightarrow> nat" where
  "walk_bound stop skip it = (if skip then entry_key (pt_va it) (pt_lbits it) + 1 else entry_key (pt_va it) stop)"

lemma no_entry_below:
  assumes "pt_at st pt it d" "skip \<or> \<not> is_table (pt_entry st it)" "table_entry_at st pt x e q"
    "walk_bound 21 skip it \<le> entry_key x (level_bits e)"
    "x OR mask (level_bits e) \<le> pt_va it OR mask (pt_lbits it)"
  shows "e < d \<and> pt_va it OR mask (level_bits e) = pt_va it OR mask (pt_lbits it) \<and>
    x OR mask (level_bits e) = pt_va it OR mask (level_bits e)"
proof -
  define l m va where "l = pt_lbits it" "m = level_bits e" "va = pt_va it"
  have d: "d \<le> 2" "l = level_bits d" using assms(1) by (auto simp: pt_at_def l_m_va_def)
  have e: "e \<le> 2" using assms(3) by (simp add: table_entry_at_def)
  have le: "d \<le> e \<longleftrightarrow> m \<le> l" "l < 64" "m < 64" "21 \<le> m" "21 \<le> l"
    using level_cases[OF d(1)] level_cases[OF e] d(2) by (auto simp: l_m_va_def)
  have up: "x OR mask m \<le> va OR mask l" using assms(5) by (simp add: l_m_va_def)
  have lo: "va \<le> x OR mask m"
  proof (cases skip)
    case True
    then have "\<not> entry_key x m < entry_key va l" using assms(4) by (simp add: walk_bound_def l_m_va_def)
    then have "va OR mask l \<le> x OR mask m" using key_less[OF le(2,3), of x va] by auto
    then show ?thesis using le_word_or2[of va "mask l"] by (meson order.trans)
  next
    case False
    then have "\<not> entry_key x m < entry_key va 21" using assms(4) by (simp add: walk_bound_def l_m_va_def)
    then have "va OR mask 21 \<le> x OR mask m" using key_less[of 21 m x va] le(3) by auto
    then show ?thesis using le_word_or2[of va "mask 21"] by (meson order.trans)
  qed
  have not: "\<not> d \<le> e"
  proof
    assume de: "d \<le> e"
    have lt: "x \<le> va OR mask l" using up le_word_or2[of x "mask m"] by (meson order.trans)
    have dr: "drop_bit l (z OR mask k) = drop_bit l z" if "k \<le> l" for z :: u64 and k
      using that by (intro bit_word_eqI) (auto simp: bit_drop_bit_eq bit_or_iff bit_mask_iff)
    have "drop_bit l va \<le> drop_bit l x" using drop_bit_mono[OF lo, of l] dr[of m x] le(1) de by simp
    moreover have "drop_bit l x \<le> drop_bit l va" using drop_bit_mono[OF lt, of l] dr[of l va] by simp
    ultimately have ag: "agree_above l x va" by (simp add: agree_above_def)
    show False
    proof (cases skip)
      case False
      then show False using entry_below[OF assms(1,3), unfolded d(2)[symmetric]] ag de assms(2) d(2) by (simp add: l_m_va_def)
    next
      case True
      then have "\<not> entry_key x m < entry_key va l + 1" using assms(4) by (simp add: walk_bound_def l_m_va_def)
      then have "entry_key va l < entry_key x m" by simp
      then have "l < m" using key_less[OF le(3,2), of va x] up by auto
      then show False using de le(1) by simp
    qed
  qed
  then have lm: "l \<le> m" using le(1) by simp
  have ag: "agree_above m x va" using or_mask_below[OF up lm lo] .
  then have eq: "x OR mask m = va OR mask m" by (simp add: or_mask_agree)
  moreover have "va OR mask l \<le> va OR mask m" using or_mask_mono[OF lm] .
  ultimately have "va OR mask m = va OR mask l" using up by simp
  then show ?thesis using not eq by (simp add: l_m_va_def)
qed

section \<open>Stepping to the next entry\<close>

lemma unat_drop: "unat (drop_bit l z) = unat z div 2 ^ l" for z :: u64
  by (subst unat_drop_bit_eq) (rule drop_bit_eq_div)

lemma unat_or_mask: "l \<le> 47 \<Longrightarrow> unat (va OR mask l) = unat (drop_bit l va) * 2 ^ l + (2 ^ l - 1)" for va :: u64
proof -
  assume l: "l \<le> 47"
  have d: "drop_bit l (va OR mask l) = drop_bit l va"
    by (intro bit_word_eqI) (auto simp: bit_drop_bit_eq bit_or_iff bit_mask_iff)
  have "take_bit l (va OR mask l) = mask l"
    by (intro bit_word_eqI) (auto simp: bit_take_bit_iff bit_or_iff bit_mask_iff)
  then have t: "unat (va OR mask l) mod 2 ^ l = unat (mask l :: u64)"
    by (metis unsigned_take_bit_eq take_bit_eq_mod)
  have "unat (take_bit l (- 1) :: u64) = take_bit l (mask LENGTH(64))"
    by (simp only: unsigned_take_bit_eq unsigned_minus_1_eq_mask)
  then have m: "unat (mask l :: u64) = 2 ^ l - 1"
    using l by (simp only: take_bit_of_mask min_def take_bit_minus_one_eq_mask) (simp add: mask_eq_exp_minus_1)
  have "unat (va OR mask l) div 2 ^ l = unat (drop_bit l va)"
    by (simp only: d[symmetric] unat_drop)
  then show ?thesis using t m div_mult_mod_eq[of "unat (va OR mask l)" "2 ^ l"] by simp
qed

lemma or_mask_le: "a \<le> b \<Longrightarrow> l \<le> 47 \<Longrightarrow> a OR mask l \<le> b OR mask l" for a b :: u64
  using drop_bit_mono[of a b l] by (simp only: word_le_nat_alt unat_or_mask) (intro add_right_mono mult_right_mono, simp_all)

lemma drop_next:
  fixes va :: u64
  assumes "l \<le> 47" "(va OR mask l) + 1 \<noteq> 0"
  shows "unat (drop_bit l ((va OR mask l) + 1)) = unat (drop_bit l va) + 1"
proof -
  have p: "(2 :: nat) ^ l > 0" by simp
  have "unat ((va OR mask l) + 1) = Suc (unat (va OR mask l))" using range_end(3)[OF refl assms(1)] assms(2) by simp
  also have "\<dots> = (unat (drop_bit l va) + 1) * 2 ^ l" using unat_or_mask[OF assms(1), of va] p by (simp add: algebra_simps)
  finally have "unat ((va OR mask l) + 1) div 2 ^ l = unat (drop_bit l va) + 1" by (simp only: nonzero_mult_div_cancel_right[OF power_not_zero[OF zero_neq_numeral[symmetric]]])
  then show ?thesis by (simp only: unat_drop)
qed

lemma va_index_mod: "va_index va l = unat (drop_bit l va) mod 512"
proof -
  have m: "(0x1FF :: u64) = mask 9" by (simp add: mask_eq_exp_minus_1)
  have "drop_bit l va AND mask 9 = take_bit 9 (drop_bit l va)" by (rule take_bit_eq_mask[symmetric])
  then show ?thesis unfolding va_index_def m by (simp only: unsigned_take_bit_eq take_bit_eq_mod[of _ "unat _"]) simp
qed

lemma agree_above_div: "agree_above (l + 9) x y \<longleftrightarrow> unat (drop_bit l x) div 512 = unat (drop_bit l y) div 512"
proof -
  have "unat (drop_bit (l + 9) z) = unat (drop_bit l z) div 512" for z :: u64
    by (simp only: unat_drop power_add div_mult2_eq) simp
  then show ?thesis by (simp add: agree_above_def word_unat_eq_iff)
qed

lemma mod_512_next:
  "(n + 1) div 512 = n div 512 \<Longrightarrow> (n + 1) mod 512 = n mod 512 + 1"
  "n div 512 \<noteq> (n + 1) div 512 \<Longrightarrow> n mod 512 = 511" for n :: nat
proof -
  show "(n + 1) mod 512 = n mod 512 + 1" if "(n + 1) div 512 = n div 512"
    using that div_mult_mod_eq[of n 512] div_mult_mod_eq[of "n + 1" 512] by linarith
  show "n mod 512 = 511" if "n div 512 \<noteq> (n + 1) div 512"
  proof (rule ccontr)
    assume "n mod 512 \<noteq> 511"
    then have "Suc n mod 512 \<noteq> 0" by (simp add: mod_Suc)
    then show False using that by (simp add: div_Suc)
  qed
qed

lemma next_index:
  assumes "l \<le> 47" "(va OR mask l) + 1 \<noteq> 0" "agree_above (l + 9) ((va OR mask l) + 1) va"
  shows "va_index ((va OR mask l) + 1) l = va_index va l + 1"
proof -
  have "unat (drop_bit l va) div 512 = (unat (drop_bit l va) + 1) div 512"
    using assms(3) drop_next[OF assms(1,2)] by (simp add: agree_above_div)
  then show ?thesis unfolding va_index_mod drop_next[OF assms(1,2)]
    by (rule mod_512_next(1)[OF sym])
qed

text \<open>At the last entry of a table, the entry ends where the table ends.\<close>

lemma last_entry:
  assumes "l \<le> 39" "\<not> agree_above (l + 9) ((va OR mask l) + 1) va"
  shows "va OR mask l = va OR mask (l + 9)"
proof -
  have i: "va_index va l = 511"
  proof (cases "(va OR mask l) + 1 = 0")
    case False
    then have "unat (drop_bit l va) div 512 \<noteq> (unat (drop_bit l va) + 1) div 512"
      using assms drop_next[of l va] by (simp add: agree_above_div)
    from mod_512_next(2)[OF this] show ?thesis by (simp only: va_index_mod)
  next
    case True
    then have "va OR mask l = - 1" by (simp add: eq_neg_iff_add_eq_0)
    then have "bit (va OR mask l) n" if "n < 64" for n using that by simp
    then have b: "bit va n" if "l \<le> n" "n < 64" for n using that by (metis bit_or_iff bit_mask_iff not_le)
    have m: "(0x1FF :: u64) = mask 9" by (simp add: mask_eq_exp_minus_1)
    have "drop_bit l va AND mask 9 = mask 9"
      using assms(1) b by (intro bit_word_eqI) (auto simp: bit_and_iff bit_mask_iff bit_drop_bit_eq)
    then show ?thesis by (simp only: va_index_def m) (simp add: mask_eq_exp_minus_1)
  qed
  have one: "va_index (- 1) l = 511"
  proof -
    have m: "(0x1FF :: u64) = mask 9" by (simp add: mask_eq_exp_minus_1)
    have "drop_bit l (- 1 :: u64) AND mask 9 = mask 9"
      using assms(1) by (intro bit_word_eqI) (auto simp: bit_and_iff bit_mask_iff bit_drop_bit_eq)
    then show ?thesis by (simp only: va_index_def m) (simp add: mask_eq_exp_minus_1)
  qed
  have b: "bit va n" if "l \<le> n" "n < l + 9" for n
    using index_bits[of va l "- 1" n] i one that assms(1) by simp
  show ?thesis
    by (rule bit_word_eqI) (auto simp: bit_or_iff bit_mask_iff intro: b)
qed

section \<open>The walk visits every table entry once\<close>

text \<open>
  What a walk finds from the bound \<open>B\<close> on: the iterator is done and no entry is left, or it is at the first
  entry that points at a table.
\<close>

definition reached :: "kmem \<Rightarrow> u64 \<Rightarrow> nat \<Rightarrow> ptiter \<Rightarrow> bool" where
  "reached st pt B it \<longleftrightarrow>
     pt_done it \<and> VA_HIGHMIN \<le> pt_va it \<and> (\<forall>x e q. table_entry_at st pt x e q \<longrightarrow> entry_key x (level_bits e) < B) \<or>
     (\<exists>d. pt_at st pt it d \<and> is_table (pt_entry st it) \<and> B \<le> entry_key (pt_va it) (pt_lbits it) \<and>
        (\<forall>x e q. table_entry_at st pt x e q \<longrightarrow> entry_key x (level_bits e) < B \<or> entry_key (pt_va it) (pt_lbits it) \<le> entry_key x (level_bits e)))"

lemma reached_from:
  assumes "reached st pt B' it" "B \<le> B'"
    "\<And>x e q. table_entry_at st pt x e q \<Longrightarrow> B \<le> entry_key x (level_bits e) \<Longrightarrow> B' \<le> entry_key x (level_bits e)"
  shows "reached st pt B it"
proof -
  have "entry_key x (level_bits e) < B" if "table_entry_at st pt x e q" "entry_key x (level_bits e) < B'" for x e q
    using assms(3)[OF that(1)] that(2) by linarith
  then show ?thesis using assms(1,2) unfolding reached_def by (meson order.trans)
qed

text \<open>The address of the entry after this one of the same table, and what lies between.\<close>

lemma next_address:
  assumes "pt_at st pt it d" "nva = (pt_va it OR mask (pt_lbits it)) + 1" "agree_above (pt_lbits it + 9) nva (pt_va it)"
    "va' = (if va_is_canonical nva then nva else VA_HIGHMIN)"
  shows "nva \<noteq> 0" "pt_va it OR mask (pt_lbits it) < va'" "pt_at st pt (it\<lparr>pt_pep := (case pt_pep it of (pg, i) \<Rightarrow> (pg, i + 1)), pt_va := va'\<rparr>) d"
    "table_entry_at st pt x e q \<Longrightarrow> pt_va it OR mask (pt_lbits it) < x OR mask (level_bits e) \<Longrightarrow>
       va' OR mask 21 \<le> x OR mask (level_bits e)"
proof -
  define va l where "va = pt_va it" "l = pt_lbits it"
  have d: "d \<le> 2" "l = level_bits d" "va_is_canonical va" using assms(1) by (auto simp: pt_at_def va_l_def)
  have l: "l \<le> 39" "l \<le> 47" using level_cases[OF d(1)] d(2) by auto
  have nva: "nva = (va OR mask l) + 1" "agree_above (l + 9) nva va" using assms(2,3) by (simp_all add: va_l_def)
  have less: "va < va'" using step_facts(1)[OF d(3) l(1) nva] assms(4) by simp
  show nz: "nva \<noteq> 0"
  proof
    assume "nva = 0"
    then show False using less assms(4) by (simp add: va_is_canonical_def)
  qed
  have u: "unat nva = Suc (unat (va OR mask l))" using range_end(3)[OF refl l(2), of va] nz nva(1) by simp
  have le: "nva \<le> va'" using assms(4) by (auto simp: va_is_canonical_def not_le)
  show "pt_va it OR mask (pt_lbits it) < va'" using u le by (simp add: va_l_def word_less_nat_alt word_le_nat_alt)
  have high: "l = 39 \<and> nva = 0x800000000000 \<and> va' = VA_HIGHMIN" if nc: "\<not> va_is_canonical nva"
  proof -
    have lo: "va \<le> VA_LOWMAX"
    proof (rule ccontr)
      assume "\<not> va \<le> VA_LOWMAX"
      then have "VA_HIGHMIN \<le> va" using d(3) by (simp add: va_is_canonical_def)
      moreover have "va \<le> nva" using u range_end(2)[OF refl l(2), of va] by (simp add: word_le_nat_alt)
      ultimately show False using nc by (auto simp: va_is_canonical_def)
    qed
    have "va OR mask l \<le> VA_LOWMAX" using low_entry_end[OF lo l(2)] .
    then have "unat nva \<le> 2 ^ 47" using u by (simp add: VA_LOWMAX_def word_le_nat_alt)
    moreover have "\<not> nva \<le> VA_LOWMAX" using nc by (simp add: va_is_canonical_def)
    ultimately have n: "nva = 0x800000000000" by (simp add: VA_LOWMAX_def word_le_nat_alt word_unat_eq_iff)
    have "\<not> l + 9 \<le> 47"
    proof
      assume "l + 9 \<le> 47"
      then show False using canonical_agree[OF nva(2)] nc d(3) by simp
    qed
    then show ?thesis using level_cases[OF d(1)] d(2) n nc assms(4) by auto
  qed
  have index: "va_index va' l = va_index va l + 1"
  proof (cases "va_is_canonical nva")
    case True
    then show ?thesis using next_index[OF l(2), of va] nva nz assms(4) by simp
  next
    case False
    have "va_index nva l = va_index va l + 1" using next_index[OF l(2), of va] nva nz by simp
    then show ?thesis using high[OF False] by (simp add: va_index_def VA_HIGHMIN_def)
  qed
  have path: "same_path d va' va"
  proof (cases "va_is_canonical nva")
    case True
    then have va': "va' = nva" using assms(4) by simp
    show ?thesis
    proof (cases d)
      case 0
      then show ?thesis by (simp add: same_path_simps)
    next
      case (Suc c)
      then have "level_bits c = l + 9" using d(1,2) by (simp add: level_bits_def initial_lbits_def PAGEINDEXBITS_def)
      then show ?thesis using agree_same_path[of c nva va] nva(2) Suc d(1) va' by simp
    qed
  next
    case False
    then have "d = 0" using high level_cases[OF d(1)] d(2) by auto
    then show ?thesis by (simp add: same_path_simps)
  qed
  have "va_is_canonical va'" using assms(4) by (auto simp: va_is_canonical_def)
  then show "pt_at st pt (it\<lparr>pt_pep := (case pt_pep it of (pg, i) \<Rightarrow> (pg, i + 1)), pt_va := va'\<rparr>) d"
    using assms(1) index table_at_path[OF path, of st pt] d(2) by (auto simp: pt_at_def va_l_def)
  show "va' OR mask 21 \<le> x OR mask (level_bits e)"
    if x: "table_entry_at st pt x e q" "pt_va it OR mask (pt_lbits it) < x OR mask (level_bits e)"
  proof -
    have e: "21 \<le> level_bits e" "level_bits e \<le> 47" "va_is_canonical x"
      using x(1) level_cases[of e] by (auto simp: table_entry_at_def)
    have up: "nva \<le> x OR mask (level_bits e)" using x(2) u by (simp add: va_l_def word_less_nat_alt word_le_nat_alt)
    have "va' \<le> x OR mask (level_bits e)"
    proof (cases "va_is_canonical nva")
      case False
      have "\<not> x \<le> VA_LOWMAX"
      proof
        assume "x \<le> VA_LOWMAX"
        then have "nva \<le> VA_LOWMAX" using low_entry_end[OF _ e(2)] up by (meson order.trans)
        then show False using False by (simp add: va_is_canonical_def)
      qed
      then have "VA_HIGHMIN \<le> x" using e(3) by (simp add: va_is_canonical_def)
      then show ?thesis using high[OF False] le_word_or2[of x "mask (level_bits e)"] by (meson order.trans)
    qed (use up assms(4) in simp)
    then have "va' OR mask 21 \<le> (x OR mask (level_bits e)) OR mask 21" by (rule or_mask_le) simp
    moreover have "(x OR mask (level_bits e)) OR mask 21 = x OR mask (level_bits e)"
      using e(1) by (intro bit_word_eqI) (auto simp: bit_or_iff bit_mask_iff)
    ultimately show ?thesis by simp
  qed
qed

text \<open>Nothing lies between the end of a table and the entry that points at it, or between an entry and the next.\<close>

lemma gap_up:
  assumes "pt_at st pt it d" "skip \<or> \<not> is_table (pt_entry st it)"
    "\<not> agree_above (pt_lbits it + 9) ((pt_va it OR mask (pt_lbits it)) + 1) (pt_va it)" "d \<noteq> 0"
  shows "walk_bound 21 skip it \<le> entry_key (pt_va it) (pt_lbits it + 9)"
    "table_entry_at st pt x e q \<Longrightarrow> walk_bound 21 skip it \<le> entry_key x (level_bits e) \<Longrightarrow>
       entry_key (pt_va it) (pt_lbits it + 9) \<le> entry_key x (level_bits e)"
proof -
  define va l where "va = pt_va it" "l = pt_lbits it"
  have d: "d \<le> 2" "l = level_bits d" using assms(1) by (auto simp: pt_at_def va_l_def)
  have l: "l + 9 \<le> 39" "21 \<le> l" using level_cases[OF d(1)] d(2) assms(4) by auto
  have ends: "va OR mask l = va OR mask (l + 9)" using last_entry[of l va] assms(3) l(1) by (simp add: va_l_def)
  have "entry_key va l < entry_key va (l + 9)" "entry_key va 21 \<le> entry_key va (l + 9)"
    using key_less[of "l + 9" l va va] key_less[of "l + 9" 21 va va] ends l or_mask_mono[of 21 "l + 9" va] by auto
  then show "walk_bound 21 skip it \<le> entry_key (pt_va it) (pt_lbits it + 9)" by (simp add: walk_bound_def va_l_def)
  show "entry_key (pt_va it) (pt_lbits it + 9) \<le> entry_key x (level_bits e)"
    if that: "table_entry_at st pt x e q" "walk_bound 21 skip it \<le> entry_key x (level_bits e)"
  proof (rule ccontr)
    assume "\<not> entry_key (pt_va it) (pt_lbits it + 9) \<le> entry_key x (level_bits e)"
    then have lt: "x OR mask (level_bits e) < va OR mask (l + 9) \<or> x OR mask (level_bits e) = va OR mask (l + 9) \<and> level_bits e < l + 9"
      using key_less[of "l + 9" "level_bits e" x va] l(1) level_cases[of e] that(1) by (auto simp: table_entry_at_def not_le va_l_def)
    then have "x OR mask (level_bits e) \<le> pt_va it OR mask (pt_lbits it)" using ends by (auto simp: va_l_def)
    from no_entry_below[OF assms(1,2) that this] have n: "e < d" "va OR mask (level_bits e) = va OR mask l"
      "x OR mask (level_bits e) = va OR mask (level_bits e)" by (auto simp: va_l_def)
    have "l + 9 \<le> level_bits e" using n(1) level_cases[OF d(1)] d(2) level_cases[of e] that(1) by (auto simp: table_entry_at_def)
    then show False using lt n(2,3) ends by auto
  qed
qed

lemma gap_along:
  assumes "pt_at st pt it d" "skip \<or> \<not> is_table (pt_entry st it)" "nva = (pt_va it OR mask (pt_lbits it)) + 1"
    "agree_above (pt_lbits it + 9) nva (pt_va it)" "va' = (if va_is_canonical nva then nva else VA_HIGHMIN)"
  shows "walk_bound 21 skip it \<le> entry_key va' 21"
    "table_entry_at st pt x e q \<Longrightarrow> walk_bound 21 skip it \<le> entry_key x (level_bits e) \<Longrightarrow> entry_key va' 21 \<le> entry_key x (level_bits e)"
proof -
  define va l where "va = pt_va it" "l = pt_lbits it"
  have d: "d \<le> 2" "l = level_bits d" using assms(1) by (auto simp: pt_at_def va_l_def)
  have l: "l < 64" "21 \<le> l" using level_cases[OF d(1)] d(2) by auto
  note n = next_address[OF assms(1,3-5)]
  have lt': "va OR mask l < va' OR mask 21" using n(2) le_word_or2[of va' "mask 21"] by (simp add: va_l_def)
  moreover have "va OR mask 21 < va' OR mask 21" using lt' or_mask_mono[OF l(2), of va] by (meson le_less_trans)
  ultimately show "walk_bound 21 skip it \<le> entry_key va' 21"
    using key_less[of 21 l va va'] key_less[of 21 21 va va'] l(1) by (simp add: walk_bound_def va_l_def)
  show "entry_key va' 21 \<le> entry_key x (level_bits e)"
    if x: "table_entry_at st pt x e q" "walk_bound 21 skip it \<le> entry_key x (level_bits e)"
  proof (cases "x OR mask (level_bits e) \<le> pt_va it OR mask (pt_lbits it)")
    case False
    then have "va' OR mask 21 \<le> x OR mask (level_bits e)" using n(4)[OF x(1)] by simp
    then show ?thesis using key_less[of "level_bits e" 21 x va'] key_less[of 21 "level_bits e" x va'] level_cases[of e] x(1)
      by (auto simp: table_entry_at_def not_less[symmetric])
  next
    case True
    from no_entry_below[OF assms(1,2) x True] have m: "e < d" "va OR mask (level_bits e) = va OR mask l" by (auto simp: va_l_def)
    then have le: "l + 9 \<le> level_bits e" "level_bits e \<le> 47"
      using level_cases[OF d(1)] d(2) level_cases[of e] x(1) by (auto simp: table_entry_at_def)
    have nva: "nva = (va OR mask (level_bits e)) + 1" using m(2) by (simp add: assms(3) va_l_def)
    have "drop_bit (level_bits e) nva = drop_bit (level_bits e) va"
      using agree_above_mono[OF assms(4)] le(1) by (simp add: va_l_def agree_above_def)
    then show ?thesis using drop_next[OF le(2), of va] n(1) nva by simp
  qed
qed

text \<open>A walk that stops above the lowest level stops at a table on the way to its address.\<close>

definition stop_ok :: "kmem \<Rightarrow> u64 \<Rightarrow> nat \<Rightarrow> bool \<Rightarrow> ptiter \<Rightarrow> bool" where
  "stop_ok st pt stop skip it \<longleftrightarrow> stop \<le> pt_lbits it \<and>
     (stop = 21 \<or> \<not> skip \<and> (\<exists>e q. stop = level_bits e \<and> table_entry_at st pt (pt_va it) e q))"

lemma stop_ok_lowest:
  assumes "pt_at st pt it d" "stop_ok st pt stop skip it" "skip \<or> \<not> is_table (pt_entry st it)"
  shows "stop = 21"
proof (rule ccontr)
  assume "stop \<noteq> 21"
  then obtain e q where e: "\<not> skip" "stop = level_bits e" "table_entry_at st pt (pt_va it) e q" using assms(2) by (auto simp: stop_ok_def)
  have "e \<le> 2" "d \<le> 2" "level_bits e \<le> level_bits d"
    using e(2,3) assms(1,2) by (auto simp: stop_ok_def table_entry_at_def pt_at_def)
  then have "d \<le> e" using level_cases[of e] level_cases[of d] by auto
  then show False using entry_below[OF assms(1) e(3)] e(1) assms(3) by (simp add: agree_above_def)
qed

lemma pt_down_finds:
  "pt_at st pt it d \<Longrightarrow> stop_ok st pt stop skip it \<Longrightarrow>
     \<exists>it'. pt_down st stop skip it = Some it' \<and> reached st pt (walk_bound stop skip it) it'"
proof (induction "(2 ^ 64 - unat (pt_va it)) * 10000 + (64 - stop) * 100 + pt_lbits it" arbitrary: stop skip it d rule: less_induct)
  case less
  define va l where "va = pt_va it" "l = pt_lbits it"
  define nva where "nva = (pt_va it OR mask (pt_lbits it)) + 1"
  have d: "d \<le> 2" "l = level_bits d" "va_is_canonical va" using less.prems(1) by (auto simp: pt_at_def va_l_def)
  have l: "l \<le> 39" "l < 64" "21 \<le> l" using level_cases[OF d(1)] d(2) by auto
  have stop: "stop \<in> {21, 30, 39}" using less.prems(2) level_cases by (fastforce simp: stop_ok_def table_entry_at_def)
  note unfold = pt_down_unfold[OF pt_at_ok[OF less.prems(1)] nva_def, of st stop skip]
  consider (here) "\<not> skip" "is_table (pt_entry st it)" "pt_lbits it = stop"
    | (into) "\<not> skip" "is_table (pt_entry st it)" "pt_lbits it \<noteq> stop"
    | (up) "skip \<or> \<not> is_table (pt_entry st it)" "\<not> agree_above (pt_lbits it + 9) nva (pt_va it)"
    | (along) "skip \<or> \<not> is_table (pt_entry st it)" "agree_above (pt_lbits it + 9) nva (pt_va it)" by blast
  then show ?case
  proof cases
    case here
    then have "reached st pt (walk_bound stop skip it) it" unfolding reached_def using less.prems(1)
      by (intro disjI2 exI[of _ d]) (auto simp: walk_bound_def)
    then show ?thesis using here unfold by simp
  next
    case into
    define it2 where "it2 = it\<lparr>pt_lbits := pt_lbits it - PAGEINDEXBITS,
        pt_pep := (pt_entry st it AND PTE_PAMASK, va_index (pt_va it) (pt_lbits it - PAGEINDEXBITS))\<rparr>"
    have "stop < l" using into(3) less.prems(2) by (simp add: stop_ok_def va_l_def)
    then have d2: "d < 2" "stop \<le> l - 9" using stop level_cases[OF d(1)] d(2) by auto
    have lb: "l - PAGEINDEXBITS = level_bits (Suc d)" using level_bits_Suc[of d] d(1,2) by simp
    have "table_at st pt (pt_va it) (Suc d) = Some (pt_entry st it AND PTE_PAMASK)"
      using pt_at_entry[OF less.prems(1)] into(2) by simp
    then have at2: "pt_at st pt it2 (Suc d)" using less.prems(1) d2(1) lb by (simp add: pt_at_def it2_def va_l_def del: table_at.simps)
    have so: "stop_ok st pt stop skip it2" using less.prems(2) d2(2) by (simp add: stop_ok_def it2_def va_l_def PAGEINDEXBITS_def)
    have "pt_va it2 = pt_va it" "pt_lbits it2 < pt_lbits it" using l(3) by (simp_all add: it2_def va_l_def PAGEINDEXBITS_def)
    then have "\<exists>it'. pt_down st stop skip it2 = Some it' \<and> reached st pt (walk_bound stop skip it2) it'"
      using at2 so by (intro less.hyps) auto
    moreover have "walk_bound stop skip it2 = walk_bound stop skip it" using into(1) by (simp add: walk_bound_def it2_def)
    moreover have "pt_down st stop skip it = pt_down st stop skip it2" using into unfold by (simp add: it2_def)
    ultimately show ?thesis by simp
  next
    case up
    have s21: "stop = 21" using stop_ok_lowest[OF less.prems(1,2) up(1)] .
    note none = no_entry_below[OF less.prems(1) up(1)]
    show ?thesis
    proof (cases "nva = 0 \<and> pt_lbits it = initial_lbits")
      case True
      then have e: "pt_down st stop skip it = Some (it\<lparr>pt_lbits := done_lbits\<rparr>)" using up unfold by auto
      have d0: "d = 0" using True level_cases[OF d(1)] d(2) by (auto simp: va_l_def initial_lbits_def)
      have "pt_va it OR mask (pt_lbits it) = - 1" using conjunct1[OF True] unfolding nva_def by (simp add: eq_neg_iff_add_eq_0)
      then have "entry_key x (level_bits e) < walk_bound 21 skip it" if "table_entry_at st pt x e q" for x e q
        using none[OF that] d0 by (metis not_less not_less0 word_order.extremum)
      moreover have "VA_HIGHMIN \<le> va"
      proof (rule ccontr)
        assume "\<not> VA_HIGHMIN \<le> va"
        then have "va \<le> VA_LOWMAX" using d(3) by (simp add: va_is_canonical_def)
        then have "va OR mask l \<le> VA_LOWMAX" using low_entry_end l(1) by simp
        moreover have "va OR mask l = - 1" using conjunct1[OF True] unfolding nva_def va_l_def by (simp add: eq_neg_iff_add_eq_0)
        ultimately show False by (simp add: VA_LOWMAX_def word_le_nat_alt unat_max)
      qed
      ultimately show ?thesis using e s21 by (auto simp: reached_def pt_done_def va_l_def)
    next
      case False
      have dn: "d \<noteq> 0"
      proof
        assume "d = 0"
        then have "l = initial_lbits" "l = 39" using d(2) by (simp_all add: level_bits_def initial_lbits_def)
        then show False using False up(2) step_facts(2)[OF d(3) l(1), of nva] by (auto simp: va_l_def nva_def)
      qed
      define it2 where "it2 = it\<lparr>pt_lbits := initial_lbits, pt_pep := (pt_pt it, va_index (pt_va it) initial_lbits)\<rparr>"
      obtain c where c: "d = Suc c" using dn not0_implies_Suc by blast
      have lc: "level_bits c = l + 9" using d(1,2) c by (simp add: level_bits_def initial_lbits_def PAGEINDEXBITS_def)
      have at2: "pt_at st pt it2 0" using less.prems(1) by (simp add: pt_at_def it2_def level_bits_values)
      have "table_entry_at st pt va c (fst (pt_pep it))"
        using pt_at_entry[OF less.prems(1)] d c by (simp add: table_entry_at_def va_l_def del: table_at.simps)
      moreover have "l + 9 \<le> 39" using level_cases[OF d(1)] d(2) dn by auto
      ultimately have so: "stop_ok st pt (l + 9) False it2"
        using lc unfolding stop_ok_def it2_def by (auto simp: va_l_def initial_lbits_def intro!: exI[of _ c])
      have "\<exists>it'. pt_down st (l + 9) False it2 = Some it' \<and> reached st pt (walk_bound (l + 9) False it2) it'"
        using at2 so s21 l(3) \<open>l + 9 \<le> 39\<close> by (intro less.hyps) (auto simp: it2_def initial_lbits_def va_l_def)
      then obtain it' where r: "pt_down st (l + 9) False it2 = Some it'" "reached st pt (entry_key va (l + 9)) it'"
        by (auto simp: walk_bound_def it2_def va_l_def)
      have "reached st pt (walk_bound 21 skip it) it'"
        using reached_from[OF r(2)] gap_up[OF less.prems(1) up[unfolded nva_def] dn, folded va_l_def] by blast
      moreover have "pt_down st stop skip it = pt_down st (l + 9) False it2" using up unfold False by (auto simp: it2_def va_l_def)
      ultimately show ?thesis using r(1) s21 by simp
    qed
  next
    case along
    have s21: "stop = 21" using stop_ok_lowest[OF less.prems(1,2) along(1)] .
    define va' where "va' = (if va_is_canonical nva then nva else VA_HIGHMIN)"
    define it2 where "it2 = it\<lparr>pt_pep := (case pt_pep it of (pg, i) \<Rightarrow> (pg, i + 1)), pt_va := va'\<rparr>"
    note n = next_address[OF less.prems(1) nva_def along(2) va'_def, folded it2_def]
    have e: "pt_down st stop skip it = pt_down st stop False it2" using along unfold by (auto simp: it2_def va'_def)
    have up: "va OR mask l < va'" using n(2) by (simp add: va_l_def)
    then have "va < va'" using le_word_or2[of va "mask l"] by (meson le_less_trans)
    moreover have "unat va' < 2 ^ 64" using unsigned_less[of va'] by simp
    ultimately have "\<exists>it'. pt_down st 21 False it2 = Some it' \<and> reached st pt (walk_bound 21 False it2) it'"
      using n(3) s21 l(3) by (intro less.hyps) (auto simp: it2_def va_l_def word_less_nat_alt stop_ok_def)
    then obtain it' where r: "pt_down st 21 False it2 = Some it'" "reached st pt (entry_key va' 21) it'"
      by (auto simp: walk_bound_def it2_def)
    have "reached st pt (walk_bound 21 skip it) it'"
      using reached_from[OF r(2)] gap_along[OF less.prems(1) along(1) nva_def along(2) va'_def] by blast
    then show ?thesis using e r(1) s21 by simp
  qed
qed

text \<open>Walks read memory only, so they do not notice the counts.\<close>

lemma walk_cong:
  assumes "pmem st' = pmem st"
  shows "table_entry_at st' = table_entry_at st" "reached st' = reached st"
proof -
  have t: "table_at st' pt va d = table_at st pt va d" for pt va d
    by (rule table_at_frame) (simp add: entry_for_def assms)
  show e: "table_entry_at st' = table_entry_at st" by (intro ext) (simp add: table_entry_at_def t del: table_at.simps)
  have p: "pt_at st' = pt_at st" by (intro ext) (simp add: pt_at_def t)
  have "pt_entry st' it = pt_entry st it" for it by (simp add: pt_entry_def assms)
  then show "reached st' = reached st" by (intro ext) (simp add: reached_def e p)
qed

lemma path_agree:
  assumes "same_path (Suc d) x y" "va_is_canonical x" "va_is_canonical y" "d \<le> 2"
  shows "agree_above (level_bits d) x y"
proof -
  have i: "va_index x (level_bits j) = va_index y (level_bits j)" if "j \<le> d" for j
    using assms(1) that unfolding same_path_def list_all_iff by (cases "j = d") simp_all
  have low: "bit x n = bit y n" if "level_bits d \<le> n" "n < 48" for n
  proof -
    obtain j where "j \<le> d" "level_bits j \<le> n" "n < level_bits j + 9"
    proof -
      consider "39 \<le> n" | "30 \<le> n \<and> n < 39" | "n < 30" by linarith
      then show ?thesis using that(1)[of 0] that(1)[of 1] that(1)[of 2] \<open>n < 48\<close> level_cases[OF assms(4)] \<open>level_bits d \<le> n\<close>
        by cases (auto simp: level_bits_values initial_lbits_def level_bits_values(2)[unfolded One_nat_def])
    qed
    then show ?thesis using index_bits[OF i] by blast
  qed
  have "bit x n = bit y n" if "level_bits d \<le> n" for n
  proof -
    have "level_bits d \<le> 47" using level_cases[OF assms(4)] by auto
    then show ?thesis using low[of n] low[of 47] that canonical_high_bits[OF assms(2), of n] canonical_high_bits[OF assms(3), of n]
        bit_imp_le_length[of x n] bit_imp_le_length[of y n] by (cases "n < 48"; cases "n < 64") auto
  qed
  then show ?thesis by (simp add: agree_above_bits)
qed

text \<open>In a well-formed page table, a table page is pointed at from one entry.\<close>

lemma walkable_entry:
  assumes "walkable ke st pt" "table_entry_at st pt x e q" "table_entry_at st pt x' e' q"
  shows "entry_key x (level_bits e) = entry_key x' (level_bits e')"
proof -
  have a: "e \<le> 2" "e' \<le> 2" "va_is_canonical x" "va_is_canonical x'" "table_at st pt x (Suc e) = Some q" "table_at st pt x' (Suc e') = Some q"
    using assms(2,3) by (auto simp: table_entry_at_def)
  have "Suc e \<le> 3" "Suc e' \<le> 3" using a(1,2) by simp_all
  then have s: "Suc e = Suc e' \<and> same_path (Suc e) x x'" by (rule walkableD(1)[OF assms(1) _ _ a(5,6)])
  then have "agree_above (level_bits e) x x'" using path_agree a(1,3,4) by blast
  then show ?thesis using s by (simp add: entry_key_def or_mask_agree)
qed

lemmas entry_unique = walkable_entry[OF vm_ok_walkable]

lemma entry_key_less: "entry_key x (level_bits e) < 2 ^ 70"
proof -
  have "unat (x OR mask (level_bits e)) < 2 ^ 64" using unsigned_less[of "x OR mask (level_bits e)"] by simp
  moreover have "level_bits e \<le> 39" by (simp add: level_bits_def initial_lbits_def)
  ultimately show ?thesis by (simp add: entry_key_def)
qed

text \<open>The table pages from a point of the walk on.\<close>

definition tables_from :: "kmem \<Rightarrow> u64 \<Rightarrow> nat \<Rightarrow> u64 set" where
  "tables_from st pt B = {q. \<exists>x e. table_entry_at st pt x e q \<and> B \<le> entry_key x (level_bits e)}"

text \<open>A step of a loop over the table pages, whose body leaves the memory alone.\<close>

lemma reached_done: "reached st pt B it \<Longrightarrow> pt_done it \<Longrightarrow> tables_from st pt B = {}"
proof -
  assume r: "reached st pt B it" and d: "pt_done it"
  have "\<not> pt_at st pt it c" for c
    using d level_cases[of c] by (auto simp: pt_at_def pt_done_def done_lbits_def)
  then have "\<forall>x e q. table_entry_at st pt x e q \<longrightarrow> entry_key x (level_bits e) < B" using r by (auto simp: reached_def)
  then show ?thesis by (fastforce simp: tables_from_def)
qed

lemma tables_from_step:
  assumes "pt_at st pt it d" "is_table (pt_entry st it)" "B \<le> entry_key (pt_va it) (level_bits d)"
    "\<And>x e q. table_entry_at st pt x e q \<Longrightarrow> entry_key x (level_bits e) < B \<or> entry_key (pt_va it) (level_bits d) \<le> entry_key x (level_bits e)"
  shows "tables_from st pt B = insert (pt_pa st it) (tables_from st pt (entry_key (pt_va it) (level_bits d) + 1))"
proof (intro set_eqI iffI)
  define K where "K = entry_key (pt_va it) (level_bits d)"
  note here = pt_at_table[OF assms(1,2)]
  have lb: "d \<le> 2" using assms(1) by (simp add: pt_at_def)
  show "q \<in> tables_from st pt B" if "q \<in> insert (pt_pa st it) (tables_from st pt (entry_key (pt_va it) (level_bits d) + 1))" for q
    using that here assms(3) by (fastforce simp: tables_from_def)
  fix q assume "q \<in> tables_from st pt B"
  then obtain x c where x: "table_entry_at st pt x c q" "K \<le> entry_key x (level_bits c)"
    using assms(4) by (fastforce simp: tables_from_def K_def)
  show "q \<in> insert (pt_pa st it) (tables_from st pt (entry_key (pt_va it) (level_bits d) + 1))"
  proof (cases "entry_key x (level_bits c) = K")
    case False
    then show ?thesis using x by (auto simp: tables_from_def K_def intro!: exI[of _ x] exI[of _ c])
  next
    case True
    have c: "c \<le> 2" "table_at st pt x (Suc c) = Some q" using x(1) by (auto simp: table_entry_at_def)
    have "level_bits c < 64" "level_bits d < 64" using level_cases[OF c(1)] level_cases[OF lb] by auto
    then have eq: "x OR mask (level_bits c) = pt_va it OR mask (level_bits d)" "level_bits c = level_bits d"
      using True key_eq[of "level_bits d" "level_bits c" x "pt_va it"] by (auto simp: K_def)
    then have "c = d" using level_cases[OF c(1)] level_cases[OF lb] by auto
    then have "same_path (Suc d) x (pt_va it)" using agree_same_path[of d x "pt_va it"] eq lb by (simp add: or_mask_agree)
    then have "q = pt_pa st it" using table_at_path[of "Suc d" x "pt_va it" st pt] c(2) here \<open>c = d\<close> by (simp add: table_entry_at_def)
    then show ?thesis by simp
  qed
qed

lemma walkable_step:
  assumes "walkable ke st pt" "reached st pt B it" "\<not> pt_done it" "pmem st2 = pmem st"
  obtains it2 d where "pt_next st2 it = Some it2" "reached st pt (entry_key (pt_va it) (level_bits d) + 1) it2"
    "d \<le> 2" "B \<le> entry_key (pt_va it) (level_bits d)" "table_entry_at st pt (pt_va it) d (pt_pa st it)" "pt_lbits it = level_bits d"
    "tables_from st pt B = insert (pt_pa st it) (tables_from st pt (entry_key (pt_va it) (level_bits d) + 1))"
    "pt_pa st it \<notin> tables_from st pt (entry_key (pt_va it) (level_bits d) + 1)"
proof -
  obtain d where at: "pt_at st pt it d" "is_table (pt_entry st it)" and lb0: "pt_lbits it = level_bits d"
    and B: "B \<le> entry_key (pt_va it) (level_bits d)"
    and first: "\<And>x e q. table_entry_at st pt x e q \<Longrightarrow> entry_key x (level_bits e) < B \<or> entry_key (pt_va it) (level_bits d) \<le> entry_key x (level_bits e)"
    using assms(2,3) unfolding reached_def pt_at_def by fastforce
  have lb: "d \<le> 2" using at(1) by (simp add: pt_at_def)
  note here = pt_at_table[OF at]
  have w: "pt_at st2 pt it d" "stop_ok st2 pt 21 True it"
    using at(1) level_cases[OF lb] table_at_frame[of _ st pt _ st2] assms(4) by (auto simp: stop_ok_def pt_at_def entry_for_def)
  then obtain it2 where n: "pt_down st2 21 True it = Some it2" "reached st2 pt (walk_bound 21 True it) it2"
    using pt_down_finds by blast
  have r: "reached st pt (entry_key (pt_va it) (level_bits d) + 1) it2" using n(2) walk_cong(2)[OF assms(4)] by (simp add: walk_bound_def lb0)
  have nx: "pt_next st2 it = Some it2" using n(1) by (simp add: pt_next_def pt_stop_def PAGEOFFBITS_def PAGEINDEXBITS_def)
  have "pt_pa st it \<notin> tables_from st pt (entry_key (pt_va it) (level_bits d) + 1)"
    using walkable_entry[OF assms(1) here] by (fastforce simp: tables_from_def)
  moreover have "tables_from st pt B = insert (pt_pa st it) (tables_from st pt (entry_key (pt_va it) (level_bits d) + 1))"
    by (rule tables_from_step[OF at B]) (rule first)
  ultimately show ?thesis using that[OF nx r lb B here lb0] by simp
qed

lemmas reached_step = walkable_step[OF vm_ok_walkable]

lemma new_ptiter_reached: "\<exists>it. new_ptiter st pt = Some it \<and> reached st pt (entry_key 0 21) it"
proof -
  define it0 where "it0 = \<lparr>pt_pt = pt, pt_pep = (pt, 0), pt_lbits = initial_lbits, pt_va = 0\<rparr>"
  have "va_index 0 initial_lbits = 0" by (simp add: va_index_def)
  then have "pt_at st pt it0 0" by (simp add: pt_at_def it0_def level_bits_values va_is_canonical_def)
  moreover have "stop_ok st pt 21 False it0" by (simp add: stop_ok_def it0_def initial_lbits_def)
  ultimately obtain it where it: "pt_down st 21 False it0 = Some it" "reached st pt (walk_bound 21 False it0) it"
    using pt_down_finds by blast
  have "new_ptiter st pt = Some it" using it(1) by (simp add: new_ptiter_def it0_def pt_stop_def PAGEOFFBITS_def PAGEINDEXBITS_def)
  moreover have "reached st pt (entry_key 0 21) it" using it(2) by (simp add: walk_bound_def it0_def)
  ultimately show ?thesis by blast
qed

section \<open>All table pages are found\<close>

lemma index_agree: "(\<And>n. 12 \<le> n \<Longrightarrow> n < 48 \<Longrightarrow> bit x n = bit y n) \<Longrightarrow> d \<le> 3 \<Longrightarrow> va_index x (level_bits d) = va_index y (level_bits d)"
proof -
  assume a: "\<And>n. 12 \<le> n \<Longrightarrow> n < 48 \<Longrightarrow> bit x n = bit y n" "d \<le> 3"
  have m: "(0x1FF :: u64) = mask 9" by (simp add: mask_eq_exp_minus_1)
  have l: "12 \<le> level_bits d" "level_bits d \<le> 39" using a(2) by (simp_all add: level_bits_def initial_lbits_def PAGEINDEXBITS_def)
  have "drop_bit (level_bits d) x AND mask 9 = drop_bit (level_bits d) y AND mask 9"
    using a(1) l by (intro bit_word_eqI) (auto simp: bit_and_iff bit_mask_iff bit_drop_bit_eq)
  then show ?thesis by (simp only: va_index_def m)
qed

text \<open>Every path is the path to a canonical address.\<close>

lemma canonical_path: "\<exists>x. va_is_canonical x \<and> (\<forall>d \<le> 4. same_path d x va)"
proof -
  define x where "x = (if bit va 47 then va OR NOT (mask 47) else va AND mask 47)"
  have "bit x n = bit va n" if "12 \<le> n" "n < 48" for n
    using that by (cases "n = 47") (auto simp: x_def bit_or_iff bit_and_iff bit_not_iff bit_mask_iff)
  then have "va_index x (level_bits j) = va_index va (level_bits j)" if "j \<le> 3" for j using index_agree that by blast
  then have "\<forall>d \<le> 4. same_path d x va" by (auto simp: same_path_def list_all_iff)
  moreover have "va_is_canonical x"
  proof (cases "bit va 47")
    case True
    have m: "(0x1FFFF :: u64) = mask 17" by (simp add: mask_eq_exp_minus_1)
    have "drop_bit 47 x = mask 17"
      using True by (intro bit_word_eqI) (auto simp: x_def bit_or_iff bit_not_iff bit_mask_iff bit_drop_bit_eq dest: bit_imp_le_length)
    then show ?thesis by (simp add: canonical_bits m)
  next
    case False
    have "drop_bit 47 x = 0"
      using False by (intro bit_word_eqI) (auto simp: x_def bit_and_iff bit_mask_iff bit_drop_bit_eq)
    then show ?thesis by (simp add: canonical_bits)
  qed
  ultimately show ?thesis by blast
qed

lemma walkable_split:
  assumes "walkable ke st pt"
  shows "tables st pt = insert pt (tables_from st pt (entry_key 0 21))" "pt \<notin> tables_from st pt B"
proof -
  have lo: "entry_key 0 21 \<le> entry_key x (level_bits e)" if "table_entry_at st pt x e q" for x e q
  proof -
    have e: "21 \<le> level_bits e" using level_cases[of e] that by (auto simp: table_entry_at_def)
    have "0 OR mask 21 \<le> x OR mask 21" by (rule or_mask_le) simp_all
    also have "\<dots> \<le> x OR mask (level_bits e)" by (rule or_mask_mono[OF e])
    finally show ?thesis using e unfolding entry_key_def word_le_nat_alt by linarith
  qed
  show "tables st pt = insert pt (tables_from st pt (entry_key 0 21))"
  proof (intro set_eqI iffI)
    fix q assume "q \<in> tables st pt"
    then obtain va d where d: "d \<le> 3" "table_at st pt va d = Some q" by (auto simp: tables_def)
    show "q \<in> insert pt (tables_from st pt (entry_key 0 21))"
    proof (cases d)
      case 0
      then show ?thesis using d(2) by simp
    next
      case (Suc e)
      obtain x where x: "va_is_canonical x" "same_path d x va" using canonical_path[of va] d(1) by force
      then have "table_entry_at st pt x e q" using table_at_path[OF x(2), of st pt] d Suc by (simp add: table_entry_at_def del: table_at.simps)
      then show ?thesis using lo by (auto simp: tables_from_def)
    qed
  next
    fix q assume q: "q \<in> insert pt (tables_from st pt (entry_key 0 21))"
    have "pt \<in> tables st pt" unfolding tables_def by (auto intro!: exI[of _ 0])
    moreover have "q \<in> tables st pt" if "table_entry_at st pt x e q" for x e
      using that unfolding tables_def table_entry_at_def by (auto simp del: table_at.simps intro!: exI[of _ x] exI[of _ "Suc e"])
    ultimately show "q \<in> tables st pt" using q by (auto simp: tables_from_def)
  qed
  show "pt \<notin> tables_from st pt B"
  proof
    assume "pt \<in> tables_from st pt B"
    then obtain x e where x: "e \<le> 2" "table_at st pt x (Suc e) = Some pt" by (auto simp: tables_from_def table_entry_at_def)
    have "table_at st pt x 0 = Some pt" by simp
    then have "0 = Suc e \<and> same_path 0 x x" using walkableD(1)[OF assms _ _ _ x(2), of 0 x] x(1) by simp
    then show False by simp
  qed
qed

lemmas tables_split = walkable_split[OF vm_ok_walkable]

end
