(* ===== verification/Weensy_Proc.thy ===== *)
theory Weensy_Proc
  imports Weensy_Map
begin

text \<open>
  The data of the kernel that its parts share: registers, process descriptors and program images, from
  \<open>weensyos/kernel.hh\<close>, \<open>x86-64.h\<close> and \<open>elf.h\<close>. The addresses the linker and the assembly code choose, and
  the program images the build embeds, are parameters (\<open>link\<close>).
\<close>

section \<open>Registers and processes\<close>

record regstate =
  reg_rax :: u64
  reg_rcx :: u64
  reg_rdx :: u64
  reg_rbx :: u64
  reg_rbp :: u64
  reg_rsi :: u64
  reg_rdi :: u64
  reg_r8 :: u64
  reg_r9 :: u64
  reg_r10 :: u64
  reg_r11 :: u64
  reg_r12 :: u64
  reg_r13 :: u64
  reg_r14 :: u64
  reg_r15 :: u64
  reg_fs :: u64
  reg_gs :: u64
  reg_intno :: u32
  reg_swapgs :: u32
  reg_errcode :: u64
  reg_rip :: u64
  reg_cs :: u64
  reg_rflags :: u64
  reg_rsp :: u64
  reg_ss :: u64

text \<open>What \<open>memset\<close> makes of the registers.\<close>

definition zero_regs :: regstate where
  "zero_regs = \<lparr>reg_rax = 0, reg_rcx = 0, reg_rdx = 0, reg_rbx = 0, reg_rbp = 0, reg_rsi = 0, reg_rdi = 0,
     reg_r8 = 0, reg_r9 = 0, reg_r10 = 0, reg_r11 = 0, reg_r12 = 0, reg_r13 = 0, reg_r14 = 0, reg_r15 = 0,
     reg_fs = 0, reg_gs = 0, reg_intno = 0, reg_swapgs = 0, reg_errcode = 0, reg_rip = 0, reg_cs = 0,
     reg_rflags = 0, reg_rsp = 0, reg_ss = 0\<rparr>"

definition SEGSEL_APP_CODE :: u64 where "SEGSEL_APP_CODE = 0x18"
definition SEGSEL_APP_DATA :: u64 where "SEGSEL_APP_DATA = 0x20"
definition EFLAGS_IF :: u64 where "EFLAGS_IF = 0x200"
definition EFLAGS_IOPL_3 :: u64 where "EFLAGS_IOPL_3 = 0x3000"
definition PROCINIT_ALLOW_PROGRAMMED_IO :: u32 where "PROCINIT_ALLOW_PROGRAMMED_IO = 1"
definition PROCINIT_DISABLE_INTERRUPTS :: u32 where "PROCINIT_DISABLE_INTERRUPTS = 2"
definition CONSOLE_ADDR :: u64 where "CONSOLE_ADDR = 0xB8000"
definition PID_MAX :: nat where "PID_MAX = 16"
definition HZ :: nat where "HZ = 100"
definition INT_PF :: u32 where "INT_PF = 14"
definition INT_IRQ :: u32 where "INT_IRQ = 32"
definition IRQ_TIMER :: u32 where "IRQ_TIMER = 0"

definition SYSCALL_GETPID :: u64 where "SYSCALL_GETPID = 1"
definition SYSCALL_YIELD :: u64 where "SYSCALL_YIELD = 2"
definition SYSCALL_PANIC :: u64 where "SYSCALL_PANIC = 3"
definition SYSCALL_PAGE_ALLOC :: u64 where "SYSCALL_PAGE_ALLOC = 4"
definition SYSCALL_FORK :: u64 where "SYSCALL_FORK = 5"
definition SYSCALL_EXIT :: u64 where "SYSCALL_EXIT = 6"

datatype proc_state = P_FREE | P_RUNNABLE | P_BLOCKED | P_FAULTED

record proc =
  pagetable :: u64
  pid :: nat
  state :: proc_state
  regs :: regstate

section \<open>Program images\<close>

definition ELF_PTYPE_LOAD :: u32 where "ELF_PTYPE_LOAD = 1"
definition ELF_PFLAG_WRITE :: u32 where "ELF_PFLAG_WRITE = 2"

record elf_program =
  p_type :: u32
  p_flags :: u32
  p_offset :: nat
  p_va :: u64
  p_filesz :: nat
  p_memsz :: u64

record elf_image =
  e_entry :: u64
  e_programs :: "elf_program list"
  e_bytes :: bytes

record link =
  kernel_end :: u64
  kernel_pagetable :: u64
  exception_entry :: u64
  first_process :: string
  ramimages :: "(string \<times> elf_image) list"

end
