(* ===== verification/Weensy_Lib.thy ===== *)
theory Weensy_Lib
  imports Byte_Memory "HOL-Library.Sublist" "HOL-Library.Char_ord"
begin

text \<open>
  The C library of the teaching kernel, \<open>weensyos/lib.cc\<close> and \<open>lib.hh\<close>: memory and string functions,
  number parsing, random numbers and integer helpers. Memory functions work on the byte memory of
  \<open>Byte_Memory\<close>. A string is the list of its characters before the terminating zero, and \<open>deref\<close> reads a
  pointer into it.
\<close>

section \<open>Memory functions\<close>

primrec memcpy :: "nat \<Rightarrow> u64 \<Rightarrow> u64 \<Rightarrow> memory \<Rightarrow> memory" where
  "memcpy 0 d s m = m"
| "memcpy (Suc n) d s m = memcpy n (d + 1) (s + 1) (m(d := m s))"

primrec memmove_down :: "nat \<Rightarrow> u64 \<Rightarrow> u64 \<Rightarrow> memory \<Rightarrow> memory" where
  "memmove_down 0 d s m = m"
| "memmove_down (Suc n) d s m = memmove_down n (d - 1) (s - 1) (m(d - 1 := m (s - 1)))"

definition memmove :: "u64 \<Rightarrow> u64 \<Rightarrow> nat \<Rightarrow> memory \<Rightarrow> memory" where
  "memmove d s n m =
     (if s < d \<and> d < s + of_nat n then memmove_down n (d + of_nat n) (s + of_nat n) m else memcpy n d s m)"

primrec memset :: "nat \<Rightarrow> u64 \<Rightarrow> u8 \<Rightarrow> memory \<Rightarrow> memory" where
  "memset 0 p c m = m"
| "memset (Suc n) p c m = memset n (p + 1) c (m(p := c))"

definition three_way :: "'a::linorder \<Rightarrow> 'a \<Rightarrow> int" where
  "three_way a b = (if b < a then 1 else 0) - (if a < b then 1 else 0)"

primrec memcmp :: "nat \<Rightarrow> u64 \<Rightarrow> u64 \<Rightarrow> memory \<Rightarrow> int" where
  "memcmp 0 a b m = 0"
| "memcmp (Suc n) a b m = (if m a \<noteq> m b then three_way (m a) (m b) else memcmp n (a + 1) (b + 1) m)"

text \<open>The null pointer is 0.\<close>

primrec memchr :: "nat \<Rightarrow> u64 \<Rightarrow> u8 \<Rightarrow> memory \<Rightarrow> u64" where
  "memchr 0 s c m = 0"
| "memchr (Suc n) s c m = (if m s = c then s else memchr n (s + 1) c m)"

section \<open>Strings\<close>

definition NUL :: char where "NUL = CHR 0x00"

definition deref :: "string \<Rightarrow> char" where
  "deref s = (case s of [] \<Rightarrow> NUL | c # _ \<Rightarrow> c)"

fun strlen :: "string \<Rightarrow> nat" where
  "strlen [] = 0"
| "strlen (c # s) = strlen s + 1"

fun strnlen :: "string \<Rightarrow> nat \<Rightarrow> nat" where
  "strnlen s 0 = 0"
| "strnlen [] (Suc n) = 0"
| "strnlen (c # s) (Suc n) = strnlen s n + 1"

text \<open>The characters these functions store at the destination, the terminator included.\<close>

fun strcpy :: "string \<Rightarrow> string" where
  "strcpy [] = [NUL]"
| "strcpy (c # s) = c # strcpy s"

fun strncpy :: "string \<Rightarrow> nat \<Rightarrow> string" where
  "strncpy s 0 = []"
| "strncpy [] (Suc n) = NUL # strncpy [] n"
| "strncpy (c # s) (Suc n) = c # strncpy s n"

definition strlcpy :: "string \<Rightarrow> nat \<Rightarrow> string \<times> nat" where
  "strlcpy src maxlen =
     (let n = strlen src in
      if maxlen \<noteq> 0 then
        let nn = (if maxlen - 1 < n then maxlen - 1 else n) in (take nn src @ [NUL], n)
      else ([], n))"

definition uchar :: "char \<Rightarrow> nat" where
  "uchar c = of_char c"

text \<open>The comparison loops, on the characters as the caller maps them (\<open>tolower\<close> or nothing).\<close>

function compare_loop :: "(char \<Rightarrow> nat) \<Rightarrow> nat option \<Rightarrow> string \<Rightarrow> string \<Rightarrow> int" where
  "compare_loop f n a b =
     (let ac = (if n = Some 0 then 0 else f (deref a)); bc = (if n = Some 0 then 0 else f (deref b)) in
      if ac = 0 \<or> bc = 0 \<or> ac \<noteq> bc \<or> a = [] then three_way ac bc
      else compare_loop f (map_option (\<lambda>k. k - 1) n) (tl a) (tl b))"
  by pat_completeness auto
termination
  by (relation "measure (\<lambda>(f, n, a, b). length a)") auto

declare compare_loop.simps [simp del]

definition c_isspace :: "char \<Rightarrow> bool" where
  "c_isspace c \<longleftrightarrow> 9 \<le> uchar c \<and> uchar c \<le> 13 \<or> uchar c = 32"

definition c_tolower :: "char \<Rightarrow> nat" where
  "c_tolower c = (if 65 \<le> uchar c \<and> uchar c \<le> 90 then uchar c + 32 else uchar c)"

definition c_toupper :: "char \<Rightarrow> nat" where
  "c_toupper c = (if 97 \<le> uchar c \<and> uchar c \<le> 122 then uchar c - 32 else uchar c)"

definition strcmp :: "string \<Rightarrow> string \<Rightarrow> int" where
  "strcmp a b = compare_loop uchar None a b"

definition strncmp :: "string \<Rightarrow> string \<Rightarrow> nat \<Rightarrow> int" where
  "strncmp a b n = compare_loop uchar (Some n) a b"

definition strcasecmp :: "string \<Rightarrow> string \<Rightarrow> int" where
  "strcasecmp a b = compare_loop c_tolower None a b"

definition strncasecmp :: "string \<Rightarrow> string \<Rightarrow> nat \<Rightarrow> int" where
  "strncasecmp a b n = compare_loop c_tolower (Some n) a b"

text \<open>The rest of the string from the character found, as the pointer returned.\<close>

fun strchr :: "string \<Rightarrow> char \<Rightarrow> string option" where
  "strchr [] c = (if c = NUL then Some [] else None)"
| "strchr (x # s) c = (if x = c then Some (x # s) else strchr s c)"

text \<open>Reading past the terminator is undefined.\<close>

definition char_at :: "string \<Rightarrow> nat \<Rightarrow> char result" where
  "char_at s i = (if i < length s then Inr (s ! i) else if i = length s then Inr NUL else Inl (UndefinedBehaviour ''read past the end of a string''))"

text \<open>
  The loop of \<open>strstr\<close> ends: a round moves on in the needle or begins at the next place of the haystack.
  The rounds are bounded by the product of the lengths.
\<close>

primrec strstr_loop :: "nat \<Rightarrow> string \<Rightarrow> string \<Rightarrow> nat \<Rightarrow> nat \<Rightarrow> (nat \<times> nat) result" where
  "strstr_loop 0 hs ns i j = Inl (NeverReturns ''strstr'')"
| "strstr_loop (Suc fuel) hs ns i j =
     res_bind (char_at hs i) (\<lambda>h. res_bind (char_at ns j) (\<lambda>n.
       if h \<noteq> NUL \<and> n \<noteq> NUL then
         res_bind (char_at hs (i + j)) (\<lambda>hj.
           if hj = n then strstr_loop fuel hs ns i (j + 1) else strstr_loop fuel hs ns (i + 1) 0)
       else Inr (i, j)))"

text \<open>The result is the index of the match in the haystack.\<close>

definition strstr :: "string \<Rightarrow> string \<Rightarrow> nat option result" where
  "strstr hs ns =
     res_bind (strstr_loop ((length hs + 1) * (length ns + 1) + 1) hs ns 0 0) (\<lambda>(i, j).
     res_bind (char_at ns j) (\<lambda>n. Inr (if n = NUL then Some i else None)))"

section \<open>Numbers\<close>

definition E_INVAL :: int where "E_INVAL = - 22"
definition E_RANGE :: int where "E_RANGE = - 34"

text \<open>A \<open>char\<close> is signed.\<close>

definition schar :: "char \<Rightarrow> int" where
  "schar c = (if uchar c < 128 then int (uchar c) else int (uchar c) - 256)"

definition digit_of :: "int \<Rightarrow> char \<Rightarrow> nat option" where
  "digit_of base c =
     (if 48 \<le> schar c \<and> schar c < 48 + base then Some (nat (schar c - 48))
      else if 97 \<le> schar c \<and> schar c < 97 + base - 10 then Some (nat (schar c - 97 + 10))
      else if 65 \<le> schar c \<and> schar c < 65 + base - 10 then Some (nat (schar c - 65 + 10))
      else None)"

fun from_chars_loop :: "int \<Rightarrow> string \<Rightarrow> u64 \<Rightarrow> bool \<Rightarrow> string \<times> u64 \<times> bool" where
  "from_chars_loop base [] x ovf = ([], x, ovf)"
| "from_chars_loop base (c # s) x ovf =
     (case digit_of base c of
        None \<Rightarrow> (c # s, x, ovf)
      | Some digit \<Rightarrow>
          if (- 1 - of_nat digit) div of_int base < x then from_chars_loop base s x True
          else from_chars_loop base s (x * of_int base + of_nat digit) ovf)"

text \<open>The rest of the input, the error code, and the value, which is stored only without error.\<close>

definition from_chars_ul :: "string \<Rightarrow> int \<Rightarrow> string \<times> int \<times> u64 option" where
  "from_chars_ul s base =
     (case from_chars_loop base s 0 False of (p, x, ovf) \<Rightarrow>
        if length p = length s then (p, E_INVAL, None)
        else if ovf then (p, E_RANGE, None)
        else (p, 0, Some x))"

definition from_chars_l :: "string \<Rightarrow> int \<Rightarrow> string \<times> int \<times> u64 option" where
  "from_chars_l s base =
     (let negative = (deref s = CHR ''-'') in
      case from_chars_ul (if negative then tl s else s) base of (p, ec, v) \<Rightarrow>
        let x = (case v of None \<Rightarrow> 0 | Some x \<Rightarrow> x) in
        if ec = E_INVAL then (s, E_INVAL, None)
        else if ec = E_RANGE \<or> push_bit 63 1 - (if negative then 0 else 1) < x then (p, E_RANGE, None)
        else (p, 0, Some (if negative then - x else x)))"

definition strtol_fix_base :: "string \<Rightarrow> int \<Rightarrow> string \<times> int" where
  "strtol_fix_base t base =
     (let t1 = deref (tl t) in
      if base = 0 then
        if deref t = CHR ''0'' then
          if t1 = CHR ''x'' \<or> t1 = CHR ''X'' then (drop 2 t, 16)
          else if t1 = CHR ''o'' \<or> t1 = CHR ''O'' then (drop 2 t, 8)
          else if t1 = CHR ''b'' \<or> t1 = CHR ''B'' then (drop 2 t, 2)
          else (t, 8)
        else (t, 10)
      else if base = 16 \<and> deref t = CHR ''0'' \<and> (t1 = CHR ''x'' \<or> t1 = CHR ''X'') then (drop 2 t, base)
      else (t, base))"

text \<open>The sign and what follows it.\<close>

definition skip_sign :: "string \<Rightarrow> bool \<times> string" where
  "skip_sign t =
     (let negative = (deref t = CHR ''-'')
      in (negative, if negative \<or> deref t = CHR ''+'' then tl t else t))"

text \<open>The result and the rest of the string, the value of \<open>*endptr\<close>.\<close>

definition strtoul :: "string \<Rightarrow> int \<Rightarrow> u64 \<times> string" where
  "strtoul s base =
     (let (negative, t) = skip_sign (dropWhile c_isspace s);
          (t, base) = strtol_fix_base t base;
          (p, ec, v) = from_chars_ul t base;
          x = (case v of None \<Rightarrow> 0 | Some x \<Rightarrow> x);
          x = (if ec = E_RANGE then - 1 else x)
      in (if negative then - x else x, if ec = E_INVAL then s else p))"

definition strtol :: "string \<Rightarrow> int \<Rightarrow> u64 \<times> string" where
  "strtol s base =
     (let (negative, t) = skip_sign (dropWhile c_isspace s);
          (t, base) = strtol_fix_base t base;
          (p, ec, v) = from_chars_ul t base;
          x = (case v of None \<Rightarrow> 0 | Some x \<Rightarrow> x);
          bound = push_bit 63 1 - (if negative then 0 else 1);
          x = (if ec = E_RANGE \<or> bound < x then bound else x)
      in (if negative then - x else x, if ec = E_INVAL then s else p))"

section \<open>Random numbers\<close>

definition RAND_MAX :: nat where "RAND_MAX = 0x7FFFFFFF"

record rand_state =
  rand_seed_set :: bool
  rand_seed :: u64

definition srand :: "u32 \<Rightarrow> rand_state \<Rightarrow> rand_state" where
  "srand seed st = \<lparr>rand_seed_set = True, rand_seed = push_bit 32 (ucast seed) OR ucast seed\<rparr>"

definition rand :: "rand_state \<Rightarrow> nat \<times> rand_state" where
  "rand st =
     (let st = (if \<not> rand_seed_set st then srand 819234718 st else st);
          next_rs = rand_seed st * 6364136223846793005 + 1
      in (unat (drop_bit 33 next_rs AND of_nat RAND_MAX), st\<lparr>rand_seed := next_rs\<rparr>))"

text \<open>The bounds of the rejection loop, its test, and the loop.\<close>

definition rand_div :: "int \<Rightarrow> int \<Rightarrow> nat" where
  "rand_div lo hi = (RAND_MAX + 1) div nat (hi - lo + 1)"

definition rand_top :: "int \<Rightarrow> int \<Rightarrow> nat" where
  "rand_top lo hi = rand_div lo hi * nat (hi - lo + 1)"

definition rand_try :: "nat \<Rightarrow> nat \<Rightarrow> int \<Rightarrow> nat \<Rightarrow> int option" where
  "rand_try div_by lim lo r = (if r < lim then Some (lo + int (r div div_by)) else None)"

partial_function (option) rand_loop :: "nat \<Rightarrow> nat \<Rightarrow> int \<Rightarrow> rand_state \<Rightarrow> (int \<times> rand_state) option" where
  "rand_loop div_by lim lo st =
     (case rand st of (r, st) \<Rightarrow>
        (case rand_try div_by lim lo r of Some v \<Rightarrow> Some (v, st) | None \<Rightarrow> rand_loop div_by lim lo st))"

definition rand_range :: "int \<Rightarrow> int \<Rightarrow> rand_state \<Rightarrow> (int \<times> rand_state) option result" where
  "rand_range lo hi st =
     res_bind (assert_r (lo \<le> hi) ''min <= max'') (\<lambda>_.
     if INT_MAX < hi - lo then Inl (UndefinedBehaviour ''max - min'') else
     res_bind (assert_r (hi - lo \<le> int RAND_MAX) ''max - min <= RAND_MAX'') (\<lambda>_.
     if INT_MAX < hi - lo + 1 then Inl (UndefinedBehaviour ''max - min + 1'') else
     let div_by = rand_div lo hi; lim = rand_top lo hi in
     res_bind (assert_r (0 < lim \<and> lim \<le> RAND_MAX + 1) ''top > 0 && top <= unsigned(RAND_MAX) + 1'') (\<lambda>_.
     Inr (rand_loop div_by lim lo st))))"

section \<open>Integers\<close>

text \<open>The compiler's builtins: leading zeros, and the index of the lowest one bit plus one.\<close>

definition clz64 :: "u64 \<Rightarrow> nat" where
  "clz64 x = length (takeWhile (\<lambda>i. \<not> bit x i) (rev [0..<64]))"

definition msb :: "u64 \<Rightarrow> nat" where
  "msb x = (if x \<noteq> 0 then 64 - clz64 x else 0)"

definition lsb :: "u64 \<Rightarrow> nat" where
  "lsb x = (if x \<noteq> 0 then length (takeWhile (\<lambda>i. \<not> bit x i) [0..<64]) + 1 else 0)"

definition shift_one :: "nat \<Rightarrow> u64 result" where
  "shift_one n = (if n < 64 then Inr (push_bit n 1) else Inl (UndefinedBehaviour ''shift by the width of the type''))"

definition round_down_pow2 :: "u64 \<Rightarrow> u64 result" where
  "round_down_pow2 x = (if x \<noteq> 0 then shift_one (msb x - 1) else Inr 0)"

definition round_up_pow2 :: "u64 \<Rightarrow> u64 result" where
  "round_up_pow2 x = (if x \<noteq> 0 then shift_one (msb (x - 1)) else Inr 0)"

section \<open>Memory functions move memory\<close>

lemma memcpy_at:
  "(\<And>i j. i < j \<Longrightarrow> j < n \<Longrightarrow> d + word_of_nat i \<noteq> s + word_of_nat j) \<Longrightarrow>
     memcpy n d s m x = (if \<exists>k<n. x = d + word_of_nat k then m (s + (x - d)) else m x)"
proof (induction n arbitrary: d s m)
  case 0
  then show ?case by simp
next
  case (Suc n)
  define m1 where "m1 = m(d := m s)"
  have shift: "a + word_of_nat (Suc k) = (a + 1) + word_of_nat k" for a :: u64 and k by simp
  have "d + 1 + word_of_nat i \<noteq> s + 1 + word_of_nat j" if "i < j" "j < n" for i j
    using Suc.prems[of "Suc i" "Suc j"] that unfolding shift by simp
  from Suc.IH[OF this, of m1] have ih: "memcpy (Suc n) d s m x =
      (if \<exists>k<n. x = d + 1 + word_of_nat k then m1 (s + 1 + (x - (d + 1))) else m1 x)" by (simp only: m1_def memcpy.simps)
  have split: "(\<exists>k<Suc n. x = d + word_of_nat k) \<longleftrightarrow> x = d \<or> (\<exists>k<n. x = d + 1 + word_of_nat k)"
    by (auto simp: Ex_less_Suc2 add.assoc)
  show ?case
  proof (cases "\<exists>k<n. x = d + 1 + word_of_nat k")
    case True
    then obtain k where k: "k < n" "x = d + 1 + word_of_nat k" by blast
    have "s + (x - d) = s + word_of_nat (Suc k)" using k(2) by simp
    then have "s + (x - d) \<noteq> d" using Suc.prems[of 0 "Suc k"] k(1) by simp
    then show ?thesis using ih True split by (simp add: m1_def algebra_simps)
  next
    case False
    then show ?thesis using ih split by (auto simp: m1_def)
  qed
qed

lemma memmove_down_at:
  "(\<And>i j. i < j \<Longrightarrow> j < n \<Longrightarrow> d + word_of_nat j \<noteq> s + word_of_nat i) \<Longrightarrow>
     memmove_down n (d + word_of_nat n) (s + word_of_nat n) m x =
       (if \<exists>k<n. x = d + word_of_nat k then m (s + (x - d)) else m x)"
proof (induction n arbitrary: m)
  case 0
  then show ?case by simp
next
  case (Suc n)
  define m1 where "m1 = m(d + word_of_nat n := m (s + word_of_nat n))"
  have prev: "a + word_of_nat (Suc n) - 1 = a + word_of_nat n" for a :: u64 by simp
  have "d + word_of_nat j \<noteq> s + word_of_nat i" if "i < j" "j < n" for i j using Suc.prems[OF that(1)] that(2) by simp
  from Suc.IH[OF this, of m1] have ih: "memmove_down (Suc n) (d + word_of_nat (Suc n)) (s + word_of_nat (Suc n)) m x =
      (if \<exists>k<n. x = d + word_of_nat k then m1 (s + (x - d)) else m1 x)"
    unfolding memmove_down.simps prev by (simp only: m1_def)
  have split: "(\<exists>k<Suc n. x = d + word_of_nat k) \<longleftrightarrow> x = d + word_of_nat n \<or> (\<exists>k<n. x = d + word_of_nat k)"
    by (auto simp: less_Suc_eq)
  show ?case
  proof (cases "\<exists>k<n. x = d + word_of_nat k")
    case True
    then obtain k where k: "k < n" "x = d + word_of_nat k" by blast
    then have "s + (x - d) \<noteq> d + word_of_nat n" using Suc.prems[of k n] by auto
    then show ?thesis using ih True split by (simp add: m1_def)
  next
    case False
    then show ?thesis using ih split by (auto simp: m1_def)
  qed
qed

lemma in_region:
  fixes x d :: u64
  assumes "n < 2 ^ 64"
  shows "(\<exists>k<n. x = d + word_of_nat k) \<longleftrightarrow> unat (x - d) < n"
proof
  assume "\<exists>k<n. x = d + word_of_nat k"
  then obtain k where k: "k < n" "x = d + word_of_nat k" by blast
  then have "unat (word_of_nat k :: u64) = k" using assms by (simp add: unat_of_nat)
  then show "unat (x - d) < n" using k by simp
next
  assume "unat (x - d) < n"
  then show "\<exists>k<n. x = d + word_of_nat k" by (intro exI[of _ "unat (x - d)"]) simp
qed

lemma mem_write_read: "mem_write d (mem_read s n m) m x = (if unat (x - d) < n then m (s + (x - d)) else m x)"
  by (simp add: mem_write_def mem_read_def)

text \<open>
  \<open>memmove\<close> copies \<open>n\<close> bytes as they were before the call, also when the regions overlap, and changes
  nothing else, as long as neither region reaches the end of the address space.
\<close>

theorem memmove_copies_overlapping_regions:
  assumes "unat s + n < 2 ^ 64" "unat d + n < 2 ^ 64"
  shows "memmove d s n m = mem_write d (mem_read s n m) m"
proof
  fix x
  have off: "unat (a + word_of_nat i) = unat a + i" if "unat a + n < 2 ^ 64" "i < n" for a :: u64 and i
    using unat_offset[of a i] that by simp
  have n64: "n < 2 ^ 64" using assms(1) by simp
  have e: "unat (s + word_of_nat n) = unat s + n" using unat_offset[OF assms(1)] .
  have "memmove d s n m x = (if \<exists>k<n. x = d + word_of_nat k then m (s + (x - d)) else m x)"
  proof (cases "s < d \<and> d < s + word_of_nat n")
    case True
    then have "unat s < unat d" by (simp add: word_less_nat_alt)
    then have "d + word_of_nat j \<noteq> s + word_of_nat i" if "i < j" "j < n" for i j
      using off[OF assms(2), of j] off[OF assms(1), of i] that by (auto dest!: arg_cong[where f = unat])
    from memmove_down_at[OF this, of n] show ?thesis unfolding memmove_def if_P[OF True] by simp
  next
    case False
    then have "unat d \<le> unat s \<or> unat s + n \<le> unat d" using e by (auto simp: word_less_nat_alt)
    then have "d + word_of_nat i \<noteq> s + word_of_nat j" if "i < j" "j < n" for i j
      using off[OF assms(2), of i] off[OF assms(1), of j] that by (auto dest!: arg_cong[where f = unat])
    from memcpy_at[OF this, of n] show ?thesis unfolding memmove_def if_not_P[OF False] by simp
  qed
  then show "memmove d s n m x = mem_write d (mem_read s n m) m x" using in_region[OF n64] by (simp add: mem_write_read)
qed

theorem memmove_copies_overlapping_regions_witness:
  "memmove 12 10 5 (\<lambda>a. ucast a) = mem_write 12 (mem_read 10 5 (\<lambda>a. ucast a)) (\<lambda>a. ucast a)"
  by (rule memmove_copies_overlapping_regions) simp_all

section \<open>Searching strings\<close>

definition c_string :: "string \<Rightarrow> bool" where
  "c_string s \<longleftrightarrow> NUL \<notin> set s"

lemma char_at_simps:
  "i < length s \<Longrightarrow> char_at s i = Inr (s ! i)" "char_at s (length s) = Inr NUL"
  by (simp_all add: char_at_def)

lemma c_string_nth: "c_string s \<Longrightarrow> i < length s \<Longrightarrow> s ! i \<noteq> NUL"
  by (metis c_string_def nth_mem)

definition occurs_at :: "string \<Rightarrow> string \<Rightarrow> nat \<Rightarrow> bool" where
  "occurs_at ns hs i \<longleftrightarrow> i \<le> length hs \<and> prefix ns (drop i hs)"

lemma occurs_nth: "occurs_at ns hs i \<longleftrightarrow> i + length ns \<le> length hs \<and> (\<forall>k < length ns. hs ! (i + k) = ns ! k)"
proof
  assume o: "occurs_at ns hs i"
  then obtain t where "drop i hs = ns @ t" by (auto simp: occurs_at_def prefix_def)
  then have "length (drop i hs) = length ns + length t" "\<And>k. k < length ns \<Longrightarrow> drop i hs ! k = ns ! k" by (auto simp: nth_append)
  then show "i + length ns \<le> length hs \<and> (\<forall>k < length ns. hs ! (i + k) = ns ! k)" using o by (auto simp: occurs_at_def)
next
  assume a: "i + length ns \<le> length hs \<and> (\<forall>k < length ns. hs ! (i + k) = ns ! k)"
  have "take (length ns) (drop i hs) = ns" by (rule nth_equalityI) (use a in auto)
  then show "occurs_at ns hs i" using a by (metis append_take_drop_id occurs_at_def le_add1 order.trans prefixI)
qed

lemma strstr_loop_finds:
  assumes "c_string hs" "c_string ns"
  shows "i \<le> length hs \<Longrightarrow> j \<le> length ns \<Longrightarrow> i + j \<le> length hs \<Longrightarrow> (\<forall>k < j. hs ! (i + k) = ns ! k) \<Longrightarrow> (\<forall>k < i. \<not> occurs_at ns hs k) \<Longrightarrow>
    (length hs - i) * (length ns + 1) + (length ns - j) < fuel \<Longrightarrow>
    \<exists>i' j'. strstr_loop fuel hs ns i j = Inr (i', j') \<and> i' \<le> length hs \<and> j' \<le> length ns \<and> (\<forall>k < i'. \<not> occurs_at ns hs k) \<and>
      (if j' = length ns then occurs_at ns hs i' else i' = length hs \<and> \<not> occurs_at ns hs i')"
proof (induction fuel arbitrary: i j)
  case 0
  then show ?case by simp
next
  case (Suc fuel)
  show ?case
  proof (cases "i < length hs \<and> j < length ns")
    case False
    then have e: "i = length hs \<or> j = length ns" using Suc.prems(1,2) by auto
    obtain h where h: "char_at hs i = Inr h" "h = NUL \<longleftrightarrow> i = length hs"
      using Suc.prems(1) c_string_nth[OF assms(1)] by (cases "i < length hs") (auto simp: char_at_def)
    obtain n where n: "char_at ns j = Inr n" "n = NUL \<longleftrightarrow> j = length ns"
      using Suc.prems(2) c_string_nth[OF assms(2)] by (cases "j < length ns") (auto simp: char_at_def)
    have "strstr_loop (Suc fuel) hs ns i j = Inr (i, j)" using h n e by auto
    moreover have "if j = length ns then occurs_at ns hs i else i = length hs \<and> \<not> occurs_at ns hs i"
      using Suc.prems e by (auto simp: occurs_nth)
    ultimately show ?thesis using Suc.prems by blast
  next
    case True
    then have ch: "char_at hs i = Inr (hs ! i)" "char_at ns j = Inr (ns ! j)" "hs ! i \<noteq> NUL" "ns ! j \<noteq> NUL"
      using c_string_nth assms by (auto simp: char_at_simps)
    show ?thesis
    proof (cases "i + j < length hs \<and> hs ! (i + j) = ns ! j")
      case match: True
      then have "strstr_loop (Suc fuel) hs ns i j = strstr_loop fuel hs ns i (j + 1)" using ch by (simp add: char_at_simps)
      moreover have "\<forall>k < j + 1. hs ! (i + k) = ns ! k" using Suc.prems(4) match by (auto simp: less_Suc_eq)
      ultimately show ?thesis using Suc.IH[of i "j + 1"] Suc.prems True match by simp
    next
      case miss: False
      have "strstr_loop (Suc fuel) hs ns i j = strstr_loop fuel hs ns (i + 1) 0"
      proof (cases "i + j < length hs")
        case True
        then show ?thesis using ch miss by (simp add: char_at_simps)
      next
        case False
        then have "i + j = length hs" using Suc.prems(3) by simp
        then show ?thesis using ch char_at_simps(2)[of hs] by simp
      qed
      moreover have "\<not> occurs_at ns hs i" using miss True by (auto simp: occurs_nth)
      then have "\<forall>k < i + 1. \<not> occurs_at ns hs k" using Suc.prems(5) by (auto simp: less_Suc_eq)
      moreover have "(length hs - (i + 1)) * (length ns + 1) + (length ns - 0) < fuel"
      proof -
        have "length hs - i = Suc (length hs - (i + 1))" using True by (simp add: Suc_diff_Suc)
        then have "(length hs - i) * (length ns + 1) = (length hs - (i + 1)) * (length ns + 1) + (length ns + 1)" by simp
        then show ?thesis using Suc.prems(6) by linarith
      qed
      ultimately show ?thesis using Suc.IH[of "i + 1" 0] True by simp
    qed
  qed
qed

text \<open>
  C34. \<open>strstr\<close> returns a pointer to the first occurrence of the needle, the null pointer when there is
  none, and the beginning of the haystack for an empty needle. It always returns and never reads past a terminator.
\<close>

theorem strstr_finds_first_occurrence:
  assumes "c_string hs" "c_string ns"
  shows "strstr hs ns = Inr (find (occurs_at ns hs) [0..<length hs + 1])"
proof -
  let ?p = "occurs_at ns hs"
  have "length hs * (length ns + 1) + length ns < (length hs + 1) * (length ns + 1) + 1" by simp
  then obtain i j where l: "strstr_loop ((length hs + 1) * (length ns + 1) + 1) hs ns 0 0 = Inr (i, j)" "i \<le> length hs" "j \<le> length ns"
    "\<forall>k < i. \<not> ?p k" "if j = length ns then ?p i else i = length hs \<and> \<not> ?p i"
    using strstr_loop_finds[OF assms, of 0 0 "(length hs + 1) * (length ns + 1) + 1"] by auto
  have n: "\<exists>n. char_at ns j = Inr n \<and> (n = NUL \<longleftrightarrow> j = length ns)"
    using l(3) c_string_nth[OF assms(2)] by (cases "j < length ns") (auto simp: char_at_def)
  have "find ?p [0..<length hs + 1] = (if j = length ns then Some i else None)"
  proof (cases "j = length ns")
    case True
    then show ?thesis using l(2,4,5) by (auto simp: find_Some_iff simp del: upt_Suc intro!: exI[of _ i])
  next
    case False
    have "i = length hs \<and> \<not> ?p i" using l(5) unfolding if_not_P[OF False] .
    then have i: "i = length hs" "\<not> ?p i" by blast+
    have "\<not> ?p k" if "k \<le> length hs" for k using that i l(4) by (cases "k = i") auto
    then show ?thesis using False by (auto simp: find_None_iff less_Suc_eq_le simp del: upt_Suc)
  qed
  then show ?thesis using l(1) n by (auto simp: strstr_def)
qed

theorem strstr_finds_first_occurrence_witness:
  "strstr ''aab'' ''ab'' = Inr (Some 1)"
proof -
  have s: "c_string ''aab''" "c_string ''ab''" by (simp_all add: c_string_def NUL_def)
  have "find (occurs_at ''ab'' ''aab'') [0..<length ''aab'' + 1] = Some 1"
    by (simp add: upt_rec numeral_2_eq_2 occurs_at_def prefix_def)
  then show ?thesis using strstr_finds_first_occurrence[OF s] by simp
qed

section \<open>Reading and writing numbers\<close>

definition digit_value :: "int \<Rightarrow> nat \<Rightarrow> char \<Rightarrow> nat" where
  "digit_value base v c = v * nat base + (case digit_of base c of None \<Rightarrow> 0 | Some d \<Rightarrow> d)"

definition number_value :: "int \<Rightarrow> nat \<Rightarrow> string \<Rightarrow> nat" where
  "number_value base v ds = foldl (digit_value base) v ds"

definition is_digit :: "int \<Rightarrow> char \<Rightarrow> bool" where
  "is_digit base c \<longleftrightarrow> digit_of base c \<noteq> None"

lemma uchar_less: "uchar c < 256"
  unfolding uchar_def by (rule nat_of_char_less_256)

lemma number_value_simps [simp]:
  "number_value base v [] = v" "number_value base v (c # s) = number_value base (digit_value base v c) s"
  by (simp_all add: number_value_def)

lemma number_value_mono: "1 \<le> base \<Longrightarrow> v \<le> number_value base v ds"
proof (induction ds arbitrary: v)
  case (Cons c ds)
  have "v * 1 \<le> v * nat base" using Cons.prems by (intro mult_le_mono2) simp
  then have "v \<le> digit_value base v c" unfolding digit_value_def by (simp only: mult_1_right trans_le_add1)
  then show ?case using Cons.IH[OF Cons.prems, of "digit_value base v c"] by simp
qed simp

lemma digit_small: "digit_of base c = Some d \<Longrightarrow> 1 \<le> base \<Longrightarrow> base \<le> 36 \<Longrightarrow> d < 36"
  by (auto simp: digit_of_def split: if_splits)

lemma unat_max_u64: "unat (- 1 :: u64) = 2 ^ 64 - 1"
  by (simp add: unsigned_minus_1_eq_mask mask_eq_exp_minus_1)

text \<open>The overflow test is exact.\<close>

lemma overflow_test:
  fixes x :: u64
  assumes "digit_of base c = Some d" "1 \<le> base" "base \<le> 36"
  shows "(- 1 - of_nat d) div of_int base < x \<longleftrightarrow> 2 ^ 64 \<le> digit_value base (unat x) c"
    "\<not> 2 ^ 64 \<le> digit_value base (unat x) c \<Longrightarrow> unat (x * of_int base + of_nat d) = digit_value base (unat x) c"
proof -
  have d: "d < 36" using digit_small[OF assms] .
  have ud: "unat (of_nat d :: u64) = d" using d by (simp add: unat_of_nat)
  define b where "b = nat base"
  have b: "base = int b" "1 \<le> b" "b \<le> 36" using assms(2,3) by (auto simp: b_def)
  then have ub: "unat (of_int base :: u64) = b" by (simp add: unat_of_nat)
  have "(of_nat d :: u64) \<le> - 1" by simp
  then have m: "unat (- 1 - of_nat d :: u64) = 2 ^ 64 - 1 - d" using ud by (subst unat_sub) (simp_all add: unat_max_u64)
  have v: "digit_value base (unat x) c = unat x * b + d" using assms(1) b(1) by (simp add: digit_value_def)
  have "(- 1 - of_nat d) div of_int base < x \<longleftrightarrow> (2 ^ 64 - 1 - d) div b < unat x"
    by (simp only: word_less_nat_alt unat_div m ub)
  also have "\<dots> \<longleftrightarrow> 2 ^ 64 - 1 - d < unat x * b" using b(2) by (simp add: div_less_iff_less_mult)
  also have "\<dots> \<longleftrightarrow> 2 ^ 64 \<le> unat x * b + d" using d by auto
  finally show "(- 1 - of_nat d) div of_int base < x \<longleftrightarrow> 2 ^ 64 \<le> digit_value base (unat x) c" using v by simp
  assume "\<not> 2 ^ 64 \<le> digit_value base (unat x) c"
  then show "unat (x * of_int base + of_nat d) = digit_value base (unat x) c"
    using v by (simp add: unat_word_ariths ub ud take_bit_eq_mod)
qed

lemma from_chars_loop_value:
  assumes "1 \<le> base" "base \<le> 36"
  shows "from_chars_loop base s x ovf = (p, y, o1) \<Longrightarrow>
    p = dropWhile (is_digit base) s \<and> (let v = number_value base (unat x) (takeWhile (is_digit base) s) in
      (o1 \<longleftrightarrow> ovf \<or> 2 ^ 64 \<le> v) \<and> (\<not> o1 \<longrightarrow> unat y = v))"
proof (induction s arbitrary: x ovf)
  case Nil
  then show ?case using unat_u64[of x] by (auto simp: not_le)
next
  case (Cons c s)
  show ?case
  proof (cases "digit_of base c")
    case None
    then show ?thesis using Cons.prems unat_u64[of x] by (auto simp: is_digit_def not_le)
  next
    case (Some d)
    note t = overflow_test[OF Some assms, of x]
    show ?thesis
    proof (cases "2 ^ 64 \<le> digit_value base (unat x) c")
      case True
      then have "from_chars_loop base s x True = (p, y, o1)" using Cons.prems Some t(1) by simp
      then show ?thesis using Cons.IH[of x True] Some True number_value_mono[OF assms(1), of "digit_value base (unat x) c"]
        by (auto simp: is_digit_def Let_def intro: order.trans)
    next
      case False
      then have "from_chars_loop base s (x * of_int base + of_nat d) ovf = (p, y, o1)" using Cons.prems Some t(1) by simp
      then show ?thesis using Cons.IH[of "x * of_int base + of_nat d" ovf] Some t(2)[OF False] by (simp add: is_digit_def Let_def)
    qed
  qed
qed

lemma from_chars_value:
  assumes "1 \<le> base" "base \<le> 36"
  shows "from_chars_ul s base =
    (let ds = takeWhile (is_digit base) s; v = number_value base 0 ds; p = dropWhile (is_digit base) s in
     if ds = [] then (s, E_INVAL, None) else if 2 ^ 64 \<le> v then (p, E_RANGE, None) else (p, 0, Some (of_nat v)))"
proof -
  obtain p y o1 where l: "from_chars_loop base s 0 False = (p, y, o1)" by (metis prod_cases3)
  note v = from_chars_loop_value[OF assms l]
  have len: "length s = length (takeWhile (is_digit base) s) + length (dropWhile (is_digit base) s)"
    by (metis takeWhile_dropWhile_id length_append)
  have e: "takeWhile (is_digit base) s = [] \<Longrightarrow> dropWhile (is_digit base) s = s" by (metis takeWhile_dropWhile_id append_Nil)
  show ?thesis
  proof (cases "takeWhile (is_digit base) s = []")
    case True
    then show ?thesis using v e by (simp add: from_chars_ul_def l)
  next
    case False
    then have "length p \<noteq> length s" using v len by simp
    moreover have "y = of_nat (number_value base 0 (takeWhile (is_digit base) s))" if "\<not> o1"
    proof -
      have "unat y = number_value base 0 (takeWhile (is_digit base) s)" using v that by (simp add: Let_def)
      then have "of_nat (unat y) = (of_nat (number_value base 0 (takeWhile (is_digit base) s)) :: u64)" by (simp only:)
      then show ?thesis by simp
    qed
    ultimately show ?thesis using v False by (auto simp: from_chars_ul_def l Let_def)
  qed
qed

definition clamp :: "int \<Rightarrow> int \<Rightarrow> int \<Rightarrow> int" where
  "clamp lo hi v = (if v < lo then lo else if hi < v then hi else v)"

text \<open>What the code takes for the number, after white space and the sign.\<close>

lemma strtol_value:
  assumes "1 \<le> base" "base \<le> 36" "skip_sign (dropWhile c_isspace s) = (neg, t)" "strtol_fix_base t base = (t, base)"
  shows "strtol s base = (word_of_int (clamp (- (2 ^ 63)) (2 ^ 63 - 1)
      ((if neg then - 1 else 1) * int (number_value base 0 (takeWhile (is_digit base) t)))),
    if takeWhile (is_digit base) t = [] then s else dropWhile (is_digit base) t)"
proof -
  define ds v where "ds = takeWhile (is_digit base) t" and "v = number_value base 0 ds"
  define bound :: u64 where "bound = push_bit 63 1 - (if neg then 0 else 1)"
  have ub: "unat bound = (if neg then 2 ^ 63 else 2 ^ 63 - 1)" by (simp add: bound_def)
  note fc = from_chars_value[OF assms(1,2), of t, folded ds_def, folded v_def]
  define x where "x = (case snd (snd (from_chars_ul t base)) of None \<Rightarrow> 0 | Some x \<Rightarrow> x)"
  define y where "y = (if fst (snd (from_chars_ul t base)) = E_RANGE \<or> bound < x then bound else x)"
  have s: "strtol s base = (if neg then - y else y, if fst (snd (from_chars_ul t base)) = E_INVAL then s else fst (from_chars_ul t base))"
    by (simp add: strtol_def assms(3,4) case_prod_beta Let_def x_def y_def bound_def)
  have e: "fst (snd (from_chars_ul t base)) = E_INVAL \<longleftrightarrow> ds = []" "fst (from_chars_ul t base) = (if ds = [] then t else dropWhile (is_digit base) t)"
    unfolding fc by (simp_all add: Let_def E_INVAL_def E_RANGE_def ds_def v_def)
  have y: "unat y = min v (unat bound)"
  proof (cases "ds = []")
    case True
    then show ?thesis unfolding y_def x_def fc by (simp add: v_def E_INVAL_def E_RANGE_def)
  next
    case ds: False
    show ?thesis
    proof (cases "2 ^ 64 \<le> v")
      case True
      then show ?thesis using ds ub unfolding y_def x_def fc by (simp add: v_def[symmetric] ds_def[symmetric] E_RANGE_def)
    next
      case False
      then have "unat (of_nat v :: u64) = v" by (simp add: unat_of_nat)
      moreover have "x = of_nat v" "fst (snd (from_chars_ul t base)) \<noteq> E_RANGE"
        using ds False unfolding x_def fc by (simp_all add: v_def[symmetric] ds_def[symmetric] E_RANGE_def)
      ultimately show ?thesis by (simp add: y_def word_less_nat_alt min_def)
    qed
  qed
  have "(if neg then - y else y) = word_of_int (if neg then - int (unat y) else int (unat y))" by simp
  also have "(if neg then - int (unat y) else int (unat y)) = clamp (- (2 ^ 63)) (2 ^ 63 - 1) ((if neg then - 1 else 1) * int v)"
    using y ub by (auto simp: clamp_def min_def)
  finally show ?thesis using s e by (simp add: ds_def v_def)
qed

subsection \<open>Digits as they are meant\<close>

text \<open>
  The value of a digit or letter, and the number that digits stand for in a base, most significant digit first.
  Neither refers to the code.
\<close>

definition std_digit :: "char \<Rightarrow> nat option" where
  "std_digit c =
     (if CHR ''0'' \<le> c \<and> c \<le> CHR ''9'' then Some (of_char c - of_char (CHR ''0''))
      else if CHR ''a'' \<le> c \<and> c \<le> CHR ''z'' then Some (of_char c - of_char (CHR ''a'') + 10)
      else if CHR ''A'' \<le> c \<and> c \<le> CHR ''Z'' then Some (of_char c - of_char (CHR ''A'') + 10)
      else None)"

definition digit_in :: "int \<Rightarrow> char \<Rightarrow> bool" where
  "digit_in base c \<longleftrightarrow> (case std_digit c of None \<Rightarrow> False | Some d \<Rightarrow> int d < base)"

fun positional :: "int \<Rightarrow> string \<Rightarrow> int" where
  "positional base [] = 0"
| "positional base (c # ds) = int (the (std_digit c)) * base ^ length ds + positional base ds"

text \<open>
  The first test of the code, \<open>*s < '0' + base\<close>, also takes the characters from \<open>:\<close> up to \<open>'0' + base\<close> for digits
  when the base is above 10.
\<close>

definition misread :: "int \<Rightarrow> char \<Rightarrow> bool" where
  "misread base c \<longleftrightarrow> CHR '':'' \<le> c \<and> int (of_char c) < int (of_char (CHR ''0'')) + base"

lemma digit_of_std:
  assumes "1 \<le> base" "base \<le> 36" "\<not> misread base c"
  shows "digit_of base c = (if digit_in base c then std_digit c else None)"
proof -
  define k :: nat where "k = of_char c"
  have k: "k < 256" using uchar_less[of c] by (simp add: uchar_def k_def)
  show ?thesis using assms k
    unfolding digit_of_def digit_in_def std_digit_def misread_def schar_def uchar_def less_eq_char_def k_def[symmetric] by auto
qed

lemma number_value_positional:
  assumes "1 \<le> base" "base \<le> 36" "\<forall>c \<in> set ds. digit_in base c \<and> \<not> misread base c"
  shows "int (number_value base v ds) = int v * base ^ length ds + positional base ds"
  using assms(3)
proof (induction ds arbitrary: v)
  case (Cons c ds)
  have "digit_of base c = std_digit c" "std_digit c \<noteq> None"
    using digit_of_std[OF assms(1,2), of c] Cons.prems by (auto simp: digit_in_def split: option.splits)
  then have d: "int (digit_value base v c) = int v * base + int (the (std_digit c))"
    using assms(1) by (auto simp: digit_value_def)
  show ?case using Cons.IH[of "digit_value base v c"] Cons.prems by (simp add: d algebra_simps)
qed simp

definition white :: "char set" where
  "white = {CHR '' '', CHR 0x09, CHR 0x0A, CHR 0x0B, CHR 0x0C, CHR 0x0D}"

lemma white_isspace: "c_isspace c \<longleftrightarrow> c \<in> white"
proof -
  have i: "inj uchar" by (rule injI) (simp add: uchar_def)
  have "uchar ` white = {32, 9, 10, 11, 12, 13}" by (simp add: white_def uchar_def)
  then have "c_isspace c \<longleftrightarrow> uchar c \<in> uchar ` white" by (auto simp: c_isspace_def)
  then show ?thesis by (simp only: inj_image_mem_iff[OF i])
qed



text \<open>The misread characters: a colon is the digit 10 in base 16, and in base 18 the letter A is 17 instead of 10.\<close>

lemma strtol_misreads:
  "strtol '':'' 16 = (10, [])" "strtol ''A'' 18 = (17, [])"
  by (simp_all add: strtol_def skip_sign_def strtol_fix_base_def deref_def c_isspace_def from_chars_ul_def digit_of_def schar_def uchar_def
      NUL_def E_INVAL_def E_RANGE_def word_less_nat_alt unat_div)

section \<open>Random numbers stay in their range\<close>

text \<open>
  The generator is linear: \<open>2 ^ k\<close> steps multiply the seed by a number that is 1 modulo \<open>2 ^ (k + 2)\<close> and add an
  odd multiple of \<open>2 ^ k\<close>. So after \<open>2 ^ 63\<close> steps exactly the top bit has changed, and with it the top bit of the
  number drawn.
\<close>

definition next_seed :: "u64 \<Rightarrow> u64" where
  "next_seed rs = rs * 6364136223846793005 + 1"

lemma square_map:
  fixes x K p q :: u64
  shows "(x * (1 + 4 * K * p) + K * (1 + 2 * q)) * (1 + 4 * K * p) + K * (1 + 2 * q) =
    x * (1 + 4 * (2 * K) * (p + 2 * (K * (p * p)))) + 2 * K * (1 + 2 * (q + K * p + 2 * (K * (p * q))))"
  by (simp add: algebra_simps)

lemma seed_after: "\<exists>p q :: u64. \<forall>x. (next_seed ^^ (2 ^ k)) x = x * (1 + 4 * 2 ^ k * p) + 2 ^ k * (1 + 2 * q)"
proof (induction k)
  case 0
  show ?case by (rule exI[of _ 1591034055961698251], rule exI[of _ 0]) (simp add: next_seed_def)
next
  case (Suc k)
  then obtain p q where g: "\<And>x. (next_seed ^^ (2 ^ k)) x = x * (1 + 4 * 2 ^ k * p) + 2 ^ k * (1 + 2 * q)" by blast
  have e: "(2 :: nat) ^ Suc k = 2 ^ k + 2 ^ k" by simp
  have "(next_seed ^^ (2 ^ Suc k)) x =
      x * (1 + 4 * (2 * 2 ^ k) * (p + 2 * (2 ^ k * (p * p)))) + 2 * 2 ^ k * (1 + 2 * (q + 2 ^ k * p + 2 * (2 ^ k * (p * q))))" for x
    unfolding e funpow_add comp_def g by (rule square_map)
  then show ?case unfolding power_Suc by blast
qed

lemma seed_top_bit: "(next_seed ^^ (2 ^ 63)) x = x + push_bit 63 1"
proof -
  obtain p q :: u64 where g: "(next_seed ^^ (2 ^ 63)) x = x * (1 + 4 * 2 ^ 63 * p) + 2 ^ 63 * (1 + 2 * q)" using seed_after[of 63] by blast
  have z: "4 * 2 ^ 63 = (0 :: u64)" "2 ^ 63 * 2 = (0 :: u64)" by simp_all
  have "2 ^ 63 * (1 + 2 * q) = (2 ^ 63 :: u64)" unfolding distrib_left mult.assoc[symmetric] z by simp
  then show ?thesis unfolding g z by (simp add: push_bit_eq_mult)
qed

definition drawn_from :: "u64 \<Rightarrow> nat" where
  "drawn_from rs = unat (drop_bit 33 rs AND of_nat RAND_MAX)"

definition seed_of :: "rand_state \<Rightarrow> u64" where
  "seed_of st = rand_seed (if \<not> rand_seed_set st then srand 819234718 st else st)"

lemma rand_seeds: "fst (rand st) = drawn_from (next_seed (seed_of st))" "seed_of (snd (rand st)) = next_seed (seed_of st)"
  by (simp_all add: rand_def Let_def drawn_from_def next_seed_def seed_of_def srand_def)

lemma drawn_small: "\<not> bit rs 63 \<Longrightarrow> drawn_from rs < 2 ^ 30"
proof -
  assume b: "\<not> bit rs 63"
  have m: "(of_nat RAND_MAX :: u64) = mask 31" by (simp add: RAND_MAX_def mask_eq_exp_minus_1)
  have "drop_bit 33 rs AND mask 31 = (drop_bit 33 rs AND mask 30)"
  proof (rule bit_word_eqI)
    fix i assume "i < LENGTH(64)"
    show "bit (drop_bit 33 rs AND mask 31) i = bit (drop_bit 33 rs AND mask 30) i"
      using b by (cases "i = 30") (auto simp: bit_simps)
  qed
  moreover have "unat (x AND mask 30) < 2 ^ 30" for x :: u64
    using take_bit_nat_less_exp[of 30 "unat x"] by (simp add: unsigned_take_bit_eq flip: take_bit_eq_mask)
  ultimately show ?thesis unfolding drawn_from_def m by simp
qed

lemma top_bit_flips:
  fixes y :: u64
  assumes "bit y 63"
  shows "\<not> bit (y + push_bit 63 1) 63"
proof -
  define w :: u64 where "w = push_bit 63 1"
  have w: "bit w i \<longleftrightarrow> i = 63" for i unfolding w_def by (cases "i = 63") (auto simp del: push_bit_of_1 simp: bit_simps)
  have ww: "w + w = 0" by (simp add: w_def)
  have "y = (y AND NOT w) OR w" using assms by (auto intro!: bit_word_eqI simp: bit_simps w)
  moreover have "(y AND NOT w) AND w = 0" by (auto intro!: bit_word_eqI simp: bit_simps)
  ultimately have "y = (y AND NOT w) + w" by (metis disjunctive_add_eq_or)
  then have "y + w = y AND NOT w" by (metis add.assoc add_0_right ww)
  then show ?thesis unfolding w_def[symmetric] by (simp add: bit_simps w)
qed

lemma small_draw_comes: "\<exists>n. drawn_from ((next_seed ^^ Suc n) s) < 2 ^ 30"
proof (cases "bit (next_seed s) 63")
  case True
  have c: "(next_seed ^^ Suc (2 ^ 63)) s = next_seed s + push_bit 63 1"
    using seed_top_bit[of "next_seed s"] by (simp only: funpow_Suc_right o_apply)
  have "\<not> bit ((next_seed ^^ Suc (2 ^ 63)) s) 63" unfolding c using True by (rule top_bit_flips)
  then show ?thesis using drawn_small by blast
next
  case False
  then have "drawn_from ((next_seed ^^ Suc 0) s) < 2 ^ 30" using drawn_small by simp
  then show ?thesis by blast
qed

lemma rand_loop_returns:
  assumes "drawn_from ((next_seed ^^ Suc n) (seed_of st)) < lim"
  shows "\<exists>v st'. rand_loop d lim lo st = Some (v, st')"
  using assms
proof (induction n arbitrary: st)
  case 0
  then show ?case using rand_seeds[of st] by (subst rand_loop.simps) (auto simp: rand_try_def split: prod.splits)
next
  case (Suc n)
  show ?case
  proof (cases "fst (rand st) < lim")
    case True
    then show ?thesis by (subst rand_loop.simps) (auto simp: rand_try_def split: prod.splits)
  next
    case False
    have "(next_seed ^^ Suc n) (seed_of (snd (rand st))) = (next_seed ^^ Suc (Suc n)) (seed_of st)"
      unfolding rand_seeds(2) by (simp only: funpow_Suc_right o_apply)
    then have "\<exists>v st'. rand_loop d lim lo (snd (rand st)) = Some (v, st')" using Suc.IH[of "snd (rand st)"] Suc.prems by simp
    then show ?thesis using False by (subst rand_loop.simps) (auto simp: rand_try_def split: prod.splits)
  qed
qed

lemma rand_loop_range:
  "rand_loop div_by lim lo st = Some (v, st') \<Longrightarrow> \<exists>r. v = lo + int (r div div_by) \<and> r < lim"
proof (induction div_by lim lo st y \<equiv> "(v, st')" rule: rand_loop.raw_induct[rotated, consumes 1, case_names step])
  case (step loop div_by lim lo st)
  then show ?case by (auto simp: rand_try_def split: prod.splits if_splits)
qed

text \<open>Every number up to \<open>RAND_MAX\<close> is drawn by some seed, since the multiplier is odd.\<close>

lemma every_draw:
  assumes "r \<le> RAND_MAX"
  shows "\<exists>st. fst (rand st) = r"
proof -
  define y :: u64 where "y = push_bit 33 (of_nat r)"
  have m: "(of_nat RAND_MAX :: u64) = mask 31" by (simp add: RAND_MAX_def mask_eq_exp_minus_1)
  have "next_seed ((y - 1) * 13877824140714322085) = (y - 1) * (13877824140714322085 * 6364136223846793005) + 1"
    by (simp only: next_seed_def mult.assoc)
  also have "13877824140714322085 * 6364136223846793005 = (1 :: u64)" by simp
  finally have n: "next_seed ((y - 1) * 13877824140714322085) = y" by simp
  have "drop_bit 33 y AND mask 31 = (of_nat r AND mask 31 :: u64)"
    unfolding y_def by (rule bit_word_eqI) (auto simp: bit_simps)
  moreover have "r < 2 ^ 31" using assms by (simp add: RAND_MAX_def)
  ultimately have "drawn_from y = r"
    unfolding drawn_from_def m by (simp add: unat_mod_distrib unat_of_nat take_bit_eq_mod flip: take_bit_eq_mask)
  then show ?thesis using rand_seeds(1)[of "\<lparr>rand_seed_set = True, rand_seed = (y - 1) * 13877824140714322085\<rparr>"] n
    by (auto simp: seed_of_def)
qed

text \<open>
  C40. \<open>rand(min, max)\<close> for \<open>min \<le> max\<close> and a width below \<open>RAND_MAX\<close> fails no assertion and has no overflow, and
  always returns, for the generator does draw an accepted number; the result is between \<open>min\<close> and \<open>max\<close>. It returns
  what its test makes of the next number drawn, or goes on with the following one; and of the numbers \<open>rand\<close> can
  draw, the test maps exactly \<open>(RAND_MAX + 1) div (max - min + 1)\<close> to \<open>v\<close>, the same count for every \<open>v\<close> of the range.
\<close>

theorem rand_range_in_bounds:
  assumes "INT_MIN \<le> lo" "lo \<le> hi" "hi \<le> INT_MAX" "hi - lo < int RAND_MAX"
  shows "(\<exists>v st'. rand_range lo hi st = Inr (Some (v, st')) \<and> lo \<le> v \<and> v \<le> hi) \<and>
    rand_range lo hi st =
      (case rand_try (rand_div lo hi) (rand_top lo hi) lo (fst (rand st)) of
         Some v \<Rightarrow> Inr (Some (v, snd (rand st))) | None \<Rightarrow> rand_range lo hi (snd (rand st))) \<and>
    (\<forall>v. lo \<le> v \<and> v \<le> hi \<longrightarrow>
      card {r. (\<exists>st. fst (rand st) = r) \<and> rand_try (rand_div lo hi) (rand_top lo hi) lo r = Some v} = (RAND_MAX + 1) div nat (hi - lo + 1))"
proof -
  define n where "n = nat (hi - lo + 1)"
  define d where "d = (RAND_MAX + 1) div n"
  have n: "0 < n" "int n = hi - lo + 1" using assms(2) by (simp_all add: n_def)
  have w: "hi - lo < int RAND_MAX" using assms(4) by simp
  then have nle: "n \<le> RAND_MAX + 1" using n(2) by simp
  have d: "0 < d" "d * n \<le> RAND_MAX + 1" using n(1) nle by (simp_all add: d_def div_greater_zero_iff)
  have par: "rand_div lo hi = d" "rand_top lo hi = d * n" by (simp_all add: rand_div_def rand_top_def d_def n_def)
  have run: "rand_range lo hi st = Inr (rand_loop d (d * n) lo st)" for st
    using assms(2) w d n(1) by (simp add: rand_range_def par INT_MAX_def RAND_MAX_def)
  have cls: "r < d * n \<longleftrightarrow> r div d < n" for r using d(1) by (simp add: div_less_iff_less_mult mult.commute)
  have bounds: "lo \<le> v \<and> v \<le> hi" if drawn: "rand_loop d (d * n) lo st = Some (v, st')" for v st'
  proof -
    obtain r where r: "v = lo + int (r div d)" "r < d * n" using rand_loop_range[OF drawn] by blast
    then have "int (r div d) < int n" using cls by simp
    then show ?thesis using r(1) n(2) by linarith
  qed
  have "RAND_MAX + 1 < 2 * (d * n)"
  proof -
    have "RAND_MAX + 1 < d * n + n" unfolding d_def using dividend_less_div_times[OF n(1), of "RAND_MAX + 1"] by (simp add: add.commute mult.commute)
    moreover have "n \<le> d * n" using d(1) by simp
    ultimately show ?thesis by linarith
  qed
  then have big: "2 ^ 30 < d * n" by (simp add: RAND_MAX_def)
  obtain i where i: "drawn_from ((next_seed ^^ Suc i) (seed_of st)) < 2 ^ 30" using small_draw_comes by blast
  obtain v st' where r: "rand_loop d (d * n) lo st = Some (v, st')" using rand_loop_returns[OF less_trans[OF i big]] by blast
  have returns: "\<exists>v st'. rand_range lo hi st = Inr (Some (v, st')) \<and> lo \<le> v \<and> v \<le> hi"
    by (rule exI[of _ v], rule exI[of _ st']) (simp only: run r bounds[OF r])
  have step: "rand_range lo hi st = (case rand_try d (d * n) lo (fst (rand st)) of
      Some v \<Rightarrow> Inr (Some (v, snd (rand st))) | None \<Rightarrow> rand_range lo hi (snd (rand st)))"
    unfolding run by (subst rand_loop.simps) (simp split: prod.split option.split)
  have cards: "card {r. (\<exists>st. fst (rand st) = r) \<and> rand_try d (d * n) lo r = Some v} = d" if "lo \<le> v" "v \<le> hi" for v
  proof -
    define q where "q = nat (v - lo)"
    have q: "v = lo + int q" "q < n" using that n(2) by (auto simp: q_def)
    have "r div d = q \<longleftrightarrow> q * d \<le> r \<and> r < q * d + d" for r
    proof -
      have "r div d = q \<longleftrightarrow> q \<le> r div d \<and> r div d < Suc q" by auto
      then show ?thesis using d(1) by (simp add: less_eq_div_iff_mult_less_eq div_less_iff_less_mult add.commute)
    qed
    moreover have "r < d * n" if "r div d = q" for r using cls[of r] that q(2) by simp
    ultimately have hit: "rand_try d (d * n) lo r = Some v \<longleftrightarrow> r \<in> {q * d ..< q * d + d}" for r using q(1) by (auto simp: rand_try_def)
    have "\<exists>st. fst (rand st) = r" if "rand_try d (d * n) lo r = Some v" for r
      using every_draw[of r] that d(2) by (auto simp: rand_try_def split: if_splits)
    then have "{r. (\<exists>st. fst (rand st) = r) \<and> rand_try d (d * n) lo r = Some v} = {q * d ..< q * d + d}" using hit by blast
    then show ?thesis by simp
  qed
  have "(RAND_MAX + 1) div nat (hi - lo + 1) = d" by (simp add: d_def n_def)
  then show ?thesis unfolding par using returns step cards by simp
qed

theorem rand_range_in_bounds_witness:
  "(\<exists>v st'. rand_range 1 6 (srand 1 \<lparr>rand_seed_set = False, rand_seed = 0\<rparr>) = Inr (Some (v, st')) \<and> 1 \<le> v \<and> v \<le> 6) \<and>
   card {r. (\<exists>st. fst (rand st) = r) \<and> rand_try (rand_div 1 6) (rand_top 1 6) 1 r = Some 3} = 357913941"
proof -
  have a: "INT_MIN \<le> 1" "(1 :: int) \<le> 6" "6 \<le> INT_MAX" "6 - 1 < int RAND_MAX"
    by (simp_all add: INT_MIN_def INT_MAX_def RAND_MAX_def)
  have c: "(RAND_MAX + 1) div nat (6 - 1 + 1) = 357913941" by (simp add: RAND_MAX_def)
  note r = rand_range_in_bounds[OF a, of "srand 1 \<lparr>rand_seed_set = False, rand_seed = 0\<rparr>", unfolded c]
  show ?thesis by (rule conjI, rule conjunct1[OF r]) (use conjunct2[OF conjunct2[OF r]] in simp)
qed

text \<open>The width \<open>RAND_MAX\<close>, which the comment and the assertion allow, overflows \<open>max - min + 1\<close>.\<close>

lemma rand_full_width_undefined:
  "hi - lo = int RAND_MAX \<Longrightarrow> rand_range lo hi st = Inl (UndefinedBehaviour ''max - min + 1'')"
  by (simp add: rand_range_def INT_MAX_def RAND_MAX_def)

end
