(* ===== verification/Weensy_Printf.thy ===== *)
theory Weensy_Printf
  imports Weensy_Lib
begin

text \<open>
  Formatted output: \<open>printer::vprintf\<close>, \<open>vsnprintf\<close> and the console of \<open>weensyos/lib.cc\<close>. A printer is what
  \<open>putc\<close> and the colour escape do to its state. The arguments of a call are a list of typed values, and taking one at
  another type is undefined.
\<close>

section \<open>Numbers\<close>

definition FLAG_ALT :: u32 where "FLAG_ALT = 0x1"
definition FLAG_ZERO :: u32 where "FLAG_ZERO = 0x2"
definition FLAG_LEFTJUSTIFY :: u32 where "FLAG_LEFTJUSTIFY = 0x4"
definition FLAG_SPACEPOSITIVE :: u32 where "FLAG_SPACEPOSITIVE = 0x8"
definition FLAG_PLUSPOSITIVE :: u32 where "FLAG_PLUSPOSITIVE = 0x10"
definition FLAG_THOUSANDS :: u32 where "FLAG_THOUSANDS = 0x20"
definition FLAG_NUMERIC :: u32 where "FLAG_NUMERIC = 0x40"
definition FLAG_SIGNED :: u32 where "FLAG_SIGNED = 0x80"
definition FLAG_NEGATIVE :: u32 where "FLAG_NEGATIVE = 0x100"
definition FLAG_ALT2 :: u32 where "FLAG_ALT2 = 0x200"

definition has_flag :: "u32 \<Rightarrow> u32 \<Rightarrow> bool" where
  "has_flag flags fl \<longleftrightarrow> flags AND fl \<noteq> 0"

definition flag_chars :: string where "flag_chars = ''#0- +'' @ [CHR 0x27]"

definition upper_digits :: string where "upper_digits = ''0123456789ABCDEF''"
definition lower_digits :: string where "lower_digits = ''0123456789abcdef''"

text \<open>
  The loop of \<open>print_number\<close>, from the position \<open>pos\<close> in the buffer downwards: \<open>k\<close> digits make a group when
  \<open>thousands_pos\<close> is set.
\<close>

primrec print_digits :: "nat \<Rightarrow> nat \<Rightarrow> string \<Rightarrow> char \<Rightarrow> nat \<Rightarrow> nat option \<Rightarrow> nat \<Rightarrow> string \<Rightarrow> string" where
  "print_digits 0 base digits sep k thousands_pos val out = out"
| "print_digits (Suc pos) base digits sep k thousands_pos val out =
     (let (thousands_pos, val, out) =
        (if thousands_pos = Some (Suc pos) then (if k \<le> pos then Some (pos - k) else None, val, sep # out)
         else (thousands_pos, val div base, (digits ! (val mod base)) # out))
      in if val \<noteq> 0 \<and> pos \<noteq> 0 then print_digits pos base digits sep k thousands_pos val out else out)"

definition print_number :: "nat \<Rightarrow> u64 \<Rightarrow> int \<Rightarrow> u32 \<Rightarrow> string" where
  "print_number sz val base flags =
     (let digits = (if base < 0 then lower_digits else upper_digits);
          base = nat \<bar>base\<bar>;
          pos = sz - 1;
          k = (if base = 10 then 3 else 4);
          thousands_pos = (if has_flag flags FLAG_THOUSANDS \<and> k \<le> pos then Some (pos - k) else None)
      in print_digits pos base digits (if base = 10 then CHR '','' else CHR 0x27) k thousands_pos (unat val) [])"

section \<open>Conversions\<close>

datatype va_arg = VInt u32 | VLong u64 | VPtr u64 | VStr string

fun va_int :: "va_arg list \<Rightarrow> (u32 \<times> va_arg list) result" where
  "va_int (VInt x # args) = Inr (x, args)"
| "va_int args = Inl (UndefinedBehaviour ''va_arg'')"

fun va_long :: "va_arg list \<Rightarrow> (u64 \<times> va_arg list) result" where
  "va_long (VLong x # args) = Inr (x, args)"
| "va_long args = Inl (UndefinedBehaviour ''va_arg'')"

fun va_ptr :: "va_arg list \<Rightarrow> (u64 \<times> va_arg list) result" where
  "va_ptr (VPtr x # args) = Inr (x, args)"
| "va_ptr args = Inl (UndefinedBehaviour ''va_arg'')"

fun va_str :: "va_arg list \<Rightarrow> (string \<times> va_arg list) result" where
  "va_str (VStr x # args) = Inr (x, args)"
| "va_str args = Inl (UndefinedBehaviour ''va_arg'')"

definition flag_index :: "char \<Rightarrow> nat option" where
  "flag_index c = map_option (\<lambda>rest. strlen flag_chars - strlen rest) (strchr flag_chars c)"

fun parse_flags :: "string \<Rightarrow> u32 \<Rightarrow> string \<times> u32" where
  "parse_flags [] flags = ([], flags)"
| "parse_flags (c # f) flags =
     (case flag_index c of
        Some i \<Rightarrow> parse_flags f (flags OR push_bit i 1)
      | None \<Rightarrow> (c # f, flags))"

definition dec_digit :: "char \<Rightarrow> bool" where
  "dec_digit c \<longleftrightarrow> 48 \<le> uchar c \<and> uchar c \<le> 57"

fun parse_int :: "string \<Rightarrow> int \<Rightarrow> (string \<times> int) result" where
  "parse_int [] n = Inr ([], n)"
| "parse_int (c # f) n =
     (if dec_digit c then
        if INT_MAX < 10 * n + int (uchar c) then Inl (UndefinedBehaviour ''integer overflow'')
        else parse_int f (10 * n + int (uchar c) - 48)
      else Inr (c # f, n))"

definition parse_width :: "string \<Rightarrow> va_arg list \<Rightarrow> (string \<times> va_arg list \<times> int) result" where
  "parse_width f args =
     (if dec_digit (deref f) \<and> deref f \<noteq> CHR ''0'' then res_bind (parse_int f 0) (\<lambda>(f, n). Inr (f, args, n))
      else if deref f = CHR ''*'' then res_bind (va_int args) (\<lambda>(w, args). Inr (tl f, args, sint w))
      else Inr (f, args, - 1))"

definition parse_precision :: "string \<Rightarrow> va_arg list \<Rightarrow> (string \<times> va_arg list \<times> int) result" where
  "parse_precision f args =
     (if deref f = CHR ''.'' then
        let f = tl f in
        res_bind (if dec_digit (deref f) then res_bind (parse_int f 0) (\<lambda>(f, n). Inr (f, args, n))
                  else if deref f = CHR ''*'' then res_bind (va_int args) (\<lambda>(w, args). Inr (tl f, args, sint w))
                  else Inr (f, args, - 1))
          (\<lambda>(f, args, n). Inr (f, args, if n < 0 then 0 else n))
      else Inr (f, args, - 1))"

definition parse_length :: "string \<Rightarrow> string \<times> bool" where
  "parse_length f =
     (if deref f \<in> {CHR ''l'', CHR ''t'', CHR ''z''} then (tl f, True)
      else if deref f = CHR ''h'' then (tl f, False)
      else (f, False))"

text \<open>What the conversion character asks for: a number with its base, characters, or a colour.\<close>

datatype conversion = Number u64 int u32 | Data string | Color u32

definition convert_unsigned :: "int \<Rightarrow> bool \<Rightarrow> u32 \<Rightarrow> va_arg list \<Rightarrow> (conversion \<times> va_arg list) result" where
  "convert_unsigned base len flags args =
     res_bind (if len then va_long args else res_bind (va_int args) (\<lambda>(x, args). Inr (ucast x, args))) (\<lambda>(num, args).
     Inr (Number num base (flags OR FLAG_NUMERIC), args))"

definition char_string :: "char \<Rightarrow> string" where
  "char_string c = (if c = NUL then [] else [c])"

definition convert :: "char \<Rightarrow> bool \<Rightarrow> u32 \<Rightarrow> va_arg list \<Rightarrow> (conversion \<times> va_arg list) result" where
  "convert c len flags args =
     (if c = CHR ''d'' \<or> c = CHR ''i'' then
        res_bind (if len then va_long args else res_bind (va_int args) (\<lambda>(x, args). Inr (scast x, args))) (\<lambda>(x, args).
        let negative = (x <s 0) in
        if negative \<and> x = push_bit 63 1 then Inl (UndefinedBehaviour ''-x'') else
        Inr (Number (if negative then - x else x) 10 (flags OR FLAG_NUMERIC OR FLAG_SIGNED OR (if negative then FLAG_NEGATIVE else 0)), args))
      else if c = CHR ''u'' then convert_unsigned 10 len flags args
      else if c = CHR ''x'' then convert_unsigned (- 16) len flags args
      else if c = CHR ''X'' then convert_unsigned 16 len flags args
      else if c = CHR ''p'' then
        res_bind (va_ptr args) (\<lambda>(num, args). Inr (Number num (- 16) (flags OR FLAG_ALT OR FLAG_ALT2 OR FLAG_NUMERIC), args))
      else if c = CHR ''s'' then res_bind (va_str args) (\<lambda>(s, args). Inr (Data s, args))
      else if c = CHR ''C'' then res_bind (va_int args) (\<lambda>(x, args). Inr (Color x, args))
      else if c = CHR ''c'' then res_bind (va_int args) (\<lambda>(x, args). Inr (Data (char_string (char_of (unat x))), args))
      else Inr (Data (if c \<noteq> NUL then [c] else ''%''), args))"

definition number_prefix :: "u64 \<Rightarrow> int \<Rightarrow> u32 \<Rightarrow> string" where
  "number_prefix num base flags =
     (if has_flag flags FLAG_NUMERIC \<and> has_flag flags FLAG_SIGNED then
        if has_flag flags FLAG_NEGATIVE then ''-''
        else if has_flag flags FLAG_PLUSPOSITIVE then ''+''
        else if has_flag flags FLAG_SPACEPOSITIVE then '' ''
        else []
      else if has_flag flags FLAG_NUMERIC \<and> has_flag flags FLAG_ALT \<and> (base = 16 \<or> base = - 16) \<and> (num \<noteq> 0 \<or> has_flag flags FLAG_ALT2)
        then (if base = - 16 then ''0x'' else ''0X'')
      else [])"

text \<open>The characters of a field, in the order of the output loops.\<close>

definition layout :: "string \<Rightarrow> string \<Rightarrow> u32 \<Rightarrow> int \<Rightarrow> int \<Rightarrow> string" where
  "layout pre data flags width precision =
     (let datalen = (if 0 \<le> precision \<and> \<not> has_flag flags FLAG_NUMERIC then int (strnlen data (nat precision)) else int (strlen data));
          zeros = (if has_flag flags FLAG_NUMERIC \<and> 0 \<le> precision then (if datalen < precision then precision - datalen else 0)
                   else if has_flag flags FLAG_NUMERIC \<and> has_flag flags FLAG_ZERO \<and> \<not> has_flag flags FLAG_LEFTJUSTIFY
                        \<and> datalen + int (strlen pre) < width then width - datalen - int (strlen pre)
                   else 0);
          width = width - (datalen + zeros + int (strlen pre));
          left = has_flag flags FLAG_LEFTJUSTIFY
      in (if left then [] else replicate (nat width) CHR '' '') @ pre @ replicate (nat zeros) CHR ''0'' @ take (nat datalen) data
         @ (if left then replicate (nat width) CHR '' '' else []))"

definition NUMBUFSIZ :: nat where "NUMBUFSIZ = 32"

datatype field = Output string | SetColor u32

definition parse_field :: "string \<Rightarrow> va_arg list \<Rightarrow> (string \<times> va_arg list \<times> field) result" where
  "parse_field f args =
     (let (f, flags) = parse_flags f 0 in
      res_bind (parse_width f args) (\<lambda>(f, args, width).
      res_bind (parse_precision f args) (\<lambda>(f, args, precision).
      let (f, len) = parse_length f in
      res_bind (convert (deref f) len flags args) (\<lambda>(cv, args).
      Inr (tl f, args,
        case cv of
          Number num base flags \<Rightarrow> Output (layout (number_prefix num base flags) (print_number NUMBUFSIZ num base flags) flags width precision)
        | Data s \<Rightarrow> Output (layout [] s flags width precision)
        | Color x \<Rightarrow> SetColor x)))))"

lemma parse_flags_length: "length (fst (parse_flags f flags)) \<le> length f"
  by (induction f flags rule: parse_flags.induct) (auto split: option.splits)

lemma parse_int_length: "parse_int f n = Inr (f', m) \<Longrightarrow> length f' \<le> length f"
  by (induction f n rule: parse_int.induct) (auto split: if_splits)

lemma parse_field_length: "parse_field f args = Inr (f', args', fld) \<Longrightarrow> length f' \<le> length f"
proof -
  have w: "length f' \<le> length f" if "parse_width f args = Inr (f', args', n)" for f args f' args' n
    using that parse_int_length by (auto simp: parse_width_def res_bind_Inr split: if_splits)
  have p: "length f' \<le> length f" if pr: "parse_precision f args = Inr (f', args', n)" for f args f' args' n
    using pr parse_int_length[of "tl f"] by (auto simp: parse_precision_def res_bind_Inr Let_def split: if_splits intro: order.trans[of _ "length f - 1"])
  have l: "length (fst (parse_length f)) \<le> length f" for f by (simp add: parse_length_def)
  assume a: "parse_field f args = Inr (f', args', fld)"
  obtain f1 fl where f1: "parse_flags f 0 = (f1, fl)" by fastforce
  obtain f2 a2 n2 f3 a3 n3 where s: "parse_width f1 args = Inr (f2, a2, n2)" "parse_precision f2 a2 = Inr (f3, a3, n3)"
    "f' = tl (fst (parse_length f3))"
    using a by (auto simp: parse_field_def f1 res_bind_Inr Let_def case_prod_beta)
  have "length f' \<le> length f3" using s(3) l[of f3] by simp
  also have "\<dots> \<le> length f" using p[OF s(2)] w[OF s(1)] parse_flags_length[of f 0] f1 by simp
  finally show ?thesis .
qed

section \<open>Printers\<close>

primrec put_all :: "(char \<Rightarrow> 'p \<Rightarrow> 'p result) \<Rightarrow> string \<Rightarrow> 'p \<Rightarrow> 'p result" where
  "put_all putc [] p = Inr p"
| "put_all putc (c # s) p = (case putc c p of Inl e \<Rightarrow> Inl e | Inr p \<Rightarrow> put_all putc s p)"

definition put_field :: "(char \<Rightarrow> 'p \<Rightarrow> 'p result) \<Rightarrow> (u32 \<Rightarrow> 'p \<Rightarrow> 'p) \<Rightarrow> field \<Rightarrow> 'p \<Rightarrow> 'p result" where
  "put_field putc set_color fld p = (case fld of Output s \<Rightarrow> put_all putc s p | SetColor x \<Rightarrow> Inr (set_color x p))"

function vprintf :: "(char \<Rightarrow> 'p \<Rightarrow> 'p result) \<Rightarrow> (u32 \<Rightarrow> 'p \<Rightarrow> 'p) \<Rightarrow> string \<Rightarrow> va_arg list \<Rightarrow> 'p \<Rightarrow> 'p result" where
  "vprintf putc set_color [] args p = Inr p"
| "vprintf putc set_color (c # f) args p =
     (if c \<noteq> CHR ''%'' then
        (case putc c p of Inl e \<Rightarrow> Inl e | Inr p \<Rightarrow> vprintf putc set_color f args p)
      else
        (case parse_field f args of
           Inl e \<Rightarrow> Inl e
         | Inr (f', args', fld) \<Rightarrow>
             (case put_field putc set_color fld p of Inl e \<Rightarrow> Inl e | Inr p \<Rightarrow> vprintf putc set_color f' args' p)))"
  by pat_completeness auto
termination
  by (relation "measure (\<lambda>(putc, set_color, f, args, p). length f)") (auto simp: less_Suc_eq_le dest: parse_field_length)

text \<open>
  The contract of a printer: in the states of \<open>inv\<close>, \<open>putc\<close> never fails and does what the function \<open>put\<close> says.
  Under it the output is what the fields put, one after the other, whatever the printer.
\<close>

fun field_effect :: "(char \<Rightarrow> 'p \<Rightarrow> 'p) \<Rightarrow> (u32 \<Rightarrow> 'p \<Rightarrow> 'p) \<Rightarrow> field \<Rightarrow> 'p \<Rightarrow> 'p" where
  "field_effect put set_color (Output s) p = fold put s p"
| "field_effect put set_color (SetColor x) p = set_color x p"

text \<open>The fields of a call: plain characters are fields of one character.\<close>

definition print_fields :: "string \<Rightarrow> va_arg list \<Rightarrow> field list result" where
  "print_fields f args = vprintf (\<lambda>c fs. Inr (fs @ [Output [c]])) (\<lambda>x fs. fs @ [SetColor x]) f args []"

locale printer =
  fixes putc :: "char \<Rightarrow> 'p \<Rightarrow> 'p result" and set_color :: "u32 \<Rightarrow> 'p \<Rightarrow> 'p"
    and put :: "char \<Rightarrow> 'p \<Rightarrow> 'p" and inv :: "'p \<Rightarrow> bool"
  assumes putc_put: "inv p \<Longrightarrow> putc c p = Inr (put c p)"
    and put_inv: "inv p \<Longrightarrow> inv (put c p)"
    and set_color_inv: "inv p \<Longrightarrow> inv (set_color x p)"
begin

lemma put_all_put: "inv p \<Longrightarrow> put_all putc s p = Inr (fold put s p) \<and> inv (fold put s p)"
  by (induction s arbitrary: p) (simp_all add: putc_put put_inv)

lemma put_field_effect:
  "inv p \<Longrightarrow> put_field putc set_color fld p = Inr (field_effect put set_color fld p) \<and> inv (field_effect put set_color fld p)"
  using put_all_put set_color_inv by (cases fld) (simp_all add: put_field_def)

end

lemma fields_printer: "printer (\<lambda>c fs. Inr (fs @ [Output [c]])) (\<lambda>x fs. fs @ [SetColor x]) (\<lambda>c fs. fs @ [Output [c]]) (\<lambda>_. True)"
  by unfold_locales simp_all

interpretation fields_pr: printer "\<lambda>c fs. Inr (fs @ [Output [c]])" "\<lambda>x fs. fs @ [SetColor x]" "\<lambda>c fs. fs @ [Output [c]]" "\<lambda>_. True"
  by (rule fields_printer)

definition singles :: "field \<Rightarrow> field list" where
  "singles fld = (case fld of Output s \<Rightarrow> map (\<lambda>c. Output [c]) s | SetColor x \<Rightarrow> [SetColor x])"

lemma effect_singles: "field_effect (\<lambda>c fs. fs @ [Output [c]]) (\<lambda>x fs. fs @ [SetColor x]) fld fs = fs @ singles fld"
proof -
  have "fold (\<lambda>c fs. fs @ [Output [c]]) s fs = fs @ map (\<lambda>c. Output [c]) s" for s fs by (induction s arbitrary: fs) simp_all
  then show ?thesis by (cases fld) (simp_all add: singles_def)
qed

lemma fold_singles: "fold (field_effect put set_color) (singles fld) p = field_effect put set_color fld p"
proof -
  have "fold (field_effect put set_color) (map (\<lambda>c. Output [c]) s) p = fold put s p" for s p by (induction s arbitrary: p) simp_all
  then show ?thesis by (cases fld) (simp_all add: singles_def)
qed

lemma fields_append:
  "vprintf (\<lambda>c fs. Inr (fs @ [Output [c]])) (\<lambda>x fs. fs @ [SetColor x]) f args fs0 = res_bind (print_fields f args) (\<lambda>fs. Inr (fs0 @ fs))"
proof -
  let ?put = "\<lambda>c fs. Inr (fs @ [Output [c]]) :: field list result" and ?col = "\<lambda>x fs. fs @ [SetColor x]"
  have "vprintf ?put ?col f args (fs0 @ fs1) = res_bind (vprintf ?put ?col f args fs1) (\<lambda>fs. Inr (fs0 @ fs))" for fs0 fs1
  proof (induction ?put ?col f args fs1 rule: vprintf.induct)
    case (2 c f args p)
    show ?case
    proof (cases "c = CHR ''%''")
      case False
      then show ?thesis using 2(1)[of "p @ [Output [c]]"] by simp
    next
      case True
      show ?thesis
      proof (cases "parse_field f args")
        case (Inr r)
        obtain f' args' fld where r: "r = (f', args', fld)" by (cases r)
        have e: "put_field ?put ?col fld q = Inr (q @ singles fld)" for q
          using fields_pr.put_field_effect[where p = q and fld = fld] by (simp add: effect_singles)
        show ?thesis using 2(2)[of _ f' _ args' fld "p @ singles fld"] True Inr r e by simp
      qed (simp add: True)
    qed
  qed simp
  from this[of fs0 "[]"] show ?thesis by (simp add: print_fields_def)
qed

context printer
begin

text \<open>A call on any printer of the contract puts the fields of the call.\<close>

lemma vprintf_fields:
  "inv p \<Longrightarrow> vprintf putc set_color f args p = res_bind (print_fields f args) (\<lambda>fs. Inr (fold (field_effect put set_color) fs p))
     \<and> (\<forall>fs. inv (fold (field_effect put set_color) fs p))"
proof -
  have keeps: "inv p \<Longrightarrow> inv (fold (field_effect put set_color) fs p)" for fs p
    using put_field_effect by (induction fs arbitrary: p) auto
  have "inv p \<Longrightarrow> vprintf putc set_color f args p = res_bind (print_fields f args) (\<lambda>fs. Inr (fold (field_effect put set_color) fs p))"
  proof (induction f arbitrary: args p rule: length_induct)
    case (1 f)
    show ?case
    proof (cases f)
      case Nil
      then show ?thesis by (simp add: print_fields_def)
    next
      case (Cons c g)
      show ?thesis
      proof (cases "c = CHR ''%''")
        case False
        have "print_fields f args = res_bind (print_fields g args) (\<lambda>fs. Inr ([Output [c]] @ fs))"
          using False Cons fields_append[of g args "[Output [c]]"] by (simp add: print_fields_def)
        moreover have "vprintf putc set_color g args (put c p) =
            res_bind (print_fields g args) (\<lambda>fs. Inr (fold (field_effect put set_color) fs (put c p)))"
          using 1 Cons put_inv by simp
        ultimately show ?thesis using False Cons putc_put[OF 1(2)] by (cases "print_fields g args") simp_all
      next
        case True
        show ?thesis
        proof (cases "parse_field g args")
          case (Inl e)
          then show ?thesis using True Cons by (simp add: print_fields_def)
        next
          case (Inr r)
          obtain f' args' fld where r: "r = (f', args', fld)" by (cases r)
          have e: "put_field (\<lambda>c fs. Inr (fs @ [Output [c]])) (\<lambda>x fs. fs @ [SetColor x]) fld [] = Inr (singles fld)"
            using fields_pr.put_field_effect[where p = "[]" and fld = fld] effect_singles[where fld = fld and fs = "[]"] by simp
          have "print_fields f args = res_bind (print_fields f' args') (\<lambda>fs. Inr (singles fld @ fs))"
            using True Cons Inr r e fields_append[of f' args' "singles fld"] by (simp add: print_fields_def)
          moreover have "length f' < length f" using parse_field_length[of g args f' args' fld] Inr r Cons by simp
          then have "vprintf putc set_color f' args' (field_effect put set_color fld p) =
              res_bind (print_fields f' args') (\<lambda>fs. Inr (fold (field_effect put set_color) fs (field_effect put set_color fld p)))"
            using 1 put_field_effect[OF 1(2)] by blast
          ultimately show ?thesis using True Cons Inr r put_field_effect[OF 1(2), where fld = fld]
            by (cases "print_fields f' args'") (simp_all add: fold_singles)
        qed
      qed
    qed
  qed
  then show "inv p \<Longrightarrow> ?thesis" using keeps by blast
qed

end

section \<open>Printing into a buffer\<close>

text \<open>The characters stored so far, the size of the buffer, and the characters counted.\<close>

record string_printer =
  sp_buf :: string
  sp_size :: nat
  sp_n :: nat

definition string_put :: "char \<Rightarrow> string_printer \<Rightarrow> string_printer" where
  "string_put c sp =
     (let sp = (if length (sp_buf sp) < sp_size sp then sp\<lparr>sp_buf := sp_buf sp @ [c]\<rparr> else sp)
      in sp\<lparr>sp_n := sp_n sp + 1\<rparr>)"

definition string_putc :: "char \<Rightarrow> string_printer \<Rightarrow> string_printer result" where
  "string_putc c sp = Inr (string_put c sp)"

definition string_color :: "u32 \<Rightarrow> string_printer \<Rightarrow> string_printer" where
  "string_color x sp = sp"

text \<open>The contents of the buffer and the count returned.\<close>

definition vsnprintf :: "nat \<Rightarrow> string \<Rightarrow> va_arg list \<Rightarrow> (string \<times> nat) result" where
  "vsnprintf size' f args =
     res_bind (vprintf string_putc string_color f args \<lparr>sp_buf = [], sp_size = size', sp_n = 0\<rparr>) (\<lambda>sp.
     Inr (if size' \<noteq> 0 \<and> length (sp_buf sp) < sp_size sp then sp_buf sp @ [NUL]
          else if size' \<noteq> 0 then (sp_buf sp)[sp_size sp - 1 := NUL]
          else sp_buf sp, sp_n sp))"

text \<open>\<open>snprintf\<close> keeps the count in an \<open>int\<close>.\<close>

definition snprintf :: "nat \<Rightarrow> string \<Rightarrow> va_arg list \<Rightarrow> (string \<times> int) result" where
  "snprintf size' f args = res_bind (vsnprintf size' f args) (\<lambda>(s, n). Inr (s, sint (of_nat n :: 32 word)))"

interpretation string_pr: printer string_putc string_color string_put "\<lambda>_. True"
  by unfold_locales (simp_all add: string_putc_def)

text \<open>The text of a call, colours left out.\<close>

definition field_text :: "field \<Rightarrow> string" where
  "field_text fld = (case fld of Output s \<Rightarrow> s | SetColor x \<Rightarrow> [])"

definition output_text :: "string \<Rightarrow> va_arg list \<Rightarrow> string result" where
  "output_text f args = res_bind (print_fields f args) (\<lambda>fs. Inr (concat (map field_text fs)))"

lemma string_put_all:
  "length (sp_buf sp) \<le> sp_size sp \<Longrightarrow>
     fold string_put s sp = sp\<lparr>sp_buf := take (sp_size sp) (sp_buf sp @ s), sp_n := sp_n sp + length s\<rparr>"
proof (induction s arbitrary: sp)
  case (Cons c s)
  show ?case
  proof (cases "length (sp_buf sp) < sp_size sp")
    case True
    then have p: "string_put c sp = sp\<lparr>sp_buf := sp_buf sp @ [c], sp_n := sp_n sp + 1\<rparr>" by (simp add: string_put_def)
    then show ?thesis using Cons.IH[of "string_put c sp"] True by simp
  next
    case False
    then have p: "string_put c sp = sp\<lparr>sp_n := sp_n sp + 1\<rparr>" by (simp add: string_put_def)
    then show ?thesis using Cons.IH[of "string_put c sp"] Cons.prems False by simp
  qed
qed simp

lemma string_fields:
  "length (sp_buf sp) \<le> sp_size sp \<Longrightarrow>
     fold (field_effect string_put string_color) fs sp =
       sp\<lparr>sp_buf := take (sp_size sp) (sp_buf sp @ concat (map field_text fs)), sp_n := sp_n sp + length (concat (map field_text fs))\<rparr>"
proof (induction fs arbitrary: sp)
  case (Cons fld fs)
  have e: "field_effect string_put string_color fld sp =
      sp\<lparr>sp_buf := take (sp_size sp) (sp_buf sp @ field_text fld), sp_n := sp_n sp + length (field_text fld)\<rparr>"
    using string_put_all[OF Cons.prems] Cons.prems by (cases fld) (simp_all add: field_text_def string_color_def)
  have t: "take n (take n (a @ b) @ c) = take n (a @ b @ c)" for n and a b c :: string
    by (cases "length (a @ b) \<le> n") (auto simp: take_append min_def)
  show ?case using Cons.IH[of "field_effect string_put string_color fld sp"] by (simp add: e t add.assoc del: take_append)
qed simp

text \<open>The buffer and the count of a call, from its text.\<close>

lemma vsnprintf_text:
  "vsnprintf size' f args = res_bind (output_text f args) (\<lambda>text.
     Inr (if size' = 0 then [] else take (size' - 1) text @ [NUL], length text))"
proof (cases "print_fields f args")
  case (Inl e)
  then show ?thesis using string_pr.vprintf_fields[where f = f and args = args] by (simp add: vsnprintf_def output_text_def)
next
  case (Inr fs)
  define whole where "whole = concat (map field_text fs)"
  have sp: "vprintf string_putc string_color f args \<lparr>sp_buf = [], sp_size = size', sp_n = 0\<rparr> =
      Inr \<lparr>sp_buf = take size' whole, sp_size = size', sp_n = length whole\<rparr>"
    using string_pr.vprintf_fields[where f = f and args = args] Inr string_fields[of "\<lparr>sp_buf = [], sp_size = size', sp_n = 0\<rparr>" fs]
    by (simp add: whole_def)
  have last: "(take size' whole)[size' - 1 := NUL] = take (size' - 1) whole @ [NUL]" if pos: "size' \<noteq> 0" and le: "size' \<le> length whole"
  proof -
    obtain k where k: "size' = Suc k" using pos by (cases size') auto
    then show ?thesis using le by (simp add: take_Suc_conv_app_nth list_update_append)
  qed
  show ?thesis using sp Inr last by (auto simp: vsnprintf_def output_text_def whole_def[symmetric])
qed

text \<open>
  C18. \<open>vsnprintf\<close> never writes past the buffer: with a size above zero it stores the first \<open>size - 1\<close> characters of the text, or all
  of it, and a terminating zero, and with size zero nothing; it returns the length of the whole text, stored or not. It
  fails only when formatting the text fails.
\<close>

theorem vsnprintf_stays_in_buffer:
  "vsnprintf size' f args = res_bind (output_text f args) (\<lambda>text.
     Inr (if size' = 0 then [] else take (size' - 1) text @ [NUL], length text))
   \<and> (\<forall>s n. vsnprintf size' f args = Inr (s, n) \<longrightarrow> length s \<le> size')"
  by (auto simp: vsnprintf_text res_bind_Inr)

theorem vsnprintf_stays_in_buffer_witness:
  "vsnprintf 3 ''abcd'' [] = Inr (''ab'' @ [NUL], 4)"
  using vsnprintf_stays_in_buffer[of 3 "''abcd''" "[]"] by (simp add: output_text_def print_fields_def field_text_def)

section \<open>The console\<close>

definition CONSOLE_COLUMNS :: int where "CONSOLE_COLUMNS = 80"
definition CONSOLE_ROWS :: int where "CONSOLE_ROWS = 25"
definition END_CPOS :: int where "END_CPOS = CONSOLE_ROWS * CONSOLE_COLUMNS"

text \<open>The console cells by offset, the cursor, and the printer's own position, mode and colour.\<close>

record console_state =
  cells :: "int \<Rightarrow> u16"
  cursorpos :: int

record console_printer = console_state +
  cell :: int
  scrolls :: bool
  colour :: u32

definition console_clear :: "console_state \<Rightarrow> console_state" where
  "console_clear st = st\<lparr>cells := (\<lambda>i. if 0 \<le> i \<and> i < CONSOLE_ROWS * CONSOLE_COLUMNS then 0x0720 else cells st i), cursorpos := 0\<rparr>"

definition new_console_printer :: "int \<Rightarrow> bool \<Rightarrow> u32 \<Rightarrow> console_state \<Rightarrow> console_printer" where
  "new_console_printer cpos scroll color st =
     \<lparr>cells = cells st, cursorpos = cursorpos st,
      cell = (if cpos < 0 then cursorpos st else if cpos \<le> CONSOLE_ROWS * CONSOLE_COLUMNS then cpos else 0),
      scrolls = scroll, colour = color\<rparr>"

definition console_scroll :: "console_printer \<Rightarrow> console_printer result" where
  "console_scroll cp =
     res_bind (assert_r (END_CPOS \<le> cell cp) ''cell_ >= console + END_CPOS'') (\<lambda>_.
     Inr (if scrolls cp
          then cp\<lparr>cells := (\<lambda>i. if 0 \<le> i \<and> i < END_CPOS - CONSOLE_COLUMNS then cells cp (i + CONSOLE_COLUMNS)
                            else if END_CPOS - CONSOLE_COLUMNS \<le> i \<and> i < END_CPOS then 0 else cells cp i),
                  cell := cell cp - CONSOLE_COLUMNS\<rparr>
          else cp\<lparr>cell := 0\<rparr>))"

text \<open>The scrolling loop ends: each round brings the position back by a row or to the beginning.\<close>

function scroll_up :: "console_printer \<Rightarrow> console_printer result" where
  "scroll_up cp =
     (if END_CPOS \<le> cell cp then (case console_scroll cp of Inl e \<Rightarrow> Inl e | Inr cp \<Rightarrow> scroll_up cp) else Inr cp)"
  by pat_completeness auto
termination
  by (relation "measure (\<lambda>cp. nat (cell cp + 1))")
    (auto simp: console_scroll_def END_CPOS_def CONSOLE_COLUMNS_def CONSOLE_ROWS_def split: if_splits)

declare scroll_up.simps [simp del]

text \<open>A write outside the console is undefined.\<close>

definition write_cell :: "u32 \<Rightarrow> console_printer \<Rightarrow> console_printer result" where
  "write_cell v cp =
     (if 0 \<le> cell cp \<and> cell cp < END_CPOS then Inr (cp\<lparr>cells := (cells cp)(cell cp := ucast v), cell := cell cp + 1\<rparr>)
      else Inl (UndefinedBehaviour ''console write''))"

primrec write_cells :: "nat \<Rightarrow> u32 \<Rightarrow> console_printer \<Rightarrow> console_printer result" where
  "write_cells 0 v cp = Inr cp"
| "write_cells (Suc n) v cp = res_bind (write_cell v cp) (write_cells n v)"

definition console_putc :: "char \<Rightarrow> console_printer \<Rightarrow> console_printer result" where
  "console_putc c cp =
     res_bind (scroll_up cp) (\<lambda>cp.
     if c = CHR 0x0A then write_cells (nat (80 - cell cp mod 80)) (32 OR colour cp) cp
     else write_cell (of_nat (uchar c) OR colour cp) cp)"

definition console_color :: "u32 \<Rightarrow> console_printer \<Rightarrow> console_printer" where
  "console_color x cp = cp\<lparr>colour := x\<rparr>"

definition move_cursor :: "console_printer \<Rightarrow> console_printer" where
  "move_cursor cp = cp\<lparr>cursorpos := cell cp\<rparr>"

definition console_result :: "int \<Rightarrow> console_printer result \<Rightarrow> (int \<times> console_state) result" where
  "console_result cpos r = res_bind r (\<lambda>cp.
     let cp = (if cpos < 0 then move_cursor cp else cp) in Inr (cell cp, console_state.truncate cp))"

definition console_puts :: "int \<Rightarrow> u32 \<Rightarrow> string \<Rightarrow> console_state \<Rightarrow> (int \<times> console_state) result" where
  "console_puts cpos color s st = console_result cpos (put_all console_putc s (new_console_printer cpos (cpos < 0) color st))"

definition console_vprintf :: "int \<Rightarrow> u32 \<Rightarrow> string \<Rightarrow> va_arg list \<Rightarrow> console_state \<Rightarrow> (int \<times> console_state) result" where
  "console_vprintf cpos color f args st =
     console_result cpos (vprintf console_putc console_color f args (new_console_printer cpos (cpos < 0) color st))"

subsection \<open>Output stays inside the console\<close>

definition console_put :: "char \<Rightarrow> console_printer \<Rightarrow> console_printer" where
  "console_put c cp = (case console_putc c cp of Inl e \<Rightarrow> cp | Inr cp \<Rightarrow> cp)"

definition console_inv :: "(int \<Rightarrow> u16) \<Rightarrow> int \<Rightarrow> console_printer \<Rightarrow> bool" where
  "console_inv cs cur cp \<longleftrightarrow> cursorpos cp = cur \<and> 0 \<le> cell cp \<and> cell cp \<le> END_CPOS \<and> (\<forall>i. i < 0 \<or> END_CPOS \<le> i \<longrightarrow> cells cp i = cs i)"

lemma end_cpos: "END_CPOS = 2000" "CONSOLE_COLUMNS = 80"
  by (simp_all add: END_CPOS_def CONSOLE_COLUMNS_def CONSOLE_ROWS_def)

lemma scroll_up_inv: "console_inv cs cur cp \<Longrightarrow> \<exists>cp'. scroll_up cp = Inr cp' \<and> console_inv cs cur cp' \<and> cell cp' < END_CPOS"
proof (cases "END_CPOS \<le> cell cp")
  case False
  then show "console_inv cs cur cp \<Longrightarrow> ?thesis" by (subst scroll_up.simps) simp
next
  case True
  assume i: "console_inv cs cur cp"
  then have c: "cell cp = 2000" using True by (simp add: console_inv_def end_cpos)
  then obtain cp' where s: "console_scroll cp = Inr cp'" "console_inv cs cur cp'" "cell cp' < END_CPOS"
    using i by (cases "scrolls cp") (auto simp: console_scroll_def console_inv_def end_cpos)
  then have "scroll_up cp' = Inr cp'" by (subst scroll_up.simps) simp
  then show ?thesis using s True by (subst scroll_up.simps) simp
qed

lemma write_cells_inv:
  "console_inv cs cur cp \<Longrightarrow> cell cp + int n \<le> END_CPOS \<Longrightarrow>
     \<exists>cp'. write_cells n v cp = Inr cp' \<and> console_inv cs cur cp'"
proof (induction n arbitrary: cp)
  case (Suc n)
  define cp1 where "cp1 = cp\<lparr>cells := (cells cp)(cell cp := ucast v), cell := cell cp + 1\<rparr>"
  have "write_cell v cp = Inr cp1" "console_inv cs cur cp1" "cell cp1 + int n \<le> END_CPOS"
    using Suc.prems by (auto simp: write_cell_def cp1_def console_inv_def)
  then show ?case using Suc.IH[of cp1] by simp
qed simp

lemma console_putc_inv: "console_inv cs cur cp \<Longrightarrow> \<exists>cp'. console_putc c cp = Inr cp' \<and> console_inv cs cur cp'"
proof -
  assume "console_inv cs cur cp"
  then obtain cp1 where s: "scroll_up cp = Inr cp1" "console_inv cs cur cp1" "cell cp1 < END_CPOS" using scroll_up_inv by blast
  have row: "cell cp1 + int (nat (80 - cell cp1 mod 80)) \<le> END_CPOS"
  proof -
    have "cell cp1 div 80 < 25" using s(3) by (simp add: end_cpos)
    then have "cell cp1 div 80 * 80 + 80 \<le> 2000" by simp
    moreover have "cell cp1 - cell cp1 mod 80 = cell cp1 div 80 * 80" by (simp add: minus_mod_eq_div_mult)
    moreover have "int (nat (80 - cell cp1 mod 80)) = 80 - cell cp1 mod 80" by (simp add: less_imp_le)
    ultimately show ?thesis unfolding end_cpos by linarith
  qed
  show ?thesis
  proof (cases "c = CHR 0x0A")
    case True
    then show ?thesis using s write_cells_inv[OF s(2) row] by (simp add: console_putc_def)
  next
    case False
    then show ?thesis using s write_cells_inv[OF s(2), of 1 "of_nat (uchar c) OR colour cp1"] by (simp add: console_putc_def res_bind_Inr)
  qed
qed

interpretation console_pr: printer console_putc console_color console_put "console_inv cs cur" for cs cur
proof
  fix p c x assume i: "console_inv cs cur p"
  then show "console_putc c p = Inr (console_put c p)" "console_inv cs cur (console_put c p)"
    using console_putc_inv[OF i, of c] by (auto simp: console_put_def)
  show "console_inv cs cur (console_color x p)" using i by (simp add: console_inv_def console_color_def)
qed

text \<open>
  C19. Output to the console, at a position or at the cursor, writes only the 2000 cells of the console, leaves the position and the cursor inside
  or just behind it, and fails only when formatting fails, as long as the cursor was inside or just behind it before;
  lines wrap, and text that passes the end scrolls the console or begins again at the top.
\<close>

theorem console_output_stays_in_console:
  assumes "0 \<le> cursorpos st" "cursorpos st \<le> END_CPOS"
  shows "case print_fields f args of
      Inl e \<Rightarrow> console_vprintf cpos color f args st = Inl e
    | Inr fs \<Rightarrow> \<exists>pos st'. console_vprintf cpos color f args st = Inr (pos, st') \<and> 0 \<le> pos \<and> pos \<le> END_CPOS \<and>
        0 \<le> cursorpos st' \<and> cursorpos st' \<le> END_CPOS \<and> (\<forall>i. i < 0 \<or> END_CPOS \<le> i \<longrightarrow> cells st' i = cells st i)"
proof -
  define cp where "cp = new_console_printer cpos (cpos < 0) color st"
  have i: "console_inv (cells st) (cursorpos st) cp"
    using assms by (auto simp: cp_def console_inv_def new_console_printer_def end_cpos CONSOLE_ROWS_def)
  note v = console_pr.vprintf_fields[OF i, where f = f and args = args]
  show ?thesis
  proof (cases "print_fields f args")
    case (Inl e)
    then show ?thesis using v by (simp add: console_vprintf_def console_result_def cp_def[symmetric])
  next
    case (Inr fs)
    define cp' where "cp' = fold (field_effect console_put console_color) fs cp"
    have "vprintf console_putc console_color f args cp = Inr cp'" "console_inv (cells st) (cursorpos st) cp'"
      using v Inr by (simp_all add: cp'_def)
    then show ?thesis using assms Inr
      by (auto simp: console_vprintf_def console_result_def cp_def[symmetric] console_inv_def move_cursor_def console_state.defs Let_def)
  qed
qed

theorem console_output_stays_in_console_witness:
  "\<exists>pos st'. console_vprintf 1999 0x700 ''ab'' [] \<lparr>cells = (\<lambda>_. 0), cursorpos = 0\<rparr> = Inr (pos, st') \<and> pos \<le> END_CPOS \<and> cells st' 2000 = 0"
  using console_output_stays_in_console[where st = "\<lparr>cells = (\<lambda>_. 0), cursorpos = 0\<rparr>" and f = "''ab''" and args = "[]" and cpos = 1999 and color = "0x700"]
  by (simp add: print_fields_def end_cpos) blast

section \<open>Printed numbers read back\<close>

definition digits_ok :: "int \<Rightarrow> string \<Rightarrow> bool" where
  "digits_ok base digits \<longleftrightarrow> 2 \<le> base \<and> list_all (\<lambda>i. digit_of base (digits ! i) = Some i) [0..<nat base]"

lemma number_value_append: "number_value base v (ds @ [c]) = digit_value base (number_value base v ds) c"
  by (simp add: number_value_def)

lemma print_digits_value:
  assumes "digits_ok base digits"
  shows "v < nat base ^ pos \<Longrightarrow> 0 < pos \<Longrightarrow>
    \<exists>ds. print_digits pos (nat base) digits sep k None v out = ds @ out \<and> ds \<noteq> [] \<and> number_value base 0 ds = v \<and>
      (\<forall>c \<in> set ds. c \<in> (\<lambda>i. digits ! i) ` {..<nat base})"
proof (induction pos arbitrary: v out)
  case (Suc pos)
  define b where "b = nat base"
  have b: "2 \<le> b" "base = int b" using assms by (auto simp: digits_ok_def b_def)
  define c where "c = digits ! (v mod b)"
  have m: "v mod b < b" using b(1) by simp
  then have c: "digit_of base c = Some (v mod b)" "c \<in> (\<lambda>i. digits ! i) ` {..<b}" using assms by (auto simp: digits_ok_def list_all_iff c_def b_def)
  show ?case
  proof (cases "v div b \<noteq> 0 \<and> pos \<noteq> 0")
    case True
    have "v div b < b ^ pos" using Suc.prems(1) b(1) by (simp add: b_def[symmetric] div_less_iff_less_mult mult.commute)
    then obtain ds where ds: "print_digits pos b digits sep k None (v div b) (c # out) = ds @ c # out" "ds \<noteq> []" "number_value base 0 ds = v div b"
      "\<forall>c \<in> set ds. c \<in> (\<lambda>i. digits ! i) ` {..<b}" using Suc.IH[of "v div b" "c # out"] True by (auto simp: b_def)
    have "number_value base 0 (ds @ [c]) = v" using ds(3) c(1) b(2) by (simp add: number_value_append digit_value_def div_mult_mod_eq)
    then show ?thesis using ds True c(2) by (intro exI[of _ "ds @ [c]"]) (auto simp: b_def[symmetric] c_def)
  next
    case False
    have "v div b = 0"
    proof (cases "pos = 0")
      case True
      then show ?thesis using Suc.prems(1) by (simp add: b_def)
    qed (use False in simp)
    then have "v mod b = v" using b(1) by (simp add: div_eq_0_iff)
    then show ?thesis using False c b(2) by (intro exI[of _ "[c]"]) (auto simp: b_def[symmetric] c_def digit_value_def)
  qed
qed simp

lemma digits_ok_tables: "digits_ok 10 upper_digits" "digits_ok 16 lower_digits"
  by code_simp+

lemma print_number_value:
  assumes "\<not> has_flag flags FLAG_THOUSANDS" "base = 10 \<or> base = - 16"
  shows "print_number NUMBUFSIZ v base flags \<noteq> [] \<and> number_value \<bar>base\<bar> 0 (print_number NUMBUFSIZ v base flags) = unat v \<and>
    (\<forall>c \<in> set (print_number NUMBUFSIZ v base flags). is_digit \<bar>base\<bar> c \<and> c \<in> set (lower_digits @ upper_digits))"
proof -
  define digits where "digits = (if base < 0 then lower_digits else upper_digits)"
  have ok: "digits_ok \<bar>base\<bar> digits" using assms(2) digits_ok_tables by (auto simp: digits_def)
  have "unat v < 2 ^ 64" by (rule unat_u64)
  also have "(2 :: nat) ^ 64 \<le> nat \<bar>base\<bar> ^ 31" using assms(2) by auto
  finally have lt: "unat v < nat \<bar>base\<bar> ^ 31" .
  obtain ds where ds: "print_digits 31 (nat \<bar>base\<bar>) digits (if nat \<bar>base\<bar> = 10 then CHR '','' else CHR 0x27) (if nat \<bar>base\<bar> = 10 then 3 else 4) None (unat v) [] = ds @ []"
    "ds \<noteq> []" "number_value \<bar>base\<bar> 0 ds = unat v" "\<forall>c \<in> set ds. c \<in> (\<lambda>i. digits ! i) ` {..<nat \<bar>base\<bar>}"
    using print_digits_value[OF ok lt zero_less_numeral, where out = "[]"] by metis
  have p: "print_number NUMBUFSIZ v base flags = ds"
    using ds(1) assms(1) unfolding print_number_def Let_def NUMBUFSIZ_def digits_def by (simp del: print_digits.simps)
  have "is_digit \<bar>base\<bar> c \<and> c \<in> set (lower_digits @ upper_digits)" if c: "c \<in> set ds" for c
  proof -
    obtain i where i: "i < nat \<bar>base\<bar>" "c = digits ! i" using ds(4) c by auto
    have "length digits = 16" "nat \<bar>base\<bar> \<le> 16" using assms(2) by (auto simp: digits_def lower_digits_def upper_digits_def)
    then have "c \<in> set digits" using i by simp
    moreover have "digit_of \<bar>base\<bar> c = Some i" using ok i by (simp add: digits_ok_def list_all_iff)
    ultimately show ?thesis by (auto simp: is_digit_def digits_def split: if_splits)
  qed
  then show ?thesis using ds(2,3) p by simp
qed

lemma digit_chars: "c \<in> set (lower_digits @ upper_digits) \<Longrightarrow> \<not> c_isspace c \<and> c \<noteq> CHR ''-'' \<and> c \<noteq> CHR ''+'' \<and> c \<noteq> CHR ''x'' \<and> c \<noteq> CHR ''X''"
  by (auto simp: lower_digits_def upper_digits_def c_isspace_def uchar_def)

text \<open>Digits alone are read to the end.\<close>

lemma read_digits:
  assumes "s \<noteq> []" "\<forall>c \<in> set s. is_digit base c \<and> c \<in> set (lower_digits @ upper_digits)" "base = 10 \<or> base = 16"
  shows "dropWhile c_isspace s = s" "skip_sign s = (False, s)" "strtol_fix_base s base = (s, base)"
    "takeWhile (is_digit base) s = s" "dropWhile (is_digit base) s = []"
proof -
  obtain c r where s: "s = c # r" using assms(1) by (cases s) auto
  have c: "\<not> c_isspace c" "c \<noteq> CHR ''-''" "c \<noteq> CHR ''+''" using digit_chars[of c] assms(2) s by auto
  show "dropWhile c_isspace s = s" "skip_sign s = (False, s)" using c s by (simp_all add: skip_sign_def deref_def)
  have "deref r \<noteq> CHR ''x'' \<and> deref r \<noteq> CHR ''X''"
    using digit_chars assms(2) s by (cases r) (auto simp: deref_def NUL_def)
  then show "strtol_fix_base s base = (s, base)" using assms(3) s by (auto simp: strtol_fix_base_def Let_def)
  show "takeWhile (is_digit base) s = s" "dropWhile (is_digit base) s = []" using assms(2) by auto
qed

lemma from_chars_printed:
  assumes "s \<noteq> []" "\<forall>c \<in> set s. is_digit base c \<and> c \<in> set (lower_digits @ upper_digits)" "base = 10 \<or> base = 16" "number_value base 0 s = unat x"
  shows "from_chars_ul s base = ([], 0, Some x)"
proof -
  have b: "1 \<le> base" "base \<le> 36" using assms(3) by auto
  note r = read_digits[OF assms(1-3)]
  have "\<not> 2 ^ 64 \<le> unat x" using unat_u64[of x] by simp
  then show ?thesis using from_chars_value[OF b, of s] r(4,5) assms(1,4) by (simp add: Let_def)
qed

lemma number_output:
  "output_text ''%lu'' [VLong v] = Inr (print_number NUMBUFSIZ v 10 FLAG_NUMERIC)"
  "output_text ''%lx'' [VLong v] = Inr (print_number NUMBUFSIZ v (- 16) FLAG_NUMERIC)"
proof -
  have flags: "flag_index (CHR ''l'') = None" by (simp add: flag_index_def flag_chars_def NUL_def)
  have len: "strlen s = length s" for s by (induction s) simp_all
  have lay: "layout [] s FLAG_NUMERIC (- 1) (- 1) = s" for s
    by (simp add: layout_def Let_def has_flag_def FLAG_NUMERIC_def FLAG_ZERO_def FLAG_LEFTJUSTIFY_def len)
  have pre: "number_prefix v b FLAG_NUMERIC = []" for b
    by (simp add: number_prefix_def has_flag_def FLAG_NUMERIC_def FLAG_SIGNED_def FLAG_ALT_def)
  have f: "parse_field ''lu'' [VLong v] = Inr ([], [], Output (print_number NUMBUFSIZ v 10 FLAG_NUMERIC))"
    "parse_field ''lx'' [VLong v] = Inr ([], [], Output (print_number NUMBUFSIZ v (- 16) FLAG_NUMERIC))"
    using lay pre by (simp_all add: parse_field_def flags parse_width_def parse_precision_def parse_length_def deref_def dec_digit_def
        uchar_def convert_def convert_unsigned_def)
  have put: "put_field (\<lambda>c fs. Inr (fs @ [Output [c]])) (\<lambda>x fs. fs @ [SetColor x]) (Output s) [] = Inr (singles (Output s))" for s
    using fields_pr.put_field_effect[where p = "[]" and fld = "Output s"] effect_singles[where fld = "Output s" and fs = "[]"] by simp
  have cat: "concat (map field_text (singles (Output s))) = s" for s by (induction s) (simp_all add: singles_def field_text_def)
  show "output_text ''%lu'' [VLong v] = Inr (print_number NUMBUFSIZ v 10 FLAG_NUMERIC)"
    "output_text ''%lx'' [VLong v] = Inr (print_number NUMBUFSIZ v (- 16) FLAG_NUMERIC)"
    by (simp_all add: output_text_def print_fields_def f put cat)
qed

text \<open>The number of digits printed is bounded by any power of the base above the value.\<close>

lemma print_digits_length:
  "2 \<le> b \<Longrightarrow> v < b ^ k \<Longrightarrow> 0 < k \<Longrightarrow> length (print_digits pos b digits sep j None v out) \<le> k + length out"
proof (induction pos arbitrary: v k out)
  case (Suc pos)
  obtain m where k: "k = Suc m" using Suc.prems(3) by (cases k) auto
  show ?case
  proof (cases "v div b \<noteq> 0 \<and> pos \<noteq> 0")
    case True
    have lt: "v div b < b ^ m" using Suc.prems(1,2) by (simp add: k div_less_iff_less_mult mult.commute)
    then have "0 < m" using True by (cases m) auto
    then show ?thesis using Suc.IH[OF Suc.prems(1) lt, of "(digits ! (v mod b)) # out"] True k by simp
  qed (use k in auto)
qed simp

lemma print_number_length:
  "length (print_number NUMBUFSIZ v 10 FLAG_NUMERIC) \<le> 20" "length (print_number NUMBUFSIZ v (- 16) FLAG_NUMERIC) \<le> 16"
proof -
  have nt: "\<not> has_flag FLAG_NUMERIC FLAG_THOUSANDS" by (simp add: has_flag_def FLAG_NUMERIC_def FLAG_THOUSANDS_def)
  have "unat v < 10 ^ 20" using unat_u64[of v] by simp
  then show "length (print_number NUMBUFSIZ v 10 FLAG_NUMERIC) \<le> 20"
    using print_digits_length[where b = 10 and k = 20 and v = "unat v" and out = "[]"] nt by (simp add: print_number_def Let_def del: print_digits.simps)
  have "unat v < 16 ^ 16" using unat_u64[of v] by simp
  then show "length (print_number NUMBUFSIZ v (- 16) FLAG_NUMERIC) \<le> 16"
    using print_digits_length[where b = 16 and k = 16 and v = "unat v" and out = "[]"] nt by (simp add: print_number_def Let_def del: print_digits.simps)
qed

text \<open>
  C25. \<open>vsnprintf\<close> of \<open>%lu\<close> into a buffer of at least 21 bytes, and of \<open>%lx\<close> into one of at least 17, stores every 64-bit value
  whole: a terminated text whose length is the count returned, and which \<open>strtoul\<close> in base 10 or 16 reads to its end and
  turns back into the value printed.
\<close>

theorem printed_numbers_read_back:
  "(21 \<le> size' \<longrightarrow> (\<exists>s. vsnprintf size' ''%lu'' [VLong v] = Inr (s @ [NUL], length s) \<and> NUL \<notin> set s \<and> strtoul s 10 = (v, []))) \<and>
   (17 \<le> size' \<longrightarrow> (\<exists>t. vsnprintf size' ''%lx'' [VLong v] = Inr (t @ [NUL], length t) \<and> NUL \<notin> set t \<and> strtoul t 16 = (v, [])))"
proof -
  define s t where "s = print_number NUMBUFSIZ v 10 FLAG_NUMERIC" and "t = print_number NUMBUFSIZ v (- 16) FLAG_NUMERIC"
  have nt: "\<not> has_flag FLAG_NUMERIC FLAG_THOUSANDS" by (simp add: has_flag_def FLAG_NUMERIC_def FLAG_THOUSANDS_def)
  have s: "s \<noteq> []" "\<forall>c \<in> set s. is_digit 10 c \<and> c \<in> set (lower_digits @ upper_digits)" "number_value 10 0 s = unat v"
    and t: "t \<noteq> []" "\<forall>c \<in> set t. is_digit 16 c \<and> c \<in> set (lower_digits @ upper_digits)" "number_value 16 0 t = unat v"
    using print_number_value[OF nt, of 10 v] print_number_value[OF nt, of "- 16" v] by (auto simp: s_def t_def)
  have read: "strtoul r base = (v, [])"
    if "r \<noteq> []" "\<forall>c \<in> set r. is_digit base c \<and> c \<in> set (lower_digits @ upper_digits)" "number_value base 0 r = unat v" "base = 10 \<or> base = 16" for r base
    using read_digits[OF that(1,2,4)] from_chars_printed[OF that(1,2,4,3)] by (simp add: strtoul_def E_RANGE_def E_INVAL_def)
  have nul: "NUL \<notin> set (lower_digits @ upper_digits)" by (simp add: lower_digits_def upper_digits_def NUL_def)
  have "length s \<le> 20" "length t \<le> 16" using print_number_length by (simp_all add: s_def t_def)
  then have "vsnprintf size' ''%lu'' [VLong v] = Inr (s @ [NUL], length s)" if "21 \<le> size'"
    using that by (simp add: vsnprintf_text number_output s_def)
  moreover have "vsnprintf size' ''%lx'' [VLong v] = Inr (t @ [NUL], length t)" if "17 \<le> size'"
    using that \<open>length t \<le> 16\<close> by (simp add: vsnprintf_text number_output t_def)
  ultimately show ?thesis using read[OF s] read[OF t] s(2) t(2) nul by blast
qed

theorem printed_numbers_read_back_witness:
  "\<exists>s. vsnprintf 21 ''%lu'' [VLong (- 1)] = Inr (s @ [NUL], length s) \<and> strtoul s 10 = (- 1, [])"
  using printed_numbers_read_back[of 21 "- 1"] by auto

end
