(* ===== verification/Weensy_Memviewer.thy ===== *)
theory Weensy_Memviewer
  imports Weensy_Proc Weensy_Printf
begin

text \<open>
  The memory viewer of \<open>weensyos/k-memviewer.cc\<close>: \<open>memusage\<close> walks all page tables and marks each physical page
  with what it is used for, looks for errors, and draws the pages. The marks live in a page of their own (\<open>v_\<close>);
  the model keeps them apart from the memory, which the viewer only reads. The console is the one of
  \<open>Weensy_Printf\<close>; what goes to the log is left out.
\<close>

section \<open>Marks\<close>

text \<open>\<open>mu_v\<close> is the address of the page with the marks, 0 before the first use.\<close>

record memusage =
  mu_v :: u64
  mu_flags :: "nat \<Rightarrow> u32"
  mu_nerrors :: u32
  mu_separate :: bool
  mu_error_sympos :: int

definition maxpa :: u64 where "maxpa = 1024 * PAGESIZE"
definition max_view_pa :: u64 where "max_view_pa = 512 * PAGESIZE"
definition max_view_va :: u64 where "max_view_va = 768 * PAGESIZE"
definition f_kernel :: u32 where "f_kernel = 1"
definition f_user :: u32 where "f_user = 2"
definition f_nonidentity :: u32 where "f_nonidentity = 4"

text \<open>The shift by 31 loses the only bit.\<close>

definition f_process :: "int \<Rightarrow> u32" where
  "f_process n = (if 29 \<le> n then push_bit 31 4 else if 1 \<le> n then push_bit (nat n) 4 else 0)"

definition new_memusage :: memusage where
  "new_memusage = \<lparr>mu_v = 0, mu_flags = (\<lambda>_. 0), mu_nerrors = 0, mu_separate = False, mu_error_sympos = - 1\<rparr>"

definition sympos :: "int \<Rightarrow> int \<Rightarrow> int" where
  "sympos initial_row pn = (initial_row + pn div 64) * 80 + (12 + pn mod 64)"

definition mark :: "u64 \<Rightarrow> u32 \<Rightarrow> (nat \<Rightarrow> u32) \<Rightarrow> nat \<Rightarrow> u32" where
  "mark pa flags v = (if pa < maxpa then v(page_of pa := v (page_of pa) OR flags) else v)"

definition marked_pid :: "u32 \<Rightarrow> nat" where
  "marked_pid v = lsb (ucast (drop_bit 3 v))"

section \<open>Refreshing the marks\<close>

definition VA_LOWEND :: u64 where "VA_LOWEND = 0x0000800000000000"

text \<open>
  The address of a \<open>ptiter\<close> that is done shifts by 64, which C++ leaves undefined. The shift instruction takes
  its count modulo 64, which makes the mask empty.
\<close>

definition viewed_va :: "ptiter \<Rightarrow> u64" where
  "viewed_va it = (if pt_done it then pt_va it else pt_iter_va it)"

partial_function (option) mark_kernel_tables :: "kmem \<Rightarrow> ptiter \<Rightarrow> (nat \<Rightarrow> u32) \<Rightarrow> (nat \<Rightarrow> u32) option" where
  "mark_kernel_tables st it v =
     (if pt_done it then Some v
      else case pt_next st it of None \<Rightarrow> None
           | Some it' \<Rightarrow> mark_kernel_tables st it' (mark (pt_pa st it) f_kernel v))"

partial_function (option) mark_process_tables :: "kmem \<Rightarrow> u32 \<Rightarrow> ptiter \<Rightarrow> (nat \<Rightarrow> u32) \<Rightarrow> (nat \<Rightarrow> u32) option" where
  "mark_process_tables st pidflag it v =
     (if viewed_va it < VA_LOWEND then
        case pt_next st it of None \<Rightarrow> None
        | Some it' \<Rightarrow> mark_process_tables st pidflag it' (mark (pt_pa st it) (f_kernel OR pidflag) v)
      else Some v)"

text \<open>
  The loops over the low addresses: where \<open>f\<close> gives flags, the page is marked and the iterator moves to the
  next page, else it moves past the range.
\<close>

partial_function (option) mark_pages :: "(vmiter \<Rightarrow> u32 option) \<Rightarrow> kmem \<Rightarrow> vmiter \<Rightarrow> (nat \<Rightarrow> u32) \<Rightarrow> (nat \<Rightarrow> u32) result option" where
  "mark_pages f st it v =
     (if it_va it < VA_LOWEND then
        case (case f it of None \<Rightarrow> vm_next_range st it | Some flags \<Rightarrow> vm_next st it) of
          Inl e \<Rightarrow> Some (Inl e)
        | Inr it' \<Rightarrow> mark_pages f st it' (case f it of None \<Rightarrow> v | Some flags \<Rightarrow> mark (vm_pa st it) flags v)
      else Some (Inr v))"

definition process_flags :: "kmem \<Rightarrow> u32 \<Rightarrow> vmiter \<Rightarrow> u32 option" where
  "process_flags st pidflag it =
     (if vm_user st it then Some (if it_va it = vm_pa st it then f_user OR pidflag else f_user OR f_nonidentity OR pidflag)
      else None)"

definition owner_flags :: "kmem \<Rightarrow> vmiter \<Rightarrow> u32 option" where
  "owner_flags st it =
     (if vm_user st it \<and> vm_pa st it < MEMSIZE_PHYSICAL \<and> page_used (refcount st (page_of (vm_pa st it))) then
        let owner = ucast ((vm_pa st it - PROC_START_ADDR) div 0x40000) :: u32
        in Some (f_user OR f_process (sint (owner + 1)))
      else None)"

definition loop_result :: "'a option \<Rightarrow> 'a result" where
  "loop_result r = (case r of None \<Rightarrow> Inl (NeverReturns ''memusage'') | Some x \<Rightarrow> Inr x)"

definition mark_process :: "u64 \<Rightarrow> kmem \<Rightarrow> nat \<Rightarrow> proc \<Rightarrow> (nat \<Rightarrow> u32) \<times> bool \<Rightarrow> ((nat \<Rightarrow> u32) \<times> bool) result" where
  "mark_process kpt st n p s =
     (if state p \<noteq> P_FREE \<and> pagetable p \<noteq> 0 \<and> pagetable p \<noteq> kpt then
        let pidflag = f_process (int n) in
        res_bind (loop_result (new_ptiter st (pagetable p))) (\<lambda>it.
        res_bind (loop_result (mark_process_tables st pidflag it (fst s))) (\<lambda>v.
        let v = mark (pagetable p) (f_kernel OR pidflag) v in
        res_bind (new_vmiter st (pagetable p) 0) (\<lambda>it.
        res_bind (loop_result (mark_pages (process_flags st pidflag) st it v)) (\<lambda>r.
        res_bind r (\<lambda>v. Inr (v, True))))))
      else Inr s)"

primrec mark_processes :: "u64 \<Rightarrow> kmem \<Rightarrow> (nat \<Rightarrow> proc) \<Rightarrow> nat list \<Rightarrow> (nat \<Rightarrow> u32) \<times> bool \<Rightarrow> ((nat \<Rightarrow> u32) \<times> bool) result" where
  "mark_processes kpt st ps [] s = Inr s"
| "mark_processes kpt st ps (n # ns) s = res_bind (mark_process kpt st n (ps n) s) (mark_processes kpt st ps ns)"

definition refresh :: "link \<Rightarrow> (nat \<Rightarrow> proc) \<Rightarrow> memusage \<Rightarrow> kmem \<Rightarrow> (memusage \<times> kmem) result" where
  "refresh lk ps mu st =
     (case (if mu_v mu = 0 then kalloc (kernel_end lk) PAGESIZE st else (mu_v mu, st)) of (v_, st) \<Rightarrow>
      res_bind (assert_r (v_ \<noteq> 0) ''v_ != nullptr'') (\<lambda>_.
      res_bind (loop_result (new_ptiter st (kernel_pagetable lk))) (\<lambda>it.
      res_bind (loop_result (mark_kernel_tables st it (\<lambda>_. 0))) (\<lambda>v.
      let v = mark v_ f_kernel (mark (kernel_pagetable lk) f_kernel v) in
      res_bind (mark_processes (kernel_pagetable lk) st ps [1..<PID_MAX] (v, False)) (\<lambda>(v, separate_tables).
      res_bind (if separate_tables then Inr v
                else res_bind (new_vmiter st (kernel_pagetable lk) 0) (\<lambda>it.
                     res_bind (loop_result (mark_pages (owner_flags st) st it v)) (\<lambda>r. r))) (\<lambda>v.
      Inr (mu\<lparr>mu_v := v_, mu_flags := v, mu_separate := separate_tables\<rparr>, st)))))))"

section \<open>Symbols\<close>

definition COLOR_ERROR :: u32 where "COLOR_ERROR = 0xC000"

definition coloured :: "char \<Rightarrow> u16 \<Rightarrow> u16" where
  "coloured c color = of_nat (uchar c) OR color"

text \<open>The pages of the console below \<open>END_CPOS\<close>; a write elsewhere is undefined.\<close>

definition put_cell :: "int \<Rightarrow> u16 \<Rightarrow> console_state \<Rightarrow> console_state result" where
  "put_cell pos ch con =
     (if 0 \<le> pos \<and> pos < END_CPOS then Inr (con\<lparr>cells := (cells con)(pos := ch)\<rparr>) else Inl (UndefinedBehaviour ''console write''))"

definition page_error :: "u64 \<Rightarrow> string \<Rightarrow> int \<Rightarrow> memusage \<times> console_state \<Rightarrow> (memusage \<times> console_state) result" where
  "page_error pa desc n s =
     (case s of (mu, con) \<Rightarrow>
      res_bind (if 0 \<le> mu_error_sympos mu \<and> mu_error_sympos mu < END_CPOS
                then put_cell (mu_error_sympos mu) (coloured (CHR ''*'') 0xF400) con else Inr con) (\<lambda>con.
      let fmt = (if 0 \<le> n then ''PAGE TABLE ERROR: %lx: %s (pid %d)'' @ [CHR 0x0A] else ''PAGE TABLE ERROR: %lx: %s'' @ [CHR 0x0A]) in
      res_bind (console_vprintf (22 * 80) COLOR_ERROR fmt [VLong pa, VStr desc, VInt (word_of_int n)] con) (\<lambda>(_, con).
      Inr (if mu_nerrors mu < 0xFFFFFFFF then mu\<lparr>mu_nerrors := mu_nerrors mu + 1\<rparr> else mu, con))))"

definition process_colors :: "u16 list" where "process_colors = [0xF, 0xC, 0xA, 0x9, 0xE]"
definition process_names :: string where "process_names = ''K123456789ABCDEFGHIJKLMNOPQRST??'' @ [NUL]"

text \<open>The symbol of a page that some process or the kernel has a mark on.\<close>

definition process_symbol :: "kmem \<Rightarrow> u64 \<Rightarrow> u32 \<Rightarrow> memusage \<times> console_state \<Rightarrow> (u16 \<times> memusage \<times> console_state) result" where
  "process_symbol st pa v s =
     (let n = marked_pid v;
          ch = push_bit 8 (process_colors ! (n mod 5));
          ch = (if v AND f_kernel \<noteq> 0 then 0x4000 OR (if ch = 0x0C00 then 0x0F00 else ch) else ch)
      in res_bind (if \<not> page_used (refcount st (page_of pa)) \<and> v AND f_nonidentity \<noteq> 0
                   then res_bind (page_error pa ''freed page mapped for user'' (int n) s) (\<lambda>s. Inr (ch OR 0xF000, s))
                   else Inr (ch, s)) (\<lambda>(ch, s).
         if f_process (int n) OR f_kernel OR f_user OR f_nonidentity < v then Inr (coloured (CHR ''S'') 0x0F00, s)
         else res_bind (index_r process_names n ''names'') (\<lambda>c. Inr (coloured c ch, s))))"

definition symbol_at :: "link \<Rightarrow> kmem \<Rightarrow> u64 \<Rightarrow> memusage \<times> console_state \<Rightarrow> (u16 \<times> memusage \<times> console_state) result" where
  "symbol_at lk st pa s =
     (let is_reserved = reserved_physical_address pa;
          is_kernel = (\<not> is_reserved \<and> \<not> allocatable_physical_address (kernel_end lk) pa);
          pn = unat (ucast (pa div PAGESIZE) :: u32)
      in res_bind (if pn < NPAGES \<and> \<not> page_valid (refcount st pn)
                   then page_error pa ''invalid reference count'' (- 1) s else Inr s) (\<lambda>s.
      if maxpa \<le> pa then
        Inr (if is_kernel then coloured (CHR ''K'') 0x4000
             else if is_reserved then coloured (CHR ''?'') 0x4000
             else coloured (CHR ''?'') 0xF000, s)
      else
        let v = mu_flags (fst s) pn; n = marked_pid v; separate_tables = mu_separate (fst s) in
        if CONSOLE_ADDR \<le> pa \<and> pa < CONSOLE_ADDR + PAGESIZE then Inr (coloured (CHR ''C'') 0x0700, s)
        else if is_reserved \<and> n \<noteq> 0 then
          res_bind (page_error pa (if pa = 0 then ''nullptr physical page mapped for user''
                                   else ''reserved physical page mapped for user'') (int n) s) (\<lambda>s.
          Inr (coloured (CHR ''R'') 0x0C00, s))
        else if is_reserved then Inr (coloured (CHR ''R'') 0x0700, s)
        else if is_kernel \<and> n \<noteq> 0 \<and> separate_tables then
          res_bind (page_error pa ''kernel data page mapped for user'' (int n) s) (\<lambda>s.
          Inr (coloured (CHR ''K'') 0xCD00, s))
        else if is_kernel then Inr (coloured (CHR ''K'') 0x0D00, s)
        else if MEMSIZE_PHYSICAL \<le> pa then Inr (coloured (CHR '' '') 0x0700, s)
        else
          let vx = v AND NOT f_nonidentity in
          if vx = 0 then
            Inr (if page_used (refcount st pn) then coloured (CHR ''L'') 0x0300 else coloured (CHR ''.'') 0x0700, s)
          else if vx = f_kernel then Inr (coloured (CHR ''K'') 0x0D00, s)
          else if vx = f_user then Inr (coloured (CHR ''.'') 0x0700, s)
          else if v AND f_kernel \<noteq> 0 \<and> v AND f_user \<noteq> 0 \<and> separate_tables then
            res_bind (page_error pa ''kernel allocated page mapped for user'' (int n) s) (\<lambda>s.
            Inr (coloured (CHR ''*'') 0xF400, s))
          else process_symbol st pa v s))"

section \<open>Drawing\<close>

definition print_at :: "int \<Rightarrow> u32 \<Rightarrow> string \<Rightarrow> va_arg list \<Rightarrow> memusage \<times> console_state \<Rightarrow> (memusage \<times> console_state) result" where
  "print_at cpos color fmt args s =
     res_bind (console_vprintf cpos color fmt args (snd s)) (\<lambda>(_, con). Inr (fst s, con))"

definition draw :: "int \<Rightarrow> u16 \<Rightarrow> memusage \<times> console_state \<Rightarrow> (memusage \<times> console_state) result" where
  "draw pos ch s = res_bind (put_cell pos ch (snd s)) (\<lambda>con. Inr (fst s, con))"

text \<open>Foreground and background of a page the process can use are exchanged.\<close>

definition switch_colors :: "u16 \<Rightarrow> u16" where
  "switch_colors ch =
     (if ch = 0x0F00 OR of_nat (uchar (CHR ''S'')) then ch XOR 0xFE00
      else let z = (ch AND 0x0F00) XOR drop_bit 4 (ch AND 0xF000) in ch XOR (z OR push_bit 4 z))"

text \<open>
  The address is passed with 64 bits where the format reads 32; the calling convention passes the low bits.
\<close>

primrec view_virtual :: "nat \<Rightarrow> link \<Rightarrow> kmem \<Rightarrow> vmiter \<Rightarrow> memusage \<times> console_state \<Rightarrow> (memusage \<times> console_state) result" where
  "view_virtual 0 lk st it s = Inl (NeverReturns ''console_memviewer_virtual'')"
| "view_virtual (Suc rounds) lk st it s =
     (if it_va it < max_view_va then
        let pn = int (page_of (it_va it)) in
        res_bind (if pn mod 64 = 0 then print_at (sympos 11 pn - 9) 0x0F00 ''0x%06X '' [VInt (ucast (it_va it))] s else Inr s) (\<lambda>s.
        res_bind (if \<not> vm_present st it then Inr (of_nat (uchar (CHR '' '')), s)
                  else res_bind (symbol_at lk st (vm_pa st it) s) (\<lambda>(ch, s).
                       Inr (if vm_user st it then switch_colors ch else ch, s))) (\<lambda>(ch, s).
        res_bind (draw (sympos 11 pn) ch s) (\<lambda>s.
        res_bind (vm_add st PAGESIZE it) (\<lambda>it. view_virtual rounds lk st it s))))
      else Inr s)"

definition console_memviewer_virtual :: "link \<Rightarrow> kmem \<Rightarrow> proc \<Rightarrow> memusage \<times> console_state \<Rightarrow> (memusage \<times> console_state) result" where
  "console_memviewer_virtual lk st vmp s =
     res_bind (assert_r (pagetable vmp \<noteq> 0) ''vmp->pagetable != nullptr'') (\<lambda>_.
     res_bind (print_at (10 * 80 + 26) 0x0F00 (''VIRTUAL ADDRESS SPACE FOR %d%C%s'' @ [CHR 0x0A])
                 [VInt (of_nat (pid vmp)), VInt 0x0700, VStr (if state vmp = P_FAULTED then '' (faulted)'' else [])] s) (\<lambda>s.
     res_bind (new_vmiter st (pagetable vmp) 0) (\<lambda>it. view_virtual 769 lk st it s)))"

primrec view_physical :: "nat \<Rightarrow> link \<Rightarrow> kmem \<Rightarrow> nat \<Rightarrow> memusage \<times> console_state \<Rightarrow> (memusage \<times> console_state) result" where
  "view_physical 0 lk st pn s = Inl (NeverReturns ''console_memviewer'')"
| "view_physical (Suc rounds) lk st pn s =
     (if of_nat pn * PAGESIZE < max_view_pa then
        res_bind (if pn mod 64 = 0 then print_at (sympos 1 (int pn) - 9) 0x0F00 ''0x%06X '' [VInt (push_bit 12 (of_nat pn))] s else Inr s) (\<lambda>(mu, con).
        res_bind (symbol_at lk st (of_nat pn * PAGESIZE) (mu\<lparr>mu_error_sympos := sympos 1 (int pn)\<rparr>, con)) (\<lambda>(ch, s).
        res_bind (draw (sympos 1 (int pn)) ch s) (view_physical rounds lk st (pn + 1))))
      else Inr s)"

definition console_memviewer :: "link \<Rightarrow> (nat \<Rightarrow> proc) \<Rightarrow> proc option \<Rightarrow> memusage \<Rightarrow> console_state \<Rightarrow> kmem \<Rightarrow> (memusage \<times> console_state \<times> kmem) result" where
  "console_memviewer lk ps vmp mu con st =
     res_bind (assert_r (state (ps 0) = P_FREE) ''ptable[0].state == P_FREE'') (\<lambda>_.
     res_bind (refresh lk ps mu st) (\<lambda>(mu, st).
     res_bind (print_at 32 0x0F00 (''PHYSICAL MEMORY'' @ [CHR 0x0A]) [] (mu, con)) (\<lambda>s.
     res_bind (view_physical 513 lk st 0 s) (\<lambda>(mu, con).
     res_bind (case vmp of None \<Rightarrow> Inr (mu\<lparr>mu_error_sympos := - 1\<rparr>, con)
               | Some p \<Rightarrow> console_memviewer_virtual lk st p (mu\<lparr>mu_error_sympos := - 1\<rparr>, con)) (\<lambda>(mu, con).
     Inr (mu, con, st))))))"

end
