(* ===== verification/Weensy_Kernel.thy ===== *)
theory Weensy_Kernel
  imports Weensy_Memviewer
begin

text \<open>
  The teaching kernel of \<open>weensyos/kernel.cc\<close>: process descriptors, loading a program, the exception and
  system call handlers, page allocation, fork, exit and the scheduler. \<open>memshow\<close> draws with the memory viewer
  of \<open>Weensy_Memviewer\<close>; other output to the console and the log, and the keyboard poll, are left out: the model
  is of runs in which no key is typed.
\<close>

section \<open>The state of the kernel\<close>

text \<open>\<open>viewing\<close> is the static variable \<open>mu\<close> of the memory viewer.\<close>

record kernel =
  mem :: kmem
  ptable :: "nat \<Rightarrow> proc"
  current :: nat
  ticks :: u64
  last_ticks :: u32
  showing :: nat
  viewing :: memusage
  screen :: console_state

definition upd_proc :: "nat \<Rightarrow> (proc \<Rightarrow> proc) \<Rightarrow> kernel \<Rightarrow> kernel" where
  "upd_proc p f k = k\<lparr>ptable := (ptable k)(p := f (ptable k p))\<rparr>"

definition cur :: "kernel \<Rightarrow> proc" where
  "cur k = ptable k (current k)"

definition init_process :: "u32 \<Rightarrow> proc \<Rightarrow> proc" where
  "init_process flags p =
     (let rs = zero_regs\<lparr>reg_cs := SEGSEL_APP_CODE OR 3, reg_fs := SEGSEL_APP_DATA OR 3, reg_gs := SEGSEL_APP_DATA OR 3,
            reg_ss := SEGSEL_APP_DATA OR 3, reg_rflags := EFLAGS_IF\<rparr>;
          rs = (if flags AND PROCINIT_ALLOW_PROGRAMMED_IO \<noteq> 0 then rs\<lparr>reg_rflags := reg_rflags rs OR EFLAGS_IOPL_3\<rparr> else rs);
          rs = (if flags AND PROCINIT_DISABLE_INTERRUPTS \<noteq> 0 then rs\<lparr>reg_rflags := reg_rflags rs AND NOT EFLAGS_IF\<rparr> else rs)
      in p\<lparr>regs := rs\<rparr>)"

section \<open>Program images\<close>

definition program_image :: "link \<Rightarrow> string \<Rightarrow> elf_image option" where
  "program_image lk program_name = map_of (ramimages lk) program_name"

definition image_empty :: "elf_image option \<Rightarrow> bool" where
  "image_empty elf \<longleftrightarrow> (case elf of None \<Rightarrow> True | Some e \<Rightarrow> e_programs e = [])"

definition image_entry :: "elf_image option \<Rightarrow> u64" where
  "image_entry elf = (case elf of None \<Rightarrow> 0 | Some e \<Rightarrow> e_entry e)"

text \<open>The segments from \<open>begin()\<close> to \<open>end()\<close>: the headers that \<open>fix()\<close> does not skip.\<close>

definition segments :: "elf_image option \<Rightarrow> elf_program list" where
  "segments elf = (case elf of None \<Rightarrow> [] | Some e \<Rightarrow> filter (\<lambda>ph. p_type ph = ELF_PTYPE_LOAD) (e_programs e))"

definition seg_data :: "elf_image option \<Rightarrow> elf_program \<Rightarrow> bytes" where
  "seg_data elf ph = (case elf of None \<Rightarrow> [] | Some e \<Rightarrow> take (p_filesz ph) (drop (p_offset ph) (e_bytes e)))"

definition seg_writable :: "elf_program \<Rightarrow> bool" where
  "seg_writable ph \<longleftrightarrow> p_flags ph AND ELF_PFLAG_WRITE \<noteq> 0"

section \<open>Copying memory\<close>

text \<open>Pages are copied whole, program data byte by byte; the byte at an address is a part of a word.\<close>

definition copy_page :: "u64 \<Rightarrow> u64 \<Rightarrow> kmem \<Rightarrow> kmem" where
  "copy_page dst src st = st\<lparr>pmem := (pmem st)(dst := pmem st src)\<rparr>"

definition write_byte :: "u64 \<Rightarrow> u8 \<Rightarrow> kmem \<Rightarrow> kmem" where
  "write_byte pa b st =
     (let pg = round_down pa PAGESIZE; i = unat ((pa mod PAGESIZE) div 8); sh = 8 * unat (pa mod 8);
          w = (pmem st pg i AND NOT (push_bit sh 0xFF)) OR push_bit sh (ucast b)
      in st\<lparr>pmem := (pmem st)(pg := (pmem st pg)(i := w))\<rparr>)"

primrec memcpy_bytes :: "u64 \<Rightarrow> bytes \<Rightarrow> kmem \<Rightarrow> kmem" where
  "memcpy_bytes pa [] st = st"
| "memcpy_bytes pa (b # bs) st = memcpy_bytes (pa + 1) bs (write_byte pa b st)"

definition memset_bytes :: "u64 \<Rightarrow> u8 \<Rightarrow> nat \<Rightarrow> kmem \<Rightarrow> kmem" where
  "memset_bytes pa b n st = memcpy_bytes pa (replicate n b) st"

section \<open>Loops over the pages of an address range\<close>

text \<open>
  \<open>for (vmiter it(pt, start); it.va() < lim; it += PAGESIZE)\<close>. The body may return from the function.
  The rounds are bounded by the pages below the limit.
\<close>

primrec page_loop :: "nat \<Rightarrow> u64 \<Rightarrow> (vmiter \<Rightarrow> kmem \<Rightarrow> (int option \<times> kmem) result) \<Rightarrow> kmem \<Rightarrow> vmiter \<Rightarrow> (int option \<times> kmem) result" where
  "page_loop 0 lim body st it = Inr (None, st)"
| "page_loop (Suc n) lim body st it =
     (if it_va it < lim then
        res_bind (body it st) (\<lambda>(r, st).
          case r of Some v \<Rightarrow> Inr (Some v, st)
          | None \<Rightarrow> res_bind (vm_add st PAGESIZE it) (\<lambda>it. page_loop n lim body st it))
      else Inr (None, st))"

definition for_pages :: "u64 \<Rightarrow> u64 \<Rightarrow> u64 \<Rightarrow> (vmiter \<Rightarrow> kmem \<Rightarrow> (int option \<times> kmem) result) \<Rightarrow> kmem \<Rightarrow> (int option \<times> kmem) result" where
  "for_pages pt start lim body st =
     res_bind (new_vmiter st pt start) (\<lambda>it. page_loop (unat (lim div PAGESIZE) + 1) lim body st it)"

text \<open>\<open>perm\<close> as the loops compute it.\<close>

definition copied_perm :: "kmem \<Rightarrow> vmiter \<Rightarrow> u64" where
  "copied_perm st it =
     (let perm = PTE_P;
          perm = (if vm_writable st it then perm OR PTE_W else perm)
      in if vm_user st it then perm OR PTE_U else perm)"

section \<open>Starting up\<close>

definition startup_perm :: "u64 \<Rightarrow> u64" where
  "startup_perm addr =
     (let perm = PTE_P OR PTE_W OR PTE_U;
          perm = (if addr = 0 then 0 else perm)
      in if addr < PROC_START_ADDR \<and> addr \<noteq> CONSOLE_ADDR then PTE_P OR PTE_W else perm)"

primrec identity_map :: "nat \<Rightarrow> link \<Rightarrow> u64 \<Rightarrow> kmem \<Rightarrow> kmem result" where
  "identity_map 0 lk addr st = Inr st"
| "identity_map (Suc n) lk addr st =
     (if addr < MEMSIZE_PHYSICAL then
        res_bind (new_vmiter st (kernel_pagetable lk) addr) (\<lambda>it.
        res_bind (try_map (kernel_end lk) addr (startup_perm addr) (st, it)) (\<lambda>(r, st, it).
        res_bind (assert_r (r = 0) ''r == 0'') (\<lambda>_. identity_map n lk (addr + PAGESIZE) st)))
      else Inr st)"

definition try_map_at :: "u64 \<Rightarrow> u64 \<Rightarrow> u64 \<Rightarrow> u64 \<Rightarrow> u64 \<Rightarrow> kmem \<Rightarrow> (int \<times> kmem) result" where
  "try_map_at ke pt va pa perm st =
     res_bind (new_vmiter st pt va) (\<lambda>it.
     res_bind (try_map ke pa perm (st, it)) (\<lambda>(r, st, it). Inr (r, st)))"

definition map_at :: "u64 \<Rightarrow> u64 \<Rightarrow> u64 \<Rightarrow> u64 \<Rightarrow> u64 \<Rightarrow> kmem \<Rightarrow> kmem result" where
  "map_at ke pt va pa perm st =
     res_bind (new_vmiter st pt va) (\<lambda>it. res_bind (vm_map ke pa perm (st, it)) (\<lambda>(st, it). Inr st))"

definition map_kptr_at :: "u64 \<Rightarrow> u64 \<Rightarrow> u64 \<Rightarrow> u64 \<Rightarrow> u64 \<Rightarrow> kmem \<Rightarrow> kmem result" where
  "map_kptr_at ke pt va kp perm st =
     res_bind (new_vmiter st pt va) (\<lambda>it. res_bind (vm_map_kptr ke kp perm (st, it)) (\<lambda>(st, it). Inr st))"

text \<open>The pages of a segment; the rounds are bounded by its size.\<close>

primrec map_segment :: "nat \<Rightarrow> link \<Rightarrow> u64 \<Rightarrow> elf_program \<Rightarrow> u64 \<Rightarrow> kmem \<Rightarrow> kmem result" where
  "map_segment 0 lk pt seg a st = Inr st"
| "map_segment (Suc n) lk pt seg a st =
     (if a < p_va seg + p_memsz seg then
        let perm = PTE_P OR PTE_U;
            perm = (if seg_writable seg then perm OR PTE_W else perm)
        in case kalloc (kernel_end lk) PAGESIZE st of (pa, st) \<Rightarrow>
             res_bind (map_kptr_at (kernel_end lk) pt a pa perm st) (\<lambda>st. map_segment n lk pt seg (a + PAGESIZE) st)
      else Inr st)"

fun map_segments :: "link \<Rightarrow> u64 \<Rightarrow> elf_program list \<Rightarrow> kmem \<Rightarrow> kmem result" where
  "map_segments lk pt [] st = Inr st"
| "map_segments lk pt (seg # segs) st =
     res_bind (map_segment (unat (p_memsz seg div PAGESIZE) + 2) lk pt seg (round_down (p_va seg) PAGESIZE) st)
       (\<lambda>st. map_segments lk pt segs st)"

fun load_segments :: "u64 \<Rightarrow> elf_image option \<Rightarrow> elf_program list \<Rightarrow> kmem \<Rightarrow> kmem result" where
  "load_segments pt elf [] st = Inr st"
| "load_segments pt elf (seg # segs) st =
     res_bind (new_vmiter st pt (p_va seg)) (\<lambda>it.
       let pa = vm_pa st it in
       load_segments pt elf segs (memcpy_bytes pa (seg_data elf seg) (memset_bytes pa 0 (unat (p_memsz seg)) st)))"

definition process_setup :: "link \<Rightarrow> nat \<Rightarrow> string \<Rightarrow> kernel \<Rightarrow> kernel result" where
  "process_setup lk p program_name k =
     (let ke = kernel_end lk;
          k = upd_proc p (init_process 0) k;
          elf = program_image lk program_name
      in case kalloc_pagetable ke (mem k) of (pt, st) \<Rightarrow>
      let k = upd_proc p (pagetable_update (\<lambda>_. pt)) k in
      res_bind (for_pages (kernel_pagetable lk) KERNEL_START_ADDR KERNEL_STACK_TOP
          (\<lambda>it st. if \<not> vm_present st it then Inr (None, st)
             else res_bind (map_at ke pt (it_va it) (vm_pa st it) (copied_perm st it) st) (\<lambda>st. Inr (None, st))) st) (\<lambda>(_, st).
      res_bind (map_at ke pt CONSOLE_ADDR CONSOLE_ADDR (PTE_P OR PTE_W OR PTE_U) st) (\<lambda>st.
      res_bind (map_segments lk pt (segments elf) st) (\<lambda>st.
      res_bind (load_segments pt elf (segments elf) st) (\<lambda>st.
        let stack_addr = MEMSIZE_VIRTUAL - PAGESIZE in
        (case kalloc ke PAGESIZE st of (stack_pa, st) \<Rightarrow>
           res_bind (map_kptr_at ke pt stack_addr stack_pa (PTE_P OR PTE_W OR PTE_U) st) (\<lambda>st.
           Inr (upd_proc p (\<lambda>q. q\<lparr>regs := (regs q)\<lparr>reg_rip := image_entry elf, reg_rsp := stack_addr + PAGESIZE\<rparr>, state := P_RUNNABLE\<rparr>)
             (k\<lparr>mem := st\<rparr>)))))))))"

section \<open>Running processes\<close>

text \<open>
  How a handler ends: with a value for the process that called it, by running a process, by spinning for
  ever, or with a panic.
\<close>

datatype outcome = Returns u64 | Runs nat | Spins | Panics string

definition check_process_registers :: "proc \<Rightarrow> unit result" where
  "check_process_registers p =
     res_bind (assert_r (PROC_START_ADDR \<le> reg_rsp (regs p)) ''p->regs.reg_rsp >= PROC_START_ADDR'') (\<lambda>_.
     res_bind (assert_r (reg_rsp (regs p) \<le> MEMSIZE_VIRTUAL) ''p->regs.reg_rsp <= MEMSIZE_VIRTUAL'') (\<lambda>_.
     assert_r (reg_cs (regs p) AND 3 = 3) ''(p->regs.reg_cs & 3) == 3''))"

definition pa_at :: "kmem \<Rightarrow> u64 \<Rightarrow> u64 \<Rightarrow> u64 result" where
  "pa_at st pt va = res_bind (new_vmiter st pt va) (\<lambda>it. Inr (vm_pa st it))"

definition check_pagetable :: "link \<Rightarrow> u64 \<Rightarrow> kmem \<Rightarrow> unit result" where
  "check_pagetable lk pt st =
     res_bind (assert_r (pt mod PAGESIZE = 0) ''((uintptr_t) pagetable % PAGESIZE) == 0'') (\<lambda>_.
     res_bind (pa_at st pt (exception_entry lk)) (\<lambda>pa.
     res_bind (assert_r (pa = exception_entry lk) ''exception_entry'') (\<lambda>_.
     res_bind (pa_at st (kernel_pagetable lk) pt) (\<lambda>pa.
     res_bind (assert_r (pa = pt) ''pagetable in kernel_pagetable'') (\<lambda>_.
     res_bind (pa_at st pt (kernel_pagetable lk)) (\<lambda>pa.
     assert_r (pa = kernel_pagetable lk) ''kernel_pagetable in pagetable''))))))"

definition run :: "link \<Rightarrow> nat \<Rightarrow> kernel \<Rightarrow> (outcome \<times> kernel) result" where
  "run lk p k =
     res_bind (assert_r (state (ptable k p) = P_RUNNABLE) ''p->state == P_RUNNABLE'') (\<lambda>_.
     let k = k\<lparr>current := p\<rparr> in
     res_bind (check_process_registers (ptable k p)) (\<lambda>_.
     res_bind (check_pagetable lk (pagetable (ptable k p)) (mem k)) (\<lambda>_.
     Inr (Runs p, k))))"

text \<open>The process that \<open>memshow\<close> draws, if any.\<close>

primrec memshow_search :: "nat \<Rightarrow> kernel \<Rightarrow> nat option \<times> kernel" where
  "memshow_search 0 k = (None, k)"
| "memshow_search (Suc n) k =
     (if state (ptable k (showing k)) \<noteq> P_FREE \<and> pagetable (ptable k (showing k)) \<noteq> 0 then (Some (showing k), k)
      else memshow_search n (k\<lparr>showing := (showing k + 1) mod PID_MAX\<rparr>))"

definition memshow :: "link \<Rightarrow> kernel \<Rightarrow> kernel result" where
  "memshow lk k =
     (let k = (if last_ticks k = 0 \<or> of_nat (HZ div 2) \<le> ticks k - ucast (last_ticks k)
               then k\<lparr>last_ticks := ucast (ticks k), showing := (showing k + 1) mod PID_MAX\<rparr> else k)
      in case memshow_search PID_MAX k of (p, k) \<Rightarrow>
         res_bind (console_memviewer lk (ptable k) (map_option (ptable k) p) (viewing k) (screen k) (mem k)) (\<lambda>(mu, con, st).
         res_bind (if p = None
                   then console_vprintf (10 * 80 + 26) 0x0F00
                     (''   VIRTUAL ADDRESS SPACE'' @ [CHR 0x0A] @ replicate 26 (CHR '' '') @ ''[All processes have exited]'' @ replicate 12 (CHR 0x0A)) [] con
                   else Inr (0, con)) (\<lambda>(_, con).
         Inr (k\<lparr>mem := st, viewing := mu, screen := con\<rparr>))))"

text \<open>
  The search of \<open>schedule\<close>, from the process after the current one. After a round of \<open>PID_MAX\<close> processes
  it would repeat: with interrupts disabled nothing it reads changes.
\<close>

primrec schedule_loop :: "nat \<Rightarrow> link \<Rightarrow> nat \<Rightarrow> kernel \<Rightarrow> (outcome \<times> kernel) result" where
  "schedule_loop 0 lk p k = Inr (Spins, k)"
| "schedule_loop (Suc n) lk p k =
     (let p = (p + 1) mod PID_MAX in
      if state (ptable k p) = P_RUNNABLE then run lk p k else schedule_loop n lk p k)"

definition schedule :: "link \<Rightarrow> kernel \<Rightarrow> (outcome \<times> kernel) result" where
  "schedule lk k = schedule_loop PID_MAX lk (pid (cur k)) k"

definition kernel_start :: "link \<Rightarrow> string option \<Rightarrow> kernel \<Rightarrow> (outcome \<times> kernel) result" where
  "kernel_start lk command k =
     (let k = k\<lparr>ticks := 1, screen := console_clear (screen k)\<rparr> in
      res_bind (identity_map (NPAGES + 1) lk 0 (mem k)) (\<lambda>st.
      let k = k\<lparr>mem := st, ptable := (\<lambda>i. if i < PID_MAX then (ptable k i)\<lparr>pid := i, state := P_FREE\<rparr> else ptable k i)\<rparr>;
          command = (case command of None \<Rightarrow> first_process lk | Some c \<Rightarrow> c)
      in res_bind
           (if \<not> image_empty (program_image lk command) then process_setup lk 1 command k
            else res_bind (process_setup lk 1 ''allocator'' k) (\<lambda>k.
                 res_bind (process_setup lk 2 ''allocator2'' k) (\<lambda>k.
                 res_bind (process_setup lk 3 ''allocator3'' k) (\<lambda>k.
                 process_setup lk 4 ''allocator4'' k))))
           (run lk 1)))"

section \<open>Freeing a page table\<close>

partial_function (option) free_tables :: "u64 \<Rightarrow> ptiter \<Rightarrow> kmem \<Rightarrow> kmem option" where
  "free_tables ke it st =
     (if pt_done it then Some st
      else let st = kfree ke (pt_pa st it) st in
           case pt_next st it of None \<Rightarrow> None | Some it \<Rightarrow> free_tables ke it st)"

definition free_body :: "u64 \<Rightarrow> vmiter \<Rightarrow> kmem \<Rightarrow> (int option \<times> kmem) result" where
  "free_body ke it st =
     (if \<not> vm_present st it \<or> \<not> vm_user st it then Inr (None, st)
      else if it_va it = CONSOLE_ADDR then Inr (None, st)
      else Inr (None, kfree ke (vm_pa st it) st))"

definition free_pagetable :: "u64 \<Rightarrow> u64 \<Rightarrow> kmem \<Rightarrow> kmem result" where
  "free_pagetable ke pt st =
     res_bind (for_pages pt 0 MEMSIZE_VIRTUAL (free_body ke) st) (\<lambda>(_, st).
     case new_ptiter st pt of
       None \<Rightarrow> Inl (NeverReturns ''ptiter'')
     | Some it \<Rightarrow>
         (case free_tables ke it st of
            None \<Rightarrow> Inl (NeverReturns ''ptiter'')
          | Some st \<Rightarrow> Inr (kfree ke pt st)))"

section \<open>System calls\<close>

definition syscall_page_alloc :: "link \<Rightarrow> u64 \<Rightarrow> kernel \<Rightarrow> (int \<times> kernel) result" where
  "syscall_page_alloc lk addr k =
     (case kalloc (kernel_end lk) PAGESIZE (mem k) of (pa, st) \<Rightarrow>
        if pa = 0 then Inr (- 1, k\<lparr>mem := st\<rparr>)
        else
          let st = memset_page pa 0 st in
          res_bind (new_vmiter st (pagetable (cur k)) addr) (\<lambda>it.
          res_bind (try_map_kptr (kernel_end lk) pa (PTE_P OR PTE_W OR PTE_U) (st, it)) (\<lambda>(r, st, it).
          Inr (if r < 0 then - 1 else 0, k\<lparr>mem := st\<rparr>))))"

text \<open>\<open>free_pagetable(pt); return -1\<close>.\<close>

definition give_up :: "u64 \<Rightarrow> u64 \<Rightarrow> kmem \<Rightarrow> (int option \<times> kmem) result" where
  "give_up ke pt st = res_bind (free_pagetable ke pt st) (\<lambda>st. Inr (Some (- 1), st))"

definition fork_kernel_body :: "u64 \<Rightarrow> u64 \<Rightarrow> vmiter \<Rightarrow> kmem \<Rightarrow> (int option \<times> kmem) result" where
  "fork_kernel_body ke pt it st =
     (if \<not> vm_present st it then Inr (None, st)
      else res_bind (try_map_at ke pt (it_va it) (vm_pa st it) (copied_perm st it) st) (\<lambda>(rc, st).
           if rc < 0 then give_up ke pt st else Inr (None, st)))"

definition fork_user_body :: "u64 \<Rightarrow> u64 \<Rightarrow> vmiter \<Rightarrow> kmem \<Rightarrow> (int option \<times> kmem) result" where
  "fork_user_body ke pt it st =
     (if \<not> (vm_present st it \<and> vm_user st it) then Inr (None, st)
      else if it_va it = CONSOLE_ADDR then Inr (None, st)
      else
        let perm = PTE_P OR PTE_U in
        if vm_writable st it then
          let perm = perm OR PTE_W in
          case kalloc ke PAGESIZE st of (pa, st) \<Rightarrow>
            if pa = 0 then give_up ke pt st
            else
              let st = copy_page pa (vm_pa st it) st in
              res_bind (try_map_at ke pt (it_va it) pa perm st) (\<lambda>(rc, st).
              if rc < 0 then give_up ke pt st else Inr (None, st))
        else
          res_bind (try_map_at ke pt (it_va it) (vm_pa st it) perm st) (\<lambda>(rc, st).
          if rc < 0 then give_up ke pt st
          else Inr (None, incref (page_of (vm_pa st it)) st)))"

definition find_free_pid :: "kernel \<Rightarrow> nat option" where
  "find_free_pid k = find (\<lambda>i. state (ptable k i) = P_FREE) [1..<PID_MAX]"

text \<open>A returned value ends the function early; otherwise go on.\<close>

definition unless_returned :: "(int option \<times> kmem) result \<Rightarrow> kernel \<Rightarrow> (kmem \<Rightarrow> (int \<times> kernel) result) \<Rightarrow> (int \<times> kernel) result" where
  "unless_returned m k f = res_bind m (\<lambda>(r, st). case r of Some v \<Rightarrow> Inr (v, k\<lparr>mem := st\<rparr>) | None \<Rightarrow> f st)"

definition syscall_fork :: "link \<Rightarrow> kernel \<Rightarrow> (int \<times> kernel) result" where
  "syscall_fork lk k =
     (let ke = kernel_end lk; parent = pagetable (cur k) in
      case find_free_pid k of
        None \<Rightarrow> Inr (- 1, k)
      | Some p \<Rightarrow>
          (case kalloc_pagetable ke (mem k) of (pt, st) \<Rightarrow>
             if pt = 0 then Inr (- 1, k\<lparr>mem := st\<rparr>)
             else
               unless_returned (for_pages parent KERNEL_START_ADDR KERNEL_STACK_TOP (fork_kernel_body ke pt) st) k (\<lambda>st.
               res_bind (try_map_at ke pt CONSOLE_ADDR CONSOLE_ADDR (PTE_P OR PTE_W OR PTE_U) st) (\<lambda>(rc1, st).
               if rc1 < 0 then unless_returned (give_up ke pt st) k (\<lambda>st. Inr (- 1, k\<lparr>mem := st\<rparr>))
               else
                 unless_returned (for_pages parent 0 MEMSIZE_VIRTUAL (fork_user_body ke pt) st) k (\<lambda>st.
                 Inr (int p, upd_proc p (\<lambda>q. \<lparr>pagetable = pt, pid = p, state = P_RUNNABLE,
                    regs = (regs (cur k))\<lparr>reg_rax := 0\<rparr>\<rparr>) (k\<lparr>mem := st\<rparr>)))))))"

definition syscall_exit :: "link \<Rightarrow> kernel \<Rightarrow> kernel result" where
  "syscall_exit lk k =
     res_bind (free_pagetable (kernel_end lk) (pagetable (cur k)) (mem k)) (\<lambda>st.
     Inr (upd_proc (current k) (\<lambda>q. q\<lparr>state := P_FREE, pagetable := 0, regs := zero_regs\<rparr>) (k\<lparr>mem := st\<rparr>)))"

definition syscall :: "link \<Rightarrow> regstate \<Rightarrow> kernel \<Rightarrow> (outcome \<times> kernel) result" where
  "syscall lk rs k =
     (let k = upd_proc (current k) (\<lambda>p. p\<lparr>regs := rs\<rparr>) k; n = reg_rax rs in
      res_bind (memshow lk k) (\<lambda>k.
         if n = SYSCALL_PANIC then Inr (Panics ''USER PANIC'', k)
         else if n = SYSCALL_GETPID then Inr (Returns (of_nat (pid (cur k))), k)
         else if n = SYSCALL_YIELD then
           schedule lk (upd_proc (current k) (\<lambda>p. p\<lparr>regs := (regs p)\<lparr>reg_rax := 0\<rparr>\<rparr>) k)
         else if n = SYSCALL_PAGE_ALLOC then
           res_bind (syscall_page_alloc lk (reg_rdi rs) k) (\<lambda>(r, k). Inr (Returns (of_int r), k))
         else if n = SYSCALL_FORK then
           res_bind (syscall_fork lk k) (\<lambda>(r, k). Inr (Returns (of_int r), k))
         else if n = SYSCALL_EXIT then
           res_bind (syscall_exit lk k) (schedule lk)
         else Inr (Panics ''Unhandled system call'', k)))"

definition exception :: "link \<Rightarrow> regstate \<Rightarrow> kernel \<Rightarrow> (outcome \<times> kernel) result" where
  "exception lk rs k =
     (let k = upd_proc (current k) (\<lambda>p. p\<lparr>regs := rs\<rparr>) k in
      res_bind (if reg_intno rs \<noteq> INT_PF \<or> reg_errcode rs AND PTE_U \<noteq> 0 then memshow lk k else Inr k) (\<lambda>k.
         if reg_intno rs = INT_IRQ + IRQ_TIMER then schedule lk (k\<lparr>ticks := ticks k + 1\<rparr>)
         else if reg_intno rs = INT_PF then
           if reg_errcode rs AND PTE_U = 0 then Inr (Panics ''Kernel page fault'', k)
           else
             let k = upd_proc (current k) (\<lambda>p. p\<lparr>state := P_FAULTED\<rparr>) k in
             if state (cur k) = P_RUNNABLE then run lk (current k) k else schedule lk k
         else Inr (Panics ''Unhandled exception'', k)))"

end
