(* ===== verification/Weensy_Syscalls.thy ===== *)
theory Weensy_Syscalls
  imports Weensy_Kernel
begin

text \<open>
  What the system calls of \<open>Weensy_Kernel\<close> guarantee: page allocation, fork and exit, over the well-formed
  page tables of \<open>Weensy_Map\<close>.
\<close>

section \<open>Loops over pages\<close>

lemma aligned_mod: "va AND 0xFFF = va mod 0x1000" for va :: u64
proof -
  have m: "(0xFFF :: u64) = mask 12" by (simp add: mask_eq_exp_minus_1)
  have "va AND 0xFFF = take_bit 12 va" unfolding m by (rule take_bit_eq_mask[symmetric])
  also have "\<dots> = va mod 2 ^ 12" by (rule take_bit_eq_mod)
  finally show ?thesis by simp
qed

lemma aligned_dvd: "va AND 0xFFF = 0 \<longleftrightarrow> 4096 dvd unat va" for va :: u64
  by (simp add: aligned_mod word_unat_eq_iff unat_mod mod_eq_0_iff_dvd)

lemma next_page:
  fixes va lim :: u64
  assumes "va AND 0xFFF = 0" "lim AND 0xFFF = 0" "va < lim"
  shows "unat (va + PAGESIZE) = unat va + 4096" "(va + PAGESIZE) AND 0xFFF = 0" "va + PAGESIZE \<le> lim"
proof -
  note dvd = aligned_dvd
  have "4096 dvd unat lim - unat va" "unat va < unat lim" using assms by (auto simp: dvd word_less_nat_alt)
  then have le: "unat va + 4096 \<le> unat lim" by (auto dest!: dvd_imp_le)
  have "unat lim < 2 ^ 64" using unsigned_less[of lim] by simp
  then have "unat va + 4096 < 2 ^ 64" using le by simp
  then show u: "unat (va + PAGESIZE) = unat va + 4096"
    by (subst unat_word_ariths(1)) (simp add: PAGESIZE_def)
  show "va + PAGESIZE \<le> lim" using u le by (simp add: word_le_nat_alt)
  show "(va + PAGESIZE) AND 0xFFF = 0" using u assms(1) by (simp add: dvd)
qed

text \<open>
  The rule of the loops: an invariant, indexed by the next address, that lets the walk succeed, and a body
  that keeps it and the walk to the current page, or returns with \<open>Q\<close>.
\<close>

lemma page_loop_rule:
  assumes step: "\<And>va st it. I va st \<Longrightarrow> va < lim \<Longrightarrow> va AND 0xFFF = 0 \<Longrightarrow> new_vmiter st pt va = Inr it \<Longrightarrow>
      (\<exists>st'. body it st = Inr (None, st') \<and> I (va + PAGESIZE) st' \<and> new_vmiter st' pt va = Inr it) \<or>
      (\<exists>v st'. body it st = Inr (Some v, st') \<and> Q v st')"
    and walk: "\<And>va st. I va st \<Longrightarrow> \<exists>it. new_vmiter st pt va = Inr it"
    and lim: "lim AND 0xFFF = 0"
  shows "I va st \<Longrightarrow> new_vmiter st pt va = Inr it \<Longrightarrow> va AND 0xFFF = 0 \<Longrightarrow> va \<le> lim \<Longrightarrow> unat lim \<le> unat va + 4096 * m \<Longrightarrow>
    (\<exists>st'. page_loop (Suc m) lim body st it = Inr (None, st') \<and> I lim st') \<or>
    (\<exists>v st'. page_loop (Suc m) lim body st it = Inr (Some v, st') \<and> Q v st')"
proof (induction m arbitrary: va st it)
  case 0
  then have "va = lim" by (simp add: word_le_nat_alt word_unat_eq_iff)
  then show ?case using 0 new_vmiter_va[OF 0(2)] by simp
next
  case (Suc m)
  have va: "it_va it = va" using new_vmiter_va[OF Suc.prems(2)] .
  show ?case
  proof (cases "va < lim")
    case False
    then have "va = lim" using Suc.prems(4) by simp
    then show ?thesis using Suc.prems(1) va by simp
  next
    case True
    note n = next_page[OF Suc.prems(3) lim True]
    from step[OF Suc.prems(1) True Suc.prems(3,2)] show ?thesis
    proof (elim disjE exE conjE)
      fix st' assume b: "body it st = Inr (None, st')" "I (va + PAGESIZE) st'" "new_vmiter st' pt va = Inr it"
      obtain it2 where w: "new_vmiter st' pt (va + PAGESIZE) = Inr it2" using walk[OF b(2)] by blast
      have "vm_add st' PAGESIZE it = Inr it2"
        using real_find_eq[OF b(3), of "va + PAGESIZE" False] w va by (simp add: vm_add_def vm_find_def PAGESIZE_def)
      moreover have "unat lim \<le> unat (va + PAGESIZE) + 4096 * m" using Suc.prems(5) n(1) by simp
      ultimately show ?thesis using Suc.IH[OF b(2) w n(2,3)] True va b(1) by simp
    next
      fix v st' assume "body it st = Inr (Some v, st')" "Q v st'"
      then show ?thesis using True va by simp
    qed
  qed
qed

lemma for_pages_rule:
  assumes "\<And>va st it. I va st \<Longrightarrow> va < lim \<Longrightarrow> va AND 0xFFF = 0 \<Longrightarrow> new_vmiter st pt va = Inr it \<Longrightarrow>
      (\<exists>st'. body it st = Inr (None, st') \<and> I (va + PAGESIZE) st' \<and> new_vmiter st' pt va = Inr it) \<or>
      (\<exists>v st'. body it st = Inr (Some v, st') \<and> Q v st')"
    "\<And>va st. I va st \<Longrightarrow> \<exists>it. new_vmiter st pt va = Inr it"
    "lim AND 0xFFF = 0" "start AND 0xFFF = 0" "start \<le> lim" "I start st"
  shows "(\<exists>st'. for_pages pt start lim body st = Inr (None, st') \<and> I lim st') \<or>
    (\<exists>v st'. for_pages pt start lim body st = Inr (Some v, st') \<and> Q v st')"
proof -
  obtain it where w: "new_vmiter st pt start = Inr it" using assms(2)[OF assms(6)] by blast
  have "unat (lim div PAGESIZE) = unat lim div 4096" by (simp add: unat_div PAGESIZE_def)
  moreover have "4096 dvd unat lim" using assms(3) by (simp add: aligned_dvd)
  ultimately have "unat lim \<le> unat start + 4096 * unat (lim div PAGESIZE)" by simp
  from page_loop_rule[where I = I and Q = Q and body = body, OF assms(1-3,6) w assms(4,5) this] show ?thesis
    by (simp only: for_pages_def w res_bind.simps Suc_eq_plus1)
qed

section \<open>Freeing a page table\<close>

lemma kfree_facts:
  "pmem (kfree ke kp st) = pmem st" "refcount (kfree ke kp st) n \<le> refcount st n"
proof -
  show "pmem (kfree ke kp st) = pmem st" by (simp add: kfree_def Let_def)
  have "x - 1 \<le> x" if "x \<noteq> 0" for x :: u8
    using that by (simp add: word_le_nat_alt unat_minus_one)
  then show "refcount (kfree ke kp st) n \<le> refcount st n" by (simp add: kfree_def Let_def)
qed

text \<open>Freeing pages only lowers counts.\<close>

definition only_frees :: "kmem \<Rightarrow> kmem \<Rightarrow> bool" where
  "only_frees st st' \<longleftrightarrow> pmem st' = pmem st \<and> (\<forall>n. refcount st' n \<le> refcount st n)"

lemma only_frees_refl: "only_frees st st"
  by (simp add: only_frees_def)

lemma only_frees_kfree: "only_frees st st' \<Longrightarrow> only_frees st (kfree ke kp st')"
  unfolding only_frees_def
proof (elim conjE, intro conjI allI)
  assume a: "pmem st' = pmem st" "\<forall>n. refcount st' n \<le> refcount st n"
  show "pmem (kfree ke kp st') = pmem st" using a(1) by (simp add: kfree_facts)
  show "refcount (kfree ke kp st') n \<le> refcount st n" for n using kfree_facts(2)[of ke kp st' n] a(2) by (blast intro: order.trans)
qed

lemma free_tables_ends:
  "pt_done it \<or> pt_ok it \<Longrightarrow> only_frees st0 st \<Longrightarrow> \<exists>st'. free_tables ke it st = Some st' \<and> only_frees st0 st'"
proof (induction "(2 ^ 64 - unat (pt_va it)) * 100 + (64 - pt_lbits it)" arbitrary: it st rule: less_induct)
  case less
  show ?case
  proof (cases "pt_done it")
    case True
    then show ?thesis using less.prems(2) by (subst free_tables.simps) simp
  next
    case False
    then have ok: "pt_ok it" using less.prems(1) by simp
    define st2 where "st2 = kfree ke (pt_pa st it) st"
    have f: "only_frees st0 st2" using only_frees_kfree[OF less.prems(2)] by (simp add: st2_def)
    obtain it2 where n: "pt_next st2 it = Some it2" and
      c: "pt_done it2 \<or> pt_ok it2 \<and> (pt_va it < pt_va it2 \<or> pt_va it = pt_va it2 \<and> pt_lbits it < pt_lbits it2)"
      using pt_next_ends[OF ok, of st2] by blast
    have e: "free_tables ke it st = free_tables ke it2 st2"
      using False n by (subst free_tables.simps) (simp add: st2_def Let_def)
    show ?thesis
    proof (cases "pt_done it2")
      case True
      then have "free_tables ke it2 st2 = Some st2" by (subst free_tables.simps) simp
      then show ?thesis using e f by simp
    next
      case False
      then have c2: "pt_ok it2" "pt_va it < pt_va it2 \<or> pt_va it = pt_va it2 \<and> pt_lbits it < pt_lbits it2" using c by auto
      have "unat (pt_va it2) < 2 ^ 64" using unsigned_less[of "pt_va it2"] by simp
      moreover have "pt_lbits it2 \<le> 39" using c2(1) by (auto simp: pt_ok_def)
      ultimately have "\<exists>st'. free_tables ke it2 st2 = Some st' \<and> only_frees st0 st'"
        using c2 f by (intro less.hyps) (auto simp: word_less_nat_alt)
      then show ?thesis using e by simp
    qed
  qed
qed

lemma free_pagetable_lemma:
  assumes "vm_ok ke st pt"
  shows "\<exists>st'. free_pagetable ke pt st = Inr st' \<and> only_frees st st'"
proof -
  define I where "I = (\<lambda>(va :: u64) st'. only_frees st st')"
  have w: "new_vmiter st' pt va = new_vmiter st pt va" if "only_frees st st'" for st' va
    using that by (intro new_vmiter_cong) (simp add: only_frees_def)
  have "(\<exists>st'. for_pages pt 0 MEMSIZE_VIRTUAL (free_body ke) st = Inr (None, st') \<and> I MEMSIZE_VIRTUAL st') \<or>
    (\<exists>v st'. for_pages pt 0 MEMSIZE_VIRTUAL (free_body ke) st = Inr (Some v, st') \<and> False)"
  proof (rule for_pages_rule[where I = I and Q = "\<lambda>_ _. False"])
    fix va st1 it assume a: "I va st1" "new_vmiter st1 pt va = Inr it"
    obtain st2 where b: "free_body ke it st1 = Inr (None, st2)" "st2 = st1 \<or> st2 = kfree ke (vm_pa st1 it) st1"
      unfolding free_body_def by metis
    then have "free_body ke it st1 = Inr (None, st2) \<and> only_frees st st2" using a(1) only_frees_kfree unfolding I_def by blast
    moreover from this have "new_vmiter st2 pt va = Inr it" using a w by (simp add: I_def)
    ultimately show "(\<exists>st'. free_body ke it st1 = Inr (None, st') \<and> I (va + PAGESIZE) st' \<and> new_vmiter st' pt va = Inr it) \<or>
        (\<exists>v st'. free_body ke it st1 = Inr (Some v, st') \<and> False)" by (auto simp: I_def)
  next
    fix va st1 assume "I va st1"
    then show "\<exists>it. new_vmiter st1 pt va = Inr it" using w walk_exists[OF assms] by (simp add: I_def)
  qed (simp_all add: I_def only_frees_refl MEMSIZE_VIRTUAL_def)
  then obtain st1 where l: "for_pages pt 0 MEMSIZE_VIRTUAL (free_body ke) st = Inr (None, st1)" "only_frees st st1"
    by (auto simp: I_def)
  obtain it where it: "new_ptiter st1 pt = Some it" "pt_done it \<or> pt_ok it" using new_ptiter_ends by blast
  obtain st2 where t: "free_tables ke it st1 = Some st2" "only_frees st st2" using free_tables_ends[OF it(2) l(2)] by blast
  then show ?thesis using l(1) it(1) only_frees_kfree[OF t(2)] by (simp add: free_pagetable_def)
qed

text \<open>
  \<open>free_pagetable\<close> of a well-formed page table always returns: the loop over the user pages and the
  depth-first walk over the table pages both end, and no walk panics. It writes no memory and only lowers
  counts, none below zero.
\<close>

theorem free_pagetable_returns:
  assumes "vm_ok ke st pt"
  shows "\<exists>st'. free_pagetable ke pt st = Inr st' \<and> pmem st' = pmem st \<and> (\<forall>n. refcount st' n \<le> refcount st n)"
  using free_pagetable_lemma[OF assms] by (auto simp: only_frees_def)

theorem free_pagetable_returns_witness:
  "\<exists>st st'. refcount st 1 = 1 \<and> free_pagetable 0x50000 0x1000 st = Inr st'"
proof -
  define st where "st = \<lparr>pmem = (\<lambda>_ _. 0) :: u64 \<Rightarrow> nat \<Rightarrow> u64, refcount = (\<lambda>_. 0)(1 := 1)\<rparr>"
  have "refcount st 1 = 1" by (simp add: st_def)
  then show ?thesis using free_pagetable_returns[OF boot_mem_ok(1)[OF st_def]] by blast
qed

section \<open>Allocating a page\<close>

text \<open>A page taken from the allocator and filled: no page table notices.\<close>

definition take_page :: "u64 \<Rightarrow> (nat \<Rightarrow> u64) \<Rightarrow> kmem \<Rightarrow> kmem" where
  "take_page pa f st = (let st = incref (page_of pa) st in st\<lparr>pmem := (pmem st)(pa := f)\<rparr>)"

lemma take_page_simps [simp]:
  "pmem (take_page pa f st) = (pmem st)(pa := f)"
  "refcount (take_page pa f st) = (refcount st)(page_of pa := refcount st (page_of pa) + 1)"
  by (simp_all add: take_page_def incref_def)

lemma take_page_free: "free_page ke st pa \<Longrightarrow> free_page ke (take_page pa f st) q \<longleftrightarrow> free_page ke st q \<and> q \<noteq> pa"
  using alloc_free_pages[of ke st pa 0 q] by (simp add: free_page_def memset_page_def take_page_def incref_def)

lemma take_page_vm:
  assumes "vm_ok ke st pt" "free_page ke st pa"
  shows "vm_ok ke (take_page pa f st) pt" "tables (take_page pa f st) pt = tables st pt"
    "new_vmiter (take_page pa f st) pt va = new_vmiter st pt va" "lookup (take_page pa f st) pt va = lookup st pt va"
proof -
  have a: "\<And>q. q \<in> tables st pt \<Longrightarrow> pmem (take_page pa f st) q = pmem st q" using tables_not_free[OF assms(1)] assms(2) by auto
  have b: "\<And>q. free_page ke (take_page pa f st) q \<Longrightarrow> free_page ke st q" using take_page_free[OF assms(2)] by blast
  show "vm_ok ke (take_page pa f st) pt" "tables (take_page pa f st) pt = tables st pt"
    "new_vmiter (take_page pa f st) pt va = new_vmiter st pt va" "lookup (take_page pa f st) pt va = lookup st pt va"
    using vm_ok_frame[OF assms(1) a b] by blast+
qed

lemma kalloc_page:
  obtains (page) pa where "free_page ke st pa" "kalloc ke PAGESIZE st = (pa, take_page pa (\<lambda>_. 0xCCCCCCCCCCCCCCCC) st)" "pa \<noteq> 0"
    | (full) "kalloc ke PAGESIZE st = (0, st)" "\<nexists>q. free_page ke st q"
proof (cases rule: kalloc_cases[where sz = PAGESIZE and ke = ke and st = st, OF less_irrefl])
  case (1 pa)
  then show ?thesis using page[of pa] free_pageD(3)[of ke st pa] by (simp add: memset_page_def take_page_def Let_def)
next
  case 2
  then show ?thesis by (rule full)
qed

lemma fresh_pa:
  assumes "free_page ke st pa"
  shows "pa AND PTE_PAMASK = pa" "pa < 0x100000000"
proof -
  show "pa AND PTE_PAMASK = pa"
    by (rule bit_word_eqI) (auto simp: bit_and_iff pamask_bits dest: free_page_bits[OF assms])
  show "pa < 0x100000000" using free_page_small[OF assms] by (simp add: word_less_nat_alt)
qed

lemma flags_facts:
  "bit PTE_PWU 0" "PTE_PWU < 0x1000" "bit (PTE_P OR PTE_U) 0" "PTE_P OR PTE_U < 0x1000"
  by (simp_all add: PTE_PWU_def PTE_P_def PTE_U_def)

text \<open>
  The call takes every page-aligned canonical address, whatever is mapped there: it looks neither at the limits that
  \<open>u-lib.hh\<close> sets for the address nor at the old mapping.
\<close>

lemma page_alloc_any_address:
  assumes "vm_ok (kernel_end lk) (mem k) (pagetable (cur k))" "va_is_canonical addr" "addr mod PAGESIZE = 0"
  shows "\<exists>r st'. syscall_page_alloc lk addr k = Inr (r, k\<lparr>mem := st'\<rparr>) \<and> vm_ok (kernel_end lk) st' (pagetable (cur k)) \<and>
    (\<forall>q. q \<notin> tables (mem k) (pagetable (cur k)) \<and> \<not> free_page (kernel_end lk) (mem k) q \<longrightarrow> pmem st' q = pmem (mem k) q) \<and>
    (\<forall>q. free_page (kernel_end lk) st' q \<longrightarrow> free_page (kernel_end lk) (mem k) q) \<and>
    (r = 0 \<and> (\<exists>pa. free_page (kernel_end lk) (mem k) pa \<and> \<not> free_page (kernel_end lk) st' pa \<and> pmem st' pa = (\<lambda>_. 0) \<and>
        (\<forall>va. lookup st' (pagetable (cur k)) va =
          (if agree_above PAGEOFFBITS addr va then Inr (Some (pa + (va AND 0xFFF), PTE_PWU)) else lookup (mem k) (pagetable (cur k)) va)))
     \<or> r = - 1 \<and> (\<nexists>q. free_page (kernel_end lk) st' q) \<and>
        (\<forall>va. lookup st' (pagetable (cur k)) va = lookup (mem k) (pagetable (cur k)) va))"
proof -
  define ke st pt where "ke = kernel_end lk" and "st = mem k" and "pt = pagetable (cur k)"
  have ok: "vm_ok ke st pt" using assms(1) by (simp add: ke_def st_def pt_def)
  show ?thesis
  proof (cases rule: kalloc_page[where ke = ke and st = st])
    case full
    then have "syscall_page_alloc lk addr k = Inr (- 1, k\<lparr>mem := st\<rparr>)" by (simp add: syscall_page_alloc_def ke_def st_def)
    then show ?thesis using full(2) ok unfolding ke_def st_def pt_def by blast
  next
    case (page pa)
    define st1 where "st1 = take_page pa (\<lambda>_. 0) st"
    note v = take_page_vm[OF ok page(1), of "\<lambda>_. 0", folded st1_def]
    have m: "memset_page pa 0 (take_page pa (\<lambda>_. 0xCCCCCCCCCCCCCCCC) st) = st1"
      by (simp add: st1_def take_page_def memset_page_def incref_def)
    obtain it where it: "new_vmiter st1 pt addr = Inr it" using walk_exists[OF v(1)] by blast
    from try_map_lemma[OF v(1) assms(2,3) flags_facts(1,2) fresh_pa[OF page(1)] it] obtain r st2 it2 where
      t: "try_map ke pa PTE_PWU (st1, it) = Inr (r, st2, it2)" "vm_ok ke st2 pt" "evolves ke pt st1 st2" and
      res: "r = 0 \<and> (\<forall>va'. lookup st2 pt va' =
          (if agree_above PAGEOFFBITS addr va' then Inr (Some (pa + (va' AND 0xFFF), PTE_PWU)) else lookup st1 pt va'))
        \<or> r = - 1 \<and> (\<nexists>q. free_page ke st2 q) \<and> (\<forall>va'. lookup st2 pt va' = lookup st1 pt va')" by blast
    have "syscall_page_alloc lk addr k = Inr (if r < 0 then - 1 else 0, k\<lparr>mem := st2\<rparr>)"
      using page(2,3) m it t(1)
      by (simp add: syscall_page_alloc_def try_map_kptr_def pwu ke_def[symmetric] st_def[symmetric] pt_def[symmetric])
    moreover have nf: "free_page ke st1 q \<longleftrightarrow> free_page ke st q \<and> q \<noteq> pa" for q
      using take_page_free[OF page(1)] by (simp add: st1_def)
    have "pmem st2 q = pmem st q" if "q \<notin> tables st pt" "\<not> free_page ke st q" for q
      using evolvesD(3)[OF t(3), of q] that nf[of q] v(2) page(1) by (auto simp: st1_def)
    moreover have "free_page ke st q" if "free_page ke st2 q" for q using evolvesD(1)[OF t(3), of q] that nf by blast
    moreover have "pmem st2 pa = (\<lambda>_. 0)" "\<not> free_page ke st2 pa"
    proof -
      have "pa \<notin> tables st1 pt" using v(2) tables_not_free[OF ok] page(1) by auto
      then show "pmem st2 pa = (\<lambda>_. 0)" using evolvesD(3)[OF t(3), of pa] nf by (simp add: st1_def)
      show "\<not> free_page ke st2 pa" using evolvesD(1)[OF t(3), of pa] nf by blast
    qed
    moreover have "r = 0 \<or> r = - 1" using res by blast
    ultimately show ?thesis using t(2) res page(1) v(4)
      by (intro exI[of _ r] exI[of _ st2]) (auto simp: ke_def[symmetric] st_def[symmetric] pt_def[symmetric])
  qed
qed

text \<open>
  Beyond the limits of \<open>u-lib.hh\<close> the specification promises a negative error code; the call fails there only when
  memory is used up, and maps a page for the user otherwise.
\<close>

lemma page_alloc_outside_limits:
  assumes "vm_ok (kernel_end lk) (mem k) (pagetable (cur k))" "va_is_canonical addr" "addr mod PAGESIZE = 0"
    "addr < PROC_START_ADDR \<or> MEMSIZE_VIRTUAL \<le> addr"
  shows "\<exists>r st'. syscall_page_alloc lk addr k = Inr (r, k\<lparr>mem := st'\<rparr>) \<and>
    (r = - 1 \<and> (\<nexists>q. free_page (kernel_end lk) st' q) \<or> r = 0 \<and> (\<exists>pa. lookup st' (pagetable (cur k)) addr = Inr (Some (pa, PTE_PWU))))"
proof -
  have self: "agree_above PAGEOFFBITS addr addr" by (simp add: agree_above_def)
  from page_alloc_any_address[OF assms(1-3)] show ?thesis using self by fastforce
qed

text \<open>The page that was mapped at the address before should be freed; it stays in use.\<close>

lemma page_alloc_keeps_old_page:
  assumes "vm_ok (kernel_end lk) (mem k) (pagetable (cur k))" "va_is_canonical addr" "addr mod PAGESIZE = 0"
    "lookup (mem k) (pagetable (cur k)) addr = Inr (Some (old, perm))" "\<not> free_page (kernel_end lk) (mem k) old"
  shows "\<exists>r st'. syscall_page_alloc lk addr k = Inr (r, k\<lparr>mem := st'\<rparr>) \<and> \<not> free_page (kernel_end lk) st' old"
  using page_alloc_any_address[OF assms(1-3)] assms(5) by blast

text \<open>
  C14. \<open>sys_page_alloc\<close> at an address that \<open>u-lib.hh\<close> allows, page-aligned, from \<open>PROC_START_ADDR\<close> on and below
  \<open>MEMSIZE_VIRTUAL\<close>, where nothing is mapped yet: with 0, the page at that address is a page that was
  free, filled with zeros, readable and writable by the process; every other translation of the process,
  and all memory in use other than its page tables, is as before. With -1, memory is exhausted and
  no translation changed. No process descriptor changes, and the kernel does not panic.
\<close>

theorem page_alloc_maps_fresh_zero_page:
  assumes "vm_ok (kernel_end lk) (mem k) (pagetable (cur k))" "PROC_START_ADDR \<le> addr" "addr < MEMSIZE_VIRTUAL" "addr mod PAGESIZE = 0"
    "lookup (mem k) (pagetable (cur k)) addr = Inr None"
  shows "\<exists>r st'. syscall_page_alloc lk addr k = Inr (r, k\<lparr>mem := st'\<rparr>) \<and> vm_ok (kernel_end lk) st' (pagetable (cur k)) \<and>
    (\<forall>q. q \<notin> tables (mem k) (pagetable (cur k)) \<and> \<not> free_page (kernel_end lk) (mem k) q \<longrightarrow> pmem st' q = pmem (mem k) q) \<and>
    (r = 0 \<and> (\<exists>pa. free_page (kernel_end lk) (mem k) pa \<and> \<not> free_page (kernel_end lk) st' pa \<and> pmem st' pa = (\<lambda>_. 0) \<and>
        (\<forall>va. lookup st' (pagetable (cur k)) va =
          (if agree_above PAGEOFFBITS addr va then Inr (Some (pa + (va AND 0xFFF), PTE_PWU)) else lookup (mem k) (pagetable (cur k)) va)))
     \<or> r = - 1 \<and> (\<nexists>q. free_page (kernel_end lk) st' q) \<and>
        (\<forall>va. lookup st' (pagetable (cur k)) va = lookup (mem k) (pagetable (cur k)) va))"
proof -
  have "va_is_canonical addr" using assms(3) by (auto simp: va_is_canonical_def VA_LOWMAX_def MEMSIZE_VIRTUAL_def word_less_nat_alt word_le_nat_alt)
  from page_alloc_any_address[OF assms(1) this assms(4)] show ?thesis by blast
qed

text \<open>
  \<open>sys_page_alloc\<close> at an address that is not page-aligned panics the kernel as long as a page is
  free, though the specification of the call promises a negative error code; with no free page it
  returns -1 and nothing changes.
\<close>

theorem page_alloc_unaligned_panics:
  assumes "vm_ok (kernel_end lk) (mem k) (pagetable (cur k))" "addr mod PAGESIZE \<noteq> 0"
  shows "syscall_page_alloc lk addr k =
    (if \<exists>q. free_page (kernel_end lk) (mem k) q then Inl (AssertFailed ''vmiter::try_map va not aligned'') else Inr (- 1, k))"
proof (cases rule: kalloc_page[where ke = "kernel_end lk" and st = "mem k"])
  case full
  then show ?thesis by (auto simp: syscall_page_alloc_def)
next
  case (page pa)
  define st1 where "st1 = take_page pa (\<lambda>_. 0) (mem k)"
  note v = take_page_vm[OF assms(1) page(1), of "\<lambda>_. 0", folded st1_def]
  have m: "memset_page pa 0 (take_page pa (\<lambda>_. 0xCCCCCCCCCCCCCCCC) (mem k)) = st1"
    by (simp add: st1_def take_page_def memset_page_def incref_def)
  obtain it where it: "new_vmiter st1 (pagetable (cur k)) addr = Inr it" using walk_exists[OF v(1)] by blast
  have "it_va it mod PAGESIZE \<noteq> 0" using assms(2) new_vmiter_va[OF it] by simp
  then have "try_map (kernel_end lk) pa PTE_PWU (st1, it) = Inl (AssertFailed ''vmiter::try_map va not aligned'')"
    by (simp add: try_map_def Let_def del: mod_eq_0_iff_dvd)
  then show ?thesis using page m it by (auto simp: syscall_page_alloc_def try_map_kptr_def pwu)
qed

text \<open>For the examples: process 1 runs in an empty page table at \<open>0x1000\<close>, and its page is the only one in use.\<close>

definition example_link :: link where
  "example_link = \<lparr>kernel_end = 0x50000, kernel_pagetable = 0x42000, exception_entry = 0x40000, first_process = [], ramimages = []\<rparr>"

definition example_kernel :: kernel where
  "example_kernel = \<lparr>mem = \<lparr>pmem = (\<lambda>_ _. 0), refcount = (\<lambda>_. 0)(1 := 1)\<rparr>,
     ptable = (\<lambda>i. \<lparr>pagetable = (if i = 1 then 0x1000 else 0), pid = i, state = (if i = 1 then P_RUNNABLE else P_FREE), regs = zero_regs\<rparr>),
     current = 1, ticks = 1, last_ticks = 0, showing = 0,
     viewing = new_memusage, screen = \<lparr>cells = (\<lambda>_. 0x0720), cursorpos = 0\<rparr>\<rparr>"

lemma example_ok:
  "vm_ok (kernel_end example_link) (mem example_kernel) (pagetable (cur example_kernel))"
  "free_page (kernel_end example_link) (mem example_kernel) 0x2000"
  using boot_mem_ok(1)[of "mem example_kernel"]
  by (simp_all add: example_link_def example_kernel_def cur_def free_page_def allocatable_physical_address_def reserved_physical_address_def
      page_aligned_def page_of_def PAGESIZE_def KERNEL_START_ADDR_def KERNEL_STACK_TOP_def MEMSIZE_PHYSICAL_def)

theorem page_alloc_maps_fresh_zero_page_witness:
  "\<exists>r st'. syscall_page_alloc example_link 0x100000 example_kernel = Inr (r, example_kernel\<lparr>mem := st'\<rparr>) \<and> r \<in> {0, - 1}"
proof -
  have "PROC_START_ADDR \<le> 0x100000" "0x100000 < MEMSIZE_VIRTUAL" "(0x100000 :: u64) mod PAGESIZE = 0"
    by (simp_all add: PROC_START_ADDR_def MEMSIZE_VIRTUAL_def PAGESIZE_def del: mod_eq_0_iff_dvd)
  note at = this
  have "lookup (mem example_kernel) (pagetable (cur example_kernel)) 0x100000 = Inr None"
    by (intro vm_ok_empty(2)[where ke = "0x50000"]) (simp_all add: example_kernel_def cur_def free_page_def page_of_def PAGESIZE_def)
  from page_alloc_maps_fresh_zero_page[OF example_ok(1) at this] show ?thesis by blast
qed

theorem page_alloc_unaligned_panics_witness:
  "syscall_page_alloc example_link 0x100001 example_kernel = Inl (AssertFailed ''vmiter::try_map va not aligned'')"
proof -
  have "(0x100001 :: u64) mod PAGESIZE \<noteq> 0" by (simp add: PAGESIZE_def del: mod_eq_0_iff_dvd)
  from page_alloc_unaligned_panics[OF example_ok(1) this] show ?thesis using example_ok(2) by auto
qed

end
