(* ===== verification/Weensy_Fork.thy ===== *)
theory Weensy_Fork
  imports Weensy_Syscalls
begin

text \<open>
  \<open>syscall_fork\<close> gives the child a copy of the parent's address space: the same kernel and read-only
  mappings, and a fresh copy of every writable page. The proof carries an invariant through the three
  loops of the system call.
\<close>

section \<open>Permissions and pages\<close>

lemma wu_bits: "bit PTE_W n \<longleftrightarrow> n = 1" "bit PTE_U n \<longleftrightarrow> n = 2"
proof -
  have w: "PTE_W = 2 ^ 1" and u: "PTE_U = 2 ^ 2" by (simp_all add: PTE_W_def PTE_U_def)
  show "bit PTE_W n \<longleftrightarrow> n = 1" unfolding w by (subst bit_exp_iff) auto
  show "bit PTE_U n \<longleftrightarrow> n = 2" unfolding u by (subst bit_exp_iff) auto
qed

lemma contains_flags:
  "perm AND (PTE_P OR PTE_W) = PTE_P OR PTE_W \<longleftrightarrow> bit perm 0 \<and> bit perm 1"
  "perm AND (PTE_P OR PTE_U) = PTE_P OR PTE_U \<longleftrightarrow> bit perm 0 \<and> bit perm 2"
proof -
  have sub: "perm AND d = d \<longleftrightarrow> (\<forall>n. bit d n \<longrightarrow> bit perm n)" for d
  proof
    show "perm AND d = d \<Longrightarrow> \<forall>n. bit d n \<longrightarrow> bit perm n" by (metis bit_and_iff)
    show "\<forall>n. bit d n \<longrightarrow> bit perm n \<Longrightarrow> perm AND d = d" by (intro bit_word_eqI) (auto simp: bit_and_iff)
  qed
  show "perm AND (PTE_P OR PTE_W) = PTE_P OR PTE_W \<longleftrightarrow> bit perm 0 \<and> bit perm 1"
    "perm AND (PTE_P OR PTE_U) = PTE_P OR PTE_U \<longleftrightarrow> bit perm 0 \<and> bit perm 2"
    unfolding sub by (auto simp: bit_or_iff pte_flag_bits wu_bits)
qed

lemma copied_perm_eq: "vm_present st it \<Longrightarrow> copied_perm st it = vm_perm st it AND PTE_PWU"
proof -
  assume "vm_present st it"
  then have p: "bit (vm_perm st it) 0" using and_PTE_P[of "vm_perm st it"] by (auto simp: vm_present_def vm_has_perm_def PTE_P_def)
  then have w: "vm_writable st it \<longleftrightarrow> bit (vm_perm st it) 1" "vm_user st it \<longleftrightarrow> bit (vm_perm st it) 2"
    by (simp_all add: vm_writable_def vm_user_def vm_has_perm_def contains_flags)
  have three: "n < 3 \<longleftrightarrow> n = 0 \<or> n = 1 \<or> n = 2" for n :: nat by auto
  show ?thesis
    by (rule bit_word_eqI) (auto simp: copied_perm_def Let_def bit_or_iff bit_and_iff pte_flag_bits wu_bits w three p)
qed

lemma masked_perm: "bit perm 0 \<Longrightarrow> bit (perm AND PTE_PWU) 0 \<and> perm AND PTE_PWU < 0x1000" for perm :: u64
proof -
  assume "bit perm 0"
  have "perm AND PTE_PWU \<le> PTE_PWU" using word_and_le1 by blast
  then show ?thesis using \<open>bit perm 0\<close> by (auto simp: bit_and_iff pte_flag_bits PTE_PWU_def intro: le_less_trans)
qed

lemma page_aligned_and: "page_aligned va \<longleftrightarrow> va AND 0xFFF = 0"
  by (simp add: page_aligned_def aligned_mod PAGESIZE_def del: mod_eq_0_iff_dvd)

lemma aligned_inj:
  assumes "page_aligned p" "page_aligned q" "page_of p = page_of q"
  shows "p = q"
proof -
  have "unat p = 4096 * page_of p" if "page_aligned p" for p
    using that by (simp add: page_aligned_and aligned_dvd page_of_def unat_div PAGESIZE_def)
  then show ?thesis using assms by (simp add: word_unat_eq_iff)
qed

lemma pamask_aligned: "pa AND PTE_PAMASK = pa \<Longrightarrow> page_aligned pa"
proof -
  assume a: "pa AND PTE_PAMASK = pa"
  have m: "(0xFFF :: u64) = mask 12" by (simp add: mask_eq_exp_minus_1)
  have "bit pa n \<Longrightarrow> 12 \<le> n" for n by (metis a bit_and_iff pamask_bits)
  then have "\<not> (bit pa n \<and> n < 12)" for n by (metis not_less)
  then have "pa AND mask 12 = 0" by (intro bit_word_eqI) (auto simp: bit_and_iff bit_mask_iff)
  then show ?thesis by (simp add: page_aligned_and m)
qed

lemma agree_page: "page_aligned a \<Longrightarrow> page_aligned b \<Longrightarrow> agree_above PAGEOFFBITS a b \<longleftrightarrow> a = b"
proof
  assume a: "page_aligned a" "page_aligned b" and eq: "agree_above PAGEOFFBITS a b"
  have m: "(0xFFF :: u64) = mask 12" by (simp add: mask_eq_exp_minus_1)
  have low: "\<not> bit x n" if "page_aligned x" "n < 12" for x n
  proof -
    have "\<not> bit (x AND mask 12) n" using that(1) by (simp add: page_aligned_and m)
    then show ?thesis using that(2) by (auto simp: bit_and_iff bit_mask_iff dest: bit_imp_le_length)
  qed
  show "a = b"
  proof (rule bit_word_eqI)
    fix n show "bit a n \<longleftrightarrow> bit b n"
      using eq low[OF a(1), of n] low[OF a(2), of n] by (cases "n < 12") (auto simp: agree_above_bits PAGEOFFBITS_def)
  qed
qed (simp add: agree_above_def)

section \<open>The pages of a process\<close>

definition user_page :: "kmem \<Rightarrow> u64 \<Rightarrow> u64 \<Rightarrow> u64 \<Rightarrow> u64 \<Rightarrow> bool" where
  "user_page st pt a pa perm \<longleftrightarrow>
     page_aligned a \<and> a < MEMSIZE_VIRTUAL \<and> a \<noteq> CONSOLE_ADDR \<and> lookup st pt a = Inr (Some (pa, perm)) \<and> bit perm 2"

text \<open>
  A process to copy: its page table is well formed, its pages are in use (with room in their counts),
  and no two of its addresses share a page.
\<close>

definition address_space_ok :: "u64 \<Rightarrow> kmem \<Rightarrow> u64 \<Rightarrow> bool" where
  "address_space_ok ke st pt \<longleftrightarrow> vm_ok ke st pt \<and>
     (\<forall>a pa perm. user_page st pt a pa perm \<longrightarrow> \<not> free_page ke st pa \<and> refcount st (page_of pa) \<noteq> 255) \<and>
     (\<forall>a a' pa perm perm'. user_page st pt a pa perm \<and> user_page st pt a' pa perm' \<longrightarrow> a = a')"

text \<open>Memory while the page table \<open>pt\<close> of the child is built: everything in use at the start is untouched.\<close>

definition building :: "u64 \<Rightarrow> kmem \<Rightarrow> u64 \<Rightarrow> kmem \<Rightarrow> bool" where
  "building ke st0 pt st \<longleftrightarrow> vm_ok ke st pt \<and> tables st pt \<subseteq> {q. free_page ke st0 q} \<and>
     (\<forall>q. free_page ke st q \<longrightarrow> free_page ke st0 q) \<and> (\<forall>q. \<not> free_page ke st0 q \<longrightarrow> pmem st q = pmem st0 q)"

lemma building_parent:
  assumes "building ke st0 pt st" "vm_ok ke st0 par"
  shows "vm_ok ke st par" "new_vmiter st par va = new_vmiter st0 par va" "lookup st par va = lookup st0 par va"
proof -
  have a: "\<And>q. q \<in> tables st0 par \<Longrightarrow> pmem st q = pmem st0 q" using tables_not_free[OF assms(2)] assms(1) by (auto simp: building_def)
  have b: "\<And>q. free_page ke st q \<Longrightarrow> free_page ke st0 q" using assms(1) by (simp add: building_def)
  show "vm_ok ke st par" "new_vmiter st par va = new_vmiter st0 par va" "lookup st par va = lookup st0 par va"
    using vm_ok_frame[OF assms(2) a b] by blast+
qed

lemma buildingD:
  assumes "building ke st0 pt st"
  shows "vm_ok ke st pt" "q \<in> tables st pt \<Longrightarrow> free_page ke st0 q" "free_page ke st q \<Longrightarrow> free_page ke st0 q"
    "\<not> free_page ke st0 q \<Longrightarrow> pmem st q = pmem st0 q"
  using assms unfolding building_def by auto

lemma building_evolves:
  assumes "building ke st0 pt st" "vm_ok ke st' pt" "evolves ke pt st st'"
  shows "building ke st0 pt st'"
  unfolding building_def
proof (intro conjI allI impI subsetI)
  note b = buildingD[OF assms(1)] and e = evolvesD[OF assms(3)]
  show "vm_ok ke st' pt" by (rule assms(2))
  fix q
  show "q \<in> tables st' pt \<Longrightarrow> q \<in> {q. free_page ke st0 q}" using e(6)[of q] b(2,3)[of q] by auto
  show "free_page ke st' q \<Longrightarrow> free_page ke st0 q" using e(1)[of q] b(3)[of q] by simp
  show "pmem st' q = pmem st0 q" if "\<not> free_page ke st0 q"
  proof -
    have "q \<notin> tables st pt" "\<not> free_page ke st q" using b(2,3)[of q] that by auto
    then show ?thesis using e(3)[of q] b(4)[OF that] by simp
  qed
qed

text \<open>Mapping a page in the child.\<close>

lemma building_map:
  assumes "building ke st0 pt st" "va_is_canonical a" "page_aligned a" "bit perm 0" "perm < 0x1000"
    "pa AND PTE_PAMASK = pa" "pa < 0x100000000"
  obtains r st' where "try_map_at ke pt a pa perm st = Inr (r, st')" "building ke st0 pt st'" "evolves ke pt st st'"
    "r = 0 \<and> (\<forall>b. page_aligned b \<longrightarrow> lookup st' pt b = (if b = a then Inr (Some (pa, perm)) else lookup st pt b)) \<or> r = - 1"
proof -
  have ok: "vm_ok ke st pt" using assms(1) by (simp add: building_def)
  obtain it where it: "new_vmiter st pt a = Inr it" using walk_exists[OF ok] by blast
  have al: "a mod PAGESIZE = 0" using assms(3) unfolding page_aligned_def .
  from try_map_lemma[OF ok assms(2) al assms(4-7) it] obtain r st' it' where
    t: "try_map ke pa perm (st, it) = Inr (r, st', it')" "vm_ok ke st' pt" "evolves ke pt st st'" and
    res: "r = 0 \<and> (\<forall>va'. lookup st' pt va' =
        (if agree_above PAGEOFFBITS a va' then Inr (Some (pa + (va' AND 0xFFF), perm)) else lookup st pt va')) \<or> r = - 1" by blast
  have "building ke st0 pt st'"
    using building_evolves[OF assms(1) t(2,3)] .
  moreover have "try_map_at ke pt a pa perm st = Inr (r, st')" using it t(1) by (simp add: try_map_at_def)
  moreover have "r = 0 \<and> (\<forall>b. page_aligned b \<longrightarrow> lookup st' pt b = (if b = a then Inr (Some (pa, perm)) else lookup st pt b)) \<or> r = - 1"
    using res agree_page[OF assms(3)] by (auto simp: page_aligned_and)
  ultimately show ?thesis using that t(3) by blast
qed

text \<open>Counts of pages in use stay while mapping.\<close>

lemma building_counts:
  assumes "building ke st0 pt st" "evolves ke pt st st'" "page_aligned q" "\<not> free_page ke st0 q"
  shows "refcount st' (page_of q) = refcount st (page_of q)"
proof -
  have "\<not> (free_page ke st r \<and> page_of r = page_of q)" for r
    using assms(1,3,4) aligned_inj[of r q] by (auto simp: building_def free_page_def)
  then show ?thesis using evolvesD(4)[OF assms(2), of "page_of q"] by blast
qed

lemma building_take:
  assumes "building ke st0 pt st" "free_page ke st q"
  shows "building ke st0 pt (take_page q f st)"
  using assms(1) take_page_vm(1,2)[OF _ assms(2), of pt f] take_page_free[OF assms(2), of f] assms(2)
  unfolding building_def by auto

text \<open>Giving up frees what was built and returns -1.\<close>

lemma building_give_up:
  assumes "building ke st0 pt st"
  shows "\<exists>st'. give_up ke pt st = Inr (Some (- 1), st') \<and> (\<forall>q. \<not> free_page ke st0 q \<longrightarrow> pmem st' q = pmem st0 q)"
proof -
  have "vm_ok ke st pt" using assms by (simp add: building_def)
  then obtain st' where "free_pagetable ke pt st = Inr st'" "only_frees st st'" using free_pagetable_lemma by blast
  then show ?thesis using assms by (auto simp: give_up_def only_frees_def building_def)
qed

section \<open>The loop over the kernel mappings\<close>

definition kernel_part :: "kmem \<Rightarrow> u64 \<Rightarrow> u64 \<Rightarrow> (u64 \<times> u64) option" where
  "kernel_part st0 par a = (case lookup st0 par a of Inr (Some (pa, perm)) \<Rightarrow> Some (pa, perm AND PTE_PWU) | _ \<Rightarrow> None)"

definition fork_failed :: "u64 \<Rightarrow> kmem \<Rightarrow> int \<Rightarrow> kmem \<Rightarrow> bool" where
  "fork_failed ke st0 v st \<longleftrightarrow> v = - 1 \<and> (\<forall>q. \<not> free_page ke st0 q \<longrightarrow> pmem st q = pmem st0 q)"

definition same_counts :: "u64 \<Rightarrow> kmem \<Rightarrow> kmem \<Rightarrow> bool" where
  "same_counts ke st0 st \<longleftrightarrow> (\<forall>q. page_aligned q \<and> \<not> free_page ke st0 q \<longrightarrow> refcount st (page_of q) = refcount st0 (page_of q))"

text \<open>Of the allocatable pages, only the new tables are counted, once each.\<close>

definition table_counts :: "u64 \<Rightarrow> kmem \<Rightarrow> u64 \<Rightarrow> kmem \<Rightarrow> bool" where
  "table_counts ke st0 pt st \<longleftrightarrow> (\<forall>q. page_aligned q \<and> allocatable_physical_address ke q \<longrightarrow>
     unat (refcount st (page_of q)) = unat (refcount st0 (page_of q)) + (if q \<in> tables st pt then 1 else 0))"

lemma evolves_counts:
  assumes "vm_ok ke st pt" "vm_ok ke st' pt" "evolves ke pt st st'" "page_aligned q" "allocatable_physical_address ke q"
  shows "unat (refcount st' (page_of q)) + (if q \<in> tables st pt then 1 else 0) =
    unat (refcount st (page_of q)) + (if q \<in> tables st' pt then 1 else 0)"
proof (cases "q \<in> tables st' pt \<and> q \<notin> tables st pt")
  case True
  then have "free_page ke st q" "\<not> free_page ke st' q" using evolvesD(6)[OF assms(3)] tables_not_free[OF assms(2)] by blast+
  then have "refcount st (page_of q) = 0" "refcount st' (page_of q) \<noteq> 0" using assms(4,5) by (auto simp: free_page_def)
  then show ?thesis using True evolvesD(4)[OF assms(3), of "page_of q"] by auto
next
  case False
  then have same: "q \<in> tables st pt \<longleftrightarrow> q \<in> tables st' pt" using evolvesD(5)[OF assms(3)] by blast
  have "\<not> (free_page ke st r \<and> page_of r = page_of q \<and> r \<in> tables st' pt)" for r
  proof
    assume r: "free_page ke st r \<and> page_of r = page_of q \<and> r \<in> tables st' pt"
    then have "r = q" using aligned_inj[OF _ assms(4)] by (auto simp: free_page_def)
    then show False using r same tables_not_free[OF assms(1)] by blast
  qed
  then show ?thesis using same evolvesD(4)[OF assms(3), of "page_of q"] by auto
qed

lemma table_counts_map:
  assumes "building ke st0 pt st" "building ke st0 pt st'" "evolves ke pt st st'" "table_counts ke st0 pt st"
  shows "table_counts ke st0 pt st'"
  unfolding table_counts_def
proof (intro allI impI; elim conjE)
  fix q assume q: "page_aligned q" "allocatable_physical_address ke q"
  have "vm_ok ke st pt" "vm_ok ke st' pt" using assms(1,2) by (simp_all add: building_def)
  from evolves_counts[OF this assms(3) q] show "unat (refcount st' (page_of q)) = unat (refcount st0 (page_of q)) + (if q \<in> tables st' pt then 1 else 0)"
    using assms(4) q unfolding table_counts_def by (auto split: if_splits)
qed

lemma give_up_fails: "building ke st0 pt st \<Longrightarrow> \<exists>st'. give_up ke pt st = Inr (Some (- 1), st') \<and> fork_failed ke st0 (- 1) st'"
  using building_give_up by (simp add: fork_failed_def)

lemma same_counts_map: "building ke st0 pt st \<Longrightarrow> evolves ke pt st st' \<Longrightarrow> same_counts ke st0 st \<Longrightarrow> same_counts ke st0 st'"
  using building_counts by (simp add: same_counts_def)

lemma aligned_below_next:
  assumes "page_aligned va" "page_aligned b" "page_aligned lim" "va < lim"
  shows "b < va + PAGESIZE \<longleftrightarrow> b < va \<or> b = va"
proof -
  have u: "unat (va + PAGESIZE) = unat va + 4096" using next_page(1)[of va lim] assms by (simp add: page_aligned_and)
  have d: "4096 dvd unat va" "4096 dvd unat b" using assms by (simp_all add: page_aligned_and aligned_dvd)
  have "unat b < unat va + 4096 \<longleftrightarrow> unat b < unat va \<or> unat b = unat va"
  proof
    assume lt: "unat b < unat va + 4096"
    obtain i j where "unat va = 4096 * i" "unat b = 4096 * j" using d by (auto elim!: dvdE)
    then show "unat b < unat va \<or> unat b = unat va" using lt by auto
  qed auto
  then show ?thesis by (simp add: word_less_nat_alt u word_unat_eq_iff)
qed

lemma low_canonical: "va < MEMSIZE_VIRTUAL \<Longrightarrow> va_is_canonical va" "va < KERNEL_STACK_TOP \<Longrightarrow> va < MEMSIZE_VIRTUAL"
  by (auto simp: va_is_canonical_def VA_LOWMAX_def MEMSIZE_VIRTUAL_def KERNEL_STACK_TOP_def word_less_nat_alt word_le_nat_alt)

lemma limits_aligned:
  "page_aligned KERNEL_START_ADDR" "page_aligned KERNEL_STACK_TOP" "page_aligned MEMSIZE_VIRTUAL" "page_aligned CONSOLE_ADDR" "page_aligned 0"
  by (simp_all add: page_aligned_and KERNEL_START_ADDR_def KERNEL_STACK_TOP_def MEMSIZE_VIRTUAL_def CONSOLE_ADDR_def)

definition kernel_inv :: "u64 \<Rightarrow> kmem \<Rightarrow> u64 \<Rightarrow> u64 \<Rightarrow> u64 \<Rightarrow> kmem \<Rightarrow> bool" where
  "kernel_inv ke st0 par pt va st \<longleftrightarrow> building ke st0 pt st \<and> same_counts ke st0 st \<and> table_counts ke st0 pt st \<and> KERNEL_START_ADDR \<le> va \<and>
     (\<forall>b. page_aligned b \<longrightarrow> lookup st pt b = Inr (if KERNEL_START_ADDR \<le> b \<and> b < va then kernel_part st0 par b else None))"

lemma kernel_step:
  assumes "kernel_inv ke st0 par pt va st" "vm_ok ke st0 par" "va < KERNEL_STACK_TOP" "page_aligned va" "new_vmiter st par va = Inr it"
  shows "(\<exists>st'. fork_kernel_body ke pt it st = Inr (None, st') \<and> kernel_inv ke st0 par pt (va + PAGESIZE) st' \<and> new_vmiter st' par va = Inr it) \<or>
    (\<exists>v st'. fork_kernel_body ke pt it st = Inr (Some v, st') \<and> fork_failed ke st0 v st')"
proof -
  have b: "building ke st0 pt st" and c: "same_counts ke st0 st" and tc: "table_counts ke st0 pt st" and lo: "KERNEL_START_ADDR \<le> va"
    and lk: "\<And>b. page_aligned b \<Longrightarrow> lookup st pt b = Inr (if KERNEL_START_ADDR \<le> b \<and> b < va then kernel_part st0 par b else None)"
    using assms(1) unfolding kernel_inv_def by blast+
  note par = building_parent[OF b assms(2)]
  have canon: "va_is_canonical va" using low_canonical assms(3) by blast
  have al: "va AND 0xFFF = 0" using assms(4) by (simp add: page_aligned_and)
  note at = lookup_at[OF par(1) canon al assms(5)]
  have kp: "kernel_part st0 par va = (if vm_present st it then Some (vm_pa st it, vm_perm st it AND PTE_PWU) else None)"
    using at(1) par(3) by (simp add: kernel_part_def)
  note below = aligned_below_next[OF assms(4) _ limits_aligned(2) assms(3)]
  have up: "KERNEL_START_ADDR \<le> va + PAGESIZE" using lo below[OF limits_aligned(1)] by (auto simp: not_less[symmetric])
  have va: "it_va it = va" using new_vmiter_va[OF assms(5)] .
  show ?thesis
  proof (cases "vm_present st it")
    case False
    then have "kernel_inv ke st0 par pt (va + PAGESIZE) st"
      using b c tc up lk kp below unfolding kernel_inv_def by auto
    then show ?thesis using False assms(5) by (simp add: fork_kernel_body_def)
  next
    case True
    note pr = at(2)[OF True]
    have perm: "bit (vm_perm st it AND PTE_PWU) 0" "vm_perm st it AND PTE_PWU < 0x1000" using masked_perm pr by auto
    from building_map[OF b canon assms(4) perm, of "vm_pa st it"] pr obtain r st' where
      t: "try_map_at ke pt va (vm_pa st it) (vm_perm st it AND PTE_PWU) st = Inr (r, st')" "building ke st0 pt st'" "evolves ke pt st st'"
      "r = 0 \<and> (\<forall>b. page_aligned b \<longrightarrow> lookup st' pt b =
         (if b = va then Inr (Some (vm_pa st it, vm_perm st it AND PTE_PWU)) else lookup st pt b)) \<or> r = - 1" by blast
    show ?thesis
    proof (cases "r = 0")
      case r: True
      have "lookup st' pt b = Inr (if KERNEL_START_ADDR \<le> b \<and> b < va + PAGESIZE then kernel_part st0 par b else None)" if "page_aligned b" for b
        using t(4) r lk[OF that] below[OF that] kp True lo that by auto
      then have "kernel_inv ke st0 par pt (va + PAGESIZE) st'"
        using t(2) same_counts_map[OF b t(3) c] table_counts_map[OF b t(2,3) tc] up unfolding kernel_inv_def by blast
      moreover have "new_vmiter st' par va = Inr it" using building_parent(2)[OF t(2) assms(2)] par(2) assms(5) by simp
      ultimately show ?thesis using True t(1) r va copied_perm_eq[OF True] by (simp add: fork_kernel_body_def)
    next
      case False
      then have "r = - 1" using t(4) by blast
      then show ?thesis using True t(1) give_up_fails[OF t(2)] va copied_perm_eq[OF True] by (auto simp: fork_kernel_body_def)
    qed
  qed
qed

lemma kernel_loop:
  assumes "building ke st0 pt st" "same_counts ke st0 st" "\<And>b. lookup st pt b = Inr None" "vm_ok ke st0 par" "table_counts ke st0 pt st"
  shows "(\<exists>st'. for_pages par KERNEL_START_ADDR KERNEL_STACK_TOP (fork_kernel_body ke pt) st = Inr (None, st') \<and>
      kernel_inv ke st0 par pt KERNEL_STACK_TOP st') \<or>
    (\<exists>v st'. for_pages par KERNEL_START_ADDR KERNEL_STACK_TOP (fork_kernel_body ke pt) st = Inr (Some v, st') \<and> fork_failed ke st0 v st')"
proof (rule for_pages_rule[where I = "kernel_inv ke st0 par pt" and Q = "fork_failed ke st0"])
  fix va st1 it assume "kernel_inv ke st0 par pt va st1" "va < KERNEL_STACK_TOP" "va AND 0xFFF = 0" "new_vmiter st1 par va = Inr it"
  then show "(\<exists>st'. fork_kernel_body ke pt it st1 = Inr (None, st') \<and> kernel_inv ke st0 par pt (va + PAGESIZE) st' \<and> new_vmiter st' par va = Inr it) \<or>
    (\<exists>v st'. fork_kernel_body ke pt it st1 = Inr (Some v, st') \<and> fork_failed ke st0 v st')"
    using kernel_step[OF _ assms(4)] by (simp add: page_aligned_and)
next
  fix va st1 assume "kernel_inv ke st0 par pt va st1"
  then have "building ke st0 pt st1" by (simp add: kernel_inv_def)
  then show "\<exists>it. new_vmiter st1 par va = Inr it" using building_parent[OF _ assms(4)] walk_exists by blast
next
  show "kernel_inv ke st0 par pt KERNEL_START_ADDR st" using assms unfolding kernel_inv_def by (auto dest: leD)
qed (simp_all add: KERNEL_STACK_TOP_def KERNEL_START_ADDR_def)

section \<open>The loop over the process mappings\<close>

text \<open>What the child has before the pages of the process are copied: the kernel's pages and the console.\<close>

definition base_part :: "kmem \<Rightarrow> u64 \<Rightarrow> u64 \<Rightarrow> (u64 \<times> u64) option" where
  "base_part st0 par a =
     (if a = CONSOLE_ADDR then Some (CONSOLE_ADDR, PTE_PWU)
      else if KERNEL_START_ADDR \<le> a \<and> a < KERNEL_STACK_TOP then kernel_part st0 par a else None)"

text \<open>
  The page of the child for a page of the parent: read-only pages are shared; a writable page is a page
  that was free, is no table, and has the contents of the parent's page.
\<close>

definition copied_page :: "u64 \<Rightarrow> kmem \<Rightarrow> u64 \<Rightarrow> kmem \<Rightarrow> u64 \<Rightarrow> u64 \<Rightarrow> u64 \<Rightarrow> bool" where
  "copied_page ke st0 pt st a pa perm \<longleftrightarrow>
     (if bit perm 1 then
        \<exists>q. lookup st pt a = Inr (Some (q, PTE_PWU)) \<and> free_page ke st0 q \<and> \<not> free_page ke st q \<and> q \<notin> tables st pt
          \<and> pmem st q = pmem st0 pa
      else lookup st pt a = Inr (Some (pa, PTE_P OR PTE_U)))"

text \<open>What the child holds of a page while the addresses below \<open>va\<close> are copied.\<close>

definition copies_below :: "kmem \<Rightarrow> u64 \<Rightarrow> u64 \<Rightarrow> kmem \<Rightarrow> u64 \<Rightarrow> u64 \<Rightarrow> u64 set" where
  "copies_below st0 par pt st va q =
     {a. a < va \<and> (\<exists>pa perm. user_page st0 par a pa perm) \<and> (\<exists>w. lookup st pt a = Inr (Some (q, w)))}"

definition fork_counts :: "u64 \<Rightarrow> kmem \<Rightarrow> u64 \<Rightarrow> u64 \<Rightarrow> u64 \<Rightarrow> kmem \<Rightarrow> bool" where
  "fork_counts ke st0 par pt va st \<longleftrightarrow> (\<forall>q. page_aligned q \<and> allocatable_physical_address ke q \<longrightarrow>
     unat (refcount st (page_of q)) =
       unat (refcount st0 (page_of q)) + card (copies_below st0 par pt st va q) + (if q \<in> tables st pt then 1 else 0))"

lemma copies_below_next:
  assumes "page_aligned va" "va < MEMSIZE_VIRTUAL" "user_page st0 par va pa perm" "lookup st' pt va = Inr (Some (c, w))"
    "\<And>b. page_aligned b \<Longrightarrow> b \<noteq> va \<Longrightarrow> lookup st' pt b = lookup st pt b"
  shows "card (copies_below st0 par pt st' (va + PAGESIZE) q) = card (copies_below st0 par pt st va q) + (if q = c then 1 else 0)"
proof -
  have al: "page_aligned a" if "user_page st0 par a p v" for a p v using that by (simp add: user_page_def)
  have "copies_below st0 par pt st' (va + PAGESIZE) q =
      (if q = c then insert va (copies_below st0 par pt st va q) else copies_below st0 par pt st va q)"
  proof (intro set_eqI)
    fix a
    show "a \<in> copies_below st0 par pt st' (va + PAGESIZE) q \<longleftrightarrow>
        a \<in> (if q = c then insert va (copies_below st0 par pt st va q) else copies_below st0 par pt st va q)"
    proof (cases "\<exists>p v. user_page st0 par a p v")
      case True
      then have a: "page_aligned a" using al by blast
      have n: "a < va + PAGESIZE \<longleftrightarrow> a < va \<or> a = va" using aligned_below_next[OF assms(1) a limits_aligned(3) assms(2)] .
      show ?thesis using True n assms(4) assms(5)[OF a] by (cases "a = va") (auto simp: copies_below_def)
    next
      case False
      then have "a \<noteq> va" using assms(3) by blast
      then show ?thesis using False by (auto simp: copies_below_def)
    qed
  qed
  moreover have "va \<notin> copies_below st0 par pt st va q" by (simp add: copies_below_def)
  ultimately show ?thesis by (cases "q = c") (simp_all add: card_insert_if)
qed

definition user_inv :: "u64 \<Rightarrow> kmem \<Rightarrow> u64 \<Rightarrow> u64 \<Rightarrow> u64 \<Rightarrow> kmem \<Rightarrow> bool" where
  "user_inv ke st0 par pt va st \<longleftrightarrow> building ke st0 pt st \<and> fork_counts ke st0 par pt va st \<and>
     (\<forall>a. page_aligned a \<and> \<not> (a < va \<and> (\<exists>pa perm. user_page st0 par a pa perm)) \<longrightarrow> lookup st pt a = Inr (base_part st0 par a)) \<and>
     (\<forall>a pa perm. a < va \<and> user_page st0 par a pa perm \<longrightarrow> copied_page ke st0 pt st a pa perm) \<and>
     (\<forall>a pa perm. \<not> a < va \<and> user_page st0 par a pa perm \<longrightarrow> refcount st (page_of pa) = refcount st0 (page_of pa)) \<and>
     (\<forall>a a' pa pa' perm perm' q w w'. a < va \<and> a' < va \<and> user_page st0 par a pa perm \<and> user_page st0 par a' pa' perm' \<and> bit perm 1 \<and> bit perm' 1 \<and>
        lookup st pt a = Inr (Some (q, w)) \<and> lookup st pt a' = Inr (Some (q, w')) \<longrightarrow> a = a')"

lemma user_invD:
  assumes "user_inv ke st0 par pt va st"
  shows "building ke st0 pt st"
    "page_aligned a \<Longrightarrow> \<not> (a < va \<and> (\<exists>pa perm. user_page st0 par a pa perm)) \<Longrightarrow> lookup st pt a = Inr (base_part st0 par a)"
    "a < va \<Longrightarrow> user_page st0 par a pa perm \<Longrightarrow> copied_page ke st0 pt st a pa perm"
    "\<not> a < va \<Longrightarrow> user_page st0 par a pa perm \<Longrightarrow> refcount st (page_of pa) = refcount st0 (page_of pa)"
    "a < va \<Longrightarrow> a' < va \<Longrightarrow> user_page st0 par a pa perm \<Longrightarrow> user_page st0 par a' pa' perm' \<Longrightarrow> bit perm 1 \<Longrightarrow> bit perm' 1 \<Longrightarrow>
       lookup st pt a = Inr (Some (q, w)) \<Longrightarrow> lookup st pt a' = Inr (Some (q, w')) \<Longrightarrow> a = a'"
    "fork_counts ke st0 par pt va st"
  using assms unfolding user_inv_def by blast+

lemma user_page_unique: "user_page st pt a pa perm \<Longrightarrow> user_page st pt a pa' perm' \<Longrightarrow> pa' = pa \<and> perm' = perm"
  by (auto simp: user_page_def)

lemma address_space_okD:
  assumes "address_space_ok ke st pt"
  shows "vm_ok ke st pt" "user_page st pt a pa perm \<Longrightarrow> \<not> free_page ke st pa" "user_page st pt a pa perm \<Longrightarrow> refcount st (page_of pa) \<noteq> 255"
    "user_page st pt a pa perm \<Longrightarrow> user_page st pt a' pa perm' \<Longrightarrow> a = a'"
  using assms unfolding address_space_ok_def by blast+

lemma user_page_pa:
  assumes "vm_ok ke st pt" "user_page st pt a pa perm"
  shows "page_aligned pa" "pa AND PTE_PAMASK = pa" "pa < 0x100000000" "bit perm 0"
proof -
  have a: "va_is_canonical a" "a AND 0xFFF = 0" "lookup st pt a = Inr (Some (pa, perm))"
    using assms(2) low_canonical(1)[of a] by (auto simp: user_page_def page_aligned_and)
  obtain it where it: "new_vmiter st pt a = Inr it" using walk_exists[OF assms(1)] by blast
  note at = lookup_at[OF assms(1) a(1,2) it]
  have "vm_present st it \<and> vm_pa st it = pa \<and> vm_perm st it = perm" using at(1) a(3) by (auto split: if_splits)
  then show "page_aligned pa" "pa AND PTE_PAMASK = pa" "pa < 0x100000000" "bit perm 0" using at(2) pamask_aligned by auto
qed

text \<open>A step that changes the translation of the current page only, and no page in use.\<close>

lemma user_step_inv:
  assumes inv: "user_inv ke st0 par pt va st" and va: "page_aligned va" "va < MEMSIZE_VIRTUAL" and ok: "address_space_ok ke st0 par"
    and up: "user_page st0 par va pa perm"
    and st': "building ke st0 pt st'"
    and here: "copied_page ke st0 pt st' va pa perm"
    and look: "\<And>b. page_aligned b \<Longrightarrow> b \<noteq> va \<Longrightarrow> lookup st' pt b = lookup st pt b"
    and keep: "\<And>q. free_page ke st0 q \<Longrightarrow> \<not> free_page ke st q \<Longrightarrow> q \<notin> tables st pt \<Longrightarrow>
        \<not> free_page ke st' q \<and> q \<notin> tables st' pt \<and> pmem st' q = pmem st q"
    and counts: "\<And>q. page_aligned q \<Longrightarrow> \<not> free_page ke st0 q \<Longrightarrow> q \<noteq> pa \<Longrightarrow> refcount st' (page_of q) = refcount st (page_of q)"
    and fresh: "\<And>q w. bit perm 1 \<Longrightarrow> lookup st' pt va = Inr (Some (q, w)) \<Longrightarrow> free_page ke st q"
    and target: "\<exists>w. lookup st' pt va = Inr (Some (c, w))"
    and change: "\<And>q. page_aligned q \<Longrightarrow> allocatable_physical_address ke q \<Longrightarrow>
        unat (refcount st' (page_of q)) + (if q \<in> tables st pt then 1 else 0) =
        unat (refcount st (page_of q)) + (if q = c then 1 else 0) + (if q \<in> tables st' pt then 1 else 0)"
  shows "user_inv ke st0 par pt (va + PAGESIZE) st'"
proof -
  note i = user_invD[OF inv] and o = address_space_okD[OF ok]
  have al: "page_aligned a" if "user_page st0 par a p w" for a p w using that by (simp add: user_page_def)
  have next_a: "a < va + PAGESIZE \<longleftrightarrow> a < va \<or> a = va" if "page_aligned a" for a
    using aligned_below_next[OF va(1) that limits_aligned(3) va(2)] .
  show ?thesis unfolding user_inv_def
  proof (intro conjI allI impI; (elim conjE)?)
    show "building ke st0 pt st'" by (rule st')
  next
    show "fork_counts ke st0 par pt (va + PAGESIZE) st'" unfolding fork_counts_def
    proof (intro allI impI; elim conjE)
      fix q assume q: "page_aligned q" "allocatable_physical_address ke q"
      obtain w where w: "lookup st' pt va = Inr (Some (c, w))" using target by blast
      show "unat (refcount st' (page_of q)) = unat (refcount st0 (page_of q)) +
          card (copies_below st0 par pt st' (va + PAGESIZE) q) + (if q \<in> tables st' pt then 1 else 0)"
        using copies_below_next[OF va up w look, of q] change[OF q] i(6) q unfolding fork_counts_def by (auto split: if_splits)
    qed
  next
    fix a assume a: "page_aligned a" "\<not> (a < va + PAGESIZE \<and> (\<exists>pa perm. user_page st0 par a pa perm))"
    then have "a \<noteq> va" using next_a[OF a(1)] up by blast
    then show "lookup st' pt a = Inr (base_part st0 par a)" using look[OF a(1)] i(2)[OF a(1)] a(2) next_a[OF a(1)] by auto
  next
    fix a p w assume a: "a < va + PAGESIZE" "user_page st0 par a p w"
    show "copied_page ke st0 pt st' a p w"
    proof (cases "a = va")
      case True
      then have "p = pa \<and> w = perm" using user_page_unique[OF up] a(2) by blast
      then show ?thesis using True here by simp
    next
      case False
      then have "copied_page ke st0 pt st a p w" "lookup st' pt a = lookup st pt a" using i(3) a next_a[OF al[OF a(2)]] look[OF al[OF a(2)]] by auto
      then show ?thesis using keep by (fastforce simp: copied_page_def split: if_splits)
    qed
  next
    fix a p w assume a: "\<not> a < va + PAGESIZE" "user_page st0 par a p w"
    then have ne: "\<not> a < va" "a \<noteq> va" using next_a[OF al[OF a(2)]] by auto
    then have "p \<noteq> pa" using o(4)[OF a(2)] up by blast
    then show "refcount st' (page_of p) = refcount st0 (page_of p)"
      using counts[of p] user_page_pa(1)[OF o(1) a(2)] o(2)[OF a(2)] i(4)[OF ne(1) a(2)] by simp
  next
    fix a a' p p' w w' q v v'
    assume a: "a < va + PAGESIZE" "a' < va + PAGESIZE" "user_page st0 par a p w" "user_page st0 par a' p' w'" "bit w 1" "bit w' 1"
      "lookup st' pt a = Inr (Some (q, v))" "lookup st' pt a' = Inr (Some (q, v'))"
    have old: "\<not> free_page ke st r" if "b < va" "user_page st0 par b p w" "bit w 1" "lookup st' pt b = Inr (Some (r, v))" for b p w r v
    proof -
      have "b \<noteq> va" using that(1) by auto
      then have "lookup st pt b = Inr (Some (r, v))" using look[OF al[OF that(2)]] that(4) by simp
      then show ?thesis using i(3)[OF that(1,2)] that(3) by (auto simp: copied_page_def)
    qed
    have new: "free_page ke st r" if "user_page st0 par va p w" "bit w 1" "lookup st' pt va = Inr (Some (r, v))" for p w r v
    proof -
      have "w = perm" using user_page_unique[OF up that(1)] by simp
      then show ?thesis using fresh that(2,3) by blast
    qed
    consider "a = va" "a' = va" | "a = va" "a' < va" | "a < va" "a' = va" | "a < va" "a' < va"
      using a(1,2) next_a[OF al[OF a(3)]] next_a[OF al[OF a(4)]] by blast
    then show "a = a'"
    proof cases
      case 2 then show ?thesis using old[OF 2(2) a(4,6,8)] new a(3,5,7) by blast
    next
      case 3 then show ?thesis using old[OF 3(1) a(3,5,7)] new a(4,6,8) by blast
    next
      case 4
      then have "a \<noteq> va" "a' \<noteq> va" by auto
      then have "lookup st pt a = Inr (Some (q, v))" "lookup st pt a' = Inr (Some (q, v'))"
        using look al a(3,4,7,8) by auto
      then show ?thesis using i(5)[OF 4 a(3-6)] by blast
    qed simp
  qed
qed

lemma user_skip:
  assumes "user_inv ke st0 par pt va st" "page_aligned va" "va < MEMSIZE_VIRTUAL" "\<And>pa perm. \<not> user_page st0 par va pa perm"
  shows "user_inv ke st0 par pt (va + PAGESIZE) st"
proof -
  have n: "a < va + PAGESIZE \<longleftrightarrow> a < va" if "user_page st0 par a pa perm" for a pa perm
    using aligned_below_next[OF assms(2) _ limits_aligned(3) assms(3), of a] that assms(4) by (auto simp: user_page_def)
  note i = user_invD[OF assms(1)]
  show ?thesis unfolding user_inv_def
  proof (intro conjI allI impI; (elim conjE)?)
    show "building ke st0 pt st" by (rule i(1))
  next
    have "copies_below st0 par pt st (va + PAGESIZE) q = copies_below st0 par pt st va q" for q
      using n by (auto simp: copies_below_def)
    then show "fork_counts ke st0 par pt (va + PAGESIZE) st" using i(6) by (simp add: fork_counts_def)
  next
    fix a assume a: "page_aligned a" "\<not> (a < va + PAGESIZE \<and> (\<exists>pa perm. user_page st0 par a pa perm))"
    then have "\<not> (a < va \<and> (\<exists>pa perm. user_page st0 par a pa perm))" using n by blast
    then show "lookup st pt a = Inr (base_part st0 par a)" using i(2)[OF a(1)] by blast
  next
    fix a pa perm assume "a < va + PAGESIZE" "user_page st0 par a pa perm"
    then show "copied_page ke st0 pt st a pa perm" using i(3) n by blast
  next
    fix a pa perm assume "\<not> a < va + PAGESIZE" "user_page st0 par a pa perm"
    then show "refcount st (page_of pa) = refcount st0 (page_of pa)" using i(4) n by blast
  next
    fix a a' p p' w w' q v v'
    assume a: "a < va + PAGESIZE" "a' < va + PAGESIZE" "user_page st0 par a p w" "user_page st0 par a' p' w'" "bit w 1" "bit w' 1"
      "lookup st pt a = Inr (Some (q, v))" "lookup st pt a' = Inr (Some (q, v'))"
    have "a < va" "a' < va" using n a(1-4) by blast+
    then show "a = a'" using i(5) a(3-) by blast
  qed
qed

text \<open>Counting one more user of a page in use.\<close>

lemma inc_unat: "x \<noteq> 255 \<Longrightarrow> unat (x + 1) = unat x + 1" for x :: u8
proof -
  assume x: "x \<noteq> 255"
  have "x + 1 \<noteq> 0"
  proof
    assume "x + 1 = 0"
    then have "x = - 1" by (simp add: eq_neg_iff_add_eq_0)
    then show False using x by simp
  qed
  then show ?thesis using unatSuc[of x] by (simp add: add.commute)
qed

lemma incref_frame:
  assumes "building ke st0 pt st" "page_aligned pa" "refcount st (page_of pa) \<noteq> 255"
  shows "building ke st0 pt (incref (page_of pa) st)" "tables (incref (page_of pa) st) pt = tables st pt"
    "lookup (incref (page_of pa) st) pt a = lookup st pt a" "pmem (incref (page_of pa) st) = pmem st"
    "free_page ke (incref (page_of pa) st) q \<Longrightarrow> free_page ke st q"
proof -
  show m: "pmem (incref (page_of pa) st) = pmem st" by (simp add: incref_def)
  have nz: "x + 1 \<noteq> 0" if "x \<noteq> 255" for x :: u8
    using inc_unat[OF that] by (auto simp flip: unat_eq_0)
  show f: "free_page ke st q" if "free_page ke (incref (page_of pa) st) q" for q
    using that nz[OF assms(3)] by (auto simp: free_page_def incref_def split: if_splits)
  note v = vm_ok_frame[OF buildingD(1)[OF assms(1)], of "incref (page_of pa) st"]
  show t: "tables (incref (page_of pa) st) pt = tables st pt" "lookup (incref (page_of pa) st) pt a = lookup st pt a"
    using v(2,4) m f by auto
  show "building ke st0 pt (incref (page_of pa) st)"
    using v(1) m f t(1) assms(1) by (auto simp: building_def)
qed

lemma pwu_order: "(PTE_P OR PTE_U) OR PTE_W = PTE_PWU"
  by (simp add: PTE_P_def PTE_W_def PTE_U_def PTE_PWU_def)

lemma user_step:
  assumes inv: "user_inv ke st0 par pt va st" and ok: "address_space_ok ke st0 par" and lim: "va < MEMSIZE_VIRTUAL" and al: "page_aligned va"
    and it: "new_vmiter st par va = Inr it"
  shows "(\<exists>st'. fork_user_body ke pt it st = Inr (None, st') \<and> user_inv ke st0 par pt (va + PAGESIZE) st' \<and> new_vmiter st' par va = Inr it) \<or>
    (\<exists>v st'. fork_user_body ke pt it st = Inr (Some v, st') \<and> fork_failed ke st0 v st')"
proof -
  note i = user_invD[OF inv] and o = address_space_okD[OF ok]
  have b: "building ke st0 pt st" by (rule i(1))
  note par = building_parent[OF b o(1)]
  have canon: "va_is_canonical va" using low_canonical(1)[OF lim] .
  have al': "va AND 0xFFF = 0" using al by (simp add: page_aligned_and)
  note at = lookup_at[OF par(1) canon al' it]
  have va: "it_va it = va" using new_vmiter_va[OF it] .
  have walk: "new_vmiter st' par va = Inr it" if "building ke st0 pt st'" for st' using building_parent(2)[OF that o(1)] par(2) it by simp
  define pa perm where "pa = vm_pa st it" and "perm = vm_perm st it"
  have seen: "vm_pa s it = pa" if "vm_present st it" "building ke st0 pt s" for s
    using lookup_at(1)[OF building_parent(1)[OF that(2) o(1)] canon al' walk[OF that(2)]] at(1) that(1)
      building_parent(3)[OF that(2) o(1)] par(3) by (auto simp: pa_def split: if_splits)
  have w: "vm_user st it \<longleftrightarrow> bit perm 0 \<and> bit perm 2" "vm_writable st it \<longleftrightarrow> bit perm 0 \<and> bit perm 1"
    by (simp_all add: vm_user_def vm_writable_def vm_has_perm_def contains_flags perm_def)
  show ?thesis
  proof (cases "vm_present st it \<and> vm_user st it \<and> va \<noteq> CONSOLE_ADDR")
    case False
    have "\<not> user_page st0 par va pa' perm'" for pa' perm'
      using False at w par(3)[of va] by (auto simp: user_page_def perm_def split: if_splits)
    then have "user_inv ke st0 par pt (va + PAGESIZE) st" using user_skip[OF inv al lim] by blast
    moreover have "fork_user_body ke pt it st = Inr (None, st)" using False va by (auto simp: fork_user_body_def)
    ultimately show ?thesis using it by blast
  next
    case c: True
    then have up: "user_page st0 par va pa perm"
      using at(1) w par(3)[of va] al lim by (simp add: user_page_def pa_def perm_def)
    note pg = user_page_pa[OF o(1) up]
    have used: "\<not> free_page ke st0 pa" using o(2)[OF up] .
    show ?thesis
    proof (cases "bit perm 1")
      case wr: True
      show ?thesis
      proof (cases rule: kalloc_page[where ke = ke and st = st])
        case full
        then show ?thesis using c wr w va give_up_fails[OF b] pg(4) by (auto simp: fork_user_body_def)
      next
        case (page q)
        define st1 where "st1 = take_page q (pmem st0 pa) st"
        have q0: "free_page ke st0 q" using buildingD(3)[OF b page(1)] .
        have st1: "building ke st0 pt st1" "tables st1 pt = tables st pt" "lookup st1 pt a = lookup st pt a" for a
          using building_take[OF b page(1)] take_page_vm(2,4)[OF buildingD(1)[OF b] page(1)] by (simp_all add: st1_def)
        have "copy_page q pa (take_page q (\<lambda>_. 0xCCCCCCCCCCCCCCCC) st) = st1"
        proof -
          have "pa \<noteq> q" using used q0 by auto
          moreover have "pmem st pa = pmem st0 pa" using buildingD(4)[OF b used] .
          ultimately show ?thesis by (simp add: st1_def copy_page_def take_page_def incref_def Let_def)
        qed
        then have cp: "copy_page q (vm_pa (take_page q (\<lambda>_. 0xCCCCCCCCCCCCCCCC) st) it) (take_page q (\<lambda>_. 0xCCCCCCCCCCCCCCCC) st) = st1"
          using seen[OF _ building_take[OF b page(1)]] c by simp
        note fp = fresh_pa[OF page(1)]
        obtain r st2 where t: "try_map_at ke pt va q PTE_PWU st1 = Inr (r, st2)" "building ke st0 pt st2" "evolves ke pt st1 st2"
          "r = 0 \<and> (\<forall>b. page_aligned b \<longrightarrow> lookup st2 pt b = (if b = va then Inr (Some (q, PTE_PWU)) else lookup st1 pt b)) \<or> r = - 1"
          using building_map[OF st1(1) canon al flags_facts(1,2) fp] by blast
        have run: "fork_user_body ke pt it st = (if r < 0 then give_up ke pt st2 else Inr (None, st2))"
          using c wr w va pg(4) page(2,3) cp t(1) pwu_order by (simp add: fork_user_body_def Let_def)
        have nf1: "free_page ke st1 x \<longleftrightarrow> free_page ke st x \<and> x \<noteq> q" for x using take_page_free[OF page(1)] by (simp add: st1_def)
        have keep1: "\<not> free_page ke st2 x \<and> x \<notin> tables st2 pt \<and> pmem st2 x = pmem st1 x" if "\<not> free_page ke st1 x" "x \<notin> tables st pt" for x
          using evolvesD(1,3,6)[OF t(3), of x] that st1(2) by blast
        show ?thesis
        proof (cases "r = 0")
          case False
          then have "r = - 1" using t(4) by blast
          then show ?thesis using run give_up_fails[OF t(2)] by auto
        next
          case True
          then have look: "lookup st2 pt b = (if b = va then Inr (Some (q, PTE_PWU)) else lookup st1 pt b)" if "page_aligned b" for b using t(4) that by simp
          have qt: "q \<notin> tables st pt" using tables_not_free[OF buildingD(1)[OF b]] page(1) by blast
          have "copied_page ke st0 pt st2 va pa perm"
            using wr look[OF al] q0 keep1[OF _ qt] nf1 by (auto simp: copied_page_def st1_def)
          then have "user_inv ke st0 par pt (va + PAGESIZE) st2"
          proof (rule user_step_inv[OF inv al lim ok up t(2)])
            fix x assume "free_page ke st0 x" "\<not> free_page ke st x" "x \<notin> tables st pt"
            then show "\<not> free_page ke st2 x \<and> x \<notin> tables st2 pt \<and> pmem st2 x = pmem st x" using keep1[of x] nf1[of x] page(1) by (auto simp: st1_def)
          next
            fix x assume x: "page_aligned x" "\<not> free_page ke st0 x" "x \<noteq> pa"
            have "x \<noteq> q" using x(2) q0 by blast
            then have "page_of x \<noteq> page_of q" using aligned_inj[OF x(1)] q0 by (auto simp: free_page_def)
            then show "refcount st2 (page_of x) = refcount st (page_of x)" using building_counts[OF st1(1) t(3) x(1,2)] by (simp add: st1_def)
          next
            fix x v assume "lookup st2 pt va = Inr (Some (x, v))"
            then show "free_page ke st x" using look[OF al] page(1) by simp
          next
            show "\<exists>w. lookup st2 pt va = Inr (Some (q, w))" using look[OF al] by simp
          next
            fix x assume x: "page_aligned x" "allocatable_physical_address ke x"
            have same: "page_of x = page_of q \<longleftrightarrow> x = q" using aligned_inj[OF x(1)] page(1) by (auto simp: free_page_def)
            have "unat (refcount st1 (page_of x)) = unat (refcount st (page_of x)) + (if x = q then 1 else 0)"
              using same free_pageD(4)[OF page(1)] by (auto simp: st1_def)
            then show "unat (refcount st2 (page_of x)) + (if x \<in> tables st pt then 1 else 0) =
                unat (refcount st (page_of x)) + (if x = q then 1 else 0) + (if x \<in> tables st2 pt then 1 else 0)"
              using evolves_counts[OF buildingD(1)[OF st1(1)] buildingD(1)[OF t(2)] t(3) x] st1(2) by simp
          qed (use look st1(3) in auto)
          then show ?thesis using run True walk[OF t(2)] by auto
        qed
      qed
    next
      case ro: False
      obtain r st2 where t: "try_map_at ke pt va pa (PTE_P OR PTE_U) st = Inr (r, st2)" "building ke st0 pt st2" "evolves ke pt st st2"
        "r = 0 \<and> (\<forall>b. page_aligned b \<longrightarrow> lookup st2 pt b = (if b = va then Inr (Some (pa, PTE_P OR PTE_U)) else lookup st pt b)) \<or> r = - 1"
        using building_map[OF b canon al flags_facts(3,4) pg(2,3)] by blast
      define st3 where "st3 = incref (page_of pa) st2"
      have run: "fork_user_body ke pt it st = (if r < 0 then give_up ke pt st2 else Inr (None, st3))"
        using c ro w va t(1) seen[OF _ t(2)] by (simp add: fork_user_body_def Let_def st3_def pa_def[symmetric])
      show ?thesis
      proof (cases "r = 0")
        case False
        then have "r = - 1" using t(4) by blast
        then show ?thesis using run give_up_fails[OF t(2)] by auto
      next
        case True
        then have look: "lookup st2 pt b = (if b = va then Inr (Some (pa, PTE_P OR PTE_U)) else lookup st pt b)" if "page_aligned b" for b using t(4) that by simp
        have rc: "refcount st2 (page_of pa) \<noteq> 255"
          using building_counts[OF b t(3) pg(1) used] i(4)[OF _ up] o(3)[OF up] by simp
        note inc = incref_frame[OF t(2) pg(1) rc, folded st3_def]
        have "copied_page ke st0 pt st3 va pa perm" using ro look[OF al] inc(3) by (simp add: copied_page_def)
        then have "user_inv ke st0 par pt (va + PAGESIZE) st3"
        proof (rule user_step_inv[OF inv al lim ok up inc(1)])
          fix x assume x: "free_page ke st0 x" "\<not> free_page ke st x" "x \<notin> tables st pt"
          then have "\<not> free_page ke st2 x \<and> x \<notin> tables st2 pt \<and> pmem st2 x = pmem st x" using evolvesD(1,3,6)[OF t(3), of x] by blast
          then show "\<not> free_page ke st3 x \<and> x \<notin> tables st3 pt \<and> pmem st3 x = pmem st x" using inc(2,4,5) by auto
        next
          fix x assume x: "page_aligned x" "\<not> free_page ke st0 x" "x \<noteq> pa"
          then have "page_of x \<noteq> page_of pa" using aligned_inj[OF x(1) pg(1)] by blast
          then show "refcount st3 (page_of x) = refcount st (page_of x)" using building_counts[OF b t(3) x(1,2)] by (simp add: st3_def incref_def)
        next
          show "\<exists>w. lookup st3 pt va = Inr (Some (pa, w))" using look[OF al] inc(3) by simp
        next
          fix x assume x: "page_aligned x" "allocatable_physical_address ke x"
          have same: "page_of x = page_of pa \<longleftrightarrow> x = pa" using aligned_inj[OF x(1) pg(1)] by blast
          have "unat (refcount st3 (page_of x)) = unat (refcount st2 (page_of x)) + (if x = pa then 1 else 0)"
            using same inc_unat[OF rc] by (auto simp: st3_def incref_def)
          then show "unat (refcount st3 (page_of x)) + (if x \<in> tables st pt then 1 else 0) =
              unat (refcount st (page_of x)) + (if x = pa then 1 else 0) + (if x \<in> tables st3 pt then 1 else 0)"
            using evolves_counts[OF buildingD(1)[OF b] buildingD(1)[OF t(2)] t(3) x] inc(2) by simp
        qed (use look inc(3) ro in auto)
        then show ?thesis using run True walk[OF inc(1)] by auto
      qed
    qed
  qed
qed

lemma user_loop:
  assumes "user_inv ke st0 par pt 0 st" "address_space_ok ke st0 par"
  shows "(\<exists>st'. for_pages par 0 MEMSIZE_VIRTUAL (fork_user_body ke pt) st = Inr (None, st') \<and> user_inv ke st0 par pt MEMSIZE_VIRTUAL st') \<or>
    (\<exists>v st'. for_pages par 0 MEMSIZE_VIRTUAL (fork_user_body ke pt) st = Inr (Some v, st') \<and> fork_failed ke st0 v st')"
proof (rule for_pages_rule[where I = "user_inv ke st0 par pt" and Q = "fork_failed ke st0"])
  fix va st1 it assume "user_inv ke st0 par pt va st1" "va < MEMSIZE_VIRTUAL" "va AND 0xFFF = 0" "new_vmiter st1 par va = Inr it"
  then show "(\<exists>st'. fork_user_body ke pt it st1 = Inr (None, st') \<and> user_inv ke st0 par pt (va + PAGESIZE) st' \<and> new_vmiter st' par va = Inr it) \<or>
    (\<exists>v st'. fork_user_body ke pt it st1 = Inr (Some v, st') \<and> fork_failed ke st0 v st')"
    using user_step[OF _ assms(2)] by (simp add: page_aligned_and)
next
  fix va st1 assume "user_inv ke st0 par pt va st1"
  then show "\<exists>it. new_vmiter st1 par va = Inr it"
    using building_parent(1)[OF user_invD(1) address_space_okD(1)[OF assms(2)]] walk_exists by blast
next
  show "user_inv ke st0 par pt 0 st" by (rule assms(1))
qed (simp_all add: MEMSIZE_VIRTUAL_def)

lemma user_start:
  assumes "kernel_inv ke st0 par pt KERNEL_STACK_TOP st" "address_space_ok ke st0 par"
  obtains r st' where "try_map_at ke pt CONSOLE_ADDR CONSOLE_ADDR PTE_PWU st = Inr (r, st')" "building ke st0 pt st'"
    "r = 0 \<and> user_inv ke st0 par pt 0 st' \<or> r = - 1"
proof -
  have b: "building ke st0 pt st" and c: "same_counts ke st0 st" and tc: "table_counts ke st0 pt st"
    and lk: "\<And>b. page_aligned b \<Longrightarrow> lookup st pt b = Inr (if KERNEL_START_ADDR \<le> b \<and> b < KERNEL_STACK_TOP then kernel_part st0 par b else None)"
    using assms(1) unfolding kernel_inv_def by blast+
  have hw: "va_is_canonical CONSOLE_ADDR" "CONSOLE_ADDR AND PTE_PAMASK = CONSOLE_ADDR" "CONSOLE_ADDR < 0x100000000"
    by (simp_all add: va_is_canonical_def VA_LOWMAX_def CONSOLE_ADDR_def PTE_PAMASK_def)
  obtain r st' where t: "try_map_at ke pt CONSOLE_ADDR CONSOLE_ADDR PTE_PWU st = Inr (r, st')" "building ke st0 pt st'" "evolves ke pt st st'"
    "r = 0 \<and> (\<forall>b. page_aligned b \<longrightarrow> lookup st' pt b = (if b = CONSOLE_ADDR then Inr (Some (CONSOLE_ADDR, PTE_PWU)) else lookup st pt b)) \<or> r = - 1"
    using building_map[OF b hw(1) limits_aligned(4) flags_facts(1,2) hw(2,3)] by blast
  have "user_inv ke st0 par pt 0 st'" if r: "r = 0"
  proof -
    have l: "lookup st' pt a = Inr (base_part st0 par a)" if "page_aligned a" for a
      using t(4) r lk[OF that] that by (simp add: base_part_def)
    have "refcount st' (page_of pa) = refcount st0 (page_of pa)" if "user_page st0 par a pa perm" for a pa perm
      using same_counts_map[OF b t(3) c] user_page_pa(1)[OF address_space_okD(1)[OF assms(2)] that] address_space_okD(2)[OF assms(2) that]
      unfolding same_counts_def by blast
    moreover have "fork_counts ke st0 par pt 0 st'"
      using table_counts_map[OF b t(2,3) tc] by (simp add: fork_counts_def table_counts_def copies_below_def)
    ultimately show ?thesis using t(2) l unfolding user_inv_def by simp
  qed
  then show ?thesis using that t(1,2,4) by blast
qed

lemma forked_space:
  assumes "user_inv ke st0 par pt MEMSIZE_VIRTUAL st"
  shows "vm_ok ke st pt" "tables st pt \<subseteq> {q. free_page ke st0 q}" "\<forall>q. \<not> free_page ke st0 q \<longrightarrow> pmem st q = pmem st0 q"
    "\<forall>a. page_aligned a \<and> (\<nexists>pa perm. user_page st0 par a pa perm) \<longrightarrow> lookup st pt a = Inr (base_part st0 par a)"
    "\<forall>a pa perm. user_page st0 par a pa perm \<longrightarrow> copied_page ke st0 pt st a pa perm"
    "\<forall>a a' pa pa' perm perm' q w w'. user_page st0 par a pa perm \<and> user_page st0 par a' pa' perm' \<and> bit perm 1 \<and> bit perm' 1
       \<and> lookup st pt a = Inr (Some (q, w)) \<and> lookup st pt a' = Inr (Some (q, w')) \<longrightarrow> a = a'"
proof -
  note i = user_invD[OF assms]
  have lt: "a < MEMSIZE_VIRTUAL" if "user_page st0 par a pa perm" for a pa perm using that by (simp add: user_page_def)
  show "vm_ok ke st pt" "tables st pt \<subseteq> {q. free_page ke st0 q}" "\<forall>q. \<not> free_page ke st0 q \<longrightarrow> pmem st q = pmem st0 q"
    using i(1) unfolding building_def by blast+
  show "\<forall>a. page_aligned a \<and> (\<nexists>pa perm. user_page st0 par a pa perm) \<longrightarrow> lookup st pt a = Inr (base_part st0 par a)"
    using i(2) by blast
  show "\<forall>a pa perm. user_page st0 par a pa perm \<longrightarrow> copied_page ke st0 pt st a pa perm" using i(3) lt by blast
  show "\<forall>a a' pa pa' perm perm' q w w'. user_page st0 par a pa perm \<and> user_page st0 par a' pa' perm' \<and> bit perm 1 \<and> bit perm' 1
       \<and> lookup st pt a = Inr (Some (q, w)) \<and> lookup st pt a' = Inr (Some (q, w')) \<longrightarrow> a = a'" using i(5) lt by blast
qed

lemma parent_lookup:
  assumes "vm_ok ke st0 par" "\<And>q. \<not> free_page ke st0 q \<Longrightarrow> pmem st q = pmem st0 q"
  shows "lookup st par va = lookup st0 par va"
proof -
  define st' where "st' = st\<lparr>refcount := refcount st0\<rparr>"
  have "lookup st par va = lookup st' par va" by (rule lookup_cong) (simp add: st'_def)
  also have "\<dots> = lookup st0 par va"
    using vm_ok_frame(4)[OF assms(1), of st'] tables_not_free[OF assms(1)] assms(2) by (simp add: st'_def free_page_def)
  finally show ?thesis .
qed

text \<open>What the call returns: -1 with nothing in use written, or the new process with the invariant at the last address.\<close>

definition forked :: "kernel \<Rightarrow> nat \<Rightarrow> u64 \<Rightarrow> kmem \<Rightarrow> kernel" where
  "forked k p pt st = k\<lparr>mem := st,
     ptable := (ptable k)(p := \<lparr>pagetable = pt, pid = p, state = P_RUNNABLE, regs = (regs (cur k))\<lparr>reg_rax := 0\<rparr>\<rparr>)\<rparr>"

lemma fork_runs:
  assumes "address_space_ok (kernel_end lk) (mem k) (pagetable (cur k))"
  shows "(\<exists>st. syscall_fork lk k = Inr (- 1, k\<lparr>mem := st\<rparr>) \<and> fork_failed (kernel_end lk) (mem k) (- 1) st) \<or>
    (\<exists>p pt st. syscall_fork lk k = Inr (int p, forked k p pt st) \<and> 1 \<le> p \<and> p < PID_MAX \<and> state (ptable k p) = P_FREE \<and>
       user_inv (kernel_end lk) (mem k) (pagetable (cur k)) pt MEMSIZE_VIRTUAL st)"
proof -
  define ke st0 par where "ke = kernel_end lk" and "st0 = mem k" and "par = pagetable (cur k)"
  note o = address_space_okD[OF assms, folded ke_def st0_def par_def]
  have ok: "address_space_ok ke st0 par" using assms by (simp add: ke_def st0_def par_def)
  note here = ke_def[symmetric] st0_def[symmetric] par_def[symmetric]
  have failed: ?thesis if run: "syscall_fork lk k = Inr (v, k\<lparr>mem := st\<rparr>)" and f: "fork_failed ke st0 v st" for v st
  proof -
    have "v = - 1" using f by (simp add: fork_failed_def)
    then show ?thesis using run f unfolding here by blast
  qed
  show ?thesis
  proof (cases "find_free_pid k")
    case None
    then have "syscall_fork lk k = Inr (- 1, k\<lparr>mem := st0\<rparr>)" by (simp add: syscall_fork_def Let_def st0_def)
    then show ?thesis by (rule failed) (simp add: fork_failed_def)
  next
    case (Some p)
    then have p: "1 \<le> p" "p < PID_MAX" "state (ptable k p) = P_FREE" by (auto simp: find_free_pid_def find_Some_iff)
    show ?thesis
    proof (cases rule: kalloc_page[where ke = ke and st = st0])
      case full
      then have "syscall_fork lk k = Inr (- 1, k\<lparr>mem := st0\<rparr>)" using Some by (simp add: syscall_fork_def Let_def kalloc_pagetable_def here)
      then show ?thesis by (rule failed) (simp add: fork_failed_def)
    next
      case (page pt)
      define st1 where "st1 = take_page pt (\<lambda>_. 0) st0"
      have kp: "kalloc_pagetable ke st0 = (pt, st1)"
        using page(2,3) by (simp add: kalloc_pagetable_def st1_def take_page_def memset_page_def incref_def Let_def)
      have nf: "free_page ke st1 q \<longleftrightarrow> free_page ke st0 q \<and> q \<noteq> pt" for q using take_page_free[OF page(1)] by (simp add: st1_def)
      note em = vm_ok_empty[of st1 pt ke]
      have b: "building ke st0 pt st1" using em(1,3) nf page(1) by (auto simp: building_def st1_def)
      have c: "same_counts ke st0 st1"
        using aligned_inj[of _ pt] page(1) by (auto simp: same_counts_def st1_def free_page_def)
      have none: "lookup st1 pt a = Inr None" for a using em(2) nf by (simp add: st1_def)
      define rest where "rest = (\<lambda>st. res_bind (try_map_at ke pt CONSOLE_ADDR CONSOLE_ADDR (PTE_P OR PTE_W OR PTE_U) st) (\<lambda>(rc1, st).
               if rc1 < 0 then unless_returned (give_up ke pt st) k (\<lambda>st. Inr (- 1, k\<lparr>mem := st\<rparr>))
               else
                 unless_returned (for_pages par 0 MEMSIZE_VIRTUAL (fork_user_body ke pt) st) k (\<lambda>st.
                 Inr (int p, upd_proc p (\<lambda>q. \<lparr>pagetable = pt, pid = p, state = P_RUNNABLE,
                    regs = (regs (cur k))\<lparr>reg_rax := 0\<rparr>\<rparr>) (k\<lparr>mem := st\<rparr>)))))"
      have run: "syscall_fork lk k = unless_returned (for_pages par KERNEL_START_ADDR KERNEL_STACK_TOP (fork_kernel_body ke pt) st1) k rest"
        using Some kp page(3) unfolding syscall_fork_def here Let_def by (simp add: rest_def)
      have "table_counts ke st0 pt st1" unfolding table_counts_def
      proof (intro allI impI; elim conjE)
        fix q assume q: "page_aligned q" "allocatable_physical_address ke q"
        have "page_of q = page_of pt \<longleftrightarrow> q = pt" using aligned_inj[OF q(1)] page(1) by (auto simp: free_page_def)
        then show "unat (refcount st1 (page_of q)) = unat (refcount st0 (page_of q)) + (if q \<in> tables st1 pt then 1 else 0)"
          using em(3) nf[of pt] free_pageD(4)[OF page(1)] by (auto simp: st1_def)
      qed
      from kernel_loop[OF b c none o(1) this] show ?thesis
      proof (elim disjE exE conjE)
        fix v st assume "for_pages par KERNEL_START_ADDR KERNEL_STACK_TOP (fork_kernel_body ke pt) st1 = Inr (Some v, st)" "fork_failed ke st0 v st"
        then show ?thesis using failed run by (simp add: unless_returned_def)
      next
        fix st2 assume k2: "for_pages par KERNEL_START_ADDR KERNEL_STACK_TOP (fork_kernel_body ke pt) st1 = Inr (None, st2)"
          "kernel_inv ke st0 par pt KERNEL_STACK_TOP st2"
        obtain r st3 where c3: "try_map_at ke pt CONSOLE_ADDR CONSOLE_ADDR PTE_PWU st2 = Inr (r, st3)" "building ke st0 pt st3"
          "r = 0 \<and> user_inv ke st0 par pt 0 st3 \<or> r = - 1" using user_start[OF k2(2) ok] by blast
        show ?thesis
        proof (cases "r = 0")
          case False
          obtain st4 where "give_up ke pt st3 = Inr (Some (- 1), st4)" "fork_failed ke st0 (- 1) st4" using give_up_fails[OF c3(2)] by blast
          then show ?thesis using failed run k2(1) c3(1,3) False by (simp add: unless_returned_def rest_def pwu)
        next
          case True
          then have "user_inv ke st0 par pt 0 st3" using c3(3) by auto
          from user_loop[OF this ok] show ?thesis
          proof (elim disjE exE conjE)
            fix v st assume "for_pages par 0 MEMSIZE_VIRTUAL (fork_user_body ke pt) st3 = Inr (Some v, st)" "fork_failed ke st0 v st"
            then show ?thesis using failed run k2(1) c3(1) True by (simp add: unless_returned_def rest_def pwu)
          next
            fix st4 assume u4: "for_pages par 0 MEMSIZE_VIRTUAL (fork_user_body ke pt) st3 = Inr (None, st4)" "user_inv ke st0 par pt MEMSIZE_VIRTUAL st4"
            have "upd_proc p (\<lambda>q. \<lparr>pagetable = pt, pid = p, state = P_RUNNABLE, regs = (regs (cur k))\<lparr>reg_rax := 0\<rparr>\<rparr>) (k\<lparr>mem := st4\<rparr>)
                = forked k p pt st4" by (simp add: upd_proc_def forked_def)
            then have "syscall_fork lk k = Inr (int p, forked k p pt st4)"
              using run k2(1) c3(1) True u4(1) by (simp add: unless_returned_def rest_def pwu)
            then show ?thesis using p u4(2) unfolding here by blast
          qed
        qed
      qed
    qed
  qed
qed

text \<open>
  C2. \<open>sys_fork\<close> copies the address space. For a parent whose page table is well formed and whose pages are in
  use and not shared between its addresses, the call never panics and writes no memory that was in use,
  and the parent's translations are as before. It returns -1, and the process table is unchanged, or it
  returns the identifier of a process that was free, which is now runnable with the parent's registers and
  0 in \<open>%rax\<close>. The child's page table is made of pages that were free. Every page of the child
  that no process page of the parent corresponds to is the console, a kernel page with the parent's mapping, or
  absent. For a process page of the parent the child has the same physical page, read-only, when the parent's is
  read-only; and otherwise a page that was free, with the same contents, writable, that no other writable
  page of the child is mapped to.
\<close>

theorem fork_copies_address_space:
  assumes "address_space_ok (kernel_end lk) (mem k) (pagetable (cur k))"
  shows "\<exists>r k'. syscall_fork lk k = Inr (r, k') \<and>
    (\<forall>q. \<not> free_page (kernel_end lk) (mem k) q \<longrightarrow> pmem (mem k') q = pmem (mem k) q) \<and>
    (\<forall>va. lookup (mem k') (pagetable (cur k)) va = lookup (mem k) (pagetable (cur k)) va) \<and>
    (r = - 1 \<and> ptable k' = ptable k \<or>
     (\<exists>p pt. r = int p \<and> 1 \<le> p \<and> p < PID_MAX \<and> state (ptable k p) = P_FREE \<and>
        ptable k' = (ptable k)(p := \<lparr>pagetable = pt, pid = p, state = P_RUNNABLE, regs = (regs (cur k))\<lparr>reg_rax := 0\<rparr>\<rparr>) \<and>
        vm_ok (kernel_end lk) (mem k') pt \<and> tables (mem k') pt \<subseteq> {q. free_page (kernel_end lk) (mem k) q} \<and>
        (\<forall>a. page_aligned a \<and> (\<nexists>pa perm. user_page (mem k) (pagetable (cur k)) a pa perm) \<longrightarrow>
           lookup (mem k') pt a = Inr (base_part (mem k) (pagetable (cur k)) a)) \<and>
        (\<forall>a pa perm. user_page (mem k) (pagetable (cur k)) a pa perm \<longrightarrow>
           copied_page (kernel_end lk) (mem k) pt (mem k') a pa perm) \<and>
        (\<forall>a a' pa pa' perm perm' q w w'. user_page (mem k) (pagetable (cur k)) a pa perm \<and> user_page (mem k) (pagetable (cur k)) a' pa' perm'
           \<and> bit perm 1 \<and> bit perm' 1 \<and> lookup (mem k') pt a = Inr (Some (q, w)) \<and> lookup (mem k') pt a' = Inr (Some (q, w')) \<longrightarrow> a = a')))"
proof -
  define ke st0 par where "ke = kernel_end lk" and "st0 = mem k" and "par = pagetable (cur k)"
  note here = ke_def[symmetric] st0_def[symmetric] par_def[symmetric]
  note o = address_space_okD[OF assms, folded ke_def st0_def par_def]
  from fork_runs[OF assms, unfolded here] show ?thesis
  proof (elim disjE exE conjE)
    fix st assume a: "syscall_fork lk k = Inr (- 1, k\<lparr>mem := st\<rparr>)" "fork_failed ke st0 (- 1) st"
    then have m: "\<And>q. \<not> free_page ke st0 q \<Longrightarrow> pmem st q = pmem st0 q" by (auto simp: fork_failed_def)
    then show ?thesis using a(1) parent_lookup[OF o(1) m] unfolding here
      by (intro exI[of _ "- 1"] exI[of _ "k\<lparr>mem := st\<rparr>"]) auto
  next
    fix p pt st assume a: "syscall_fork lk k = Inr (int p, forked k p pt st)" "1 \<le> p" "p < PID_MAX" "state (ptable k p) = P_FREE"
      "user_inv ke st0 par pt MEMSIZE_VIRTUAL st"
    have "mem (forked k p pt st) = st"
      "ptable (forked k p pt st) = (ptable k)(p := \<lparr>pagetable = pt, pid = p, state = P_RUNNABLE, regs = (regs (cur k))\<lparr>reg_rax := 0\<rparr>\<rparr>)"
      by (simp_all add: forked_def)
    moreover note forked_space[OF a(5)]
    moreover have "lookup st par va = lookup st0 par va" for va using building_parent(3)[OF user_invD(1)[OF a(5)] o(1)] .
    ultimately show ?thesis using a(1-4) unfolding here
      by (intro exI[of _ "int p"] exI[of _ "forked k p pt st"] conjI disjI2 exI[of _ p] exI[of _ pt]) (simp_all only: simp_thms)
  qed
qed

text \<open>For the example: process 1 with one page, \<open>0x5000\<close>, writable, at \<open>0x100000\<close>.\<close>

definition one_page_kernel :: kernel where
  "one_page_kernel = example_kernel\<lparr>mem :=
     \<lparr>pmem = (\<lambda>p i. if p = 0x1000 \<and> i = 0 then 0x2007 else if p = 0x2000 \<and> i = 0 then 0x3007 else if p = 0x3000 \<and> i = 0 then 0x4007
        else if p = 0x4000 \<and> i = 256 then 0x5007 else 0),
      refcount = (\<lambda>n. if n \<in> {1, 2, 3, 4, 5} then 1 else 0)\<rparr>\<rparr>"

lemma one_page_space:
  "address_space_ok 0x50000 (mem one_page_kernel) 0x1000" "user_page (mem one_page_kernel) 0x1000 0x100000 0x5000 PTE_PWU"
  "page_aligned a \<Longrightarrow> lookup (mem one_page_kernel) 0x1000 a = Inr (if a = 0x100000 then Some (0x5000, PTE_PWU) else None)"
  "d \<le> 3 \<Longrightarrow> table_at (mem one_page_kernel) 0x1000 a d =
     (if same_path d 0x100000 a then Some ([0x1000, 0x2000, 0x3000, 0x4000] ! d) else None)"
proof -
  define st where "st = mem one_page_kernel"
  let ?va = "0x100000 :: u64"
  have m: "pmem st 0x1000 i = (if i = 0 then 0x2007 else 0)" "pmem st 0x2000 i = (if i = 0 then 0x3007 else 0)"
    "pmem st 0x3000 i = (if i = 0 then 0x4007 else 0)" "pmem st 0x4000 i = (if i = 256 then 0x5007 else 0)" for i
    by (simp_all add: st_def one_page_kernel_def)
  have tab: "\<not> is_table 0" "is_table 0x2007" "is_table 0x3007" "is_table 0x4007"
    by (simp_all add: is_table_def PTE_P_def PTE_PS_def)
  have pa: "(0x2007 :: u64) AND PTE_PAMASK = 0x2000" "(0x3007 :: u64) AND PTE_PAMASK = 0x3000" "(0x4007 :: u64) AND PTE_PAMASK = 0x4000"
    "(0x5007 :: u64) AND PTE_PAMASK = 0x5000" by (simp_all add: PTE_PAMASK_def)
  have ix: "va_index ?va (level_bits 0) = 0" "va_index ?va (level_bits 1) = 0" "va_index ?va (level_bits 2) = 0" "va_index ?va (level_bits 3) = 256"
    by (simp_all add: va_index_def level_bits_def initial_lbits_def PAGEINDEXBITS_def)
  have t0: "table_at st 0x1000 va 0 = Some 0x1000" for va by simp
  have t1: "table_at st 0x1000 va (Suc 0) = (if same_path (Suc 0) ?va va then Some 0x2000 else None)" for va
    using tab pa ix(1) by (auto simp: entry_for_def m same_path_simps)
  have t2: "table_at st 0x1000 va (Suc (Suc 0)) = (if same_path (Suc (Suc 0)) ?va va then Some 0x3000 else None)" for va
    using tab pa ix(2) t1[of va] by (auto simp: entry_for_def m same_path_simps(2)[of "Suc 0"] simp del: table_at.simps(2) simp: table_at.simps(2)[of _ _ _ "Suc 0"])
  have t3: "table_at st 0x1000 va (Suc (Suc (Suc 0))) = (if same_path (Suc (Suc (Suc 0))) ?va va then Some 0x4000 else None)" for va
    using tab pa ix(3) t2[of va] by (auto simp: entry_for_def m same_path_simps(2)[of "Suc (Suc 0)"] numeral_2_eq_2 simp del: table_at.simps(2) simp: table_at.simps(2)[of _ _ _ "Suc (Suc 0)"])
  have four: "d = 0 \<or> d = Suc 0 \<or> d = Suc (Suc 0) \<or> d = Suc (Suc (Suc 0))" if "d \<le> 3" for d :: nat using that by linarith
  have at: "table_at st 0x1000 va d = (if same_path d ?va va then Some ([0x1000, 0x2000, 0x3000, 0x4000] ! d) else None)" if "d \<le> 3" for va d
    using four[OF that] t1[of va] t2[of va] t3[of va] by (elim disjE) (simp_all only: t0 same_path_simps(1) if_True nth_Cons_0 nth_Cons_Suc)
  show "table_at (mem one_page_kernel) 0x1000 a d = (if same_path d ?va a then Some ([0x1000, 0x2000, 0x3000, 0x4000] ! d) else None)" if "d \<le> 3"
    using at[OF that] by (simp add: st_def)
  have sp: "same_path d va va'" if "same_path d ?va va" "same_path d ?va va'" for d va va'
    using same_path_trans[OF same_path_sym[THEN iffD1, OF that(1)] that(2)] .
  have ok: "vm_ok 0x50000 st 0x1000" unfolding vm_ok_def
  proof (intro conjI allI impI; elim conjE)
    fix va va' d d' p
    assume a: "d \<le> 3" "d' \<le> 3" "table_at st 0x1000 va d = Some p" "table_at st 0x1000 va' d' = Some p"
    then have s: "same_path d ?va va" "same_path d' ?va va'" "[0x1000, 0x2000, 0x3000, 0x4000] ! d = ([0x1000, 0x2000, 0x3000, 0x4000] ! d' :: u64)"
      using at[OF a(1)] at[OF a(2)] by (auto split: if_splits)
    have "distinct [0x1000 :: u64, 0x2000, 0x3000, 0x4000]" by simp
    then show dd: "d = d'" using s(3) a(1,2) nth_eq_iff_index_eq[of "[0x1000 :: u64, 0x2000, 0x3000, 0x4000]" d d'] by simp
    show "same_path d va va'" by (rule sp[OF s(1)]) (simp only: dd s(2))
  next
    fix va d p assume a: "d \<le> 3" "table_at st 0x1000 va d = Some p"
    then have p: "p = [0x1000, 0x2000, 0x3000, 0x4000] ! d" using at[OF a(1)] by (auto split: if_splits)
    then have "p \<in> {0x1000, 0x2000, 0x3000, 0x4000}" using four[OF a(1)] by auto
    then show "\<not> free_page 0x50000 st p" by (auto simp: free_page_def page_of_def PAGESIZE_def st_def one_page_kernel_def)
    show "entry_ok d (entry_for st p va d)"
      using four[OF a(1)] p by (elim disjE) (auto simp: entry_for_def m entry_ok_def tab pa PTE_PWU_def PTE_P_def)
  qed
  have look: "lookup st 0x1000 a = Inr (if a = ?va then Some (0x5000, PTE_PWU) else None)" if a: "page_aligned a" "va_is_canonical a" for a
  proof -
    obtain d p where l: "leaf st 0x1000 a d p" using leaf_exists by blast
    have d: "d \<le> 3" "table_at st 0x1000 a d = Some p" using l by (auto simp: leaf_def)
    have canon: "va_is_canonical ?va" by (simp add: va_is_canonical_def VA_LOWMAX_def)
    have al: "page_aligned ?va" by (simp add: page_aligned_and)
    have path: "same_path 4 ?va a \<longleftrightarrow> ?va = a" using same_path_page[OF canon a(2)] agree_page[OF al a(1)] by simp
    have S4: "same_path 4 ?va a \<longleftrightarrow> same_path 3 ?va a \<and> va_index a (level_bits 3) = 256" using same_path_simps(2)[of 3 ?va a] ix(4) by auto
    show ?thesis
    proof (cases "bit (entry_for st p a d) 0")
      case False
      then have "a \<noteq> ?va" using path S4 at[of 3 a] leaf_unique[OF l, of 3 "0x4000"] by (auto simp: leaf_def entry_for_def m)
      then show ?thesis using lookup_leaf[OF ok a(2) l] False by (simp add: entry_mapping_def)
    next
      case True
      then have d3: "d = 3" using leaf_absent[OF ok l] d(1) by (cases "d = 3") auto
      then have p: "p = 0x4000" "same_path 3 ?va a" using at[of 3 a] d(2) by (auto split: if_splits)
      then have i: "va_index a (level_bits 3) = 256" using True d3 by (auto simp: entry_for_def m split: if_splits)
      then have "a = ?va" using path S4 p(2) by blast
      moreover have "entry_for st p a d = 0x5007" using p i d3 by (simp add: entry_for_def m)
      ultimately show ?thesis using lookup_leaf[OF ok a(2) l] d3 pa(4)
        by (simp add: entry_mapping_def level_bits_values PAGEOFFBITS_def mask_eq_exp_minus_1 initial_perm_def PTE_PWU_def)
    qed
  qed
  have lim: "?va < MEMSIZE_VIRTUAL" "page_aligned ?va" by (simp_all add: MEMSIZE_VIRTUAL_def page_aligned_and)
  have up: "user_page st 0x1000 a q perm \<longleftrightarrow> a = ?va \<and> q = 0x5000 \<and> perm = PTE_PWU" for a q perm
    using look[of a] low_canonical(1)[of a] lim
    by (auto simp: user_page_def CONSOLE_ADDR_def pte_flag_bits split: if_splits)
  have "\<not> free_page 0x50000 st 0x5000 \<and> refcount st (page_of 0x5000) \<noteq> 255"
    by (simp add: free_page_def page_of_def PAGESIZE_def st_def one_page_kernel_def)
  then show "address_space_ok 0x50000 (mem one_page_kernel) 0x1000" using ok up by (auto simp: address_space_ok_def st_def)
  show "user_page (mem one_page_kernel) 0x1000 0x100000 0x5000 PTE_PWU" using up by (simp add: st_def)
  show "lookup (mem one_page_kernel) 0x1000 a = Inr (if a = ?va then Some (0x5000, PTE_PWU) else None)" if "page_aligned a"
    using look[OF that] lookup_hole[of a st] low_canonical(1)[OF lim(1)] by (cases "va_is_canonical a") (auto simp: st_def)
qed

theorem fork_copies_address_space_witness:
  "\<exists>r k'. syscall_fork example_link one_page_kernel = Inr (r, k') \<and>
     (r = - 1 \<or> (\<exists>p pt. r = int p \<and> state (ptable k' p) = P_RUNNABLE \<and>
        (\<exists>q. lookup (mem k') pt 0x100000 = Inr (Some (q, PTE_PWU)) \<and> pmem (mem k') q = pmem (mem one_page_kernel) 0x5000)))"
proof -
  have e: "kernel_end example_link = 0x50000" "pagetable (cur one_page_kernel) = 0x1000"
    by (simp_all add: example_link_def one_page_kernel_def example_kernel_def cur_def)
  have "bit PTE_PWU 1" by (simp add: pte_flag_bits)
  then show ?thesis
    using fork_copies_address_space[of example_link one_page_kernel, unfolded e, OF one_page_space(1)] one_page_space(2)
    by (fastforce simp: copied_page_def)
qed

end
