(* ===== verification/Weensy_Exit.thy ===== *)
theory Weensy_Exit
  imports Weensy_Fork Weensy_Walk
begin

text \<open>
  \<open>free_pagetable\<close> and \<open>syscall_exit\<close> give back exactly what the process used: the loop over its pages frees
  each user mapping, the walk of \<open>Weensy_Walk\<close> each table page, and the counts follow. A fork
  followed by the exit of the child is a round trip.
\<close>

section \<open>Freeing lowers the counts\<close>

text \<open>\<open>st'\<close> is \<open>st\<close> with the count of page \<open>n\<close> lowered by \<open>c n\<close>, or to zero when it was less.\<close>

definition lowered :: "(nat \<Rightarrow> nat) \<Rightarrow> kmem \<Rightarrow> kmem \<Rightarrow> bool" where
  "lowered c st st' \<longleftrightarrow> pmem st' = pmem st \<and> (\<forall>n. unat (refcount st' n) = unat (refcount st n) - c n)"

lemma lowered_refl: "lowered (\<lambda>_. 0) st st"
  by (simp add: lowered_def)

lemma lowered_trans: "lowered c st st' \<Longrightarrow> lowered c' st' st'' \<Longrightarrow> lowered (\<lambda>n. c n + c' n) st st''"
  by (simp add: lowered_def)

lemma lowered_cong: "lowered c st st' \<Longrightarrow> (\<And>n. c n = c' n) \<Longrightarrow> lowered c' st st'"
  by (simp add: lowered_def)

text \<open>The page \<open>n\<close> is the allocatable page at \<open>q\<close>.\<close>

definition page_is :: "u64 \<Rightarrow> nat \<Rightarrow> u64 \<Rightarrow> bool" where
  "page_is ke n q \<longleftrightarrow> page_aligned q \<and> allocatable_physical_address ke q \<and> page_of q = n"

lemma page_is_unique: "page_is ke n q \<Longrightarrow> page_is ke n q' \<Longrightarrow> q = q'"
  using aligned_inj[of q q'] by (simp add: page_is_def)

lemma kfree_lowers: "lowered (\<lambda>n. if page_is ke n q then 1 else 0) st (kfree ke q st)"
proof (cases "page_is ke (page_of q) q")
  case False
  then have "kfree ke q st = st" by (auto simp: kfree_def page_is_def page_aligned_def)
  moreover have "\<not> page_is ke n q" for n using False by (auto simp: page_is_def)
  ultimately show ?thesis by (simp add: lowered_def)
next
  case True
  then have a: "allocatable_physical_address ke q" "page_aligned q" by (auto simp: page_is_def)
  have q: "q \<noteq> 0" "\<not> MEMSIZE_PHYSICAL \<le> q" "q mod PAGESIZE = 0"
    using page_number(3)[OF a] a by (auto simp: allocatable_physical_address_def not_le page_aligned_def)
  then have k: "kfree ke q st = (if refcount st (page_of q) = 0 then st
      else st\<lparr>refcount := (refcount st)(page_of q := refcount st (page_of q) - 1)\<rparr>)"
    using a(1) unfolding kfree_def page_of_def Let_def by (simp del: mod_eq_0_iff_dvd)
  have eqn: "page_is ke n q \<longleftrightarrow> n = page_of q" for n using True by (auto simp: page_is_def)
  show ?thesis unfolding lowered_def k eqn by (auto simp: unat_minus_one)
qed

definition counts_of :: "u64 \<Rightarrow> u64 set \<Rightarrow> nat \<Rightarrow> nat" where
  "counts_of ke T n = (if \<exists>q \<in> T. page_is ke n q then 1 else 0)"

lemma counts_of_insert: "q \<notin> T \<Longrightarrow> (if page_is ke n q then 1 else 0) + counts_of ke T n = counts_of ke (insert q T) n"
  using page_is_unique[of ke n q] by (auto simp: counts_of_def)

lemma free_tables_lowers:
  assumes "vm_ok ke st0 pt"
  shows "reached st0 pt B it \<Longrightarrow> pmem st = pmem st0 \<Longrightarrow>
    \<exists>st'. free_tables ke it st = Some st' \<and> lowered (counts_of ke (tables_from st0 pt B)) st st'"
proof (induction "2 ^ 70 - B" arbitrary: B it st rule: less_induct)
  case less
  show ?case
  proof (cases "pt_done it")
    case True
    then have "free_tables ke it st = Some st" by (subst free_tables.simps) simp
    then show ?thesis using reached_done[OF less.prems(1) True] lowered_refl[of st] by (simp add: counts_of_def lowered_def)
  next
    case nd: False
    define st2 where "st2 = kfree ke (pt_pa st it) st"
    have m2: "pmem st2 = pmem st0" using less.prems(2) by (simp add: st2_def kfree_facts)
    have pa: "pt_pa st it = pt_pa st0 it" using less.prems(2) by (simp add: pt_pa_def pt_entry_def)
    obtain it2 d where n: "pt_next st2 it = Some it2" "reached st0 pt (entry_key (pt_va it) (level_bits d) + 1) it2"
      "B \<le> entry_key (pt_va it) (level_bits d)"
      and T: "tables_from st0 pt B = insert (pt_pa st0 it) (tables_from st0 pt (entry_key (pt_va it) (level_bits d) + 1))"
        "pt_pa st0 it \<notin> tables_from st0 pt (entry_key (pt_va it) (level_bits d) + 1)"
      using reached_step[OF assms less.prems(1) nd m2] by metis
    have e: "free_tables ke it st = free_tables ke it2 st2"
      using nd n(1) by (subst free_tables.simps) (simp add: st2_def Let_def)
    have "2 ^ 70 - (entry_key (pt_va it) (level_bits d) + 1) < 2 ^ 70 - B" using n(3) entry_key_less[of "pt_va it" d] by simp
    then obtain st3 where f: "free_tables ke it2 st2 = Some st3"
      "lowered (counts_of ke (tables_from st0 pt (entry_key (pt_va it) (level_bits d) + 1))) st2 st3"
      using less.hyps[OF _ n(2) m2] by blast
    have "lowered (counts_of ke (tables_from st0 pt B)) st st3"
      using lowered_cong[OF lowered_trans[OF kfree_lowers f(2)[unfolded st2_def]]] counts_of_insert[OF T(2)] T(1) pa by simp
    then show ?thesis unfolding e f(1) by (intro exI[of _ st3] conjI refl)
  qed
qed

section \<open>Freeing the pages of the process\<close>

text \<open>
  What \<open>free_pagetable\<close> gives back of a page: the user mappings of it below \<open>MEMSIZE_VIRTUAL\<close>, and the page table
  it is part of.
\<close>

definition given_back :: "kmem \<Rightarrow> u64 \<Rightarrow> u64 \<Rightarrow> nat" where
  "given_back st pt q = card {a. \<exists>perm. user_page st pt a q perm} + (if q \<in> tables st pt then 1 else 0)"

definition mapped_below :: "u64 \<Rightarrow> kmem \<Rightarrow> u64 \<Rightarrow> u64 \<Rightarrow> nat \<Rightarrow> nat" where
  "mapped_below ke st pt va n = card {a. a < va \<and> (\<exists>q perm. user_page st pt a q perm \<and> page_is ke n q)}"

lemma free_body_lowers:
  assumes "vm_ok ke st0 pt" "pmem st = pmem st0" "va < MEMSIZE_VIRTUAL" "page_aligned va" "new_vmiter st pt va = Inr it"
  shows "\<exists>st'. free_body ke it st = Inr (None, st') \<and>
    lowered (\<lambda>n. if \<exists>q perm. user_page st0 pt va q perm \<and> page_is ke n q then 1 else 0) st st'"
proof -
  have canon: "va_is_canonical va" "va AND 0xFFF = 0" using low_canonical(1)[OF assms(3)] assms(4) by (simp_all add: page_aligned_and)
  have w: "new_vmiter st0 pt va = Inr it" using assms(2,5) new_vmiter_cong[OF assms(2)] by simp
  note at = lookup_at[OF assms(1) canon w]
  note p = perm_cong[OF assms(2)]
  have pres: "vm_present st it = vm_present st0 it" "vm_user st it = vm_user st0 it" by (simp_all add: vm_present_def vm_user_def p)
  have user: "vm_present st0 it \<Longrightarrow> vm_user st0 it \<longleftrightarrow> bit (vm_perm st0 it) 2"
    using at(2) contains_flags(2)[of "vm_perm st0 it"] by (simp add: vm_user_def vm_has_perm_def)
  have up: "user_page st0 pt va q perm \<longleftrightarrow> vm_present st0 it \<and> vm_user st0 it \<and> va \<noteq> CONSOLE_ADDR \<and> q = vm_pa st0 it \<and> perm = vm_perm st0 it" for q perm
    using at(1) user assms(3,4) by (auto simp: user_page_def split: if_splits)
  show ?thesis
  proof (cases "vm_present st0 it \<and> vm_user st0 it \<and> va \<noteq> CONSOLE_ADDR")
    case True
    then have "free_body ke it st = Inr (None, kfree ke (vm_pa st0 it) st)"
      using pres p(2) new_vmiter_va[OF w] by (simp add: free_body_def)
    moreover have "lowered (\<lambda>n. if \<exists>q perm. user_page st0 pt va q perm \<and> page_is ke n q then 1 else 0) st (kfree ke (vm_pa st0 it) st)"
      using kfree_lowers[of ke "vm_pa st0 it" st] True by (simp add: up)
    ultimately show ?thesis by blast
  next
    case False
    then have "free_body ke it st = Inr (None, st)"
      using pres new_vmiter_va[OF w] by (auto simp: free_body_def)
    moreover have "lowered (\<lambda>n. if \<exists>q perm. user_page st0 pt va q perm \<and> page_is ke n q then 1 else 0) st st"
      using False lowered_refl[of st] by (auto simp: up)
    ultimately show ?thesis by blast
  qed
qed

lemma mapped_below_next:
  assumes "page_aligned va" "va < MEMSIZE_VIRTUAL"
  shows "mapped_below ke st pt (va + PAGESIZE) n =
    mapped_below ke st pt va n + (if \<exists>q perm. user_page st pt va q perm \<and> page_is ke n q then 1 else 0)"
proof -
  let ?P = "\<lambda>a. \<exists>q perm. user_page st pt a q perm \<and> page_is ke n q"
  have al: "page_aligned a" if "?P a" for a using that by (auto simp: user_page_def)
  have "{a. a < va + PAGESIZE \<and> ?P a} = {a. (a < va \<or> a = va) \<and> ?P a}"
    using aligned_below_next[OF assms(1) al limits_aligned(3) assms(2)] by auto
  also have "\<dots> = (if ?P va then insert va {a. a < va \<and> ?P a} else {a. a < va \<and> ?P a})" by auto
  finally have s: "{a. a < va + PAGESIZE \<and> ?P a} = (if ?P va then insert va {a. a < va \<and> ?P a} else {a. a < va \<and> ?P a})" .
  show ?thesis unfolding mapped_below_def s by (auto simp: card_insert_if)
qed

lemma free_pagetable_lowers:
  assumes "vm_ok ke st pt"
  shows "\<exists>st'. free_pagetable ke pt st = Inr st' \<and>
    lowered (\<lambda>n. mapped_below ke st pt MEMSIZE_VIRTUAL n + counts_of ke (tables st pt) n) st st'"
proof -
  define I where "I = (\<lambda>va st'. page_aligned va \<and> lowered (mapped_below ke st pt va) st st')"
  have mem: "pmem st' = pmem st" if "I va st'" for va st' using that by (simp add: I_def lowered_def)
  have "(\<exists>st'. for_pages pt 0 MEMSIZE_VIRTUAL (free_body ke) st = Inr (None, st') \<and> I MEMSIZE_VIRTUAL st') \<or>
    (\<exists>v st'. for_pages pt 0 MEMSIZE_VIRTUAL (free_body ke) st = Inr (Some v, st') \<and> False)"
  proof (rule for_pages_rule[where I = I and Q = "\<lambda>_ _. False"])
    fix va st1 it assume a: "I va st1" "va < MEMSIZE_VIRTUAL" "va AND 0xFFF = 0" "new_vmiter st1 pt va = Inr it"
    have al: "page_aligned va" using a(3) by (simp add: page_aligned_and)
    obtain st2 where b: "free_body ke it st1 = Inr (None, st2)"
      "lowered (\<lambda>n. if \<exists>q perm. user_page st pt va q perm \<and> page_is ke n q then 1 else 0) st1 st2"
      using free_body_lowers[OF assms mem[OF a(1)] a(2) al a(4)] by blast
    have "page_aligned (va + PAGESIZE)"
      using next_page(2)[OF a(3) _ a(2)] limits_aligned(3) by (simp add: page_aligned_and)
    moreover have "lowered (mapped_below ke st pt (va + PAGESIZE)) st st2"
      by (rule lowered_cong[OF lowered_trans[OF conjunct2[OF a(1)[unfolded I_def]] b(2)]]) (rule mapped_below_next[OF al a(2), symmetric])
    moreover have "new_vmiter st2 pt va = Inr it" using b(2) a(4) new_vmiter_cong[of st2 st1] by (simp add: lowered_def)
    ultimately show "(\<exists>st'. free_body ke it st1 = Inr (None, st') \<and> I (va + PAGESIZE) st' \<and> new_vmiter st' pt va = Inr it) \<or>
        (\<exists>v st'. free_body ke it st1 = Inr (Some v, st') \<and> False)" using b(1) by (auto simp: I_def)
  next
    fix va st1 assume "I va st1"
    then show "\<exists>it. new_vmiter st1 pt va = Inr it" using new_vmiter_cong[OF mem] walk_exists[OF assms] by metis
  next
    show "I 0 st" using lowered_refl[of st] limits_aligned(5) by (simp add: I_def mapped_below_def lowered_def)
  qed (simp_all add: MEMSIZE_VIRTUAL_def)
  then obtain st1 where l: "for_pages pt 0 MEMSIZE_VIRTUAL (free_body ke) st = Inr (None, st1)"
    "lowered (mapped_below ke st pt MEMSIZE_VIRTUAL) st st1" by (auto simp: I_def)
  have m1: "pmem st1 = pmem st" using l(2) by (simp add: lowered_def)
  obtain it where new: "new_ptiter st1 pt = Some it" and "reached st1 pt (entry_key 0 21) it" using new_ptiter_reached by blast
  then have "reached st pt (entry_key 0 21) it" using walk_cong(2)[OF m1] by simp
  then obtain st2 where t: "free_tables ke it st1 = Some st2" "lowered (counts_of ke (tables_from st pt (entry_key 0 21))) st1 st2"
    using free_tables_lowers[OF assms _ m1] by blast
  have c: "counts_of ke (tables st pt) n = (if page_is ke n pt then 1 else 0) + counts_of ke (tables_from st pt (entry_key 0 21)) n" for n
    using counts_of_insert[OF tables_split(2)[OF assms]] tables_split(1)[OF assms] by simp
  have "lowered (\<lambda>n. mapped_below ke st pt MEMSIZE_VIRTUAL n + counts_of ke (tables st pt) n) st (kfree ke pt st2)"
    by (rule lowered_cong[OF lowered_trans[OF lowered_trans[OF l(2) t(2)] kfree_lowers]]) (simp add: c)
  then show ?thesis using l(1) new t(1) by (simp add: free_pagetable_def)
qed

lemma held_pages:
  assumes "page_is ke n q"
  shows "mapped_below ke st pt MEMSIZE_VIRTUAL n + counts_of ke (tables st pt) n = given_back st pt q"
proof -
  have u: "page_is ke n r \<longleftrightarrow> r = q" for r using assms page_is_unique by blast
  have "{a. a < MEMSIZE_VIRTUAL \<and> (\<exists>q perm. user_page st pt a q perm \<and> page_is ke n q)} = {a. \<exists>perm. user_page st pt a q perm}"
    by (auto simp: u) (auto simp: user_page_def)
  then show ?thesis by (simp add: mapped_below_def counts_of_def given_back_def u)
qed

lemma syscall_exit_lowers:
  assumes "vm_ok (kernel_end lk) (mem k) (pagetable (cur k))"
  obtains st' where "syscall_exit lk k = Inr (k\<lparr>mem := st',
      ptable := (ptable k)(current k := (cur k)\<lparr>state := P_FREE, pagetable := 0, regs := zero_regs\<rparr>)\<rparr>)" "pmem st' = pmem (mem k)"
    "\<And>q. page_aligned q \<Longrightarrow> allocatable_physical_address (kernel_end lk) q \<Longrightarrow>
       unat (refcount st' (page_of q)) = unat (refcount (mem k) (page_of q)) - given_back (mem k) (pagetable (cur k)) q"
    "\<And>n. \<nexists>q. page_aligned q \<and> allocatable_physical_address (kernel_end lk) q \<and> page_of q = n \<Longrightarrow> refcount st' n = refcount (mem k) n"
proof -
  let ?ke = "kernel_end lk" and ?st = "mem k" and ?pt = "pagetable (cur k)"
  obtain st' where f: "free_pagetable ?ke ?pt ?st = Inr st'"
    "lowered (\<lambda>n. mapped_below ?ke ?st ?pt MEMSIZE_VIRTUAL n + counts_of ?ke (tables ?st ?pt) n) ?st st'"
    using free_pagetable_lowers[OF assms] by blast
  show ?thesis
  proof (rule that)
    show "syscall_exit lk k = Inr (k\<lparr>mem := st',
      ptable := (ptable k)(current k := (cur k)\<lparr>state := P_FREE, pagetable := 0, regs := zero_regs\<rparr>)\<rparr>)"
      using f(1) by (simp add: syscall_exit_def upd_proc_def cur_def)
    show "pmem st' = pmem ?st" using f(2) by (simp add: lowered_def)
    fix q assume "page_aligned q" "allocatable_physical_address ?ke q"
    then show "unat (refcount st' (page_of q)) = unat (refcount ?st (page_of q)) - given_back ?st ?pt q"
      using f(2) held_pages[of ?ke "page_of q" q ?st ?pt] by (simp add: lowered_def page_is_def)
  next
    fix n assume "\<nexists>q. page_aligned q \<and> allocatable_physical_address ?ke q \<and> page_of q = n"
    then have "\<not> page_is ?ke n q" for q by (auto simp: page_is_def)
    then show "refcount st' n = refcount ?st n" using f(2) by (simp add: lowered_def mapped_below_def counts_of_def word_unat_eq_iff)
  qed
qed

text \<open>
  What the process holds of a page: its user mappings of it at whatever address, the shared console page apart, and the
  page table it is part of.
\<close>

definition user_mapping :: "kmem \<Rightarrow> u64 \<Rightarrow> u64 \<Rightarrow> u64 \<Rightarrow> bool" where
  "user_mapping st pt a q \<longleftrightarrow> page_aligned a \<and> a \<noteq> CONSOLE_ADDR \<and> (\<exists>perm. lookup st pt a = Inr (Some (q, perm)) \<and> bit perm 2)"

definition holds :: "kmem \<Rightarrow> u64 \<Rightarrow> u64 \<Rightarrow> nat" where
  "holds st pt q = card {a. user_mapping st pt a q} + (if q \<in> tables st pt then 1 else 0)"

lemma user_mapping_low: "user_mapping st pt a q \<and> a < MEMSIZE_VIRTUAL \<longleftrightarrow> (\<exists>perm. user_page st pt a q perm)"
  by (auto simp: user_mapping_def user_page_def)

lemma given_back_holds:
  assumes "\<forall>a. user_mapping st pt a q \<longrightarrow> a < MEMSIZE_VIRTUAL"
  shows "given_back st pt q = holds st pt q"
proof -
  have "{a. \<exists>perm. user_page st pt a q perm} = {a. user_mapping st pt a q}" using assms user_mapping_low by blast
  then show ?thesis by (simp add: given_back_def holds_def)
qed

text \<open>A page mapped only from \<open>MEMSIZE_VIRTUAL\<close> on is not given back: its count is as before.\<close>

lemma exit_leaks_high_pages:
  assumes "vm_ok (kernel_end lk) (mem k) (pagetable (cur k))" "page_aligned q" "allocatable_physical_address (kernel_end lk) q"
    "user_mapping (mem k) (pagetable (cur k)) a q" "\<forall>a. user_mapping (mem k) (pagetable (cur k)) a q \<longrightarrow> MEMSIZE_VIRTUAL \<le> a"
    "q \<notin> tables (mem k) (pagetable (cur k))"
  shows "\<exists>k'. syscall_exit lk k = Inr k' \<and> refcount (mem k') (page_of q) = refcount (mem k) (page_of q)"
proof -
  have "{a. \<exists>perm. user_page (mem k) (pagetable (cur k)) a q perm} = {}" using assms(5) user_mapping_low by (fastforce simp: not_less)
  then have "given_back (mem k) (pagetable (cur k)) q = 0" using assms(6) by (simp add: given_back_def)
  moreover obtain st' where "syscall_exit lk k = Inr (k\<lparr>mem := st',
      ptable := (ptable k)(current k := (cur k)\<lparr>state := P_FREE, pagetable := 0, regs := zero_regs\<rparr>)\<rparr>)"
    "unat (refcount st' (page_of q)) = unat (refcount (mem k) (page_of q)) - given_back (mem k) (pagetable (cur k)) q"
    using syscall_exit_lowers[OF assms(1)] assms(2,3) by metis
  ultimately show ?thesis by (simp add: word_unat_eq_iff)
qed

text \<open>
  C4. \<open>sys_exit\<close> gives back exactly what the process held. For a process with a well-formed page table whose user
  mappings are all below \<open>MEMSIZE_VIRTUAL\<close>, the memory a process may use, it
  returns, writes no memory, and clears the process's slot. The count of every allocatable page drops by
  the number of user mappings of it, plus one if it is a page of the page table: the walk over the table
  pages visits each of them exactly once. So a page ends up free exactly when nobody else counted on it, and
  no count of a page the process did not hold changes.
\<close>

theorem exit_frees_process_memory:
  assumes "vm_ok (kernel_end lk) (mem k) (pagetable (cur k))"
    "\<forall>a q. user_mapping (mem k) (pagetable (cur k)) a q \<longrightarrow> a < MEMSIZE_VIRTUAL"
  shows "\<exists>st'. syscall_exit lk k = Inr (k\<lparr>mem := st',
      ptable := (ptable k)(current k := (cur k)\<lparr>state := P_FREE, pagetable := 0, regs := zero_regs\<rparr>)\<rparr>) \<and>
    pmem st' = pmem (mem k) \<and>
    (\<forall>q. page_aligned q \<and> allocatable_physical_address (kernel_end lk) q \<longrightarrow>
      unat (refcount st' (page_of q)) = unat (refcount (mem k) (page_of q)) - holds (mem k) (pagetable (cur k)) q \<and>
      (free_page (kernel_end lk) st' q \<longleftrightarrow> unat (refcount (mem k) (page_of q)) \<le> holds (mem k) (pagetable (cur k)) q)) \<and>
    (\<forall>n. (\<nexists>q. page_aligned q \<and> allocatable_physical_address (kernel_end lk) q \<and> page_of q = n) \<longrightarrow>
      refcount st' n = refcount (mem k) n)"
proof -
  have eq: "given_back (mem k) (pagetable (cur k)) q = holds (mem k) (pagetable (cur k)) q" for q
    using given_back_holds assms(2) by blast
  obtain st' where x: "syscall_exit lk k = Inr (k\<lparr>mem := st',
      ptable := (ptable k)(current k := (cur k)\<lparr>state := P_FREE, pagetable := 0, regs := zero_regs\<rparr>)\<rparr>)" "pmem st' = pmem (mem k)"
    "\<And>q. page_aligned q \<Longrightarrow> allocatable_physical_address (kernel_end lk) q \<Longrightarrow>
       unat (refcount st' (page_of q)) = unat (refcount (mem k) (page_of q)) - holds (mem k) (pagetable (cur k)) q"
    "\<And>n. \<nexists>q. page_aligned q \<and> allocatable_physical_address (kernel_end lk) q \<and> page_of q = n \<Longrightarrow> refcount st' n = refcount (mem k) n"
    using syscall_exit_lowers[OF assms(1)] unfolding eq by metis
  have "free_page (kernel_end lk) st' q \<longleftrightarrow> unat (refcount (mem k) (page_of q)) \<le> holds (mem k) (pagetable (cur k)) q"
    if "page_aligned q" "allocatable_physical_address (kernel_end lk) q" for q
    using x(3)[OF that] that by (simp add: free_page_def unat_eq_0[symmetric])
  then show ?thesis using x by blast
qed

text \<open>The process of \<open>one_page_kernel\<close> exits: its page and its page table are free again.\<close>

theorem exit_frees_process_memory_witness:
  "\<exists>k'. syscall_exit example_link one_page_kernel = Inr k' \<and> state (ptable k' 1) = P_FREE \<and>
     \<not> free_page 0x50000 (mem one_page_kernel) 0x5000 \<and> free_page 0x50000 (mem k') 0x5000 \<and> free_page 0x50000 (mem k') 0x1000"
proof -
  let ?st = "mem one_page_kernel"
  have e: "kernel_end example_link = 0x50000" "pagetable (cur one_page_kernel) = 0x1000" "current one_page_kernel = 1"
    by (simp_all add: example_link_def one_page_kernel_def example_kernel_def cur_def)
  have ok: "vm_ok 0x50000 ?st 0x1000" using one_page_space(1) by (simp add: address_space_ok_def)
  have used: "refcount ?st (page_of 0x5000) = 1" "refcount ?st (page_of 0x1000) = 1"
    by (simp_all add: page_of_def PAGESIZE_def one_page_kernel_def)
  have al: "page_aligned 0x5000" "allocatable_physical_address 0x50000 0x5000" "page_aligned 0x1000" "allocatable_physical_address 0x50000 0x1000"
    by (simp_all add: page_aligned_def allocatable_physical_address_def reserved_physical_address_def PAGESIZE_def KERNEL_START_ADDR_def
        KERNEL_STACK_TOP_def MEMSIZE_PHYSICAL_def)
  have um: "user_mapping ?st 0x1000 a q \<longleftrightarrow> a = 0x100000 \<and> q = 0x5000" for a q
    using one_page_space(3)[of a] by (auto simp: user_mapping_def CONSOLE_ADDR_def pte_flag_bits page_aligned_and split: if_splits)
  then have low: "\<forall>a q. user_mapping ?st 0x1000 a q \<longrightarrow> a < MEMSIZE_VIRTUAL" by (simp add: MEMSIZE_VIRTUAL_def)
  have h: "1 \<le> holds ?st 0x1000 0x5000" by (simp add: holds_def um)
  have r: "1 \<le> holds ?st 0x1000 0x1000"
  proof -
    have "table_at ?st 0x1000 0 0 = Some 0x1000" by simp
    then have "0x1000 \<in> tables ?st 0x1000" unfolding tables_def by blast
    then show ?thesis by (simp add: holds_def)
  qed
  obtain st' where x: "syscall_exit example_link one_page_kernel = Inr (one_page_kernel\<lparr>mem := st',
      ptable := (ptable one_page_kernel)(1 := (cur one_page_kernel)\<lparr>state := P_FREE, pagetable := 0, regs := zero_regs\<rparr>)\<rparr>)"
    "\<forall>q. page_aligned q \<and> allocatable_physical_address 0x50000 q \<longrightarrow>
      unat (refcount st' (page_of q)) = unat (refcount ?st (page_of q)) - holds ?st 0x1000 q \<and>
      (free_page 0x50000 st' q \<longleftrightarrow> unat (refcount ?st (page_of q)) \<le> holds ?st 0x1000 q)"
    using exit_frees_process_memory[of example_link one_page_kernel, unfolded e, OF ok low] by blast
  have "free_page 0x50000 st' 0x5000" "free_page 0x50000 st' 0x1000" using x(2) al h r used by simp_all
  moreover have "\<not> free_page 0x50000 ?st 0x5000" using used(1) by (simp add: free_page_def)
  ultimately show ?thesis using x(1) by simp
qed

section \<open>A process that is forked and exits\<close>

text \<open>The child's user mappings are the copies of the parent's.\<close>

lemma forked_pages:
  assumes "user_inv ke st0 par pt MEMSIZE_VIRTUAL st"
  shows "{a. \<exists>perm. user_page st pt a q perm} = copies_below st0 par pt st MEMSIZE_VIRTUAL q"
proof (intro set_eqI iffI; unfold mem_Collect_eq copies_below_def)
  note i = user_invD[OF assms]
  fix a
  show "\<exists>perm. user_page st pt a q perm" if c: "a < MEMSIZE_VIRTUAL \<and> (\<exists>pa perm. user_page st0 par a pa perm) \<and> (\<exists>w. lookup st pt a = Inr (Some (q, w)))"
  proof -
    obtain pa perm w where a: "user_page st0 par a pa perm" "lookup st pt a = Inr (Some (q, w))" using c by blast
    then have "w = PTE_PWU \<or> w = PTE_P OR PTE_U" using i(3)[of a pa perm] c by (auto simp: copied_page_def split: if_splits)
    then have "bit w 2" by (auto simp: pte_flag_bits wu_bits bit_or_iff)
    then show ?thesis using a by (auto simp: user_page_def)
  qed
  show "a < MEMSIZE_VIRTUAL \<and> (\<exists>pa perm. user_page st0 par a pa perm) \<and> (\<exists>w. lookup st pt a = Inr (Some (q, w)))"
    if up: "\<exists>perm. user_page st pt a q perm"
  proof -
    obtain perm where u: "user_page st pt a q perm" using up by blast
    then have a: "page_aligned a" "a < MEMSIZE_VIRTUAL" "a \<noteq> CONSOLE_ADDR" "lookup st pt a = Inr (Some (q, perm))" "bit perm 2"
      by (simp_all add: user_page_def)
    have "\<exists>pa perm. user_page st0 par a pa perm"
    proof (rule ccontr)
      assume n: "\<not> ?thesis"
      then have "base_part st0 par a = Some (q, perm)" using i(2)[OF a(1)] a(4) by simp
      then have "kernel_part st0 par a = Some (q, perm)" using a(3) by (simp add: base_part_def split: if_splits)
      then obtain perm' where "lookup st0 par a = Inr (Some (q, perm'))" "perm = perm' AND PTE_PWU"
        by (auto simp: kernel_part_def split: sum.splits option.splits)
      then have "user_page st0 par a q perm'" using a by (simp add: user_page_def bit_and_iff)
      then show False using n by blast
    qed
    then show ?thesis using a(2,4) by blast
  qed
qed

lemma forked_held:
  assumes "user_inv ke st0 par pt MEMSIZE_VIRTUAL st" "page_aligned q" "allocatable_physical_address ke q"
  shows "unat (refcount st (page_of q)) = unat (refcount st0 (page_of q)) + given_back st pt q"
  using user_invD(6)[OF assms(1)] assms(2,3) forked_pages[OF assms(1)] by (simp add: fork_counts_def given_back_def)

text \<open>
  C3. Fork and exit cancel. For a parent as in the property of \<open>sys_fork\<close>, either the fork returns -1, with every
  page in use unwritten; or, when the new process then runs \<open>sys_exit\<close>, the exit returns and the kernel is
  where it started: every process but the new one has its old entry, the slot of the new one is free again, the
  counts of all allocatable pages are what they were before the fork, so the same pages are free, no page that was
  in use was written, and the parent's translations are the same. So every count that fork takes, of
  a page table, of a copied page or of a page shared read-only, is one that exit gives back.
\<close>

theorem fork_exit_roundtrip:
  assumes "address_space_ok (kernel_end lk) (mem k) (pagetable (cur k))"
  shows "(\<exists>st. syscall_fork lk k = Inr (- 1, k\<lparr>mem := st\<rparr>) \<and>
        (\<forall>q. \<not> free_page (kernel_end lk) (mem k) q \<longrightarrow> pmem st q = pmem (mem k) q)) \<or>
    (\<exists>p k1 k2. syscall_fork lk k = Inr (int p, k1) \<and> state (ptable k p) = P_FREE \<and> state (ptable k1 p) = P_RUNNABLE \<and>
       syscall_exit lk (k1\<lparr>current := p\<rparr>) = Inr k2 \<and>
       ptable k2 = (ptable k)(p := \<lparr>pagetable = 0, pid = p, state = P_FREE, regs = zero_regs\<rparr>) \<and>
       (\<forall>q. page_aligned q \<and> allocatable_physical_address (kernel_end lk) q \<longrightarrow>
          refcount (mem k2) (page_of q) = refcount (mem k) (page_of q)) \<and>
       (\<forall>q. free_page (kernel_end lk) (mem k2) q \<longleftrightarrow> free_page (kernel_end lk) (mem k) q) \<and>
       (\<forall>q. \<not> free_page (kernel_end lk) (mem k) q \<longrightarrow> pmem (mem k2) q = pmem (mem k) q) \<and>
       (\<forall>va. lookup (mem k2) (pagetable (cur k)) va = lookup (mem k) (pagetable (cur k)) va))"
  using fork_runs[OF assms]
proof (elim disjE exE conjE)
  fix st assume "syscall_fork lk k = Inr (- 1, k\<lparr>mem := st\<rparr>)" "fork_failed (kernel_end lk) (mem k) (- 1) st"
  then show ?thesis by (auto simp: fork_failed_def)
next
  let ?ke = "kernel_end lk" and ?par = "pagetable (cur k)"
  fix p pt st assume a: "syscall_fork lk k = Inr (int p, forked k p pt st)" "state (ptable k p) = P_FREE"
    "user_inv ?ke (mem k) ?par pt MEMSIZE_VIRTUAL st"
  define k1 where "k1 = (forked k p pt st)\<lparr>current := p\<rparr>"
  note b = user_invD(1)[OF a(3)]
  have k1: "mem k1 = st" "pagetable (cur k1) = pt" "current k1 = p"
    "cur k1 = \<lparr>pagetable = pt, pid = p, state = P_RUNNABLE, regs = (regs (cur k))\<lparr>reg_rax := 0\<rparr>\<rparr>"
    by (simp_all add: k1_def forked_def cur_def)
  have ok: "vm_ok ?ke (mem k1) (pagetable (cur k1))" using buildingD(1)[OF b] k1 by simp
  obtain st' where x: "syscall_exit lk k1 = Inr (k1\<lparr>mem := st',
      ptable := (ptable k1)(current k1 := (cur k1)\<lparr>state := P_FREE, pagetable := 0, regs := zero_regs\<rparr>)\<rparr>)" "pmem st' = pmem (mem k1)"
    "\<And>q. page_aligned q \<Longrightarrow> allocatable_physical_address ?ke q \<Longrightarrow>
       unat (refcount st' (page_of q)) = unat (refcount (mem k1) (page_of q)) - given_back (mem k1) (pagetable (cur k1)) q"
    using syscall_exit_lowers[OF ok] by metis
  have count: "refcount st' (page_of q) = refcount (mem k) (page_of q)" if "page_aligned q" "allocatable_physical_address ?ke q" for q
    using x(3)[OF that] forked_held[OF a(3) that] k1 by (simp add: word_unat_eq_iff)
  then have free: "free_page ?ke st' q \<longleftrightarrow> free_page ?ke (mem k) q" for q by (auto simp: free_page_def)
  have kept: "pmem st' q = pmem (mem k) q" if "\<not> free_page ?ke (mem k) q" for q using x(2) buildingD(4)[OF b that] k1 by simp
  have par: "lookup st' ?par va = lookup (mem k) ?par va" for va by (rule parent_lookup[OF address_space_okD(1)[OF assms] kept])
  let ?k2 = "k1\<lparr>mem := st', ptable := (ptable k1)(current k1 := (cur k1)\<lparr>state := P_FREE, pagetable := 0, regs := zero_regs\<rparr>)\<rparr>"
  have tab: "ptable ?k2 = (ptable k)(p := \<lparr>pagetable = 0, pid = p, state = P_FREE, regs = zero_regs\<rparr>)"
    unfolding k1(3,4) by (simp add: k1_def forked_def)
  have run: "state (ptable (forked k p pt st) p) = P_RUNNABLE" by (simp add: forked_def)
  show ?thesis
    using a(1,2) run x(1)[unfolded k1_def] tab[unfolded k1_def] count free kept par
    by (intro disjI2 exI[of _ p] exI[of _ "forked k p pt st"] exI[of _ ?k2] conjI) (simp_all add: k1_def)
qed

text \<open>The process of \<open>one_page_kernel\<close> forks a process that exits.\<close>

theorem fork_exit_roundtrip_witness:
  "\<exists>r k1. syscall_fork example_link one_page_kernel = Inr (r, k1) \<and>
     (r = - 1 \<or> (\<exists>k2. syscall_exit example_link (k1\<lparr>current := nat r\<rparr>) = Inr k2 \<and> refcount (mem k2) 5 = 1 \<and>
        refcount (mem k2) 6 = 0))"
proof -
  have e: "kernel_end example_link = 0x50000" "pagetable (cur one_page_kernel) = 0x1000"
    by (simp_all add: example_link_def one_page_kernel_def example_kernel_def cur_def)
  have q: "page_aligned 0x5000" "allocatable_physical_address 0x50000 0x5000" "page_of 0x5000 = 5" "refcount (mem one_page_kernel) 5 = 1"
    "page_aligned 0x6000" "allocatable_physical_address 0x50000 0x6000" "page_of 0x6000 = 6" "refcount (mem one_page_kernel) 6 = 0"
    by (simp_all add: page_aligned_def allocatable_physical_address_def reserved_physical_address_def PAGESIZE_def KERNEL_START_ADDR_def
        KERNEL_STACK_TOP_def MEMSIZE_PHYSICAL_def page_of_def one_page_kernel_def)
  from fork_exit_roundtrip[of example_link one_page_kernel, unfolded e, OF one_page_space(1)] show ?thesis
  proof (elim disjE exE conjE)
    fix st assume "syscall_fork example_link one_page_kernel = Inr (- 1, one_page_kernel\<lparr>mem := st\<rparr>)"
    then show ?thesis by simp
  next
    fix p k1 k2 assume f: "syscall_fork example_link one_page_kernel = Inr (int p, k1)"
      "syscall_exit example_link (k1\<lparr>current := p\<rparr>) = Inr k2"
      "\<forall>q. page_aligned q \<and> allocatable_physical_address 0x50000 q \<longrightarrow> refcount (mem k2) (page_of q) = refcount (mem one_page_kernel) (page_of q)"
    have "refcount (mem k2) 5 = 1" "refcount (mem k2) 6 = 0" using f(3) q by metis+
    then show ?thesis using f(1,2) by auto
  qed
qed

end
