(* ===== verification/Weensy_Memusage.thy ===== *)
theory Weensy_Memusage
  imports Weensy_Exit
begin

text \<open>
  What the marks of the memory viewer say. After \<open>refresh\<close> a page is marked exactly for the page tables it is
  part of and the processes that can use it, so the letter \<open>L\<close> is drawn exactly for leaked pages: pages in
  use that no page table mentions.
\<close>

section \<open>Marks\<close>

text \<open>\<open>v'\<close> is \<open>v\<close> with the marks \<open>S\<close> added, a set of bits for each page.\<close>

definition marked :: "(nat \<Rightarrow> nat \<Rightarrow> bool) \<Rightarrow> (nat \<Rightarrow> u32) \<Rightarrow> (nat \<Rightarrow> u32) \<Rightarrow> bool" where
  "marked S v v' \<longleftrightarrow> (\<forall>n b. bit (v' n) b \<longleftrightarrow> bit (v n) b \<or> S n b)"

definition page_mark :: "u64 \<Rightarrow> u32 \<Rightarrow> nat \<Rightarrow> nat \<Rightarrow> bool" where
  "page_mark pa flags n b \<longleftrightarrow> pa < maxpa \<and> page_of pa = n \<and> bit flags b"

lemma marked_refl: "marked (\<lambda>_ _. False) v v"
  by (simp add: marked_def)

lemma marked_trans: "marked S v v' \<Longrightarrow> marked S' v' v'' \<Longrightarrow> marked (\<lambda>n b. S n b \<or> S' n b) v v''"
  by (auto simp: marked_def)

lemma marked_cong: "marked S v v' \<Longrightarrow> (\<And>n b. S n b \<longleftrightarrow> S' n b) \<Longrightarrow> marked S' v v'"
  by (simp add: marked_def)

lemma marked_mark: "marked (page_mark pa flags) v (mark pa flags v)"
  by (auto simp: marked_def page_mark_def mark_def bit_or_iff)

section \<open>The table pages\<close>

lemma mark_kernel_tables_marks:
  assumes "walkable ke st pt"
  shows "reached st pt B it \<Longrightarrow>
    \<exists>v'. mark_kernel_tables st it v = Some v' \<and> marked (\<lambda>n b. \<exists>q \<in> tables_from st pt B. page_mark q f_kernel n b) v v'"
proof (induction "2 ^ 70 - B" arbitrary: B it v rule: less_induct)
  case less
  show ?case
  proof (cases "pt_done it")
    case True
    then have "mark_kernel_tables st it v = Some v" by (subst mark_kernel_tables.simps) simp
    then show ?thesis using reached_done[OF less.prems True] marked_refl[of v] by simp
  next
    case nd: False
    obtain it2 d where n: "pt_next st it = Some it2" "reached st pt (entry_key (pt_va it) (level_bits d) + 1) it2"
      "B \<le> entry_key (pt_va it) (level_bits d)"
      and T: "tables_from st pt B = insert (pt_pa st it) (tables_from st pt (entry_key (pt_va it) (level_bits d) + 1))"
      using walkable_step[OF assms less.prems nd refl] by metis
    have "2 ^ 70 - (entry_key (pt_va it) (level_bits d) + 1) < 2 ^ 70 - B" using n(3) entry_key_less[of "pt_va it" d] by simp
    from less.hyps[OF this n(2), of "mark (pt_pa st it) f_kernel v"] obtain v' where
      v': "mark_kernel_tables st it2 (mark (pt_pa st it) f_kernel v) = Some v'"
      "marked (\<lambda>n b. \<exists>q \<in> tables_from st pt (entry_key (pt_va it) (level_bits d) + 1). page_mark q f_kernel n b) (mark (pt_pa st it) f_kernel v) v'"
      by blast
    have "mark_kernel_tables st it v = Some v'" using nd n(1) v'(1) by (subst mark_kernel_tables.simps) simp
    moreover have "marked (\<lambda>n b. \<exists>q \<in> tables_from st pt B. page_mark q f_kernel n b) v v'"
      by (rule marked_cong[OF marked_trans[OF marked_mark v'(2)]]) (simp add: T)
    ultimately show ?thesis by blast
  qed
qed

text \<open>The table pages with entries for low addresses.\<close>

definition low_tables_from :: "kmem \<Rightarrow> u64 \<Rightarrow> nat \<Rightarrow> u64 set" where
  "low_tables_from st pt B = {q. \<exists>x e. table_entry_at st pt x e q \<and> x \<le> VA_LOWMAX \<and> B \<le> entry_key x (level_bits e)}"

lemma low_iter:
  fixes va :: u64
  assumes "l \<le> 47"
  shows "va AND NOT (mask l) < VA_LOWEND \<longleftrightarrow> va \<le> VA_LOWMAX"
proof -
  have d: "drop_bit 47 (va AND NOT (mask l)) = drop_bit 47 va"
    using assms by (intro bit_word_eqI) (auto simp: bit_drop_bit_eq bit_and_iff bit_not_iff bit_mask_iff dest: bit_imp_le_length)
  have lim: "x < VA_LOWEND \<longleftrightarrow> drop_bit 47 x = 0" for x :: u64
    by (simp add: VA_LOWEND_def word_less_nat_alt word_unat_eq_iff unat_drop div_eq_0_iff)
  have "x \<le> VA_LOWMAX \<longleftrightarrow> x < VA_LOWEND" for x :: u64
    by (simp add: VA_LOWEND_def VA_LOWMAX_def word_less_nat_alt word_le_nat_alt less_Suc_eq_le[symmetric])
  then show ?thesis using d lim by simp
qed

lemma low_tables_high:
  assumes "VA_HIGHMIN \<le> va" "l \<le> 39"
  shows "low_tables_from st pt (entry_key va l) = {}" "low_tables_from st pt (entry_key va l + 1) = {}"
proof -
  have "entry_key x (level_bits e) < entry_key va l" if "table_entry_at st pt x e q" "x \<le> VA_LOWMAX" for x e q
  proof -
    have e: "level_bits e \<le> 39" by (simp add: level_bits_def initial_lbits_def)
    have "x OR mask (level_bits e) \<le> VA_LOWMAX" using low_entry_end[OF that(2), of "level_bits e"] e by simp
    moreover have "VA_LOWMAX < VA_HIGHMIN" by (simp add: VA_LOWMAX_def VA_HIGHMIN_def)
    moreover have "VA_HIGHMIN \<le> va OR mask l" using assms(1) le_word_or2[of va "mask l"] by (meson order.trans)
    ultimately have "x OR mask (level_bits e) < va OR mask l" by (meson le_less_trans less_le_trans)
    then show ?thesis using key_less[of l "level_bits e" x va] assms(2) e by simp
  qed
  then show "low_tables_from st pt (entry_key va l) = {}" "low_tables_from st pt (entry_key va l + 1) = {}"
    by (fastforce simp: low_tables_from_def)+
qed

lemma low_subset: "low_tables_from st pt B \<subseteq> tables_from st pt B"
  by (auto simp: low_tables_from_def tables_from_def)

lemma mark_process_tables_marks:
  assumes "walkable ke st pt"
  shows "reached st pt B it \<Longrightarrow>
    \<exists>v'. mark_process_tables st fl it v = Some v' \<and> marked (\<lambda>n b. \<exists>q \<in> low_tables_from st pt B. page_mark q (f_kernel OR fl) n b) v v'"
proof (induction "2 ^ 70 - B" arbitrary: B it v rule: less_induct)
  case less
  show ?case
  proof (cases "viewed_va it < VA_LOWEND")
    case False
    have "low_tables_from st pt B = {}"
    proof (cases "pt_done it")
      case True
      then show ?thesis using reached_done[OF less.prems] low_subset[of st pt B] by simp
    next
      case nd: False
      obtain d where d: "pt_at st pt it d" "\<And>x e q. table_entry_at st pt x e q \<Longrightarrow>
          entry_key x (level_bits e) < B \<or> entry_key (pt_va it) (pt_lbits it) \<le> entry_key x (level_bits e)"
        using less.prems nd unfolding reached_def by blast
      have l: "pt_lbits it \<le> 39" "va_is_canonical (pt_va it)" using d(1) level_cases[of d] by (auto simp: pt_at_def)
      then have "VA_HIGHMIN \<le> pt_va it"
        using False nd low_iter[of "pt_lbits it" "pt_va it"] by (simp add: viewed_va_def pt_iter_va_def lbits_mask_eq va_is_canonical_def)
      then have "low_tables_from st pt (entry_key (pt_va it) (pt_lbits it)) = {}" using low_tables_high(1) l(1) by blast
      then show ?thesis using d(2) by (fastforce simp: low_tables_from_def)
    qed
    moreover have "mark_process_tables st fl it v = Some v" using False by (subst mark_process_tables.simps) simp
    ultimately show ?thesis using marked_refl[of v] by simp
  next
    case True
    have nd: "\<not> pt_done it"
    proof
      assume d: "pt_done it"
      then have "VA_HIGHMIN \<le> pt_va it" using less.prems level_cases by (fastforce simp: reached_def pt_at_def pt_done_def done_lbits_def)
      then show False using True d by (simp add: viewed_va_def VA_LOWEND_def VA_HIGHMIN_def word_le_nat_alt word_less_nat_alt)
    qed
    obtain it2 d where n: "pt_next st it = Some it2" "reached st pt (entry_key (pt_va it) (level_bits d) + 1) it2"
      "B \<le> entry_key (pt_va it) (level_bits d)" "d \<le> 2" "pt_lbits it = level_bits d" "table_entry_at st pt (pt_va it) d (pt_pa st it)"
      and T: "tables_from st pt B = insert (pt_pa st it) (tables_from st pt (entry_key (pt_va it) (level_bits d) + 1))"
      using walkable_step[OF assms less.prems nd refl] by metis
    have low: "pt_va it \<le> VA_LOWMAX"
      using True nd low_iter[of "pt_lbits it" "pt_va it"] n(5) level_cases[OF n(4)]
      by (auto simp: viewed_va_def pt_iter_va_def lbits_mask_eq)
    have L: "low_tables_from st pt B = insert (pt_pa st it) (low_tables_from st pt (entry_key (pt_va it) (level_bits d) + 1))"
    proof (intro set_eqI iffI)
      fix q assume "q \<in> low_tables_from st pt B"
      then obtain x e where x: "table_entry_at st pt x e q" "x \<le> VA_LOWMAX" "B \<le> entry_key x (level_bits e)"
        by (auto simp: low_tables_from_def)
      then have "q \<in> tables_from st pt B" by (auto simp: tables_from_def)
      then consider "q = pt_pa st it" | "q \<in> tables_from st pt (entry_key (pt_va it) (level_bits d) + 1)" using T by blast
      then show "q \<in> insert (pt_pa st it) (low_tables_from st pt (entry_key (pt_va it) (level_bits d) + 1))"
      proof cases
        case 2
        then obtain y c where y: "table_entry_at st pt y c q" "entry_key (pt_va it) (level_bits d) + 1 \<le> entry_key y (level_bits c)"
          by (auto simp: tables_from_def)
        then have "entry_key (pt_va it) (level_bits d) + 1 \<le> entry_key x (level_bits e)" using walkable_entry[OF assms x(1) y(1)] by simp
        then show ?thesis using x(1,2) unfolding low_tables_from_def by blast
      qed simp
    next
      fix q assume "q \<in> insert (pt_pa st it) (low_tables_from st pt (entry_key (pt_va it) (level_bits d) + 1))"
      then show "q \<in> low_tables_from st pt B" using n(3,6) low by (fastforce simp: low_tables_from_def)
    qed
    have "2 ^ 70 - (entry_key (pt_va it) (level_bits d) + 1) < 2 ^ 70 - B" using n(3) entry_key_less[of "pt_va it" d] by simp
    from less.hyps[OF this n(2), of "mark (pt_pa st it) (f_kernel OR fl) v"] obtain v' where
      v': "mark_process_tables st fl it2 (mark (pt_pa st it) (f_kernel OR fl) v) = Some v'"
      "marked (\<lambda>n b. \<exists>q \<in> low_tables_from st pt (entry_key (pt_va it) (level_bits d) + 1). page_mark q (f_kernel OR fl) n b)
         (mark (pt_pa st it) (f_kernel OR fl) v) v'" by blast
    have "mark_process_tables st fl it v = Some v'" using True n(1) v'(1) by (subst mark_process_tables.simps) simp
    moreover have "marked (\<lambda>n b. \<exists>q \<in> low_tables_from st pt B. page_mark q (f_kernel OR fl) n b) v v'"
      by (rule marked_cong[OF marked_trans[OF marked_mark v'(2)]]) (simp add: L)
    ultimately show ?thesis by blast
  qed
qed

section \<open>The pages of the low addresses\<close>

lemma lookup_high_entry:
  assumes "walkable ke st pt" "va_is_canonical va" "new_vmiter st pt va = Inr it"
  shows "\<exists>d \<le> 3. it_lbits it = level_bits d \<and> (d < 3 \<longrightarrow> \<not> vm_user st it)"
proof -
  obtain d p where l: "leaf st pt va d p" using leaf_exists by blast
  have it: "it = at_table pt va p (level_bits d) initial_perm" using walkable_leaf[OF assms(1,2) l] assms(3) by simp
  have d: "d \<le> 3" using l by (simp add: leaf_def)
  have "\<not> vm_user st it" if "d < 3"
  proof -
    let ?e = "entry_for st p va d"
    have "entry_walkable d ?e" "\<not> is_table ?e" using walkableD(3)[OF assms(1) d, of va p] l that by (auto simp: leaf_def)
    then have e: "\<not> bit ?e 0 \<or> ?e AND PTE_U = 0" using that by (auto simp: entry_walkable_def and_PTE_P)
    have perm: "vm_perm st it = (if bit ?e 0 then ?e AND initial_perm else 0)"
      using perm_of_entry[of ?e] by (simp add: vm_perm_def it at_table_def read_entry_def entry_for_def Let_def)
    show ?thesis
    proof
      assume u: "vm_user st it"
      then have b: "bit (vm_perm st it) 0" "bit (vm_perm st it) 2" by (simp_all add: vm_user_def vm_has_perm_def contains_flags)
      then have "bit ?e 0" "bit ?e 2" using perm by (auto simp: bit_and_iff split: if_splits)
      moreover from this have "bit (?e AND PTE_U) 2" by (simp add: bit_and_iff PTE_U_def)
      ultimately show False using e by simp
    qed
  qed
  then show ?thesis using d it by (auto simp: at_table_def)
qed

text \<open>One round of the loop: from \<open>va\<close> to the first address after its page or its unmapped range.\<close>

lemma mark_pages_step:
  assumes "walkable ke st pt" "\<And>it. f it \<noteq> None \<Longrightarrow> vm_user st it" "new_vmiter st pt va = Inr it" "page_aligned va" "va < VA_LOWEND"
  obtains it' va' where "(case f it of None \<Rightarrow> vm_next_range st it | Some flags \<Rightarrow> vm_next st it) = Inr it'" "new_vmiter st pt va' = Inr it'"
    "page_aligned va'" "va < va'" "va' \<le> VA_LOWEND"
    "\<And>a it2. page_aligned a \<Longrightarrow> va \<le> a \<Longrightarrow> a < va' \<Longrightarrow> new_vmiter st pt a = Inr it2 \<Longrightarrow> f it2 \<noteq> None \<Longrightarrow> a = va \<and> it2 = it"
proof -
  have low: "va \<le> VA_LOWMAX" using assms(5) by (simp add: VA_LOWEND_def VA_LOWMAX_def word_less_nat_alt word_le_nat_alt)
  then have canon: "va_is_canonical va" by (simp add: va_is_canonical_def)
  obtain d where d: "d \<le> 3" "it_lbits it = level_bits d" "d < 3 \<longrightarrow> \<not> vm_user st it"
    using lookup_high_entry[OF assms(1) canon assms(3)] by blast
  define l where "l = level_bits d"
  have l: "12 \<le> l" "l \<le> 39" using d(1) by (simp_all add: l_def level_bits_def initial_lbits_def PAGEINDEXBITS_def)
  define va' where "va' = (va OR mask l) + 1"
  have end_low: "va OR mask l \<le> VA_LOWMAX" using low_entry_end[OF low] l(2) by simp
  have nz: "va' \<noteq> 0"
  proof
    assume "va' = 0"
    then have "va OR mask l = - 1" by (simp add: va'_def eq_neg_iff_add_eq_0)
    then show False using end_low by (simp add: VA_LOWMAX_def word_le_nat_alt unat_max)
  qed
  have l47: "l \<le> 47" using l(2) by simp
  have u: "unat va' = Suc (unat (va OR mask l))" using range_end(3)[OF refl l47, of va] nz by (simp add: va'_def)
  have up: "va < va'" using u range_end(2)[OF refl l47, of va] by (simp add: word_less_nat_alt word_le_nat_alt)
  have lim: "va' \<le> VA_LOWEND" using u end_low by (simp add: word_le_nat_alt VA_LOWMAX_def VA_LOWEND_def)
  have al: "page_aligned va'"
  proof -
    have "unat va' = (unat (drop_bit l va) + 1) * 2 ^ l" using u unat_or_mask[OF l47, of va] by (simp add: algebra_simps)
    moreover have "(4096 :: nat) dvd 2 ^ l" using l(1) le_imp_power_dvd[of 12 l 2] by simp
    ultimately show ?thesis by (simp add: page_aligned_and aligned_dvd)
  qed
  have va: "it_va it = va" using new_vmiter_va[OF assms(3)] .
  have page: "d = 3" if "f it \<noteq> None" using assms(2)[OF that] d(1,3) by (cases "d < 3") auto
  obtain it' where w: "new_vmiter st pt va' = Inr it'" using walkable_exists[OF assms(1)] by blast
  have find: "real_find st va' True it = Inr it'" using real_find_eq[OF assms(3), of va' True] nz w by simp
  have "(case f it of None \<Rightarrow> vm_next_range st it | Some flags \<Rightarrow> vm_next st it) = Inr it'"
  proof (cases "f it")
    case None
    have "it_lbits it \<noteq> noncanonical_lbits" using l(2) d(2) by (simp add: l_def noncanonical_lbits_def)
    then show ?thesis using None find d(2) by (simp add: vm_next_range_def vm_last_va_def va lbits_mask_eq va'_def l_def)
  next
    case (Some x)
    then have "l = PAGEOFFBITS" using page by (simp add: l_def level_bits_values)
    then show ?thesis using Some find d(2) by (simp add: vm_next_def va lbits_mask_eq va'_def l_def[symmetric])
  qed
  moreover have "a = va \<and> it2 = it" if a: "page_aligned a" "va \<le> a" "a < va'" "new_vmiter st pt a = Inr it2" "f it2 \<noteq> None" for a it2
  proof -
    have "a \<le> va OR mask l" using a(3) u by (simp add: word_less_nat_alt word_le_nat_alt)
    then have ag: "agree_above l va a" using between_agree[OF a(2)] by blast
    have "new_vmiter st pt a = Inr (it\<lparr>it_va := a\<rparr>)" using same_entry[OF assms(3)] ag d(2) by (simp add: l_def)
    then have it2: "it2 = it\<lparr>it_va := a\<rparr>" using a(4) by simp
    have "vm_perm st it2 = vm_perm st it" using it2 by (simp add: vm_perm_def)
    then have "vm_user st it" using assms(2)[OF a(5)] by (simp add: vm_user_def vm_has_perm_def)
    then have "d = 3" using d(1,3) by (cases "d < 3") auto
    then have "agree_above PAGEOFFBITS va a" using ag by (simp add: l_def level_bits_values)
    then have "va = a" using agree_page[OF assms(4) a(1)] by simp
    then show ?thesis using it2 va by simp
  qed
  ultimately show ?thesis using that w al up lim by blast
qed

text \<open>The marks that the loop from \<open>va\<close> on makes.\<close>

definition page_marks :: "(vmiter \<Rightarrow> u32 option) \<Rightarrow> kmem \<Rightarrow> u64 \<Rightarrow> u64 \<Rightarrow> nat \<Rightarrow> nat \<Rightarrow> bool" where
  "page_marks f st pt va n b \<longleftrightarrow> (\<exists>a it flags. page_aligned a \<and> va \<le> a \<and> a < VA_LOWEND \<and> new_vmiter st pt a = Inr it \<and>
     f it = Some flags \<and> page_mark (vm_pa st it) flags n b)"

lemma mark_pages_marks:
  assumes "walkable ke st pt" "\<And>it. f it \<noteq> None \<Longrightarrow> vm_user st it"
  shows "new_vmiter st pt va = Inr it \<Longrightarrow> page_aligned va \<Longrightarrow> va \<le> VA_LOWEND \<Longrightarrow>
    \<exists>v'. mark_pages f st it v = Some (Inr v') \<and> marked (page_marks f st pt va) v v'"
proof (induction "2 ^ 64 - unat va" arbitrary: va it v rule: less_induct)
  case less
  have va: "it_va it = va" using new_vmiter_va[OF less.prems(1)] .
  show ?case
  proof (cases "va < VA_LOWEND")
    case False
    then have "mark_pages f st it v = Some (Inr v)" using va by (subst mark_pages.simps) simp
    moreover have "marked (page_marks f st pt va) v v"
    proof -
      have "\<not> page_marks f st pt va n b" for n b
      proof
        assume "page_marks f st pt va n b"
        then obtain a where "va \<le> a" "a < VA_LOWEND" unfolding page_marks_def by blast
        then show False using False by simp
      qed
      then show ?thesis by (simp add: marked_def)
    qed
    ultimately show ?thesis by blast
  next
    case True
    obtain it' va' where n: "(case f it of None \<Rightarrow> vm_next_range st it | Some flags \<Rightarrow> vm_next st it) = Inr it'" "new_vmiter st pt va' = Inr it'"
      "page_aligned va'" "va < va'" "va' \<le> VA_LOWEND"
      and skip: "\<And>a it2. page_aligned a \<Longrightarrow> va \<le> a \<Longrightarrow> a < va' \<Longrightarrow> new_vmiter st pt a = Inr it2 \<Longrightarrow> f it2 \<noteq> None \<Longrightarrow> a = va \<and> it2 = it"
      by (rule mark_pages_step[where f = f, OF assms(1) _ less.prems(1,2) True]) (erule assms(2), rule that)
    define v1 where "v1 = (case f it of None \<Rightarrow> v | Some flags \<Rightarrow> mark (vm_pa st it) flags v)"
    have "unat va' < 2 ^ 64" using unsigned_less[of va'] by simp
    then have "2 ^ 64 - unat va' < 2 ^ 64 - unat va" using n(4) by (simp add: word_less_nat_alt)
    from less.hyps[OF this n(2,3,5), of v1] obtain v' where
      v': "mark_pages f st it' v1 = Some (Inr v')" "marked (page_marks f st pt va') v1 v'" by blast
    have e: "mark_pages f st it v = Some (Inr v')" using True n(1) v'(1) va by (subst mark_pages.simps) (simp add: v1_def)
    have m1: "marked (\<lambda>n b. \<exists>flags. f it = Some flags \<and> page_mark (vm_pa st it) flags n b) v v1"
    proof (cases "f it")
      case None
      then show ?thesis using marked_refl[of v] by (simp add: v1_def)
    next
      case (Some flags)
      then show ?thesis using marked_mark[of "vm_pa st it" flags v] by (simp add: v1_def)
    qed
    have "(\<exists>flags. f it = Some flags \<and> page_mark (vm_pa st it) flags n b) \<or> page_marks f st pt va' n b \<longleftrightarrow> page_marks f st pt va n b" for n b
    proof
      assume "(\<exists>flags. f it = Some flags \<and> page_mark (vm_pa st it) flags n b) \<or> page_marks f st pt va' n b"
      then show "page_marks f st pt va n b"
      proof
        assume "\<exists>flags. f it = Some flags \<and> page_mark (vm_pa st it) flags n b"
        then show ?thesis using less.prems(1,2) True unfolding page_marks_def by blast
      next
        assume "page_marks f st pt va' n b"
        moreover have "va \<le> a" if "va' \<le> a" for a using n(4) that by simp
        ultimately show ?thesis unfolding page_marks_def by blast
      qed
    next
      assume "page_marks f st pt va n b"
      then obtain a it2 flags where a: "page_aligned a" "va \<le> a" "a < VA_LOWEND" "new_vmiter st pt a = Inr it2" "f it2 = Some flags"
        "page_mark (vm_pa st it2) flags n b" unfolding page_marks_def by blast
      show "(\<exists>flags. f it = Some flags \<and> page_mark (vm_pa st it) flags n b) \<or> page_marks f st pt va' n b"
      proof (cases "a < va'")
        case True
        then have "it2 = it" using skip[OF a(1,2) _ a(4)] a(5) by simp
        then show ?thesis using a(5,6) by blast
      next
        case False
        then have "va' \<le> a" by simp
        then show ?thesis using a unfolding page_marks_def by blast
      qed
    qed
    then have "marked (page_marks f st pt va) v v'" by (rule marked_cong[OF marked_trans[OF m1 v'(2)]])
    then show ?thesis using e by blast
  qed
qed

section \<open>Refreshing\<close>

lemma user_lookup:
  assumes "walkable ke st pt" "page_aligned a" "a < VA_LOWEND" "new_vmiter st pt a = Inr it"
  shows "vm_user st it \<and> pa = vm_pa st it \<longleftrightarrow> (\<exists>perm. lookup st pt a = Inr (Some (pa, perm)) \<and> bit perm 2)"
    "vm_user st it \<Longrightarrow> page_aligned (vm_pa st it)" "it_va it = a"
proof -
  have canon: "va_is_canonical a" using assms(3)
    by (simp add: va_is_canonical_def VA_LOWEND_def VA_LOWMAX_def word_less_nat_alt word_le_nat_alt)
  have al: "a AND 0xFFF = 0" using assms(2) by (simp add: page_aligned_and)
  have look: "lookup st pt a = Inr (if vm_present st it then Some (vm_pa st it, vm_perm st it) else None)"
    using assms(4) by (simp add: lookup_def)
  have user: "vm_user st it \<longleftrightarrow> bit (vm_perm st it) 0 \<and> bit (vm_perm st it) 2" by (simp add: vm_user_def vm_has_perm_def contains_flags)
  have pres: "vm_present st it \<longleftrightarrow> bit (vm_perm st it) 0"
    using and_PTE_P[of "vm_perm st it"] by (auto simp: vm_present_def vm_has_perm_def PTE_P_def and_one_eq mod2_eq_if bit_0)
  obtain d p where leaf: "leaf st pt a d p" using leaf_exists by blast
  let ?e = "entry_for st p a d"
  have d: "d \<le> 3" using leaf by (simp add: leaf_def)
  have it: "it = at_table pt a p (level_bits d) initial_perm" using walkable_leaf[OF assms(1) canon leaf] assms(4) by simp
  have inj: "d = e" if "level_bits d = level_bits e" "e \<le> 3" for e
    using that d by (auto simp: level_bits_def initial_lbits_def PAGEINDEXBITS_def)
  have m: "entry_mapping a d ?e = (if vm_present st it then Some (vm_pa st it, vm_perm st it) else None)"
    using walkable_lookup[OF assms(1) canon leaf] look by simp
  have al12: "a AND mask 12 = 0" using al by (simp add: mask_eq_exp_minus_1)
  show "vm_user st it \<and> pa = vm_pa st it \<longleftrightarrow> (\<exists>perm. lookup st pt a = Inr (Some (pa, perm)) \<and> bit perm 2)"
    using look user pres by auto
  show "page_aligned (vm_pa st it)" if u: "vm_user st it"
  proof -
    obtain e where e: "e \<le> 3" "it_lbits it = level_bits e" "e < 3 \<longrightarrow> \<not> vm_user st it" using lookup_high_entry[OF assms(1) canon assms(4)] by blast
    then have d3: "d = 3" using u inj[of e] it by (cases "e < 3") (auto simp: at_table_def)
    then have "vm_pa st it = ?e AND PTE_PAMASK" using m u user pres al12 level_bits_values by (auto simp: entry_mapping_def PAGEOFFBITS_def split: if_splits)
    then show ?thesis by (intro pamask_aligned) (simp add: and.assoc)
  qed
  show "it_va it = a" using new_vmiter_va[OF assms(4)] .
qed

text \<open>A live process has a page table of its own.\<close>

definition live :: "u64 \<Rightarrow> proc \<Rightarrow> bool" where
  "live kpt p \<longleftrightarrow> state p \<noteq> P_FREE \<and> pagetable p \<noteq> 0 \<and> pagetable p \<noteq> kpt"

definition process_mark :: "kmem \<Rightarrow> u64 \<Rightarrow> u32 \<Rightarrow> nat \<Rightarrow> nat \<Rightarrow> bool" where
  "process_mark st pt fl n b \<longleftrightarrow> page_mark pt (f_kernel OR fl) n b \<or>
     (\<exists>q \<in> low_tables_from st pt (entry_key 0 21). page_mark q (f_kernel OR fl) n b) \<or> page_marks (process_flags st fl) st pt 0 n b"

lemma mark_process_marks:
  assumes "walkable ke st (pagetable p)" "live kpt p"
  shows "\<exists>v'. mark_process kpt st n p (v, sep) = Inr (v', True) \<and> marked (process_mark st (pagetable p) (f_process (int n))) v v'"
proof -
  let ?pt = "pagetable p" and ?fl = "f_process (int n)"
  obtain it where it: "new_ptiter st ?pt = Some it" "reached st ?pt (entry_key 0 21) it" using new_ptiter_reached by blast
  obtain v1 where v1: "mark_process_tables st ?fl it v = Some v1"
    "marked (\<lambda>n b. \<exists>q \<in> low_tables_from st ?pt (entry_key 0 21). page_mark q (f_kernel OR ?fl) n b) v v1"
    using mark_process_tables_marks[OF assms(1) it(2)] by blast
  define v2 where "v2 = mark ?pt (f_kernel OR ?fl) v1"
  obtain w where w: "new_vmiter st ?pt 0 = Inr w" using walkable_exists[OF assms(1)] by blast
  have u: "process_flags st ?fl it \<noteq> None \<Longrightarrow> vm_user st it" for it by (auto simp: process_flags_def split: if_splits)
  obtain v3 where v3: "mark_pages (process_flags st ?fl) st w v2 = Some (Inr v3)" "marked (page_marks (process_flags st ?fl) st ?pt 0) v2 v3"
    using mark_pages_marks[where v = v2, OF assms(1) u w limits_aligned(5)] by (auto simp: VA_LOWEND_def)
  have "mark_process kpt st n p (v, sep) = Inr (v3, True)"
    using assms(2) it(1) v1(1) w v3(1) by (simp add: mark_process_def live_def loop_result_def Let_def v2_def)
  moreover have "marked (process_mark st ?pt ?fl) v v3"
    by (rule marked_cong[OF marked_trans[OF marked_trans[OF v1(2) marked_mark] v3(2)[unfolded v2_def]]]) (auto simp: process_mark_def)
  ultimately show ?thesis by blast
qed

lemma mark_processes_marks:
  assumes "\<And>n. n \<in> set ns \<Longrightarrow> live kpt (ps n) \<Longrightarrow> walkable ke st (pagetable (ps n))"
  shows "\<exists>v'. mark_processes kpt st ps ns (v, sep) = Inr (v', sep \<or> (\<exists>n \<in> set ns. live kpt (ps n))) \<and>
    marked (\<lambda>m b. \<exists>n \<in> set ns. live kpt (ps n) \<and> process_mark st (pagetable (ps n)) (f_process (int n)) m b) v v'"
  using assms
proof (induction ns arbitrary: v sep)
  case Nil
  then show ?case using marked_refl[of v] by simp
next
  case (Cons n ns)
  show ?case
  proof (cases "live kpt (ps n)")
    case True
    then obtain v1 where v1: "mark_process kpt st n (ps n) (v, sep) = Inr (v1, True)"
      "marked (process_mark st (pagetable (ps n)) (f_process (int n))) v v1"
      using mark_process_marks[of ke st "ps n" kpt n v sep] Cons.prems by auto
    obtain v2 where v2: "mark_processes kpt st ps ns (v1, True) = Inr (v2, True \<or> (\<exists>n \<in> set ns. live kpt (ps n)))"
      "marked (\<lambda>m b. \<exists>n \<in> set ns. live kpt (ps n) \<and> process_mark st (pagetable (ps n)) (f_process (int n)) m b) v1 v2"
      using Cons.IH[of v1 True] Cons.prems by auto
    have "marked (\<lambda>m b. \<exists>i \<in> set (n # ns). live kpt (ps i) \<and> process_mark st (pagetable (ps i)) (f_process (int i)) m b) v v2"
      by (rule marked_cong[OF marked_trans[OF v1(2) v2(2)]]) (simp add: True)
    then show ?thesis using v1(1) v2(1) True by simp
  next
    case False
    then have "mark_process kpt st n (ps n) (v, sep) = Inr (v, sep)" by (auto simp: mark_process_def live_def)
    then show ?thesis using Cons.IH[of v sep] Cons.prems False by simp
  qed
qed

text \<open>The marks after \<open>refresh\<close>.\<close>

definition viewer_mark :: "link \<Rightarrow> (nat \<Rightarrow> proc) \<Rightarrow> kmem \<Rightarrow> u64 \<Rightarrow> nat \<Rightarrow> nat \<Rightarrow> bool" where
  "viewer_mark lk ps st vp m b \<longleftrightarrow>
     (\<exists>q \<in> tables st (kernel_pagetable lk). page_mark q f_kernel m b) \<or> page_mark vp f_kernel m b \<or>
     (\<exists>n \<in> {1..<PID_MAX}. live (kernel_pagetable lk) (ps n) \<and> process_mark st (pagetable (ps n)) (f_process (int n)) m b) \<or>
     ((\<forall>n \<in> {1..<PID_MAX}. \<not> live (kernel_pagetable lk) (ps n)) \<and> page_marks (owner_flags st) st (kernel_pagetable lk) 0 m b)"

lemma refresh_marks:
  assumes "walkable (kernel_end lk) st (kernel_pagetable lk)"
    "\<And>n. n \<in> {1..<PID_MAX} \<Longrightarrow> live (kernel_pagetable lk) (ps n) \<Longrightarrow> walkable (kernel_end lk) st (pagetable (ps n))" "mu_v mu \<noteq> 0"
  shows "\<exists>v sep. refresh lk ps mu st = Inr (mu\<lparr>mu_flags := v, mu_separate := sep\<rparr>, st) \<and> (\<forall>m b. bit (v m) b \<longleftrightarrow> viewer_mark lk ps st (mu_v mu) m b)"
proof -
  let ?kpt = "kernel_pagetable lk"
  obtain it where it: "new_ptiter st ?kpt = Some it" "reached st ?kpt (entry_key 0 21) it" using new_ptiter_reached by blast
  obtain v1 where v1: "mark_kernel_tables st it (\<lambda>_. 0) = Some v1"
    "marked (\<lambda>n b. \<exists>q \<in> tables_from st ?kpt (entry_key 0 21). page_mark q f_kernel n b) (\<lambda>_. 0) v1"
    using mark_kernel_tables_marks[OF assms(1) it(2)] by blast
  define v2 where "v2 = mark (mu_v mu) f_kernel (mark ?kpt f_kernel v1)"
  have m2: "marked (\<lambda>m b. (\<exists>q \<in> tables st ?kpt. page_mark q f_kernel m b) \<or> page_mark (mu_v mu) f_kernel m b) (\<lambda>_. 0) v2"
    unfolding v2_def by (rule marked_cong[OF marked_trans[OF marked_trans[OF v1(2) marked_mark] marked_mark]])
      (auto simp: walkable_split(1)[OF assms(1)])
  obtain v3 where v3: "mark_processes ?kpt st ps [1..<PID_MAX] (v2, False) = Inr (v3, False \<or> (\<exists>n \<in> set [1..<PID_MAX]. live ?kpt (ps n)))"
    "marked (\<lambda>m b. \<exists>n \<in> set [1..<PID_MAX]. live ?kpt (ps n) \<and> process_mark st (pagetable (ps n)) (f_process (int n)) m b) v2 v3"
    using mark_processes_marks[of "[1..<PID_MAX]" ?kpt ps "kernel_end lk" st v2 False] assms(2) by auto
  define sep where "sep = (\<exists>n \<in> {1..<PID_MAX}. live ?kpt (ps n))"
  have s: "mark_processes ?kpt st ps [1..<PID_MAX] (v2, False) = Inr (v3, sep)" using v3(1) by (simp only: sep_def set_upt simp_thms)
  have m3: "marked (\<lambda>m b. ((\<exists>q \<in> tables st ?kpt. page_mark q f_kernel m b) \<or> page_mark (mu_v mu) f_kernel m b) \<or>
      (\<exists>n \<in> {1..<PID_MAX}. live ?kpt (ps n) \<and> process_mark st (pagetable (ps n)) (f_process (int n)) m b)) (\<lambda>_. 0) v3"
    using marked_trans[OF m2 v3(2)] by (simp only: set_upt)
  obtain w where w: "new_vmiter st ?kpt 0 = Inr w" using walkable_exists[OF assms(1)] by blast
  have u: "owner_flags st it \<noteq> None \<Longrightarrow> vm_user st it" for it by (auto simp: owner_flags_def Let_def split: if_splits)
  obtain v4 where v4: "mark_pages (owner_flags st) st w v3 = Some (Inr v4)" "marked (page_marks (owner_flags st) st ?kpt 0) v3 v4"
    using mark_pages_marks[where v = v3, OF assms(1) u w limits_aligned(5)] by (auto simp: VA_LOWEND_def)
  have r: "refresh lk ps mu st = Inr (mu\<lparr>mu_flags := (if sep then v3 else v4), mu_separate := sep\<rparr>, st)"
    using assms(3) it(1) v1(1) s w v4(1) by (cases sep) (simp_all add: refresh_def loop_result_def Let_def v2_def[symmetric])
  have "bit ((if sep then v3 else v4) m) b \<longleftrightarrow> viewer_mark lk ps st (mu_v mu) m b" for m b
  proof (cases sep)
    case True
    then show ?thesis using m3 by (auto simp: marked_def viewer_mark_def sep_def)
  next
    case False
    then show ?thesis using marked_trans[OF m3 v4(2)] by (auto simp: marked_def viewer_mark_def sep_def)
  qed
  then show ?thesis using r by blast
qed

section \<open>What is drawn\<close>

text \<open>The tables on the way to low addresses.\<close>

definition low_tables :: "kmem \<Rightarrow> u64 \<Rightarrow> u64 set" where
  "low_tables st pt = {q. \<exists>va d. d \<le> 3 \<and> va \<le> VA_LOWMAX \<and> table_at st pt va d = Some q}"

definition user_target :: "kmem \<Rightarrow> u64 \<Rightarrow> u64 \<Rightarrow> bool" where
  "user_target st pt q \<longleftrightarrow> (\<exists>a perm. page_aligned a \<and> a < VA_LOWEND \<and> lookup st pt a = Inr (Some (q, perm)) \<and> bit perm 2)"

text \<open>
  The pages that \<open>refresh\<close> looks at: the page of the marks, the table pages of the kernel, and of every live process those
  on the way to low addresses and the pages it can use there; with no live process, the kernel's page table stands for
  theirs.
\<close>

definition seen :: "link \<Rightarrow> (nat \<Rightarrow> proc) \<Rightarrow> kmem \<Rightarrow> u64 \<Rightarrow> u64 \<Rightarrow> bool" where
  "seen lk ps st vp q \<longleftrightarrow> q = vp \<or> q \<in> tables st (kernel_pagetable lk) \<or>
     (\<exists>n \<in> {1..<PID_MAX}. live (kernel_pagetable lk) (ps n) \<and> (q \<in> low_tables st (pagetable (ps n)) \<or> user_target st (pagetable (ps n)) q)) \<or>
     ((\<forall>n \<in> {1..<PID_MAX}. \<not> live (kernel_pagetable lk) (ps n)) \<and> page_used (refcount st (page_of q)) \<and> user_target st (kernel_pagetable lk) q)"

lemma low_tables_eq:
  assumes "walkable ke st pt"
  shows "low_tables st pt = insert pt (low_tables_from st pt (entry_key 0 21))"
proof (intro set_eqI iffI)
  fix q assume "q \<in> low_tables st pt"
  then obtain va d where d: "d \<le> 3" "va \<le> VA_LOWMAX" "table_at st pt va d = Some q" by (auto simp: low_tables_def)
  show "q \<in> insert pt (low_tables_from st pt (entry_key 0 21))"
  proof (cases d)
    case 0
    then show ?thesis using d(3) by simp
  next
    case (Suc e)
    then have x: "table_entry_at st pt va e q" using d by (simp add: table_entry_at_def va_is_canonical_def del: table_at.simps)
    have "q \<in> tables st pt" using d(1,3) unfolding tables_def by blast
    moreover have "q \<noteq> pt"
    proof
      assume "q = pt"
      then have "d = 0 \<and> same_path d va va" using walkableD(1)[OF assms d(1) _ d(3), of 0 va] by simp
      then show False using Suc by simp
    qed
    ultimately obtain y c where y: "table_entry_at st pt y c q" "entry_key 0 21 \<le> entry_key y (level_bits c)"
      using walkable_split(1)[OF assms] by (auto simp: tables_from_def)
    then have "entry_key 0 21 \<le> entry_key va (level_bits e)" using walkable_entry[OF assms x y(1)] by simp
    then show ?thesis using x d(2) unfolding low_tables_from_def by blast
  qed
next
  fix q assume "q \<in> insert pt (low_tables_from st pt (entry_key 0 21))"
  then show "q \<in> low_tables st pt"
  proof
    assume "q = pt"
    then have "table_at st pt 0 0 = Some q" by simp
    then show ?thesis unfolding low_tables_def using word_zero_le[of VA_LOWMAX] by blast
  next
    assume "q \<in> low_tables_from st pt (entry_key 0 21)"
    then obtain x e where "table_entry_at st pt x e q" "x \<le> VA_LOWMAX" by (auto simp: low_tables_from_def)
    then have "Suc e \<le> 3" "x \<le> VA_LOWMAX" "table_at st pt x (Suc e) = Some q" by (auto simp: table_entry_at_def)
    then show ?thesis unfolding low_tables_def by blast
  qed
qed

lemma table_aligned: "table_at st pt va d = Some q \<Longrightarrow> page_aligned pt \<Longrightarrow> page_aligned q"
proof (cases d)
  case (Suc e)
  assume "table_at st pt va d = Some q"
  then have "q AND PTE_PAMASK = q" using Suc by (auto split: option.splits if_splits simp: and.assoc)
  then show ?thesis by (rule pamask_aligned)
qed simp

lemma tables_aligned: "page_aligned pt \<Longrightarrow> q \<in> tables st pt \<Longrightarrow> page_aligned q"
  "page_aligned pt \<Longrightarrow> q \<in> low_tables st pt \<Longrightarrow> page_aligned q"
  using table_aligned unfolding tables_def low_tables_def by blast+

text \<open>The marks on an allocatable page.\<close>

lemma page_mark_page:
  assumes "allocatable_physical_address ke q" "page_aligned q" "page_aligned r"
  shows "page_mark r flags (page_of q) b \<longleftrightarrow> r = q \<and> bit flags b"
proof -
  have "q < maxpa" using assms(1)
    by (auto simp: allocatable_physical_address_def MEMSIZE_PHYSICAL_def maxpa_def PAGESIZE_def word_less_nat_alt)
  then show ?thesis using aligned_inj[OF assms(3,2)] by (auto simp: page_mark_def)
qed

lemma f_bits: "bit f_kernel 0" "bit f_user 1" "bit f_nonidentity b \<longleftrightarrow> b = 2"
proof -
  show "bit f_kernel 0" by (simp add: f_kernel_def)
  show "bit f_user 1" using bit_exp_iff[where 'a = "32 word", of 1 1] by (simp add: f_user_def)
  have f: "f_nonidentity = 2 ^ 2" by (simp add: f_nonidentity_def)
  show "bit f_nonidentity b \<longleftrightarrow> b = 2" unfolding f by (subst bit_exp_iff) auto
qed

lemma page_marks_target:
  assumes "walkable ke st pt" "allocatable_physical_address ke q" "page_aligned q" "\<And>it. f it \<noteq> None \<Longrightarrow> vm_user st it"
    "\<And>it flags. f it = Some flags \<Longrightarrow> bit flags 1"
  shows "page_marks f st pt 0 (page_of q) b \<Longrightarrow> user_target st pt q"
    "user_target st pt q \<Longrightarrow> (\<And>it. vm_user st it \<Longrightarrow> vm_pa st it = q \<Longrightarrow> f it \<noteq> None) \<Longrightarrow> page_marks f st pt 0 (page_of q) 1"
proof -
  show "user_target st pt q" if p: "page_marks f st pt 0 (page_of q) b"
  proof -
    obtain a it flags where a: "page_aligned a" "a < VA_LOWEND" "new_vmiter st pt a = Inr it" "f it = Some flags"
      "page_mark (vm_pa st it) flags (page_of q) b" using p unfolding page_marks_def by blast
    have u: "vm_user st it" using assms(4)[of it] a(4) by simp
    have "vm_pa st it = q" using page_mark_page[OF assms(2,3) user_lookup(2)[OF assms(1) a(1-3) u]] a(5) by blast
    then show ?thesis using user_lookup(1)[OF assms(1) a(1-3), of q] u a(1,2) unfolding user_target_def by blast
  qed
  show "page_marks f st pt 0 (page_of q) 1" if t: "user_target st pt q" and some: "\<And>it. vm_user st it \<Longrightarrow> vm_pa st it = q \<Longrightarrow> f it \<noteq> None"
  proof -
    obtain a perm where a: "page_aligned a" "a < VA_LOWEND" "lookup st pt a = Inr (Some (q, perm))" "bit perm 2"
      using t unfolding user_target_def by blast
    obtain it where it: "new_vmiter st pt a = Inr it" using walkable_exists[OF assms(1)] by blast
    have u: "vm_user st it" "vm_pa st it = q" using user_lookup(1)[OF assms(1) a(1,2) it, of q] a(3,4) by blast+
    obtain flags where f: "f it = Some flags" using some[OF u] by blast
    have "page_mark (vm_pa st it) flags (page_of q) 1"
      using page_mark_page[OF assms(2,3,3)] assms(5)[OF f] u(2) by simp
    then show ?thesis using a(1,2) it f word_zero_le[of a] unfolding page_marks_def by blast
  qed
qed

lemma flags_functions:
  "process_flags st fl it \<noteq> None \<longleftrightarrow> vm_user st it" "process_flags st fl it = Some flags \<Longrightarrow> bit flags 1"
  "owner_flags st it \<noteq> None \<longleftrightarrow> vm_user st it \<and> vm_pa st it < MEMSIZE_PHYSICAL \<and> page_used (refcount st (page_of (vm_pa st it)))"
  "owner_flags st it = Some flags \<Longrightarrow> bit flags 1"
  using f_bits(2) by (auto simp: process_flags_def owner_flags_def Let_def bit_or_iff split: if_splits)

lemma flags_user: "process_flags st fl it \<noteq> None \<Longrightarrow> vm_user st it" "owner_flags st it \<noteq> None \<Longrightarrow> vm_user st it"
  using flags_functions(1,3) by blast+

lemma process_mark_seen:
  assumes "walkable ke st pt" "page_aligned pt" "allocatable_physical_address ke q" "page_aligned q"
  shows "process_mark st pt fl (page_of q) b \<Longrightarrow> q \<in> low_tables st pt \<or> user_target st pt q"
    "q \<in> low_tables st pt \<Longrightarrow> process_mark st pt fl (page_of q) 0" "user_target st pt q \<Longrightarrow> process_mark st pt fl (page_of q) 1"
proof -
  have mk: "(\<exists>r \<in> low_tables st pt. page_mark r flags (page_of q) b) \<longleftrightarrow> q \<in> low_tables st pt \<and> bit flags b" for flags b
    using page_mark_page[OF assms(3,4)] tables_aligned(2)[OF assms(2)] by blast
  have m: "process_mark st pt fl (page_of q) b \<longleftrightarrow>
      (q \<in> low_tables st pt \<and> bit (f_kernel OR fl) b) \<or> page_marks (process_flags st fl) st pt 0 (page_of q) b" for b
  proof -
    have "process_mark st pt fl (page_of q) b \<longleftrightarrow>
        (\<exists>r \<in> low_tables st pt. page_mark r (f_kernel OR fl) (page_of q) b) \<or> page_marks (process_flags st fl) st pt 0 (page_of q) b"
      unfolding low_tables_eq[OF assms(1)] process_mark_def by blast
    then show ?thesis by (simp only: mk)
  qed
  have t: "page_marks (process_flags st fl) st pt 0 (page_of q) b \<Longrightarrow> user_target st pt q" for b
    by (rule page_marks_target(1)[OF assms(1,3,4), where f = "process_flags st fl"]) (erule flags_user(1), erule flags_functions(2), assumption)
  show "q \<in> low_tables st pt \<or> user_target st pt q" if "process_mark st pt fl (page_of q) b"
    using that[unfolded m] t by (elim disjE conjE) simp_all
  show "q \<in> low_tables st pt \<Longrightarrow> process_mark st pt fl (page_of q) 0" using m f_bits(1) by (simp add: bit_or_iff)
  show "process_mark st pt fl (page_of q) 1" if "user_target st pt q"
  proof -
    have "page_marks (process_flags st fl) st pt 0 (page_of q) 1"
      by (rule page_marks_target(2)[OF assms(1,3,4) _ _ that]) (erule flags_user(1), erule flags_functions(2), simp only: flags_functions(1))
    then show ?thesis by (simp only: m simp_thms)
  qed
qed

lemma viewer_mark_seen:
  assumes "walkable (kernel_end lk) st (kernel_pagetable lk)" "page_aligned (kernel_pagetable lk)" "page_aligned vp"
    "\<And>n. n \<in> {1..<PID_MAX} \<Longrightarrow> live (kernel_pagetable lk) (ps n) \<Longrightarrow> walkable (kernel_end lk) st (pagetable (ps n)) \<and> page_aligned (pagetable (ps n))"
    "allocatable_physical_address (kernel_end lk) q" "page_aligned q"
  shows "viewer_mark lk ps st vp (page_of q) b \<Longrightarrow> seen lk ps st vp q"
    "seen lk ps st vp q \<Longrightarrow> viewer_mark lk ps st vp (page_of q) 0 \<or> viewer_mark lk ps st vp (page_of q) 1"
proof -
  let ?kpt = "kernel_pagetable lk"
  note own = page_mark_page[OF assms(5,6)]
  have tab: "(\<exists>r \<in> tables st ?kpt. page_mark r f_kernel (page_of q) b) \<longleftrightarrow> q \<in> tables st ?kpt \<and> bit f_kernel b" for b
    using own tables_aligned(1)[OF assms(2)] by blast
  have v: "page_mark vp f_kernel (page_of q) b \<longleftrightarrow> vp = q \<and> bit f_kernel b" for b using own[OF assms(3)] .
  have o: "page_marks (owner_flags st) st ?kpt 0 (page_of q) b \<Longrightarrow> user_target st ?kpt q" for b
    by (rule page_marks_target(1)[OF assms(1,5,6), where f = "owner_flags st"]) (erule flags_user(2), erule flags_functions(4), assumption)
  have used: "page_used (refcount st (page_of q))" if p: "page_marks (owner_flags st) st ?kpt 0 (page_of q) b" for b
  proof -
    obtain a it flags where a: "page_aligned a" "a < VA_LOWEND" "new_vmiter st ?kpt a = Inr it" "owner_flags st it = Some flags"
      "page_mark (vm_pa st it) flags (page_of q) b" using p unfolding page_marks_def by blast
    have f: "vm_user st it \<and> page_used (refcount st (page_of (vm_pa st it)))" using flags_functions(3)[of st it] a(4) by auto
    then have "vm_pa st it = q" using own user_lookup(2)[OF assms(1) a(1-3)] a(5) by blast
    then show ?thesis using f by simp
  qed
  show "seen lk ps st vp q" if "viewer_mark lk ps st vp (page_of q) b"
    using that[unfolded viewer_mark_def tab v]
  proof (elim disjE conjE bexE)
    fix n assume n: "n \<in> {1..<PID_MAX}" "live ?kpt (ps n)" "process_mark st (pagetable (ps n)) (f_process (int n)) (page_of q) b"
    then have "q \<in> low_tables st (pagetable (ps n)) \<or> user_target st (pagetable (ps n)) q"
      using process_mark_seen(1)[of "kernel_end lk" st "pagetable (ps n)" q] assms(4)[OF n(1,2)] assms(5,6) by blast
    then show ?thesis using n(1,2) unfolding seen_def by blast
  next
    assume "\<forall>n \<in> {1..<PID_MAX}. \<not> live ?kpt (ps n)" "page_marks (owner_flags st) st ?kpt 0 (page_of q) b"
    moreover from this have "user_target st ?kpt q" "page_used (refcount st (page_of q))" using o used by simp_all
    ultimately show ?thesis unfolding seen_def by simp
  qed (simp_all add: seen_def)
  show "viewer_mark lk ps st vp (page_of q) 0 \<or> viewer_mark lk ps st vp (page_of q) 1" if "seen lk ps st vp q"
    using that[unfolded seen_def]
  proof (elim disjE conjE bexE)
    fix n assume n: "n \<in> {1..<PID_MAX}" "live ?kpt (ps n)" "q \<in> low_tables st (pagetable (ps n))"
    then have "process_mark st (pagetable (ps n)) (f_process (int n)) (page_of q) 0"
      using process_mark_seen(2) assms(4)[OF n(1,2)] assms(5,6) by blast
    then show ?thesis using n(1,2) unfolding viewer_mark_def by blast
  next
    fix n assume n: "n \<in> {1..<PID_MAX}" "live ?kpt (ps n)" "user_target st (pagetable (ps n)) q"
    then have "process_mark st (pagetable (ps n)) (f_process (int n)) (page_of q) 1"
      using process_mark_seen(3) assms(4)[OF n(1,2)] assms(5,6) by blast
    then show ?thesis using n(1,2) unfolding viewer_mark_def by blast
  next
    assume a: "\<forall>n \<in> {1..<PID_MAX}. \<not> live ?kpt (ps n)" "page_used (refcount st (page_of q))" "user_target st ?kpt q"
    have "q < MEMSIZE_PHYSICAL" using assms(5) by (simp add: allocatable_physical_address_def)
    then have "page_marks (owner_flags st) st ?kpt 0 (page_of q) 1"
      by (intro page_marks_target(2)[OF assms(1,5,6) _ _ a(3)]) (erule flags_user(2), erule flags_functions(4), simp only: flags_functions(3) a(2) simp_thms)
    then show ?thesis using a(1) unfolding viewer_mark_def by blast
  next
    assume "q = vp"
    then have "page_mark vp f_kernel (page_of q) 0" using v[of 0] f_bits(1) by simp
    then show ?thesis unfolding viewer_mark_def by blast
  next
    assume "q \<in> tables st ?kpt"
    then have "\<exists>r \<in> tables st ?kpt. page_mark r f_kernel (page_of q) 0" using tab[of 0] f_bits(1) by simp
    then show ?thesis unfolding viewer_mark_def by blast
  qed
qed

section \<open>Leaked pages\<close>

text \<open>Taking a page for the marks leaves page tables as they are.\<close>

lemma take_page_walkable:
  assumes "walkable ke st pt" "free_page ke st pa"
  shows "walkable ke (take_page pa f st) pt" "tables (take_page pa f st) pt = tables st pt"
    "lookup (take_page pa f st) pt va = lookup st pt va" "low_tables (take_page pa f st) pt = low_tables st pt"
proof -
  have nt: "pa \<notin> tables st pt" using walkableD(2)[OF assms(1)] assms(2) unfolding tables_def by blast
  then have a: "pmem (take_page pa f st) q = pmem st q" if "q \<in> tables st pt" for q using that by auto
  have b: "\<And>q. free_page ke (take_page pa f st) q \<Longrightarrow> free_page ke st q" using take_page_free[OF assms(2)] by blast
  show "walkable ke (take_page pa f st) pt" "tables (take_page pa f st) pt = tables st pt" "lookup (take_page pa f st) pt va = lookup st pt va"
    using walkable_frame[OF assms(1) a b] by blast+
  have "table_at (take_page pa f st) pt va d = table_at st pt va d" if "d \<le> 3" for va d
    by (rule table_at_unchanged(1)[OF _ that]) (rule a)
  then show "low_tables (take_page pa f st) pt = low_tables st pt" unfolding low_tables_def by (metis (no_types, lifting))
qed

lemma symbol_at_page:
  assumes "allocatable_physical_address (kernel_end lk) q" "page_aligned q" "page_valid (refcount st (page_of q))"
  shows "symbol_at lk st q s =
    (let v = mu_flags (fst s) (page_of q); vx = v AND NOT f_nonidentity in
     if vx = 0 then Inr (if page_used (refcount st (page_of q)) then coloured (CHR ''L'') 0x0300 else coloured (CHR ''.'') 0x0700, s)
     else if vx = f_kernel then Inr (coloured (CHR ''K'') 0x0D00, s)
     else if vx = f_user then Inr (coloured (CHR ''.'') 0x0700, s)
     else if v AND f_kernel \<noteq> 0 \<and> v AND f_user \<noteq> 0 \<and> mu_separate (fst s) then
       res_bind (page_error q ''kernel allocated page mapped for user'' (int (marked_pid v)) s) (\<lambda>s. Inr (coloured (CHR ''*'') 0xF400, s))
     else process_symbol st q v s)"
proof -
  have lim: "unat q < 0x200000" using assms(1) by (simp add: allocatable_physical_address_def MEMSIZE_PHYSICAL_def word_less_nat_alt)
  then have "unat (q div PAGESIZE) < 512" by (simp add: unat_div PAGESIZE_def)
  then have pn: "unat (ucast (q div PAGESIZE) :: u32) = page_of q" by (simp add: page_of_def unsigned_ucast_eq take_bit_nat_eq_self)
  have r: "\<not> reserved_physical_address q" "\<not> maxpa \<le> q" "\<not> MEMSIZE_PHYSICAL \<le> q"
    using assms(1) lim by (auto simp: allocatable_physical_address_def maxpa_def PAGESIZE_def word_le_nat_alt word_less_nat_alt MEMSIZE_PHYSICAL_def)
  have c: "\<not> (CONSOLE_ADDR \<le> q \<and> q < CONSOLE_ADDR + PAGESIZE)"
    using r(1) by (auto simp: reserved_physical_address_def CONSOLE_ADDR_def PAGESIZE_def word_le_nat_alt word_less_nat_alt)
  have e: "(CONSOLE_ADDR \<le> q \<and> q < CONSOLE_ADDR + PAGESIZE) = False" "reserved_physical_address q = False" "(maxpa \<le> q) = False"
    "(MEMSIZE_PHYSICAL \<le> q) = False" "allocatable_physical_address (kernel_end lk) q = True" "page_valid (refcount st (page_of q)) = True"
    using assms r c by simp_all
  show ?thesis unfolding symbol_at_def Let_def pn by (simp only: e if_False if_True simp_thms res_bind.simps)
qed

text \<open>No other symbol is drawn like the \<open>L\<close> of a leaked page.\<close>

lemma process_symbol_color: "process_symbol st pa v s = Inr (ch, s') \<Longrightarrow> bit ch 11"
proof -
  assume p: "process_symbol st pa v s = Inr (ch, s')"
  define c0 :: u16 where "c0 = push_bit 8 (process_colors ! (marked_pid v mod 5))"
  have m: "marked_pid v mod 5 \<in> {0, 1, 2, 3, 4}" using mod_less_divisor[of 5 "marked_pid v"] by auto
  have "c0 \<in> {0xF00, 0xC00, 0xA00, 0x900, 0xE00}" using m unfolding c0_def process_colors_def by (auto simp: push_bit_eq_mult)
  then have c0: "bit c0 11" by auto
  have S: "bit (coloured (CHR ''S'') 0x0F00) 11" by (simp add: coloured_def uchar_def bit_or_iff)
  have put: "bit c1 11 \<Longrightarrow> bit (coloured c c1) 11" for c and c1 :: u16 by (simp add: coloured_def bit_or_iff)
  have F: "bit (0x0F00 :: u16) 11" by simp
  define c1 where "c1 = (if v AND f_kernel \<noteq> 0 then 0x4000 OR (if c0 = 0x0C00 then 0x0F00 else c0) else c0)"
  have c1: "bit c1 11" "bit (c1 OR 0xF000) 11" using c0 F by (auto simp: c1_def bit_or_iff)
  from p S c1 show "bit ch 11"
    unfolding process_symbol_def Let_def c0_def[symmetric] c1_def[symmetric]
    by (auto simp: result_simps intro: put split: if_splits)
qed

lemma leak_symbol:
  assumes "allocatable_physical_address (kernel_end lk) q" "page_aligned q" "page_valid (refcount st (page_of q))"
  shows "(\<And>b. \<not> bit (mu_flags (fst s) (page_of q)) b) \<Longrightarrow>
      symbol_at lk st q s = Inr (if page_used (refcount st (page_of q)) then coloured (CHR ''L'') 0x0300 else coloured (CHR ''.'') 0x0700, s)"
    "bit (mu_flags (fst s) (page_of q)) 0 \<or> bit (mu_flags (fst s) (page_of q)) 1 \<Longrightarrow> symbol_at lk st q s = Inr (ch, s') \<Longrightarrow> ch \<noteq> coloured (CHR ''L'') 0x0300"
proof -
  define v where "v = mu_flags (fst s) (page_of q)"
  note y = symbol_at_page[OF assms, of s, unfolded v_def[symmetric] Let_def]
  show "symbol_at lk st q s = Inr (if page_used (refcount st (page_of q)) then coloured (CHR ''L'') 0x0300 else coloured (CHR ''.'') 0x0700, s)"
    if "\<And>b. \<not> bit (mu_flags (fst s) (page_of q)) b"
  proof -
    have "v = 0" using that by (intro bit_word_eqI) (simp add: v_def)
    then have "mu_flags (fst s) (page_of q) AND NOT f_nonidentity = 0" by (simp add: v_def)
    then show ?thesis unfolding symbol_at_page[OF assms] Let_def by (simp only: simp_thms if_True)
  qed
  show "ch \<noteq> coloured (CHR ''L'') 0x0300"
    if b: "bit (mu_flags (fst s) (page_of q)) 0 \<or> bit (mu_flags (fst s) (page_of q)) 1" and r: "symbol_at lk st q s = Inr (ch, s')"
  proof -
    have nz: "mu_flags (fst s) (page_of q) AND NOT f_nonidentity \<noteq> 0"
    proof
      assume z: "mu_flags (fst s) (page_of q) AND NOT f_nonidentity = 0"
      have "\<not> bit (mu_flags (fst s) (page_of q) AND NOT f_nonidentity) n" for n unfolding z by simp
      from this[of 0] this[of 1] show False using b f_bits(3) by (auto simp: bit_and_iff bit_not_iff)
    qed
    have L: "coloured (CHR ''L'') 0x0300 = 0x034C" "coloured (CHR ''K'') 0x0D00 = 0x0D4B" "coloured (CHR ''.'') 0x0700 = 0x072E" "coloured (CHR ''*'') 0xF400 = 0xF42A"
      by (simp_all add: coloured_def uchar_def)
    have p: "process_symbol st q v s = Inr (c, s'') \<Longrightarrow> c \<noteq> 0x034C" for v c s'' using process_symbol_color[of st q v s c s''] by auto
    show ?thesis using r nz p unfolding symbol_at_page[OF assms] Let_def L
      by (auto simp: result_simps split: if_splits)
  qed
qed

text \<open>What the viewer draws for an allocatable page depends on whether \<open>refresh\<close> looks at it.\<close>

lemma viewer_draws_unseen:
  assumes "walkable (kernel_end lk) st (kernel_pagetable lk)" "page_aligned (kernel_pagetable lk)"
    "\<forall>n \<in> {1..<PID_MAX}. live (kernel_pagetable lk) (ps n) \<longrightarrow> walkable (kernel_end lk) st (pagetable (ps n)) \<and> page_aligned (pagetable (ps n))"
    "page_aligned (mu_v mu)" "mu_v mu = 0 \<Longrightarrow> \<exists>q. free_page (kernel_end lk) st q"
  shows "\<exists>mu' st'. refresh lk ps mu st = Inr (mu', st') \<and>
    (if mu_v mu = 0 then free_page (kernel_end lk) st (mu_v mu') \<and> st' = take_page (mu_v mu') (\<lambda>_. 0xCCCCCCCCCCCCCCCC) st else st' = st \<and> mu_v mu' = mu_v mu) \<and>
    (\<forall>q con. allocatable_physical_address (kernel_end lk) q \<and> page_aligned q \<and> page_valid (refcount st' (page_of q)) \<longrightarrow>
      (if seen lk ps st' (mu_v mu') q
       then (\<forall>ch s. symbol_at lk st' q (mu', con) = Inr (ch, s) \<longrightarrow> ch \<noteq> coloured (CHR ''L'') 0x0300)
       else symbol_at lk st' q (mu', con) =
         Inr (if page_used (refcount st' (page_of q)) then coloured (CHR ''L'') 0x0300 else coloured (CHR ''.'') 0x0700, mu', con)))"
proof -
  let ?ke = "kernel_end lk" and ?kpt = "kernel_pagetable lk"
  define start where "start = (if mu_v mu = 0 then kalloc ?ke PAGESIZE st else (mu_v mu, st))"
  obtain vp st' where vp: "start = (vp, st')" by (cases start)
  have taken: "if mu_v mu = 0 then free_page ?ke st vp \<and> st' = take_page vp (\<lambda>_. 0xCCCCCCCCCCCCCCCC) st else st' = st \<and> vp = mu_v mu" "vp \<noteq> 0"
  proof -
    have "(if mu_v mu = 0 then free_page ?ke st vp \<and> st' = take_page vp (\<lambda>_. 0xCCCCCCCCCCCCCCCC) st else st' = st \<and> vp = mu_v mu) \<and> vp \<noteq> 0"
    proof (cases "mu_v mu = 0")
      case False
      then show ?thesis using vp by (simp add: start_def)
    next
      case True
      then show ?thesis using vp assms(5) kalloc_page[of ?ke st] free_pageD(3) by (auto simp: start_def)
    qed
    then show "if mu_v mu = 0 then free_page ?ke st vp \<and> st' = take_page vp (\<lambda>_. 0xCCCCCCCCCCCCCCCC) st else st' = st \<and> vp = mu_v mu" "vp \<noteq> 0" by auto
  qed
  have ok: "walkable ?ke st' pt" if "walkable ?ke st pt" for pt
    using taken(1) that take_page_walkable(1)[OF that, of vp "\<lambda>_. 0xCCCCCCCCCCCCCCCC"] by (auto split: if_splits)
  have al: "page_aligned vp" using taken(1) assms(4) by (auto simp: free_page_def split: if_splits)
  have procs: "walkable ?ke st' (pagetable (ps n)) \<and> page_aligned (pagetable (ps n))" if "n \<in> {1..<PID_MAX}" "live ?kpt (ps n)" for n
    using assms(3) ok that by blast
  define mu1 where "mu1 = mu\<lparr>mu_v := vp\<rparr>"
  have "mu_v mu1 \<noteq> 0" using taken(2) by (simp add: mu1_def)
  then obtain v sep where r: "refresh lk ps mu1 st' = Inr (mu1\<lparr>mu_flags := v, mu_separate := sep\<rparr>, st')"
    and bits: "\<And>m b. bit (v m) b \<longleftrightarrow> viewer_mark lk ps st' (mu_v mu1) m b"
    using refresh_marks[OF ok[OF assms(1)], of ps mu1] procs by blast
  have same: "refresh lk ps mu st = refresh lk ps mu1 st'"
    using vp taken(2) by (simp add: refresh_def start_def[symmetric] mu1_def)
  define mu' where "mu' = mu1\<lparr>mu_flags := v, mu_separate := sep\<rparr>"
  have mu': "mu_v mu' = vp" "mu_flags mu' = v" by (simp_all add: mu'_def mu1_def)
  have main: "if seen lk ps st' vp q
       then (\<forall>ch s. symbol_at lk st' q (mu', con) = Inr (ch, s) \<longrightarrow> ch \<noteq> coloured (CHR ''L'') 0x0300)
       else symbol_at lk st' q (mu', con) =
         Inr (if page_used (refcount st' (page_of q)) then coloured (CHR ''L'') 0x0300 else coloured (CHR ''.'') 0x0700, mu', con)"
    if q: "allocatable_physical_address ?ke q" "page_aligned q" "page_valid (refcount st' (page_of q))" for q con
  proof -
    note vm = viewer_mark_seen[OF ok[OF assms(1)] assms(2) al procs q(1,2)]
    show ?thesis
    proof (cases "seen lk ps st' vp q")
      case True
      then have "bit (v (page_of q)) 0 \<or> bit (v (page_of q)) 1" using vm(2) bits by (simp add: mu1_def)
      then show ?thesis using True leak_symbol(2)[OF q, of "(mu', con)"] mu'(2) by auto
    next
      case False
      then have "\<not> bit (v (page_of q)) b" for b using vm(1) bits by (auto simp: mu1_def)
      then show ?thesis using False leak_symbol(1)[OF q, of "(mu', con)"] mu'(2) by simp
    qed
  qed
  have "refresh lk ps mu st = Inr (mu', st')" using same r by (simp add: mu'_def)
  then show ?thesis using taken(1) main unfolding mu'(1)[symmetric] by (intro exI[of _ mu'] exI[of _ st'] conjI allI impI) blast+
qed

text \<open>A page table with tables and user mappings for low addresses only.\<close>

definition user_mapped :: "kmem \<Rightarrow> u64 \<Rightarrow> u64 \<Rightarrow> bool" where
  "user_mapped st pt q \<longleftrightarrow> (\<exists>a perm. page_aligned a \<and> lookup st pt a = Inr (Some (q, perm)) \<and> bit perm 2)"

definition low_only :: "kmem \<Rightarrow> u64 \<Rightarrow> bool" where
  "low_only st pt \<longleftrightarrow> tables st pt = low_tables st pt \<and>
     (\<forall>a q perm. page_aligned a \<and> lookup st pt a = Inr (Some (q, perm)) \<and> bit perm 2 \<longrightarrow> a < VA_LOWEND)"

text \<open>
  A page is mentioned when it is the page of the marks, a table page of the kernel or of a live process, or a
  page a live process can use; with no live process, the kernel's page table stands for theirs.
\<close>

definition mentioned :: "link \<Rightarrow> (nat \<Rightarrow> proc) \<Rightarrow> kmem \<Rightarrow> u64 \<Rightarrow> u64 \<Rightarrow> bool" where
  "mentioned lk ps st vp q \<longleftrightarrow> q = vp \<or> q \<in> tables st (kernel_pagetable lk) \<or>
     (\<exists>n \<in> {1..<PID_MAX}. live (kernel_pagetable lk) (ps n) \<and> (q \<in> tables st (pagetable (ps n)) \<or> user_mapped st (pagetable (ps n)) q)) \<or>
     ((\<forall>n \<in> {1..<PID_MAX}. \<not> live (kernel_pagetable lk) (ps n)) \<and> page_used (refcount st (page_of q)) \<and> user_mapped st (kernel_pagetable lk) q)"

lemma low_tables_subset: "low_tables st pt \<subseteq> tables st pt"
  unfolding low_tables_def tables_def by blast

lemma low_user_mapped: "low_only st pt \<Longrightarrow> user_mapped st pt q \<longleftrightarrow> user_target st pt q"
  unfolding low_only_def user_mapped_def user_target_def by blast

lemma mentioned_seen:
  assumes "low_only st (kernel_pagetable lk)" "\<forall>n \<in> {1..<PID_MAX}. live (kernel_pagetable lk) (ps n) \<longrightarrow> low_only st (pagetable (ps n))"
  shows "mentioned lk ps st vp q \<longleftrightarrow> seen lk ps st vp q"
proof -
  have "(q \<in> tables st (pagetable (ps n)) \<or> user_mapped st (pagetable (ps n)) q) \<longleftrightarrow> (q \<in> low_tables st (pagetable (ps n)) \<or> user_target st (pagetable (ps n)) q)"
    if "n \<in> {1..<PID_MAX}" "live (kernel_pagetable lk) (ps n)" for n
    using assms(2) that low_user_mapped[of st "pagetable (ps n)" q] by (auto simp: low_only_def)
  then show ?thesis using low_user_mapped[OF assms(1)] unfolding mentioned_def seen_def by blast
qed

text \<open>
  C24. The memory viewer draws \<open>L\<close> for exactly the leaked pages. The page tables are well formed, those of
  processes and that of the kernel with its large pages, and use low addresses only; there is a page for
  the marks of the viewer, or a free one. Then \<open>refresh\<close> returns and changes nothing but taking that page on the first use, and an
  allocatable page (with a count the viewer takes for valid) that is not mentioned by the page tables of the kernel and the live processes
  is drawn as \<open>L\<close> when it is in use and as a dot when it is free; a page that is mentioned is never drawn as \<open>L\<close>. The shift by
  64 in \<open>ptiter::va\<close> is the one of x86, as \<open>viewed_va\<close> has it.
\<close>

theorem viewer_shows_leaks:
  assumes "walkable (kernel_end lk) st (kernel_pagetable lk)" "page_aligned (kernel_pagetable lk)" "low_only st (kernel_pagetable lk)"
    "\<forall>n \<in> {1..<PID_MAX}. live (kernel_pagetable lk) (ps n) \<longrightarrow>
       walkable (kernel_end lk) st (pagetable (ps n)) \<and> page_aligned (pagetable (ps n)) \<and> low_only st (pagetable (ps n))"
    "page_aligned (mu_v mu)" "mu_v mu = 0 \<Longrightarrow> \<exists>q. free_page (kernel_end lk) st q"
  shows "\<exists>mu' st'. refresh lk ps mu st = Inr (mu', st') \<and>
    (if mu_v mu = 0 then free_page (kernel_end lk) st (mu_v mu') \<and> st' = take_page (mu_v mu') (\<lambda>_. 0xCCCCCCCCCCCCCCCC) st else st' = st \<and> mu_v mu' = mu_v mu) \<and>
    (\<forall>q con. allocatable_physical_address (kernel_end lk) q \<and> page_aligned q \<and> page_valid (refcount st' (page_of q)) \<longrightarrow>
      (if mentioned lk ps st' (mu_v mu') q
       then (\<forall>ch s. symbol_at lk st' q (mu', con) = Inr (ch, s) \<longrightarrow> ch \<noteq> coloured (CHR ''L'') 0x0300)
       else symbol_at lk st' q (mu', con) =
         Inr (if page_used (refcount st' (page_of q)) then coloured (CHR ''L'') 0x0300 else coloured (CHR ''.'') 0x0700, mu', con)))"
proof -
  have procs: "\<forall>n \<in> {1..<PID_MAX}. live (kernel_pagetable lk) (ps n) \<longrightarrow> walkable (kernel_end lk) st (pagetable (ps n)) \<and> page_aligned (pagetable (ps n))"
    using assms(4) by blast
  obtain mu' st' where r: "refresh lk ps mu st = Inr (mu', st')"
    and taken: "if mu_v mu = 0 then free_page (kernel_end lk) st (mu_v mu') \<and> st' = take_page (mu_v mu') (\<lambda>_. 0xCCCCCCCCCCCCCCCC) st else st' = st \<and> mu_v mu' = mu_v mu"
    and draws: "\<forall>q con. allocatable_physical_address (kernel_end lk) q \<and> page_aligned q \<and> page_valid (refcount st' (page_of q)) \<longrightarrow>
      (if seen lk ps st' (mu_v mu') q
       then (\<forall>ch s. symbol_at lk st' q (mu', con) = Inr (ch, s) \<longrightarrow> ch \<noteq> coloured (CHR ''L'') 0x0300)
       else symbol_at lk st' q (mu', con) =
         Inr (if page_used (refcount st' (page_of q)) then coloured (CHR ''L'') 0x0300 else coloured (CHR ''.'') 0x0700, mu', con))"
    using viewer_draws_unseen[OF assms(1,2) procs assms(5,6)] by blast
  have low: "low_only st' pt" if "walkable (kernel_end lk) st pt" "low_only st pt" for pt
    using taken that take_page_walkable[OF that(1), of "mu_v mu'"] by (auto simp: low_only_def split: if_splits)
  have "mentioned lk ps st' vp q \<longleftrightarrow> seen lk ps st' vp q" for vp q
    using mentioned_seen low assms(1,3,4) by blast
  then show ?thesis using r taken draws by simp
qed

text \<open>
  For the example: the page tables of the kernel as it has them after \<open>kernel_start\<close>, with the identity mapping
  of low memory and three large pages; process 1 of \<open>one_page_kernel\<close>; the marks at \<open>0x7000\<close>, and page \<open>0x6000\<close>
  in use by nobody.
\<close>

definition kernel_tables :: "u64 \<Rightarrow> nat \<Rightarrow> u64" where
  "kernel_tables p i =
     (if p = 0x42000 then if i = 0 then 0x43007 else 0
      else if p = 0x43000 then if i = 0 then 0x44007 else if i = 1 then 0x40000083 else if i = 2 then 0x80000083 else if i = 3 then 0xC0000083 else 0
      else if p = 0x44000 then if i = 0 then 0x45007 else if i = 1 then 0x46007 else 0
      else if p = 0x45000 then if i < 512 then of_nat (i * 0x1000 + (if i < 256 \<and> i \<noteq> 0xB8 then 3 else 7)) else 0
      else if i < 256 then of_nat ((512 + i) * 0x1000 + 7) else 0)"

definition viewed_memory :: kmem where
  "viewed_memory =
     \<lparr>pmem = (\<lambda>p. if p \<in> {0x42000, 0x43000, 0x44000, 0x45000, 0x46000} then kernel_tables p else pmem (mem one_page_kernel) p),
      refcount = (refcount (mem one_page_kernel))(6 := 1, 7 := 1)\<rparr>"

lemma kernel_entry_small: "p \<in> {0x45000, 0x46000} \<Longrightarrow> kernel_tables p i AND PTE_PAMASK < 0x100000000"
proof -
  assume p: "p \<in> {0x45000, 0x46000}"
  have small: "(of_nat n :: u64) < 0x100000000" if "n < 0x100000000" for n
    using that by (simp add: word_less_nat_alt unat_of_nat)
  have "kernel_tables p i < 0x100000000" using p unfolding kernel_tables_def
    by (auto simp del: of_nat_add of_nat_mult intro!: small)
  then show ?thesis using word_and_le2[of "kernel_tables p i" PTE_PAMASK] by (meson le_less_trans)
qed

lemma kernel_table_at:
  "table_at viewed_memory 0x42000 va 0 = Some 0x42000"
  "table_at viewed_memory 0x42000 va 1 = (if va_index va (level_bits 0) = 0 then Some 0x43000 else None)"
  "table_at viewed_memory 0x42000 va 2 =
     (if va_index va (level_bits 0) = 0 \<and> va_index va (level_bits 1) = 0 then Some 0x44000 else None)"
  "table_at viewed_memory 0x42000 va 3 =
     (if va_index va (level_bits 0) = 0 \<and> va_index va (level_bits 1) = 0 \<and> va_index va (level_bits 2) = 0 then Some 0x45000
      else if va_index va (level_bits 0) = 0 \<and> va_index va (level_bits 1) = 0 \<and> va_index va (level_bits 2) = 1 then Some 0x46000 else None)"
proof -
  have m: "pmem viewed_memory 0x42000 = kernel_tables 0x42000" "pmem viewed_memory 0x43000 = kernel_tables 0x43000"
    "pmem viewed_memory 0x44000 = kernel_tables 0x44000" by (simp_all add: viewed_memory_def)
  have tab: "\<not> is_table 0" "is_table 0x43007" "is_table 0x44007" "is_table 0x45007" "is_table 0x46007"
    "\<not> is_table 0x40000083" "\<not> is_table 0x80000083" "\<not> is_table 0xC0000083"
    by (simp_all add: is_table_def PTE_P_def PTE_PS_def)
  have pa: "(0x43007 :: u64) AND PTE_PAMASK = 0x43000" "(0x44007 :: u64) AND PTE_PAMASK = 0x44000" "(0x45007 :: u64) AND PTE_PAMASK = 0x45000"
    "(0x46007 :: u64) AND PTE_PAMASK = 0x46000" by (simp_all add: PTE_PAMASK_def)
  show t0: "table_at viewed_memory 0x42000 va 0 = Some 0x42000" by simp
  show t1: "table_at viewed_memory 0x42000 va 1 = (if va_index va (level_bits 0) = 0 then Some 0x43000 else None)"
    using tab pa by (simp add: entry_for_def m kernel_tables_def)
  have "table_at viewed_memory 0x42000 va (Suc 1) =
     (if va_index va (level_bits 0) = 0 \<and> va_index va (level_bits 1) = 0 then Some 0x44000 else None)"
    unfolding table_at.simps(2)[of _ _ _ 1] t1 using tab pa by (simp add: entry_for_def m kernel_tables_def)
  then show t2: "table_at viewed_memory 0x42000 va 2 =
     (if va_index va (level_bits 0) = 0 \<and> va_index va (level_bits 1) = 0 then Some 0x44000 else None)" by (simp only: Suc_1)
  have "table_at viewed_memory 0x42000 va (Suc 2) =
     (if va_index va (level_bits 0) = 0 \<and> va_index va (level_bits 1) = 0 \<and> va_index va (level_bits 2) = 0 then Some 0x45000
      else if va_index va (level_bits 0) = 0 \<and> va_index va (level_bits 1) = 0 \<and> va_index va (level_bits 2) = 1 then Some 0x46000 else None)"
    unfolding table_at.simps(2)[of _ _ _ 2] t2 using tab pa by (simp add: entry_for_def m kernel_tables_def)
  then show "table_at viewed_memory 0x42000 va 3 =
     (if va_index va (level_bits 0) = 0 \<and> va_index va (level_bits 1) = 0 \<and> va_index va (level_bits 2) = 0 then Some 0x45000
      else if va_index va (level_bits 0) = 0 \<and> va_index va (level_bits 1) = 0 \<and> va_index va (level_bits 2) = 1 then Some 0x46000 else None)" by simp
qed

lemma level_0123: "d \<le> 3 \<Longrightarrow> d = 0 \<or> d = 1 \<or> d = 2 \<or> d = 3" for d :: nat
  by linarith

lemma kernel_walkable: "walkable 0x50000 viewed_memory 0x42000"
  unfolding walkable_def
proof (intro conjI allI impI; elim conjE)
  have three: "[0..<3] = [0, 1, 2 :: nat]" by (simp add: upt_rec)
  have path: "same_path 0 va va'" "same_path 1 va va' \<longleftrightarrow> va_index va (level_bits 0) = va_index va' (level_bits 0)"
    "same_path 2 va va' \<longleftrightarrow> va_index va (level_bits 0) = va_index va' (level_bits 0) \<and> va_index va (level_bits 1) = va_index va' (level_bits 1)"
    "same_path 3 va va' \<longleftrightarrow> va_index va (level_bits 0) = va_index va' (level_bits 0) \<and> va_index va (level_bits 1) = va_index va' (level_bits 1)
       \<and> va_index va (level_bits 2) = va_index va' (level_bits 2)" for va va'
    by (simp_all add: same_path_def three upt_rec numeral_2_eq_2)
  fix va va' d d' p
  assume a: "d \<le> 3" "d' \<le> 3" "table_at viewed_memory 0x42000 va d = Some p" "table_at viewed_memory 0x42000 va' d' = Some p"
  show "d = d'" "same_path d va va'"
    using level_0123[OF a(1)] level_0123[OF a(2)] a(3,4)
    by (elim disjE; simp only: kernel_table_at path split: if_splits; simp)+
next
  fix va d p assume a: "d \<le> 3" "table_at viewed_memory 0x42000 va d = Some p"
  have p: "p \<in> {0x42000, 0x43000, 0x44000, 0x45000, 0x46000}" "d = 3 \<longrightarrow> p \<in> {0x45000, 0x46000}"
    "d = 0 \<longrightarrow> p = 0x42000" "d = 1 \<longrightarrow> p = 0x43000" "d = 2 \<longrightarrow> p = 0x44000"
    using level_0123[OF a(1)] a(2) by (elim disjE; simp only: kernel_table_at split: if_splits; simp)+
  then show "\<not> free_page 0x50000 viewed_memory p"
    by (auto simp: free_page_def allocatable_physical_address_def round_up_def round_down_def KERNEL_START_ADDR_def PAGESIZE_def)
  have e: "entry_for viewed_memory p va d = kernel_tables p (va_index va (level_bits d))"
    using p(1) by (auto simp: entry_for_def viewed_memory_def)
  have w: "entry_walkable 3 (kernel_tables p i)" if "p \<in> {0x45000, 0x46000}" for i
    using kernel_entry_small[OF that] by (simp add: entry_walkable_def)
  show "entry_walkable d (entry_for viewed_memory p va d)"
    using level_0123[OF a(1)] p(2-5) w unfolding e
    by (elim disjE) (simp_all add: kernel_tables_def entry_walkable_def is_table_def PTE_P_def PTE_PS_def PTE_PWU_def PTE_U_def PTE_PAMASK_def)
qed

text \<open>For the example: no process, the marks at \<open>0x3000\<close>, and page \<open>0x5000\<close> in use by nobody.\<close>

lemma kernel_low_only: "low_only viewed_memory 0x42000"
proof -
  have low: "va_index va (level_bits 0) = 0 \<Longrightarrow> va_is_canonical va \<Longrightarrow> va < VA_LOWEND" for va
  proof -
    assume i: "va_index va (level_bits 0) = 0" and c: "va_is_canonical va"
    have "\<not> bit va 47"
    proof
      assume b: "bit va 47"
      have "va_index va (level_bits 0) = va_index 0 (level_bits 0)" using i by (simp add: va_index_def)
      from index_bits[OF this, where n = 47] b show False by (simp add: level_bits_def initial_lbits_def)
    qed
    then have "\<not> bit (drop_bit 47 va) 0" by (simp add: bit_drop_bit_eq)
    moreover have "bit (0x1FFFF :: u64) 0" by simp
    ultimately have "drop_bit 47 va = 0" using c unfolding canonical_bits by metis
    then show ?thesis by (simp add: VA_LOWEND_def word_less_nat_alt word_unat_eq_iff unat_drop div_eq_0_iff)
  qed
  have root: "va_index va (level_bits 0) = 0" if l: "lookup viewed_memory 0x42000 va = Inr (Some x)" and c: "va_is_canonical va" for va x
  proof (rule ccontr)
    assume n: "va_index va (level_bits 0) \<noteq> 0"
    have e: "entry_for viewed_memory 0x42000 va 0 = 0" using n by (simp add: entry_for_def viewed_memory_def kernel_tables_def)
    then have leaf: "leaf viewed_memory 0x42000 va 0 0x42000" by (simp add: leaf_def is_table_bits)
    have "lookup viewed_memory 0x42000 va = Inr None"
      using walkable_lookup[OF kernel_walkable c leaf] e by (simp add: entry_mapping_def)
    then show False using l by simp
  qed
  have "q \<in> low_tables viewed_memory 0x42000" if "d \<le> 3" "table_at viewed_memory 0x42000 va d = Some q" for va d q
  proof -
    have z: "va_index 0 l = 0" for l by (simp add: va_index_def)
    have o: "va_index 0x200000 (level_bits 0) = 0" "va_index 0x200000 (level_bits 1) = 0" "va_index 0x200000 (level_bits 2) = 1"
      by (simp_all add: va_index_def level_bits_def initial_lbits_def PAGEINDEXBITS_def)
    have at: "table_at viewed_memory 0x42000 0 0 = Some 0x42000" "table_at viewed_memory 0x42000 0 1 = Some 0x43000"
      "table_at viewed_memory 0x42000 0 2 = Some 0x44000" "table_at viewed_memory 0x42000 0 3 = Some 0x45000"
      "table_at viewed_memory 0x42000 0x200000 3 = Some 0x46000" using kernel_table_at z o by simp_all
    have "q \<in> {0x42000, 0x43000, 0x44000, 0x45000, 0x46000}"
      using level_0123[OF that(1)] that(2) by (elim disjE; simp only: kernel_table_at split: if_splits; simp)
    moreover have "0 \<le> VA_LOWMAX" "0x200000 \<le> VA_LOWMAX" "(0 :: nat) \<le> 3" "(1 :: nat) \<le> 3" "(2 :: nat) \<le> 3" "(3 :: nat) \<le> 3"
      by (simp_all add: VA_LOWMAX_def)
    ultimately show ?thesis using at unfolding low_tables_def by blast
  qed
  then have "tables viewed_memory 0x42000 \<subseteq> low_tables viewed_memory 0x42000" unfolding tables_def by blast
  then have "tables viewed_memory 0x42000 = low_tables viewed_memory 0x42000" using low_tables_subset by (rule subset_antisym)
  moreover have "a < VA_LOWEND" if "lookup viewed_memory 0x42000 a = Inr (Some x)" for a x
    using low[OF root[OF that]] root[OF that] lookup_hole[of a viewed_memory "0x42000"] that by (cases "va_is_canonical a") auto
  ultimately show ?thesis unfolding low_only_def by blast
qed

lemma viewed_process:
  "walkable 0x50000 viewed_memory 0x1000" "low_only viewed_memory 0x1000" "q \<in> tables viewed_memory 0x1000 \<Longrightarrow> q \<in> {0x1000, 0x2000, 0x3000, 0x4000}"
  "user_mapped viewed_memory 0x1000 q \<longleftrightarrow> q = 0x5000"
proof -
  let ?st = "mem one_page_kernel"
  have ok: "walkable 0x50000 ?st 0x1000" using one_page_space(1) vm_ok_walkable by (simp add: address_space_ok_def)
  have ts: "q \<in> {0x1000, 0x2000, 0x3000, 0x4000}" if "q \<in> tables ?st 0x1000" for q
  proof -
    obtain va d where d: "d \<le> 3" "table_at ?st 0x1000 va d = Some q" using \<open>q \<in> tables ?st 0x1000\<close> unfolding tables_def by blast
    then have "q = [0x1000, 0x2000, 0x3000, 0x4000] ! d" using one_page_space(4)[OF d(1), of va] by (simp split: if_splits)
    then show ?thesis using level_0123[OF d(1)] by auto
  qed
  have m: "pmem viewed_memory q = pmem ?st q" if "q \<in> tables ?st 0x1000" for q
    using ts[OF that] by (auto simp: viewed_memory_def)
  have f: "free_page 0x50000 ?st q" if "free_page 0x50000 viewed_memory q" for q
    using that by (auto simp: free_page_def viewed_memory_def split: if_splits)
  have w: "walkable 0x50000 viewed_memory 0x1000" "tables viewed_memory 0x1000 = tables ?st 0x1000"
    "lookup viewed_memory 0x1000 va = lookup ?st 0x1000 va" for va
    using walkable_frame[OF ok m f] by blast+
  show "walkable 0x50000 viewed_memory 0x1000" by (rule w)
  show "q \<in> tables viewed_memory 0x1000 \<Longrightarrow> q \<in> {0x1000, 0x2000, 0x3000, 0x4000}" using ts w(2) by simp
  have look: "lookup viewed_memory 0x1000 a = Inr (Some (r, perm)) \<longleftrightarrow> a = 0x100000 \<and> r = 0x5000 \<and> perm = PTE_PWU" if "page_aligned a" for a r perm
    using w(3)[of a] one_page_space(3)[OF that] by auto
  have al: "page_aligned 0x100000" by (simp add: page_aligned_and)
  have b: "bit PTE_PWU 2" by (simp add: pte_flag_bits)
  show "user_mapped viewed_memory 0x1000 q \<longleftrightarrow> q = 0x5000" using look al b unfolding user_mapped_def by blast
  have "tables viewed_memory 0x1000 \<subseteq> low_tables viewed_memory 0x1000"
  proof
    fix q assume "q \<in> tables viewed_memory 0x1000"
    then have "q \<in> tables ?st 0x1000" by (simp only: w(2))
    then obtain va d where d: "d \<le> 3" "table_at ?st 0x1000 va d = Some q" unfolding tables_def by blast
    have "table_at ?st 0x1000 0x100000 d = Some q" using one_page_space(4)[OF d(1), of va] one_page_space(4)[OF d(1), of "0x100000"] d(2) by (auto split: if_splits)
    then have "table_at viewed_memory 0x1000 0x100000 d = Some q" using table_at_unchanged(1)[OF m d(1)] by simp
    moreover have "0x100000 \<le> VA_LOWMAX" by (simp add: VA_LOWMAX_def)
    ultimately show "q \<in> low_tables viewed_memory 0x1000" using d(1) unfolding low_tables_def by blast
  qed
  then have "tables viewed_memory 0x1000 = low_tables viewed_memory 0x1000" using low_tables_subset by (rule subset_antisym)
  moreover have "0x100000 < VA_LOWEND" by (simp add: VA_LOWEND_def)
  ultimately show "low_only viewed_memory 0x1000" using look unfolding low_only_def by blast
qed

theorem viewer_shows_leaks_witness:
  "\<exists>mu' st'. refresh example_link (ptable one_page_kernel) (new_memusage\<lparr>mu_v := 0x7000\<rparr>) viewed_memory = Inr (mu', st') \<and>
     (\<forall>con. symbol_at example_link st' 0x6000 (mu', con) = Inr (coloured (CHR ''L'') 0x0300, mu', con)) \<and>
     (\<forall>con ch s. symbol_at example_link st' 0x5000 (mu', con) = Inr (ch, s) \<longrightarrow> ch \<noteq> coloured (CHR ''L'') 0x0300)"
proof -
  let ?st = viewed_memory and ?ps = "ptable one_page_kernel" and ?mu = "new_memusage\<lparr>mu_v := 0x7000\<rparr>"
  have lk: "kernel_end example_link = 0x50000" "kernel_pagetable example_link = 0x42000" by (simp_all add: example_link_def)
  have ps: "?ps n = \<lparr>pagetable = (if n = 1 then 0x1000 else 0), pid = n, state = (if n = 1 then P_RUNNABLE else P_FREE), regs = zero_regs\<rparr>" for n
    by (simp add: one_page_kernel_def example_kernel_def)
  have live: "live 0x42000 (?ps n) \<longleftrightarrow> n = 1" for n by (simp add: live_def ps)
  have al: "page_aligned 0x42000" "page_aligned 0x1000" "page_aligned 0x7000" "page_aligned 0x5000" "page_aligned 0x6000"
    by (simp_all add: page_aligned_and)
  have procs: "\<forall>n \<in> {1..<PID_MAX}. live (kernel_pagetable example_link) (?ps n) \<longrightarrow>
      walkable (kernel_end example_link) ?st (pagetable (?ps n)) \<and> page_aligned (pagetable (?ps n)) \<and> low_only ?st (pagetable (?ps n))"
    using viewed_process(1,2) al(2) ps[of 1] unfolding lk live by simp
  have marks: "page_aligned (mu_v ?mu)" "mu_v ?mu = 0 \<Longrightarrow> \<exists>q. free_page (kernel_end example_link) ?st q" using al(3) by simp_all
  from viewer_shows_leaks[of example_link ?st ?ps ?mu, OF _ _ _ procs marks] kernel_walkable kernel_low_only al(1) obtain mu' where
    r: "refresh example_link ?ps ?mu ?st = Inr (mu', ?st)" "mu_v mu' = 0x7000" and
    main: "\<And>q con. allocatable_physical_address (kernel_end example_link) q \<Longrightarrow> page_aligned q \<Longrightarrow> page_valid (refcount ?st (page_of q)) \<Longrightarrow>
      (if mentioned example_link ?ps ?st 0x7000 q
       then (\<forall>ch s. symbol_at example_link ?st q (mu', con) = Inr (ch, s) \<longrightarrow> ch \<noteq> coloured (CHR ''L'') 0x0300)
       else symbol_at example_link ?st q (mu', con) =
         Inr (if page_used (refcount ?st (page_of q)) then coloured (CHR ''L'') 0x0300 else coloured (CHR ''.'') 0x0700, mu', con))"
    by (auto simp: lk)
  have pg: "page_of 0x5000 = 5" "page_of 0x6000 = 6" by (simp_all add: page_of_def PAGESIZE_def)
  have q: "allocatable_physical_address (kernel_end example_link) 0x5000" "allocatable_physical_address (kernel_end example_link) 0x6000"
    "page_valid (refcount ?st (page_of 0x5000))" "page_valid (refcount ?st (page_of 0x6000))" "page_used (refcount ?st (page_of 0x6000))"
    by (simp_all add: lk allocatable_physical_address_def reserved_physical_address_def PAGESIZE_def KERNEL_START_ADDR_def
        KERNEL_STACK_TOP_def MEMSIZE_PHYSICAL_def page_valid_def page_used_def pg viewed_memory_def one_page_kernel_def)
  have pid1: "1 \<in> {1..<PID_MAX}" by (simp add: PID_MAX_def)
  have "0x6000 \<notin> tables ?st 0x42000" 
  proof
    assume "0x6000 \<in> tables ?st 0x42000"
    then obtain va d where d: "d \<le> 3" "table_at ?st 0x42000 va d = Some 0x6000" unfolding tables_def by blast
    show False using level_0123[OF d(1)] d(2) by (elim disjE; simp only: kernel_table_at split: if_splits; simp)
  qed
  moreover have "0x6000 \<notin> tables ?st 0x1000" using viewed_process(3)[of "0x6000"] by auto
  ultimately have no: "\<not> mentioned example_link ?ps ?st 0x7000 0x6000"
    using pid1 viewed_process(4)[of "0x6000"] ps[of 1] unfolding mentioned_def lk live by simp
  have "user_mapped ?st (pagetable (?ps 1)) 0x5000" using viewed_process(4)[of "0x5000"] by (simp add: ps)
  then have yes: "mentioned example_link ?ps ?st 0x7000 0x5000" using pid1 live[of 1] unfolding mentioned_def lk by blast
  show ?thesis using r(1) main[OF q(1) al(4) q(3)] main[OF q(2) al(5) q(4)] q(5) no yes
    by (intro exI[of _ mu'] exI[of _ ?st]) simp
qed

end
