(* ===== verification/Weensy_Keyboard.thy ===== *)
theory Weensy_Keyboard
  imports Prelude "HOL-Library.Char_ord"
begin

text \<open>
  The keyboard driver of \<open>weensyos/k-hardware.cc\<close>: \<open>keyboard_readc\<close> turns the scan codes of the keyboard, read
  one byte at a time, into characters, and keeps which modifier keys are down; \<open>check_keyboard\<close> decides what a
  typed key does to the kernel. The bytes the keyboard has ready are an argument.
\<close>

section \<open>Keys\<close>

definition MOD_SHIFT :: u8 where "MOD_SHIFT = 1"
definition MOD_CONTROL :: u8 where "MOD_CONTROL = 2"
definition MOD_CAPSLOCK :: u8 where "MOD_CAPSLOCK = 8"

definition KEY_UP :: nat where "KEY_UP = 0xC0"
definition KEY_RIGHT :: nat where "KEY_RIGHT = 0xC1"
definition KEY_DOWN :: nat where "KEY_DOWN = 0xC2"
definition KEY_LEFT :: nat where "KEY_LEFT = 0xC3"
definition KEY_HOME :: nat where "KEY_HOME = 0xC4"
definition KEY_END :: nat where "KEY_END = 0xC5"
definition KEY_PAGEUP :: nat where "KEY_PAGEUP = 0xC6"
definition KEY_PAGEDOWN :: nat where "KEY_PAGEDOWN = 0xC7"
definition KEY_INSERT :: nat where "KEY_INSERT = 0xC8"
definition KEY_DELETE :: nat where "KEY_DELETE = 0xC9"

definition KEY_SHIFT :: nat where "KEY_SHIFT = 0xFA"
definition KEY_CONTROL :: nat where "KEY_CONTROL = 0xFB"
definition KEY_ALT :: nat where "KEY_ALT = 0xFC"
definition KEY_CAPSLOCK :: nat where "KEY_CAPSLOCK = 0xFD"
definition KEY_NUMLOCK :: nat where "KEY_NUMLOCK = 0xFE"
definition KEY_SCROLLLOCK :: nat where "KEY_SCROLLLOCK = 0xFF"

definition CKEY :: "nat \<Rightarrow> nat" where
  "CKEY cn = 0x80 + cn"

definition codes :: "string \<Rightarrow> nat list" where
  "codes s = map of_char s"

definition keymap :: "nat list" where
  "keymap =
     \<comment> \<open>0x00\<close> [0, 27, CKEY 0, CKEY 1, CKEY 2, CKEY 3, CKEY 4, CKEY 5, CKEY 6, CKEY 7, CKEY 8, CKEY 9, CKEY 10, CKEY 11, 8, 9] @
     \<comment> \<open>0x10\<close> codes ''qwertyuiop'' @ [CKEY 12, CKEY 13, CKEY 14, KEY_CONTROL] @ codes ''as'' @
     \<comment> \<open>0x20\<close> codes ''dfghjkl'' @ [CKEY 15, CKEY 16, CKEY 17, KEY_SHIFT, CKEY 18] @ codes ''zxcv'' @
     \<comment> \<open>0x30\<close> codes ''bnm'' @ [CKEY 19, CKEY 20, CKEY 21, KEY_SHIFT] @ codes ''*'' @ [KEY_ALT] @ codes '' '' @ [KEY_CAPSLOCK] @ replicate 5 0 @
     \<comment> \<open>0x40\<close> replicate 5 0 @ [KEY_NUMLOCK, KEY_SCROLLLOCK] @ codes ''789-456+1'' @
     \<comment> \<open>0x50\<close> codes ''230.'' @ replicate 12 0 @
     \<comment> \<open>0x60\<close> replicate 16 0 @
     \<comment> \<open>0x70\<close> replicate 16 0 @
     \<comment> \<open>0x80\<close> replicate 16 0 @
     \<comment> \<open>0x90\<close> replicate 12 0 @ [CKEY 14, KEY_CONTROL] @ replicate 2 0 @
     \<comment> \<open>0xA0\<close> replicate 16 0 @
     \<comment> \<open>0xB0\<close> replicate 5 0 @ codes ''/'' @ replicate 2 0 @ [KEY_ALT] @ replicate 7 0 @
     \<comment> \<open>0xC0\<close> replicate 7 0 @ [KEY_HOME, KEY_UP, KEY_PAGEUP, 0, KEY_LEFT, 0, KEY_RIGHT, 0, KEY_END] @
     \<comment> \<open>0xD0\<close> [KEY_DOWN, KEY_PAGEDOWN, KEY_INSERT, KEY_DELETE] @ replicate 12 0 @
     \<comment> \<open>0xE0\<close> replicate 16 0 @
     \<comment> \<open>0xF0\<close> replicate 16 0"

text \<open>The character of a key alone, with shift, with control, and with both.\<close>

definition complex_keymap :: "nat list list" where
  "complex_keymap =
     map (\<lambda>s. codes s @ [0, 0]) [''1!'', ''2@'', ''3#'', ''4$'', ''5%''] @ [codes ''6^'' @ [0, 0x1E]] @
     map (\<lambda>s. codes s @ [0, 0]) [''7&'', ''8*'', ''9('', ''0)''] @ [codes ''-_'' @ [0, 0x1F], codes ''=+'' @ [0, 0]] @
     [codes ''[{'' @ [0x1B, 0], codes '']}'' @ [0x1D, 0], [10, 10, 13, 13]] @
     [codes '';:'' @ [0, 0], codes [CHR 0x27, CHR 0x22] @ [0, 0], codes [CHR 0x60, CHR 0x7E] @ [0, 0], codes [CHR 0x5C, CHR 0x7C] @ [0x1C, 0]] @
     map (\<lambda>s. codes s @ [0, 0]) ['',<'', ''.>'', ''/?'']"

section \<open>Reading a key\<close>

record keyboard =
  modifiers :: u8
  last_escape :: u8

text \<open>\<open>1 << (ch - KEY_SHIFT)\<close>.\<close>

definition modifier_bit :: "nat \<Rightarrow> u8" where
  "modifier_bit ch = push_bit (ch - KEY_SHIFT) 1"

definition key_release :: "nat \<Rightarrow> keyboard \<Rightarrow> keyboard" where
  "key_release ch kb =
     (if KEY_SHIFT \<le> ch \<and> ch < KEY_CAPSLOCK then kb\<lparr>modifiers := modifiers kb AND NOT (modifier_bit ch)\<rparr> else kb)"

definition key_press :: "nat \<Rightarrow> keyboard \<Rightarrow> nat \<times> keyboard" where
  "key_press ch kb =
     (if of_char (CHR ''a'') \<le> ch \<and> ch \<le> of_char (CHR ''z'') then
        (if modifiers kb AND MOD_CONTROL \<noteq> 0 then ch - 0x60
         else if (modifiers kb AND MOD_SHIFT = 0) \<noteq> (modifiers kb AND MOD_CAPSLOCK = 0) then ch - 0x20
         else ch, kb)
      else if KEY_CAPSLOCK \<le> ch then (0, kb\<lparr>modifiers := modifiers kb XOR modifier_bit ch\<rparr>)
      else if KEY_SHIFT \<le> ch then (0, kb\<lparr>modifiers := modifiers kb OR modifier_bit ch\<rparr>)
      else if CKEY 0 \<le> ch \<and> ch \<le> CKEY 21 then (complex_keymap ! (ch - CKEY 0) ! unat (modifiers kb AND 3), kb)
      else if ch < 0x80 \<and> modifiers kb AND MOD_CONTROL \<noteq> 0 then (0, kb)
      else (ch, kb))"

text \<open>The byte read, or nothing when the status register says that none is ready.\<close>

definition keyboard_readc :: "u8 option \<Rightarrow> keyboard \<Rightarrow> int \<times> keyboard" where
  "keyboard_readc input kb =
     (case input of None \<Rightarrow> (- 1, kb)
      | Some data \<Rightarrow>
          let escape = last_escape kb; kb = kb\<lparr>last_escape := 0\<rparr> in
          if data = 0xE0 then (0, kb\<lparr>last_escape := 0x80\<rparr>)
          else if data AND 0x80 \<noteq> 0 then (0, key_release (keymap ! unat ((data AND 0x7F) OR escape)) kb)
          else case key_press (keymap ! unat (data OR escape)) kb of (ch, kb) \<Rightarrow> (int ch, kb))"

datatype keyboard_action = Typed int | SoftReboot string | PowerOff

definition reboot_argument :: "int \<Rightarrow> string" where
  "reboot_argument c =
     (if c = of_char (CHR ''a'') then ''allocators'' else if c = of_char (CHR ''e'') then ''exit'' else ''fork'')"

definition check_keyboard :: "u8 option \<Rightarrow> keyboard \<Rightarrow> keyboard_action \<times> keyboard" where
  "check_keyboard input kb =
     (case keyboard_readc input kb of (c, kb) \<Rightarrow>
        (if c = of_char (CHR ''a'') \<or> c = of_char (CHR ''f'') \<or> c = of_char (CHR ''e'') then SoftReboot (reboot_argument c)
         else if c = 3 \<or> c = of_char (CHR ''q'') then PowerOff
         else Typed c, kb))"

section \<open>The modifiers follow the keys\<close>

text \<open>
  The key events that a sequence of bytes stands for: whether a key was pressed or released, and which. A key is
  its scan code, plus 128 for the keys whose code follows the byte \<open>0xE0\<close>.
\<close>

definition key_index :: "bool \<Rightarrow> u8 \<Rightarrow> nat" where
  "key_index escaped b = unat (b AND 0x7F) + (if escaped then 128 else 0)"

fun key_events :: "bool \<Rightarrow> u8 list \<Rightarrow> (bool \<times> nat) list" where
  "key_events escaped [] = []"
| "key_events escaped (b # bs) =
     (if b = 0xE0 then key_events True bs else (\<not> bit b 7, key_index escaped b) # key_events False bs)"

definition mapped :: "bool \<times> nat \<Rightarrow> bool \<times> nat" where
  "mapped e = (fst e, keymap ! snd e)"

definition read_bytes :: "u8 list \<Rightarrow> keyboard \<Rightarrow> keyboard" where
  "read_bytes bs kb = foldl (\<lambda>kb b. snd (keyboard_readc (Some b) kb)) kb bs"

definition apply_event :: "u8 \<Rightarrow> bool \<times> nat \<Rightarrow> u8" where
  "apply_event m ev = (case ev of (pressed, ch) \<Rightarrow>
     if pressed then modifiers (snd (key_press ch \<lparr>modifiers = m, last_escape = 0\<rparr>))
     else modifiers (key_release ch \<lparr>modifiers = m, last_escape = 0\<rparr>))"

lemma key_byte_bits:
  fixes b :: u8
  shows "unat ((b AND 0x7F) OR (if escaped then 0x80 else 0)) = key_index escaped b" "unat (b AND 0x7F) < 128"
    "\<not> bit b 7 \<Longrightarrow> b AND 0x7F = b" "b AND 0x80 \<noteq> 0 \<longleftrightarrow> bit b 7"
proof -
  have m: "(0x7F :: u8) = mask 7" by (simp add: mask_eq_exp_minus_1)
  have e: "(0x80 :: u8) = push_bit 7 1" by simp
  have "unat (b AND mask 7) < 2 ^ 7" using take_bit_nat_less_exp[of 7 "unat b"] by (simp add: unsigned_take_bit_eq flip: take_bit_eq_mask)
  then show lt: "unat (b AND 0x7F) < 128" by (simp add: m)
  have z: "(b AND mask 7) AND push_bit 7 1 = (0 :: u8)" by (auto intro!: bit_word_eqI simp: bit_simps simp del: push_bit_of_1)
  have "(b AND 0x7F) OR 0x80 = (b AND 0x7F) + 0x80" using disjunctive_add_eq_or[OF z] by (simp add: m)
  moreover have "unat ((b AND 0x7F) + 0x80) = unat (b AND 0x7F) + 128"
    using lt by (subst unat_word_ariths(1)) simp
  ultimately show "unat ((b AND 0x7F) OR (if escaped then 0x80 else 0)) = key_index escaped b" by (simp add: key_index_def)
  show "\<not> bit b 7 \<Longrightarrow> b AND 0x7F = b"
    unfolding m by (rule bit_word_eqI) (auto simp: bit_simps less_Suc_eq numeral_eq_Suc)
  have "b AND push_bit 7 1 = (if bit b 7 then push_bit 7 1 else 0)"
  proof (rule bit_word_eqI)
    fix n assume "n < LENGTH(8)"
    then have "n < 7 \<or> n = 7" by auto
    then show "bit (b AND push_bit 7 1) n = bit (if bit b 7 then push_bit 7 1 else (0 :: u8)) n"
      by (auto simp: bit_simps simp del: push_bit_of_1)
  qed
  then show "b AND 0x80 \<noteq> 0 \<longleftrightarrow> bit b 7" by simp
qed

lemma event_state:
  "snd (key_press ch (kb\<lparr>last_escape := 0\<rparr>)) = \<lparr>modifiers = apply_event (modifiers kb) (True, ch), last_escape = 0\<rparr>"
  "key_release ch (kb\<lparr>last_escape := 0\<rparr>) = \<lparr>modifiers = apply_event (modifiers kb) (False, ch), last_escape = 0\<rparr>"
  by (cases kb, simp add: apply_event_def key_press_def key_release_def)+

lemma readc_event:
  assumes "last_escape kb = (if escaped then 0x80 else 0)"
  shows "snd (keyboard_readc (Some b) kb) =
    (if b = 0xE0 then kb\<lparr>last_escape := 0x80\<rparr> else \<lparr>modifiers = apply_event (modifiers kb) (\<not> bit b 7, keymap ! key_index escaped b), last_escape = 0\<rparr>)"
    "fst (keyboard_readc (Some b) kb) =
    (if b = 0xE0 \<or> bit b 7 then 0 else int (fst (key_press (keymap ! key_index escaped b) (kb\<lparr>last_escape := 0\<rparr>))))"
proof -
  note i = key_byte_bits[of b] key_byte_bits(1)[of b escaped]
  have p: "\<not> bit b 7 \<Longrightarrow> unat (b OR last_escape kb) = key_index escaped b" using i assms by metis
  have r: "unat ((b AND 0x7F) OR last_escape kb) = key_index escaped b" using i assms by metis
  show "snd (keyboard_readc (Some b) kb) =
    (if b = 0xE0 then kb\<lparr>last_escape := 0x80\<rparr> else \<lparr>modifiers = apply_event (modifiers kb) (\<not> bit b 7, keymap ! key_index escaped b), last_escape = 0\<rparr>)"
    using p r i(4) event_state[of "keymap ! key_index escaped b" kb] by (simp add: keyboard_readc_def Let_def split_beta)
  show "fst (keyboard_readc (Some b) kb) =
    (if b = 0xE0 \<or> bit b 7 then 0 else int (fst (key_press (keymap ! key_index escaped b) (kb\<lparr>last_escape := 0\<rparr>))))"
    using p i(4) by (simp add: keyboard_readc_def Let_def split_beta)
qed

lemma read_bytes_events:
  "last_escape kb = (if escaped then 0x80 else 0) \<Longrightarrow>
     modifiers (read_bytes bs kb) = foldl apply_event (modifiers kb) (map mapped (key_events escaped bs)) \<and>
     last_escape (read_bytes bs kb) = (if bs = [] then if escaped then 0x80 else 0 else if last bs = 0xE0 then 0x80 else 0)"
proof (induction bs arbitrary: kb escaped)
  case Nil
  then show ?case by (simp add: read_bytes_def)
next
  case (Cons b bs)
  note r = readc_event(1)[OF Cons.prems, of b]
  have step: "read_bytes (b # bs) kb = read_bytes bs (snd (keyboard_readc (Some b) kb))" by (simp add: read_bytes_def)
  show ?case
    using Cons.IH[of "snd (keyboard_readc (Some b) kb)" "b = 0xE0"] unfolding step r by (auto simp: mapped_def)
qed

text \<open>The keys the driver knows: entries of \<open>keymap\<close> are characters, plain or in \<open>complex_keymap\<close>, or special keys.\<close>

definition known_key :: "nat \<Rightarrow> bool" where
  "known_key ch \<longleftrightarrow> ch < 0x80 \<or> (CKEY 0 \<le> ch \<and> ch \<le> CKEY 21) \<or> (KEY_UP \<le> ch \<and> ch \<le> KEY_DELETE) \<or> (KEY_SHIFT \<le> ch \<and> ch \<le> KEY_SCROLLLOCK)"

definition typed_ok :: "int \<Rightarrow> bool" where
  "typed_ok c \<longleftrightarrow> - 1 \<le> c \<and> c < 0x80 \<or> int KEY_UP \<le> c \<and> c \<le> int KEY_DELETE"

lemmas key_codes = KEY_UP_def KEY_DELETE_def KEY_SHIFT_def KEY_CONTROL_def KEY_ALT_def KEY_CAPSLOCK_def KEY_NUMLOCK_def
  KEY_SCROLLLOCK_def CKEY_def

lemma keymap_known: "length keymap = 256" "list_all known_key keymap"
  by (simp_all add: keymap_def codes_def known_key_def key_codes KEY_RIGHT_def KEY_DOWN_def KEY_LEFT_def KEY_HOME_def KEY_END_def
      KEY_PAGEUP_def KEY_PAGEDOWN_def KEY_INSERT_def list_all_iff)

lemma complex_ok: "length complex_keymap = 22" "list_all (\<lambda>m. length m = 4 \<and> list_all (\<lambda>c. c < 0x80) m) complex_keymap"
  by (simp_all add: complex_keymap_def codes_def)

lemma key_index_known: "known_key (keymap ! key_index escaped b)"
proof -
  have "key_index escaped b < length keymap" using key_byte_bits(2)[of b] by (simp add: key_index_def keymap_known(1))
  then show ?thesis using keymap_known(2) by (simp add: list_all_length)
qed

lemma modifier_bits: "KEY_SHIFT \<le> ch \<Longrightarrow> ch \<le> KEY_SCROLLLOCK \<Longrightarrow> bit (modifier_bit ch) i \<longleftrightarrow> ch = KEY_SHIFT + i"
  by (auto simp: modifier_bit_def bit_simps key_codes simp del: push_bit_of_1)

lemma event_bits:
  assumes "known_key ch" "i < 6"
  shows "bit (apply_event m (pressed, ch)) i =
    (if ch = KEY_SHIFT + i then (if i < 3 then pressed else pressed \<noteq> bit m i) else bit m i)"
proof (cases "KEY_SHIFT \<le> ch")
  case True
  then have ch: "ch \<le> KEY_SCROLLLOCK" using assms(1) by (auto simp: known_key_def key_codes)
  have "\<not> ch \<le> 122" "KEY_CAPSLOCK \<le> ch \<longleftrightarrow> KEY_SHIFT + 3 \<le> ch" using True by (auto simp: key_codes)
  moreover have "bit (NOT (modifier_bit ch)) i \<longleftrightarrow> ch \<noteq> KEY_SHIFT + i"
    using assms(2) modifier_bits[OF True ch] by (simp add: bit_not_iff)
  ultimately show ?thesis using True modifier_bits[OF True ch, of i]
    by (auto simp: apply_event_def key_press_def key_release_def bit_and_iff bit_or_iff bit_xor_iff)
next
  case False
  then have "\<not> KEY_CAPSLOCK \<le> ch" "ch \<noteq> KEY_SHIFT + i" by (auto simp: key_codes)
  then show ?thesis using False by (simp add: apply_event_def key_press_def key_release_def)
qed

text \<open>
  Of the keys \<open>K\<close>: the last event was a press; how often they were pressed; and one key is down when its own last
  event was a press.
\<close>

definition last_press :: "nat set \<Rightarrow> (bool \<times> nat) list \<Rightarrow> bool" where
  "last_press K evs \<longleftrightarrow> (let es = filter (\<lambda>e. snd e \<in> K) evs in es \<noteq> [] \<and> fst (last es))"

definition presses :: "nat set \<Rightarrow> (bool \<times> nat) list \<Rightarrow> nat" where
  "presses K evs = length (filter (\<lambda>e. fst e \<and> snd e \<in> K) evs)"

definition down :: "(bool \<times> nat) list \<Rightarrow> nat \<Rightarrow> bool" where
  "down evs k \<longleftrightarrow> last_press {k} evs"

text \<open>The keys \<open>K\<close> are used one at a time: none is pressed or released while another of them is down.\<close>

definition one_at_a_time :: "nat set \<Rightarrow> (bool \<times> nat) list \<Rightarrow> bool" where
  "one_at_a_time K evs \<longleftrightarrow> (\<forall>n < length evs. snd (evs ! n) \<in> K \<longrightarrow> (\<forall>k \<in> K. down (take n evs) k \<longrightarrow> k = snd (evs ! n)))"

lemma last_press_snoc [simp]: "last_press K (evs @ [e]) = (if snd e \<in> K then fst e else last_press K evs)" "\<not> last_press K []"
  by (simp_all add: last_press_def Let_def)

lemma down_snoc [simp]: "down (evs @ [e]) k = (if snd e = k then fst e else down evs k)" "\<not> down [] k"
  by (auto simp: down_def)

lemma one_snoc: "one_at_a_time K (evs @ [e]) \<longleftrightarrow> one_at_a_time K evs \<and> (snd e \<in> K \<longrightarrow> (\<forall>k \<in> K. down evs k \<longrightarrow> k = snd e))"
  by (auto simp: one_at_a_time_def nth_append less_Suc_eq)

lemma last_press_down: "one_at_a_time K evs \<Longrightarrow> last_press K evs \<longleftrightarrow> (\<exists>k \<in> K. down evs k)"
proof (induction evs rule: rev_induct)
  case (snoc e evs)
  then have one: "one_at_a_time K evs" "snd e \<in> K \<Longrightarrow> k \<in> K \<Longrightarrow> down evs k \<Longrightarrow> k = snd e" for k by (auto simp: one_snoc)
  show ?case
  proof (cases "snd e \<in> K")
    case True
    then show ?thesis using one(2) by auto
  next
    case False
    then have "down (evs @ [e]) k = down evs k" if "k \<in> K" for k using that by auto
    then show ?thesis using snoc.IH[OF one(1)] False by simp
  qed
qed simp

text \<open>The scan codes of the modifier keys: left and right shift, left and right control, caps lock.\<close>

definition shift_keys :: "nat set" where "shift_keys = {0x2A, 0x36}"
definition control_keys :: "nat set" where "control_keys = {0x1D, 0x1D + 128}"
definition caps_keys :: "nat set" where "caps_keys = {0x3A}"

lemma modifier_keys:
  assumes "k < 256"
  shows "keymap ! k = KEY_SHIFT \<longleftrightarrow> k \<in> shift_keys" "keymap ! k = KEY_SHIFT + 1 \<longleftrightarrow> k \<in> control_keys"
    "keymap ! k = KEY_SHIFT + 3 \<longleftrightarrow> k \<in> caps_keys"
proof -
  have "list_all (\<lambda>(k, ch). (ch = KEY_SHIFT) = (k \<in> shift_keys) \<and> (ch = KEY_SHIFT + 1) = (k \<in> control_keys) \<and>
      (ch = KEY_SHIFT + 3) = (k \<in> caps_keys)) (enumerate 0 keymap)"
    by (simp add: keymap_def codes_def key_codes KEY_RIGHT_def KEY_DOWN_def KEY_LEFT_def KEY_HOME_def KEY_END_def KEY_PAGEUP_def
        KEY_PAGEDOWN_def KEY_INSERT_def shift_keys_def control_keys_def caps_keys_def enumerate_append_eq enumerate_replicate_eq list_all_iff)
  moreover have "(k, keymap ! k) \<in> set (enumerate 0 keymap)"
    using assms keymap_known(1) by (simp add: in_set_enumerate_eq)
  ultimately show "keymap ! k = KEY_SHIFT \<longleftrightarrow> k \<in> shift_keys" "keymap ! k = KEY_SHIFT + 1 \<longleftrightarrow> k \<in> control_keys"
    "keymap ! k = KEY_SHIFT + 3 \<longleftrightarrow> k \<in> caps_keys"
    by (auto simp: list_all_iff)
qed

lemma mapped_known: "k < 256 \<Longrightarrow> known_key (keymap ! k)"
  using keymap_known by (simp add: list_all_length)

lemma key_events_known: "list_all (\<lambda>e. snd e < 256) (key_events escaped bs)"
proof (induction bs arbitrary: escaped)
  case (Cons b bs)
  have "key_index escaped b < 256" using key_byte_bits(2)[of b] by (simp add: key_index_def)
  then show ?case using Cons by simp
qed simp

lemma events_bits:
  assumes "list_all (\<lambda>e. snd e < 256) evs"
  shows "bit (foldl apply_event 0 (map mapped evs)) 0 = last_press shift_keys evs"
    "bit (foldl apply_event 0 (map mapped evs)) 1 = last_press control_keys evs"
    "bit (foldl apply_event 0 (map mapped evs)) 3 = odd (presses caps_keys evs)"
  using assms
proof (induction evs rule: rev_induct)
  case Nil
  { case 1 show ?case by simp next case 2 show ?case by simp next case 3 show ?case by (simp add: presses_def) }
next
  case (snoc e evs)
  obtain pressed k where e: "e = (pressed, k)" by (cases e)
  have k: "k < 256" if "list_all (\<lambda>e. snd e < 256) (evs @ [e])" using that e by simp
  note m = modifier_keys[OF k] and ev = event_bits[OF mapped_known[OF k], of _ "foldl apply_event 0 (map mapped evs)" pressed]
  have me: "mapped e = (pressed, keymap ! k)" by (simp add: e mapped_def)
  {
    case 1 then show ?case using snoc(1) ev[OF 1, of 0] m(1)[OF 1] me by (simp add: e)
  next
    case 2 then show ?case using snoc(2) ev[OF 2, of 1] m(2)[OF 2] me by (simp add: e)
  next
    case 3 then show ?case using snoc(3) ev[OF 3, of 3] m(3)[OF 3] me by (auto simp: e presses_def)
  }
qed

lemma key_press_typed: "known_key ch \<Longrightarrow> typed_ok (int (fst (key_press ch kb)))"
proof -
  assume k: "known_key ch"
  have "complex_keymap ! (ch - CKEY 0) ! unat (modifiers kb AND 3) < 0x80" if c: "CKEY 0 \<le> ch" "ch \<le> CKEY 21"
  proof -
    have "modifiers kb AND 3 = take_bit 2 (modifiers kb)" by (simp add: take_bit_eq_mask mask_eq_exp_minus_1)
    then have "unat (modifiers kb AND 3) < 2 ^ 2" using take_bit_nat_less_exp[of 2 "unat (modifiers kb)"] by (simp add: unsigned_take_bit_eq)
    moreover have "ch - CKEY 0 < length complex_keymap" using c by (simp add: complex_ok(1) CKEY_def)
    ultimately show ?thesis using complex_ok(2) by (simp add: list_all_length)
  qed
  then show ?thesis using k by (auto simp: key_press_def typed_ok_def known_key_def key_codes)
qed

definition typed :: "u8 list \<Rightarrow> keyboard" where
  "typed bs = read_bytes bs \<lparr>modifiers = 0, last_escape = 0\<rparr>"

lemma and_bit: "x AND push_bit n 1 \<noteq> 0 \<longleftrightarrow> bit x n" for x :: u8
proof
  assume "bit x n"
  then have "bit (x AND push_bit n 1) n" by (auto simp: bit_simps simp del: push_bit_of_1 dest: bit_imp_le_length)
  then show "x AND push_bit n 1 \<noteq> 0" by auto
next
  assume "x AND push_bit n 1 \<noteq> 0"
  then obtain i where "bit (x AND push_bit n 1) i" by (auto simp: bit_eq_iff)
  then show "bit x n" by (cases "i = n") (auto simp: bit_simps)
qed

lemma modifier_flags:
  "x AND MOD_SHIFT \<noteq> 0 \<longleftrightarrow> bit x 0" "x AND MOD_CONTROL \<noteq> 0 \<longleftrightarrow> bit x 1" "x AND MOD_CAPSLOCK \<noteq> 0 \<longleftrightarrow> bit x 3"
  using and_bit[of x 0] and_bit[of x 1] and_bit[of x 3] by (simp_all add: MOD_SHIFT_def MOD_CONTROL_def MOD_CAPSLOCK_def)

text \<open>The scan codes of the letters.\<close>

definition letter_keys :: "(u8 \<times> char) list" where
  "letter_keys = zip [0x10, 0x11, 0x12, 0x13, 0x14, 0x15, 0x16, 0x17, 0x18, 0x19] ''qwertyuiop'' @
     zip [0x1E, 0x1F, 0x20, 0x21, 0x22, 0x23, 0x24, 0x25, 0x26] ''asdfghjkl'' @ zip [0x2C, 0x2D, 0x2E, 0x2F, 0x30, 0x31, 0x32] ''zxcvbnm''"

lemma letter_keymap:
  assumes "(b, c) \<in> set letter_keys"
  shows "keymap ! key_index False b = of_char c" "\<not> bit b 7" "b \<noteq> 0xE0" "97 \<le> (of_char c :: nat)" "of_char c \<le> (122 :: nat)"
proof -
  have "list_all (\<lambda>(b, c). keymap ! key_index False b = of_char c \<and> \<not> bit b 7 \<and> b \<noteq> 0xE0 \<and> 97 \<le> (of_char c :: nat) \<and> of_char c \<le> (122 :: nat)) letter_keys"
    by code_simp
  then show "keymap ! key_index False b = of_char c" "\<not> bit b 7" "b \<noteq> 0xE0" "97 \<le> (of_char c :: nat)" "of_char c \<le> (122 :: nat)"
    using assms by (auto simp: list_all_iff)
qed

text \<open>What a letter key types: the control character, the capital or the letter.\<close>

definition letter_typed :: "bool \<Rightarrow> bool \<Rightarrow> bool \<Rightarrow> char \<Rightarrow> int" where
  "letter_typed control shift caps c =
     int (if control then of_char c - of_char (CHR ''a'') + 1
      else if shift \<noteq> caps then of_char c - of_char (CHR ''a'') + of_char (CHR ''A'') else of_char c)"

lemma typed_state:
  "modifiers (typed bs) AND MOD_SHIFT \<noteq> 0 \<longleftrightarrow> last_press shift_keys (key_events False bs)"
  "modifiers (typed bs) AND MOD_CONTROL \<noteq> 0 \<longleftrightarrow> last_press control_keys (key_events False bs)"
  "modifiers (typed bs) AND MOD_CAPSLOCK \<noteq> 0 \<longleftrightarrow> odd (presses caps_keys (key_events False bs))"
  "last_escape (typed bs) = (if bs \<noteq> [] \<and> last bs = 0xE0 then 0x80 else 0)"
proof -
  have start: "last_escape \<lparr>modifiers = 0, last_escape = 0\<rparr> = (if False then 0x80 else (0 :: u8))" by simp
  note r = read_bytes_events[OF start, of bs, folded typed_def] and e = events_bits[OF key_events_known[of False bs]]
  show "modifiers (typed bs) AND MOD_SHIFT \<noteq> 0 \<longleftrightarrow> last_press shift_keys (key_events False bs)"
    "modifiers (typed bs) AND MOD_CONTROL \<noteq> 0 \<longleftrightarrow> last_press control_keys (key_events False bs)"
    "modifiers (typed bs) AND MOD_CAPSLOCK \<noteq> 0 \<longleftrightarrow> odd (presses caps_keys (key_events False bs))"
    unfolding modifier_flags using r e by simp_all
  show "last_escape (typed bs) = (if bs \<noteq> [] \<and> last bs = 0xE0 then 0x80 else 0)" using r by auto
qed

lemma readc_typed_ok: "typed_ok (fst (keyboard_readc input (typed bs)))"
proof (cases input)
  case None
  then show ?thesis by (simp add: keyboard_readc_def typed_ok_def)
next
  case (Some b)
  have "last_escape (typed bs) = (if bs \<noteq> [] \<and> last bs = 0xE0 then 0x80 else 0)" by (rule typed_state(4))
  from readc_event(2)[OF this, of b] show ?thesis
    using key_press_typed[OF key_index_known] by (simp add: Some typed_ok_def)
qed

lemma letter_readc:
  assumes "(b, c) \<in> set letter_keys" "bs = [] \<or> last bs \<noteq> 0xE0"
  shows "fst (keyboard_readc (Some b) (typed bs)) = letter_typed (modifiers (typed bs) AND MOD_CONTROL \<noteq> 0)
    (modifiers (typed bs) AND MOD_SHIFT \<noteq> 0) (modifiers (typed bs) AND MOD_CAPSLOCK \<noteq> 0) c"
proof -
  note l = letter_keymap[OF assms(1)]
  have "last_escape (typed bs) = (if False then 0x80 else 0)" using typed_state(4)[of bs] assms(2) by auto
  moreover have "(of_char c :: nat) - 96 = Suc (of_char c - 97)" using l(4) by arith
  ultimately show ?thesis using readc_event(2)[of "typed bs" False b] l
    by (simp add: key_press_def letter_typed_def)
qed

text \<open>
  C23. After any bytes from the keyboard, the modifiers follow the keys. The shift flag is set exactly when the last event
  of the two shift keys (scan codes \<open>2A\<close> and \<open>36\<close>) was a press, the control flag likewise for \<open>1D\<close> and \<open>E0 1D\<close>, and caps
  lock when \<open>3A\<close> was pressed an odd number of times. The driver does not tell the left key from the right one; when the two
  keys of a modifier are used one at a time, its flag is set exactly while one of them is down. A letter key then gives the
  control character, the capital or the letter. Whatever byte comes next, the tables are read inside their bounds, and
  the result is -1, 0, an ASCII character or one of the special keys of \<open>kernel.hh\<close>.
\<close>

theorem keyboard_tracks_keys:
  "(modifiers (typed bs) AND MOD_SHIFT \<noteq> 0) = last_press shift_keys (key_events False bs)
   \<and> (modifiers (typed bs) AND MOD_CONTROL \<noteq> 0) = last_press control_keys (key_events False bs)
   \<and> (modifiers (typed bs) AND MOD_CAPSLOCK \<noteq> 0) = odd (presses caps_keys (key_events False bs))
   \<and> (one_at_a_time shift_keys (key_events False bs) \<longrightarrow>
        (modifiers (typed bs) AND MOD_SHIFT \<noteq> 0) = (\<exists>k \<in> shift_keys. down (key_events False bs) k))
   \<and> (one_at_a_time control_keys (key_events False bs) \<longrightarrow>
        (modifiers (typed bs) AND MOD_CONTROL \<noteq> 0) = (\<exists>k \<in> control_keys. down (key_events False bs) k))
   \<and> ((b, c) \<in> set letter_keys \<and> (bs = [] \<or> last bs \<noteq> 0xE0) \<longrightarrow>
        fst (keyboard_readc (Some b) (typed bs)) = letter_typed (last_press control_keys (key_events False bs))
          (last_press shift_keys (key_events False bs)) (odd (presses caps_keys (key_events False bs))) c)
   \<and> typed_ok (fst (keyboard_readc input (typed bs)))"
  using typed_state(1-3)[of bs] last_press_down letter_readc[of b c bs] readc_typed_ok by auto

text \<open>Right shift and caps lock are pressed, right shift is released; the letters typed in between.\<close>

theorem keyboard_tracks_keys_witness:
  "fst (keyboard_readc (Some 0x10) (typed [0x36])) = of_char (CHR ''Q'') \<and>
   fst (keyboard_readc (Some 0x10) (typed [0x36, 0x3A])) = of_char (CHR ''q'') \<and>
   fst (keyboard_readc (Some 0x10) (typed [0x36, 0x3A, 0xB6])) = of_char (CHR ''Q'') \<and>
   modifiers (typed [0x36, 0x3A, 0xB6]) AND MOD_SHIFT = 0"
proof -
  have q: "(0x10, CHR ''q'') \<in> set letter_keys" by (simp add: letter_keys_def)
  have k: "key_events False [0x36] = [(True, 0x36)]" "key_events False [0x36, 0x3A] = [(True, 0x36), (True, 0x3A)]"
    "key_events False [0x36, 0x3A, 0xB6] = [(True, 0x36), (True, 0x3A), (False, 0x36)]"
    by code_simp+
  have one: "one_at_a_time shift_keys (key_events False [0x36, 0x3A, 0xB6])"
    unfolding k(3) by (simp add: one_at_a_time_def down_def last_press_def shift_keys_def less_Suc_eq numeral_eq_Suc)
  show ?thesis
    using keyboard_tracks_keys[of "[0x36]" "0x10" "CHR ''q''", unfolded k] keyboard_tracks_keys[of "[0x36, 0x3A]" "0x10" "CHR ''q''", unfolded k]
      keyboard_tracks_keys[of "[0x36, 0x3A, 0xB6]" "0x10" "CHR ''q''", unfolded k] q one[unfolded k]
    by (simp add: last_press_def presses_def shift_keys_def control_keys_def caps_keys_def letter_typed_def down_def)
qed

text \<open>With both shift keys down, releasing the right one clears the flag although the left one is still down.\<close>

lemma shift_cleared_while_down:
  "modifiers (typed [0x2A, 0x36, 0xB6]) AND MOD_SHIFT = 0" "down (key_events False [0x2A, 0x36, 0xB6]) 0x2A"
proof -
  have k: "key_events False [0x2A, 0x36, 0xB6] = [(True, 0x2A), (True, 0x36), (False, 0x36)]" by code_simp
  show "modifiers (typed [0x2A, 0x36, 0xB6]) AND MOD_SHIFT = 0"
    using typed_state(1)[of "[0x2A, 0x36, 0xB6]", unfolded k] by (simp add: last_press_def shift_keys_def)
  show "down (key_events False [0x2A, 0x36, 0xB6]) 0x2A" unfolding k by (simp add: down_def last_press_def)
qed

end
