(* ===== verification/Weensy_Debug.thy ===== *)
theory Weensy_Debug
  imports Weensy_Kernel
begin

text \<open>
  What the kernel does when it panics, from \<open>weensyos/k-hardware.cc\<close>: the symbol table (\<open>lookup_symbol\<close>), the walk
  over the stack frames (\<open>backtracer\<close>, \<open>print_backtrace\<close>), and the message a process passes with \<open>sys_panic\<close>
  (\<open>strlcpy_from_user\<close>, \<open>user_panic\<close>). The stack and the message belong to a process that may be broken, so the
  theorems are about all memories: every frame and character is read through mapped pages, and the walk ends.
\<close>

section \<open>The symbol table\<close>

record elf_symbol =
  st_name :: nat
  st_value :: u64
  st_size :: u64

definition SYMTAB_ADDR :: u64 where "SYMTAB_ADDR = 0x1000000"

text \<open>The entry of the second-level table that maps the symbol table, set on the first use.\<close>

definition map_symtab :: "u64 \<Rightarrow> kmem \<Rightarrow> kmem" where
  "map_symtab kpt st =
     (let pg = kpt + 2 * PAGESIZE; i = unat (SYMTAB_ADDR div 0x200000) in
      if pmem st pg i = 0 then st\<lparr>pmem := (pmem st)(pg := (pmem st pg)(i := SYMTAB_ADDR OR PTE_P OR PTE_W OR PTE_PS))\<rparr> else st)"

text \<open>The symbol at place \<open>m\<close> covers the address.\<close>

definition covers :: "elf_symbol list \<Rightarrow> u64 \<Rightarrow> nat \<Rightarrow> bool" where
  "covers syms addr m \<longleftrightarrow>
     (let sym = syms ! m in
      st_value sym \<le> addr
      \<and> (if m + 1 = length syms then addr < st_value sym + 0x1000 else addr < st_value (syms ! (m + 1)))
      \<and> (st_size sym = 0 \<or> addr \<le> st_value sym + st_size sym))"

function search :: "elf_symbol list \<Rightarrow> u64 \<Rightarrow> nat \<Rightarrow> nat \<Rightarrow> elf_symbol option" where
  "search syms addr l r =
     (if l < r then
        let m = l + (r - l) div 2; sym = syms ! m in
        if covers syms addr m then (if st_value sym = 0 then None else Some sym)
        else if st_value sym < addr then search syms addr (m + 1) r
        else search syms addr l m
      else None)"
  by pat_completeness auto
termination
  by (relation "measure (\<lambda>(syms, addr, l, r). r - l)") auto

declare search.simps [simp del]

definition lookup_symbol :: "u64 \<Rightarrow> elf_symbol list \<Rightarrow> u64 \<Rightarrow> kmem \<Rightarrow> elf_symbol option \<times> kmem" where
  "lookup_symbol kpt syms addr st = (search syms addr 0 (length syms), map_symtab kpt st)"

section \<open>Walking the stack\<close>

text \<open>Reading an aligned word and a byte through a page table; a page that is not present gives the null pointer.\<close>

definition load_word :: "kmem \<Rightarrow> u64 \<Rightarrow> u64" where
  "load_word st pa = pmem st (round_down pa PAGESIZE) (unat ((pa mod PAGESIZE) div 8))"

definition load_byte :: "kmem \<Rightarrow> u64 \<Rightarrow> u8" where
  "load_byte st pa = ucast (drop_bit (8 * unat (pa mod 8)) (load_word st pa))"

definition kptr_or_fault :: "kmem \<Rightarrow> vmiter \<Rightarrow> u64 result" where
  "kptr_or_fault st it =
     (if read_entry st (it_pep it) AND PTE_P = 0 then Inl (UndefinedBehaviour ''null pointer'') else Inr (vm_kptr st it))"

definition stack_word :: "kmem \<Rightarrow> u64 \<Rightarrow> u64 \<Rightarrow> u64 result" where
  "stack_word st pt va =
     res_bind (new_vmiter st pt va) (\<lambda>it. res_bind (kptr_or_fault st it) (\<lambda>p. Inr (load_word st p)))"

text \<open>\<open>vmiter(pt, va).range_perm(sz, PTE_P)\<close>.\<close>

definition accessible :: "kmem \<Rightarrow> u64 \<Rightarrow> u64 \<Rightarrow> u64 \<Rightarrow> bool result" where
  "accessible st pt va sz =
     res_bind (new_vmiter st pt va) (\<lambda>it.
       case has_range_perm st sz PTE_P it of None \<Rightarrow> Inl (NeverReturns ''range_perm'') | Some r \<Rightarrow> r)"

record backtracer =
  bt_rbp :: u64
  bt_rsp :: u64
  bt_stack_top :: u64
  bt_leaf :: bool
  bt_pt :: u64

text \<open>The loop that reads up to \<open>n\<close> instruction bytes.\<close>

primrec fetch_code :: "nat \<Rightarrow> kmem \<Rightarrow> vmiter \<Rightarrow> (u8 list \<times> vmiter) result" where
  "fetch_code 0 st it = Inr ([], it)"
| "fetch_code (Suc n) st it =
     (if vm_present st it then
        res_bind (vm_add st 1 it) (\<lambda>it'.
        res_bind (fetch_code n st it') (\<lambda>(bs, it').
        Inr (load_byte st (vm_kptr st it) # bs, it')))
      else Inr ([], it))"

definition call_offset :: "u8 list \<Rightarrow> u32" where
  "call_offset ibuf = ucast (ibuf ! 1) + push_bit 8 (ucast (ibuf ! 2)) + push_bit 16 (ucast (ibuf ! 3)) + push_bit 24 (ucast (ibuf ! 4))"

definition check_leaf :: "kmem \<Rightarrow> regstate \<Rightarrow> backtracer \<Rightarrow> backtracer result" where
  "check_leaf st rs bt =
     (let rsp = bt_rsp bt; top = bt_stack_top bt; pt = bt_pt bt; rip = reg_rip rs in
      if \<not> (pt \<noteq> 0 \<and> rsp \<le> top \<and> 8 \<le> top - rsp \<and> rsp AND 7 = 0) then Inr bt
      else res_bind (accessible st pt rsp 8) (\<lambda>ok.
      if \<not> ok then Inr bt
      else res_bind (stack_word st pt rsp) (\<lambda>retaddr.
      if 0x10000 < sint (retaddr - rip) \<or> (top - PAGESIZE \<le> retaddr \<and> retaddr \<le> top) then Inr bt
      else res_bind (new_vmiter st pt (retaddr - 5)) (\<lambda>it.
           res_bind (fetch_code 5 st it) (\<lambda>(ibuf, it).
      if length ibuf \<noteq> 5 \<or> ibuf ! 0 \<noteq> 0xE8 then Inr bt
      else
        let fnaddr = retaddr + scast (call_offset ibuf) in
        if rip < fnaddr \<or> 0x1000 < rip - fnaddr then Inr bt
        else res_bind (vm_find st fnaddr it) (\<lambda>it.
             res_bind (fetch_code 5 st it) (\<lambda>(ibuf, it).
        if length ibuf \<noteq> 5 \<or> ibuf ! 0 = 0x55 \<or> ibuf = [0xF3, 0x0F, 0x1E, 0xF1, 0x55] then Inr bt
        else Inr (bt\<lparr>bt_leaf := True\<rparr>))))))))"

definition bt_check :: "kmem \<Rightarrow> backtracer \<Rightarrow> backtracer result" where
  "bt_check st bt =
     (let bad = bt\<lparr>bt_rbp := 0, bt_rsp := 0\<rparr> in
      if bt_pt bt \<noteq> 0 \<and> bt_rsp bt \<le> bt_rbp bt \<and> bt_rbp bt \<le> bt_stack_top bt \<and> 16 \<le> bt_stack_top bt - bt_rbp bt \<and> bt_rbp bt AND 7 = 0
      then res_bind (accessible st (bt_pt bt) (bt_rbp bt) 16) (\<lambda>ok. Inr (if ok then bt else bad))
      else Inr bad)"

definition new_backtracer :: "kmem \<Rightarrow> regstate \<Rightarrow> u64 \<Rightarrow> backtracer result" where
  "new_backtracer st rs pt =
     res_bind (check_leaf st rs \<lparr>bt_rbp = reg_rbp rs, bt_rsp = reg_rsp rs, bt_stack_top = round_up (reg_rsp rs) PAGESIZE,
        bt_leaf = False, bt_pt = pt\<rparr>) (\<lambda>bt.
     if bt_leaf bt then Inr bt else bt_check st bt)"

definition bt_ok :: "backtracer \<Rightarrow> bool" where
  "bt_ok bt \<longleftrightarrow> bt_rsp bt \<noteq> 0"

definition ret_rip :: "kmem \<Rightarrow> backtracer \<Rightarrow> u64 result" where
  "ret_rip st bt = (if bt_leaf bt then stack_word st (bt_pt bt) (bt_rsp bt) else stack_word st (bt_pt bt) (bt_rbp bt + 8))"

definition bt_step :: "kmem \<Rightarrow> backtracer \<Rightarrow> backtracer result" where
  "bt_step st bt =
     res_bind (if bt_leaf bt then Inr (bt\<lparr>bt_leaf := False\<rparr>)
               else res_bind (stack_word st (bt_pt bt) (bt_rbp bt)) (\<lambda>v. Inr (bt\<lparr>bt_rsp := bt_rbp bt + 16, bt_rbp := v\<rparr>)))
       (bt_check st)"

text \<open>The frames printed: the address and the symbol found for it. The loop could run for ever.\<close>

partial_function (option) backtrace_loop ::
  "u64 \<Rightarrow> elf_symbol list \<Rightarrow> kmem \<Rightarrow> backtracer \<Rightarrow> ((u64 \<times> elf_symbol option) list \<times> kmem) result option" where
  "backtrace_loop kpt syms st bt =
     (if \<not> bt_ok bt then Some (Inr ([], st))
      else case ret_rip st bt of
        Inl e \<Rightarrow> Some (Inl e)
      | Inr rip \<Rightarrow>
          (case lookup_symbol kpt syms (rip - 2) st of (name, st) \<Rightarrow>
             case bt_step st bt of
               Inl e \<Rightarrow> Some (Inl e)
             | Inr bt' \<Rightarrow>
                 Option.bind (backtrace_loop kpt syms st bt') (\<lambda>r. Some (res_bind r (\<lambda>(frames, st). Inr ((rip, name) # frames, st))))))"

record trace =
  stack_overflow :: bool
  trace_frames :: "(u64 \<times> elf_symbol option) list"

definition print_backtrace :: "u64 \<Rightarrow> elf_symbol list \<Rightarrow> kmem \<Rightarrow> regstate \<Rightarrow> u64 \<Rightarrow> bool \<Rightarrow> (trace \<times> kmem) result option" where
  "print_backtrace kpt syms st rs pt exclude_rip =
     (case new_backtracer st rs pt of
        Inl e \<Rightarrow> Some (Inl e)
      | Inr bt \<Rightarrow>
          let warn = bt_rsp bt \<noteq> bt_rbp bt \<and> round_up (bt_rsp bt) PAGESIZE = round_down (bt_rbp bt) PAGESIZE in
          case (if \<not> exclude_rip \<and> reg_rip rs \<noteq> 0
                then (case lookup_symbol kpt syms (reg_rip rs) st of (name, st) \<Rightarrow> ([(reg_rip rs, name)], st))
                else ([], st)) of (first, st) \<Rightarrow>
          map_option (\<lambda>r. res_bind r (\<lambda>(frames, st). Inr (\<lparr>stack_overflow = warn, trace_frames = first @ frames\<rparr>, st)))
            (backtrace_loop kpt syms st bt))"

section \<open>Messages of processes\<close>

text \<open>\<open>strlcpy_from_user\<close>: the bytes stored before the terminator. The rounds are bounded by the size of the buffer.\<close>

primrec copy_user :: "nat \<Rightarrow> kmem \<Rightarrow> vmiter \<Rightarrow> bytes result" where
  "copy_user 0 st it = Inr []"
| "copy_user (Suc room) st it =
     (if vm_user st it then
        res_bind (kptr_or_fault st it) (\<lambda>p.
        res_bind (vm_add st 1 it) (\<lambda>it'.
        res_bind (copy_user room st it') (\<lambda>bs. Inr (load_byte st p # bs))))
      else Inr [])"

definition strlcpy_from_user :: "kmem \<Rightarrow> vmiter \<Rightarrow> nat \<Rightarrow> bytes result" where
  "strlcpy_from_user st it maxlen =
     res_bind (copy_user (maxlen - 1) st it) (\<lambda>bs. Inr (if length bs < maxlen then bs @ [0] else bs))"

definition user_panic_text :: "kmem \<Rightarrow> proc \<Rightarrow> bytes option result" where
  "user_panic_text st p =
     (if reg_rdi (regs p) = 0 then Inr None
      else res_bind (new_vmiter st (pagetable p) (reg_rdi (regs p))) (\<lambda>it.
           res_bind (strlcpy_from_user st it 256) (\<lambda>buf. Inr (Some (takeWhile (\<lambda>b. b \<noteq> 0) buf)))))"

section \<open>Symbols are found by bisection\<close>

definition symbols_ordered :: "elf_symbol list \<Rightarrow> bool" where
  "symbols_ordered syms \<longleftrightarrow> sorted_wrt (\<lambda>a b. st_value a < st_value b) syms"

definition covering_symbol :: "elf_symbol list \<Rightarrow> u64 \<Rightarrow> elf_symbol option" where
  "covering_symbol syms addr =
     (case find (covers syms addr) [0..<length syms] of None \<Rightarrow> None
      | Some m \<Rightarrow> if st_value (syms ! m) = 0 then None else Some (syms ! m))"

lemma ordered_le: "symbols_ordered syms \<Longrightarrow> i \<le> j \<Longrightarrow> j < length syms \<Longrightarrow> st_value (syms ! i) \<le> st_value (syms ! j)"
  by (cases "i = j") (auto simp: symbols_ordered_def sorted_wrt_iff_nth_less intro: less_imp_le)

lemma covers_next: "covers syms addr i \<Longrightarrow> i + 1 \<noteq> length syms \<Longrightarrow> addr < st_value (syms ! (i + 1))"
  unfolding covers_def Let_def by (simp only: if_False simp_thms)

lemma covers_from: "covers syms addr i \<Longrightarrow> st_value (syms ! i) \<le> addr"
  unfolding covers_def Let_def by (rule conjunct1)

lemma covers_below: "symbols_ordered syms \<Longrightarrow> covers syms addr i \<Longrightarrow> i < j \<Longrightarrow> j < length syms \<Longrightarrow> addr < st_value (syms ! j)"
  by (rule less_le_trans[OF covers_next[of syms addr i] ordered_le[of syms "i + 1" j]]) auto

lemma find_unique:
  assumes "m < n" "P m" "\<And>i. i < n \<Longrightarrow> P i \<Longrightarrow> i = m"
  shows "find P [0..<n] = Some m"
proof (cases "find P [0..<n]")
  case None
  then show ?thesis using assms(1,2) by (auto simp: find_None_iff)
next
  case (Some x)
  then obtain i where "i < length [0..<n]" "P ([0..<n] ! i)" "x = [0..<n] ! i" unfolding find_Some_iff by blast
  then show ?thesis using Some assms(3) by simp
qed

lemma covers_unique:
  assumes "symbols_ordered syms" "covers syms addr i" "covers syms addr j" "i < length syms" "j < length syms"
  shows "i = j"
proof (cases i j rule: linorder_cases)
  case less
  from less_le_trans[OF covers_below[OF assms(1,2) less assms(5)] covers_from[OF assms(3)]] show ?thesis by simp
next
  case greater
  from less_le_trans[OF covers_below[OF assms(1,3) greater assms(4)] covers_from[OF assms(2)]] show ?thesis by simp
qed

lemma covers_left:
  assumes "symbols_ordered syms" "covers syms addr i" "i < length syms" "m < length syms" "addr \<le> st_value (syms ! m)"
  shows "i \<le> m"
proof (rule ccontr)
  assume "\<not> i \<le> m"
  then have "st_value (syms ! m) < st_value (syms ! i)"
    using assms(1,3) by (simp add: symbols_ordered_def sorted_wrt_iff_nth_less)
  then have "addr < addr" using le_less_trans[OF assms(5)] less_le_trans[OF _ covers_from[OF assms(2)]] by blast
  then show False by simp
qed

lemma covers_right:
  assumes "symbols_ordered syms" "covers syms addr i" "m < length syms" "st_value (syms ! m) < addr"
  shows "m \<le> i"
proof (rule ccontr)
  assume "\<not> m \<le> i"
  then have "addr < st_value (syms ! m)" using covers_below[OF assms(1,2) _ assms(3)] by simp
  then show False using assms(4) by simp
qed

lemma search_covering:
  "symbols_ordered syms \<Longrightarrow> r \<le> length syms \<Longrightarrow> (\<And>i. i < length syms \<Longrightarrow> covers syms addr i \<Longrightarrow> l \<le> i \<and> i < r) \<Longrightarrow>
     search syms addr l r = covering_symbol syms addr"
proof (induction syms addr l r rule: search.induct)
  case (1 syms addr l r)
  note ord = "1.prems"(1) and within = "1.prems"(3)
  show ?case
  proof (cases "l < r")
    case False
    have "\<not> covers syms addr i" if "i < length syms" for i
    proof
      assume "covers syms addr i"
      from within[OF that this] show False using False by simp
    qed
    then have "find (covers syms addr) [0..<length syms] = None" by (simp add: find_None_iff)
    then show ?thesis using False by (subst search.simps) (simp add: covering_symbol_def)
  next
    case True
    define m where "m = l + (r - l) div 2"
    have m: "l \<le> m" "m < r" "m < length syms" using True "1.prems"(2) by (auto simp: m_def)
    have eq: "search syms addr l r =
      (if covers syms addr m then (if st_value (syms ! m) = 0 then None else Some (syms ! m))
       else if st_value (syms ! m) < addr then search syms addr (m + 1) r else search syms addr l m)"
      unfolding m_def by (subst search.simps) (simp only: True if_True Let_def)
    show ?thesis
    proof (cases "covers syms addr m")
      case c: True
      have "find (covers syms addr) [0..<length syms] = Some m"
        by (rule find_unique[of m _ "covers syms addr", OF m(3) c]) (rule covers_unique[OF ord _ c _ m(3)])
      then show ?thesis unfolding eq covering_symbol_def using c by (simp only: if_True option.case)
    next
      case c: False
      have ne: "i \<noteq> m" if "covers syms addr i" for i using that c by metis
      show ?thesis
      proof (cases "st_value (syms ! m) < addr")
        case lt: True
        have "m + 1 \<le> i \<and> i < r" if i: "i < length syms" "covers syms addr i" for i
          using covers_right[OF ord i(2) m(3) lt] within[OF i] ne[OF i(2)] by simp
        from "1.IH"(1)[OF True m_def refl c lt ord "1.prems"(2) this] show ?thesis unfolding eq using c lt by (simp only: if_False if_True)
      next
        case ge: False
        have "l \<le> i \<and> i < m" if i: "i < length syms" "covers syms addr i" for i
          using covers_left[OF ord i(2,1) m(3)] ge within[OF i] ne[OF i(2)] by (simp add: not_less)
        from "1.IH"(2)[OF True m_def refl c ge ord less_imp_le[OF m(3)] this] show ?thesis unfolding eq using c ge by (simp only: if_False)
      qed
    qed
  qed
qed

text \<open>
  C28. In a symbol table ordered by address, without two symbols at one address, \<open>lookup_symbol\<close> finds exactly what a scan
  of the whole table finds: the symbol whose range holds the address, and nothing when there is none or when it is
  the symbol at address 0. The table is mapped afterwards.
\<close>

theorem lookup_symbol_finds_cover:
  assumes "symbols_ordered syms"
  shows "lookup_symbol kpt syms addr st = (covering_symbol syms addr, map_symtab kpt st)"
proof -
  have "search syms addr 0 (length syms) = covering_symbol syms addr" using assms by (rule search_covering) simp_all
  then show ?thesis by (simp add: lookup_symbol_def)
qed

theorem lookup_symbol_finds_cover_witness:
  "fst (lookup_symbol 0x2000 [\<lparr>st_name = 0, st_value = 0x40000, st_size = 0x10\<rparr>, \<lparr>st_name = 5, st_value = 0x40020, st_size = 0\<rparr>] 0x40123 \<lparr>pmem = (\<lambda>_ _. 0), refcount = (\<lambda>_. 0)\<rparr>)
     = Some \<lparr>st_name = 5, st_value = 0x40020, st_size = 0\<rparr>"
  (is "fst (lookup_symbol _ ?syms _ _) = _")
proof -
  have "symbols_ordered ?syms" by (simp add: symbols_ordered_def)
  from lookup_symbol_finds_cover[OF this] show ?thesis
    by (simp add: covering_symbol_def covers_def upt_rec)
qed

text \<open>With two symbols at one address the search can miss both.\<close>

lemma lookup_misses_shared_address:
  "search (map (\<lambda>v. \<lparr>st_name = 0, st_value = v, st_size = 0\<rparr>) [0x10000, 0x20000, 0x40000, 0x40000]) 0x40000 0 4 = None"
  by (simp add: search.simps covers_def)

section \<open>The walk over the stack ends\<close>

text \<open>The only way a walk through a page table fails.\<close>

definition only_uninitialized :: "'a result \<Rightarrow> bool" where
  "only_uninitialized r \<longleftrightarrow> (\<forall>e. r = Inl e \<longrightarrow> e = AssertFailed ''Page table may contain uninitialized memory!'')"

lemma only_uninitialized_simps [simp]:
  "only_uninitialized (Inr x)"
  "only_uninitialized (Inl e) \<longleftrightarrow> e = AssertFailed ''Page table may contain uninitialized memory!''"
  by (simp_all add: only_uninitialized_def)

lemma only_uninitialized_bind [intro]:
  "only_uninitialized m \<Longrightarrow> (\<And>x. m = Inr x \<Longrightarrow> only_uninitialized (f x)) \<Longrightarrow> only_uninitialized (res_bind m f)"
  by (cases m) simp_all

lemma only_uninitialized_if [intro]:
  "(b \<Longrightarrow> only_uninitialized x) \<Longrightarrow> (\<not> b \<Longrightarrow> only_uninitialized y) \<Longrightarrow> only_uninitialized (if b then x else y)"
  by simp

lemma only_uninitialized_prod [intro]:
  "(\<And>a b. p = (a, b) \<Longrightarrow> only_uninitialized (f a b)) \<Longrightarrow> only_uninitialized (case p of (a, b) \<Rightarrow> f a b)"
  by (cases p) simp

lemma walks_uninitialized [simp]:
  "only_uninitialized (new_vmiter st pt va)" "only_uninitialized (vm_find st va it)" "only_uninitialized (vm_add st d it)"
  by (auto simp: only_uninitialized_def new_vmiter_def vm_find_def vm_add_def dest: find_panics split: if_splits)

lemma accessible_answer:
  "only_uninitialized (accessible st pt va sz)"
  "accessible st pt va sz = Inr True \<Longrightarrow> sz \<noteq> 0 \<Longrightarrow> allows_range st pt PTE_P va sz"
proof -
  have p: "PTE_P \<noteq> 0" by (simp add: PTE_P_def)
  have a: "only_uninitialized (accessible st pt va sz) \<and> (accessible st pt va sz = Inr True \<and> sz \<noteq> 0 \<longrightarrow> allows_range st pt PTE_P va sz)"
  proof (cases "new_vmiter st pt va")
    case (Inl e)
    then have "only_uninitialized (Inl e :: bool result)" using walks_uninitialized(1)[of st pt va] by (simp add: only_uninitialized_def)
    then show ?thesis using Inl by (simp add: accessible_def)
  next
    case (Inr it)
    from range_perm_answers[OF Inr p, of sz] obtain r where "has_range_perm st sz PTE_P it = Some r"
      "case r of Inl e \<Rightarrow> e = AssertFailed ''Page table may contain uninitialized memory!''
        | Inr b \<Rightarrow> (b \<longleftrightarrow> allows_range st pt PTE_P va sz \<or> sz = 0) \<and> (\<exists>p. range_perm st sz it = Some (Inr (p, it)))" by blast
    then show ?thesis using Inr by (cases r) (auto simp: accessible_def)
  qed
  then show "only_uninitialized (accessible st pt va sz)"
    "accessible st pt va sz = Inr True \<Longrightarrow> sz \<noteq> 0 \<Longrightarrow> allows_range st pt PTE_P va sz" by blast+
qed

lemma present_entry: "vm_has_perm st it PTE_P \<Longrightarrow> read_entry st (it_pep it) AND PTE_P \<noteq> 0"
proof
  assume h: "vm_has_perm st it PTE_P" and z: "read_entry st (it_pep it) AND PTE_P = 0"
  have "(read_entry st (it_pep it) AND it_perm it) AND PTE_P = (read_entry st (it_pep it) AND PTE_P) AND it_perm it"
    by (simp only: and.assoc and.commute[of "it_perm it"])
  then have "vm_perm st it = 0" using z by (simp add: vm_perm_def)
  then show False using h by (simp add: vm_has_perm_def PTE_P_def)
qed

lemma stack_word_readable: "allows st pt PTE_P va \<Longrightarrow> \<exists>w. stack_word st pt va = Inr w"
  unfolding allows_def stack_word_def kptr_or_fault_def by (auto split: sum.splits dest: present_entry)

lemma bt_check_same: "bt_check st bt = Inr bt' \<Longrightarrow> bt_leaf bt' = bt_leaf bt \<and> bt_stack_top bt' = bt_stack_top bt \<and> bt_pt bt' = bt_pt bt"
  by (auto simp: bt_check_def Let_def res_bind_Inr split: if_splits)

lemma bt_check_ok:
  assumes "bt_check st bt = Inr bt'" "bt_ok bt'"
  shows "bt' = bt" "bt_rsp bt \<le> bt_rbp bt" "bt_rbp bt \<le> bt_stack_top bt" "16 \<le> bt_stack_top bt - bt_rbp bt"
    "allows_range st (bt_pt bt) PTE_P (bt_rbp bt) 16"
  using assms accessible_answer(2)[of st "bt_pt bt" "bt_rbp bt" 16]
  by (auto simp: bt_check_def Let_def res_bind_Inr bt_ok_def split: if_splits)

text \<open>A bound on the frames still to come: each frame below the leaf takes 16 bytes of the stack.\<close>

definition frames_left :: "backtracer \<Rightarrow> nat \<Rightarrow> bool" where
  "frames_left bt n \<longleftrightarrow> bt_ok bt \<longrightarrow>
     (if bt_leaf bt then bt_rsp bt \<le> bt_stack_top bt \<and> unat (bt_stack_top bt - bt_rsp bt) div 16 < n
      else bt_rbp bt \<le> bt_stack_top bt \<and> 16 \<le> bt_stack_top bt - bt_rbp bt \<and> unat (bt_stack_top bt - bt_rbp bt) div 16 \<le> n)"

definition readable :: "kmem \<Rightarrow> backtracer \<Rightarrow> bool" where
  "readable st bt \<longleftrightarrow> bt_ok bt \<longrightarrow>
     (if bt_leaf bt then allows_range st (bt_pt bt) PTE_P (bt_rsp bt) 8 else allows_range st (bt_pt bt) PTE_P (bt_rbp bt) 16)"

lemma next_frame:
  fixes rbp rbp' top :: u64
  assumes "rbp \<le> top" "16 \<le> top - rbp" "rbp + 16 \<le> rbp'" "rbp' \<le> top"
  shows "unat (top - rbp') div 16 < unat (top - rbp) div 16"
proof -
  have "unat top < 2 ^ 64" using unsigned_less[of top] by simp
  moreover have "unat (top - rbp) = unat top - unat rbp" using assms(1) by (rule unat_sub)
  moreover from this have "16 \<le> unat top - unat rbp" using assms(2) by (simp add: word_le_nat_alt)
  ultimately have "unat (rbp + 16) = unat rbp + 16" by (subst unat_word_ariths(1)) simp
  then have "unat rbp + 16 \<le> unat rbp'" using assms(3) by (simp add: word_le_nat_alt)
  moreover have "unat (top - rbp') = unat top - unat rbp'" using assms(4) by (rule unat_sub)
  moreover have "unat rbp' \<le> unat top" using assms(4) by (simp add: word_le_nat_alt)
  ultimately have "unat (top - rbp') + 16 \<le> unat (top - rbp)" using \<open>unat (top - rbp) = unat top - unat rbp\<close> by simp
  then have "(unat (top - rbp') + 16) div 16 \<le> unat (top - rbp) div 16" by (rule div_le_mono)
  then show ?thesis by simp
qed

lemma frames_left_pos:
  assumes "bt_ok bt" "frames_left bt n"
  shows "0 < n"
proof (cases "bt_leaf bt")
  case True
  then have "unat (bt_stack_top bt - bt_rsp bt) div 16 < n" using assms by (simp add: frames_left_def)
  then show ?thesis by (rule le_less_trans[OF le0])
next
  case False
  then have "16 \<le> unat (bt_stack_top bt - bt_rbp bt)" "unat (bt_stack_top bt - bt_rbp bt) div 16 \<le> n"
    using assms by (simp_all add: frames_left_def word_le_nat_alt)
  then show ?thesis using div_le_mono[of 16 "unat (bt_stack_top bt - bt_rbp bt)" 16] by simp
qed

lemma bt_step_frames:
  assumes "bt_ok bt" "frames_left bt (Suc n)" "bt_step st bt = Inr bt'"
  shows "frames_left bt' n" "readable st bt'"
proof -
  obtain b where b: "bt_check st b = Inr bt'" "bt_stack_top b = bt_stack_top bt" "\<not> bt_leaf b"
    "if bt_leaf bt then bt_rsp b = bt_rsp bt else bt_rsp b = bt_rbp bt + 16"
  proof (cases "bt_leaf bt")
    case True
    then have "bt_check st (bt\<lparr>bt_leaf := False\<rparr>) = Inr bt'" using assms(3) by (simp add: bt_step_def)
    then show ?thesis using True that[of "bt\<lparr>bt_leaf := False\<rparr>"] by simp
  next
    case False
    then obtain v where "bt_check st (bt\<lparr>bt_rsp := bt_rbp bt + 16, bt_rbp := v\<rparr>) = Inr bt'"
      using assms(3) by (cases "stack_word st (bt_pt bt) (bt_rbp bt)") (simp_all add: bt_step_def)
    then show ?thesis using False that[of "bt\<lparr>bt_rsp := bt_rbp bt + 16, bt_rbp := v\<rparr>"] by simp
  qed
  note same = bt_check_same[OF b(1)] and ok = bt_check_ok[OF b(1)]
  show "readable st bt'" unfolding readable_def
  proof
    assume "bt_ok bt'"
    from ok(1,5)[OF this] b(3) show "if bt_leaf bt' then allows_range st (bt_pt bt') PTE_P (bt_rsp bt') 8
      else allows_range st (bt_pt bt') PTE_P (bt_rbp bt') 16" by simp
  qed
  have bound: "unat (bt_stack_top b - bt_rbp b) div 16 \<le> n" if "bt_ok bt'"
  proof (cases "bt_leaf bt")
    case True
    have "bt_rsp b \<le> bt_rbp b" "bt_rbp b \<le> bt_stack_top b" using ok[OF that] by simp_all
    then have "unat (bt_stack_top b - bt_rbp b) \<le> unat (bt_stack_top b - bt_rsp b)"
      by (simp add: unat_sub word_le_nat_alt diff_le_mono2)
    then have "unat (bt_stack_top b - bt_rbp b) div 16 \<le> unat (bt_stack_top b - bt_rsp b) div 16" by (rule div_le_mono)
    then show ?thesis using assms(1,2) True b(2,4) by (simp add: frames_left_def)
  next
    case False
    then have "bt_rbp bt + 16 \<le> bt_rbp b" using b(4) ok(2)[OF that] by simp
    then have "unat (bt_stack_top bt - bt_rbp b) div 16 < unat (bt_stack_top bt - bt_rbp bt) div 16"
      using assms(1,2) False ok(3)[OF that] b(2) by (intro next_frame) (simp_all add: frames_left_def)
    then show ?thesis using assms(1,2) False b(2) by (simp add: frames_left_def)
  qed
  show "frames_left bt' n" unfolding frames_left_def
  proof
    assume "bt_ok bt'"
    from ok(1,3,4)[OF this] bound[OF this] b(3) show "if bt_leaf bt' then bt_rsp bt' \<le> bt_stack_top bt' \<and> unat (bt_stack_top bt' - bt_rsp bt') div 16 < n
      else bt_rbp bt' \<le> bt_stack_top bt' \<and> 16 \<le> bt_stack_top bt' - bt_rbp bt' \<and> unat (bt_stack_top bt' - bt_rbp bt') div 16 \<le> n" by simp
  qed
qed

lemma allows_range_at:
  assumes "allows_range st pt dp va sz" "unat d < unat sz"
  shows "allows st pt dp (va + d)"
proof -
  have "unat va + unat d < 2 ^ 64" using assms by (simp add: allows_range_def)
  then have "unat (va + d) = unat va + unat d" by (subst unat_word_ariths(1)) simp
  then show ?thesis using assms by (simp add: allows_range_def word_le_nat_alt)
qed

lemma readable_words:
  assumes "readable st bt" "bt_ok bt"
  shows "\<exists>rip. ret_rip st bt = Inr rip" "only_uninitialized (bt_step st bt)"
proof -
  have c: "only_uninitialized (bt_check st b)" for b
    by (auto simp: bt_check_def Let_def accessible_answer(1))
  show "\<exists>rip. ret_rip st bt = Inr rip"
    using assms allows_range_at[of st "bt_pt bt" PTE_P "bt_rsp bt" 8 0] allows_range_at[of st "bt_pt bt" PTE_P "bt_rbp bt" 16 8]
    by (auto simp: readable_def ret_rip_def intro!: stack_word_readable split: if_splits)
  show "only_uninitialized (bt_step st bt)"
  proof (cases "bt_leaf bt")
    case True
    then show ?thesis using c by (simp add: bt_step_def)
  next
    case False
    then have "allows st (bt_pt bt) PTE_P (bt_rbp bt)"
      using assms allows_range_at[of st "bt_pt bt" PTE_P "bt_rbp bt" 16 0] by (simp add: readable_def)
    from stack_word_readable[OF this] show ?thesis using False c by (auto simp: bt_step_def)
  qed
qed

lemma backtrace_loop_ends:
  "frames_left bt n \<Longrightarrow> \<exists>r. backtrace_loop kpt syms st bt = Some r \<and> (\<forall>frames st'. r = Inr (frames, st') \<longrightarrow> length frames \<le> n)
     \<and> (map_symtab kpt st = st \<and> readable st bt \<longrightarrow> only_uninitialized r)"
proof (induction n arbitrary: st bt)
  case 0
  then have "\<not> bt_ok bt" using frames_left_pos by blast
  then show ?case by (subst backtrace_loop.simps) simp
next
  case (Suc n)
  show ?case
  proof (cases "bt_ok bt")
    case False
    then show ?thesis by (subst backtrace_loop.simps) simp
  next
    case ok: True
    show ?thesis
    proof (cases "ret_rip st bt")
      case (Inl e)
      then have "\<not> readable st bt" using readable_words(1) ok by fastforce
      then show ?thesis using ok Inl by (subst backtrace_loop.simps) simp
    next
      case (Inr rip)
      define st2 where "st2 = map_symtab kpt st"
      show ?thesis
      proof (cases "bt_step st2 bt")
        case (Inl e)
        have "only_uninitialized (Inl e :: backtracer result)" if "map_symtab kpt st = st" "readable st bt"
          using readable_words(2)[OF that(2) ok] that(1) Inl by (simp add: st2_def)
        then show ?thesis using ok Inr Inl by (subst backtrace_loop.simps) (simp add: lookup_symbol_def st2_def)
      next
        case step: (Inr bt')
        note next_bt = bt_step_frames[OF ok Suc.prems step]
        obtain r where r: "backtrace_loop kpt syms st2 bt' = Some r" "\<forall>frames st'. r = Inr (frames, st') \<longrightarrow> length frames \<le> n"
          "map_symtab kpt st2 = st2 \<and> readable st2 bt' \<longrightarrow> only_uninitialized r" using Suc.IH[OF next_bt(1)] by blast
        have "backtrace_loop kpt syms st bt = Some (res_bind r (\<lambda>(frames, st). Inr ((rip, search syms (rip - 2) 0 (length syms)) # frames, st)))"
          using ok Inr step r(1) by (subst backtrace_loop.simps) (simp add: lookup_symbol_def st2_def)
        moreover have "map_symtab kpt st = st \<Longrightarrow> only_uninitialized r" using r(3) next_bt(2) by (simp add: st2_def)
        ultimately show ?thesis using r(2) by (cases r) auto
      qed
    qed
  qed
qed

lemma round_up_near:
  fixes x :: u64
  assumes "x \<le> round_up x PAGESIZE"
  shows "unat (round_up x PAGESIZE - x) < 4096"
proof -
  define y where "y = x + PAGESIZE - 1"
  have r: "round_up x PAGESIZE = y - y mod PAGESIZE" by (simp add: round_up_def round_down_def y_def)
  have m: "unat (y mod PAGESIZE) = unat y mod 4096" by (simp add: unat_mod PAGESIZE_def)
  have top: "unat (round_up x PAGESIZE) = unat y - unat y mod 4096"
    unfolding r using m by (subst unat_sub) (simp_all add: word_le_nat_alt)
  have y: "unat y = (unat x + 4095) mod 2 ^ 64"
  proof -
    have "y = x + 4095" by (simp add: y_def PAGESIZE_def)
    then show ?thesis by (simp only: unat_word_ariths(1)) simp
  qed
  have small: "unat x < 2 ^ 64" using unsigned_less[of x] by simp
  have diff: "unat (round_up x PAGESIZE - x) = unat y - unat y mod 4096 - unat x" using assms top by (simp add: unat_sub)
  have le: "unat x \<le> unat y - unat y mod 4096" using assms top by (simp add: word_le_nat_alt)
  show ?thesis
  proof (cases "unat x + 4095 < 2 ^ 64")
    case True
    then show ?thesis using y diff by simp
  next
    case False
    then obtain c where c: "unat x + 4095 = 2 ^ 64 + c" using le_Suc_ex not_less by blast
    then have "c < 2 ^ 64" using small by simp
    then have "unat y = c" unfolding y c by simp
    moreover have "c < unat x" using c by simp
    ultimately have "unat y < unat x" by simp
    then show ?thesis using le by linarith
  qed
qed

lemma fetch_code_uninitialized: "only_uninitialized (fetch_code n st it)"
proof (induction n arbitrary: it)
  case (Suc n)
  show ?case unfolding fetch_code.simps
    by (intro only_uninitialized_if only_uninitialized_bind only_uninitialized_prod Suc.IH walks_uninitialized only_uninitialized_simps(1))
qed simp

lemma check_leaf_result:
  assumes "check_leaf st rs bt = Inr bt'"
  shows "bt' = bt \<or> (bt' = bt\<lparr>bt_leaf := True\<rparr> \<and> bt_rsp bt \<le> bt_stack_top bt \<and> allows_range st (bt_pt bt) PTE_P (bt_rsp bt) 8)"
  using assms accessible_answer(2)[of st "bt_pt bt" "bt_rsp bt" 8]
  by (auto simp: check_leaf_def Let_def res_bind_Inr split: if_splits)

lemma check_leaf_uninitialized: "only_uninitialized (check_leaf st rs bt)"
proof -
  have w: "\<exists>w. stack_word st (bt_pt bt) (bt_rsp bt) = Inr w" if "accessible st (bt_pt bt) (bt_rsp bt) 8 = Inr True"
    using allows_range_at[OF accessible_answer(2)[OF that], of 0] by (intro stack_word_readable) simp
  show ?thesis unfolding check_leaf_def Let_def
    by (intro only_uninitialized_if only_uninitialized_bind only_uninitialized_prod accessible_answer(1) walks_uninitialized
        fetch_code_uninitialized only_uninitialized_simps(1)) (use w in auto)
qed

lemma new_backtracer_frames:
  assumes "new_backtracer st rs pt = Inr bt"
  shows "frames_left bt 256" "readable st bt"
proof -
  define b0 where "b0 = \<lparr>bt_rbp = reg_rbp rs, bt_rsp = reg_rsp rs, bt_stack_top = round_up (reg_rsp rs) PAGESIZE, bt_leaf = False, bt_pt = pt\<rparr>"
  have top: "bt_rsp b0 \<le> bt_stack_top b0 \<Longrightarrow> unat (bt_stack_top b0 - bt_rsp b0) < 4096"
    using round_up_near[of "reg_rsp rs"] by (simp add: b0_def)
  obtain b where b: "check_leaf st rs b0 = Inr b" "(if bt_leaf b then Inr b else bt_check st b) = Inr bt"
    using assms by (auto simp: new_backtracer_def res_bind_Inr simp flip: b0_def)
  have "frames_left bt 256 \<and> readable st bt"
  proof (cases "bt_leaf b")
    case True
    have "b \<noteq> b0" using True by (auto simp: b0_def)
    then have l: "bt = b0\<lparr>bt_leaf := True\<rparr>" "bt_rsp b0 \<le> bt_stack_top b0" "allows_range st (bt_pt b0) PTE_P (bt_rsp b0) 8"
      using check_leaf_result[OF b(1)] b(2) True by simp_all
    then show ?thesis using top by (simp add: frames_left_def readable_def less_mult_imp_div_less)
  next
    case False
    then have c: "bt_check st b0 = Inr bt" using check_leaf_result[OF b(1)] b(2) by auto
    note ok = bt_check_ok[OF c]
    have leaf: "\<not> bt_leaf b0" by (simp add: b0_def)
    have "unat (bt_stack_top b0 - bt_rbp b0) div 16 \<le> 256" if "bt_ok bt"
    proof -
      have r: "bt_rsp b0 \<le> bt_rbp b0" "bt_rbp b0 \<le> bt_stack_top b0" using ok(2,3)[OF that] .
      then have t: "unat (bt_stack_top b0 - bt_rsp b0) < 4096" using top order_trans[OF r] by blast
      have "bt_rsp b0 \<le> bt_stack_top b0" using order_trans[OF r] .
      then have "unat (bt_stack_top b0 - bt_rbp b0) \<le> unat (bt_stack_top b0 - bt_rsp b0)"
        using r by (simp add: unat_sub word_le_nat_alt diff_le_mono2)
      then have "unat (bt_stack_top b0 - bt_rbp b0) < 16 * 256" using t by simp
      then show ?thesis using less_mult_imp_div_less[of "unat (bt_stack_top b0 - bt_rbp b0)" 256 16] by simp
    qed
    then show ?thesis using ok leaf by (auto simp: frames_left_def readable_def)
  qed
  then show "frames_left bt 256" "readable st bt" by simp_all
qed

lemma new_backtracer_uninitialized: "only_uninitialized (new_backtracer st rs pt)"
  unfolding new_backtracer_def
  by (intro only_uninitialized_bind only_uninitialized_if check_leaf_uninitialized only_uninitialized_simps(1))
    (auto simp: bt_check_def Let_def accessible_answer(1))

text \<open>
  C21. \<open>print_backtrace\<close> always ends, on every memory: frame pointers that form a cycle or point anywhere cannot make the
  kernel loop in its panic, and at most 257 frames are printed. It reads the stack only through pages the page table maps:
  once the symbol table is mapped, the one way to fail is a page table that holds uninitialized memory.
\<close>

theorem backtrace_ends:
  "\<exists>r. print_backtrace kpt syms st rs pt exclude_rip = Some r
     \<and> (\<forall>tr st'. r = Inr (tr, st') \<longrightarrow> length (trace_frames tr) \<le> 257)
     \<and> (map_symtab kpt st = st \<longrightarrow> only_uninitialized r)"
proof (cases "new_backtracer st rs pt")
  case (Inl e)
  then show ?thesis using new_backtracer_uninitialized[of st rs pt] by (simp add: print_backtrace_def)
next
  case (Inr bt)
  obtain first st2 where first: "(if \<not> exclude_rip \<and> reg_rip rs \<noteq> 0 then (case lookup_symbol kpt syms (reg_rip rs) st of (name, st) \<Rightarrow> ([(reg_rip rs, name)], st))
      else ([], st)) = (first, st2)" "length first \<le> 1" "map_symtab kpt st = st \<Longrightarrow> st2 = st"
    by (cases "\<not> exclude_rip \<and> reg_rip rs \<noteq> 0") (auto simp: lookup_symbol_def)
  obtain r where r: "backtrace_loop kpt syms st2 bt = Some r" "\<forall>frames st'. r = Inr (frames, st') \<longrightarrow> length frames \<le> 256"
    "map_symtab kpt st2 = st2 \<and> readable st2 bt \<longrightarrow> only_uninitialized r"
    using backtrace_loop_ends[OF new_backtracer_frames(1)[OF Inr]] by blast
  have un: "map_symtab kpt st = st \<Longrightarrow> only_uninitialized r" using r(3) first(3) new_backtracer_frames(2)[OF Inr] by auto
  have eq: "print_backtrace kpt syms st rs pt exclude_rip = Some (res_bind r (\<lambda>(frames, st). Inr (\<lparr>stack_overflow =
      bt_rsp bt \<noteq> bt_rbp bt \<and> round_up (bt_rsp bt) PAGESIZE = round_down (bt_rbp bt) PAGESIZE, trace_frames = first @ frames\<rparr>, st)))"
    using Inr first(1) r(1) by (simp add: print_backtrace_def)
  show ?thesis using eq r(2) first(2) un by (cases r) (auto intro: add_mono[of _ 1 _ 256, simplified])
qed

theorem backtrace_ends_witness:
  "\<exists>tr st'. print_backtrace 0x2000 [] \<lparr>pmem = (\<lambda>_ _. 0), refcount = (\<lambda>_. 0)\<rparr> (zero_regs\<lparr>reg_rip := 0x40000\<rparr>) 0 False = Some (Inr (tr, st'))
     \<and> trace_frames tr = [(0x40000, None)] \<and> length (trace_frames tr) \<le> 257"
proof -
  let ?st = "\<lparr>pmem = (\<lambda>_ _. 0) :: u64 \<Rightarrow> nat \<Rightarrow> u64, refcount = (\<lambda>_. 0)\<rparr>"
  have "new_backtracer ?st (zero_regs\<lparr>reg_rip := 0x40000\<rparr>) 0 = Inr \<lparr>bt_rbp = 0, bt_rsp = 0, bt_stack_top = 0, bt_leaf = False, bt_pt = 0\<rparr>"
    by (simp add: new_backtracer_def check_leaf_def bt_check_def zero_regs_def round_up_def round_down_def PAGESIZE_def)
  then have "print_backtrace 0x2000 [] ?st (zero_regs\<lparr>reg_rip := 0x40000\<rparr>) 0 False =
      Some (Inr (\<lparr>stack_overflow = False, trace_frames = [(0x40000, None)]\<rparr>, map_symtab 0x2000 ?st))"
    by (simp add: print_backtrace_def backtrace_loop.simps bt_ok_def lookup_symbol_def search.simps)
  then show ?thesis using backtrace_ends[of "0x2000" "[]" ?st "zero_regs\<lparr>reg_rip := 0x40000\<rparr>" 0 False] by auto
qed

section \<open>Messages are what the process can read\<close>

definition user_byte :: "kmem \<Rightarrow> u64 \<Rightarrow> u64 \<Rightarrow> u8 option" where
  "user_byte st pt va = (case new_vmiter st pt va of Inl e \<Rightarrow> None
     | Inr it \<Rightarrow> if vm_user st it then Some (load_byte st (vm_kptr st it)) else None)"

lemma user_kptr: "vm_user st it \<Longrightarrow> kptr_or_fault st it = Inr (vm_kptr st it)"
proof -
  assume "vm_user st it"
  then have "vm_perm st it AND (PTE_P OR PTE_U) = PTE_P OR PTE_U" by (simp add: vm_user_def vm_has_perm_def)
  moreover have "(PTE_P OR PTE_U) AND PTE_P = PTE_P" by (simp add: PTE_P_def PTE_U_def)
  ultimately have "vm_has_perm st it PTE_P" unfolding vm_has_perm_def by (metis and.assoc)
  from present_entry[OF this] show ?thesis by (simp add: kptr_or_fault_def)
qed

lemma add_is_walk: "new_vmiter st pt va = Inr it \<Longrightarrow> vm_add st 1 it = new_vmiter st pt (va + 1)"
  using real_find_eq[of st pt va it "va + 1" False] new_vmiter_va[of st pt va it] by (simp add: vm_add_def vm_find_def)

lemma copy_user_bytes:
  assumes "new_vmiter st pt va = Inr it"
  shows "only_uninitialized (copy_user room st it) \<and> (\<forall>bs. copy_user room st it = Inr bs \<longrightarrow>
     length bs \<le> room \<and> (\<forall>i < length bs. user_byte st pt (va + of_nat i) = Some (bs ! i))
     \<and> (length bs < room \<longrightarrow> user_byte st pt (va + of_nat (length bs)) = None))"
  using assms
proof (induction room arbitrary: va it)
  case 0
  then show ?case by simp
next
  case (Suc room)
  show ?case
  proof (cases "vm_user st it")
    case False
    then show ?thesis using Suc.prems by (simp add: user_byte_def)
  next
    case user: True
    have b: "user_byte st pt va = Some (load_byte st (vm_kptr st it))" using user Suc.prems by (simp add: user_byte_def)
    have eq: "copy_user (Suc room) st it = res_bind (new_vmiter st pt (va + 1)) (\<lambda>it'.
        res_bind (copy_user room st it') (\<lambda>bs. Inr (load_byte st (vm_kptr st it) # bs)))"
      using user by (simp add: user_kptr add_is_walk[OF Suc.prems])
    show ?thesis
    proof (cases "new_vmiter st pt (va + 1)")
      case (Inl e)
      then show ?thesis using walks_uninitialized(1)[of st pt "va + 1"] by (simp add: eq del: copy_user.simps)
    next
      case (Inr it')
      note IH = Suc.IH[OF Inr]
      show ?thesis
      proof (cases "copy_user room st it'")
        case (Inl e)
        then show ?thesis using IH Inr by (simp add: eq del: copy_user.simps)
      next
        case r: (Inr bs)
        then have h: "length bs \<le> room" "\<And>i. i < length bs \<Longrightarrow> user_byte st pt (va + 1 + of_nat i) = Some (bs ! i)"
          "length bs < room \<Longrightarrow> user_byte st pt (va + 1 + of_nat (length bs)) = None" using IH by blast+
        have "user_byte st pt (va + of_nat i) = Some ((load_byte st (vm_kptr st it) # bs) ! i)" if "i < Suc (length bs)" for i
          using that b h(2)[of "i - 1"] by (cases i) (simp_all add: add.assoc)
        then show ?thesis using h(1,3) Inr r by (simp add: eq add.assoc del: copy_user.simps)
      qed
    qed
  qed
qed

text \<open>
  C22. The message of \<open>sys_panic\<close> is the string of the process that it can read itself: every byte printed is at the next
  address from \<open>%rdi\<close> on, in a page that the process may access, whatever address it passes; the message stops at the
  first zero byte or inaccessible address, and at 255 bytes. Only a page table with uninitialized memory makes it fail.
\<close>

theorem panic_message_is_user_memory:
  "only_uninitialized (user_panic_text st p) \<and> (\<forall>msg. user_panic_text st p = Inr (Some msg) \<longrightarrow>
     length msg < 256
     \<and> (\<forall>i < length msg. user_byte st (pagetable p) (reg_rdi (regs p) + of_nat i) = Some (msg ! i) \<and> msg ! i \<noteq> 0)
     \<and> (length msg < 255 \<longrightarrow> user_byte st (pagetable p) (reg_rdi (regs p) + of_nat (length msg)) \<in> {None, Some 0}))"
proof (cases "reg_rdi (regs p) = 0")
  case True
  then show ?thesis by (simp add: user_panic_text_def)
next
  case False
  define pt va where "pt = pagetable p" and "va = reg_rdi (regs p)"
  show ?thesis
  proof (cases "new_vmiter st pt va")
    case (Inl e)
    then show ?thesis using False walks_uninitialized(1)[of st pt va] by (simp add: user_panic_text_def pt_def va_def)
  next
    case (Inr it)
    note c = copy_user_bytes[OF Inr, of 255]
    show ?thesis
    proof (cases "copy_user 255 st it")
      case (Inl e)
      then show ?thesis using False Inr c by (simp add: user_panic_text_def strlcpy_from_user_def pt_def va_def)
    next
      case r: (Inr bs)
      define msg where "msg = takeWhile (\<lambda>b. b \<noteq> 0) bs"
      have h: "length bs \<le> 255" "\<And>i. i < length bs \<Longrightarrow> user_byte st pt (va + of_nat i) = Some (bs ! i)"
        "length bs < 255 \<Longrightarrow> user_byte st pt (va + of_nat (length bs)) = None" using c r by blast+
      have "takeWhile (\<lambda>b. b \<noteq> 0) (bs @ [0]) = msg" unfolding msg_def by (induction bs) simp_all
      then have t: "user_panic_text st p = Inr (Some msg)"
        using False Inr r h(1) by (simp add: user_panic_text_def strlcpy_from_user_def pt_def va_def)
      have len: "length msg \<le> length bs" by (simp add: msg_def length_takeWhile_le)
      have bytes: "user_byte st pt (va + of_nat i) = Some (msg ! i) \<and> msg ! i \<noteq> 0" if "i < length msg" for i
        using that len h(2)[of i] nth_mem[of i msg] by (auto simp: msg_def takeWhile_nth dest: set_takeWhileD)
      have "user_byte st pt (va + of_nat (length msg)) \<in> {None, Some 0}" if "length msg < 255"
      proof (cases "length msg < length bs")
        case True
        then have "bs ! length msg = 0" using nth_length_takeWhile[of "\<lambda>b. b \<noteq> 0" bs] by (simp add: msg_def)
        then show ?thesis using h(2)[OF True] by simp
      next
        case False
        then show ?thesis using h(3) len that by simp
      qed
      then show ?thesis using t len h(1) bytes by (simp add: pt_def va_def)
    qed
  qed
qed

text \<open>A process with one page, at \<open>0x100000\<close>, that ends with the bytes of Hi.\<close>

definition message_memory :: kmem where
  "message_memory = \<lparr>pmem = (\<lambda>pg i.
     if pg = 0x1000 \<and> i = 0 then 0x2007 else if pg = 0x2000 \<and> i = 0 then 0x3007 else if pg = 0x3000 \<and> i = 0 then 0x4007
     else if pg = 0x4000 \<and> i = 256 then 0x5007 else if pg = 0x5000 \<and> i = 511 then 0x6948000000000000 else 0), refcount = (\<lambda>_. 0)\<rparr>"

definition message_proc :: proc where
  "message_proc = \<lparr>pagetable = 0x1000, pid = 1, state = P_RUNNABLE, regs = zero_regs\<lparr>reg_rdi := 0x100FFE\<rparr>\<rparr>"

lemma message_walk:
  assumes "va \<in> {0x100FFE, 0x100FFF, 0x101000}"
  shows "new_vmiter message_memory 0x1000 va = Inr (at_table 0x1000 va 0x4000 12 0xFFF)"
proof -
  have ix: "va_index va 39 = 0" "va_index va 30 = 0" "va_index va 21 = 0" "va_index va 12 = (if va = 0x101000 then 257 else 256)"
    using assms by (auto simp: va_index_def)
  have m: "pmem message_memory 0x1000 0 = 0x2007" "pmem message_memory 0x2000 0 = 0x3007" "pmem message_memory 0x3000 0 = 0x4007"
    "pmem message_memory 0x4000 (va_index va 12) = (if va = 0x101000 then 0 else 0x5007)"
    by (simp_all add: message_memory_def ix)
  have "vm_down_loop message_memory (at_table 0x1000 va 0x1000 39 0xFFF) = at_table 0x1000 va 0x4000 12 0xFFF"
    by (subst down_at_table, subst down_at_table, subst down_at_table, subst down_at_table)
      (simp add: m ix is_table_def PTE_P_def PTE_PS_def PTE_W_def PTE_U_def PTE_PAMASK_def PAGEOFFBITS_def PAGEINDEXBITS_def Let_def)
  then show ?thesis using assms m
    by (auto simp: new_vmiter_eq vm_down_def read_entry_def at_table_def va_is_canonical_def VA_LOWMAX_def initial_lbits_def initial_perm_def
        PTE_PAMASK_def)
qed

lemma message_bytes:
  defines "walk va \<equiv> at_table 0x1000 va 0x4000 12 0xFFF"
  shows "vm_user message_memory (walk 0x100FFE)" "vm_user message_memory (walk 0x100FFF)" "\<not> vm_user message_memory (walk 0x101000)"
    "load_byte message_memory (vm_kptr message_memory (walk 0x100FFE)) = 0x48"
    "load_byte message_memory (vm_kptr message_memory (walk 0x100FFF)) = 0x69"
proof -
  have m: "pmem message_memory 0x4000 256 = 0x5007" "pmem message_memory 0x4000 257 = 0" "pmem message_memory 0x5000 511 = 0x6948000000000000"
    by (simp_all add: message_memory_def)
  show "vm_user message_memory (walk 0x100FFE)" "vm_user message_memory (walk 0x100FFF)" "\<not> vm_user message_memory (walk 0x101000)"
    "load_byte message_memory (vm_kptr message_memory (walk 0x100FFE)) = 0x48"
    "load_byte message_memory (vm_kptr message_memory (walk 0x100FFF)) = 0x69"
    by (simp_all add: m walk_def vm_user_def vm_has_perm_def vm_perm_def read_entry_def at_table_def vm_kptr_def vm_pa_def
        va_index_def PTE_P_def PTE_U_def PTE_PAMASK_def PAGEOFFBITS_def lbits_mask_eq mask_eq_exp_minus_1 Let_def
        load_byte_def load_word_def round_down_def PAGESIZE_def)
qed

lemma message_text: "user_panic_text message_memory message_proc = Inr (Some [0x48, 0x69])"
proof -
  have n: "(255 :: nat) = Suc (Suc (Suc 252))" by simp
  have step: "vm_add message_memory 1 (at_table 0x1000 va 0x4000 12 0xFFF) = Inr (at_table 0x1000 (va + 1) 0x4000 12 0xFFF)"
    if "va \<in> {0x100FFE, 0x100FFF}" for va
    using that message_walk[of va] message_walk[of "va + 1"] by (auto simp: add_is_walk)
  have "copy_user 255 message_memory (at_table 0x1000 0x100FFE 0x4000 12 0xFFF) = Inr [0x48, 0x69]"
    unfolding n copy_user.simps using step[of "0x100FFE"] step[of "0x100FFF"] by (simp add: message_bytes user_kptr)
  then show ?thesis using message_walk[of "0x100FFE"]
    by (simp add: user_panic_text_def message_proc_def strlcpy_from_user_def)
qed

theorem panic_message_is_user_memory_witness:
  "user_panic_text message_memory message_proc = Inr (Some [0x48, 0x69]) \<and> user_byte message_memory 0x1000 0x100FFF = Some 0x69
     \<and> user_byte message_memory 0x1000 0x101000 \<in> {None, Some 0}"
  using panic_message_is_user_memory[of message_memory message_proc] message_text
  by (simp add: message_proc_def) (auto simp: nth_Cons' dest: spec[of _ 1] spec[of _ "Suc 0"])

end
