(* ===== verification/Spec2Isabelle.thy ===== *)
theory Spec2Isabelle
  imports Prelude Common_Utils Common_Shard Std_Map Common_Config Kv_Commands Kv_Interface Simple_Kv
    Concurrent_Kv Concurrent_Locks Net_Wire Net_Transport Kv_Server Shard_Controller Kv_Client Repl_Cmds
    Dmalloc_Base Byte_Memory Dmalloc Dmalloc_Props File_Posix File_Student File_Student_Facts File_Naive
    Snake_List Snake_Game Snake_Setup Snake_Text
    Weensy_Pages Weensy_Vm Weensy_Map Weensy_Walk Weensy_Proc Weensy_Memviewer Weensy_Kernel Weensy_Syscalls Weensy_Fork Weensy_Exit Weensy_Memusage Weensy_Lib Weensy_Printf Weensy_Keyboard Weensy_Debug
begin

text \<open>
  A verification development for a repository of systems projects: a distributed key-value store
  (\<open>src/kvstore\<close>), a debugging allocator (\<open>src/dmalloc\<close>), a caching file I/O library (\<open>src/fileio\<close>), a
  terminal game (\<open>src/snake\<close>) and a teaching kernel (\<open>src/weensyos\<close>). The projects are independent
  programs; the theories follow them.

  \<^bold>\<open>Conventions.\<close> \<open>Prelude\<close> holds what all share. A function that can fail returns \<open>'a result\<close>, whose
  errors are a failed assertion, a thrown exception, a call that never returns, or an access the language
  leaves undefined; every return, exception and error path of the source is a branch of its definition.
  \<open>size_t\<close> values are naturals with the wrap-around written out (\<open>sz_add\<close>, \<open>sz_sub\<close>, \<open>sz_mul\<close>), bit fields
  and bytes are words. State is passed explicitly. Loops are structural recursions or have a termination
  proof; the loops over linked nodes are \<open>partial_function (option)\<close>, whose termination on well-formed
  lists is part of the properties.

  \<^bold>\<open>Key-value store.\<close>
  \<^item> \<open>Common_Utils\<close>, \<open>Common_Shard\<close>, \<open>Std_Map\<close>, \<open>Common_Config\<close>: \<open>common/utils.cpp\<close>, \<open>shard.hpp\<close> and
    \<open>shard.cpp\<close> (buckets and keys, splitting, overlap), the dictionaries of the standard library (locale
    \<open>dict\<close>, interpreted on association lists and on tables of buckets), \<open>config.cpp\<close>.
  \<^item> \<open>Kv_Commands\<close>, \<open>Kv_Interface\<close>: the requests and responses of \<open>net/server_commands.hpp\<close>, and the
    virtual functions of \<open>KvStore\<close> as a record of operations with the laws its users rely on (locales
    \<open>kv_store\<close> and \<open>kv_live\<close>).
  \<^item> \<open>Simple_Kv\<close>: \<open>kvstore/simple_kvstore.cpp\<close>, one mutex and one table; a failing operation leaves the
    mutex locked. \<open>Concurrent_Kv\<close>, \<open>Concurrent_Locks\<close>: \<open>concurrent_kvstore.cpp\<close>, the operations run alone
    and their interleavings as a step relation over locked buckets: races, atomicity, deadlock.
  \<^item> \<open>Net_Wire\<close>, \<open>Net_Transport\<close>: the byte format of messages (locale \<open>codec\<close>), and sending and receiving
    them over a socket that moves any number of bytes at a time.
  \<^item> \<open>Kv_Server\<close>, \<open>Shard_Controller\<close>, \<open>Kv_Client\<close>, \<open>Repl_Cmds\<close>: the server, the controller, the clients
    and the command line; the requests of a client are carried to the server's \<open>process_request\<close>, so that
    the client's theorems compose those of the store and the server.

  \<^bold>\<open>Debugging allocator.\<close> \<open>Dmalloc_Base\<close> is \<open>basealloc.cc\<close> with its guarantees as the locale
  \<open>base_allocator\<close>; \<open>Byte_Memory\<close> a memory of bytes and little-endian words; \<open>Dmalloc\<close> is \<open>dmalloc.cc\<close> and
  \<open>Dmalloc_Props\<close> its reachable states: the invariant, the errors \<open>dfree\<close> reports, \<open>dcalloc\<close>.

  \<^bold>\<open>File I/O.\<close> \<open>File_Posix\<close> states what the library uses of the operating system (locale \<open>posix_file\<close>,
  interpreted on a file of bytes with an offset, open for writing; a file open for reading only refuses every write) and of the stack;
  \<open>File_Student\<close> is \<open>impl/student.c\<close>, \<open>File_Student_Facts\<close>
  its refinement of an abstract file, \<open>File_Naive\<close> is \<open>impl/naive.c\<close> and the equivalence of both in every mode.

  \<^bold>\<open>Snake.\<close> \<open>Snake_List\<close> is \<open>linked_list.c\<close> over a heap of nodes and refines lists; \<open>Snake_Game\<close> the step
  and the loop of the game with its invariant; \<open>Snake_Setup\<close> the parser of boards and \<open>initialize_game\<close>,
  with memory that may be uninitialised; \<open>Snake_Text\<close> UTF-8 lengths and the reading of the name.

  \<^bold>\<open>WeensyOS.\<close> Physical memory is a map from page addresses to 512 words and a count for each page.
  \<^item> \<open>Weensy_Pages\<close>: \<open>kalloc\<close> and \<open>kfree\<close> of \<open>kernel.cc\<close>, and the constants of \<open>x86-64.h\<close>. \<open>Weensy_Vm\<close>: the
    iterators \<open>vmiter\<close> and \<open>ptiter\<close> of \<open>k-vmiter.cc\<close>, whose moves agree with walks from the root.
  \<^item> \<open>Weensy_Map\<close> gives a page table its meaning, the function \<open>lookup\<close> from addresses to pages and
    permissions, and shows what \<open>try_map\<close> does to it: one page changes, tables are added, and the tables stay a
    tree of distinct pages (\<open>vm_ok\<close>); the page table of the kernel, which also has large pages, is \<open>walkable\<close>. \<open>Weensy_Walk\<close> shows that a \<open>ptiter\<close> visits each table page once, children
    before parents.
  \<^item> \<open>Weensy_Proc\<close> and \<open>Weensy_Kernel\<close>: processes, \<open>kernel_start\<close>, the system calls, exceptions and the scheduler.
    \<open>Weensy_Syscalls\<close>, \<open>Weensy_Fork\<close> and \<open>Weensy_Exit\<close> prove \<open>sys_page_alloc\<close>, \<open>sys_fork\<close> and \<open>sys_exit\<close> in terms of
    \<open>lookup\<close> and the counts of the pages: what the process is given, what the child gets, that what a process
    held below \<open>MEMSIZE_VIRTUAL\<close> is given back, and what happens at addresses the specification of the calls excludes, and that a fork followed by the exit of the child changes no count.
  \<^item> \<open>Weensy_Memviewer\<close> is the memory viewer of \<open>k-memviewer.cc\<close>, which walks all page tables to draw the use of each
    page; \<open>Weensy_Memusage\<close> shows what its marks mean and that leaked pages are drawn as such.
  \<^item> \<open>Weensy_Lib\<close>: the functions of \<open>lib.cc\<close> on memory, strings, numbers and random numbers; \<open>Weensy_Printf\<close>:
    \<open>vprintf\<close> over any printer (locale \<open>printer\<close>), interpreted on the string printer of \<open>vsnprintf\<close> and on the
    console printer.
  \<^item> \<open>Weensy_Keyboard\<close>: the keyboard driver over the bytes it reads; \<open>Weensy_Debug\<close>: what a panic looks at, the symbol
    table, the stack frames and the message of the process, for memories that may be broken.

  \<^bold>\<open>Bounds and fuel.\<close> \<open>io300_read\<close> and \<open>io300_write\<close> call themselves for the next block, to the depth of calls that
  the stack has room for; more frames than bytes suffice, because every call but the last moves at least one byte (proved in \<open>File_Student_Facts\<close>).
  \<open>place_food\<close>, \<open>fill_cells\<close> and the digit loops recurse over the counter of the source. Lists and strings
  are shorter than \<open>2 ^ 64\<close> where a size is computed. The loops over the pages of an address range have one
  round more than there are pages below the limit; \<open>schedule\<close> looks at each process once, after which it
  would look at the same table again; the memory viewer has a round more than there are pages to draw; the walks over
  a page table are partial functions, shown to end for every well-formed page table; \<open>strstr\<close> has a round for each pair of places in its strings (its theorem
  shows that it never runs out).

  \<^bold>\<open>Parameters.\<close> What \<open>malloc\<close> of the C library returns, what each system call does, the numbers of
  \<open>rand\<close>, the keys pressed, the programs in the image of the kernel and the addresses the linker gives it, and the iteration order of a hash table are arguments of the definitions, with
  what the code relies on stated as locale assumptions or hypotheses.

  \<^bold>\<open>Not modelled.\<close> Opening sockets, starting and joining threads, curses and terminal output beyond what
  is drawn where; the rest of the vendored serialiser \<open>zpp_bits.hpp\<close>; \<open>fileio/impl/student_old.c\<close>, an
  unused earlier version, and \<open>stdio.c\<close>, which forwards to the C library; tests, scripts, build files. Of
  \<open>weensyos\<close>: booting and devices, which run assembly or drive hardware; the messages of the kernel to the
  console and the log, except what the memory viewer draws and the parts of a panic in \<open>Weensy_Debug\<close>; keys typed while it runs; the user programs and the build tools.
\<close>

end
